(* ===== verification/Prelude.thy ===== *)
theory Prelude
  imports Main "HOL-Library.Word" "HOL-Library.Product_Lexorder" "HOL-Library.Monad_Syntax"
begin

unbundle bit_operations_syntax

text \<open>
  Shared vocabulary of the development: the machine types of the Rust sources, the error
  type of \<^verbatim>\<open>nova-core/src/error.rs\<close>, the library operations on slices the sources use
  (\<^verbatim>\<open>partition_point\<close>, \<^verbatim>\<open>dedup\<close>, \<^verbatim>\<open>sort_unstable\<close>) and the generic lemmas on sorted
  lists, options and bits that the component theories rely on.
\<close>

section \<open>Collections of facts\<close>

named_theorems codec_simps \<open>decoder equations for the byte formats\<close>
named_theorems slice_simps \<open>slice operations of the Rust standard library\<close>
named_theorems bit_bounds \<open>bits of bounded machine integers\<close>

section \<open>Machine types and results\<close>

type_synonym u8 = "8 word"
type_synonym u32 = "32 word"
type_synonym u64 = "64 word"
type_synonym u128 = "128 word"
type_synonym bytes = "u8 list"

text \<open>The error values of \<^verbatim>\<open>nova-core/src/error.rs\<close> that the modelled code raises.\<close>

datatype oxi_error =
    IdSpaceExhausted
  | GraphSpaceExhausted
  | Storage string

type_synonym 'a result = "oxi_error + 'a"

text \<open>The sources' \<open>?\<close> operator: stop at the first error.\<close>

definition and_then :: "'a result \<Rightarrow> ('a \<Rightarrow> 'b result) \<Rightarrow> 'b result" where
  "and_then r f = (case r of Inl e \<Rightarrow> Inl e | Inr x \<Rightarrow> f x)"

lemma and_then_simps [simp]: "and_then (Inl e) f = Inl e" "and_then (Inr x) f = f x"
  by (simp_all add: and_then_def)

lemma and_then_Inr_iff: "and_then r f = Inr y \<longleftrightarrow> (\<exists>x. r = Inr x \<and> f x = Inr y)"
  by (cases r) auto

lemma and_then_cong [fundef_cong]:
  "r = r' \<Longrightarrow> (\<And>x. r' = Inr x \<Longrightarrow> f x = f' x) \<Longrightarrow> and_then r f = and_then r' f'"
  by (cases r') auto

text \<open>A state-changing call that may panic or return an error, and the \<open>?\<close> operator on it.\<close>

type_synonym ('d, 'a) outcome = "('d \<times> 'a result) option"

definition seq :: "('d, 'a) outcome \<Rightarrow> ('d \<Rightarrow> 'a \<Rightarrow> ('d, 'b) outcome) \<Rightarrow> ('d, 'b) outcome" where
  "seq r f = (case r of None \<Rightarrow> None | Some (d, Inl e) \<Rightarrow> Some (d, Inl e) | Some (d, Inr x) \<Rightarrow> f d x)"

lemma seq_simps [simp]:
  "seq None f = None" "seq (Some (d, Inl e)) f = Some (d, Inl e)" "seq (Some (d, Inr x)) f = f d x"
  by (simp_all add: seq_def)

lemma seq_Some_cases:
  assumes "seq out f = Some (d', r)"
  obtains e where "out = Some (d', Inl e)" "r = Inl e" | d x where "out = Some (d, Inr x)" "f d x = Some (d', r)"
  using assms by (auto simp: seq_def split: option.splits prod.splits sum.splits)

lemma seq_cong [fundef_cong]:
  "r = r' \<Longrightarrow> (\<And>d x. r' = Some (d, Inr x) \<Longrightarrow> f d x = f' d x) \<Longrightarrow> seq r f = seq r' f'"
  by (auto simp: seq_def split: option.splits prod.splits sum.splits)

section \<open>Bits of bounded words\<close>

lemma unat_less_power_iff_bits:
  fixes x :: "'a::len word"
  shows "unat x < 2 ^ k \<longleftrightarrow> (\<forall>n. bit x n \<longrightarrow> n < k)"
proof -
  have "unat x < 2 ^ k \<longleftrightarrow> take_bit k (unat x) = unat x"
    by (simp add: take_bit_nat_eq_self_iff)
  also have "\<dots> \<longleftrightarrow> (\<forall>n. bit x n \<longrightarrow> n < k)"
    by (auto simp: bit_eq_iff bit_take_bit_iff bit_unsigned_iff)
  finally show ?thesis .
qed

lemma bit_less_power [bit_bounds]:
  fixes x :: "'a::len word"
  shows "unat x < 2 ^ k \<Longrightarrow> bit x n \<Longrightarrow> n < k"
  using unat_less_power_iff_bits by blast

section \<open>Positional numbers\<close>

lemma digits_less_iff:
  fixes a b x y :: nat
  assumes "x < m" and "y < m"
  shows "a * m + x < b * m + y \<longleftrightarrow> a < b \<or> a = b \<and> x < y"
proof (cases a b rule: linorder_cases)
  case less
  then have "Suc a * m \<le> b * m" by (intro mult_le_mono1) simp
  with assms less show ?thesis by simp
next
  case greater
  then have "Suc b * m \<le> a * m" by (intro mult_le_mono1) simp
  with assms greater show ?thesis by simp
qed simp

lemma digits_eq_iff:
  fixes a b x y :: nat
  assumes "x < m" and "y < m"
  shows "a * m + x = b * m + y \<longleftrightarrow> a = b \<and> x = y"
  using digits_less_iff [OF assms, of a b] digits_less_iff [OF assms(2,1), of b a]
  by (metis less_irrefl nat_neq_iff)

section \<open>Ordered maps\<close>

text \<open>
  The standard library's \<^verbatim>\<open>BTreeMap\<close> as the association list of its iteration order:
  strictly ascending keys. \<open>bt_range lo hi\<close> is \<^verbatim>\<open>range(lo..=hi)\<close>.
\<close>

type_synonym ('k, 'v) btree_map = "('k \<times> 'v) list"

abbreviation bt_ok :: "('k::linorder, 'v) btree_map \<Rightarrow> bool" where
  "bt_ok m \<equiv> sorted_wrt (<) (map fst m)"

fun bt_insert :: "'k::linorder \<Rightarrow> 'v \<Rightarrow> ('k, 'v) btree_map \<Rightarrow> ('k, 'v) btree_map" where
  "bt_insert k v [] = [(k, v)]"
| "bt_insert k v ((k', v') # m) =
     (if k < k' then (k, v) # (k', v') # m
      else if k = k' then (k, v) # m
      else (k', v') # bt_insert k v m)"

definition bt_get :: "('k::linorder, 'v) btree_map \<Rightarrow> 'k \<Rightarrow> 'v option" where
  "bt_get m k = map_of m k"

definition bt_range :: "('k::linorder, 'v) btree_map \<Rightarrow> 'k \<Rightarrow> 'k \<Rightarrow> ('k, 'v) btree_map" where
  "bt_range m lo hi = filter (\<lambda>(k, _). lo \<le> k \<and> k \<le> hi) m"

lemma bt_get_Nil [simp]: "bt_get [] k = None"
  by (simp add: bt_get_def)

lemma set_keys_bt_insert [simp]: "set (map fst (bt_insert k v m)) = insert k (set (map fst m))"
  by (induction k v m rule: bt_insert.induct) auto

lemma bt_ok_insert [intro]: "bt_ok m \<Longrightarrow> bt_ok (bt_insert k v m)"
  by (induction k v m rule: bt_insert.induct) (auto simp del: set_map simp flip: set_map)

lemma bt_get_insert [simp]: "bt_get (bt_insert k v m) k' = (if k' = k then Some v else bt_get m k')"
  by (induction k v m rule: bt_insert.induct) (auto simp: bt_get_def)

lemma bt_ok_distinct: "bt_ok m \<Longrightarrow> distinct (map fst m)"
  by (simp add: strict_sorted_iff)

lemma bt_get_Some_iff: "bt_ok m \<Longrightarrow> bt_get m k = Some v \<longleftrightarrow> (k, v) \<in> set m"
  by (simp add: bt_get_def bt_ok_distinct)

lemma set_bt_range: "set (bt_range m lo hi) = {(k, v) \<in> set m. lo \<le> k \<and> k \<le> hi}"
  by (auto simp: bt_range_def)

lemma bt_ok_range [intro]: "bt_ok m \<Longrightarrow> bt_ok (bt_range m lo hi)"
  by (induction m) (auto simp: bt_range_def)

section \<open>Slices\<close>

text \<open>
  Slice operations of the Rust standard library. A value \<open>None\<close> of an operation in the
  option monad is a panic (an index or a range out of bounds). \<open>partition_point\<close> is used by
  the sources on partitioned slices only, where it is the length of the matching prefix.
\<close>

definition slice_of :: "'a list \<Rightarrow> nat \<Rightarrow> nat \<Rightarrow> 'a list option" where
  "slice_of xs lo hi =
     (if lo \<le> hi \<and> hi \<le> length xs then Some (take (hi - lo) (drop lo xs)) else None)"

definition partition_point :: "('a \<Rightarrow> bool) \<Rightarrow> 'a list \<Rightarrow> nat" where
  "partition_point P xs = length (takeWhile P xs)"

definition nth_opt :: "'a list \<Rightarrow> nat \<Rightarrow> 'a option" where
  "nth_opt xs i = (if i < length xs then Some (xs ! i) else None)"

definition sort_dedup :: "'a::linorder list \<Rightarrow> 'a list" where
  "sort_dedup xs = remdups_adj (sort xs)"

definition saturating_add :: "'a::len word \<Rightarrow> 'a word \<Rightarrow> 'a word" where
  "saturating_add x y = (if x + y < x then - 1 else x + y)"

text \<open>A loop over a list whose body may panic.\<close>

primrec fold_opt :: "('a \<Rightarrow> 's \<Rightarrow> 's option) \<Rightarrow> 'a list \<Rightarrow> 's \<Rightarrow> 's option" where
  "fold_opt f [] s = Some s"
| "fold_opt f (x # xs) s = f x s \<bind> fold_opt f xs"

lemma those_map_Some: "(\<And>x. x \<in> set xs \<Longrightarrow> f x = Some (g x)) \<Longrightarrow> those (map f xs) = Some (map g xs)"
  by (induction xs) auto

lemma nth_opt_Some [simp]: "i < length xs \<Longrightarrow> nth_opt xs i = Some (xs ! i)"
  by (simp add: nth_opt_def)

lemma set_sort_dedup [simp]: "set (sort_dedup xs) = set xs"
  by (simp add: sort_dedup_def)

lemma sorted_remdups_adj_strict: "sorted xs \<Longrightarrow> sorted_wrt (<) (remdups_adj (xs :: 'a::linorder list))"
  by (induction xs rule: remdups_adj.induct) auto

lemma sort_dedup_strict [simp]: "sorted_wrt (<) (sort_dedup (xs :: 'a::linorder list))"
  by (simp add: sort_dedup_def sorted_remdups_adj_strict)

lemma sort_dedup_eq: "sort_dedup (xs :: 'a::linorder list) = sorted_list_of_set (set xs)"
  by (rule sorted_distinct_set_unique)
    (use sort_dedup_strict [of xs] in \<open>auto simp: strict_sorted_iff\<close>)

lemma drop_partition_point:
  assumes "sorted (map f xs)"
  shows "drop (partition_point (\<lambda>x. f x < t) xs) xs = filter (\<lambda>x. (t :: 'a::linorder) \<le> f x) xs"
  using assms
proof (induction xs)
  case (Cons x xs)
  show ?case
  proof (cases "f x < t")
    case True
    then show ?thesis using Cons by (simp add: partition_point_def not_le)
  next
    case False
    then have "filter (\<lambda>x. t \<le> f x) xs = xs"
      using Cons.prems by (intro filter_True) (auto simp: not_less intro: order.trans)
    then show ?thesis using False by (simp add: partition_point_def not_less)
  qed
qed (simp add: partition_point_def)

lemma saturating_add_1: "x \<noteq> - 1 \<Longrightarrow> saturating_add x 1 = x + (1 :: 'a::len word)"
  using inc_less_eq_triv_imp [of x] less_imp_le [of "x + 1" x] by (auto simp: saturating_add_def)

lemma less_saturating_add_1: "x \<noteq> - 1 \<Longrightarrow> saturating_add x 1 \<le> y \<longleftrightarrow> x < (y :: 'a::len word)"
  by (simp add: saturating_add_1 inc_less_eq_iff)

section \<open>Hash maps\<close>

text \<open>The expression \<open>map.entry(k).or_default().push(x)\<close>.\<close>

definition entry_push :: "('k \<rightharpoonup> 'v list) \<Rightarrow> 'k \<Rightarrow> 'v \<Rightarrow> ('k \<rightharpoonup> 'v list)" where
  "entry_push m k x = m(k \<mapsto> (case m k of None \<Rightarrow> [] | Some l \<Rightarrow> l) @ [x])"

text \<open>
  The standard library's \<^verbatim>\<open>HashMap\<close>, where the sources iterate over it: the association list
  of its entries, in insertion order. Code that iterates takes the iteration order, which the
  library leaves open, as a function on the entries.
\<close>

fun hm_insert :: "'k \<Rightarrow> 'v \<Rightarrow> ('k \<times> 'v) list \<Rightarrow> ('k \<times> 'v) list" where
  "hm_insert k v [] = [(k, v)]"
| "hm_insert k v ((k', v') # m) = (if k = k' then (k, v) # m else (k', v') # hm_insert k v m)"

definition hm_or_insert :: "'k \<Rightarrow> 'v \<Rightarrow> ('k \<times> 'v) list \<Rightarrow> ('k \<times> 'v) list" where
  "hm_or_insert k v m = (case map_of m k of None \<Rightarrow> hm_insert k v m | Some _ \<Rightarrow> m)"

lemma map_of_hm_insert [simp]: "map_of (hm_insert k v m) = (map_of m)(k \<mapsto> v)"
  by (induction k v m rule: hm_insert.induct) auto

lemma map_of_hm_or_insert:
  "map_of (hm_or_insert k v m) x = (if x = k \<and> map_of m k = None then Some v else map_of m x)"
  by (auto simp: hm_or_insert_def split: option.splits)

lemma set_keys_hm_insert [simp]: "fst ` set (hm_insert k v m) = insert k (fst ` set m)"
  by (induction k v m rule: hm_insert.induct) auto

lemma distinct_hm_insert [simp]: "distinct (map fst m) \<Longrightarrow> distinct (map fst (hm_insert k v m))"
  by (induction k v m rule: hm_insert.induct) (auto simp del: set_map simp: set_map)

end
