(* ===== verification/SameAs.thy ===== *)
theory SameAs
  imports Prelude
begin

text \<open>
  The frozen union-find of \<^verbatim>\<open>crates/core/nova-reasoning/src/same_as.rs\<close>: \<open>build\<close> with its
  path-compressing \<open>find\<close>, \<open>canonicalize\<close> and \<open>class_members\<close>. Terms are an arbitrary type with
  equality. The recursion of \<open>find\<close> follows parent pointers, so it is a partial function; the
  lemmas show that it ends on every map the construction reaches, and that two terms have one
  representative exactly when the pairs connect them.
\<close>

section \<open>Model\<close>

record 't tracker =
  canonical :: "('t \<times> 't) list"
  members :: "'t \<rightharpoonup> 't list"

definition tracker_empty :: "'t tracker" where
  "tracker_empty = \<lparr>canonical = [], members = Map.empty\<rparr>"

definition tracker_is_empty :: "'t tracker \<Rightarrow> bool" where
  "tracker_is_empty tr \<longleftrightarrow> canonical tr = []"

partial_function (option) find_root ::
  "('t \<times> 't) list \<Rightarrow> 't \<Rightarrow> ('t \<times> ('t \<times> 't) list) option" where
  "find_root parent t =
     (let p = (case map_of parent t of None \<Rightarrow> t | Some p \<Rightarrow> p) in
      if p = t then Some (t, parent)
      else do {(root, parent') \<leftarrow> find_root parent p; Some (root, hm_insert t root parent')})"

definition add_nodes :: "('t \<times> 't) list \<Rightarrow> ('t \<times> 't) list" where
  "add_nodes pairs = fold (\<lambda>(a, b) parent. hm_or_insert b b (hm_or_insert a a parent)) pairs []"

definition union_pair :: "'t \<times> 't \<Rightarrow> ('t \<times> 't) list \<Rightarrow> ('t \<times> 't) list option" where
  "union_pair ab parent =
     do {(ra, parent) \<leftarrow> find_root parent (fst ab);
         (rb, parent) \<leftarrow> find_root parent (snd ab);
         Some (if ra \<noteq> rb then hm_insert ra rb parent else parent)}"

definition compress_key ::
  "'t \<Rightarrow> ('t \<times> 't) list \<times> ('t \<times> 't) list \<Rightarrow> (('t \<times> 't) list \<times> ('t \<times> 't) list) option" where
  "compress_key k st =
     (case st of (parent, canon) \<Rightarrow>
        do {(root, parent) \<leftarrow> find_root parent k; Some (parent, hm_insert k root canon)})"

text \<open>\<open>ord\<close> is the order in which the hash maps list their entries.\<close>

definition build :: "(('t \<times> 't) list \<Rightarrow> ('t \<times> 't) list) \<Rightarrow> ('t \<times> 't) list \<Rightarrow> 't tracker option" where
  "build ord pairs =
     (if pairs = [] then Some tracker_empty
      else do {
        parent \<leftarrow> fold_opt union_pair pairs (add_nodes pairs);
        let ks = map fst (ord parent);
        (parent, canon) \<leftarrow> fold_opt compress_key ks (parent, []);
        let mem = fold (\<lambda>(term, root) m. entry_push m root term) (ord canon) Map.empty;
        Some \<lparr>canonical = canon, members = mem\<rparr>})"

definition canonicalize :: "'t tracker \<Rightarrow> 't \<Rightarrow> 't" where
  "canonicalize tr t = (case map_of (canonical tr) t of None \<Rightarrow> t | Some r \<Rightarrow> r)"

definition class_members :: "'t tracker \<Rightarrow> 't \<Rightarrow> 't list" where
  "class_members tr t =
     (case map_of (canonical tr) t of
        Some root \<Rightarrow> (case members tr root of Some v \<Rightarrow> v | None \<Rightarrow> [root])
      | None \<Rightarrow> [t])"

section \<open>Parent chains\<close>

definition par :: "('t \<times> 't) list \<Rightarrow> 't \<Rightarrow> 't" where
  "par m t = (case map_of m t of None \<Rightarrow> t | Some p \<Rightarrow> p)"

inductive chain :: "('t \<times> 't) list \<Rightarrow> 't \<Rightarrow> 't \<Rightarrow> bool" for m :: "('t \<times> 't) list" where
  root: "par m t = t \<Longrightarrow> chain m t t"
| up: "par m t \<noteq> t \<Longrightarrow> chain m (par m t) r \<Longrightarrow> chain m t r"

inductive_cases chain_elim: "chain m t r"

lemma par_insert [simp]: "par (hm_insert k v m) t = (if t = k then v else par m t)"
  by (simp add: par_def)

lemma chain_root: "chain m t r \<Longrightarrow> par m r = r"
  by (induction rule: chain.induct) auto

lemma chain_unique: "chain m t r \<Longrightarrow> chain m t r' \<Longrightarrow> r = r'"
proof (induction rule: chain.induct)
  case (root t)
  from root(2) show ?case by (rule chain_elim) (use root(1) in simp_all)
next
  case (up t r)
  from up(4) show ?case by (rule chain_elim) (use up in simp_all)
qed

lemma chain_compress:
  assumes "chain m t r" "t \<noteq> r" "chain m u r'"
  shows "chain (hm_insert t r m) u r'"
  using assms(3)
proof (induction rule: chain.induct)
  case (root u)
  then have "u \<noteq> t" using assms by (metis chain.root chain_unique)
  then show ?case using root by (intro chain.root) simp
next
  case (up u r')
  have r: "chain (hm_insert t r m) r r" using chain_root [OF assms(1)] assms(2) by (intro chain.root) auto
  show ?case
  proof (cases "u = t")
    case True
    then have "r' = r" using chain_unique [OF assms(1)] chain.up [OF up(1,2)] by simp
    then show ?thesis using r True assms(2) by - (rule chain.up; simp)
  next
    case False
    then show ?thesis using up by - (rule chain.up; simp)
  qed
qed

lemma chain_union:
  assumes "par m ra = ra" "par m rb = rb" "ra \<noteq> rb" "chain m u r"
  shows "chain (hm_insert ra rb m) u (if r = ra then rb else r)"
  using assms(4)
proof (induction rule: chain.induct)
  case (root u)
  show ?case
  proof (cases "u = ra")
    case True
    have "par (hm_insert ra rb m) rb = rb" "par (hm_insert ra rb m) ra = rb" using assms(2,3) by simp_all
    then show ?thesis
      using True assms(3) chain.up [of "hm_insert ra rb m" ra rb] chain.root [of "hm_insert ra rb m" rb] by simp
  next
    case False
    then show ?thesis using root by (simp add: chain.root)
  qed
next
  case (up u r)
  then have "u \<noteq> ra" using assms(1) by metis
  then show ?case using up by - (rule chain.up; simp)
qed

text \<open>A parent map in which every pointer chain ends.\<close>

definition rooted :: "('t \<times> 't) list \<Rightarrow> bool" where
  "rooted m \<longleftrightarrow> (\<forall>t. \<exists>r. chain m t r)"

definition refines :: "('t \<times> 't) list \<Rightarrow> ('t \<times> 't) list \<Rightarrow> bool" where
  "refines m m' \<longleftrightarrow> (\<forall>u r. chain m u r \<longrightarrow> chain m' u r) \<and> fst ` set m' = fst ` set m"

lemma par_key: "par m t \<noteq> t \<Longrightarrow> t \<in> fst ` set m"
  by (auto simp: par_def split: option.splits intro: rev_image_eqI dest: map_of_SomeD)

lemma find_root_correct:
  "chain m t r \<Longrightarrow> \<exists>m'. find_root m t = Some (r, m') \<and> refines m m'"
proof (induction rule: chain.induct)
  case (root t)
  then show ?case by (subst find_root.simps) (auto simp: par_def refines_def)
next
  case (up t r)
  then obtain m' where m': "find_root m (par m t) = Some (r, m')" "refines m m'" by blast
  have t: "chain m' t r" using m'(2) chain.up [OF up(1,2)] by (simp add: refines_def)
  have "t \<noteq> r" using chain_root [OF up(2)] up(1) by auto
  then have "refines m (hm_insert t r m')"
    using m'(2) chain_compress [OF t] par_key [OF up(1)] by (auto simp: refines_def)
  then show ?case
    using m'(1) up(1) by (subst find_root.simps) (simp add: par_def [symmetric])
qed

section \<open>The classes of the union-find\<close>

definition rep :: "('t \<times> 't) list \<Rightarrow> 't \<Rightarrow> 't" where
  "rep m t = (THE r. chain m t r)"

text \<open>The relation \<open>owl:sameAs\<close> pairs generate: reflexive, symmetric, transitive.\<close>

definition same :: "('t \<times> 't) set \<Rightarrow> ('t \<times> 't) set" where
  "same P = (P \<union> P\<inverse>)\<^sup>*"

lemma rep_chain: "rooted m \<Longrightarrow> chain m t (rep m t)"
  unfolding rooted_def rep_def by (metis chain_unique theI')

lemma rep_eqI: "chain m t r \<Longrightarrow> rep m t = r"
  unfolding rep_def using chain_unique by (metis the_equality)

lemma refines_rep: "rooted m \<Longrightarrow> refines m m' \<Longrightarrow> rooted m' \<and> rep m' t = rep m t"
  unfolding refines_def using rep_chain rep_eqI by (metis rooted_def)

lemma refines_trans: "refines a b \<Longrightarrow> refines b c \<Longrightarrow> refines a c"
  by (auto simp: refines_def)

lemma find_root_rep:
  "rooted m \<Longrightarrow> \<exists>m'. find_root m t = Some (rep m t, m') \<and> refines m m' \<and> rooted m'"
  using find_root_correct [OF rep_chain] refines_rep by metis

lemma union_pair_rep:
  assumes "rooted m"
  shows "\<exists>m'. union_pair (a, b) m = Some m' \<and> rooted m' \<and>
    fst ` set m \<subseteq> fst ` set m' \<and> fst ` set m' \<subseteq> insert (rep m a) (fst ` set m) \<and>
    (\<forall>t. rep m' t = (if rep m t = rep m a then rep m b else rep m t))"
proof -
  obtain m1 where m1: "find_root m a = Some (rep m a, m1)" "refines m m1" "rooted m1"
    using find_root_rep [OF assms] by blast
  obtain m2 where m2: "find_root m1 b = Some (rep m b, m2)" "refines m m2" "rooted m2"
    using find_root_rep [OF m1(3), of b] refines_rep [OF assms m1(2)] refines_trans [OF m1(2)] by auto
  have rep2: "rep m2 t = rep m t" for t using refines_rep [OF assms m2(2)] by blast
  have keys: "fst ` set m2 = fst ` set m" using m2(2) by (simp add: refines_def)
  show ?thesis
  proof (cases "rep m a = rep m b")
    case True
    then show ?thesis using m1 m2 rep2 keys by (auto simp: union_pair_def)
  next
    case False
    let ?m = "hm_insert (rep m a) (rep m b) m2"
    have "par m2 (rep m t) = rep m t" for t
      using chain_root [OF rep_chain [OF m2(3)], of t] rep2 by simp
    then have "chain ?m t (if rep m t = rep m a then rep m b else rep m t)" for t
      using chain_union [OF _ _ False, of m2 t "rep m t"] rep_chain [OF m2(3), of t] rep2 by simp
    then have "rooted ?m" "\<forall>t. rep ?m t = (if rep m t = rep m a then rep m b else rep m t)"
      using rep_eqI [of ?m] unfolding rooted_def by blast+
    then show ?thesis using m1 m2 keys False by (auto simp: union_pair_def)
  qed
qed

lemma same_refl [simp]: "(x, x) \<in> same P"
  by (simp add: same_def)

lemma same_sym: "(x, y) \<in> same P \<Longrightarrow> (y, x) \<in> same P"
  unfolding same_def by (metis converse_Un converse_converse rtrancl_converseI sup_commute)

lemma same_trans: "(x, y) \<in> same P \<Longrightarrow> (y, z) \<in> same P \<Longrightarrow> (x, z) \<in> same P"
  unfolding same_def by (rule rtrancl_trans)

lemma same_mono: "P \<subseteq> Q \<Longrightarrow> (x, y) \<in> same P \<Longrightarrow> (x, y) \<in> same Q"
  unfolding same_def by (metis converse_mono rtrancl_mono sup.mono subsetD)

lemma same_kernel:
  assumes "\<And>a b. (a, b) \<in> P \<Longrightarrow> f a = f b" "(x, y) \<in> same P"
  shows "f x = f y"
  using assms(2) unfolding same_def by (induction) (auto dest: assms(1))

lemma same_insert_kernel:
  assumes old: "\<And>x y. f x = f y \<longleftrightarrow> (x, y) \<in> same P"
    and new: "\<And>t. g t = (if f t = f a then f b else f t)"
  shows "g x = g y \<longleftrightarrow> (x, y) \<in> same (insert (a, b) P)"
proof
  have ab: "(a, b) \<in> same (insert (a, b) P)" by (auto simp: same_def)
  have lift: "(u, v) \<in> same (insert (a, b) P)" if "f u = f v" for u v
    using that old same_mono [of P "insert (a, b) P"] by blast
  assume "g x = g y"
  then consider "f x = f y" | "f x = f a" "f b = f y" | "f y = f a" "f b = f x"
    unfolding new by (metis (full_types))
  then show "(x, y) \<in> same (insert (a, b) P)"
    by cases (metis lift ab same_trans same_sym)+
next
  have "f u = f v" if "(u, v) \<in> P" for u v
    using that old by (auto simp: same_def)
  then have "g u = g v" if "(u, v) \<in> insert (a, b) P" for u v
    using that unfolding new by auto
  then show "(x, y) \<in> same (insert (a, b) P) \<Longrightarrow> g x = g y" by (rule same_kernel)
qed

lemma same_Field: "(x, y) \<in> same P \<Longrightarrow> x \<noteq> y \<Longrightarrow> x \<in> Field P \<and> y \<in> Field P"
  unfolding same_def
  by (metis Field_Un Field_converse FieldI1 FieldI2 converse_rtranclE rtranclE sup.idem)

lemma rep_rep: "rooted m \<Longrightarrow> rep m (rep m t) = rep m t"
  using rep_chain chain_root chain.root rep_eqI by metis

lemma union_pairs_same:
  assumes "rooted m" "\<And>x y. rep m x = rep m y \<longleftrightarrow> (x, y) \<in> same P"
    and "fst ` set m = N" "Field P \<subseteq> N" "Field (set pairs) \<subseteq> N"
  shows "\<exists>m'. fold_opt union_pair pairs m = Some m' \<and> rooted m' \<and> fst ` set m' = N \<and>
    (\<forall>x y. rep m' x = rep m' y \<longleftrightarrow> (x, y) \<in> same (P \<union> set pairs))"
  using assms
proof (induction pairs arbitrary: m P)
  case (Cons ab pairs)
  obtain a b where ab: "ab = (a, b)" by (cases ab)
  obtain m' where m': "union_pair (a, b) m = Some m'" "rooted m'"
    "fst ` set m \<subseteq> fst ` set m'" "fst ` set m' \<subseteq> insert (rep m a) (fst ` set m)"
    "\<And>t. rep m' t = (if rep m t = rep m a then rep m b else rep m t)"
    using union_pair_rep [OF Cons.prems(1), of a b] by blast
  have "a \<in> N" "Field (set pairs) \<subseteq> N" "Field (insert (a, b) P) \<subseteq> N"
    using Cons.prems(4,5) by (auto simp: ab Field_insert)
  moreover have "rep m a \<in> N"
    using Cons.prems(2) [of "rep m a" a] rep_rep [OF Cons.prems(1)] same_Field [of "rep m a" a P]
      \<open>a \<in> N\<close> Cons.prems(4) by (cases "rep m a = a") auto
  then have "fst ` set m' = N" using m'(3,4) unfolding Cons.prems(3) by (simp add: insert_absorb)
  moreover have "rep m' x = rep m' y \<longleftrightarrow> (x, y) \<in> same (insert (a, b) P)" for x y
    by (rule same_insert_kernel [OF Cons.prems(2) m'(5)])
  ultimately have "\<exists>m2. fold_opt union_pair pairs m' = Some m2 \<and> rooted m2 \<and> fst ` set m2 = N \<and>
      (\<forall>x y. rep m2 x = rep m2 y \<longleftrightarrow> (x, y) \<in> same (insert (a, b) P \<union> set pairs))"
    using Cons.IH [OF m'(2), of "insert (a, b) P"] by blast
  then show ?case using m'(1) by (simp add: ab)
qed auto

lemma add_nodes_correct:
  "(\<forall>t. par (add_nodes pairs) t = t) \<and> fst ` set (add_nodes pairs) = Field (set pairs)"
proof -
  have "(\<forall>t. par m t = t) \<Longrightarrow>
      (\<forall>t. par (fold (\<lambda>(a, b) parent. hm_or_insert b b (hm_or_insert a a parent)) pairs m) t = t) \<and>
      fst ` set (fold (\<lambda>(a, b) parent. hm_or_insert b b (hm_or_insert a a parent)) pairs m) =
        fst ` set m \<union> Field (set pairs)" for m
  proof (induction pairs arbitrary: m)
    case (Cons ab pairs)
    obtain a b where ab: "ab = (a, b)" by (cases ab)
    have step: "(\<forall>t. par (hm_or_insert k k m) t = t) \<and> fst ` set (hm_or_insert k k m) = insert k (fst ` set m)"
      if "\<forall>t. par m t = t" for k and m :: "('a \<times> 'a) list"
      using that by (auto simp: hm_or_insert_def par_def split: option.splits dest: map_of_SomeD intro: rev_image_eqI)
    show ?case
      using Cons.IH [of "hm_or_insert b b (hm_or_insert a a m)"] step [OF Cons.prems, of a]
        step [of "hm_or_insert a a m" b]
      by (simp add: ab Field_insert insert_commute)
  qed simp
  from this [of "[]"] show ?thesis by (simp add: add_nodes_def par_def)
qed

text \<open>The last pass: every key is mapped to its representative.\<close>

lemma compress_keys_correct:
  "rooted m \<Longrightarrow> \<exists>m' canon'. fold_opt compress_key ks (m, canon) = Some (m', canon') \<and>
     (\<forall>t. map_of canon' t = (if t \<in> set ks then Some (rep m t) else map_of canon t)) \<and>
     (distinct (map fst canon) \<longrightarrow> distinct (map fst canon'))"
proof (induction ks arbitrary: m canon)
  case (Cons k ks)
  obtain m1 where m1: "find_root m k = Some (rep m k, m1)" "refines m m1" "rooted m1"
    using find_root_rep [OF Cons.prems] by blast
  obtain m' canon' where IH: "fold_opt compress_key ks (m1, hm_insert k (rep m k) canon) = Some (m', canon')"
    "\<forall>t. map_of canon' t = (if t \<in> set ks then Some (rep m1 t) else map_of (hm_insert k (rep m k) canon) t)"
    "distinct (map fst (hm_insert k (rep m k) canon)) \<longrightarrow> distinct (map fst canon')"
    using Cons.IH [OF m1(3)] by blast
  have "rep m1 t = rep m t" for t using refines_rep [OF Cons.prems m1(2)] by blast
  moreover have "compress_key k (m, canon) = Some (m1, hm_insert k (rep m k) canon)"
    using m1(1) by (simp add: compress_key_def)
  ultimately show ?case using IH by (intro exI [of _ m'] exI [of _ canon']) auto
qed simp

lemma group_members:
  "(case fold (\<lambda>(term, root) m. entry_push m root term) xs m r of None \<Rightarrow> {} | Some l \<Rightarrow> set l) =
     (case m r of None \<Rightarrow> {} | Some l \<Rightarrow> set l) \<union> {t. (t, r) \<in> set xs}"
  by (induction xs arbitrary: m) (auto simp: entry_push_def split: option.splits if_splits)

text \<open>The facts about a built tracker that its queries need.\<close>

lemma build_correct:
  assumes "\<And>xs. set (ord xs) = set xs"
  shows "\<exists>tr rp. build ord pairs = Some tr \<and>
    (\<forall>x y. rp x = rp y \<longleftrightarrow> (x, y) \<in> same (set pairs)) \<and>
    (\<forall>t. map_of (canonical tr) t = (if t \<in> Field (set pairs) then Some (rp t) else None)) \<and>
    (\<forall>t. t \<notin> Field (set pairs) \<longrightarrow> rp t = t) \<and>
    (\<forall>r. (case members tr r of None \<Rightarrow> {} | Some l \<Rightarrow> set l) = {t \<in> Field (set pairs). rp t = r})"
proof (cases "pairs = []")
  case True
  then show ?thesis
    by (intro exI [of _ tracker_empty] exI [of _ "\<lambda>x. x"]) (auto simp: build_def tracker_empty_def same_def)
next
  case False
  let ?m = "add_nodes pairs" and ?N = "Field (set pairs)"
  have par0: "\<forall>t. par ?m t = t" and N: "fst ` set ?m = ?N" 
    using add_nodes_correct [of pairs] by simp_all
  then have chain0: "chain ?m t t" for t by (simp add: chain.root)
  have "rooted ?m" "\<And>x y. rep ?m x = rep ?m y \<longleftrightarrow> (x, y) \<in> same {}"
    using chain0 rep_eqI [OF chain0] by (auto simp: rooted_def same_def)
  from union_pairs_same [OF this N, of pairs] obtain m where m: "fold_opt union_pair pairs ?m = Some m"
    "rooted m" "fst ` set m = ?N" "\<forall>x y. rep m x = rep m y \<longleftrightarrow> (x, y) \<in> same (set pairs)" by auto
  let ?ks = "map fst (ord m)"
  have ks: "set ?ks = ?N" using assms m(3) by simp
  obtain m' canon where c: "fold_opt compress_key ?ks (m, []) = Some (m', canon)"
    "\<forall>t. map_of canon t = (if t \<in> ?N then Some (rep m t) else None)" "distinct (map fst canon)"
    using compress_keys_correct [OF m(2), of ?ks "[]"] unfolding ks by auto
  have "t \<notin> ?N \<Longrightarrow> rep m t = t" for t
    using par_key [of m t] m(3) by (metis chain.root rep_eqI)
  moreover have "(t, r) \<in> set canon \<longleftrightarrow> t \<in> ?N \<and> rep m t = r" for t r
    using c(2) map_of_eq_Some_iff [OF c(3)] by (metis option.distinct(1) option.inject)
  ultimately show ?thesis
    using False m c assms
    by (intro exI [of _ "\<lparr>canonical = canon, members = fold (\<lambda>(term, root) m. entry_push m root term) (ord canon) Map.empty\<rparr>"]
        exI [of _ "rep m"]) (auto simp: build_def group_members)
qed

section \<open>Properties\<close>

text \<open>
  (C18) Canonicalisation decides \<open>owl:sameAs\<close>: building the tracker from any list of pairs
  returns, whatever order the hash maps iterate in, and two terms then have the same canonical
  term exactly when the pairs connect them by symmetry and transitivity.
\<close>

theorem canonicalize_same_as:
  assumes "\<And>xs. set (ord xs) = set xs"
  shows "\<exists>tr. build ord pairs = Some tr \<and>
    (\<forall>x y. canonicalize tr x = canonicalize tr y \<longleftrightarrow> (x, y) \<in> same (set pairs))"
proof -
  obtain tr rp where tr: "build ord pairs = Some tr"
    "\<forall>x y. rp x = rp y \<longleftrightarrow> (x, y) \<in> same (set pairs)"
    "\<forall>t. map_of (canonical tr) t = (if t \<in> Field (set pairs) then Some (rp t) else None)"
    "\<forall>t. t \<notin> Field (set pairs) \<longrightarrow> rp t = t"
    using build_correct [OF assms] by blast
  then have "canonicalize tr t = rp t" for t by (simp add: canonicalize_def)
  with tr show ?thesis by simp
qed

theorem canonicalize_same_as_witness:
  "\<exists>tr. build rev [(1::nat, 2), (3, 2)] = Some tr \<and> canonicalize tr 1 = canonicalize tr 3"
proof -
  have "(1, 3) \<in> same (set [(1::nat, 2), (3, 2)])"
    by (rule same_trans [of _ 2]) (auto simp: same_def)
  then show ?thesis using canonicalize_same_as [of rev "[(1::nat, 2), (3, 2)]"] by auto
qed

text \<open>
  (C19) Expansion returns whole classes: the members of a term's class are the terms the pairs
  connect it to, the term itself among them.
\<close>

theorem class_members_same_as:
  assumes "\<And>xs. set (ord xs) = set xs"
  shows "\<exists>tr. build ord pairs = Some tr \<and> (\<forall>x. set (class_members tr x) = {y. (x, y) \<in> same (set pairs)})"
proof -
  obtain tr rp where tr: "build ord pairs = Some tr"
    "\<forall>x y. rp x = rp y \<longleftrightarrow> (x, y) \<in> same (set pairs)"
    "\<forall>t. map_of (canonical tr) t = (if t \<in> Field (set pairs) then Some (rp t) else None)"
    "\<forall>r. (case members tr r of None \<Rightarrow> {} | Some l \<Rightarrow> set l) = {t \<in> Field (set pairs). rp t = r}"
    using build_correct [OF assms] by blast
  have "set (class_members tr x) = {y. (x, y) \<in> same (set pairs)}" for x
  proof (cases "x \<in> Field (set pairs)")
    case True
    have "{y. (x, y) \<in> same (set pairs)} = {t \<in> Field (set pairs). rp t = rp x}"
      using tr(2) True same_Field [of x _ "set pairs"] same_sym [of _ _ "set pairs"] by blast
    also have "\<dots> = set (class_members tr x)"
    proof -
      have m: "(case members tr (rp x) of None \<Rightarrow> {} | Some l \<Rightarrow> set l) = {t \<in> Field (set pairs). rp t = rp x}"
        using tr(4) by blast
      then have "members tr (rp x) \<noteq> None" using True by (cases "members tr (rp x)") auto
      then show ?thesis using m tr(3) True by (auto simp: class_members_def)
    qed
    finally show ?thesis by simp
  next
    case False
    then have "{y. (x, y) \<in> same (set pairs)} = {x}" using same_Field [of x _ "set pairs"] by auto
    then show ?thesis using tr(3) False by (simp add: class_members_def)
  qed
  with tr(1) show ?thesis by blast
qed

theorem class_members_same_as_witness:
  "\<exists>tr. build rev [(1::nat, 2), (3, 2)] = Some tr \<and> 1 \<in> set (class_members tr 3)"
proof -
  have "(3, 1) \<in> same (set [(1::nat, 2), (3, 2)])"
    by (rule same_trans [of _ 2]) (auto simp: same_def)
  then show ?thesis using class_members_same_as [of rev "[(1::nat, 2), (3, 2)]"] by auto
qed

end
