(* ===== verification/Ids.thy ===== *)
theory Ids
  imports Prelude
begin

text \<open>
  Term and graph identifiers and the 128-bit quad key, from
  \<^verbatim>\<open>crates/core/nova-core/src/dict.rs\<close>: the 40-bit \<open>TermId\<close>, the 8-bit \<open>GraphId\<close>, and
  \<open>pack_quad\<close>/\<open>unpack_quad\<close>. The lemmas show that the key layout is a bijection between
  128-bit keys and in-range quads and that it orders quads graph-major.
\<close>

section \<open>Identifiers\<close>

datatype term_id = TermId (as_u64: u64)

datatype graph_id = GraphId (as_u8: u8)

definition MAX_TERM_ID :: u64 where
  "MAX_TERM_ID = push_bit 40 1 - 1"

definition term_id_new :: "u64 \<Rightarrow> term_id result" where
  "term_id_new i = (if i > MAX_TERM_ID then Inl IdSpaceExhausted else Inr (TermId i))"

definition GRAPH_DEFAULT :: graph_id where
  "GRAPH_DEFAULT = GraphId 0"

definition is_default :: "graph_id \<Rightarrow> bool" where
  "is_default g \<longleftrightarrow> as_u8 g = 0"

text \<open>The sources derive \<^verbatim>\<open>Ord\<close> on both identifiers; the order is that of the carrier.\<close>

instantiation term_id :: linorder
begin

definition less_eq_term_id :: "term_id \<Rightarrow> term_id \<Rightarrow> bool" where
  "less_eq_term_id a b \<longleftrightarrow> as_u64 a \<le> as_u64 b"

definition less_term_id :: "term_id \<Rightarrow> term_id \<Rightarrow> bool" where
  "less_term_id a b \<longleftrightarrow> as_u64 a < as_u64 b"

instance
  by intro_classes (auto simp: less_eq_term_id_def less_term_id_def term_id.expand)

end

instantiation graph_id :: linorder
begin

definition less_eq_graph_id :: "graph_id \<Rightarrow> graph_id \<Rightarrow> bool" where
  "less_eq_graph_id a b \<longleftrightarrow> as_u8 a \<le> as_u8 b"

definition less_graph_id :: "graph_id \<Rightarrow> graph_id \<Rightarrow> bool" where
  "less_graph_id a b \<longleftrightarrow> as_u8 a < as_u8 b"

instance
  by intro_classes (auto simp: less_eq_graph_id_def less_graph_id_def graph_id.expand)

end

text \<open>A term identifier is in range when its carrier fits in 40 bits.\<close>

definition term_id_ok :: "term_id \<Rightarrow> bool" where
  "term_id_ok t \<longleftrightarrow> as_u64 t \<le> MAX_TERM_ID"

section \<open>Quad keys\<close>

definition pack_quad :: "graph_id \<Rightarrow> term_id \<Rightarrow> term_id \<Rightarrow> term_id \<Rightarrow> u128" where
  "pack_quad g s p ob =
     push_bit 120 (ucast (as_u8 g)) OR push_bit 80 (ucast (as_u64 s))
     OR push_bit 40 (ucast (as_u64 p)) OR ucast (as_u64 ob)"

definition unpack_quad :: "u128 \<Rightarrow> graph_id \<times> term_id \<times> term_id \<times> term_id" where
  "unpack_quad key =
     (GraphId (ucast (drop_bit 120 key AND 255)),
      TermId (ucast (drop_bit 80 key AND ucast MAX_TERM_ID)),
      TermId (ucast (drop_bit 40 key AND ucast MAX_TERM_ID)),
      TermId (ucast (key AND ucast MAX_TERM_ID)))"

section \<open>Facts about the layout\<close>

lemma MAX_TERM_ID_mask: "MAX_TERM_ID = mask 40"
  by (simp add: MAX_TERM_ID_def mask_eq_exp_minus_1 push_bit_eq_mult)

lemma unat_MAX_TERM_ID: "unat MAX_TERM_ID = 2 ^ 40 - 1"
  by (simp add: MAX_TERM_ID_def push_bit_eq_mult)

lemma term_id_ok_unat: "term_id_ok t \<longleftrightarrow> unat (as_u64 t) < 2 ^ 40"
  unfolding term_id_ok_def word_le_nat_alt unat_MAX_TERM_ID by auto

lemma term_id_ok_bit: "term_id_ok t \<Longrightarrow> bit (as_u64 t) n \<Longrightarrow> n < 40"
  using term_id_ok_unat bit_bounds by blast

lemma term_id_new_ok: "term_id_new i = Inr t \<Longrightarrow> term_id_ok t \<and> as_u64 t = i"
  by (auto simp: term_id_new_def term_id_ok_def split: if_splits)

lemma bit_pack_quad:
  "bit (pack_quad g s p ob) n \<longleftrightarrow> n < 128 \<and>
     (120 \<le> n \<and> bit (as_u8 g) (n - 120) \<or> 80 \<le> n \<and> bit (as_u64 s) (n - 80) \<or>
      40 \<le> n \<and> bit (as_u64 p) (n - 40) \<or> bit (as_u64 ob) n)"
  by (auto simp: pack_quad_def bit_simps)

lemma mask_8_u128: "(255::u128) = mask 8"
  by (simp add: mask_eq_exp_minus_1)

lemma bit_unpack_quad:
  assumes "unpack_quad k = (g, s, p, ob)"
  shows "bit (as_u8 g) n \<longleftrightarrow> n < 8 \<and> bit k (120 + n)"
    and "bit (as_u64 s) n \<longleftrightarrow> n < 40 \<and> bit k (80 + n)"
    and "bit (as_u64 p) n \<longleftrightarrow> n < 40 \<and> bit k (40 + n)"
    and "bit (as_u64 ob) n \<longleftrightarrow> n < 40 \<and> bit k n"
  using assms by (auto simp: unpack_quad_def MAX_TERM_ID_mask mask_8_u128 bit_simps)

lemma unpack_quad_ok:
  "unpack_quad k = (g, s, p, ob) \<Longrightarrow> term_id_ok s \<and> term_id_ok p \<and> term_id_ok ob"
  unfolding term_id_ok_unat unat_less_power_iff_bits
  by (auto simp: bit_unpack_quad)

lemma pack_unpack:
  assumes "unpack_quad k = (g, s, p, ob)"
  shows "pack_quad g s p ob = k"
proof (rule bit_word_eqI)
  fix n assume "n < LENGTH(128)"
  then consider "n < 40" | "40 \<le> n" "n < 80" | "80 \<le> n" "n < 120" | "120 \<le> n" "n < 128"
    by fastforce
  then show "bit (pack_quad g s p ob) n \<longleftrightarrow> bit k n"
    by cases (auto simp: bit_pack_quad bit_unpack_quad [OF assms])
qed

lemma unpack_pack:
  assumes "term_id_ok s" and "term_id_ok p" and "term_id_ok ob"
  shows "unpack_quad (pack_quad g s p ob) = (g, s, p, ob)"
proof -
  note b = assms[THEN term_id_ok_bit]
  show ?thesis
    unfolding unpack_quad_def prod.inject mask_8_u128
    by (intro conjI graph_id.expand term_id.expand bit_word_eqI)
      (auto simp: bit_simps bit_pack_quad MAX_TERM_ID_mask dest: b)
qed

text \<open>The numeric value of a key, and with it the order of keys.\<close>

lemma unat_pack_quad:
  assumes "term_id_ok s" and "term_id_ok p" and "term_id_ok ob"
  shows "unat (pack_quad g s p ob) =
    unat (as_u8 g) * 2 ^ 120 + unat (as_u64 s) * 2 ^ 80 + unat (as_u64 p) * 2 ^ 40
      + unat (as_u64 ob)"
proof -
  note b = assms[THEN term_id_ok_bit]
  let ?g = "push_bit 120 (ucast (as_u8 g)) :: u128" and ?s = "push_bit 80 (ucast (as_u64 s)) :: u128"
    and ?p = "push_bit 40 (ucast (as_u64 p)) :: u128" and ?o = "ucast (as_u64 ob) :: u128"
  have "pack_quad g s p ob = ?g + (?s + (?p + ?o))"
  proof -
    have 1: "?p + ?o = ?p OR ?o"
      by (rule disjunctive_add_eq_or, rule bit_word_eqI) (auto simp: bit_simps dest: b)
    have 2: "?s + (?p OR ?o) = ?s OR (?p OR ?o)"
      by (rule disjunctive_add_eq_or, rule bit_word_eqI) (auto simp: bit_simps dest: b)
    have 3: "?g + (?s OR (?p OR ?o)) = ?g OR (?s OR (?p OR ?o))"
      by (rule disjunctive_add_eq_or, rule bit_word_eqI) (auto simp: bit_simps dest: b)
    show ?thesis by (simp only: 1 2 3 pack_quad_def or.assoc)
  qed
  moreover have "unat (as_u8 g) < 2 ^ 8" using unsigned_less [of "as_u8 g"] by simp
  ultimately show ?thesis
    using assms unfolding term_id_ok_unat
    by (simp add: push_bit_eq_mult unat_word_ariths unsigned_ucast_eq take_bit_nat_eq_self)
qed

lemma pack_quad_less_iff:
  assumes "term_id_ok s" "term_id_ok p" "term_id_ok ob"
    and "term_id_ok s'" "term_id_ok p'" "term_id_ok ob'"
  shows "pack_quad g s p ob < pack_quad g' s' p' ob' \<longleftrightarrow> (g, s, p, ob) < (g', s', p', ob')"
proof -
  have eq: "unat (pack_quad g s p ob) =
      ((unat (as_u8 g) * 2 ^ 40 + unat (as_u64 s)) * 2 ^ 40 + unat (as_u64 p)) * 2 ^ 40
        + unat (as_u64 ob)" if "term_id_ok s" "term_id_ok p" "term_id_ok ob" for g s p ob
    by (simp add: unat_pack_quad [OF that] algebra_simps)
  note b = assms [unfolded term_id_ok_unat]
  have "unat (as_u8 a) = unat (as_u8 b) \<longleftrightarrow> a = b" for a b
    by (cases a; cases b) (simp add: word_unat_eq_iff)
  moreover have "unat (as_u64 a) = unat (as_u64 b) \<longleftrightarrow> a = b" for a b
    by (cases a; cases b) (simp add: word_unat_eq_iff)
  ultimately show ?thesis
    unfolding word_less_nat_alt eq [OF assms(1-3)] eq [OF assms(4-6)]
      digits_less_iff [OF b(3,6)] digits_less_iff [OF b(2,5)] digits_less_iff [OF b(1,4)]
      digits_eq_iff [OF b(2,5)] digits_eq_iff [OF b(1,4)]
    by (auto simp: less_prod_simp le_less less_term_id_def less_graph_id_def word_less_nat_alt)
qed

lemma pack_quad_le_iff:
  assumes "term_id_ok s" "term_id_ok p" "term_id_ok ob"
    and "term_id_ok s'" "term_id_ok p'" "term_id_ok ob'"
  shows "pack_quad g s p ob \<le> pack_quad g' s' p' ob' \<longleftrightarrow> (g, s, p, ob) \<le> (g', s', p', ob')"
  unfolding not_less [symmetric] by (simp add: pack_quad_less_iff assms)

section \<open>Properties\<close>

text \<open>
  (C21) Quad keys are a bijection: packing in-range identifiers and unpacking the key returns
  them, and every 128-bit key unpacks to in-range identifiers that pack to the same key.
\<close>

theorem quad_key_bijection:
  "(term_id_ok s \<and> term_id_ok p \<and> term_id_ok ob \<longrightarrow> unpack_quad (pack_quad g s p ob) = (g, s, p, ob)) \<and>
   (case unpack_quad k of (g', s', p', ob') \<Rightarrow>
      term_id_ok s' \<and> term_id_ok p' \<and> term_id_ok ob' \<and> pack_quad g' s' p' ob' = k)"
  using unpack_pack [of s p ob g] unpack_quad_ok [of k] pack_unpack [of k] by (cases "unpack_quad k") auto

theorem quad_key_bijection_witness:
  "unpack_quad (pack_quad (GraphId 3) (TermId 5) (TermId MAX_TERM_ID) (TermId 7))
     = (GraphId 3, TermId 5, TermId MAX_TERM_ID, TermId 7)"
proof -
  have "term_id_ok (TermId 5) \<and> term_id_ok (TermId MAX_TERM_ID) \<and> term_id_ok (TermId 7)"
    by (simp add: term_id_ok_def MAX_TERM_ID_def push_bit_eq_mult)
  then show ?thesis using quad_key_bijection by blast
qed

text \<open>
  Key order is quad order: for in-range identifiers the 128-bit keys compare as the quads
  do, graph first, then subject, predicate and object, so an ordered map of keys lists quads
  graph by graph.
\<close>

theorem quad_key_order:
  assumes "term_id_ok s" "term_id_ok p" "term_id_ok ob"
    and "term_id_ok s'" "term_id_ok p'" "term_id_ok ob'"
  shows "pack_quad g s p ob < pack_quad g' s' p' ob' \<longleftrightarrow> (g, s, p, ob) < (g', s', p', ob')"
  by (rule pack_quad_less_iff [OF assms])

theorem quad_key_order_witness:
  "pack_quad (GraphId 0) (TermId MAX_TERM_ID) (TermId 1) (TermId 1)
     < pack_quad (GraphId 1) (TermId 1) (TermId 1) (TermId 1)"
proof -
  have "term_id_ok (TermId MAX_TERM_ID)" "term_id_ok (TermId 1)"
    by (simp_all add: term_id_ok_def MAX_TERM_ID_def push_bit_eq_mult)
  moreover have "GraphId 0 < GraphId 1" by (simp add: less_graph_id_def)
  ultimately show ?thesis
    using quad_key_order [of "TermId MAX_TERM_ID" "TermId 1" "TermId 1" "TermId 1" "TermId 1" "TermId 1"]
    by (simp add: less_prod_simp)
qed

end
