(* ===== verification/Delta.thy ===== *)
theory Delta
  imports Ids
begin

text \<open>
  The live-write buffer of \<^verbatim>\<open>crates/engines/nova-engine-louds/src/delta.rs\<close>: an ordered map
  from 128-bit quad keys to \<open>True\<close> (inserted since the last merge) or \<open>False\<close> (tombstone),
  with the key ranges \<open>graph_range\<close> computes for pattern scans. The main lemma,
  \<open>graph_range_iff\<close>, says which keys a range holds; the locale \<open>write_buffer\<close> states what
  the store relies on.
\<close>

section \<open>Model\<close>

record delta =
  inner :: "(u128, bool) btree_map"

definition delta_new :: delta where
  "delta_new = \<lparr>inner = []\<rparr>"

definition insert_key :: "delta \<Rightarrow> u128 \<Rightarrow> delta" where
  "insert_key d key = d\<lparr>inner := bt_insert key True (inner d)\<rparr>"

definition tombstone_key :: "delta \<Rightarrow> u128 \<Rightarrow> delta" where
  "tombstone_key d key = d\<lparr>inner := bt_insert key False (inner d)\<rparr>"

definition delta_get :: "delta \<Rightarrow> u128 \<Rightarrow> bool option" where
  "delta_get d key = bt_get (inner d) key"

definition delta_len :: "delta \<Rightarrow> nat" where
  "delta_len d = length (inner d)"

definition delta_is_empty :: "delta \<Rightarrow> bool" where
  "delta_is_empty d \<longleftrightarrow> inner d = []"

definition insert_count :: "delta \<Rightarrow> nat" where
  "insert_count d = length (filter (\<lambda>v. v) (map snd (inner d)))"

definition tombstone_count :: "delta \<Rightarrow> nat" where
  "tombstone_count d = length (filter (\<lambda>v. \<not> v) (map snd (inner d)))"

definition delta_clear :: "delta \<Rightarrow> delta" where
  "delta_clear d = d\<lparr>inner := []\<rparr>"

definition delta_iter :: "delta \<Rightarrow> (u128 \<times> bool) list" where
  "delta_iter d = inner d"

definition range_inclusive :: "delta \<Rightarrow> u128 \<Rightarrow> u128 \<Rightarrow> (u128 \<times> bool) list" where
  "range_inclusive d lo hi = bt_range (inner d) lo hi"

definition graph_range ::
  "graph_id \<Rightarrow> term_id option \<Rightarrow> term_id option \<Rightarrow> term_id option \<Rightarrow> u128 \<times> u128" where
  "graph_range g s p ob =
     (let g_base = push_bit 120 (ucast (as_u8 g)) in
      case (s, p, ob) of
        (Some sv, Some pv, Some ov) \<Rightarrow> (let key = pack_quad g sv pv ov in (key, key))
      | (Some sv, Some pv, None) \<Rightarrow>
          (let lo = g_base OR push_bit 80 (ucast (as_u64 sv)) OR push_bit 40 (ucast (as_u64 pv));
               hi = lo OR (push_bit 40 1 - 1)
           in (lo, hi))
      | (Some sv, None, _) \<Rightarrow>
          (let lo = g_base OR push_bit 80 (ucast (as_u64 sv));
               hi = lo OR (push_bit 80 1 - 1)
           in (lo, hi))
      | (None, _, _) \<Rightarrow>
          (let lo = g_base; hi = g_base OR (push_bit 120 1 - 1) in (lo, hi)))"

text \<open>The buffer's invariant: strictly ascending keys.\<close>

definition delta_ok :: "delta \<Rightarrow> bool" where
  "delta_ok d \<longleftrightarrow> bt_ok (inner d)"

lemmas delta_defs = delta_new_def insert_key_def tombstone_key_def delta_get_def delta_len_def
  delta_is_empty_def delta_clear_def delta_iter_def range_inclusive_def delta_ok_def

section \<open>Buffer operations\<close>

text \<open>The interface the store relies on: a map with last-write-wins updates.\<close>

locale write_buffer =
  fixes empty :: 'd
    and ins :: "'d \<Rightarrow> 'k \<Rightarrow> 'd"
    and del :: "'d \<Rightarrow> 'k \<Rightarrow> 'd"
    and get :: "'d \<Rightarrow> 'k \<Rightarrow> bool option"
    and ok :: "'d \<Rightarrow> bool"
  assumes ok_empty: "ok empty"
    and ok_ins: "ok d \<Longrightarrow> ok (ins d k)"
    and ok_del: "ok d \<Longrightarrow> ok (del d k)"
    and get_empty: "get empty k = None"
    and get_ins: "ok d \<Longrightarrow> get (ins d k) k' = (if k' = k then Some True else get d k')"
    and get_del: "ok d \<Longrightarrow> get (del d k) k' = (if k' = k then Some False else get d k')"
begin

text \<open>Running a list of writes; the last write to a key decides.\<close>

primrec run_writes :: "'d \<Rightarrow> ('k \<times> bool) list \<Rightarrow> 'd" where
  "run_writes d [] = d"
| "run_writes d (w # ws) = run_writes (if snd w then ins d (fst w) else del d (fst w)) ws"

lemma run_writes_ok: "ok d \<Longrightarrow> ok (run_writes d ws)"
  by (induction ws arbitrary: d) (auto simp: ok_ins ok_del)

lemma run_writes_get:
  "ok d \<Longrightarrow> get (run_writes d ws) k =
     (case map_of (rev ws) k of None \<Rightarrow> get d k | Some b \<Rightarrow> Some b)"
  by (induction ws arbitrary: d)
    (auto simp: ok_ins ok_del get_ins get_del map_add_def split: option.splits)

end

interpretation lsm: write_buffer delta_new insert_key tombstone_key delta_get delta_ok
  by unfold_locales (auto simp: delta_defs)

lemma delta_counts: "insert_count d + tombstone_count d = delta_len d"
  using sum_length_filter_compl [of "\<lambda>v. v" "map snd (inner d)"]
  by (simp add: insert_count_def tombstone_count_def delta_len_def)

section \<open>Key ranges\<close>

lemma mask_u128: "push_bit n 1 - 1 = (mask n :: u128)"
  by (simp add: mask_eq_exp_minus_1 push_bit_eq_mult)

lemma term_id_ok_bounds [simp]: "term_id_ok (TermId 0)" "term_id_ok (TermId MAX_TERM_ID)"
  by (simp_all add: term_id_ok_def)

lemma term_id_between: "term_id_ok t \<Longrightarrow> TermId 0 \<le> t \<and> t \<le> TermId MAX_TERM_ID"
  by (simp add: term_id_ok_def less_eq_term_id_def)

lemmas pack_bits = bit_pack_quad MAX_TERM_ID_mask bit_simps

lemma graph_range_pack:
  "graph_range g s p ob =
    (let t0 = TermId 0; t1 = TermId MAX_TERM_ID in
     case (s, p, ob) of
       (Some sv, Some pv, Some ov) \<Rightarrow> (pack_quad g sv pv ov, pack_quad g sv pv ov)
     | (Some sv, Some pv, None) \<Rightarrow> (pack_quad g sv pv t0, pack_quad g sv pv t1)
     | (Some sv, None, _) \<Rightarrow> (pack_quad g sv t0 t0, pack_quad g sv t1 t1)
     | (None, _, _) \<Rightarrow> (pack_quad g t0 t0 t0, pack_quad g t1 t1 t1))"
proof -
  have 1: "pack_quad g sv pv (TermId MAX_TERM_ID) = pack_quad g sv pv (TermId 0) OR mask 40" for sv pv
    by (rule bit_word_eqI) (auto simp: pack_bits)
  have 2: "pack_quad g sv (TermId MAX_TERM_ID) (TermId MAX_TERM_ID)
      = pack_quad g sv (TermId 0) (TermId 0) OR mask 80" for sv
    by (rule bit_word_eqI) (auto simp: pack_bits)
  have 3: "pack_quad g (TermId MAX_TERM_ID) (TermId MAX_TERM_ID) (TermId MAX_TERM_ID)
      = pack_quad g (TermId 0) (TermId 0) (TermId 0) OR mask 120"
    by (rule bit_word_eqI) (auto simp: pack_bits)
  show ?thesis
    unfolding graph_range_def Let_def 3 mask_u128
    unfolding 2 unfolding 1
    by (auto simp: pack_quad_def split: option.splits)
qed

lemma graph_range_iff:
  assumes "\<And>t. s = Some t \<Longrightarrow> term_id_ok t" "\<And>t. p = Some t \<Longrightarrow> term_id_ok t"
    and "\<And>t. ob = Some t \<Longrightarrow> term_id_ok t"
    and "graph_range g s p ob = (lo, hi)"
    and "unpack_quad key = (g', s', p', ob')"
  shows "lo \<le> key \<and> key \<le> hi \<longleftrightarrow> g' = g \<and> (s \<noteq> None \<longrightarrow> Some s' = s \<and>
    (p \<noteq> None \<longrightarrow> Some p' = p \<and> (ob \<noteq> None \<longrightarrow> Some ob' = ob)))"
proof -
  have key: "key = pack_quad g' s' p' ob'" and ok: "term_id_ok s'" "term_id_ok p'" "term_id_ok ob'"
    using pack_unpack [OF assms(5)] unpack_quad_ok [OF assms(5)] by auto
  note btw = ok [THEN term_id_between]
  show ?thesis
    using assms(4) ok btw unfolding graph_range_pack key
    by (auto simp: Let_def pack_quad_le_iff assms(1-3) split: option.splits)
qed

lemma set_range_inclusive:
  "delta_ok d \<Longrightarrow> set (range_inclusive d lo hi) = {(key, v). delta_get d key = Some v \<and> lo \<le> key \<and> key \<le> hi}"
  using bt_get_Some_iff [of "inner d"] by (auto simp: delta_ok_def range_inclusive_def set_bt_range delta_get_def)

lemma range_inclusive_distinct: "delta_ok d \<Longrightarrow> distinct (map fst (range_inclusive d lo hi))"
  by (simp add: delta_ok_def range_inclusive_def bt_ok_distinct bt_ok_range)

section \<open>Properties\<close>

text \<open>
  (C20) A range scan of the buffer returns exactly the pending writes of a pattern: scanning
  the key range of a graph and a bound prefix (subject; subject and predicate; all three)
  lists, in key order, the entries of that graph whose bound components agree.
\<close>

theorem graph_range_scan:
  assumes "delta_ok d"
    and "\<And>t. t \<in> set_option s \<union> set_option p \<union> set_option ob \<Longrightarrow> term_id_ok t"
  shows "case graph_range g s p ob of (lo, hi) \<Rightarrow>
    sorted_wrt (<) (map fst (range_inclusive d lo hi)) \<and>
    set (range_inclusive d lo hi) = {(key, v). delta_get d key = Some v \<and>
      (case unpack_quad key of (g', s', p', ob') \<Rightarrow> g' = g \<and> (s \<noteq> None \<longrightarrow> Some s' = s \<and>
         (p \<noteq> None \<longrightarrow> Some p' = p \<and> (ob \<noteq> None \<longrightarrow> Some ob' = ob))))}"
proof -
  obtain lo hi where gr: "graph_range g s p ob = (lo, hi)" by (cases "graph_range g s p ob")
  have ok: "bt_ok (inner d)" using assms(1) by (simp add: delta_ok_def)
  have "lo \<le> key \<and> key \<le> hi \<longleftrightarrow> (case unpack_quad key of (g', s', p', ob') \<Rightarrow> g' = g \<and> (s \<noteq> None \<longrightarrow> Some s' = s \<and>
         (p \<noteq> None \<longrightarrow> Some p' = p \<and> (ob \<noteq> None \<longrightarrow> Some ob' = ob))))" for key
    using graph_range_iff [OF _ _ _ gr, of key] assms(2) by (cases "unpack_quad key") auto
  then show ?thesis
    using bt_ok_range [OF ok, of lo hi] set_range_inclusive [OF assms(1), of lo hi] by (simp add: gr range_inclusive_def)
qed

theorem graph_range_scan_witness:
  "let d = insert_key (insert_key delta_new (pack_quad (GraphId 1) (TermId 2) (TermId 3) (TermId 4)))
         (pack_quad (GraphId 2) (TermId 2) (TermId 3) (TermId 4));
       (lo, hi) = graph_range (GraphId 1) (Some (TermId 2)) None None
   in set (range_inclusive d lo hi) = {(pack_quad (GraphId 1) (TermId 2) (TermId 3) (TermId 4), True)}"
proof -
  let ?d = "insert_key (insert_key delta_new (pack_quad (GraphId 1) (TermId 2) (TermId 3) (TermId 4)))
         (pack_quad (GraphId 2) (TermId 2) (TermId 3) (TermId 4))"
  have ok: "term_id_ok (TermId 2)" "term_id_ok (TermId 3)" "term_id_ok (TermId 4)"
    by (simp_all add: term_id_ok_def MAX_TERM_ID_def push_bit_eq_mult)
  have d: "delta_ok ?d" by (intro lsm.ok_ins lsm.ok_empty)
  have get: "delta_get ?d k = Some v \<longleftrightarrow> v \<and> (k = pack_quad (GraphId 1) (TermId 2) (TermId 3) (TermId 4) \<or>
      k = pack_quad (GraphId 2) (TermId 2) (TermId 3) (TermId 4))" for k v
    by (auto simp: lsm.get_ins lsm.get_empty lsm.ok_ins lsm.ok_empty)
  obtain lo hi where gr: "graph_range (GraphId 1) (Some (TermId 2)) None None = (lo, hi)"
    by (cases "graph_range (GraphId 1) (Some (TermId 2)) None None")
  have "set (range_inclusive ?d lo hi) = {(key, v). delta_get ?d key = Some v \<and>
      (case unpack_quad key of (g', s', p', ob') \<Rightarrow> g' = GraphId 1 \<and> s' = TermId 2)}"
    using graph_range_scan [OF d, of "Some (TermId 2)" None None "GraphId 1"] ok(1) gr by simp
  also have "\<dots> = {(pack_quad (GraphId 1) (TermId 2) (TermId 3) (TermId 4), True)}"
    using ok by (auto simp: get unpack_pack)
  finally show ?thesis by (simp add: gr)
qed

text \<open>
  The buffer is last-write-wins: after any sequence of inserts and tombstones the entry of
  a key is the flag of the last write to it, and a key never written has none.
\<close>

theorem delta_last_write_wins:
  "delta_get (foldl (\<lambda>d (k, b). if b then insert_key d k else tombstone_key d k) delta_new ws) key
     = map_of (rev ws) key"
proof -
  have "foldl (\<lambda>d (k, b). if b then insert_key d k else tombstone_key d k) d ws = lsm.run_writes d ws" for d
    by (induction ws arbitrary: d) (auto simp: split_beta)
  then show ?thesis
    using lsm.run_writes_get [OF lsm.ok_empty, of ws key] by (simp add: lsm.get_empty split: option.splits)
qed

end
