(* ===== verification/Rdf.thy ===== *)
theory Rdf
  imports Prelude
begin

text \<open>
  RDF data as the sources see it. Strings are UTF-8 byte strings (Rust's \<^verbatim>\<open>str\<close>); terms,
  subjects, graph names and quads are the enumerations and structures that
  \<^verbatim>\<open>nova-core\<close> re-exports from the \<^verbatim>\<open>oxrdf\<close> crate and that the sources match on.
  Literals are opaque in that crate: the sources reach them through accessors and
  constructors only, so the model takes those as a parameter, \<open>'l literal_api\<close>, and
  \<open>literal_laws\<close> states the documented behaviour the sources rely on.
\<close>

section \<open>UTF-8\<close>

type_synonym rstring = bytes

definition utf8_cont :: "u8 \<Rightarrow> bool" where
  "utf8_cont b \<longleftrightarrow> 0x80 \<le> b \<and> b \<le> 0xBF"

text \<open>\<^verbatim>\<open>std::str::from_utf8\<close>: well-formed byte sequences of the Unicode standard.\<close>

fun valid_utf8 :: "bytes \<Rightarrow> bool" where
  "valid_utf8 [] = True"
| "valid_utf8 (b # bs) =
     (if b < 0x80 then valid_utf8 bs
      else if 0xC2 \<le> b \<and> b \<le> 0xDF then
        (case bs of c # r \<Rightarrow> utf8_cont c \<and> valid_utf8 r | _ \<Rightarrow> False)
      else if 0xE0 \<le> b \<and> b \<le> 0xEF then
        (case bs of c # d # r \<Rightarrow>
            utf8_cont c \<and> (b = 0xE0 \<longrightarrow> 0xA0 \<le> c) \<and> (b = 0xED \<longrightarrow> c \<le> 0x9F)
            \<and> utf8_cont d \<and> valid_utf8 r
         | _ \<Rightarrow> False)
      else if 0xF0 \<le> b \<and> b \<le> 0xF4 then
        (case bs of c # d # e # r \<Rightarrow>
            utf8_cont c \<and> (b = 0xF0 \<longrightarrow> 0x90 \<le> c) \<and> (b = 0xF4 \<longrightarrow> c \<le> 0x8F)
            \<and> utf8_cont d \<and> utf8_cont e \<and> valid_utf8 r
         | _ \<Rightarrow> False)
      else False)"

section \<open>Terms and quads\<close>

datatype base_direction = Ltr | Rtl

datatype subject = SubjNamed rstring | SubjBlank rstring

datatype graph_name = DefaultGraph | GraphNamed rstring | GraphBlank rstring

datatype 'l rdf_term =
    NamedNode rstring
  | BlankNode rstring
  | Literal 'l
  | Triple subject rstring "'l rdf_term"

record 'l quad =
  quad_subject :: subject
  quad_predicate :: rstring
  quad_object :: "'l rdf_term"
  quad_graph :: graph_name

section \<open>The literal interface\<close>

record 'l literal_api =
  lit_value :: "'l \<Rightarrow> rstring"
  lit_language :: "'l \<Rightarrow> rstring option"
  lit_direction :: "'l \<Rightarrow> base_direction option"
  lit_datatype :: "'l \<Rightarrow> rstring"
  new_simple :: "rstring \<Rightarrow> 'l"
  new_lang :: "rstring \<Rightarrow> rstring \<Rightarrow> 'l"
  new_dir_lang :: "rstring \<Rightarrow> rstring \<Rightarrow> base_direction \<Rightarrow> 'l"
  new_typed :: "rstring \<Rightarrow> rstring \<Rightarrow> 'l"
  xsd_string :: rstring

text \<open>
  A literal with a base direction has a language tag, and a literal is determined by what
  its accessors return: the constructor for its kind rebuilds it.
\<close>

definition literal_laws :: "'l literal_api \<Rightarrow> bool" where
  "literal_laws api \<longleftrightarrow> (\<forall>l.
     (case lit_direction api l of
        Some d \<Rightarrow> (\<exists>g. lit_language api l = Some g \<and> new_dir_lang api (lit_value api l) g d = l)
      | None \<Rightarrow>
          (case lit_language api l of
             Some g \<Rightarrow> new_lang api (lit_value api l) g = l
           | None \<Rightarrow>
               if lit_datatype api l = xsd_string api then new_simple api (lit_value api l) = l
               else new_typed api (lit_value api l) (lit_datatype api l) = l)))"

text \<open>The strings of a literal are Rust strings.\<close>

definition literal_strings :: "'l literal_api \<Rightarrow> 'l \<Rightarrow> rstring list" where
  "literal_strings api l =
     [lit_value api l, lit_datatype api l] @ (case lit_language api l of None \<Rightarrow> [] | Some g \<Rightarrow> [g])"

text \<open>
  A concrete instance, used where a property is applied to concrete data: the literals of
  the RDF 1.2 data model, a plain string being a typed literal of datatype \<open>xsd:string\<close>.
\<close>

datatype rdf_literal =
    LangLiteral rstring rstring
  | DirLangLiteral rstring rstring base_direction
  | TypedLiteral rstring rstring

definition std_literal_api :: "rstring \<Rightarrow> rstring \<Rightarrow> rstring \<Rightarrow> rdf_literal literal_api" where
  "std_literal_api xsdstr langstr dirstr =
     \<lparr>lit_value = (\<lambda>l. case l of LangLiteral v _ \<Rightarrow> v | DirLangLiteral v _ _ \<Rightarrow> v
                      | TypedLiteral v _ \<Rightarrow> v),
      lit_language = (\<lambda>l. case l of LangLiteral _ g \<Rightarrow> Some g | DirLangLiteral _ g _ \<Rightarrow> Some g
                      | _ \<Rightarrow> None),
      lit_direction = (\<lambda>l. case l of DirLangLiteral _ _ d \<Rightarrow> Some d | _ \<Rightarrow> None),
      lit_datatype = (\<lambda>l. case l of LangLiteral _ _ \<Rightarrow> langstr
                      | DirLangLiteral _ _ _ \<Rightarrow> dirstr | TypedLiteral _ d \<Rightarrow> d),
      new_simple = (\<lambda>v. TypedLiteral v xsdstr),
      new_lang = LangLiteral,
      new_dir_lang = DirLangLiteral,
      new_typed = TypedLiteral,
      xsd_string = xsdstr\<rparr>"

lemma std_literal_laws: "literal_laws (std_literal_api x l d)"
  by (auto simp: literal_laws_def std_literal_api_def split: rdf_literal.splits)

end
