(* ===== verification/DictCompact.thy ===== *)
theory DictCompact
  imports Rdf "HOL-Library.List_Lexorder"
begin

text \<open>
  The compacted dictionary tier of \<^verbatim>\<open>crates/core/nova-core/src/dict_compact.rs\<close>: LEB128 varints,
  the split of a term into tag, primary string and auxiliary bytes, the front-coded block
  buffer, and the lookups in both directions. The bit-packed vectors of the \<^verbatim>\<open>sux\<close> crate are a
  parameter (\<open>bit_fields\<close>) with their documented behaviour as the locale \<open>bit_field_vec\<close>. A
  result \<open>None\<close> of a function in the option monad is a panic.
\<close>

section \<open>Varints and strings\<close>

function write_varint :: "u64 \<Rightarrow> bytes" where
  "write_varint v =
     (let byte = ucast (v AND 0x7f) :: u8; v' = drop_bit 7 v in
      if v' \<noteq> 0 then (byte OR 0x80) # write_varint v' else [byte])"
  by pat_completeness auto
termination
proof (relation "measure unat", goal_cases)
  case (2 v byte v')
  then have "unat v > 0" by (metis bot_nat_0.not_eq_extremum drop_bit_of_0 unat_0_iff)
  moreover have "unat (drop_bit 7 v) = unat v div 2 ^ 7"
    by (simp only: unat_drop_bit_eq) (simp only: drop_bit_eq_div)
  ultimately show ?case using 2 by (simp del: drop_bit_of_0) 
qed simp

declare write_varint.simps [simp del]

text \<open>A shift by 64 or more panics with overflow checks; self-written buffers never reach it.\<close>

fun read_varint_loop :: "nat \<Rightarrow> bytes \<Rightarrow> nat \<Rightarrow> u64 \<Rightarrow> nat \<Rightarrow> (u64 \<times> nat) option" where
  "read_varint_loop 0 buf pos res sh = None"
| "read_varint_loop (Suc n) buf pos res sh =
     do {byte \<leftarrow> nth_opt buf pos;
         let pos = pos + 1;
         if sh \<ge> 64 then None
         else do {
           let res = res OR push_bit sh (ucast (byte AND 0x7f));
           if byte AND 0x80 = 0 then Some (res, pos)
           else read_varint_loop n buf pos res (sh + 7)}}"

text \<open>Every iteration consumes a byte, so the length of the buffer bounds the loop.\<close>

definition read_varint :: "bytes \<Rightarrow> nat \<Rightarrow> (u64 \<times> nat) option" where
  "read_varint buf pos = read_varint_loop (Suc (length buf)) buf pos 0 0"

definition write_str :: "rstring \<Rightarrow> bytes" where
  "write_str s = write_varint (of_nat (length s)) @ s"

definition read_bytes :: "bytes \<Rightarrow> nat \<Rightarrow> nat \<Rightarrow> (bytes \<times> nat) option" where
  "read_bytes buf pos len = do {bs \<leftarrow> slice_of buf pos (pos + len); Some (bs, pos + len)}"

definition read_str :: "bytes \<Rightarrow> nat \<Rightarrow> (rstring \<times> nat) option" where
  "read_str buf pos =
     do {(len, pos) \<leftarrow> read_varint buf pos;
         (bs, pos) \<leftarrow> read_bytes buf pos (unat len);
         if valid_utf8 bs then Some (bs, pos) else None}"

definition common_prefix_len :: "bytes \<Rightarrow> bytes \<Rightarrow> nat" where
  "common_prefix_len a b = length (takeWhile (\<lambda>(x, y). x = y) (zip a b))"

fun bit_length :: "nat \<Rightarrow> nat" where
  "bit_length n = (if n = 0 then 0 else Suc (bit_length (n div 2)))"

declare bit_length.simps [simp del]

definition bit_width_for :: "nat \<Rightarrow> nat" where
  "bit_width_for max_val = max (bit_length max_val) 1"

section \<open>Terms and their parts\<close>

fun term_sort_key :: "'l literal_api \<Rightarrow> 'l rdf_term \<Rightarrow> (u8 \<times> bytes) option" where
  "term_sort_key api (NamedNode n) = Some (0, n)"
| "term_sort_key api (BlankNode b) = Some (1, b)"
| "term_sort_key api (Literal l) =
     (let tag = (if lit_direction api l \<noteq> None then 4
                 else if lit_language api l \<noteq> None then 3
                 else if lit_datatype api l = xsd_string api then 2
                 else 5)
      in Some (tag, lit_value api l))"
| "term_sort_key api (Triple _ _ _) = None"

fun term_aux_bytes :: "'l literal_api \<Rightarrow> 'l rdf_term \<Rightarrow> bytes option" where
  "term_aux_bytes api (NamedNode _) = Some []"
| "term_aux_bytes api (BlankNode _) = Some []"
| "term_aux_bytes api (Literal l) =
     (case lit_direction api l of
        Some direction \<Rightarrow>
          Some (write_str (case lit_language api l of None \<Rightarrow> [] | Some g \<Rightarrow> g)
                @ [case direction of Ltr \<Rightarrow> 0 | Rtl \<Rightarrow> 1])
      | None \<Rightarrow>
          (case lit_language api l of
             Some lang \<Rightarrow> Some (write_str lang)
           | None \<Rightarrow>
               if lit_datatype api l = xsd_string api then Some []
               else Some (write_str (lit_datatype api l))))"
| "term_aux_bytes api (Triple _ _ _) = None"

definition utf8_result :: "bytes \<Rightarrow> rstring result" where
  "utf8_result bs = (if valid_utf8 bs then Inr bs else Inl (Storage ''dict compact: invalid utf8''))"

text \<open>The outer option is a panic, the inner sum the source's \<open>Result\<close>.\<close>

definition term_from_parts ::
  "'l literal_api \<Rightarrow> u8 \<Rightarrow> bytes \<Rightarrow> bytes \<Rightarrow> 'l rdf_term result option" where
  "term_from_parts api tag primary aux =
     (if tag = 0 then Some (and_then (utf8_result primary) (\<lambda>s. Inr (NamedNode s)))
      else if tag = 1 then Some (and_then (utf8_result primary) (\<lambda>s. Inr (BlankNode s)))
      else if tag = 2 then Some (and_then (utf8_result primary) (\<lambda>s. Inr (Literal (new_simple api s))))
      else if tag = 3 then
        do {(lang, pos) \<leftarrow> read_str aux 0;
            Some (and_then (utf8_result primary) (\<lambda>s. Inr (Literal (new_lang api s lang))))}
      else if tag = 4 then
        do {(lang, pos) \<leftarrow> read_str aux 0;
            dir_byte \<leftarrow> nth_opt aux pos;
            if dir_byte = 0 then
              Some (and_then (utf8_result primary) (\<lambda>s. Inr (Literal (new_dir_lang api s lang Ltr))))
            else if dir_byte = 1 then
              Some (and_then (utf8_result primary) (\<lambda>s. Inr (Literal (new_dir_lang api s lang Rtl))))
            else Some (Inl (Storage ''dict compact: invalid direction byte''))}
      else if tag = 5 then
        do {(datatype, pos) \<leftarrow> read_str aux 0;
            Some (and_then (utf8_result primary) (\<lambda>s. Inr (Literal (new_typed api s datatype))))}
      else Some (Inl (Storage ''dict compact: unknown term tag'')))"

section \<open>The compacted tier\<close>

text \<open>The bit-packed vectors: an empty vector of a bit width, appending, reading.\<close>

record 'v bit_fields =
  bf_new :: "nat \<Rightarrow> 'v"
  bf_push :: "'v \<Rightarrow> nat \<Rightarrow> 'v option"
  bf_get :: "'v \<Rightarrow> nat \<Rightarrow> nat option"

record 'v compacted_tier =
  block_size :: nat
  high_water :: nat
  encoded_count :: nat
  fc_buf :: bytes
  block_starts :: "u32 list"
  block_tags :: bytes
  key_flat :: bytes
  key_offsets :: "u32 list"
  rank2id :: 'v
  id2rank :: 'v
  rank2id_bit_width :: nat
  id2rank_bit_width :: nat

definition BLOCK_SIZE :: nat where
  "BLOCK_SIZE = 8"

definition tier_empty :: "'v bit_fields \<Rightarrow> 'v compacted_tier" where
  "tier_empty V =
     \<lparr>block_size = BLOCK_SIZE, high_water = 0, encoded_count = 0, fc_buf = [], block_starts = [],
      block_tags = [], key_flat = [], key_offsets = [], rank2id = bf_new V 1, id2rank = bf_new V 1,
      rank2id_bit_width = 1, id2rank_bit_width = 1\<rparr>"

text \<open>An entry: tag, primary string, auxiliary bytes and original identifier.\<close>

type_synonym fc_entry = "u8 \<times> bytes \<times> bytes \<times> nat"

definition encode_entry :: "bytes \<Rightarrow> u8 \<Rightarrow> bytes \<Rightarrow> bytes \<Rightarrow> bytes" where
  "encode_entry prev_primary tag primary aux =
     (let lcp = common_prefix_len prev_primary primary; suffix = drop lcp primary in
      write_varint (of_nat lcp) @ write_varint (of_nat (length suffix)) @ suffix @ [tag]
      @ write_varint (of_nat (length aux)) @ aux)"

text \<open>The buffers the entry loop of \<open>build\<close> fills.\<close>

record fc_buffers =
  b_buf :: bytes
  b_starts :: "u32 list"
  b_tags :: bytes
  b_key_flat :: bytes
  b_key_offsets :: "u32 list"

fun build_entries :: "nat \<Rightarrow> bytes \<Rightarrow> fc_entry list \<Rightarrow> fc_buffers \<Rightarrow> fc_buffers" where
  "build_entries i last_primary [] st = st"
| "build_entries i last_primary ((tag, primary, aux, orig_id) # es) st =
     (let in_block_pos = i mod BLOCK_SIZE;
          st = (if in_block_pos = 0
                then st\<lparr>b_starts := b_starts st @ [of_nat (length (b_buf st))],
                        b_tags := b_tags st @ [tag],
                        b_key_offsets := b_key_offsets st @ [of_nat (length (b_key_flat st))],
                        b_key_flat := b_key_flat st @ primary\<rparr>
                else st);
          prev_primary = (if in_block_pos = 0 then [] else last_primary)
      in build_entries (Suc i) primary es
           (st\<lparr>b_buf := b_buf st @ encode_entry prev_primary tag primary aux\<rparr>))"

definition push_all :: "'v bit_fields \<Rightarrow> nat \<Rightarrow> nat list \<Rightarrow> 'v option" where
  "push_all V width vals = fold_opt (\<lambda>v bv. bf_push V bv v) vals (bf_new V width)"

text \<open>Writing \<open>id2rank_vals[orig_id] = rank\<close>; an index past the end panics.\<close>

fun assign_ranks :: "nat \<Rightarrow> fc_entry list \<Rightarrow> nat list \<Rightarrow> nat list option" where
  "assign_ranks rank [] vals = Some vals"
| "assign_ranks rank ((_, _, _, orig_id) # es) vals =
     (if orig_id < length vals then assign_ranks (Suc rank) es (vals[orig_id := rank]) else None)"

definition tier_build :: "'v bit_fields \<Rightarrow> fc_entry list \<Rightarrow> nat \<Rightarrow> 'v compacted_tier option" where
  "tier_build V entries hw =
     (let st = build_entries 0 [] entries
                 \<lparr>b_buf = [], b_starts = [], b_tags = [], b_key_flat = [], b_key_offsets = []\<rparr>;
          rank2id_bits = bit_width_for (hw - 1);
          id2rank_bits = bit_width_for (length entries - 1)
      in do {
        r2i \<leftarrow> push_all V rank2id_bits (map (\<lambda>(_, _, _, orig_id). orig_id) entries);
        id2rank_vals \<leftarrow> assign_ranks 0 entries (replicate hw 0);
        i2r \<leftarrow> push_all V id2rank_bits id2rank_vals;
        Some \<lparr>block_size = BLOCK_SIZE, high_water = hw, encoded_count = length entries,
              fc_buf = b_buf st, block_starts = b_starts st, block_tags = b_tags st,
              key_flat = b_key_flat st, key_offsets = b_key_offsets st, rank2id = r2i, id2rank = i2r,
              rank2id_bit_width = rank2id_bits, id2rank_bit_width = id2rank_bits\<rparr>})"

definition num_blocks :: "'v compacted_tier \<Rightarrow> nat" where
  "num_blocks t = length (block_starts t)"

definition decode_entry :: "bytes \<Rightarrow> bytes \<Rightarrow> nat \<Rightarrow> ((u8 \<times> bytes \<times> bytes) \<times> nat) option" where
  "decode_entry buf prev_primary pos =
     do {(lcp, pos) \<leftarrow> read_varint buf pos;
         (suffix_len, pos) \<leftarrow> read_varint buf pos;
         common \<leftarrow> slice_of prev_primary 0 (unat lcp);
         (suffix, pos) \<leftarrow> read_bytes buf pos (unat suffix_len);
         tag \<leftarrow> nth_opt buf pos;
         let pos = pos + 1;
         (aux_len, pos) \<leftarrow> read_varint buf pos;
         (aux, pos) \<leftarrow> read_bytes buf pos (unat aux_len);
         Some ((tag, common @ suffix, aux), pos)}"

partial_function (option) decode_entries ::
  "bytes \<Rightarrow> bytes \<Rightarrow> nat \<Rightarrow> nat \<Rightarrow> (u8 \<times> bytes \<times> bytes) list \<Rightarrow> (u8 \<times> bytes \<times> bytes) list option" where
  "decode_entries buf prev_primary pos end_pos out =
     (if pos < end_pos then
        do {((tag, primary, aux), pos) \<leftarrow> decode_entry buf prev_primary pos;
            decode_entries buf primary pos end_pos (out @ [(tag, primary, aux)])}
      else Some out)"

definition decode_block :: "'v compacted_tier \<Rightarrow> nat \<Rightarrow> (u8 \<times> bytes \<times> bytes) list option" where
  "decode_block t block_idx =
     do {start \<leftarrow> nth_opt (block_starts t) block_idx;
         let end_pos = (case nth_opt (block_starts t) (block_idx + 1) of
                          Some x \<Rightarrow> unat x | None \<Rightarrow> length (fc_buf t));
         decode_entries (fc_buf t) [] (unat start) end_pos []}"

definition block_key_bytes :: "'v compacted_tier \<Rightarrow> nat \<Rightarrow> bytes option" where
  "block_key_bytes t block_idx =
     do {start \<leftarrow> nth_opt (key_offsets t) block_idx;
         let end_pos = (case nth_opt (key_offsets t) (block_idx + 1) of
                          Some x \<Rightarrow> unat x | None \<Rightarrow> length (key_flat t));
         slice_of (key_flat t) (unat start) end_pos}"

text \<open>The binary search for the number of blocks whose first key is at most the target.\<close>

function search_blocks ::
  "'v compacted_tier \<Rightarrow> u8 \<times> bytes \<Rightarrow> nat \<Rightarrow> nat \<Rightarrow> nat option" where
  "search_blocks t target lo hi =
     (if lo < hi then
        let mid = lo + (hi - lo) div 2 in
        do {mid_tag \<leftarrow> nth_opt (block_tags t) mid;
            mid_key \<leftarrow> block_key_bytes t mid;
            let is_le = mid_tag < fst target \<or> (mid_tag = fst target \<and> mid_key \<le> snd target);
            if is_le then search_blocks t target (mid + 1) hi else search_blocks t target lo mid}
      else Some lo)"
  by pat_completeness auto
termination by (relation "measure (\<lambda>(t, target, lo, hi). hi - lo)") auto

declare search_blocks.simps [simp del]

datatype scan_step = Found nat | Passed | Continue nat

text \<open>The scan of one decoded block; \<open>Continue\<close> carries the next rank.\<close>

fun scan_block :: "u8 \<times> bytes \<Rightarrow> bytes \<Rightarrow> nat \<Rightarrow> (u8 \<times> bytes \<times> bytes) list \<Rightarrow> scan_step" where
  "scan_block target aux rank [] = Continue rank"
| "scan_block target aux rank ((t, p, a) # es) =
     (if (t, p) > target then Passed
      else if (t, p) = target \<and> a = aux then Found rank
      else scan_block target aux (Suc rank) es)"

text \<open>The option inside is the source's result, the outer one a panic.\<close>

fun scan_from ::
  "'v bit_fields \<Rightarrow> 'v compacted_tier \<Rightarrow> u8 \<times> bytes \<Rightarrow> bytes \<Rightarrow> nat \<Rightarrow> nat list \<Rightarrow> nat option option" where
  "scan_from V t target aux rank [] = Some None"
| "scan_from V t target aux rank (b # bs) =
     do {decoded \<leftarrow> decode_block t b;
         case scan_block target aux rank decoded of
           Passed \<Rightarrow> Some None
         | Found r \<Rightarrow> do {i \<leftarrow> bf_get V (rank2id t) r; Some (Some i)}
         | Continue r \<Rightarrow> scan_from V t target aux r bs}"

definition tier_get_id ::
  "'l literal_api \<Rightarrow> 'v bit_fields \<Rightarrow> 'v compacted_tier \<Rightarrow> 'l rdf_term \<Rightarrow> nat option option" where
  "tier_get_id api V t term =
     (if encoded_count t = 0 then Some None
      else do {
        target \<leftarrow> term_sort_key api term;
        aux \<leftarrow> term_aux_bytes api term;
        lo \<leftarrow> search_blocks t target 0 (num_blocks t);
        let blk = lo - 1;
        scan_from V t target aux (blk * block_size t) [blk..<num_blocks t]})"

definition tier_decode_id ::
  "'l literal_api \<Rightarrow> 'v bit_fields \<Rightarrow> 'v compacted_tier \<Rightarrow> nat \<Rightarrow> 'l rdf_term result option option" where
  "tier_decode_id api V t i =
     (if i \<ge> high_water t \<or> encoded_count t = 0 then Some None
      else do {
        rank \<leftarrow> bf_get V (id2rank t) i;
        decoded \<leftarrow> decode_block t (rank div block_size t);
        case nth_opt decoded (rank mod block_size t) of
          None \<Rightarrow> Some None
        | Some (tag, primary, aux) \<Rightarrow> map_option Some (term_from_parts api tag primary aux)})"

definition decode_block_for_id ::
  "'l literal_api \<Rightarrow> 'v bit_fields \<Rightarrow> 'v compacted_tier \<Rightarrow> nat \<Rightarrow>
   (nat \<times> 'l rdf_term result) list option option" where
  "decode_block_for_id api V t i =
     (if i \<ge> high_water t \<or> encoded_count t = 0 then Some None
      else do {
        rank \<leftarrow> bf_get V (id2rank t) i;
        let block = rank div block_size t;
        let block_start_rank = block * block_size t;
        decoded \<leftarrow> decode_block t block;
        out \<leftarrow> those (map (\<lambda>(j, tag, primary, aux).
            do {orig_id \<leftarrow> bf_get V (rank2id t) (block_start_rank + j);
                term \<leftarrow> term_from_parts api tag primary aux;
                Some (orig_id, term)}) (enumerate 0 decoded));
        Some (Some out)})"

section \<open>Reading back what was written\<close>

text \<open>A byte string occurs in a buffer at a position.\<close>

definition has_at :: "bytes \<Rightarrow> nat \<Rightarrow> bytes \<Rightarrow> bool" where
  "has_at buf pos w \<longleftrightarrow> pos + length w \<le> length buf \<and> take (length w) (drop pos buf) = w"

lemma has_at_append: "has_at buf pos (u @ v) \<longleftrightarrow> has_at buf pos u \<and> has_at buf (pos + length u) v"
proof -
  have "take (length u + length v) (drop pos buf) =
      take (length u) (drop pos buf) @ take (length v) (drop (pos + length u) buf)"
    by (simp add: take_add add.commute)
  moreover have "length (take (length u) (drop pos buf)) = length u" if "pos + length u \<le> length buf"
    using that by simp
  ultimately show ?thesis
    unfolding has_at_def by (auto simp: append_eq_append_conv)
qed

lemma has_at_middle: "has_at (pre @ w @ post) (length pre) w"
  by (simp add: has_at_def)

lemma has_at_nth: "has_at buf pos (b # w) \<Longrightarrow> nth_opt buf pos = Some b \<and> has_at buf (Suc pos) w"
proof -
  assume h: "has_at buf pos (b # w)"
  have "has_at buf pos ([b] @ w)" using h by simp
  then have "has_at buf pos [b]" "has_at buf (pos + 1) w" unfolding has_at_append by auto
  then show ?thesis by (auto simp: has_at_def nth_opt_def take_Suc hd_drop_conv_nth split: if_splits)
qed

lemma has_at_bytes: "has_at buf pos w \<Longrightarrow> read_bytes buf pos (length w) = Some (w, pos + length w)"
  by (simp add: has_at_def read_bytes_def slice_of_def)

lemma length_write_varint_pos: "0 < length (write_varint v)"
  by (subst write_varint.simps) (simp add: Let_def)

lemma mask7_u64: "(0x7f :: u64) = mask 7" and mask7_u8: "(0x7f :: u8) = mask 7"
  by (simp_all add: mask_eq_exp_minus_1)

lemma bit_0x80: "bit (0x80 :: u8) n \<longleftrightarrow> n = 7"
proof -
  have "(0x80 :: u8) = 2 ^ 7" by simp
  then show ?thesis by (simp only: bit_exp_iff) (auto simp: possible_bit_def)
qed

lemma varint_low_bits: "(ucast (v AND 0x7f) OR 0x80 :: u8) AND 0x7f = ucast (v AND 0x7f :: u64)"
  "(ucast (v AND 0x7f :: u64) :: u8) AND 0x7f = ucast (v AND 0x7f)"
  "(ucast (v AND 0x7f) OR 0x80 :: u8) AND 0x80 \<noteq> 0" "(ucast (v AND 0x7f :: u64) :: u8) AND 0x80 = 0"
proof -
  note m = mask7_u64 mask7_u8
  show "(ucast (v AND 0x7f) OR 0x80 :: u8) AND 0x7f = ucast (v AND 0x7f :: u64)"
    "(ucast (v AND 0x7f :: u64) :: u8) AND 0x7f = ucast (v AND 0x7f)"
    "(ucast (v AND 0x7f :: u64) :: u8) AND 0x80 = 0"
    unfolding m by (rule bit_word_eqI, simp only: bit_simps bit_0x80, force)+
  have "bit ((ucast (v AND 0x7f) OR 0x80 :: u8) AND 0x80) 7" unfolding m by (simp only: bit_simps bit_0x80) simp
  then show "(ucast (v AND 0x7f) OR 0x80 :: u8) AND 0x80 \<noteq> 0" by (metis bit_0_eq bot_apply bot_bool_def)
qed

lemma varint_join:
  "res OR push_bit sh (v AND 0x7f) OR push_bit (sh + 7) (drop_bit 7 v) = res OR push_bit sh (v :: u64)"
proof -
  have "n - sh < 7 \<or> sh + 7 \<le> n \<and> 7 + (n - (sh + 7)) = n - sh" for n by linarith
  then show ?thesis
    unfolding mask7_u64 by (intro bit_word_eqI) (auto simp: bit_simps, metis)
qed

lemma read_varint_loop_write:
  assumes "has_at buf pos (write_varint v)" "sh < 64" "unat v < 2 ^ (64 - sh)" "length (write_varint v) \<le> n"
  shows "read_varint_loop n buf pos res sh = Some (res OR push_bit sh v, pos + length (write_varint v))"
  using assms
proof (induction v arbitrary: pos sh n res rule: write_varint.induct)
  case (1 v)
  let ?v = "drop_bit 7 v"
  obtain m where n: "n = Suc m" using "1.prems"(4) length_write_varint_pos [of v] by (cases n) auto
  have uc: "ucast (ucast (v AND 0x7f) :: u8) = (v AND 0x7f :: u64)"
    unfolding mask7_u64 by (rule bit_word_eqI) (auto simp: bit_simps)
  show ?case
  proof (cases "?v = 0")
    case True
    then have w: "write_varint v = [ucast (v AND 0x7f)]" by (subst write_varint.simps) simp
    then have "nth_opt buf pos = Some (ucast (v AND 0x7f))" using "1.prems"(1) has_at_nth by fastforce
    moreover have "res OR push_bit sh (v AND 0x7f) = res OR push_bit sh v"
      using varint_join [of res sh v] True by simp
    ultimately show ?thesis using "1.prems"(2) by (simp add: n w varint_low_bits uc)
  next
    case False
    then have w: "write_varint v = (ucast (v AND 0x7f) OR 0x80) # write_varint ?v"
      by (subst write_varint.simps) simp
    have h: "nth_opt buf pos = Some (ucast (v AND 0x7f) OR 0x80)" "has_at buf (Suc pos) (write_varint ?v)"
      using has_at_nth [OF "1.prems"(1) [unfolded w]] by blast+
    have uv: "unat ?v = unat v div 2 ^ 7"
      by (simp only: unat_drop_bit_eq) (simp only: drop_bit_eq_div)
    have "unat ?v \<noteq> 0" using False by (simp only: unat_eq_zero not_False_eq_True)
    then have sh: "sh + 7 < 64"
    proof -
      have "2 ^ 7 \<le> unat v" using \<open>unat ?v \<noteq> 0\<close> unfolding uv by (metis div_less linorder_not_less)
      then have "(2::nat) ^ 7 < 2 ^ (64 - sh)" using "1.prems"(3) by (rule le_less_trans)
      then have "7 < 64 - sh" by (rule power_less_imp_less_exp [rotated]) simp
      then show ?thesis by simp
    qed
    have "unat ?v < 2 ^ (64 - (sh + 7))"
    proof -
      have "64 - sh = (64 - (sh + 7)) + 7" using sh by simp
      then have "unat v < 2 ^ (64 - (sh + 7)) * 2 ^ 7" using "1.prems"(3) by (metis power_add)
      then show ?thesis unfolding uv by (rule less_mult_imp_div_less)
    qed
    then have "read_varint_loop m buf (Suc pos) (res OR push_bit sh (v AND 0x7f)) (sh + 7) =
        Some (res OR push_bit sh (v AND 0x7f) OR push_bit (sh + 7) ?v, Suc pos + length (write_varint ?v))"
      using "1.IH" [OF refl refl False h(2) sh] "1.prems"(4) unfolding n w by (simp add: or.assoc)
    then show ?thesis using h(1) "1.prems"(2) by (simp add: n w varint_low_bits uc varint_join del: push_bit_and)
  qed
qed

lemma read_varint_write:
  assumes "has_at buf pos (write_varint v)"
  shows "read_varint buf pos = Some (v, pos + length (write_varint v))"
proof -
  have "unat v < 2 ^ 64" using unsigned_less [of v] by simp
  moreover have "length (write_varint v) \<le> Suc (length buf)" using assms by (simp add: has_at_def)
  ultimately show ?thesis
    unfolding read_varint_def using read_varint_loop_write [OF assms, of 0 "Suc (length buf)" 0]
    by (simp del: read_varint_loop.simps)
qed

lemma unat_of_nat_u64: "n < 2 ^ 64 \<Longrightarrow> unat (of_nat n :: u64) = n"
  by (simp add: unat_of_nat take_bit_nat_eq_self)

lemma unat_of_nat_u32: "n < 2 ^ 32 \<Longrightarrow> unat (of_nat n :: u32) = n"
  by (simp add: unat_of_nat take_bit_nat_eq_self)

lemma read_str_write:
  assumes "has_at buf pos (write_str s)" "valid_utf8 s" "length s < 2 ^ 64"
  shows "read_str buf pos = Some (s, pos + length (write_str s))"
proof -
  have "has_at buf pos (write_varint (of_nat (length s)))"
    "has_at buf (pos + length (write_varint (of_nat (length s)))) s"
    using assms(1) by (simp_all add: write_str_def has_at_append)
  from this(1) has_at_bytes [OF this(2)] show ?thesis
    using assms(2,3) by (simp add: read_str_def read_varint_write unat_of_nat_u64 write_str_def)
qed

section \<open>Front coding\<close>

lemma common_prefix_take:
  "take (common_prefix_len a b) a = take (common_prefix_len a b) b \<and>
   common_prefix_len a b \<le> length a \<and> common_prefix_len a b \<le> length b"
proof (induction a arbitrary: b)
  case (Cons x a)
  then show ?case by (cases b) (auto simp: common_prefix_len_def)
qed (simp add: common_prefix_len_def)

text \<open>Strings shorter than the address space.\<close>

fun entry_small :: "fc_entry \<Rightarrow> bool" where
  "entry_small (tag, primary, aux, i) \<longleftrightarrow> length primary < 2 ^ 64 \<and> length aux < 2 ^ 64"

fun strip_id :: "fc_entry \<Rightarrow> u8 \<times> bytes \<times> bytes" where
  "strip_id (tag, primary, aux, i) = (tag, primary, aux)"

lemma decode_entry_encode:
  assumes "has_at buf pos (encode_entry prev tag primary aux)" "entry_small (tag, primary, aux, i)"
  shows "decode_entry buf prev pos =
    Some ((tag, primary, aux), pos + length (encode_entry prev tag primary aux))"
proof -
  let ?lcp = "common_prefix_len prev primary"
  let ?suffix = "drop ?lcp primary"
  let ?a = "write_varint (of_nat ?lcp)" and ?b = "write_varint (of_nat (length ?suffix))"
    and ?c = "write_varint (of_nat (length aux))"
  note cp = common_prefix_take [of prev primary]
  have small: "?lcp < 2 ^ 64" "length ?suffix < 2 ^ 64" "length aux < 2 ^ 64"
    using assms(2) cp by auto
  have h: "has_at buf pos ?a" "has_at buf (pos + length ?a) ?b"
    "has_at buf (pos + length ?a + length ?b) ?suffix"
    "has_at buf (pos + length ?a + length ?b + length ?suffix) [tag]"
    "has_at buf (pos + length ?a + length ?b + length ?suffix + 1) ?c"
    "has_at buf (pos + length ?a + length ?b + length ?suffix + 1 + length ?c) aux"
    using assms(1) unfolding encode_entry_def Let_def has_at_append
    by (simp_all add: add.assoc [symmetric])
  note steps = read_varint_write [OF h(1)] read_varint_write [OF h(2)] has_at_bytes [OF h(3)]
    has_at_nth [OF h(4)] read_varint_write [OF h(5)] has_at_bytes [OF h(6)]
  have pre: "slice_of prev 0 ?lcp = Some (take ?lcp prev)" using cp by (simp add: slice_of_def)
  have "take ?lcp prev @ ?suffix = primary" using cp by simp
  then show ?thesis
    unfolding decode_entry_def encode_entry_def Let_def
    using steps small pre by (simp add: unat_of_nat_u64 add.assoc [symmetric] del: length_drop)
qed

fun enc_entries :: "bytes \<Rightarrow> fc_entry list \<Rightarrow> bytes" where
  "enc_entries prev [] = []"
| "enc_entries prev ((tag, primary, aux, i) # es) = encode_entry prev tag primary aux @ enc_entries primary es"

lemma length_encode_entry_pos: "0 < length (encode_entry prev tag primary aux)"
  by (simp add: encode_entry_def Let_def)

lemma decode_entries_encode:
  assumes "has_at buf pos (enc_entries prev es)" "\<forall>e \<in> set es. entry_small e"
  shows "decode_entries buf prev pos (pos + length (enc_entries prev es)) out = Some (out @ map strip_id es)"
  using assms
proof (induction es arbitrary: prev pos out)
  case Nil
  then show ?case by (subst decode_entries.simps) simp
next
  case (Cons e es)
  obtain tag primary aux i where e: "e = (tag, primary, aux, i)" by (cases e)
  let ?w = "encode_entry prev tag primary aux"
  have h: "has_at buf pos ?w" "has_at buf (pos + length ?w) (enc_entries primary es)"
    using Cons.prems(1) by (simp_all add: e has_at_append)
  have "decode_entry buf prev pos = Some ((tag, primary, aux), pos + length ?w)"
    using decode_entry_encode [OF h(1)] Cons.prems(2) e by auto
  then show ?case
    using Cons.IH [OF h(2)] Cons.prems(2) length_encode_entry_pos [of prev tag primary aux]
    by (subst decode_entries.simps) (simp add: e add.assoc)
qed

section \<open>Blocks\<close>

function blocks :: "'a list \<Rightarrow> 'a list list" where
  "blocks xs = (if xs = [] then [] else take BLOCK_SIZE xs # blocks (drop BLOCK_SIZE xs))"
  by pat_completeness auto
termination by (relation "measure length") (auto simp: BLOCK_SIZE_def)

declare blocks.simps [simp del]

lemma concat_blocks: "concat (blocks xs) = xs"
proof (induction xs rule: blocks.induct)
  case (1 xs)
  then show ?case by (subst blocks.simps) simp
qed

lemma blocks_nth:
  "b < length (blocks xs) \<longleftrightarrow> b * BLOCK_SIZE < length xs"
  "b * BLOCK_SIZE < length xs \<Longrightarrow> blocks xs ! b = take BLOCK_SIZE (drop (b * BLOCK_SIZE) xs)"
proof (induction xs arbitrary: b rule: blocks.induct)
  case (1 xs)
  have pos: "0 < BLOCK_SIZE" by (simp add: BLOCK_SIZE_def)
  {
    case 1
    show ?case using "1.IH"(1) pos by (subst blocks.simps) (cases b; auto simp: less_diff_conv add.commute)
  next
    case 2
    show ?case
      using "1.IH"(2) 2 pos by (subst blocks.simps) (cases b; auto simp: less_diff_conv add.commute)
  }
qed

lemma blocks_rank:
  assumes "r < length xs"
  shows "r div BLOCK_SIZE < length (blocks xs)" "r mod BLOCK_SIZE < length (blocks xs ! (r div BLOCK_SIZE))"
    "blocks xs ! (r div BLOCK_SIZE) ! (r mod BLOCK_SIZE) = xs ! r"
proof -
  have le: "r div BLOCK_SIZE * BLOCK_SIZE \<le> r" by (rule div_times_less_eq_dividend)
  then show 1: "r div BLOCK_SIZE < length (blocks xs)" unfolding blocks_nth using assms by linarith
  then have b: "blocks xs ! (r div BLOCK_SIZE) = take BLOCK_SIZE (drop (r div BLOCK_SIZE * BLOCK_SIZE) xs)"
    unfolding blocks_nth(1) by (rule blocks_nth(2))
  have m: "r mod BLOCK_SIZE < BLOCK_SIZE" by (simp add: BLOCK_SIZE_def)
  have r: "r div BLOCK_SIZE * BLOCK_SIZE + r mod BLOCK_SIZE = r" by (rule div_mult_mod_eq)
  then have len: "r mod BLOCK_SIZE < length xs - r div BLOCK_SIZE * BLOCK_SIZE" using assms by linarith
  have le': "r div BLOCK_SIZE * BLOCK_SIZE \<le> length xs" using le assms by linarith
  show "r mod BLOCK_SIZE < length (blocks xs ! (r div BLOCK_SIZE))"
    "blocks xs ! (r div BLOCK_SIZE) ! (r mod BLOCK_SIZE) = xs ! r"
    unfolding b using m nth_drop [OF le' , of "r mod BLOCK_SIZE"] len by (simp_all add: r)
qed

lemma blocks_nonempty: "blk \<in> set (blocks xs) \<Longrightarrow> blk \<noteq> [] \<and> set blk \<subseteq> set xs"
proof (induction xs rule: blocks.induct)
  case (1 xs)
  have "0 < BLOCK_SIZE" by (simp add: BLOCK_SIZE_def)
  then show ?case
    using 1 by (subst (asm) blocks.simps) (auto split: if_splits dest: in_set_takeD in_set_dropD)
qed

text \<open>One block's contribution to the buffers of \<open>build\<close>.\<close>

definition first_key :: "fc_entry list \<Rightarrow> u8 \<times> bytes" where
  "first_key blk = (case blk of (tag, primary, aux, i) # _ \<Rightarrow> (tag, primary) | [] \<Rightarrow> (0, []))"

definition add_block :: "fc_entry list \<Rightarrow> fc_buffers \<Rightarrow> fc_buffers" where
  "add_block blk st = st\<lparr>b_starts := b_starts st @ [of_nat (length (b_buf st))],
     b_tags := b_tags st @ [fst (first_key blk)],
     b_key_offsets := b_key_offsets st @ [of_nat (length (b_key_flat st))],
     b_key_flat := b_key_flat st @ snd (first_key blk),
     b_buf := b_buf st @ enc_entries [] blk\<rparr>"

lemma build_in_block:
  assumes "i mod BLOCK_SIZE \<noteq> 0" "i mod BLOCK_SIZE + length xs \<le> BLOCK_SIZE"
  shows "\<exists>lp'. build_entries i lp (xs @ ys) st =
    build_entries (i + length xs) lp' ys (st\<lparr>b_buf := b_buf st @ enc_entries lp xs\<rparr>)"
  using assms
proof (induction xs arbitrary: i lp st)
  case (Cons x xs)
  obtain tag primary aux j where x: "x = (tag, primary, aux, j)" by (cases x)
  let ?st = "st\<lparr>b_buf := b_buf st @ encode_entry lp tag primary aux\<rparr>"
  have step: "build_entries i lp (x # xs @ ys) st = build_entries (Suc i) primary (xs @ ys) ?st"
    using Cons.prems(1) by (simp add: x)
  show ?case
  proof (cases xs)
    case Nil
    then show ?thesis using step by (auto simp: x)
  next
    case (Cons y zs)
    have "Suc i mod BLOCK_SIZE = Suc (i mod BLOCK_SIZE)"
      using Cons.prems(2) Cons by (simp add: mod_Suc)
    then have "\<exists>lp'. build_entries (Suc i) primary (xs @ ys) ?st =
        build_entries (Suc i + length xs) lp' ys (?st\<lparr>b_buf := b_buf ?st @ enc_entries primary xs\<rparr>)"
      using Cons.prems(2) by (intro Cons.IH) auto
    then show ?thesis using step by (simp add: x)
  qed
qed auto

lemma build_entries_blocks:
  "i mod BLOCK_SIZE = 0 \<Longrightarrow> build_entries i lp es st = fold add_block (blocks es) st"
proof (induction es arbitrary: i lp st rule: blocks.induct)
  case (1 es)
  show ?case
  proof (cases es)
    case Nil
    then show ?thesis by (simp add: blocks.simps)
  next
    case (Cons e rest)
    obtain tag primary aux j where e: "e = (tag, primary, aux, j)" by (cases e)
    let ?blk = "take BLOCK_SIZE es" and ?ys = "drop BLOCK_SIZE es"
    have blk: "?blk = e # take 7 rest" "rest = take 7 rest @ ?ys" using Cons by (simp_all add: BLOCK_SIZE_def)
    let ?st1 = "st\<lparr>b_starts := b_starts st @ [of_nat (length (b_buf st))], b_tags := b_tags st @ [tag],
      b_key_offsets := b_key_offsets st @ [of_nat (length (b_key_flat st))],
      b_key_flat := b_key_flat st @ primary, b_buf := b_buf st @ encode_entry [] tag primary aux\<rparr>"
    have first: "build_entries i lp es st = build_entries (Suc i) primary rest ?st1"
      using "1.prems" by (simp add: Cons e)
    have "Suc i mod BLOCK_SIZE = 1" using "1.prems" by (simp add: mod_Suc BLOCK_SIZE_def)
    then obtain lp' where "build_entries (Suc i) primary (take 7 rest @ ?ys) ?st1 =
        build_entries (Suc i + length (take 7 rest)) lp' ?ys
          (?st1\<lparr>b_buf := b_buf ?st1 @ enc_entries primary (take 7 rest)\<rparr>)"
      using build_in_block [of "Suc i" "take 7 rest" primary ?ys ?st1] by (auto simp: BLOCK_SIZE_def)
    then have in_block: "build_entries (Suc i) primary rest ?st1 =
        build_entries (Suc i + length (take 7 rest)) lp' ?ys (add_block ?blk st)"
      unfolding blk(2) [symmetric] by (simp add: add_block_def first_key_def blk(1) e)
    show ?thesis
    proof (cases "?ys = []")
      case True
      then have "blocks es = [?blk]" using Cons by (subst blocks.simps) (simp add: blocks.simps [of "[]"])
      then show ?thesis using first in_block True by simp
    next
      case False
      then have "length (take 7 rest) = 7" using Cons by (simp add: BLOCK_SIZE_def)
      then have "(Suc i + length (take 7 rest)) mod BLOCK_SIZE = 0"
        using "1.prems" by (simp add: BLOCK_SIZE_def)
      from "1.IH" [OF _ this] show ?thesis
        using first in_block Cons by (subst blocks.simps) simp
    qed
  qed
qed

text \<open>Byte strings laid out one after the other, with the array of their offsets.\<close>

fun offsets :: "nat \<Rightarrow> bytes list \<Rightarrow> u32 list" where
  "offsets n [] = []"
| "offsets n (w # ws) = of_nat n # offsets (n + length w) ws"

lemma length_offsets [simp]: "length (offsets n ws) = length ws"
  by (induction n ws rule: offsets.induct) auto

lemma nth_offsets: "b < length ws \<Longrightarrow> offsets n ws ! b = of_nat (n + length (concat (take b ws)))"
proof (induction n ws arbitrary: b rule: offsets.induct)
  case (2 n w ws)
  then show ?case by (cases b) (simp_all add: add.assoc)
qed simp

lemma fold_add_block:
  "fold add_block bl st =
     st\<lparr>b_starts := b_starts st @ offsets (length (b_buf st)) (map (enc_entries []) bl),
        b_tags := b_tags st @ map (fst \<circ> first_key) bl,
        b_key_offsets := b_key_offsets st @ offsets (length (b_key_flat st)) (map (snd \<circ> first_key) bl),
        b_key_flat := b_key_flat st @ concat (map (snd \<circ> first_key) bl),
        b_buf := b_buf st @ concat (map (enc_entries []) bl)\<rparr>"
  by (induction bl arbitrary: st) (simp_all add: add_block_def)

lemma flat_slot:
  assumes "b < length ws" "length (concat ws) < 2 ^ 32"
  shows "\<exists>k. nth_opt (offsets 0 ws) b = Some (of_nat k) \<and> unat (of_nat k :: u32) = k \<and>
    (case nth_opt (offsets 0 ws) (b + 1) of Some x \<Rightarrow> unat x | None \<Rightarrow> length (concat ws)) = k + length (ws ! b) \<and>
    has_at (concat ws) k (ws ! b)"
proof -
  let ?k = "length (concat (take b ws))"
  have split: "concat ws = concat (take b ws) @ ws ! b @ concat (drop (Suc b) ws)"
    using id_take_nth_drop [OF assms(1)] by (metis concat.simps(2) concat_append)
  have suc: "length (concat (take (Suc b) ws)) = ?k + length (ws ! b)"
    using assms(1) by (simp add: take_Suc_conv_app_nth)
  have "?k + length (ws ! b) \<le> length (concat ws)" unfolding split by simp
  then have small: "?k < 2 ^ 32" "?k + length (ws ! b) < 2 ^ 32" using assms(2) by linarith+
  have "(case nth_opt (offsets 0 ws) (b + 1) of Some x \<Rightarrow> unat x | None \<Rightarrow> length (concat ws)) = ?k + length (ws ! b)"
  proof (cases "Suc b < length ws")
    case True
    then show ?thesis
      using unat_of_nat_u32 [OF small(2)] by (simp add: nth_offsets suc del: of_nat_add)
  next
    case False
    then have "drop (Suc b) ws = []" by simp
    then have "length (concat ws) = ?k + length (ws ! b)" using split by simp
    then show ?thesis using False by (simp add: nth_opt_def)
  qed
  moreover have "has_at (concat ws) ?k (ws ! b)" unfolding split by (rule has_at_middle)
  ultimately show ?thesis
    using assms(1) small(1) by (intro exI [of _ ?k]) (simp add: nth_offsets unat_of_nat_u32)
qed

section \<open>Building a tier\<close>

text \<open>
  The documented behaviour of the bit-packed vectors: values that fit the bit width can be
  appended and are read back.
\<close>

locale bit_field_vec =
  fixes V :: "'v bit_fields"
  assumes pushed: "\<forall>v \<in> set vs. v < 2 ^ w \<Longrightarrow>
    \<exists>bv. push_all V w vs = Some bv \<and> (\<forall>i < length vs. bf_get V bv i = Some (vs ! i))"

definition list_bits :: "(nat \<times> nat list) bit_fields" where
  "list_bits = \<lparr>bf_new = (\<lambda>w. (w, [])),
     bf_push = (\<lambda>(w, l) v. if v < 2 ^ w then Some (w, l @ [v]) else None),
     bf_get = (\<lambda>(w, l) i. nth_opt l i)\<rparr>"

interpretation list_bits: bit_field_vec list_bits
proof
  fix vs :: "nat list" and w assume "\<forall>v \<in> set vs. v < 2 ^ w"
  then have "fold_opt (\<lambda>v bv. bf_push list_bits bv v) vs (w, l) = Some (w, l @ vs)" for l
    by (induction vs arbitrary: l) (simp_all add: list_bits_def)
  then have "push_all list_bits w vs = Some (w, vs)" by (simp add: push_all_def list_bits_def)
  then show "\<exists>bv. push_all list_bits w vs = Some bv \<and> (\<forall>i < length vs. bf_get list_bits bv i = Some (vs ! i))"
    by (simp add: list_bits_def)
qed

fun entry_id :: "fc_entry \<Rightarrow> nat" where
  "entry_id (tag, primary, aux, i) = i"

fun entry_key :: "fc_entry \<Rightarrow> u8 \<times> bytes" where
  "entry_key (tag, primary, aux, i) = (tag, primary)"

fun entry_aux :: "fc_entry \<Rightarrow> bytes" where
  "entry_aux (tag, primary, aux, i) = aux"

text \<open>
  Input of \<open>build\<close> as the dictionary calls it: distinct identifiers below the high-water mark,
  and buffers whose offsets fit the 32-bit offset arrays.
\<close>

definition entries_ok :: "fc_entry list \<Rightarrow> nat \<Rightarrow> bool" where
  "entries_ok es hw \<longleftrightarrow> distinct (map entry_id es) \<and> (\<forall>e \<in> set es. entry_id e < hw \<and> entry_small e) \<and>
     length (concat (map (enc_entries []) (blocks es))) < 2 ^ 32 \<and>
     length (concat (map (snd \<circ> first_key) (blocks es))) < 2 ^ 32"

lemma less_bit_length: "n < 2 ^ bit_length n"
proof (induction n rule: bit_length.induct)
  case (1 n)
  show ?case
  proof (cases "n = 0")
    case False
    then have "n div 2 < 2 ^ bit_length (n div 2)" by (rule 1)
    then have "n < 2 * 2 ^ bit_length (n div 2)" by linarith
    then show ?thesis using False by (subst bit_length.simps) simp
  qed (simp add: bit_length.simps)
qed

lemma fits_bit_width: "m \<le> n \<Longrightarrow> m < 2 ^ bit_width_for n"
proof -
  have "(2::nat) ^ bit_length n \<le> 2 ^ bit_width_for n"
    by (rule power_increasing) (simp_all add: bit_width_for_def)
  then show "m \<le> n \<Longrightarrow> m < 2 ^ bit_width_for n" using less_bit_length [of n] by linarith
qed

lemma assign_ranks_correct:
  assumes "distinct (map entry_id es)" "\<forall>e \<in> set es. entry_id e < length vals"
  shows "\<exists>vals'. assign_ranks rank es vals = Some vals' \<and> length vals' = length vals \<and>
    (\<forall>r < length es. vals' ! entry_id (es ! r) = rank + r) \<and>
    (\<forall>i < length vals. i \<notin> entry_id ` set es \<longrightarrow> vals' ! i = vals ! i)"
  using assms
proof (induction es arbitrary: rank vals)
  case (Cons e es)
  obtain tag primary aux i where e: "e = (tag, primary, aux, i)" by (cases e)
  obtain vals' where v: "assign_ranks (Suc rank) es (vals[i := rank]) = Some vals'"
    "length vals' = length vals" "\<forall>r < length es. vals' ! entry_id (es ! r) = Suc rank + r"
    "\<forall>j < length vals. j \<notin> entry_id ` set es \<longrightarrow> vals' ! j = vals[i := rank] ! j"
    using Cons.IH [of "vals[i := rank]" "Suc rank"] Cons.prems by (auto simp: e)
  have i: "i < length vals" "i \<notin> entry_id ` set es" using Cons.prems by (auto simp: e)
  have "vals' ! entry_id ((e # es) ! r) = rank + r" if "r < length (e # es)" for r
    using that v(3,4) i by (cases r) (auto simp: e)
  then show ?case using v i by (intro exI [of _ vals']) (auto simp: e)
qed simp

text \<open>What a built tier holds: the facts its lookups rely on.\<close>

lemma tier_build_facts:
  assumes "bit_field_vec V" "entries_ok es hw"
  shows "\<exists>t. tier_build V es hw = Some t \<and> block_size t = BLOCK_SIZE \<and> high_water t = hw \<and>
    encoded_count t = length es \<and> num_blocks t = length (blocks es) \<and>
    block_tags t = map (fst \<circ> first_key) (blocks es) \<and>
    (\<forall>b < length (blocks es). decode_block t b = Some (map strip_id (blocks es ! b)) \<and>
       block_key_bytes t b = Some (snd (first_key (blocks es ! b)))) \<and>
    (\<forall>r < length es. bf_get V (rank2id t) r = Some (entry_id (es ! r)) \<and>
       bf_get V (id2rank t) (entry_id (es ! r)) = Some r)"
proof -
  note ok = assms(2) [unfolded entries_ok_def]
  let ?ids = "map (\<lambda>(_, _, _, orig_id). orig_id) es"
  have ids: "?ids = map entry_id es" by (rule map_cong) auto
  have idb: "\<forall>v \<in> set ?ids. v < 2 ^ bit_width_for (hw - 1)"
    unfolding ids using ok by (auto intro!: fits_bit_width)
  obtain r2i where r2i: "push_all V (bit_width_for (hw - 1)) ?ids = Some r2i"
    "\<forall>i < length ?ids. bf_get V r2i i = Some (?ids ! i)"
    using bit_field_vec.pushed [OF assms(1) idb] by blast
  obtain vals where vals: "assign_ranks 0 es (replicate hw 0) = Some vals" "length vals = hw"
    "\<forall>r < length es. vals ! entry_id (es ! r) = r" "\<forall>i < hw. i \<notin> entry_id ` set es \<longrightarrow> vals ! i = 0"
    using assign_ranks_correct [of es "replicate hw 0" 0] ok by auto
  have "v \<le> length es - 1" if v: "v \<in> set vals" for v
  proof -
    obtain i where i: "i < hw" "v = vals ! i" using v vals(2) by (auto simp: in_set_conv_nth)
    show ?thesis
    proof (cases "i \<in> entry_id ` set es")
      case True
      then obtain r where "r < length es" "i = entry_id (es ! r)" by (auto simp: in_set_conv_nth)
      then show ?thesis using vals(3) i by auto
    qed (use vals(4) i in simp)
  qed
  then have "\<forall>v \<in> set vals. v < 2 ^ bit_width_for (length es - 1)" using fits_bit_width by blast
  then obtain i2r where i2r: "push_all V (bit_width_for (length es - 1)) vals = Some i2r"
    "\<forall>i < length vals. bf_get V i2r i = Some (vals ! i)"
    using bit_field_vec.pushed [OF assms(1)] by blast
  let ?st = "build_entries 0 [] es \<lparr>b_buf = [], b_starts = [], b_tags = [], b_key_flat = [], b_key_offsets = []\<rparr>"
  have st: "b_buf ?st = concat (map (enc_entries []) (blocks es))"
    "b_starts ?st = offsets 0 (map (enc_entries []) (blocks es))"
    "b_tags ?st = map (fst \<circ> first_key) (blocks es)"
    "b_key_flat ?st = concat (map (snd \<circ> first_key) (blocks es))"
    "b_key_offsets ?st = offsets 0 (map (snd \<circ> first_key) (blocks es))"
    by (simp_all add: build_entries_blocks fold_add_block)
  obtain t where t: "tier_build V es hw = Some t" "block_size t = BLOCK_SIZE" "high_water t = hw"
    "encoded_count t = length es" "fc_buf t = b_buf ?st" "block_starts t = b_starts ?st"
    "block_tags t = b_tags ?st" "key_flat t = b_key_flat ?st" "key_offsets t = b_key_offsets ?st"
    "rank2id t = r2i" "id2rank t = i2r"
    using r2i(1) vals(1) i2r(1) by (simp add: tier_build_def Let_def)
  have dec: "decode_block t b = Some (map strip_id (blocks es ! b))" if b: "b < length (blocks es)" for b
  proof -
    let ?ws = "map (enc_entries []) (blocks es)"
    obtain k where k: "nth_opt (offsets 0 ?ws) b = Some (of_nat k)" "unat (of_nat k :: u32) = k"
      "(case nth_opt (offsets 0 ?ws) (b + 1) of Some x \<Rightarrow> unat x | None \<Rightarrow> length (concat ?ws)) = k + length (?ws ! b)"
      "has_at (concat ?ws) k (?ws ! b)"
      using flat_slot [of b ?ws] b ok by auto
    have "\<forall>e \<in> set (blocks es ! b). entry_small e"
      using blocks_nonempty [OF nth_mem [OF b]] ok by auto
    then show ?thesis
      using k decode_entries_encode [of "concat ?ws" k "[]" "blocks es ! b" "[]"] b
      by (simp add: decode_block_def t st cong: option.case_cong)
  qed
  have key: "block_key_bytes t b = Some (snd (first_key (blocks es ! b)))" if b: "b < length (blocks es)" for b
  proof -
    let ?ws = "map (snd \<circ> first_key) (blocks es)"
    obtain k where k: "nth_opt (offsets 0 ?ws) b = Some (of_nat k)" "unat (of_nat k :: u32) = k"
      "(case nth_opt (offsets 0 ?ws) (b + 1) of Some x \<Rightarrow> unat x | None \<Rightarrow> length (concat ?ws)) = k + length (?ws ! b)"
      "has_at (concat ?ws) k (?ws ! b)"
      using flat_slot [of b ?ws] b ok by auto
    then show ?thesis using b by (simp add: block_key_bytes_def t st has_at_def slice_of_def cong: option.case_cong)
  qed
  show ?thesis
    using t st dec key r2i(2) i2r(2) vals ok
    by (intro exI [of _ t]) (auto simp: num_blocks_def ids)
qed

text \<open>The buffer of a built tier and the positions of its blocks.\<close>

lemma tier_build_bufs:
  "tier_build V es hw = Some t \<Longrightarrow> fc_buf t = concat (map (enc_entries []) (blocks es)) \<and>
     block_starts t = offsets 0 (map (enc_entries []) (blocks es))"
  by (auto simp: tier_build_def Let_def build_entries_blocks fold_add_block split: bind_splits)

section \<open>Decoding\<close>

text \<open>The entry of a term, and the terms the tier holds: any but quoted triples.\<close>

definition entry_of :: "'l literal_api \<Rightarrow> 'l rdf_term \<Rightarrow> nat \<Rightarrow> fc_entry option" where
  "entry_of api term i =
     do {(tag, primary) \<leftarrow> term_sort_key api term; aux \<leftarrow> term_aux_bytes api term;
         Some (tag, primary, aux, i)}"

fun flat_term :: "'l literal_api \<Rightarrow> 'l rdf_term \<Rightarrow> bool" where
  "flat_term api (NamedNode n) \<longleftrightarrow> valid_utf8 n"
| "flat_term api (BlankNode b) \<longleftrightarrow> valid_utf8 b"
| "flat_term api (Literal l) \<longleftrightarrow> (\<forall>x \<in> set (literal_strings api l). valid_utf8 x \<and> length x < 2 ^ 64)"
| "flat_term api (Triple _ _ _) \<longleftrightarrow> False"

lemma has_at_self: "has_at (w @ v) 0 w"
  by (simp add: has_at_def)

lemma term_parts_roundtrip:
  assumes "literal_laws api" "flat_term api term" "entry_of api term i = Some (tag, primary, aux, j)"
  shows "term_from_parts api tag primary aux = Some (Inr term)"
proof (cases "term")
  case (Literal l)
  note laws = assms(1) [unfolded literal_laws_def, rule_format, of l]
  have str: "read_str (write_str g @ v) 0 = Some (g, length (write_str g))" if "valid_utf8 g" "length g < 2 ^ 64" for g v
    using read_str_write [OF has_at_self that] by simp
  have str': "read_str (write_str g) 0 = Some (g, length (write_str g))" if "valid_utf8 g" "length g < 2 ^ 64" for g
    using str [OF that, of "[]"] by simp
  show ?thesis
  proof (cases "lit_direction api l")
    case (Some d)
    then show ?thesis
      using laws assms(2,3) Literal
      by (cases d) (auto simp: entry_of_def term_from_parts_def utf8_result_def literal_strings_def str)
  next
    case None
    then show ?thesis
      using laws assms(2,3) Literal
      by (cases "lit_language api l")
        (auto simp: entry_of_def term_from_parts_def utf8_result_def literal_strings_def str' split: if_splits)
  qed
qed (use assms in \<open>auto simp: entry_of_def term_from_parts_def utf8_result_def\<close>)

text \<open>An entry is determined by its term and determines it.\<close>

lemma entry_of_inj:
  assumes "literal_laws api" "flat_term api x" "flat_term api y"
    and "entry_of api x i = Some (tag, primary, aux, i)" "entry_of api y j = Some (tag, primary, aux, j)"
  shows "x = y"
  using term_parts_roundtrip [OF assms(1,2,4)] term_parts_roundtrip [OF assms(1,3,5)] by simp

definition built_from :: "'l literal_api \<Rightarrow> ('l rdf_term \<times> nat) list \<Rightarrow> fc_entry list \<Rightarrow> bool" where
  "built_from api terms es \<longleftrightarrow> list_all2 (\<lambda>(term, i) e. flat_term api term \<and> entry_of api term i = Some e) terms es"

lemma entry_of_id: "entry_of api term i = Some e \<Longrightarrow> entry_id e = i"
  by (auto simp: entry_of_def split: Option.bind_splits)

lemma entry_of_parts:
  "entry_of api term i = Some e \<Longrightarrow>
   term_sort_key api term = Some (entry_key e) \<and> term_aux_bytes api term = Some (entry_aux e)"
  by (auto simp: entry_of_def split: Option.bind_splits)

lemma entry_of_flat: "flat_term api term \<Longrightarrow> \<exists>e. entry_of api term i = Some e"
proof (cases "term")
  case (Literal l)
  then show ?thesis
    by (cases "lit_direction api l"; cases "lit_language api l") (auto simp: entry_of_def)
qed (auto simp: entry_of_def)

lemma built_from_nth:
  assumes "built_from api terms es" "r < length terms" "terms ! r = (term, i)"
  shows "r < length es" "flat_term api term" "entry_of api term i = Some (es ! r)" "entry_id (es ! r) = i"
proof -
  show "r < length es" using assms by (auto simp: built_from_def list_all2_lengthD)
  have "case terms ! r of (term, i) \<Rightarrow> flat_term api term \<and> entry_of api term i = Some (es ! r)"
    using list_all2_nthD [OF assms(1) [unfolded built_from_def] assms(2)] by (simp add: split_beta)
  then show "flat_term api term" "entry_of api term i = Some (es ! r)" using assms(3) by simp_all
  then show "entry_id (es ! r) = i" by (intro entry_of_id)
qed

lemma tier_decode_id_built:
  assumes "literal_laws api" "bit_field_vec V" "entries_ok es hw" "built_from api terms es"
    and "(term, i) \<in> set terms" "tier_build V es hw = Some t"
  shows "tier_decode_id api V t i = Some (Some (Inr term))"
proof -
  obtain r where r: "r < length terms" "terms ! r = (term, i)" using assms(5) by (auto simp: in_set_conv_nth)
  note nth = built_from_nth [OF assms(4) r]
  obtain tag primary aux where e: "es ! r = (tag, primary, aux, i)"
    using nth(4) by (cases "es ! r") auto
  have facts: "block_size t = BLOCK_SIZE" "high_water t = hw" "encoded_count t = length es"
    "\<forall>b < length (blocks es). decode_block t b = Some (map strip_id (blocks es ! b))"
    "bf_get V (id2rank t) i = Some r"
    using tier_build_facts [OF assms(2,3)] assms(6) nth(1,4) by auto
  have "i < hw" using assms(3) nth(1) nth(4) nth_mem unfolding entries_ok_def by blast
  moreover have "nth_opt (map strip_id (blocks es ! (r div BLOCK_SIZE))) (r mod BLOCK_SIZE) = Some (tag, primary, aux)"
    using blocks_rank [OF nth(1)] e by simp
  moreover have "term_from_parts api tag primary aux = Some (Inr term)"
    using term_parts_roundtrip [OF assms(1) nth(2)] nth(3) e by simp
  ultimately show ?thesis
    using facts blocks_rank(1) [OF nth(1)] nth(1) by (auto simp: tier_decode_id_def)
qed

lemma block_member:
  assumes "j < length (blocks xs ! b)" "b < length (blocks xs)"
  shows "b * BLOCK_SIZE + j < length xs" "xs ! (b * BLOCK_SIZE + j) = blocks xs ! b ! j"
proof -
  have b: "blocks xs ! b = take BLOCK_SIZE (drop (b * BLOCK_SIZE) xs)"
    using blocks_nth(2) assms(2) unfolding blocks_nth(1) .
  then have j: "j < length xs - b * BLOCK_SIZE" "j < BLOCK_SIZE" using assms(1) by simp_all
  then show "b * BLOCK_SIZE + j < length xs" by linarith
  then show "xs ! (b * BLOCK_SIZE + j) = blocks xs ! b ! j" unfolding b using j by simp
qed

text \<open>Decoding the block of an identifier returns the identifier's term among entries that all went in.\<close>

lemma decode_block_for_id_built:
  assumes "literal_laws api" "bit_field_vec V" "entries_ok es hw" "built_from api terms es"
    and "(term, i) \<in> set terms" "tier_build V es hw = Some t"
  shows "\<exists>out. decode_block_for_id api V t i = Some (Some out) \<and> (i, Inr term) \<in> set out \<and>
    (\<forall>(j, res) \<in> set out. \<exists>u. res = Inr u \<and> (u, j) \<in> set terms)"
proof -
  have len: "length terms = length es" using assms(4) by (simp add: built_from_def list_all2_lengthD)
  obtain r where r: "r < length terms" "terms ! r = (term, i)" using assms(5) by (auto simp: in_set_conv_nth)
  note nth = built_from_nth [OF assms(4) r]
  let ?b = "r div BLOCK_SIZE"
  let ?blk = "blocks es ! ?b"
  note rank = blocks_rank [OF nth(1)]
  have "\<forall>b < length (blocks es). decode_block t b = Some (map strip_id (blocks es ! b))"
    and perm: "\<forall>r < length es. bf_get V (rank2id t) r = Some (entry_id (es ! r))"
    "bf_get V (id2rank t) i = Some r"
    and facts: "block_size t = BLOCK_SIZE" "high_water t = hw" "encoded_count t = length es"
    using tier_build_facts [OF assms(2,3)] assms(6) nth(1,4) by auto
  then have dec: "decode_block t ?b = Some (map strip_id ?blk)" using rank(1) by blast
  let ?g = "\<lambda>(j, tag, primary, aux). (snd (terms ! (?b * BLOCK_SIZE + j)), Inr (fst (terms ! (?b * BLOCK_SIZE + j))))"
  let ?f = "\<lambda>(j, tag, primary, aux).
            do {orig_id \<leftarrow> bf_get V (rank2id t) (?b * BLOCK_SIZE + j);
                term \<leftarrow> term_from_parts api tag primary aux;
                Some (orig_id, term)}"
  have step: "?f x = Some (?g x)" if "x \<in> set (enumerate 0 (map strip_id ?blk))" for x
  proof -
    obtain j where j: "j < length ?blk" "x = (j, strip_id (?blk ! j))"
      using \<open>x \<in> set (enumerate 0 (map strip_id ?blk))\<close> by (auto simp: in_set_enumerate_eq)
    note mem = block_member [OF j(1) rank(1)]
    obtain u k where u: "terms ! (?b * BLOCK_SIZE + j) = (u, k)" by fastforce
    note un = built_from_nth [OF assms(4) _ u, unfolded len, OF mem(1)]
    obtain tag primary aux where e: "es ! (?b * BLOCK_SIZE + j) = (tag, primary, aux, k)"
      using un(4) by (cases "es ! (?b * BLOCK_SIZE + j)") auto
    have "term_from_parts api tag primary aux = Some (Inr u)"
      using term_parts_roundtrip [OF assms(1) un(2)] un(3) e by simp
    moreover have "?blk ! j = (tag, primary, aux, k)" using mem(2) e by simp
    ultimately show ?thesis using j(2) e u perm(1) mem(1) by simp
  qed
  let ?out = "map ?g (enumerate 0 (map strip_id ?blk))"
  have all: "those (map ?f (enumerate 0 (map strip_id ?blk))) = Some ?out" by (rule those_map_Some) (rule step)
  have "i < hw" using assms(3) nth(1) nth(4) nth_mem unfolding entries_ok_def by blast
  then have out: "decode_block_for_id api V t i = Some (Some ?out)"
    using all facts perm(2) dec nth(1) by (auto simp: decode_block_for_id_def Let_def)
  have "(r mod BLOCK_SIZE, strip_id (?blk ! (r mod BLOCK_SIZE))) \<in> set (enumerate 0 (map strip_id ?blk))"
    using rank(2) by (simp add: in_set_enumerate_eq)
  then have "?g (r mod BLOCK_SIZE, strip_id (?blk ! (r mod BLOCK_SIZE))) \<in> set ?out"
    unfolding set_map by (rule imageI)
  moreover have "?g (r mod BLOCK_SIZE, strip_id (?blk ! (r mod BLOCK_SIZE))) = (i, Inr term)"
    using r(2) by (simp add: split_beta)
  ultimately have self: "(i, Inr term) \<in> set ?out" by metis
  have only: "\<exists>u. res = Inr u \<and> (u, j) \<in> set terms" if jr: "(j, res) \<in> set ?out" for j res
  proof -
    obtain k where "k < length ?blk" "j = snd (terms ! (?b * BLOCK_SIZE + k))" "res = Inr (fst (terms ! (?b * BLOCK_SIZE + k)))"
      using jr by (auto simp: in_set_enumerate_eq)
    then show ?thesis using block_member(1) [OF _ rank(1)] len nth_mem by (metis prod.collapse)
  qed
  obtain out where "decode_block_for_id api V t i = Some (Some out)" "(i, Inr term) \<in> set out"
    "\<And>j res. (j, res) \<in> set out \<Longrightarrow> \<exists>u. res = Inr u \<and> (u, j) \<in> set terms"
    using out self only by blast
  then show ?thesis by auto
qed

section \<open>Searching\<close>

text \<open>The linear scan over all entries from some rank on, across block boundaries.\<close>

lemma scan_block_append:
  "scan_block target aux rank (xs @ ys) =
     (case scan_block target aux rank xs of Continue r \<Rightarrow> scan_block target aux r ys | s \<Rightarrow> s)"
  by (induction target aux rank xs rule: scan_block.induct) auto

lemma scan_from_scan_block:
  assumes "\<forall>b \<in> set bs. b < length (blocks es) \<and> decode_block t b = Some (map strip_id (blocks es ! b))"
  shows "scan_from V t target aux rank bs =
    (case scan_block target aux rank (map strip_id (concat (map ((!) (blocks es)) bs))) of
       Found r \<Rightarrow> map_option Some (bf_get V (rank2id t) r) | _ \<Rightarrow> Some None)"
  using assms
proof (induction bs arbitrary: rank)
  case (Cons b bs)
  then show ?case
    by (auto simp: scan_block_append map_option_case split: scan_step.splits option.splits)
qed simp

lemma concat_blocks_drop:
  assumes "blk \<le> length (blocks es)"
  shows "concat (map ((!) (blocks es)) [blk..<length (blocks es)]) = drop (blk * BLOCK_SIZE) es"
proof -
  have "concat (drop blk (blocks es)) = drop (blk * BLOCK_SIZE) es"
  proof (induction es arbitrary: blk rule: blocks.induct)
    case (1 es)
    show ?case
    proof (cases "blk = 0 \<or> es = []")
      case False
      then obtain b where "blk = Suc b" by (cases blk) auto
      then show ?thesis using 1 False by (subst blocks.simps) (simp add: add.commute)
    qed (auto simp: concat_blocks blocks.simps [of "[]"])
  qed
  moreover have "map ((!) (blocks es)) [blk..<length (blocks es)] = drop blk (blocks es)"
    using assms by (intro nth_equalityI) auto
  ultimately show ?thesis by simp
qed

lemma scan_block_found:
  assumes "sorted (map entry_key es)"
  shows "scan_block target aux rank (map strip_id es) = s \<Longrightarrow>
    (case s of
       Found r \<Rightarrow> \<exists>i < length es. r = rank + i \<and> entry_key (es ! i) = target \<and> entry_aux (es ! i) = aux
     | _ \<Rightarrow> \<forall>e \<in> set es. \<not> (entry_key e = target \<and> entry_aux e = aux))"
  using assms
proof (induction es arbitrary: rank)
  case (Cons e es)
  obtain tag primary ax j where e: "e = (tag, primary, ax, j)" by (cases e)
  have srt: "sorted (map entry_key es)" "\<forall>e' \<in> set es. (tag, primary) \<le> entry_key e'"
    using Cons.prems(2) by (auto simp: e)
  consider "(tag, primary) > target" | "(tag, primary) = target" "ax = aux"
    | "(tag, primary) \<le> target" "\<not> ((tag, primary) = target \<and> ax = aux)" by force
  then show ?case
  proof cases
    case 1
    have "target < entry_key e'" if "e' \<in> set (e # es)" for e'
      using that 1 less_le_trans [OF 1, of "entry_key e'"] srt(2) by (auto simp: e simp del: less_prod_simp)
    then have "\<forall>e' \<in> set (e # es). entry_key e' \<noteq> target" by blast
    moreover have "s = Passed" using Cons.prems(1) 1 by (simp add: e)
    ultimately show ?thesis by auto
  next
    case 2
    then show ?thesis using Cons.prems(1) by (auto simp: e)
  next
    case 3
    then have "scan_block target aux (Suc rank) (map strip_id es) = s"
      using Cons.prems(1) by (auto simp: e not_less [symmetric])
    from Cons.IH [OF this srt(1)] show ?thesis
      using 3 by (cases s) (force simp: e intro: exI [of _ "Suc _"])+
  qed
qed auto

text \<open>The binary search returns the number of blocks whose first key is at most the target.\<close>

lemma search_blocks_correct:
  assumes tags: "block_tags t = map (fst \<circ> first_key) bl"
    and keys: "\<forall>b < length bl. block_key_bytes t b = Some (snd (first_key (bl ! b)))"
    and srt: "sorted (map first_key bl)"
  shows "hi \<le> length bl \<Longrightarrow> lo \<le> hi \<Longrightarrow> \<forall>b < lo. first_key (bl ! b) \<le> target \<Longrightarrow>
    \<forall>b < length bl. hi \<le> b \<longrightarrow> target < first_key (bl ! b) \<Longrightarrow>
    \<exists>r. search_blocks t target lo hi = Some r \<and> r \<le> length bl \<and>
      (\<forall>b < length bl. first_key (bl ! b) \<le> target \<longleftrightarrow> b < r)"
proof (induction "hi - lo" arbitrary: lo hi rule: less_induct)
  case less
  show ?case
  proof (cases "lo < hi")
    case False
    then have "lo = hi" using less.prems(2) by simp
    then show ?thesis
      using less.prems by (subst search_blocks.simps) (auto simp: not_less [symmetric] simp del: not_less)
  next
    case True
    let ?mid = "lo + (hi - lo) div 2" and ?fk = "\<lambda>b. first_key (bl ! b)"
    have mid: "lo \<le> ?mid" "?mid < hi" "?mid < length bl" using True less.prems(1) by auto
    have le: "(fst x < fst y \<or> (fst x = fst y \<and> snd x \<le> snd y)) \<longleftrightarrow> x \<le> y" for x y :: "u8 \<times> bytes"
      by (cases x; cases y) (auto simp: less_eq_prod_simp)
    have step: "search_blocks t target lo hi =
        (if ?fk ?mid \<le> target then search_blocks t target (?mid + 1) hi else search_blocks t target lo ?mid)"
      using True mid keys le [of "?fk ?mid" target] by (subst search_blocks.simps) (simp add: tags Let_def)
    have mono: "?fk b \<le> ?fk c" if "b \<le> c" "c < length bl" for b c
      using sorted_nth_mono [OF srt, of b c] that by simp
    show ?thesis
    proof (cases "?fk ?mid \<le> target")
      case True
      have "?fk b \<le> target" if "b < ?mid + 1" for b
        using order.trans [OF mono True, of b] mid(3) that by simp
      then show ?thesis unfolding step using True less.hyps [of hi "?mid + 1"] mid less.prems by auto
    next
      case False
      have "target < ?fk b" if "b < length bl" "?mid \<le> b" for b
        using mono [OF that(2,1)] False by simp
      then show ?thesis unfolding step using False less.hyps [of ?mid lo] mid less.prems by auto
    qed
  qed
qed

lemma first_key_block:
  assumes "b < length (blocks es)"
  shows "first_key (blocks es ! b) = entry_key (es ! (b * BLOCK_SIZE))"
proof -
  have b: "b * BLOCK_SIZE < length es" using assms by (simp add: blocks_nth)
  then have "drop (b * BLOCK_SIZE) es = es ! (b * BLOCK_SIZE) # drop (Suc (b * BLOCK_SIZE)) es"
    by (simp add: Cons_nth_drop_Suc)
  then show ?thesis
    using b by (cases "es ! (b * BLOCK_SIZE)") (simp add: blocks_nth first_key_def BLOCK_SIZE_def)
qed

lemma first_keys_sorted:
  assumes "sorted (map entry_key es)"
  shows "sorted (map first_key (blocks es))"
  unfolding sorted_iff_nth_mono length_map
proof (intro allI impI)
  fix b c assume bc: "b \<le> c" "c < length (blocks es)"
  then have "b * BLOCK_SIZE \<le> c * BLOCK_SIZE" "c * BLOCK_SIZE < length es" "b < length (blocks es)"
    "b * BLOCK_SIZE < length es"
    using le_less_trans [OF bc] by (simp_all add: blocks_nth(1) [symmetric])
  then show "map first_key (blocks es) ! b \<le> map first_key (blocks es) ! c"
    using sorted_nth_mono [OF assms, of "b * BLOCK_SIZE" "c * BLOCK_SIZE"] bc by (simp add: first_key_block)
qed

text \<open>Where the search starts: the last block whose first key is at most the target.\<close>

lemma tier_get_id_scan:
  assumes "bit_field_vec V" "entries_ok es hw" "tier_build V es hw = Some t" "es \<noteq> []"
    and "sorted (map entry_key es)" "entry_of api term i0 = Some e0"
  shows "\<exists>blk. blk < length (blocks es) \<and>
    (\<forall>b < length (blocks es). blk < b \<longrightarrow> entry_key e0 < entry_key (es ! (b * BLOCK_SIZE))) \<and>
    (0 < blk \<longrightarrow> entry_key (es ! (blk * BLOCK_SIZE)) \<le> entry_key e0) \<and>
    tier_get_id api V t term =
      (case scan_block (entry_key e0) (entry_aux e0) (blk * BLOCK_SIZE) (map strip_id (drop (blk * BLOCK_SIZE) es)) of
         Found r \<Rightarrow> map_option Some (bf_get V (rank2id t) r) | _ \<Rightarrow> Some None)"
proof -
  let ?bl = "blocks es" and ?target = "entry_key e0"
  have facts: "block_size t = BLOCK_SIZE" "encoded_count t = length es" "num_blocks t = length ?bl"
    "block_tags t = map (fst \<circ> first_key) ?bl"
    "\<forall>b < length ?bl. decode_block t b = Some (map strip_id (?bl ! b))"
    "\<forall>b < length ?bl. block_key_bytes t b = Some (snd (first_key (?bl ! b)))"
    using tier_build_facts [OF assms(1,2)] assms(3) by auto
  have ne: "0 < length ?bl" using assms(4) by (subst blocks.simps) simp
  obtain n where n: "search_blocks t ?target 0 (length ?bl) = Some n" "n \<le> length ?bl"
    "\<forall>b < length ?bl. first_key (?bl ! b) \<le> ?target \<longleftrightarrow> b < n"
    using search_blocks_correct [OF facts(4,6) first_keys_sorted [OF assms(5)], of "length ?bl" 0 ?target] by auto
  have key: "first_key (?bl ! b) = entry_key (es ! (b * BLOCK_SIZE))" if "b < length ?bl" for b
    using that by (rule first_key_block)
  let ?blk = "n - 1"
  have blk: "?blk < length ?bl" using n(2) ne by linarith
  have "\<forall>b < length ?bl. ?blk < b \<longrightarrow> ?target < entry_key (es ! (b * BLOCK_SIZE))"
  proof (intro allI impI)
    fix b assume b: "b < length ?bl" "?blk < b"
    then have "\<not> b < n" by linarith
    then show "?target < entry_key (es ! (b * BLOCK_SIZE))" using n(3) key b(1) by (metis linorder_not_less)
  qed
  moreover have "0 < ?blk \<longrightarrow> entry_key (es ! (?blk * BLOCK_SIZE)) \<le> ?target"
  proof
    assume "0 < ?blk"
    then have "?blk < n" by linarith
    then show "entry_key (es ! (?blk * BLOCK_SIZE)) \<le> ?target" using n(3) key blk by metis
  qed
  moreover have "term_sort_key api term = Some ?target" "term_aux_bytes api term = Some (entry_aux e0)"
    using entry_of_parts [OF assms(6)] by simp_all
  then have "tier_get_id api V t term =
      (case scan_block ?target (entry_aux e0) (?blk * BLOCK_SIZE) (map strip_id (drop (?blk * BLOCK_SIZE) es)) of
         Found r \<Rightarrow> map_option Some (bf_get V (rank2id t) r) | _ \<Rightarrow> Some None)"
    using scan_from_scan_block [of "[?blk..<length ?bl]" es t V ?target "entry_aux e0" "?blk * BLOCK_SIZE"]
      concat_blocks_drop [of ?blk es] blk facts(5) n(1) assms(4)
    by (simp add: tier_get_id_def facts Let_def)
  ultimately show ?thesis using blk by (intro exI [of _ ?blk] conjI)
qed

text \<open>An entry found at some rank is the term's.\<close>

lemma built_entry_eq:
  assumes "literal_laws api" "built_from api terms es" "flat_term api term" "entry_of api term i0 = Some e0"
    and "r < length es" "entry_key (es ! r) = entry_key e0" "entry_aux (es ! r) = entry_aux e0"
  shows "terms ! r = (term, entry_id (es ! r))"
proof -
  have len: "length terms = length es" using assms(2) by (simp add: built_from_def list_all2_lengthD)
  obtain u j where u: "terms ! r = (u, j)" by (cases "terms ! r")
  note nth = built_from_nth [OF assms(2) _ u, unfolded len, OF assms(5)]
  obtain tag primary aux where e0: "e0 = (tag, primary, aux, i0)"
    using entry_of_id [OF assms(4)] by (cases e0) auto
  then have "es ! r = (tag, primary, aux, j)" using assms(6,7) nth(4) by (cases "es ! r") auto
  then have "u = term" using entry_of_inj [OF assms(1) nth(2) assms(3)] nth(3) assms(4) e0 by simp
  then show ?thesis using u nth(4) by simp
qed

lemma not_found_absent:
  assumes "built_from api terms es" "entry_of api term 0 = Some e0" "length terms = length es"
    and "\<And>r. r < n \<Longrightarrow> entry_key (es ! r) \<noteq> entry_key e0"
    and "\<forall>e \<in> set (drop n es). \<not> (entry_key e = entry_key e0 \<and> entry_aux e = entry_aux e0)"
  shows "map_of terms term = None"
proof (rule ccontr)
  assume "map_of terms term \<noteq> None"
  then obtain i where "(term, i) \<in> set terms" by (auto dest: map_of_SomeD)
  then obtain r where r: "r < length terms" "terms ! r = (term, i)" by (auto simp: in_set_conv_nth)
  have e: "entry_of api term i = Some (es ! r)" by (rule built_from_nth(3) [OF assms(1) r])
  then have "entry_key (es ! r) = entry_key e0" "entry_aux (es ! r) = entry_aux e0"
    using entry_of_parts [OF assms(2)] entry_of_parts [OF e] by simp_all
  moreover from this have "n \<le> r" using assms(4) not_le by blast
  then have "drop n es ! (r - n) = es ! r" "r - n < length (drop n es)" using r(1) assms(3) by simp_all
  then have "es ! r \<in> set (drop n es)" by (metis nth_mem)
  ultimately show False using assms(5) by blast
qed

lemma tier_get_id_built:
  assumes "literal_laws api" "bit_field_vec V" "entries_ok es hw" "built_from api terms es"
    and "distinct (map fst terms)" "sorted (map entry_key es)" "tier_build V es hw = Some t"
    and boundary: "\<forall>b. 0 < b \<and> b * BLOCK_SIZE < length es \<longrightarrow>
      entry_key (es ! (b * BLOCK_SIZE - 1)) \<noteq> entry_key (es ! (b * BLOCK_SIZE))"
    and "flat_term api term"
  shows "tier_get_id api V t term = Some (map_of terms term)"
proof (cases "es = []")
  case True
  then have "encoded_count t = 0" "terms = []"
    using tier_build_facts [OF assms(2,3)] assms(4,7) by (auto simp: built_from_def)
  then show ?thesis by (simp add: tier_get_id_def)
next
  case False
  have len: "length terms = length es" using assms(4) by (simp add: built_from_def list_all2_lengthD)
  obtain e0 where e0: "entry_of api term 0 = Some e0"
    using entry_of_flat [OF assms(9)] by blast
  obtain blk where blk: "blk < length (blocks es)"
    "0 < blk \<longrightarrow> entry_key (es ! (blk * BLOCK_SIZE)) \<le> entry_key e0"
    "tier_get_id api V t term =
      (case scan_block (entry_key e0) (entry_aux e0) (blk * BLOCK_SIZE) (map strip_id (drop (blk * BLOCK_SIZE) es)) of
         Found r \<Rightarrow> map_option Some (bf_get V (rank2id t) r) | _ \<Rightarrow> Some None)"
    using tier_get_id_scan [OF assms(2,3,7) False assms(6) e0] by blast
  let ?o = "blk * BLOCK_SIZE"
  have o: "?o < length es" using blk(1) by (simp add: blocks_nth)
  have srt: "sorted (map entry_key (drop ?o es))" using assms(6) by (simp add: drop_map [symmetric] sorted_wrt_drop)
  have early: "entry_key (es ! r) \<noteq> entry_key e0" if r: "r < ?o" for r
  proof
    assume eq: "entry_key (es ! r) = entry_key e0"
    have pos: "0 < blk" using r by (cases blk) auto
    have "entry_key (es ! r) \<le> entry_key (es ! (?o - 1))" "entry_key (es ! (?o - 1)) \<le> entry_key (es ! ?o)"
      using sorted_nth_mono [OF assms(6), of r "?o - 1"] sorted_nth_mono [OF assms(6), of "?o - 1" ?o] r o by auto
    then have "entry_key (es ! (?o - 1)) = entry_key (es ! ?o)"
      using eq blk(2) pos order.trans [of "entry_key (es ! ?o)" "entry_key e0" "entry_key (es ! (?o - 1))"]
      by (intro order.antisym) simp_all
    then show False using boundary pos o by blast
  qed
  note scan = scan_block_found [OF srt, of "entry_key e0" "entry_aux e0" ?o, OF refl]
  show ?thesis
  proof (cases "scan_block (entry_key e0) (entry_aux e0) ?o (map strip_id (drop ?o es))")
    case (Found r)
    then obtain i where i: "i < length (drop ?o es)" "r = ?o + i" "entry_key (es ! r) = entry_key e0"
      "entry_aux (es ! r) = entry_aux e0"
      using scan by auto
    then have r: "r < length es" by simp
    have "terms ! r = (term, entry_id (es ! r))"
      by (rule built_entry_eq [OF assms(1,4,9) e0 r i(3,4)])
    then have "map_of terms term = Some (entry_id (es ! r))"
      using r len assms(5) nth_mem [of r terms] by simp
    moreover have "bf_get V (rank2id t) r = Some (entry_id (es ! r))"
      using tier_build_facts [OF assms(2,3)] assms(7) r by auto
    ultimately show ?thesis using blk(3) Found by simp
  next
    case (Continue x)
    have "map_of terms term = None"
      using not_found_absent [OF assms(4) e0 len early] scan Continue by auto
    then show ?thesis using blk(3) Continue by simp
  next
    case Passed
    have "map_of terms term = None"
      using not_found_absent [OF assms(4) e0 len early] scan Passed by auto
    then show ?thesis using blk(3) Passed by simp
  qed
qed

lemma straddling_member:
  assumes "built_from api terms es" "n < length es" "r < n" "terms ! r = (term, i)"
  shows "(term, i) \<in> set terms"
proof -
  have "length terms = length es" using assms(1) by (simp add: built_from_def list_all2_lengthD)
  then show ?thesis using assms by (metis nth_mem order.strict_trans)
qed

lemma tier_get_id_straddling:
  assumes "literal_laws api" "bit_field_vec V" "entries_ok es hw" "built_from api terms es"
    and "distinct (map fst terms)" "sorted (map entry_key es)"
    and "0 < b" "b * BLOCK_SIZE < length es" "r < b * BLOCK_SIZE"
    and "entry_key (es ! r) = entry_key (es ! (b * BLOCK_SIZE))" "terms ! r = (term, i)"
    and "tier_build V es hw = Some t"
  shows "tier_get_id api V t term = Some None"
proof -
  have len: "length terms = length es" using assms(4) by (simp add: built_from_def list_all2_lengthD)
  have r: "r < length es" "es \<noteq> []" using assms(8,9) by auto
  note nth = built_from_nth [OF assms(4) _ assms(11), unfolded len, OF r(1)]
  let ?e = "es ! r"
  obtain blk where blk: "blk < length (blocks es)"
    "\<forall>b < length (blocks es). blk < b \<longrightarrow> entry_key ?e < entry_key (es ! (b * BLOCK_SIZE))"
    "tier_get_id api V t term =
      (case scan_block (entry_key ?e) (entry_aux ?e) (blk * BLOCK_SIZE) (map strip_id (drop (blk * BLOCK_SIZE) es)) of
         Found r \<Rightarrow> map_option Some (bf_get V (rank2id t) r) | _ \<Rightarrow> Some None)"
    using tier_get_id_scan [OF assms(2,3,12) r(2) assms(6) nth(3)] by blast
  have "b \<le> blk" using blk(2) assms(8,10) blocks_nth(1) [of b es] by (metis less_irrefl not_le)
  then have before: "r < blk * BLOCK_SIZE" using assms(9) mult_le_mono1 order.strict_trans2 by blast
  have srt: "sorted (map entry_key (drop (blk * BLOCK_SIZE) es))"
    using assms(6) by (simp add: drop_map [symmetric] sorted_wrt_drop)
  note scan = scan_block_found [OF srt, of "entry_key ?e" "entry_aux ?e" "blk * BLOCK_SIZE", OF refl]
  show ?thesis
  proof (cases "scan_block (entry_key ?e) (entry_aux ?e) (blk * BLOCK_SIZE) (map strip_id (drop (blk * BLOCK_SIZE) es))")
    case (Found q)
    then have q: "blk * BLOCK_SIZE \<le> q" "q < length es" "entry_key (es ! q) = entry_key ?e" "entry_aux (es ! q) = entry_aux ?e"
      using scan by auto
    have "fst (terms ! q) = term"
      using built_entry_eq [OF assms(1,4) nth(2,3) q(2,3,4)] by simp
    then have "q = r"
      using nth_eq_iff_index_eq [OF assms(5), of q r] q(2) r(1) len assms(11) by simp
    then show ?thesis using before q(1) by simp
  qed (use blk(3) in auto)
qed

section \<open>Sizes\<close>

lemma length_write_varint: "unat v < 2 ^ (7 * Suc k) \<Longrightarrow> length (write_varint v) \<le> Suc k"
proof (induction k arbitrary: v)
  case 0
  then have "unat (drop_bit 7 v) = 0" by (simp only: unat_drop_bit_eq) (simp only: drop_bit_eq_div, simp)
  then have "drop_bit 7 v = 0" by (simp only: unat_eq_zero)
  then show ?case by (subst write_varint.simps) simp
next
  case (Suc k)
  have "unat (drop_bit 7 v) = unat v div 2 ^ 7" by (simp only: unat_drop_bit_eq) (simp only: drop_bit_eq_div)
  moreover have "unat v < 2 ^ (7 * Suc k) * 2 ^ 7" using Suc.prems by (simp add: power_add)
  ultimately have "unat (drop_bit 7 v) < 2 ^ (7 * Suc k)" by (simp only: less_mult_imp_div_less)
  from Suc.IH [OF this] show ?case by (subst write_varint.simps) (simp add: Let_def)
qed

lemma length_write_varint_10: "length (write_varint v) \<le> 10"
proof -
  have "unat v < 2 ^ 64" using unsigned_less [of v] by simp
  then have "unat v < 2 ^ (7 * Suc 9)" by simp
  then show ?thesis using length_write_varint [of v 9] by simp
qed

text \<open>An upper bound on the bytes an entry takes in the buffers.\<close>

fun entry_cost :: "fc_entry \<Rightarrow> nat" where
  "entry_cost (tag, primary, aux, i) = 31 + length primary + length aux"

lemma length_encode_entry: "length (encode_entry prev tag primary aux) \<le> entry_cost (tag, primary, aux, i)"
  using length_write_varint_10 [of "of_nat (common_prefix_len prev primary)"]
    length_write_varint_10 [of "of_nat (length primary - common_prefix_len prev primary)"]
    length_write_varint_10 [of "of_nat (length aux)"]
  by (simp add: encode_entry_def Let_def)

lemma length_enc_entries: "length (enc_entries prev es) \<le> (\<Sum>e \<leftarrow> es. entry_cost e)"
proof (induction prev es rule: enc_entries.induct)
  case (2 prev tag primary aux i es)
  then show ?case using length_encode_entry [of prev tag primary aux i] by simp
qed simp

lemma length_first_key: "length (snd (first_key blk)) \<le> (\<Sum>e \<leftarrow> blk. entry_cost e)"
  by (cases blk) (auto simp: first_key_def)

lemma length_concat_blocks:
  assumes "\<And>blk. length (f blk) \<le> (\<Sum>e \<leftarrow> blk. entry_cost e)"
  shows "length (concat (map f (blocks es))) \<le> (\<Sum>e \<leftarrow> es. entry_cost e)"
proof -
  have "length (concat (map f bl)) \<le> (\<Sum>e \<leftarrow> concat bl. entry_cost e)" for bl
    by (induction bl) (auto intro: add_mono assms)
  from this [of "blocks es"] show ?thesis by (simp add: concat_blocks)
qed

lemma entries_okI:
  assumes "distinct (map entry_id es)" "\<forall>e \<in> set es. entry_id e < hw" "(\<Sum>e \<leftarrow> es. entry_cost e) < 2 ^ 32"
  shows "entries_ok es hw"
proof -
  have "entry_small e" if "e \<in> set es" for e
  proof -
    have "entry_cost e \<le> (\<Sum>e \<leftarrow> es. entry_cost e)" using that by (simp add: member_le_sum_list)
    then have "entry_cost e < 2 ^ 32" using assms(3) by linarith
    then show ?thesis by (cases e) auto
  qed
  moreover have "length (concat (map (enc_entries []) (blocks es))) < 2 ^ 32"
    using le_less_trans [OF length_concat_blocks assms(3), of "enc_entries []"] length_enc_entries by blast
  moreover have "length (concat (map (snd \<circ> first_key) (blocks es))) < 2 ^ 32"
    using le_less_trans [OF length_concat_blocks assms(3), of "snd \<circ> first_key"] length_first_key by simp
  ultimately show ?thesis using assms(1,2) by (simp add: entries_ok_def)
qed

text \<open>Nine literals of one value under nine language tags, as they leave the sort.\<close>

definition example_literals :: "rdf_literal literal_api" where
  "example_literals = std_literal_api [115] [108] [100]"

definition example_langs :: "(rdf_literal rdf_term \<times> nat) list" where
  "example_langs = map (\<lambda>i. (Literal (LangLiteral [120] [of_nat (97 + i)]), i)) [0..<9]"

definition example_lang_entries :: "fc_entry list" where
  "example_lang_entries = map (\<lambda>i. (3, [120], write_str [of_nat (97 + i)], i)) [0..<9]"

lemma upt_9: "[0..<9] = [0, 1, 2, 3, 4, 5, 6, 7, 8::nat]"
  by (simp add: upt_rec)

lemma example_langs_ok:
  "literal_laws example_literals" "entries_ok example_lang_entries 9"
  "built_from example_literals example_langs example_lang_entries" "distinct (map fst example_langs)"
  "sorted (map entry_key example_lang_entries)"
proof -
  show "literal_laws example_literals" unfolding example_literals_def by (rule std_literal_laws)
  have w: "length (write_varint x) < 100" for x using length_write_varint_10 [of x] by simp
  show "entries_ok example_lang_entries 9"
    using w [of 1]
    by (intro entries_okI) (simp_all add: example_lang_entries_def upt_9 write_str_def)
  show "built_from example_literals example_langs example_lang_entries"
    by (simp add: built_from_def example_langs_def example_lang_entries_def upt_9 example_literals_def
        std_literal_api_def entry_of_def literal_strings_def)
  show "distinct (map fst example_langs)" "sorted (map entry_key example_lang_entries)"
    by (simp_all add: example_langs_def example_lang_entries_def upt_9)
qed

section \<open>Properties\<close>

text \<open>
  Decoding the compacted tier inverts building it: every term that went in under an
  identifier is returned for that identifier, through the permutation arrays, the block
  offsets, the front coding and the varints.
\<close>

theorem compacted_decode_exact:
  assumes "literal_laws api" "bit_field_vec V" "entries_ok es hw" "built_from api terms es"
    and "(term, i) \<in> set terms"
  shows "\<exists>t. tier_build V es hw = Some t \<and> tier_decode_id api V t i = Some (Some (Inr term))"
  using tier_build_facts [OF assms(2,3)] tier_decode_id_built [OF assms] by blast

theorem compacted_decode_exact_witness:
  "\<exists>t. tier_build list_bits example_lang_entries 9 = Some t \<and>
     tier_decode_id example_literals list_bits t 4 = Some (Some (Inr (Literal (LangLiteral [120] [101]))))"
proof -
  have "(Literal (LangLiteral [120] [101]), 4) \<in> set example_langs" by (simp add: example_langs_def upt_9)
  then show ?thesis
    using compacted_decode_exact [OF example_langs_ok(1) list_bits.bit_field_vec_axioms example_langs_ok(2,3)] by blast
qed

text \<open>
  Lookup in the compacted tier is exact when no key straddles a block boundary: if the last
  entry of a block and the first entry of the next never share tag and primary string, looking a
  term up returns the identifier it went in under, and nothing for a term that did not go in.
\<close>

theorem compacted_lookup_exact:
  assumes "literal_laws api" "bit_field_vec V" "entries_ok es hw" "built_from api terms es"
    and "distinct (map fst terms)" "sorted (map entry_key es)"
    and "\<forall>b. 0 < b \<and> b * BLOCK_SIZE < length es \<longrightarrow>
      entry_key (es ! (b * BLOCK_SIZE - 1)) \<noteq> entry_key (es ! (b * BLOCK_SIZE))"
    and "flat_term api term"
  shows "\<exists>t. tier_build V es hw = Some t \<and> tier_get_id api V t term = Some (map_of terms term)"
  using tier_build_facts [OF assms(2,3)] tier_get_id_built [OF assms(1-6) _ assms(7,8)] by blast

theorem compacted_lookup_exact_witness:
  "\<exists>t. tier_build list_bits [(0, [97], [], 1), (0, [98], [], 0)] 2 = Some t \<and>
     tier_get_id example_literals list_bits t (NamedNode [98]) = Some (Some 0)"
proof -
  let ?terms = "[(NamedNode [97], 1), (NamedNode [98], 0)] :: (rdf_literal rdf_term \<times> nat) list"
  let ?es = "[(0, [97], [], 1), (0, [98], [], 0)] :: fc_entry list"
  have "entries_ok ?es 2" by (rule entries_okI) simp_all
  moreover have "built_from example_literals ?terms ?es" by (simp add: built_from_def entry_of_def)
  moreover have "\<forall>b. 0 < b \<and> b * BLOCK_SIZE < length ?es \<longrightarrow>
      entry_key (?es ! (b * BLOCK_SIZE - 1)) \<noteq> entry_key (?es ! (b * BLOCK_SIZE))"
    by (auto simp: BLOCK_SIZE_def)
  ultimately have "\<exists>t. tier_build list_bits ?es 2 = Some t \<and>
      tier_get_id example_literals list_bits t (NamedNode [98]) = Some (map_of ?terms (NamedNode [98]))"
    by (intro compacted_lookup_exact [OF example_langs_ok(1) list_bits.bit_field_vec_axioms]) simp_all
  then show ?thesis by simp
qed

end
