(* ===== verification/DictCache.thy ===== *)
theory DictCache
  imports DictCompact
begin

text \<open>
  The compacted tier of a dictionary that was opened from disk,
  \<^verbatim>\<open>crates/core/nova-core/src/dict_block_cache.rs\<close>: the front-coded buffer stays compressed in blocks, which
  are decompressed on demand into a bounded cache. The reads are written over a block reader, the
  operation that returns one decompressed block and may change a state. The reader of the code keeps a
  cache (\<open>get_lz4_block\<close>); the direct reader decompresses every time. The locale \<open>block_reader\<close> shows that
  the two give the same answers, whatever the cache holds, and the rest of the theory that these
  are the answers of the owned tier the blocks were made from. The compression of the \<^verbatim>\<open>lz4_flex\<close> crate and
  the cache of the \<^verbatim>\<open>lru\<close> crate are parameters.
\<close>

section \<open>Bounded caches\<close>

record ('k, 'x, 'c) lru_api =
  lru_new :: "nat \<Rightarrow> 'c"
  lru_get :: "'c \<Rightarrow> 'k \<Rightarrow> 'x option \<times> 'c"
  lru_put :: "'c \<Rightarrow> 'k \<Rightarrow> 'x \<Rightarrow> 'c"
  lru_clear :: "'c \<Rightarrow> 'c"

text \<open>
  The documented behaviour of the cache: \<open>contents\<close> is what a cache holds. A new or cleared
  cache is empty, reading returns what is held and only reorders it, and after a write the cache
  holds at most the written entry and what it held before (entries may be evicted).
\<close>

locale lru_cache =
  fixes L :: "('k, 'x, 'c) lru_api" and contents :: "'c \<Rightarrow> 'k \<rightharpoonup> 'x"
  assumes contents_new: "contents (lru_new L n) = Map.empty"
    and contents_clear: "contents (lru_clear L c) = Map.empty"
    and contents_get: "lru_get L c i = (r, c') \<Longrightarrow> r = contents c i \<and> contents c' = contents c"
    and contents_put: "contents (lru_put L c i x) \<subseteq>\<^sub>m (contents c)(i \<mapsto> x)"
begin

lemma contents_put_cases:
  "contents (lru_put L c i x) j = Some y \<Longrightarrow> j = i \<and> y = x \<or> contents c j = Some y"
  using contents_put [of c i x] unfolding map_le_def by (metis domI fun_upd_apply option.inject)

end

text \<open>A least-recently-used cache as a list, most recent entry first.\<close>

definition list_lru :: "('k, 'x, nat \<times> ('k \<times> 'x) list) lru_api" where
  "list_lru = \<lparr>lru_new = (\<lambda>n. (n, [])),
     lru_get = (\<lambda>(n, es) i. case map_of es i of
        None \<Rightarrow> (None, (n, es))
      | Some x \<Rightarrow> (Some x, (n, (i, x) # filter (\<lambda>(j, _). j \<noteq> i) es))),
     lru_put = (\<lambda>(n, es) i x. (n, take n ((i, x) # filter (\<lambda>(j, _). j \<noteq> i) es))),
     lru_clear = (\<lambda>(n, es). (n, []))\<rparr>"

lemma map_of_take: "map_of (take n es) i = Some x \<Longrightarrow> map_of es i = Some x"
proof (induction es arbitrary: n)
  case (Cons e es)
  then show ?case by (cases n) (auto split: if_splits)
qed simp

lemma map_of_take_le: "map_of (take n es) \<subseteq>\<^sub>m map_of es"
  unfolding map_le_def by (metis domD map_of_take)

definition list_contents :: "nat \<times> ('k \<times> 'x) list \<Rightarrow> 'k \<rightharpoonup> 'x" where
  "list_contents c = map_of (snd c)"

lemma map_of_filter_other: "map_of (filter (\<lambda>(j, _). j \<noteq> i) es) = (map_of es)(i := None)"
  by (induction es) auto

lemma map_of_take_put: "map_of (take n ((i, x) # filter (\<lambda>(j, _). j \<noteq> i) es)) \<subseteq>\<^sub>m (map_of es)(i \<mapsto> x)"
  using map_of_take_le [of n "(i, x) # filter (\<lambda>(j, _). j \<noteq> i) es"] by (simp add: map_of_filter_other)

interpretation list_lru: lru_cache list_lru list_contents
proof
  show "list_contents (lru_put list_lru c i x) \<subseteq>\<^sub>m (list_contents c)(i \<mapsto> x)" for c :: "nat \<times> ('k \<times> 'x) list" and i x
    using map_of_take_put by (simp add: list_lru_def list_contents_def split_beta)
qed (auto simp: list_lru_def list_contents_def map_of_filter_other split: option.splits prod.splits)

section \<open>Compressed blocks\<close>

record lz4_api =
  lz_compress :: "bytes \<Rightarrow> bytes"
  lz_decompress :: "bytes \<Rightarrow> bytes result"

text \<open>Blocks stored as they are.\<close>

definition plain_lz4 :: lz4_api where
  "plain_lz4 = \<lparr>lz_compress = (\<lambda>bs. bs), lz_decompress = Inr\<rparr>"

record 'v tier_index =
  ix_block_size :: nat
  ix_high_water :: nat
  ix_encoded_count :: nat
  ix_buf_len :: nat
  ix_block_starts :: "u32 list"
  ix_block_tags :: bytes
  ix_key_flat :: bytes
  ix_key_offsets :: "u32 list"
  ix_rank2id :: 'v
  ix_id2rank :: 'v
  ix_rank2id_bit_width :: nat
  ix_id2rank_bit_width :: nat

definition num_fc_blocks :: "'v tier_index \<Rightarrow> nat" where
  "num_fc_blocks ix = length (ix_block_starts ix)"

definition index_key_bytes :: "'v tier_index \<Rightarrow> nat \<Rightarrow> bytes option" where
  "index_key_bytes ix block_idx =
     do {start \<leftarrow> nth_opt (ix_key_offsets ix) block_idx;
         let end_pos = (case nth_opt (ix_key_offsets ix) (block_idx + 1) of
                          Some x \<Rightarrow> unat x | None \<Rightarrow> length (ix_key_flat ix));
         slice_of (ix_key_flat ix) (unat start) end_pos}"

definition fc_block_range :: "'v tier_index \<Rightarrow> nat \<Rightarrow> (nat \<times> nat) option" where
  "fc_block_range ix fc_block_idx =
     do {start \<leftarrow> nth_opt (ix_block_starts ix) fc_block_idx;
         let end_pos = (case nth_opt (ix_block_starts ix) (fc_block_idx + 1) of
                          Some x \<Rightarrow> unat x | None \<Rightarrow> ix_buf_len ix);
         Some (unat start, end_pos)}"

record lz4_buf_blocks =
  lz_block_size :: nat
  lz_raw_len :: nat
  lz_offsets :: "u64 list"
  lz_data :: bytes

definition lz_n_blocks :: "lz4_buf_blocks \<Rightarrow> nat" where
  "lz_n_blocks lz = length (lz_offsets lz) - 1"

text \<open>The outer option is a panic.\<close>

definition decompress_block :: "lz4_api \<Rightarrow> lz4_buf_blocks \<Rightarrow> nat \<Rightarrow> bytes result option" where
  "decompress_block Z lz idx =
     (if idx \<ge> lz_n_blocks lz then Some (Inl (Storage ''dict block cache: lz4 block out of range''))
      else do {
        start \<leftarrow> nth_opt (lz_offsets lz) idx;
        end_pos \<leftarrow> nth_opt (lz_offsets lz) (idx + 1);
        compressed \<leftarrow> slice_of (lz_data lz) (unat start) (unat end_pos);
        Some (lz_decompress Z compressed)})"

definition block_for_offset :: "lz4_buf_blocks \<Rightarrow> nat \<Rightarrow> nat option option" where
  "block_for_offset lz pos =
     (if lz_raw_len lz = 0 \<or> pos \<ge> lz_raw_len lz then Some None
      else if lz_block_size lz = 0 then None
      else Some (Some (pos div lz_block_size lz)))"

section \<open>Reading through a block reader\<close>

text \<open>An operation that returns a decompressed block; its state is the cache, or nothing.\<close>

type_synonym 's reader = "nat \<Rightarrow> 's \<Rightarrow> ('s, bytes) outcome"

definition get_lz4_block ::
  "lz4_api \<Rightarrow> (nat, bytes, 'k) lru_api \<Rightarrow> lz4_buf_blocks \<Rightarrow> 'k reader" where
  "get_lz4_block Z L lz idx c =
     (case lru_get L c idx of
        (Some hit, c) \<Rightarrow> Some (c, Inr hit)
      | (None, c) \<Rightarrow>
          do {res \<leftarrow> decompress_block Z lz idx;
              case res of
                Inl e \<Rightarrow> Some (c, Inl e)
              | Inr raw \<Rightarrow> Some (lru_put L c idx raw, Inr raw)})"

text \<open>The loop of \<open>raw_slice\<close> over the blocks that cover a range.\<close>

fun gather_blocks :: "'s reader \<Rightarrow> lz4_buf_blocks \<Rightarrow> nat \<Rightarrow> nat \<Rightarrow> nat list \<Rightarrow> bytes \<Rightarrow> 's \<Rightarrow> ('s, bytes) outcome" where
  "gather_blocks rd lz start end_pos [] out s = Some (s, Inr out)"
| "gather_blocks rd lz start end_pos (b # bs) out s =
     seq (rd b s) (\<lambda>s block.
       let block_raw_start = b * lz_block_size lz in
       if end_pos < block_raw_start then None
       else do {
         part \<leftarrow> slice_of block (start - block_raw_start) (min (end_pos - block_raw_start) (length block));
         gather_blocks rd lz start end_pos bs (out @ part) s})"

definition raw_slice :: "'s reader \<Rightarrow> 'v tier_index \<Rightarrow> lz4_buf_blocks \<Rightarrow> nat \<Rightarrow> nat \<Rightarrow> 's \<Rightarrow> ('s, bytes) outcome" where
  "raw_slice rd ix lz start end_pos s =
     (if start > end_pos \<or> end_pos > ix_buf_len ix then Some (s, Inl (Storage ''dict block cache: bad range''))
      else if start = end_pos then Some (s, Inr [])
      else do {
        lo_b \<leftarrow> block_for_offset lz start;
        case lo_b of
          None \<Rightarrow> Some (s, Inl (Storage ''dict block cache: start OOB''))
        | Some lo_b \<Rightarrow> do {
            hi_b \<leftarrow> block_for_offset lz (end_pos - 1);
            case hi_b of
              None \<Rightarrow> Some (s, Inl (Storage ''dict block cache: end OOB''))
            | Some hi_b \<Rightarrow> gather_blocks rd lz start end_pos [lo_b..<Suc hi_b] [] s}})"

text \<open>The decoding loop is the one of the owned tier, over the copied range.\<close>

definition decode_fc_block ::
  "'s reader \<Rightarrow> 'v tier_index \<Rightarrow> lz4_buf_blocks \<Rightarrow> nat \<Rightarrow> 's \<Rightarrow> ('s, (u8 \<times> bytes \<times> bytes) list) outcome" where
  "decode_fc_block rd ix lz fc_block_idx s =
     do {(start, end_pos) \<leftarrow> fc_block_range ix fc_block_idx;
         seq (raw_slice rd ix lz start end_pos s) (\<lambda>s buf.
           map_option (\<lambda>out. (s, Inr out)) (decode_entries buf [] 0 (length buf) []))}"

function search_index :: "'v tier_index \<Rightarrow> u8 \<times> bytes \<Rightarrow> nat \<Rightarrow> nat \<Rightarrow> nat option" where
  "search_index ix target lo hi =
     (if lo < hi then
        let mid = lo + (hi - lo) div 2 in
        do {mid_tag \<leftarrow> nth_opt (ix_block_tags ix) mid;
            mid_key \<leftarrow> index_key_bytes ix mid;
            let is_le = mid_tag < fst target \<or> (mid_tag = fst target \<and> mid_key \<le> snd target);
            if is_le then search_index ix target (mid + 1) hi else search_index ix target lo mid}
      else Some lo)"
  by pat_completeness auto
termination by (relation "measure (\<lambda>(ix, target, lo, hi). hi - lo)") auto

declare search_index.simps [simp del]

text \<open>A read error ends the lookup without an answer.\<close>

fun scan_blocks ::
  "'s reader \<Rightarrow> 'v bit_fields \<Rightarrow> 'v tier_index \<Rightarrow> lz4_buf_blocks \<Rightarrow> u8 \<times> bytes \<Rightarrow> bytes \<Rightarrow> nat \<Rightarrow> nat list \<Rightarrow> 's \<Rightarrow>
   ('s \<times> nat option) option" where
  "scan_blocks rd V ix lz target aux rank [] s = Some (s, None)"
| "scan_blocks rd V ix lz target aux rank (b # bs) s =
     do {(s, res) \<leftarrow> decode_fc_block rd ix lz b s;
         case res of
           Inl _ \<Rightarrow> Some (s, None)
         | Inr decoded \<Rightarrow>
             (case scan_block target aux rank decoded of
                Passed \<Rightarrow> Some (s, None)
              | Found r \<Rightarrow> do {i \<leftarrow> bf_get V (ix_rank2id ix) r; Some (s, Some i)}
              | Continue r \<Rightarrow> scan_blocks rd V ix lz target aux r bs s)}"

definition cached_get_id ::
  "'l literal_api \<Rightarrow> 'v bit_fields \<Rightarrow> 's reader \<Rightarrow> 'v tier_index \<Rightarrow> lz4_buf_blocks \<Rightarrow> 'l rdf_term \<Rightarrow> 's \<Rightarrow>
   ('s \<times> nat option) option" where
  "cached_get_id api V rd ix lz term s =
     (if ix_encoded_count ix = 0 then Some (s, None)
      else do {
        target \<leftarrow> term_sort_key api term;
        aux \<leftarrow> term_aux_bytes api term;
        lo \<leftarrow> search_index ix target 0 (num_fc_blocks ix);
        let blk = lo - 1;
        scan_blocks rd V ix lz target aux (blk * ix_block_size ix) [blk..<num_fc_blocks ix] s})"

definition cached_decode_id ::
  "'l literal_api \<Rightarrow> 'v bit_fields \<Rightarrow> 's reader \<Rightarrow> 'v tier_index \<Rightarrow> lz4_buf_blocks \<Rightarrow> nat \<Rightarrow> 's \<Rightarrow>
   ('s \<times> 'l rdf_term result option) option" where
  "cached_decode_id api V rd ix lz i s =
     (if i \<ge> ix_high_water ix \<or> ix_encoded_count ix = 0 then Some (s, None)
      else do {
        rank \<leftarrow> bf_get V (ix_id2rank ix) i;
        (s, res) \<leftarrow> decode_fc_block rd ix lz (rank div ix_block_size ix) s;
        case res of
          Inl e \<Rightarrow> Some (s, Some (Inl e))
        | Inr decoded \<Rightarrow>
            (case nth_opt decoded (rank mod ix_block_size ix) of
               None \<Rightarrow> Some (s, None)
             | Some (tag, primary, aux) \<Rightarrow>
                 map_option (\<lambda>r. (s, Some r)) (term_from_parts api tag primary aux))})"

definition cached_decode_block_for_id ::
  "'l literal_api \<Rightarrow> 'v bit_fields \<Rightarrow> 's reader \<Rightarrow> 'v tier_index \<Rightarrow> lz4_buf_blocks \<Rightarrow> nat \<Rightarrow> 's \<Rightarrow>
   ('s \<times> (nat \<times> 'l rdf_term result) list option) option" where
  "cached_decode_block_for_id api V rd ix lz i s =
     (if i \<ge> ix_high_water ix \<or> ix_encoded_count ix = 0 then Some (s, None)
      else do {
        rank \<leftarrow> bf_get V (ix_id2rank ix) i;
        let block = rank div ix_block_size ix;
        let block_start_rank = block * ix_block_size ix;
        (s, res) \<leftarrow> decode_fc_block rd ix lz block s;
        case res of
          Inl e \<Rightarrow> Some (s, Some [(i, Inl e)])
        | Inr decoded \<Rightarrow>
            do {out \<leftarrow> those (map (\<lambda>(j, tag, primary, aux).
                  do {orig_id \<leftarrow> bf_get V (ix_rank2id ix) (block_start_rank + j);
                      term \<leftarrow> term_from_parts api tag primary aux;
                      Some (orig_id, term)}) (enumerate 0 decoded));
                Some (s, Some out)}})"

section \<open>Caching does not change an answer\<close>

definition direct_reader :: "(nat \<Rightarrow> bytes result option) \<Rightarrow> unit reader" where
  "direct_reader direct b s = map_option (Pair s) (direct b)"

text \<open>
  Two runs agree: both panic, or both return the same value and the state of the first
  satisfies its invariant.
\<close>

definition agrees :: "('s \<Rightarrow> bool) \<Rightarrow> ('s \<times> 'a) option \<Rightarrow> (unit \<times> 'a) option \<Rightarrow> bool" where
  "agrees ok x y \<longleftrightarrow> (case y of None \<Rightarrow> x = None | Some (u, r) \<Rightarrow> \<exists>s. ok s \<and> x = Some (s, r))"

lemma agrees_Some [intro!]: "ok s \<Longrightarrow> agrees ok (Some (s, r)) (Some (u, r))"
  by (simp add: agrees_def)

lemma agrees_None [intro!]: "agrees ok None None"
  by (simp add: agrees_def)

lemma agrees_seq:
  assumes "agrees ok x y" and "\<And>s a. ok s \<Longrightarrow> agrees ok (f s a) (g () a)"
  shows "agrees ok (seq x f) (seq y g)"
proof (cases y)
  case (Some p)
  then obtain s where "ok s" "x = Some (s, snd p)" using assms(1) by (auto simp: agrees_def split: prod.splits)
  then show ?thesis using assms(2) [of s] Some by (cases p; cases "snd p") auto
qed (use assms(1) in \<open>simp add: agrees_def\<close>)

lemma agrees_bind:
  assumes "agrees ok x y" and "\<And>s r. ok s \<Longrightarrow> agrees ok (f (s, r)) (g ((), r))"
  shows "agrees ok (x \<bind> f) (y \<bind> g)"
proof (cases y)
  case (Some p)
  then obtain s where "ok s" "x = Some (s, snd p)" using assms(1) by (auto simp: agrees_def split: prod.splits)
  then show ?thesis using assms(2) [of s "snd p"] Some by (cases p) simp
qed (use assms(1) in \<open>simp add: agrees_def\<close>)

lemma agrees_bind_same: "(\<And>a. agrees ok (f a) (g a)) \<Longrightarrow> agrees ok (x \<bind> f) (x \<bind> g)"
  by (cases x) (auto simp: agrees_def)

lemma agrees_map: "ok s \<Longrightarrow> agrees ok (map_option (\<lambda>a. (s, f a)) x) (map_option (\<lambda>a. ((), f a)) x)"
  by (cases x) auto

lemmas agrees_intros = agrees_Some agrees_None agrees_seq agrees_bind agrees_bind_same agrees_map

locale block_reader =
  fixes rd :: "'s reader" and direct :: "nat \<Rightarrow> bytes result option" and ok :: "'s \<Rightarrow> bool"
  assumes read_agrees: "ok s \<Longrightarrow> agrees ok (rd b s) (direct_reader direct b ())"
begin

lemma gather_agrees:
  "ok s \<Longrightarrow> agrees ok (gather_blocks rd lz a e bs out s) (gather_blocks (direct_reader direct) lz a e bs out ())"
proof (induction bs arbitrary: out s)
  case (Cons b bs)
  show ?case
    unfolding gather_blocks.simps Let_def
    by (rule agrees_seq [OF read_agrees [OF Cons.prems]])
      (auto intro!: agrees_bind_same Cons.IH)
qed auto

lemma raw_slice_agrees:
  "ok s \<Longrightarrow> agrees ok (raw_slice rd ix lz a e s) (raw_slice (direct_reader direct) ix lz a e ())"
  unfolding raw_slice_def
  by (auto intro!: agrees_bind_same agrees_Some gather_agrees split: option.split simp del: upt_Suc)

lemma decode_fc_block_agrees:
  "ok s \<Longrightarrow> agrees ok (decode_fc_block rd ix lz b s) (decode_fc_block (direct_reader direct) ix lz b ())"
  unfolding decode_fc_block_def split_beta
  by (intro agrees_bind_same agrees_seq [OF raw_slice_agrees] agrees_map)

lemma scan_blocks_agrees:
  "ok s \<Longrightarrow> agrees ok (scan_blocks rd V ix lz target aux rank bs s)
     (scan_blocks (direct_reader direct) V ix lz target aux rank bs ())"
proof (induction bs arbitrary: rank s)
  case (Cons b bs)
  show ?case
    unfolding scan_blocks.simps
    by (rule agrees_bind [OF decode_fc_block_agrees [OF Cons.prems]])
      (auto intro!: agrees_bind_same Cons.IH split: sum.split scan_step.split)
qed auto

theorem get_id_agrees:
  "ok s \<Longrightarrow> agrees ok (cached_get_id api V rd ix lz x s) (cached_get_id api V (direct_reader direct) ix lz x ())"
  unfolding cached_get_id_def Let_def by (auto intro!: agrees_bind_same scan_blocks_agrees)

theorem decode_id_agrees:
  "ok s \<Longrightarrow> agrees ok (cached_decode_id api V rd ix lz i s) (cached_decode_id api V (direct_reader direct) ix lz i ())"
  unfolding cached_decode_id_def
  by (auto intro!: agrees_bind_same agrees_bind [OF decode_fc_block_agrees] agrees_map split: sum.split option.split)

theorem decode_block_agrees:
  "ok s \<Longrightarrow> agrees ok (cached_decode_block_for_id api V rd ix lz i s)
     (cached_decode_block_for_id api V (direct_reader direct) ix lz i ())"
  unfolding cached_decode_block_for_id_def Let_def
  by (auto intro!: agrees_bind_same agrees_bind [OF decode_fc_block_agrees] split: sum.split option.split)

end

text \<open>A cache is coherent when it holds only blocks as they decompress.\<close>

definition coherent :: "lz4_api \<Rightarrow> lz4_buf_blocks \<Rightarrow> ('k \<Rightarrow> nat \<rightharpoonup> bytes) \<Rightarrow> 'k \<Rightarrow> bool" where
  "coherent Z lz contents c \<longleftrightarrow> (\<forall>b raw. contents c b = Some raw \<longrightarrow> decompress_block Z lz b = Some (Inr raw))"

lemma coherent_new: "lru_cache L contents \<Longrightarrow> coherent Z lz contents (lru_new L n)"
  by (simp add: coherent_def lru_cache.contents_new)

lemma cached_reader:
  assumes "lru_cache L contents"
  shows "block_reader (get_lz4_block Z L lz) (decompress_block Z lz) (coherent Z lz contents)"
proof
  fix c b assume c: "coherent Z lz contents c"
  obtain r c' where get: "lru_get L c b = (r, c')" by fastforce
  then have r: "r = contents c b" "contents c' = contents c" using lru_cache.contents_get [OF assms get] by auto
  then have c': "coherent Z lz contents c'" using c by (simp add: coherent_def)
  have put: "coherent Z lz contents (lru_put L c' b raw)" if "decompress_block Z lz b = Some (Inr raw)" for raw
    using c' that lru_cache.contents_put_cases [OF assms] unfolding coherent_def by metis
  show "agrees (coherent Z lz contents) (get_lz4_block Z L lz b c) (direct_reader (decompress_block Z lz) b ())"
  proof (cases r)
    case None
    then show ?thesis using get c' put
      by (auto simp: get_lz4_block_def direct_reader_def agrees_def split: option.split sum.split bind_splits)
  next
    case (Some hit)
    then have "decompress_block Z lz b = Some (Inr hit)" using c r by (simp add: coherent_def)
    then show ?thesis using get c' Some by (auto simp: get_lz4_block_def direct_reader_def)
  qed
qed

section \<open>The blocks of an owned tier\<close>

definition tier_index_of :: "'v compacted_tier \<Rightarrow> nat \<Rightarrow> 'v tier_index" where
  "tier_index_of t buf_len =
     \<lparr>ix_block_size = block_size t, ix_high_water = high_water t, ix_encoded_count = encoded_count t,
      ix_buf_len = buf_len, ix_block_starts = block_starts t, ix_block_tags = block_tags t,
      ix_key_flat = key_flat t, ix_key_offsets = key_offsets t, ix_rank2id = rank2id t, ix_id2rank = id2rank t,
      ix_rank2id_bit_width = rank2id_bit_width t, ix_id2rank_bit_width = id2rank_bit_width t\<rparr>"

lemma tier_index_of_simps [simp]:
  "ix_block_size (tier_index_of t n) = block_size t" "ix_high_water (tier_index_of t n) = high_water t"
  "ix_encoded_count (tier_index_of t n) = encoded_count t" "ix_buf_len (tier_index_of t n) = n"
  "ix_block_starts (tier_index_of t n) = block_starts t" "ix_block_tags (tier_index_of t n) = block_tags t"
  "ix_rank2id (tier_index_of t n) = rank2id t" "ix_id2rank (tier_index_of t n) = id2rank t"
  "ix_key_flat (tier_index_of t n) = key_flat t" "ix_key_offsets (tier_index_of t n) = key_offsets t"
  "num_fc_blocks (tier_index_of t n) = num_blocks t"
  by (simp_all add: tier_index_of_def num_fc_blocks_def num_blocks_def)

lemma index_key_bytes_of [simp]: "index_key_bytes (tier_index_of t n) b = block_key_bytes t b"
  by (simp add: index_key_bytes_def block_key_bytes_def cong: option.case_cong)

text \<open>The blocks hold a buffer: each decompresses to its part of it.\<close>

definition blocks_hold :: "lz4_api \<Rightarrow> lz4_buf_blocks \<Rightarrow> bytes \<Rightarrow> bool" where
  "blocks_hold Z lz buf \<longleftrightarrow> 0 < lz_block_size lz \<and> lz_raw_len lz = length buf \<and>
     (\<forall>b. b * lz_block_size lz < length buf \<longrightarrow>
        decompress_block Z lz b = Some (Inr (take (lz_block_size lz) (drop (b * lz_block_size lz) buf))))"

lemma take_drop_append:
  assumes "p \<le> m" "m \<le> e"
  shows "take (m - p) (drop p xs) @ take (e - m) (drop m xs) = take (e - p) (drop p xs)"
proof -
  have "take (e - p) (drop p xs) = take ((m - p) + (e - m)) (drop p xs)" using assms by simp
  also have "\<dots> = take (m - p) (drop p xs) @ take (e - m) (drop (m - p) (drop p xs))" by (rule take_add)
  finally show ?thesis using assms by (simp add: drop_drop)
qed

lemma gather_direct:
  assumes hold: "blocks_hold Z lz buf" and range: "a < e" "e \<le> length buf"
    and b: "b \<le> Suc n" "n * lz_block_size lz < e" "e \<le> Suc n * lz_block_size lz" "a < Suc b * lz_block_size lz"
      "b \<le> n \<or> a \<le> e"
  shows "gather_blocks (direct_reader (decompress_block Z lz)) lz a e [b..<Suc n] out () =
    Some ((), Inr (out @ take (e - max a (b * lz_block_size lz)) (drop (max a (b * lz_block_size lz)) buf)))"
  using b
proof (induction "Suc n - b" arbitrary: b out)
  case 0
  then have "b = Suc n" by simp
  then show ?case using 0 by simp
next
  case (Suc k)
  let ?bs = "lz_block_size lz"
  have bs: "0 < ?bs" using hold by (simp add: blocks_hold_def)
  have bn: "b \<le> n" using Suc.hyps(2) by simp
  then have start: "b * ?bs < e" using Suc.prems(2) by (meson le_less_trans mult_le_mono1)
  define block where "block = take ?bs (drop (b * ?bs) buf)"
  have dec: "decompress_block Z lz b = Some (Inr block)"
    using hold range start by (simp add: blocks_hold_def block_def)
  let ?p = "max a (b * ?bs)" and ?m = "min e (Suc b * ?bs)"
  have len: "length block = min ?bs (length buf - b * ?bs)" by (simp add: block_def)
  have hi: "min (e - b * ?bs) (length block) = ?m - b * ?bs" using range start by (simp add: len)
  have "a - b * ?bs \<le> ?m - b * ?bs" using Suc.prems(4) range by simp
  moreover have "?m - b * ?bs \<le> length block" using hi by (metis min.cobounded2)
  moreover have "take (?m - b * ?bs - (a - b * ?bs)) (drop (a - b * ?bs) block) = take (?m - ?p) (drop ?p buf)"
  proof -
    have "drop (a - b * ?bs) block = take (?bs - (a - b * ?bs)) (drop ?p buf)"
      by (simp add: block_def drop_take drop_drop add.commute max_def)
    moreover have "?m - b * ?bs - (a - b * ?bs) = ?m - ?p" by auto
    moreover have "?m - ?p \<le> ?bs - (a - b * ?bs)" by auto
    ultimately show ?thesis by (simp add: min_absorb2)
  qed
  ultimately have part: "slice_of block (a - b * ?bs) (min (e - b * ?bs) (length block)) = Some (take (?m - ?p) (drop ?p buf))"
    by (simp add: slice_of_def hi)
  have step: "gather_blocks (direct_reader (decompress_block Z lz)) lz a e [b..<Suc n] out () =
      gather_blocks (direct_reader (decompress_block Z lz)) lz a e [Suc b..<Suc n] (out @ take (?m - ?p) (drop ?p buf)) ()"
  proof -
    have "[b..<Suc n] = b # [Suc b..<Suc n]" using bn by (simp add: upt_conv_Cons del: upt_Suc)
    then show ?thesis using start part dec by (simp add: direct_reader_def Let_def del: upt_Suc)
  qed
  show ?case
  proof (cases "b = n")
    case True
    then have "?m = e" using Suc.prems(3) by simp
    then show ?thesis using step True by simp
  next
    case False
    then have m: "?m = Suc b * ?bs" "Suc b \<le> n"
      using bn Suc.prems(2) mult_le_mono1 [of "Suc b" n ?bs] by (auto simp: min_def)
    have pm: "max a (Suc b * ?bs) = ?m" "?p \<le> ?m" "?m \<le> e" using m Suc.prems(4) by auto
    have "a < Suc (Suc b) * ?bs" using Suc.prems(4) by simp
    then have "gather_blocks (direct_reader (decompress_block Z lz)) lz a e [Suc b..<Suc n] (out @ take (?m - ?p) (drop ?p buf)) () =
        Some ((), Inr ((out @ take (?m - ?p) (drop ?p buf)) @ take (e - ?m) (drop ?m buf)))"
      using Suc.hyps(1) [of "Suc b"] Suc.hyps(2) Suc.prems m(2) unfolding pm(1) by simp
    then show ?thesis using step take_drop_append [OF pm(2,3), of buf] by simp
  qed
qed

lemma raw_slice_direct:
  assumes hold: "blocks_hold Z lz buf" and "ix_buf_len ix = length buf" "a \<le> e" "e \<le> length buf"
  shows "raw_slice (direct_reader (decompress_block Z lz)) ix lz a e () = Some ((), Inr (take (e - a) (drop a buf)))"
proof (cases "a = e")
  case False
  let ?bs = "lz_block_size lz" and ?f = "a div lz_block_size lz" and ?n = "(e - 1) div lz_block_size lz"
  have bs: "0 < ?bs" "lz_raw_len lz = length buf" using hold by (simp_all add: blocks_hold_def)
  have lt: "a < e" using False assms(3) by simp
  have "?f \<le> ?n" using lt by (intro div_le_mono) simp
  moreover have "?n * ?bs \<le> e - 1" by simp
  then have "?n * ?bs < e" using lt by linarith
  moreover have "e \<le> Suc ?n * ?bs" using dividend_less_div_times [OF bs(1), of "e - 1"] by simp
  moreover have "a < Suc ?f * ?bs" using dividend_less_div_times [OF bs(1), of a] by simp
  moreover have "?f * ?bs \<le> a" by simp
  moreover have "e - 1 < length buf" "buf \<noteq> []" using lt assms(4) by auto
  ultimately show ?thesis
    using gather_direct [OF hold lt assms(4), of ?f ?n "[]"] lt assms bs
    by (simp add: raw_slice_def block_for_offset_def max_absorb1 del: upt_Suc)
qed (use assms in \<open>simp add: raw_slice_def\<close>)

lemma decode_fc_block_owned:
  assumes "entries_ok es hw" "tier_build V es hw = Some t" and hold: "blocks_hold Z lz (fc_buf t)"
  shows "decode_fc_block (direct_reader (decompress_block Z lz)) (tier_index_of t (length (fc_buf t))) lz b () =
    map_option (\<lambda>d. ((), Inr d)) (decode_block t b)"
proof (cases "b < length (blocks es)")
  case True
  let ?ws = "map (enc_entries []) (blocks es)"
  have bufs: "fc_buf t = concat ?ws" "block_starts t = offsets 0 ?ws" using tier_build_bufs [OF assms(2)] by simp_all
  have "length (concat ?ws) < 2 ^ 32" using assms(1) by (simp add: entries_ok_def)
  then obtain k where k: "nth_opt (offsets 0 ?ws) b = Some (of_nat k)" "unat (of_nat k :: u32) = k"
    "(case nth_opt (offsets 0 ?ws) (b + 1) of Some x \<Rightarrow> unat x | None \<Rightarrow> length (concat ?ws)) = k + length (?ws ! b)"
    "has_at (concat ?ws) k (?ws ! b)"
    using flat_slot [of b ?ws] True by auto
  have range: "fc_block_range (tier_index_of t (length (fc_buf t))) b = Some (k, k + length (?ws ! b))"
    using k by (simp add: fc_block_range_def bufs cong: option.case_cong)
  have part: "k + length (?ws ! b) \<le> length (fc_buf t)" "take (length (?ws ! b)) (drop k (fc_buf t)) = ?ws ! b"
    using k(4) by (simp_all add: has_at_def bufs)
  have small: "\<forall>e \<in> set (blocks es ! b). entry_small e"
    using blocks_nonempty [OF nth_mem [OF True]] assms(1) by (auto simp: entries_ok_def)
  have "raw_slice (direct_reader (decompress_block Z lz)) (tier_index_of t (length (fc_buf t))) lz k (k + length (?ws ! b)) () =
      Some ((), Inr (?ws ! b))"
    using raw_slice_direct [OF hold, of "tier_index_of t (length (fc_buf t))" k "k + length (?ws ! b)"] part by simp
  moreover have "decode_entries (?ws ! b) [] 0 (length (?ws ! b)) [] = Some (map strip_id (blocks es ! b))"
    using decode_entries_encode [of "?ws ! b" 0 "[]" "blocks es ! b" "[]"] small True has_at_self [of "?ws ! b" "[]"] by simp
  moreover have "decode_block t b = Some (map strip_id (blocks es ! b))"
    using k decode_entries_encode [of "concat ?ws" k "[]" "blocks es ! b" "[]"] small True
    by (simp add: decode_block_def bufs cong: option.case_cong)
  ultimately show ?thesis by (simp add: decode_fc_block_def range)
next
  case False
  then have "nth_opt (block_starts t) b = None" using tier_build_bufs [OF assms(2)] by (simp add: nth_opt_def)
  then show ?thesis by (simp add: decode_fc_block_def fc_block_range_def decode_block_def)
qed

lemma search_index_of: "search_index (tier_index_of t n) target lo hi = search_blocks t target lo hi"
proof (induction "hi - lo" arbitrary: lo hi rule: less_induct)
  case less
  show ?case
  proof (cases "lo < hi")
    case True
    let ?mid = "lo + (hi - lo) div 2"
    have "search_index (tier_index_of t n) target (?mid + 1) hi = search_blocks t target (?mid + 1) hi"
      "search_index (tier_index_of t n) target lo ?mid = search_blocks t target lo ?mid"
      using True by (auto intro!: less)
    then show ?thesis
      by (subst search_index.simps, subst search_blocks.simps) (simp add: Let_def cong: if_cong)
  qed (subst search_index.simps, subst search_blocks.simps, simp)
qed

text \<open>Every direct read answers as the owned tier does.\<close>

locale compressed_tier =
  fixes Z :: lz4_api and lz :: lz4_buf_blocks and V :: "'v bit_fields" and t :: "'v compacted_tier" and es hw
  assumes entries: "entries_ok es hw" and built: "tier_build V es hw = Some t"
    and hold: "blocks_hold Z lz (fc_buf t)"
begin

abbreviation rd where
  "rd \<equiv> direct_reader (decompress_block Z lz)"

abbreviation ix where
  "ix \<equiv> tier_index_of t (length (fc_buf t))"

lemma scan_blocks_owned:
  "scan_blocks rd V ix lz target aux rank bs () = map_option (Pair ()) (scan_from V t target aux rank bs)"
proof (induction bs arbitrary: rank)
  case (Cons b bs)
  then show ?case
    by (cases "decode_block t b")
      (simp_all add: decode_fc_block_owned [OF entries built hold] map_option_bind comp_def split: scan_step.split)
qed simp

lemma get_id_owned: "cached_get_id api V rd ix lz x () = map_option (Pair ()) (tier_get_id api V t x)"
  by (simp add: cached_get_id_def tier_get_id_def search_index_of scan_blocks_owned map_option_bind comp_def Let_def)

lemma decode_id_owned: "cached_decode_id api V rd ix lz i () = map_option (Pair ()) (tier_decode_id api V t i)"
  by (auto simp: cached_decode_id_def tier_decode_id_def decode_fc_block_owned [OF entries built hold] map_option_bind
      option.map_comp comp_def split: option.split bind_split)

lemma decode_block_owned:
  "cached_decode_block_for_id api V rd ix lz i () = map_option (Pair ()) (decode_block_for_id api V t i)"
  by (auto simp: cached_decode_block_for_id_def decode_block_for_id_def decode_fc_block_owned [OF entries built hold]
      map_option_bind comp_def Let_def split: option.split bind_split)

end

section \<open>The handle of the compacted tier\<close>

text \<open>
  \<^verbatim>\<open>CompactedTierHandle\<close>: a tier in memory or a compressed one. The state of a compressed tier's cache
  is left out of the handle, whose reads decompress directly; by \<open>block_reader\<close> the answers are the same.
\<close>

datatype 'v tier_handle = Owned "'v compacted_tier" | BlockCached "'v tier_index" lz4_buf_blocks

fun handle_get_id ::
  "'l literal_api \<Rightarrow> 'v bit_fields \<Rightarrow> lz4_api \<Rightarrow> 'v tier_handle \<Rightarrow> 'l rdf_term \<Rightarrow> nat option option" where
  "handle_get_id api V Z (Owned t) x = tier_get_id api V t x"
| "handle_get_id api V Z (BlockCached ix lz) x =
     map_option snd (cached_get_id api V (direct_reader (decompress_block Z lz)) ix lz x ())"

fun handle_decode_id ::
  "'l literal_api \<Rightarrow> 'v bit_fields \<Rightarrow> lz4_api \<Rightarrow> 'v tier_handle \<Rightarrow> nat \<Rightarrow> 'l rdf_term result option option" where
  "handle_decode_id api V Z (Owned t) i = tier_decode_id api V t i"
| "handle_decode_id api V Z (BlockCached ix lz) i =
     map_option snd (cached_decode_id api V (direct_reader (decompress_block Z lz)) ix lz i ())"

fun handle_decode_block_for_id ::
  "'l literal_api \<Rightarrow> 'v bit_fields \<Rightarrow> lz4_api \<Rightarrow> 'v tier_handle \<Rightarrow> nat \<Rightarrow> (nat \<times> 'l rdf_term result) list option option" where
  "handle_decode_block_for_id api V Z (Owned t) i = decode_block_for_id api V t i"
| "handle_decode_block_for_id api V Z (BlockCached ix lz) i =
     map_option snd (cached_decode_block_for_id api V (direct_reader (decompress_block Z lz)) ix lz i ())"

fun handle_is_empty :: "'v tier_handle \<Rightarrow> bool" where
  "handle_is_empty (Owned t) \<longleftrightarrow> encoded_count t = 0"
| "handle_is_empty (BlockCached ix lz) \<longleftrightarrow> ix_encoded_count ix = 0"

lemma handle_get_id_empty: "handle_is_empty h \<Longrightarrow> handle_get_id api V Z h x = Some None"
  by (cases h) (simp_all add: tier_get_id_def cached_get_id_def)

lemma handle_get_id_triple: "\<not> handle_is_empty h \<Longrightarrow> term_sort_key api x = None \<Longrightarrow> handle_get_id api V Z h x = None"
  by (cases h) (simp_all add: tier_get_id_def cached_get_id_def)

context compressed_tier
begin

lemma handle_owned:
  "handle_get_id api V Z (BlockCached ix lz) x = handle_get_id api V Z (Owned t) x"
  "handle_decode_id api V Z (BlockCached ix lz) i = handle_decode_id api V Z (Owned t) i"
  "handle_decode_block_for_id api V Z (BlockCached ix lz) i = handle_decode_block_for_id api V Z (Owned t) i"
  "handle_is_empty (BlockCached ix lz) = handle_is_empty (Owned t)"
  by (simp_all add: get_id_owned decode_id_owned decode_block_owned option.map_comp comp_def option.map_ident)

end

end
