(* ===== verification/QuadStore.thy ===== *)
theory QuadStore
  imports Rdf
begin

text \<open>
  The storage trait of \<^verbatim>\<open>crates/core/nova-core/src/store.rs\<close>: batch operations, the methods the
  trait defines by default, and its contract as the locale \<open>quad_store\<close>, in which the default
  methods are proved correct once for every backend.
\<close>

datatype 'l quad_op = OpInsert "'l quad" | OpRemove "'l quad"

record 'l stored_quad =
  stored_subject :: "'l rdf_term"
  stored_predicate :: "'l rdf_term"
  stored_object :: "'l rdf_term"
  stored_graph :: graph_name

fun subject_term :: "subject \<Rightarrow> 'l rdf_term" where
  "subject_term (SubjNamed n) = NamedNode n"
| "subject_term (SubjBlank b) = BlankNode b"

definition stored_quad_from :: "'l quad \<Rightarrow> 'l stored_quad" where
  "stored_quad_from q =
     \<lparr>stored_subject = subject_term (quad_subject q), stored_predicate = NamedNode (quad_predicate q),
      stored_object = quad_object q, stored_graph = quad_graph q\<rparr>"

section \<open>Default methods\<close>

definition default_is_empty :: "('s \<Rightarrow> nat result) \<Rightarrow> 's \<Rightarrow> bool result" where
  "default_is_empty len_fn s = and_then (len_fn s) (\<lambda>n. Inr (n = 0))"

fun extend_loop ::
  "('s \<Rightarrow> 'l quad \<Rightarrow> ('s, bool) outcome) \<Rightarrow> 's \<Rightarrow> 'l quad list \<Rightarrow> nat \<Rightarrow> ('s, nat) outcome" where
  "extend_loop insert_fn s [] count = Some (s, Inr count)"
| "extend_loop insert_fn s (q # qs) count =
     seq (insert_fn s q) (\<lambda>s fresh. extend_loop insert_fn s qs (if fresh then count + 1 else count))"

definition default_extend_boxed ::
  "('s \<Rightarrow> 'l quad \<Rightarrow> ('s, bool) outcome) \<Rightarrow> 's \<Rightarrow> 'l quad list \<Rightarrow> ('s, nat) outcome" where
  "default_extend_boxed insert_fn s qs = extend_loop insert_fn s qs 0"

fun batch_loop ::
  "('s \<Rightarrow> 'l quad \<Rightarrow> ('s, bool) outcome) \<Rightarrow> ('s \<Rightarrow> 'l quad \<Rightarrow> ('s, bool) outcome) \<Rightarrow> 's \<Rightarrow> 'l quad_op list \<Rightarrow>
   nat \<Rightarrow> nat \<Rightarrow> ('s, nat \<times> nat) outcome" where
  "batch_loop insert_fn remove_fn s [] inserted removed = Some (s, Inr (inserted, removed))"
| "batch_loop insert_fn remove_fn s (OpInsert q # ops) inserted removed =
     seq (insert_fn s q) (\<lambda>s b. batch_loop insert_fn remove_fn s ops (if b then inserted + 1 else inserted) removed)"
| "batch_loop insert_fn remove_fn s (OpRemove q # ops) inserted removed =
     seq (remove_fn s q) (\<lambda>s b. batch_loop insert_fn remove_fn s ops inserted (if b then removed + 1 else removed))"

definition default_apply_batch ::
  "('s \<Rightarrow> 'l quad \<Rightarrow> ('s, bool) outcome) \<Rightarrow> ('s \<Rightarrow> 'l quad \<Rightarrow> ('s, bool) outcome) \<Rightarrow> 's \<Rightarrow> 'l quad_op list \<Rightarrow>
   ('s, nat \<times> nat) outcome" where
  "default_apply_batch insert_fn remove_fn s ops = batch_loop insert_fn remove_fn s ops 0 0"

section \<open>The contract\<close>

text \<open>What operations mean on sets of quads: the resulting set and the numbers of effective operations.\<close>

fun op_set :: "'l quad_op \<Rightarrow> 'l quad set \<Rightarrow> 'l quad set" where
  "op_set (OpInsert q) Q = insert q Q"
| "op_set (OpRemove q) Q = Q - {q}"

fun op_counts :: "'l quad_op list \<Rightarrow> 'l quad set \<Rightarrow> nat \<times> nat" where
  "op_counts [] Q = (0, 0)"
| "op_counts (op # ops) Q =
     (let (i, r) = op_counts ops (op_set op Q) in
      case op of OpInsert q \<Rightarrow> (if q \<in> Q then i else i + 1, r) | OpRemove q \<Rightarrow> (i, if q \<in> Q then r + 1 else r))"

text \<open>
  \<open>quads_of\<close> is the set of quads a store holds; an operation is admissible when the backend has
  the resources for it. An admissible insertion adds the quad and reports whether it was new, a removal
  takes it out and reports whether it was there; admissibility does not depend on other admissible operations.
\<close>

locale quad_store =
  fixes insert_fn :: "'s \<Rightarrow> 'l quad \<Rightarrow> ('s, bool) outcome"
    and remove_fn :: "'s \<Rightarrow> 'l quad \<Rightarrow> ('s, bool) outcome"
    and quads_of :: "'s \<Rightarrow> 'l quad set"
    and admits :: "'l quad_op list \<Rightarrow> 's \<Rightarrow> bool"
  assumes insert_ok: "admits (OpInsert q # ops) s \<Longrightarrow>
      \<exists>s'. insert_fn s q = Some (s', Inr (q \<notin> quads_of s)) \<and> quads_of s' = insert q (quads_of s) \<and> admits ops s'"
    and remove_ok: "admits (OpRemove q # ops) s \<Longrightarrow>
      \<exists>s'. remove_fn s q = Some (s', Inr (q \<in> quads_of s)) \<and> quads_of s' = quads_of s - {q} \<and> admits ops s'"
begin

lemma batch_loop_correct:
  "admits ops s \<Longrightarrow> \<exists>s'. batch_loop insert_fn remove_fn s ops i r =
      Some (s', Inr (i + fst (op_counts ops (quads_of s)), r + snd (op_counts ops (quads_of s)))) \<and>
    quads_of s' = fold op_set ops (quads_of s) \<and> admits [] s'"
proof (induction ops arbitrary: s i r)
  case (Cons op ops)
  show ?case
  proof (cases op)
    case (OpInsert q)
    obtain s1 where s1: "insert_fn s q = Some (s1, Inr (q \<notin> quads_of s))" "quads_of s1 = insert q (quads_of s)"
        "admits ops s1"
      using insert_ok Cons.prems OpInsert by blast
    show ?thesis
      using Cons.IH [OF s1(3), of "if q \<notin> quads_of s then i + 1 else i" r] OpInsert s1
      by (cases "q \<in> quads_of s") (simp_all add: split_beta Let_def)
  next
    case (OpRemove q)
    obtain s1 where s1: "remove_fn s q = Some (s1, Inr (q \<in> quads_of s))" "quads_of s1 = quads_of s - {q}"
        "admits ops s1"
      using remove_ok Cons.prems OpRemove by blast
    show ?thesis
      using Cons.IH [OF s1(3), of i "if q \<in> quads_of s then r + 1 else r"] OpRemove s1
      by (cases "q \<in> quads_of s") (simp_all add: split_beta Let_def)
  qed
qed simp

lemma extend_loop_batch:
  "extend_loop insert_fn s qs n =
   (case batch_loop insert_fn remove_fn s (map OpInsert qs) n r of
      None \<Rightarrow> None | Some (s', Inl e) \<Rightarrow> Some (s', Inl e) | Some (s', Inr (i, r)) \<Rightarrow> Some (s', Inr i))"
proof (induction qs arbitrary: s n)
  case (Cons q qs)
  then show ?case by (cases "insert_fn s q") (auto simp: seq_def split: sum.splits)
qed simp

lemma apply_batch_correct:
  assumes "admits ops s"
  shows "\<exists>s'. default_apply_batch insert_fn remove_fn s ops = Some (s', Inr (op_counts ops (quads_of s))) \<and>
    quads_of s' = fold op_set ops (quads_of s) \<and> admits [] s'"
  using batch_loop_correct [OF assms, of 0 0] by (simp add: default_apply_batch_def)

lemma extend_correct:
  assumes "admits (map OpInsert qs) s"
  shows "\<exists>s'. default_extend_boxed insert_fn s qs = Some (s', Inr (fst (op_counts (map OpInsert qs) (quads_of s)))) \<and>
    quads_of s' = quads_of s \<union> set qs \<and> admits [] s'"
proof -
  have "fold op_set (map OpInsert qs) Q = Q \<union> set qs" for Q by (induction qs arbitrary: Q) auto
  then show ?thesis
    using batch_loop_correct [OF assms, of 0 0]
    by (auto simp: default_extend_boxed_def extend_loop_batch [of _ _ _ 0] split_beta)
qed

end

end
