(* ===== verification/Dict.thy ===== *)
theory Dict
  imports Ids DictCache QuadStore
begin

text \<open>
  The term and graph dictionary of \<^verbatim>\<open>crates/core/nova-core/src/dict.rs\<close>: interning, lookup and
  decoding over the two tiers, compaction, reconstruction and the graph table. The compacted tier
  is read through its handle; \<open>new\<close>, \<open>rebuild\<close> and \<open>compact\<close> install an owned tier. The bounded decode cache of the \<^verbatim>\<open>lru\<close> crate is a parameter with its documented
  behaviour as the locale \<open>lru_cache\<close>. A result \<open>None\<close> in the option monad is a panic.
\<close>

section \<open>State\<close>

text \<open>The third-party operations the dictionary calls.\<close>

record ('l, 'v, 'c) dict_env =
  env_lit :: "'l literal_api"
  env_bits :: "'v bit_fields"
  env_lz4 :: lz4_api
  env_lru :: "(term_id, 'l rdf_term, 'c) lru_api"

record ('l, 'v, 'c) dictionary =
  id_to_term :: "'l rdf_term option list"
  term_to_id :: "'l rdf_term \<rightharpoonup> term_id"
  compacted :: "'v tier_handle"
  decode_cache :: 'c
  graph_to_id :: "graph_name \<rightharpoonup> graph_id"
  id_to_graph :: "u8 \<rightharpoonup> graph_name"
  next_graph_id :: u8
  triple_terms :: "term_id \<rightharpoonup> term_id \<times> term_id \<times> term_id"
  triple_index :: "term_id \<times> term_id \<times> term_id \<rightharpoonup> term_id"

definition DECODE_CACHE_CAPACITY :: nat where
  "DECODE_CACHE_CAPACITY = 100000"

definition dict_new :: "('l, 'v, 'c) dict_env \<Rightarrow> ('l, 'v, 'c) dictionary" where
  "dict_new E =
     \<lparr>id_to_term = [], term_to_id = Map.empty, compacted = Owned (tier_empty (env_bits E)),
      decode_cache = lru_new (env_lru E) DECODE_CACHE_CAPACITY,
      graph_to_id = [DefaultGraph \<mapsto> GRAPH_DEFAULT], id_to_graph = [0 \<mapsto> DefaultGraph],
      next_graph_id = 1, triple_terms = Map.empty, triple_index = Map.empty\<rparr>"

definition dict_len :: "('l, 'v, 'c) dictionary \<Rightarrow> nat" where
  "dict_len d = length (id_to_term d)"

definition dict_is_empty :: "('l, 'v, 'c) dictionary \<Rightarrow> bool" where
  "dict_is_empty d \<longleftrightarrow> id_to_term d = []"

section \<open>Terms\<close>

text \<open>The nesting of quoted triples, which bounds the recursion of \<open>intern\<close>.\<close>

fun nesting :: "'l rdf_term \<Rightarrow> nat" where
  "nesting (Triple s p ob) = Suc (nesting ob)"
| "nesting _ = 0"

lemma nesting_subject_term [simp]: "nesting (subject_term s) = 0"
  by (cases s) auto

text \<open>Appending a new term to the delta tier.\<close>

definition append_term :: "('l, 'v, 'c) dictionary \<Rightarrow> 'l rdf_term \<Rightarrow> (('l, 'v, 'c) dictionary, term_id) outcome" where
  "append_term d term =
     (case term_id_new (of_nat (length (id_to_term d))) of
        Inl e \<Rightarrow> Some (d, Inl e)
      | Inr i \<Rightarrow> Some (d\<lparr>id_to_term := id_to_term d @ [Some term],
                          term_to_id := (term_to_id d)(term \<mapsto> i)\<rparr>, Inr i))"

function dict_intern ::
  "('l, 'v, 'c) dict_env \<Rightarrow> ('l, 'v, 'c) dictionary \<Rightarrow> 'l rdf_term \<Rightarrow> (('l, 'v, 'c) dictionary, term_id) outcome" where
  "dict_intern E d term =
     (case term_to_id d term of
        Some i \<Rightarrow> Some (d, Inr i)
      | None \<Rightarrow>
          (case term of
             Triple s p ob \<Rightarrow>
               seq (dict_intern E d (subject_term s)) (\<lambda>d s_id.
               seq (dict_intern E d (NamedNode p)) (\<lambda>d p_id.
               seq (dict_intern E d ob) (\<lambda>d o_id.
                 let components = (s_id, p_id, o_id) in
                 case term_to_id d term of
                   Some i \<Rightarrow> Some (d, Inr i)
                 | None \<Rightarrow>
                     seq (append_term d term) (\<lambda>d i.
                       Some (d\<lparr>triple_terms := (triple_terms d)(i \<mapsto> components),
                               triple_index := (triple_index d)(components \<mapsto> i)\<rparr>, Inr i)))))
           | _ \<Rightarrow>
               do {found \<leftarrow> handle_get_id (env_lit E) (env_bits E) (env_lz4 E) (compacted d) term;
                   case found of
                     Some raw \<Rightarrow> Some (d, term_id_new (of_nat raw))
                   | None \<Rightarrow> append_term d term}))"
  by pat_completeness auto
termination by (relation "measure (\<lambda>(E, d, t). nesting t)") auto

declare dict_intern.simps [simp del]

definition dict_get_id ::
  "('l, 'v, 'c) dict_env \<Rightarrow> ('l, 'v, 'c) dictionary \<Rightarrow> 'l rdf_term \<Rightarrow> term_id option option" where
  "dict_get_id E d term =
     (case term_to_id d term of
        Some i \<Rightarrow> Some (Some i)
      | None \<Rightarrow>
          do {found \<leftarrow> handle_get_id (env_lit E) (env_bits E) (env_lz4 E) (compacted d) term;
              Some (case found of
                      None \<Rightarrow> None
                    | Some raw \<Rightarrow> (case term_id_new (of_nat raw) of Inl _ \<Rightarrow> None | Inr i \<Rightarrow> Some i))})"

text \<open>The loop that fills the cache from a decoded block and picks out the wanted term.\<close>

fun cache_block ::
  "(term_id, 'l rdf_term, 'c) lru_api \<Rightarrow> term_id \<Rightarrow> (nat \<times> 'l rdf_term result) list \<Rightarrow> 'l rdf_term option \<Rightarrow> 'c \<Rightarrow>
   'l rdf_term option \<times> 'c" where
  "cache_block L wanted_id [] wanted c = (wanted, c)"
| "cache_block L wanted_id ((orig_id, Inl _) # es) wanted c = cache_block L wanted_id es wanted c"
| "cache_block L wanted_id ((orig_id, Inr term) # es) wanted c =
     (let tid = TermId (of_nat orig_id) in
      cache_block L wanted_id es (if tid = wanted_id then Some term else wanted) (lru_put L c tid term))"

definition get_term_arc ::
  "('l, 'v, 'c) dict_env \<Rightarrow> ('l, 'v, 'c) dictionary \<Rightarrow> term_id \<Rightarrow>
   ('l rdf_term option \<times> ('l, 'v, 'c) dictionary) option" where
  "get_term_arc E d i =
     (case nth_opt (id_to_term d) (unat (as_u64 i)) of
        None \<Rightarrow> Some (None, d)
      | Some (Some term) \<Rightarrow> Some (Some term, d)
      | Some None \<Rightarrow>
          (case lru_get (env_lru E) (decode_cache d) i of
             (Some term, c) \<Rightarrow> Some (Some term, d\<lparr>decode_cache := c\<rparr>)
           | (None, c) \<Rightarrow>
               do {block \<leftarrow> handle_decode_block_for_id (env_lit E) (env_bits E) (env_lz4 E) (compacted d) (unat (as_u64 i));
                   case block of
                     None \<Rightarrow> Some (None, d\<lparr>decode_cache := c\<rparr>)
                   | Some es \<Rightarrow>
                       (case cache_block (env_lru E) i es None c of
                          (wanted, c) \<Rightarrow> Some (wanted, d\<lparr>decode_cache := c\<rparr>))}))"

definition triple_components :: "('l, 'v, 'c) dictionary \<Rightarrow> term_id \<Rightarrow> (term_id \<times> term_id \<times> term_id) option" where
  "triple_components d i = triple_terms d i"

definition lookup_triple :: "('l, 'v, 'c) dictionary \<Rightarrow> term_id \<times> term_id \<times> term_id \<Rightarrow> term_id option" where
  "lookup_triple d components = triple_index d components"

definition intern_subject ::
  "('l, 'v, 'c) dict_env \<Rightarrow> ('l, 'v, 'c) dictionary \<Rightarrow> subject \<Rightarrow> (('l, 'v, 'c) dictionary, term_id) outcome" where
  "intern_subject E d s = dict_intern E d (subject_term s)"

definition intern_predicate ::
  "('l, 'v, 'c) dict_env \<Rightarrow> ('l, 'v, 'c) dictionary \<Rightarrow> rstring \<Rightarrow> (('l, 'v, 'c) dictionary, term_id) outcome" where
  "intern_predicate E d p = dict_intern E d (NamedNode p)"

section \<open>Graphs\<close>

definition intern_graph :: "('l, 'v, 'c) dictionary \<Rightarrow> graph_name \<Rightarrow> ('l, 'v, 'c) dictionary \<times> graph_id result" where
  "intern_graph d g =
     (case graph_to_id d g of
        Some i \<Rightarrow> (d, Inr i)
      | None \<Rightarrow>
          if g = DefaultGraph then
            (d\<lparr>graph_to_id := (graph_to_id d)(g \<mapsto> GRAPH_DEFAULT), id_to_graph := (id_to_graph d)(0 \<mapsto> g)\<rparr>,
             Inr GRAPH_DEFAULT)
          else if next_graph_id d = 0 then (d, Inl GraphSpaceExhausted)
          else
            let i = GraphId (next_graph_id d) in
            (d\<lparr>next_graph_id := (if next_graph_id d = - 1 then 0 else next_graph_id d + 1),
               graph_to_id := (graph_to_id d)(g \<mapsto> i), id_to_graph := (id_to_graph d)(as_u8 i \<mapsto> g)\<rparr>,
             Inr i))"

definition get_graph_id :: "('l, 'v, 'c) dictionary \<Rightarrow> graph_name \<Rightarrow> graph_id option" where
  "get_graph_id d g = graph_to_id d g"

definition get_graph :: "('l, 'v, 'c) dictionary \<Rightarrow> graph_id \<Rightarrow> graph_name option" where
  "get_graph d i = id_to_graph d (as_u8 i)"

definition next_graph_id_raw :: "('l, 'v, 'c) dictionary \<Rightarrow> u8" where
  "next_graph_id_raw d = next_graph_id d"

section \<open>Compaction and reconstruction\<close>

text \<open>One iteration of \<open>terms_in_order\<close>; the failed expectations panic.\<close>

definition term_at ::
  "('l, 'v, 'c) dict_env \<Rightarrow> ('l, 'v, 'c) dictionary \<Rightarrow> nat \<Rightarrow> 'l rdf_term option" where
  "term_at E d raw_id =
     do {slot \<leftarrow> nth_opt (id_to_term d) raw_id;
         case slot of
           Some term \<Rightarrow> Some term
         | None \<Rightarrow>
             do {res \<leftarrow> handle_decode_id (env_lit E) (env_bits E) (env_lz4 E) (compacted d) raw_id;
                 case res of Some (Inr term) \<Rightarrow> Some term | _ \<Rightarrow> None}}"

definition terms_in_order ::
  "('l, 'v, 'c) dict_env \<Rightarrow> ('l, 'v, 'c) dictionary \<Rightarrow> 'l rdf_term list option" where
  "terms_in_order E d = those (map (term_at E d) [0..<length (id_to_term d)])"

text \<open>The first loop of \<open>compact\<close>: the entries of all terms but quoted triples.\<close>

fun collect_entries ::
  "('l, 'v, 'c) dict_env \<Rightarrow> ('l, 'v, 'c) dictionary \<Rightarrow> nat list \<Rightarrow> fc_entry list \<Rightarrow> fc_entry list result option" where
  "collect_entries E d [] entries = Some (Inr entries)"
| "collect_entries E d (raw_id # ids) entries =
     (if triple_terms d (TermId (of_nat raw_id)) \<noteq> None then collect_entries E d ids entries
      else do {
        slot \<leftarrow> nth_opt (id_to_term d) raw_id;
        term \<leftarrow> (case slot of
                   Some term \<Rightarrow> Some (Some (Inr term))
                 | None \<Rightarrow> handle_decode_id (env_lit E) (env_bits E) (env_lz4 E) (compacted d) raw_id);
        case term of
          None \<Rightarrow> collect_entries E d ids entries
        | Some (Inl e) \<Rightarrow> Some (Inl e)
        | Some (Inr term) \<Rightarrow>
            do {(tag, primary) \<leftarrow> term_sort_key (env_lit E) term;
                aux \<leftarrow> term_aux_bytes (env_lit E) term;
                collect_entries E d ids (entries @ [(tag, primary, aux, raw_id)])}})"

text \<open>The second loop: free the delta-tier storage of every term that is not a quoted triple.\<close>

fun free_terms :: "('l, 'v, 'c) dictionary \<Rightarrow> nat list \<Rightarrow> ('l, 'v, 'c) dictionary option" where
  "free_terms d [] = Some d"
| "free_terms d (raw_id # ids) =
     (if triple_terms d (TermId (of_nat raw_id)) \<noteq> None then free_terms d ids
      else do {
        slot \<leftarrow> nth_opt (id_to_term d) raw_id;
        case slot of
          None \<Rightarrow> free_terms d ids
        | Some term \<Rightarrow>
            free_terms (d\<lparr>id_to_term := (id_to_term d)[raw_id := None],
                          term_to_id := (term_to_id d)(term := None)\<rparr>) ids})"

definition dict_compact ::
  "('l, 'v, 'c) dict_env \<Rightarrow> ('l, 'v, 'c) dictionary \<Rightarrow> (('l, 'v, 'c) dictionary, unit) outcome" where
  "dict_compact E d =
     (let hw = length (id_to_term d) in
      do {entries \<leftarrow> collect_entries E d [0..<hw] [];
          case entries of
            Inl e \<Rightarrow> Some (d, Inl e)
          | Inr entries \<Rightarrow>
              do {new_compacted \<leftarrow> tier_build (env_bits E) (sort_key (\<lambda>(t, p, a, i). (t, p)) entries) hw;
                  d \<leftarrow> free_terms d [0..<hw];
                  Some (d\<lparr>compacted := Owned new_compacted,
                          decode_cache := lru_clear (env_lru E) (decode_cache d)\<rparr>, Inr ())}})"

text \<open>The term loop of \<open>rebuild\<close>.\<close>

fun rebuild_terms ::
  "('l, 'v, 'c) dictionary \<Rightarrow> nat \<Rightarrow> 'l rdf_term list \<Rightarrow> (('l, 'v, 'c) dictionary, unit) outcome" where
  "rebuild_terms d raw_id [] = Some (d, Inr ())"
| "rebuild_terms d raw_id (term # terms) =
     (case term_id_new (of_nat raw_id) of
        Inl e \<Rightarrow> Some (d, Inl e)
      | Inr i \<Rightarrow>
          do {d \<leftarrow> (case term of
                  Triple s p ob \<Rightarrow>
                    do {s_id \<leftarrow> term_to_id d (subject_term s);
                        p_id \<leftarrow> term_to_id d (NamedNode p);
                        o_id \<leftarrow> term_to_id d ob;
                        Some (d\<lparr>triple_terms := (triple_terms d)(i \<mapsto> (s_id, p_id, o_id)),
                                triple_index := (triple_index d)((s_id, p_id, o_id) \<mapsto> i)\<rparr>)}
                | _ \<Rightarrow> Some d);
              rebuild_terms (d\<lparr>id_to_term := id_to_term d @ [Some term],
                               term_to_id := (term_to_id d)(term \<mapsto> i)\<rparr>) (Suc raw_id) terms})"

definition or_insert :: "('k \<rightharpoonup> 'v) \<Rightarrow> 'k \<Rightarrow> 'v \<Rightarrow> ('k \<rightharpoonup> 'v)" where
  "or_insert m k v = (case m k of None \<Rightarrow> m(k \<mapsto> v) | Some _ \<Rightarrow> m)"

definition dict_rebuild ::
  "('l, 'v, 'c) dict_env \<Rightarrow> 'l rdf_term list \<Rightarrow> (u8 \<times> graph_name) list \<Rightarrow> u8 \<Rightarrow>
   ('l, 'v, 'c) dictionary result option" where
  "dict_rebuild E terms graphs ngid =
     (let d = \<lparr>id_to_term = [], term_to_id = Map.empty, compacted = Owned (tier_empty (env_bits E)),
               decode_cache = lru_new (env_lru E) DECODE_CACHE_CAPACITY,
               graph_to_id = Map.empty, id_to_graph = Map.empty, next_graph_id = ngid,
               triple_terms = Map.empty, triple_index = Map.empty\<rparr>
      in do {
        (d, res) \<leftarrow> rebuild_terms d 0 terms;
        case res of
          Inl e \<Rightarrow> Some (Inl e)
        | Inr _ \<Rightarrow>
            let d = fold (\<lambda>(raw, g) d. d\<lparr>graph_to_id := (graph_to_id d)(g \<mapsto> GraphId raw),
                                          id_to_graph := (id_to_graph d)(raw \<mapsto> g)\<rparr>) graphs d
            in Some (Inr (d\<lparr>graph_to_id := or_insert (graph_to_id d) DefaultGraph GRAPH_DEFAULT,
                            id_to_graph := or_insert (id_to_graph d) 0 DefaultGraph\<rparr>))})"

section \<open>Decoding through the cache\<close>

lemma cache_block_contents:
  assumes lru: "lru_cache L contents" and "\<And>j x. contents c j = Some x \<Longrightarrow> P j x"
    and "\<And>j x. (j, Inr x) \<in> set es \<Longrightarrow> P (TermId (of_nat j)) x"
    and "cache_block L i es w c = (w', c')" "contents c' j = Some x"
  shows "P j x"
  using assms(2-)
proof (induction es arbitrary: w c)
  case (Cons e es)
  obtain k res where e: "e = (k, res)" by (cases e)
  show ?case
  proof (cases res)
    case (Inl err)
    then show ?thesis using Cons e by auto
  next
    case (Inr y)
    have "P j x" if "contents (lru_put L c (TermId (of_nat k)) y) j = Some x" for j x
      using lru_cache.contents_put_cases [OF lru that] Cons.prems(1,2) e Inr by auto
    then show ?thesis
      using Cons.IH [of "lru_put L c (TermId (of_nat k)) y"] Cons.prems e Inr by (auto simp: Let_def)
  qed
qed auto

text \<open>The wanted entry of a block is the last one under its identifier.\<close>

lemma cache_block_wanted:
  assumes "\<And>j x. (j, Inr x) \<in> set es \<Longrightarrow> TermId (of_nat j) = i \<Longrightarrow> x = y"
    and "(k, Inr y) \<in> set es \<or> w = Some y" "TermId (of_nat k) = i"
  shows "fst (cache_block L i es w c) = Some y"
  using assms
proof (induction es arbitrary: w c)
  case (Cons e es)
  obtain j res where e: "e = (j, res)" by (cases e)
  then show ?case
    using Cons by (cases res) (auto simp: Let_def)
qed auto

section \<open>The abstract dictionary\<close>

text \<open>
  A dictionary stands for the list of its terms: the term under identifier \<open>k\<close> is the \<open>k\<close>-th.
\<close>

definition tid :: "nat \<Rightarrow> term_id" where
  "tid k = TermId (of_nat k)"

definition holds_at :: "'a list \<Rightarrow> 'a \<Rightarrow> term_id \<Rightarrow> bool" where
  "holds_at ts x i \<longleftrightarrow> (\<exists>k < length ts. i = tid k \<and> ts ! k = x)"

lemma unat_tid: "k \<le> 2 ^ 40 \<Longrightarrow> unat (as_u64 (tid k)) = k"
  by (simp add: tid_def unat_of_nat_u64)

lemma tid_inj: "j \<le> 2 ^ 40 \<Longrightarrow> k \<le> 2 ^ 40 \<Longrightarrow> tid j = tid k \<longleftrightarrow> j = k"
  using unat_tid by metis

lemma term_id_new_tid:
  assumes "k \<le> 2 ^ 40"
  shows "term_id_new (of_nat k) = (if k < 2 ^ 40 then Inr (tid k) else Inl IdSpaceExhausted)"
proof -
  have "unat (of_nat k :: u64) = k" using assms by (intro unat_of_nat_u64) simp
  then show ?thesis
    by (auto simp: term_id_new_def tid_def word_less_nat_alt unat_MAX_TERM_ID)
qed

lemma append_term_tid:
  "length (id_to_term d) \<le> 2 ^ 40 \<Longrightarrow> append_term d x =
     (if length (id_to_term d) < 2 ^ 40
      then Some (d\<lparr>id_to_term := id_to_term d @ [Some x],
                    term_to_id := (term_to_id d)(x \<mapsto> tid (length (id_to_term d)))\<rparr>, Inr (tid (length (id_to_term d))))
      else Some (d, Inl IdSpaceExhausted))"
  unfolding append_term_def by (simp add: term_id_new_tid)

lemma holds_at_append: "holds_at (ts @ [x]) y i \<longleftrightarrow> holds_at ts y i \<or> y = x \<and> i = tid (length ts)"
  by (simp add: holds_at_def Ex_less_Suc nth_append cong: conj_cong) metis

lemma holds_at_mem: "holds_at ts x i \<Longrightarrow> x \<in> set ts"
  by (auto simp: holds_at_def)

lemma mem_holds_at: "x \<in> set ts \<Longrightarrow> \<exists>i. holds_at ts x i"
  by (auto simp: holds_at_def in_set_conv_nth)

lemma holds_at_unique: "distinct ts \<Longrightarrow> holds_at ts x i \<Longrightarrow> holds_at ts x j \<Longrightarrow> i = j"
  by (auto simp: holds_at_def nth_eq_iff_index_eq)

lemma holds_at_tid:
  assumes "length ts \<le> 2 ^ 40" "k < length ts"
  shows "holds_at ts x (tid k) \<longleftrightarrow> ts ! k = x"
proof -
  have "tid k = tid j \<longleftrightarrow> k = j" if "j < length ts" for j
    using assms that by (intro tid_inj) linarith+
  then show ?thesis unfolding holds_at_def using assms(2) by blast
qed

lemma holds_at_fun:
  assumes "length ts \<le> 2 ^ 40" "holds_at ts x i" "holds_at ts y i"
  shows "x = y"
proof -
  obtain k where "k < length ts" "i = tid k" "ts ! k = x" using assms(2) unfolding holds_at_def by blast
  then show ?thesis using holds_at_tid [OF assms(1)] assms(3) by blast
qed

fun is_triple :: "'l rdf_term \<Rightarrow> bool" where
  "is_triple (Triple _ _ _) \<longleftrightarrow> True"
| "is_triple _ \<longleftrightarrow> False"

text \<open>Terms that Rust can represent: their strings are UTF-8 and no longer than a 64-bit length.\<close>

fun term_ok :: "'l literal_api \<Rightarrow> 'l rdf_term \<Rightarrow> bool" where
  "term_ok api (Triple s p ob) \<longleftrightarrow> flat_term api (subject_term s) \<and> flat_term api (NamedNode p) \<and> term_ok api ob"
| "term_ok api x \<longleftrightarrow> flat_term api x"

lemma term_ok_flat: "\<not> is_triple x \<Longrightarrow> term_ok api x \<longleftrightarrow> flat_term api x"
  by (cases x) auto

lemma flat_not_triple: "flat_term api x \<Longrightarrow> \<not> is_triple x"
  by (cases x) auto

lemma not_triple_subject [simp]: "\<not> is_triple (subject_term s)"
  by (cases s) auto

lemma subject_term_inj: "subject_term s = subject_term s' \<longleftrightarrow> s = s'"
  by (cases s; cases s') auto

text \<open>The terms that interning a term adds, components first, and the abstract operation.\<close>

fun subterms :: "'l rdf_term \<Rightarrow> 'l rdf_term list" where
  "subterms (Triple s p ob) = subject_term s # NamedNode p # subterms ob @ [Triple s p ob]"
| "subterms x = [x]"

definition add_term :: "'a \<Rightarrow> 'a list \<Rightarrow> 'a list" where
  "add_term x ts = (if x \<in> set ts then ts else ts @ [x])"

definition intern_spec :: "'l rdf_term list \<Rightarrow> 'l rdf_term \<Rightarrow> 'l rdf_term list" where
  "intern_spec ts x = fold add_term (subterms x) ts"

lemma subterms_flat: "\<not> is_triple x \<Longrightarrow> subterms x = [x]"
  by (cases x) auto

lemma intern_spec_flat: "\<not> is_triple x \<Longrightarrow> intern_spec ts x = add_term x ts"
  by (simp add: intern_spec_def subterms_flat)

lemma intern_spec_triple:
  "intern_spec ts (Triple s p ob) =
   add_term (Triple s p ob) (intern_spec (add_term (NamedNode p) (add_term (subject_term s) ts)) ob)"
  by (simp add: intern_spec_def)

lemma fold_add_term_extends: "\<exists>us. fold add_term xs ts = ts @ us"
proof (induction xs arbitrary: ts)
  case (Cons x xs)
  obtain us where "fold add_term xs (add_term x ts) = add_term x ts @ us" using Cons by blast
  moreover have "\<exists>vs. add_term x ts = ts @ vs" by (simp add: add_term_def)
  ultimately show ?case by auto
qed simp

lemma intern_spec_extends: "\<exists>us. intern_spec ts x = ts @ us"
  unfolding intern_spec_def by (rule fold_add_term_extends)

lemma length_intern_spec: "length ts \<le> length (intern_spec ts x)"
  using intern_spec_extends [of ts x] by auto

lemma length_add_term: "length ts \<le> length (add_term x ts)"
  by (simp add: add_term_def)

lemma fold_add_term_known: "set xs \<subseteq> set ts \<Longrightarrow> fold add_term xs ts = ts"
  by (induction xs) (auto simp: add_term_def)

lemma holds_at_extends: "holds_at ts x i \<Longrightarrow> holds_at (ts @ us) x i"
  by (force simp: holds_at_def nth_append)

text \<open>A term list is well formed: in range, without repetition, components before their triples.\<close>

definition triple_at :: "'l rdf_term list \<Rightarrow> 'l rdf_term \<Rightarrow> term_id \<times> term_id \<times> term_id \<Rightarrow> bool" where
  "triple_at ts x c \<longleftrightarrow> (\<exists>s p ob. x = Triple s p ob \<and> holds_at ts (subject_term s) (fst c) \<and>
     holds_at ts (NamedNode p) (fst (snd c)) \<and> holds_at ts ob (snd (snd c)))"

definition terms_ok :: "'l literal_api \<Rightarrow> 'l rdf_term list \<Rightarrow> bool" where
  "terms_ok api ts \<longleftrightarrow> length ts \<le> 2 ^ 40 \<and> distinct ts \<and> (\<forall>x \<in> set ts. term_ok api x) \<and>
     (\<forall>k < length ts. is_triple (ts ! k) \<longrightarrow> (\<exists>c. triple_at (take k ts) (ts ! k) c))"

text \<open>The compacted tier holds exactly the freed terms and gives no other answer.\<close>

definition tier_ok ::
  "'l literal_api \<Rightarrow> 'v bit_fields \<Rightarrow> lz4_api \<Rightarrow> 'l rdf_term list \<Rightarrow> 'l rdf_term option list \<Rightarrow> 'v tier_handle \<Rightarrow> bool" where
  "tier_ok api V Z ts slots t \<longleftrightarrow>
     (\<forall>x. flat_term api x \<longrightarrow> (\<exists>r. handle_get_id api V Z t x = Some r \<and>
        (\<forall>k. r = Some k \<longleftrightarrow> k < length ts \<and> slots ! k = None \<and> ts ! k = x))) \<and>
     (handle_is_empty t \<longleftrightarrow> None \<notin> set slots) \<and>
     (\<forall>k < length ts. slots ! k = None \<longrightarrow>
        handle_decode_id api V Z t k = Some (Some (Inr (ts ! k))) \<and>
        (\<exists>out. handle_decode_block_for_id api V Z t k = Some (Some out) \<and> (k, Inr (ts ! k)) \<in> set out \<and>
           (\<forall>e \<in> set out. fst e < length ts \<and> snd e = Inr (ts ! fst e))))"

lemma tier_ok_lookup:
  "tier_ok api V Z ts slots t \<Longrightarrow> flat_term api x \<Longrightarrow> \<exists>r. handle_get_id api V Z t x = Some r \<and>
     (\<forall>k. r = Some k \<longleftrightarrow> k < length ts \<and> slots ! k = None \<and> ts ! k = x)"
  by (simp add: tier_ok_def)

lemma tier_ok_decode:
  assumes "tier_ok api V Z ts slots t" "k < length ts" "slots ! k = None"
  shows "handle_decode_id api V Z t k = Some (Some (Inr (ts ! k)))"
    and "\<exists>out. handle_decode_block_for_id api V Z t k = Some (Some out) \<and> (k, Inr (ts ! k)) \<in> set out \<and>
      (\<forall>e \<in> set out. fst e < length ts \<and> snd e = Inr (ts ! fst e))"
  using assms by (simp_all add: tier_ok_def)

text \<open>The quoted-triple tables hold the components of every quoted triple, both ways.\<close>

definition triples_ok :: "'l rdf_term list \<Rightarrow> ('l, 'v, 'c) dictionary \<Rightarrow> bool" where
  "triples_ok ts d \<longleftrightarrow>
     (\<forall>i c. triple_terms d i = Some c \<longleftrightarrow> (\<exists>x. holds_at ts x i \<and> triple_at ts x c)) \<and>
     (\<forall>i c. triple_index d c = Some i \<longleftrightarrow> triple_terms d i = Some c)"

definition dict_rep ::
  "('l, 'v, 'c) dict_env \<Rightarrow> ('c \<Rightarrow> term_id \<rightharpoonup> 'l rdf_term) \<Rightarrow> 'l rdf_term list \<Rightarrow> ('l, 'v, 'c) dictionary \<Rightarrow> bool" where
  "dict_rep E contents ts d \<longleftrightarrow>
     terms_ok (env_lit E) ts \<and> length (id_to_term d) = length ts \<and>
     (\<forall>k < length ts. id_to_term d ! k = Some (ts ! k) \<or> id_to_term d ! k = None \<and> \<not> is_triple (ts ! k)) \<and>
     (\<forall>x i. term_to_id d x = Some i \<longleftrightarrow> holds_at (id_to_term d) (Some x) i) \<and>
     tier_ok (env_lit E) (env_bits E) (env_lz4 E) ts (id_to_term d) (compacted d) \<and> triples_ok ts d \<and>
     (\<forall>i x. contents (decode_cache d) i = Some x \<longrightarrow> holds_at ts x i)"

section \<open>Interning refines the abstract operation\<close>

lemma terms_ok_closed:
  assumes "terms_ok api ts" "Triple s p ob \<in> set ts"
  shows "subject_term s \<in> set ts" "NamedNode p \<in> set ts" "ob \<in> set ts"
proof -
  obtain k where k: "k < length ts" "ts ! k = Triple s p ob" using assms(2) by (auto simp: in_set_conv_nth)
  then obtain c where "triple_at (take k ts) (Triple s p ob) c"
    using assms(1) unfolding terms_ok_def by (metis is_triple.simps(1))
  then have "{subject_term s, NamedNode p, ob} \<subseteq> set (take k ts)"
    by (auto simp: triple_at_def dest: holds_at_mem)
  then show "subject_term s \<in> set ts" "NamedNode p \<in> set ts" "ob \<in> set ts"
    by (auto dest: in_set_takeD)
qed

lemma triple_at_append:
  assumes "terms_ok api ts" "y \<in> set ts" "x \<notin> set ts"
  shows "triple_at (ts @ [x]) y c \<longleftrightarrow> triple_at ts y c"
proof (cases y)
  case (Triple s p ob)
  then have "subject_term s \<noteq> x" "NamedNode p \<noteq> x" "ob \<noteq> x"
    using terms_ok_closed [OF assms(1)] assms(2,3) by auto
  then show ?thesis using Triple by (simp add: triple_at_def holds_at_append)
qed (simp_all add: triple_at_def)

lemma triple_at_append_self:
  assumes "triple_at ts x c" "x \<notin> set ts"
  shows "triple_at (ts @ [x]) x c' \<longleftrightarrow> triple_at ts x c'"
proof -
  obtain s p ob where x: "x = Triple s p ob" using assms(1) by (auto simp: triple_at_def)
  then have "ob \<noteq> x" "subject_term s \<noteq> x" using assms by (auto simp: triple_at_def dest: holds_at_mem)
  then show ?thesis using x by (simp add: triple_at_def holds_at_append)
qed

lemma triple_at_det:
  assumes "terms_ok api ts" "triple_at ts x c" "triple_at ts x c'"
  shows "c = c'"
  using assms holds_at_unique unfolding terms_ok_def triple_at_def
  by (cases c; cases c') fastforce

lemma triple_at_inj:
  assumes "terms_ok api ts" "triple_at ts x c" "triple_at ts y c"
  shows "x = y"
proof -
  have len: "length ts \<le> 2 ^ 40" using assms(1) by (simp add: terms_ok_def)
  obtain s p ob where x: "x = Triple s p ob" "holds_at ts (subject_term s) (fst c)"
      "holds_at ts (NamedNode p) (fst (snd c))" "holds_at ts ob (snd (snd c))"
    using assms(2) unfolding triple_at_def by blast
  obtain s' p' ob' where y: "y = Triple s' p' ob'" "holds_at ts (subject_term s') (fst c)"
      "holds_at ts (NamedNode p') (fst (snd c))" "holds_at ts ob' (snd (snd c))"
    using assms(3) unfolding triple_at_def by blast
  show ?thesis
    using x(1) y(1) holds_at_fun [OF len x(2) y(2)] holds_at_fun [OF len x(3) y(3)] holds_at_fun [OF len x(4) y(4)]
    by (simp add: subject_term_inj)
qed

lemma terms_ok_append:
  assumes "terms_ok api ts" "length ts < 2 ^ 40" "x \<notin> set ts" "term_ok api x"
    and "is_triple x \<Longrightarrow> \<exists>c. triple_at ts x c"
  shows "terms_ok api (ts @ [x])"
  using assms by (auto simp: terms_ok_def less_Suc_eq nth_append)

lemma terms_ok_flat:
  assumes "\<forall>x \<in> set ts. flat_term api x" "distinct ts" "length ts \<le> 2 ^ 40"
  shows "terms_ok api ts"
proof -
  have "\<not> is_triple (ts ! k)" if "k < length ts" for k using assms(1) that by (meson flat_not_triple nth_mem)
  moreover have "term_ok api x" if "x \<in> set ts" for x using assms(1) that by (cases x) auto
  ultimately show ?thesis using assms(2,3) by (simp add: terms_ok_def)
qed

lemma triples_ok_append:
  assumes "terms_ok api ts" "x \<notin> set ts" "\<not> is_triple x"
    and "triple_terms d' = triple_terms d" "triple_index d' = triple_index d" "triples_ok ts d"
  shows "triples_ok (ts @ [x]) d'"
proof -
  have "\<not> triple_at us x c" for us c using assms(3) by (auto simp: triple_at_def)
  then have "(\<exists>y. holds_at (ts @ [x]) y i \<and> triple_at (ts @ [x]) y c) \<longleftrightarrow>
      (\<exists>y. holds_at ts y i \<and> triple_at ts y c)" for i c
    using triple_at_append [OF assms(1) holds_at_mem assms(2)] unfolding holds_at_append by blast
  then show ?thesis using assms by (simp add: triples_ok_def)
qed

lemma tid_fresh: "length ts \<le> 2 ^ 40 \<Longrightarrow> \<not> holds_at ts x (tid (length ts))"
  unfolding holds_at_def by (metis le_trans less_imp_le_nat nat_less_le tid_inj)

lemma triples_ok_append_triple:
  assumes ok: "terms_ok api ts" and "x \<notin> set ts" "triple_at ts x c"
    and "triple_terms d' = (triple_terms d)(tid (length ts) \<mapsto> c)"
    and "triple_index d' = (triple_index d)(c \<mapsto> tid (length ts))" and old: "triples_ok ts d"
  shows "triples_ok (ts @ [x]) d'"
proof -
  have len: "length ts \<le> 2 ^ 40" using ok by (simp add: terms_ok_def)
  have self: "triple_at (ts @ [x]) x c' \<longleftrightarrow> c' = c" for c'
    using triple_at_append_self [OF assms(3,2)] triple_at_det [OF ok assms(3)] assms(3) by blast
  have fresh: "triple_terms d (tid (length ts)) = None"
    using old tid_fresh [OF len] unfolding triples_ok_def by (metis not_None_eq)
  have "triple_terms d i \<noteq> Some c" for i
    using old holds_at_mem triple_at_inj [OF ok assms(3)] assms(2) unfolding triples_ok_def by metis
  then have new: "triple_index d c = None" using old unfolding triples_ok_def by (metis not_None_eq)
  have "(\<exists>y. holds_at (ts @ [x]) y i \<and> triple_at (ts @ [x]) y c') \<longleftrightarrow>
      (\<exists>y. holds_at ts y i \<and> triple_at ts y c') \<or> i = tid (length ts) \<and> c' = c" for i c'
    using triple_at_append [OF ok holds_at_mem assms(2)] self unfolding holds_at_append by blast
  moreover have "triple_terms d' i = Some c' \<longleftrightarrow> triple_terms d i = Some c' \<or> i = tid (length ts) \<and> c' = c" for i c'
    using fresh assms(4) by auto
  moreover have "triple_index d' c' = Some i \<longleftrightarrow> triple_index d c' = Some i \<or> i = tid (length ts) \<and> c' = c" for i c'
    using new assms(5) by auto
  ultimately show ?thesis using old unfolding triples_ok_def by presburger
qed

text \<open>The environment of a dictionary, with the laws of the third-party code it calls.\<close>

locale dict_context =
  fixes E :: "('l, 'v, 'c) dict_env" and contents :: "'c \<Rightarrow> term_id \<rightharpoonup> 'l rdf_term"
  assumes laws: "literal_laws (env_lit E)"
    and bits: "bit_field_vec (env_bits E)"
    and lru: "lru_cache (env_lru E) contents"
begin

lemma rep_new: "dict_rep E contents [] (dict_new E)"
  using lru_cache.contents_new [OF lru]
  by (simp add: dict_rep_def dict_new_def terms_ok_def tier_ok_def triples_ok_def holds_at_def tier_get_id_def
      tier_empty_def)

lemma rep_delta:
  assumes "dict_rep E contents ts d" "term_to_id d x = Some i"
  shows "holds_at ts x i"
proof -
  obtain k where k: "k < length ts" "i = tid k" "id_to_term d ! k = Some x"
    using assms unfolding dict_rep_def holds_at_def by metis
  then have "ts ! k = x" using assms(1) unfolding dict_rep_def by (metis option.distinct(1) option.inject)
  then show ?thesis using k by (auto simp: holds_at_def)
qed

lemma rep_delta_triple:
  assumes "dict_rep E contents ts d" "term_to_id d x = None" "is_triple x"
  shows "x \<notin> set ts"
proof
  assume "x \<in> set ts"
  then obtain k where k: "k < length ts" "ts ! k = x" by (auto simp: in_set_conv_nth)
  then have "id_to_term d ! k = Some x" using assms(1,3) unfolding dict_rep_def by metis
  then show False using assms(1,2) k unfolding dict_rep_def holds_at_def by (metis option.distinct(1))
qed

lemma rep_tier:
  assumes "dict_rep E contents ts d" "flat_term (env_lit E) x" "term_to_id d x = None"
  shows "\<exists>r. handle_get_id (env_lit E) (env_bits E) (env_lz4 E) (compacted d) x = Some r \<and>
    (\<forall>k. r = Some k \<longleftrightarrow> k < length ts \<and> ts ! k = x)"
proof -
  have "id_to_term d ! k = None" if "k < length ts" "ts ! k = x" for k
    using assms(1,3) that unfolding dict_rep_def holds_at_def by (metis option.distinct(1))
  then have iff: "k < length ts \<and> id_to_term d ! k = None \<and> ts ! k = x \<longleftrightarrow> k < length ts \<and> ts ! k = x" for k by blast
  have "tier_ok (env_lit E) (env_bits E) (env_lz4 E) ts (id_to_term d) (compacted d)" using assms(1) by (simp add: dict_rep_def)
  from tier_ok_lookup [OF this assms(2)] show ?thesis unfolding iff .
qed

lemma tier_ok_append:
  assumes "tier_ok api V Z ts slots t" "length slots = length ts"
  shows "tier_ok api V Z (ts @ [x]) (slots @ [Some x]) t"
proof -
  have ex: "\<exists>r. handle_get_id api V Z t y = Some r \<and>
        (\<forall>k. r = Some k \<longleftrightarrow> k < length (ts @ [x]) \<and> (slots @ [Some x]) ! k = None \<and> (ts @ [x]) ! k = y)"
    if y: "flat_term api y" for y
  proof -
    have "k < length (ts @ [x]) \<and> (slots @ [Some x]) ! k = None \<and> (ts @ [x]) ! k = y \<longleftrightarrow>
        k < length ts \<and> slots ! k = None \<and> ts ! k = y" for k
      using assms(2) by (auto simp: nth_append less_Suc_eq)
    then show ?thesis using assms(1) y unfolding tier_ok_def by presburger
  qed
  have "\<exists>out. handle_decode_block_for_id api V Z t k = Some (Some out) \<and> (k, Inr (ts ! k)) \<in> set out \<and>
      (\<forall>e \<in> set out. fst e < length (ts @ [x]) \<and> snd e = Inr ((ts @ [x]) ! fst e))"
    if "k < length ts" "slots ! k = None" for k
    using tier_ok_decode(2) [OF assms(1) that] by (fastforce simp: nth_append)
  moreover have "handle_decode_id api V Z t k = Some (Some (Inr (ts ! k)))" if "k < length ts" "slots ! k = None" for k
    by (rule tier_ok_decode(1) [OF assms(1) that])
  moreover have "k < length ts \<and> slots ! k = None \<and> (ts @ [x]) ! k = ts ! k"
    if "k < length (ts @ [x])" "(slots @ [Some x]) ! k = None" for k
    using that assms(2) by (cases "k = length ts") (auto simp: nth_append split: if_splits)
  moreover have "handle_is_empty t \<longleftrightarrow> None \<notin> set (slots @ [Some x])"
    using assms(1) by (simp add: tier_ok_def)
  ultimately show ?thesis
    unfolding tier_ok_def using ex by simp
qed

lemma rep_push:
  assumes rep: "dict_rep E contents ts d" and "x \<notin> set ts" "term_ok (env_lit E) x" "length ts < 2 ^ 40"
    and "is_triple x \<Longrightarrow> \<exists>c. triple_at ts x c"
    and d': "id_to_term d' = id_to_term d @ [Some x]" "term_to_id d' = (term_to_id d)(x \<mapsto> tid (length ts))"
      "compacted d' = compacted d" "decode_cache d' = decode_cache d" "triples_ok (ts @ [x]) d'"
  shows "dict_rep E contents (ts @ [x]) d'"
proof -
  note r = rep [unfolded dict_rep_def]
  have ok: "terms_ok (env_lit E) (ts @ [x])" using r terms_ok_append assms(2-5) by blast
  have ids: "term_to_id d y = Some i \<longleftrightarrow> holds_at (id_to_term d) (Some y) i" for y i using r by simp
  have "\<not> holds_at (id_to_term d) (Some x) i" for i
    unfolding ids [symmetric] using rep_delta [OF rep] holds_at_mem assms(2) by metis
  then have "term_to_id d' y = Some i \<longleftrightarrow> holds_at (id_to_term d') (Some y) i" for y i
    using ids d'(1,2) r by (auto simp: holds_at_append)
  moreover have "id_to_term d' ! k = Some ((ts @ [x]) ! k) \<or> id_to_term d' ! k = None \<and> \<not> is_triple ((ts @ [x]) ! k)"
    if "k < length (ts @ [x])" for k
    using r d'(1) that by (cases "k = length ts") (auto simp: nth_append)
  moreover have "tier_ok (env_lit E) (env_bits E) (env_lz4 E) (ts @ [x]) (id_to_term d') (compacted d')"
    unfolding d' using r by (blast intro: tier_ok_append)
  ultimately show ?thesis
    using r ok d' by (auto simp: dict_rep_def holds_at_extends)
qed

end

text \<open>The last step of interning a quoted triple, once its components are in.\<close>

definition finish_triple :: "('l, 'v, 'c) dictionary \<Rightarrow> 'l rdf_term \<Rightarrow> term_id \<times> term_id \<times> term_id \<Rightarrow>
    (('l, 'v, 'c) dictionary, term_id) outcome" where
  "finish_triple d x c =
     (case term_to_id d x of
        Some i \<Rightarrow> Some (d, Inr i)
      | None \<Rightarrow> seq (append_term d x) (\<lambda>d i.
                  Some (d\<lparr>triple_terms := (triple_terms d)(i \<mapsto> c), triple_index := (triple_index d)(c \<mapsto> i)\<rparr>, Inr i)))"

context dict_context
begin

lemma rep_length: "dict_rep E contents ts d \<Longrightarrow> length ts \<le> 2 ^ 40"
  by (simp add: dict_rep_def terms_ok_def)

lemma rep_known_spec:
  assumes "dict_rep E contents ts d" "x \<in> set ts"
  shows "intern_spec ts x = ts"
proof -
  have ok: "terms_ok (env_lit E) ts" using assms(1) by (simp add: dict_rep_def)
  have "set (subterms x) \<subseteq> set ts" using assms(2)
    by (induction x) (auto dest: terms_ok_closed [OF ok])
  then show ?thesis unfolding intern_spec_def by (rule fold_add_term_known)
qed

text \<open>Interning a term that is not a quoted triple, with room for it and without.\<close>

lemma intern_flat:
  assumes rep: "dict_rep E contents ts d" and x: "flat_term (env_lit E) x"
  shows "if length (add_term x ts) \<le> 2 ^ 40
    then \<exists>d' i. dict_intern E d x = Some (d', Inr i) \<and> dict_rep E contents (add_term x ts) d' \<and>
      holds_at (add_term x ts) x i
    else dict_intern E d x = Some (d, Inl IdSpaceExhausted)"
proof (cases "term_to_id d x")
  case (Some i)
  then have "holds_at ts x i" by (rule rep_delta [OF rep])
  then show ?thesis
    using Some rep rep_length [OF rep] holds_at_mem [of ts x] by (simp add: dict_intern.simps add_term_def)
next
  case None
  obtain r where r: "handle_get_id (env_lit E) (env_bits E) (env_lz4 E) (compacted d) x = Some r"
      "\<And>k. r = Some k \<longleftrightarrow> k < length ts \<and> ts ! k = x"
    using rep_tier [OF rep x None] by blast
  have step: "dict_intern E d x =
      (case r of Some raw \<Rightarrow> Some (d, term_id_new (of_nat raw)) | None \<Rightarrow> append_term d x)"
    using None r(1) flat_not_triple [OF x] by (cases x) (simp_all add: dict_intern.simps cong: option.case_cong)
  show ?thesis
  proof (cases r)
    case (Some k)
    then have k: "k < length ts" "ts ! k = x" using r(2) by auto
    then have "term_id_new (of_nat k) = Inr (tid k)" using rep_length [OF rep] by (simp add: term_id_new_tid)
    then show ?thesis
      using step Some k rep rep_length [OF rep] nth_mem [OF k(1)] by (auto simp: add_term_def holds_at_def)
  next
    case new: None
    then have x_new: "x \<notin> set ts" using r(2) by (auto simp: in_set_conv_nth)
    have len: "length (id_to_term d) = length ts" using rep by (simp add: dict_rep_def)
    show ?thesis
    proof (cases "length ts < 2 ^ 40")
      case True
      let ?d = "d\<lparr>id_to_term := id_to_term d @ [Some x], term_to_id := (term_to_id d)(x \<mapsto> tid (length ts))\<rparr>"
      have "triples_ok (ts @ [x]) ?d"
        using rep x_new flat_not_triple [OF x] by (intro triples_ok_append [of "env_lit E" ts x _ d]) (auto simp: dict_rep_def)
      then have "dict_rep E contents (ts @ [x]) ?d"
        using x True flat_not_triple [OF x] x_new by (intro rep_push [OF rep]) (auto simp: term_ok_flat)
      moreover have "append_term d x = Some (?d, Inr (tid (length ts)))"
        using True len by (simp add: append_term_tid)
      ultimately show ?thesis using step new x_new True by (auto simp: add_term_def holds_at_append)
    next
      case False
      then show ?thesis
        using step new x_new len rep_length [OF rep] by (simp add: append_term_tid add_term_def)
    qed
  qed
qed

lemma finish_triple_correct:
  assumes rep: "dict_rep E contents ts d" and c: "triple_at ts x c" and x: "term_ok (env_lit E) x"
  shows "if length (add_term x ts) \<le> 2 ^ 40
    then \<exists>d' i. finish_triple d x c = Some (d', Inr i) \<and> dict_rep E contents (add_term x ts) d' \<and>
      holds_at (add_term x ts) x i
    else finish_triple d x c = Some (d, Inl IdSpaceExhausted)"
proof (cases "term_to_id d x")
  case (Some i)
  then have "holds_at ts x i" by (rule rep_delta [OF rep])
  then show ?thesis
    using Some rep rep_length [OF rep] holds_at_mem [of ts x] by (simp add: finish_triple_def add_term_def)
next
  case None
  have "is_triple x" using c by (auto simp: triple_at_def)
  then have x_new: "x \<notin> set ts" by (rule rep_delta_triple [OF rep None])
  have len: "length (id_to_term d) = length ts" using rep by (simp add: dict_rep_def)
  show ?thesis
  proof (cases "length ts < 2 ^ 40")
    case True
    let ?i = "tid (length ts)"
    let ?d = "d\<lparr>id_to_term := id_to_term d @ [Some x], term_to_id := (term_to_id d)(x \<mapsto> ?i),
      triple_terms := (triple_terms d)(?i \<mapsto> c), triple_index := (triple_index d)(c \<mapsto> ?i)\<rparr>"
    have "triples_ok (ts @ [x]) ?d"
      using rep x_new c by (intro triples_ok_append_triple [of "env_lit E" ts x c _ d]) (auto simp: dict_rep_def)
    then have "dict_rep E contents (ts @ [x]) ?d"
      using x True x_new c by (intro rep_push [OF rep]) (auto intro: exI [of _ c] simp del: split_paired_Ex)
    moreover have "finish_triple d x c = Some (?d, Inr ?i)"
      using True len None by (simp add: finish_triple_def append_term_tid)
    ultimately show ?thesis using x_new True by (auto simp: add_term_def holds_at_append)
  next
    case False
    then show ?thesis
      using x_new len None rep_length [OF rep] by (simp add: finish_triple_def append_term_tid add_term_def)
  qed
qed

end

lemma dict_intern_triple:
  "term_to_id d (Triple s p ob) = None \<Longrightarrow> dict_intern E d (Triple s p ob) =
   seq (dict_intern E d (subject_term s)) (\<lambda>d s_id. seq (dict_intern E d (NamedNode p)) (\<lambda>d p_id.
   seq (dict_intern E d ob) (\<lambda>d o_id. finish_triple d (Triple s p ob) (s_id, p_id, o_id))))"
  by (subst dict_intern.simps) (simp add: finish_triple_def Let_def)

text \<open>What interning a term achieves, with room in the identifier space and without.\<close>

definition interned ::
  "('l, 'v, 'c) dict_env \<Rightarrow> ('c \<Rightarrow> term_id \<rightharpoonup> 'l rdf_term) \<Rightarrow> 'l rdf_term list \<Rightarrow> 'l rdf_term list \<Rightarrow> 'l rdf_term \<Rightarrow>
   (('l, 'v, 'c) dictionary, term_id) outcome \<Rightarrow> bool" where
  "interned E contents ts ts' x out \<longleftrightarrow>
     (if length ts' \<le> 2 ^ 40
      then \<exists>d' i. out = Some (d', Inr i) \<and> dict_rep E contents ts' d' \<and> holds_at ts' x i
      else \<exists>d' us. out = Some (d', Inl IdSpaceExhausted) \<and> dict_rep E contents (ts @ us) d')"

lemma interned_seq:
  assumes "interned E contents ts ts1 x out" "ts1 = ts @ vs" "length ts1 \<le> length ts2"
    and "\<And>d' i. dict_rep E contents ts1 d' \<Longrightarrow> holds_at ts1 x i \<Longrightarrow> interned E contents ts1 ts2 y (f d' i)"
  shows "interned E contents ts ts2 y (seq out f)"
proof (cases "length ts1 \<le> 2 ^ 40")
  case True
  then obtain d' i where "out = Some (d', Inr i)" "dict_rep E contents ts1 d'" "holds_at ts1 x i"
    using assms(1) by (auto simp: interned_def)
  then show ?thesis using assms(4) [of d' i] assms(2) by (fastforce simp: interned_def)
next
  case False
  then show ?thesis using assms(1,3) by (auto simp: interned_def)
qed

context dict_context
begin

lemma intern_flat_interned:
  assumes "dict_rep E contents ts d" "flat_term (env_lit E) x"
  shows "interned E contents ts (add_term x ts) x (dict_intern E d x)"
  using intern_flat [OF assms] assms(1) append_Nil2 [of ts] unfolding interned_def by (metis (full_types))

lemma add_term_extends: "\<exists>us. add_term x ts = ts @ us"
  by (simp add: add_term_def)

lemma holds_at_add_term: "holds_at ts x i \<Longrightarrow> holds_at (add_term y ts) x i"
  by (simp add: add_term_def holds_at_extends)

lemma holds_at_intern_spec: "holds_at ts x i \<Longrightarrow> holds_at (intern_spec ts y) x i"
  using intern_spec_extends [of ts y] holds_at_extends by fastforce

lemma finish_triple_interned:
  assumes "dict_rep E contents ts d" "triple_at ts x c" "term_ok (env_lit E) x"
  shows "interned E contents ts (add_term x ts) x (finish_triple d x c)"
  using finish_triple_correct [OF assms] assms(1) append_Nil2 [of ts] unfolding interned_def by (metis (full_types))

lemma intern_correct:
  assumes "dict_rep E contents ts d" "term_ok (env_lit E) x"
  shows "interned E contents ts (intern_spec ts x) x (dict_intern E d x)"
  using assms
proof (induction x arbitrary: ts d)
  case (Triple s p ob)
  note rep = Triple.prems(1)
  show ?case
  proof (cases "term_to_id d (Triple s p ob)")
    case (Some i)
    then have "holds_at ts (Triple s p ob) i" by (rule rep_delta [OF rep])
    then show ?thesis
      using Some rep rep_length [OF rep] rep_known_spec [OF rep] holds_at_mem [of ts "Triple s p ob"]
      by (simp add: interned_def dict_intern.simps)
  next
    case None
    let ?ts1 = "add_term (subject_term s) ts"
    let ?ts2 = "add_term (NamedNode p) ?ts1"
    let ?ts3 = "intern_spec ?ts2 ob"
    let ?ts4 = "add_term (Triple s p ob) ?ts3"
    have ok: "flat_term (env_lit E) (subject_term s)" "flat_term (env_lit E) (NamedNode p)" "term_ok (env_lit E) ob"
      using Triple.prems(2) by auto
    have len: "length ?ts1 \<le> length ?ts2" "length ?ts2 \<le> length ?ts3" "length ?ts3 \<le> length ?ts4"
      by (rule length_add_term length_intern_spec)+
    have third: "interned E contents ?ts2 ?ts4 (Triple s p ob)
        (seq (dict_intern E d ob) (\<lambda>d o_id. finish_triple d (Triple s p ob) (s_id, p_id, o_id)))"
      if d: "dict_rep E contents ?ts2 d" and ids: "holds_at ?ts1 (subject_term s) s_id" "holds_at ?ts2 (NamedNode p) p_id"
      for d s_id p_id
    proof -
      obtain us where us: "?ts3 = ?ts2 @ us" by (rule exE [OF intern_spec_extends])
      show ?thesis
      proof (rule interned_seq [OF Triple.IH [OF d ok(3)] us len(3)])
        fix d' i assume d': "dict_rep E contents ?ts3 d'" and i: "holds_at ?ts3 ob i"
        have "triple_at ?ts3 (Triple s p ob) (s_id, p_id, i)"
          using ids i by (simp add: triple_at_def holds_at_add_term holds_at_intern_spec)
        then show "interned E contents ?ts3 ?ts4 (Triple s p ob) (finish_triple d' (Triple s p ob) (s_id, p_id, i))"
          using finish_triple_interned [OF d'] Triple.prems(2) by blast
      qed
    qed
    have second: "interned E contents ?ts1 ?ts4 (Triple s p ob) (seq (dict_intern E d (NamedNode p)) (\<lambda>d p_id.
        seq (dict_intern E d ob) (\<lambda>d o_id. finish_triple d (Triple s p ob) (s_id, p_id, o_id))))"
      if d: "dict_rep E contents ?ts1 d" and id: "holds_at ?ts1 (subject_term s) s_id" for d s_id
    proof -
      obtain us where us: "?ts2 = ?ts1 @ us" by (rule exE [OF add_term_extends])
      show ?thesis
        by (rule interned_seq [OF intern_flat_interned [OF d ok(2)] us _ third [OF _ id]]) (use len in linarith)
    qed
    obtain us where us: "?ts1 = ts @ us" by (rule exE [OF add_term_extends])
    show ?thesis
      unfolding dict_intern_triple [OF None] intern_spec_triple
      by (rule interned_seq [OF intern_flat_interned [OF rep ok(1)] us _ second]) (use len in linarith)
  qed
qed (simp_all add: intern_flat_interned intern_spec_flat)

end

section \<open>Lookup and decoding\<close>

lemma tid_unat: "tid (unat (as_u64 i)) = i"
  by (simp add: tid_def)

lemma those_map_nth: "(\<And>k. k < length ts \<Longrightarrow> f k = Some (ts ! k)) \<Longrightarrow> those (map f [0..<length ts]) = Some ts"
  using those_map_Some [of "[0..<length ts]" f "nth ts"] by (simp add: map_nth)

context dict_context
begin

lemma get_id_correct:
  assumes rep: "dict_rep E contents ts d" and x: "term_ok (env_lit E) x"
    and known: "is_triple x \<Longrightarrow> x \<in> set ts \<or> None \<notin> set (id_to_term d)"
  shows "\<exists>r. dict_get_id E d x = Some r \<and> (\<forall>i. r = Some i \<longleftrightarrow> holds_at ts x i)"
proof (cases "term_to_id d x")
  case (Some i)
  have ok: "distinct ts" using rep by (simp add: dict_rep_def terms_ok_def)
  have i: "holds_at ts x i" by (rule rep_delta [OF rep Some])
  have "Some i = Some j \<longleftrightarrow> holds_at ts x j" for j using holds_at_unique [OF ok i, of j] i by auto
  then show ?thesis using Some by (auto simp: dict_get_id_def)
next
  case None
  show ?thesis
  proof (cases "is_triple x")
    case True
    then have absent: "x \<notin> set ts" by (rule rep_delta_triple [OF rep None])
    then have "handle_is_empty (compacted d)"
      using known [OF True] rep by (simp add: dict_rep_def tier_ok_def)
    then have "dict_get_id E d x = Some None" using None by (simp add: dict_get_id_def handle_get_id_empty handle_get_id_triple)
    then show ?thesis using absent holds_at_mem by fast
  next
    case False
    then obtain r where r: "handle_get_id (env_lit E) (env_bits E) (env_lz4 E) (compacted d) x = Some r"
        "\<And>k. r = Some k \<longleftrightarrow> k < length ts \<and> ts ! k = x"
      using rep_tier [OF rep _ None] x by (auto simp: term_ok_flat)
    show ?thesis
    proof (cases r)
      case None
      then have "x \<notin> set ts" using r(2) by (auto simp: in_set_conv_nth)
      then show ?thesis using \<open>term_to_id d x = None\<close> None r(1) holds_at_mem by (fastforce simp: dict_get_id_def)
    next
      case (Some k)
      then have k: "k < length ts" "ts ! k = x" using r(2) by auto
      have len: "length ts \<le> 2 ^ 40" by (rule rep_length [OF rep])
      then have "term_id_new (of_nat k) = Inr (tid k)" using k(1) by (simp add: term_id_new_tid)
      moreover have "Some (tid k) = Some i \<longleftrightarrow> holds_at ts x i" for i
        using k holds_at_unique [of ts x "tid k" i] rep
        by (auto simp: holds_at_def dict_rep_def terms_ok_def)
      ultimately show ?thesis using \<open>term_to_id d x = None\<close> Some r(1) by (auto simp: dict_get_id_def)
    qed
  qed
qed

lemma rep_slot:
  "dict_rep E contents ts d \<Longrightarrow> k < length ts \<Longrightarrow>
   id_to_term d ! k = Some (ts ! k) \<or> id_to_term d ! k = None \<and> \<not> is_triple (ts ! k)"
  by (simp add: dict_rep_def)

text \<open>A quoted triple that was never interned cannot be looked up once anything was compacted.\<close>

lemma get_id_panics:
  assumes "dict_rep E contents ts d" "is_triple x" "x \<notin> set ts" "None \<in> set (id_to_term d)"
  shows "dict_get_id E d x = None"
proof -
  have "\<not> handle_is_empty (compacted d)" using assms(1,4) by (auto simp: dict_rep_def tier_ok_def)
  moreover have "term_to_id d x = None"
    using rep_delta [OF assms(1)] holds_at_mem assms(3) by (metis option.exhaust)
  moreover have "term_sort_key (env_lit E) x = None" using assms(2) by (cases x) auto
  ultimately show ?thesis by (simp add: dict_get_id_def handle_get_id_empty handle_get_id_triple)
qed

lemma get_term_arc_correct:
  assumes rep: "dict_rep E contents ts d"
  shows "\<exists>d'. get_term_arc E d i = Some (nth_opt ts (unat (as_u64 i)), d') \<and> dict_rep E contents ts d'"
proof -
  let ?k = "unat (as_u64 i)"
  note r = rep [unfolded dict_rep_def]
  have len: "length (id_to_term d) = length ts" using r by simp
  have with_cache: "dict_rep E contents ts (d\<lparr>decode_cache := c\<rparr>)"
    if "\<And>i x. contents c i = Some x \<Longrightarrow> holds_at ts x i" for c
    using r that by (simp add: dict_rep_def triples_ok_def)
  consider "\<not> ?k < length ts" | "?k < length ts" "id_to_term d ! ?k = Some (ts ! ?k)"
    | "?k < length ts" "id_to_term d ! ?k = None" using rep_slot [OF rep, of ?k] by argo
  then show ?thesis
  proof cases
    case 3
    obtain found c where get: "lru_get (env_lru E) (decode_cache d) i = (found, c)" by fastforce
    have c: "found = contents (decode_cache d) i" "contents c = contents (decode_cache d)"
      using lru_cache.contents_get [OF lru get] by auto
    show ?thesis
    proof (cases found)
      case (Some x)
      then have "holds_at ts x (tid ?k)" using r c(1) by (simp add: tid_unat)
      then have "ts ! ?k = x" using holds_at_tid [OF rep_length [OF rep] 3(1)] by simp
      then show ?thesis using 3 get Some len r c(2) by (auto simp: get_term_arc_def intro!: with_cache)
    next
      case None
      obtain out where out: "handle_decode_block_for_id (env_lit E) (env_bits E) (env_lz4 E) (compacted d) ?k = Some (Some out)"
          "(?k, Inr (ts ! ?k)) \<in> set out" "\<forall>e \<in> set out. fst e < length ts \<and> snd e = Inr (ts ! fst e)"
        using tier_ok_decode(2) [OF _ 3] r by blast
      obtain wanted c' where blk: "cache_block (env_lru E) i out None c = (wanted, c')" by fastforce
      have entry: "holds_at ts x (TermId (of_nat j))" if "(j, Inr x) \<in> set out" for j x
        using bspec [OF out(3) that] by (auto simp: holds_at_def tid_def)
      have same: "x = ts ! ?k" if "(j, Inr x) \<in> set out" "TermId (of_nat j) = i" for j x
      proof -
        have "holds_at ts x i" using entry [OF that(1)] unfolding that(2) .
        moreover have "holds_at ts (ts ! ?k) i"
          using holds_at_tid [OF rep_length [OF rep] 3(1)] unfolding tid_unat by simp
        ultimately show ?thesis by (rule holds_at_fun [OF rep_length [OF rep]])
      qed
      have "fst (cache_block (env_lru E) i out None c) = Some (ts ! ?k)"
        by (rule cache_block_wanted [OF same disjI1 [OF out(2)]]) (simp_all add: tid_unat [unfolded tid_def])
      then have "wanted = Some (ts ! ?k)" using blk by simp
      moreover have "holds_at ts x j" if "contents c' j = Some x" for j x
      proof (rule cache_block_contents [OF lru _ _ blk that])
        show "holds_at ts x j" if "contents c j = Some x" for j x using r c(2) that by simp
      qed (rule entry)
      ultimately show ?thesis using 3 get None len out(1) blk by (auto simp: get_term_arc_def intro!: with_cache)
    qed
  qed (use rep len in \<open>auto simp: get_term_arc_def nth_opt_def\<close>)
qed

lemma terms_in_order_correct:
  assumes rep: "dict_rep E contents ts d"
  shows "terms_in_order E d = Some ts"
proof -
  note r = rep [unfolded dict_rep_def]
  have "term_at E d k = Some (ts ! k)" if "k < length ts" for k
  proof (cases "id_to_term d ! k")
    case None
    have "handle_decode_id (env_lit E) (env_bits E) (env_lz4 E) (compacted d) k = Some (Some (Inr (ts ! k)))"
      using tier_ok_decode(1) [OF _ that None] r by blast
    then show ?thesis using that r None by (simp add: term_at_def)
  next
    case (Some x)
    then have "x = ts ! k" using r that by (metis option.distinct(1) option.inject)
    then show ?thesis using that r Some by (simp add: term_at_def)
  qed
  then show ?thesis using r those_map_nth unfolding terms_in_order_def by metis
qed

end

section \<open>Compaction\<close>

text \<open>The terms that go into the tier, in the order of their keys, and their entries.\<close>

definition flat_ids :: "'l rdf_term list \<Rightarrow> nat list" where
  "flat_ids ts = filter (\<lambda>k. \<not> is_triple (ts ! k)) [0..<length ts]"

definition compact_terms :: "'l literal_api \<Rightarrow> 'l rdf_term list \<Rightarrow> ('l rdf_term \<times> nat) list" where
  "compact_terms api ts = sort_key (\<lambda>(x, k). the (term_sort_key api x)) (map (\<lambda>k. (ts ! k, k)) (flat_ids ts))"

definition compact_entries :: "'l literal_api \<Rightarrow> 'l rdf_term list \<Rightarrow> fc_entry list" where
  "compact_entries api ts = map (\<lambda>(x, k). the (entry_of api x k)) (compact_terms api ts)"

text \<open>
  When compaction is exact: the buffers fit their 32-bit offsets, and no two entries on either side of
  a block boundary share tag and primary string.
\<close>

definition entries_fit :: "fc_entry list \<Rightarrow> bool" where
  "entries_fit es \<longleftrightarrow> (\<Sum>e \<leftarrow> es. entry_cost e) < 2 ^ 32"

definition no_straddling :: "fc_entry list \<Rightarrow> bool" where
  "no_straddling es \<longleftrightarrow> (\<forall>b. 0 < b \<and> b * BLOCK_SIZE < length es \<longrightarrow>
     entry_key (es ! (b * BLOCK_SIZE - 1)) \<noteq> entry_key (es ! (b * BLOCK_SIZE)))"

lemma sort_key_cong: "(\<And>x. x \<in> set xs \<Longrightarrow> f x = g x) \<Longrightarrow> sort_key f xs = sort_key g xs"
proof (induction xs)
  case (Cons x xs)
  have "insort_key f x ys = insort_key g x ys" if "\<forall>y \<in> set ys. f y = g y" for ys
    using that Cons.prems by (induction ys) auto
  then show ?case using Cons by simp
qed simp

lemma sort_key_map: "sort_key f (map g xs) = map g (sort_key (\<lambda>x. f (g x)) xs)"
proof (induction xs)
  case (Cons x xs)
  have "insort_key f (g x) (map g ys) = map g (insort_key (\<lambda>x. f (g x)) x ys)" for ys
    by (induction ys) auto
  then show ?case using Cons by simp
qed simp

lemma set_flat_ids: "k \<in> set (flat_ids ts) \<longleftrightarrow> k < length ts \<and> \<not> is_triple (ts ! k)"
  by (auto simp: flat_ids_def)

lemma set_compact_terms: "(x, k) \<in> set (compact_terms api ts) \<longleftrightarrow> k < length ts \<and> \<not> is_triple x \<and> ts ! k = x"
  by (auto simp: compact_terms_def set_flat_ids)

lemma distinct_compact_terms:
  assumes "distinct ts"
  shows "distinct (map fst (compact_terms api ts))" "distinct (map snd (compact_terms api ts))"
proof -
  have d: "distinct (flat_ids ts)" by (simp add: flat_ids_def)
  have "inj_on (nth ts) (set (flat_ids ts))"
    using assms by (auto simp: inj_on_def set_flat_ids nth_eq_iff_index_eq)
  then have "distinct (map fst (map (\<lambda>k. (ts ! k, k)) (flat_ids ts)))"
    using d by (simp add: distinct_map comp_def)
  moreover have "distinct (map snd (map (\<lambda>k. (ts ! k, k)) (flat_ids ts)))" using d by (simp add: comp_def)
  ultimately show "distinct (map fst (compact_terms api ts))" "distinct (map snd (compact_terms api ts))"
    unfolding compact_terms_def distinct_map set_sort distinct_sort by blast+
qed

lemma compact_entry:
  assumes "terms_ok api ts" "k < length ts" "\<not> is_triple (ts ! k)"
  shows "flat_term api (ts ! k)" "entry_of api (ts ! k) k = Some (the (entry_of api (ts ! k) k))"
proof -
  show "flat_term api (ts ! k)" using assms term_ok_flat unfolding terms_ok_def by (metis nth_mem)
  then show "entry_of api (ts ! k) k = Some (the (entry_of api (ts ! k) k))"
    using entry_of_flat [of api "ts ! k" k] by auto
qed

lemma compact_built:
  assumes "terms_ok api ts"
  shows "built_from api (compact_terms api ts) (compact_entries api ts)"
proof -
  have "flat_term api x \<and> entry_of api x k = Some (the (entry_of api x k))" if "(x, k) \<in> set (compact_terms api ts)" for x k
    using compact_entry [OF assms] that unfolding set_compact_terms by metis
  then show ?thesis
    unfolding built_from_def compact_entries_def list_all2_map2 list_all2_same by auto
qed

lemma compact_entries_ok:
  assumes ok: "terms_ok api ts" and fit: "entries_fit (compact_entries api ts)"
  shows "entries_ok (compact_entries api ts) (length ts)" "sorted (map entry_key (compact_entries api ts))"
proof -
  have "entry_id (the (entry_of api x k)) = k \<and> entry_key (the (entry_of api x k)) = the (term_sort_key api x)"
    if "(x, k) \<in> set (compact_terms api ts)" for x k
    using compact_entry(2) [OF ok] entry_of_id entry_of_parts that unfolding set_compact_terms by (metis option.sel)
  then have ids: "map entry_id (compact_entries api ts) = map snd (compact_terms api ts)"
    and keys: "map entry_key (compact_entries api ts) = map (\<lambda>(x, k). the (term_sort_key api x)) (compact_terms api ts)"
    unfolding compact_entries_def map_map by (auto intro!: map_cong)
  show "sorted (map entry_key (compact_entries api ts))"
    unfolding keys unfolding compact_terms_def by (rule sorted_sort_key)
  have "entry_id ` set (compact_entries api ts) = snd ` set (compact_terms api ts)"
    using arg_cong [OF ids, of set] by simp
  then have "entry_id e < length ts" if "e \<in> set (compact_entries api ts)" for e
    using that set_compact_terms [of _ _ api ts] by fastforce
  then show "entries_ok (compact_entries api ts) (length ts)"
    using distinct_compact_terms(2) [of ts api] ok fit unfolding ids [symmetric]
    by (intro entries_okI) (auto simp: entries_fit_def terms_ok_def)
qed

text \<open>The tier that compaction builds holds exactly the terms that are not quoted triples.\<close>

lemma compact_tier:
  assumes "literal_laws api" "bit_field_vec V" and ok: "terms_ok api ts" and fit: "entries_fit (compact_entries api ts)"
    and "no_straddling (compact_entries api ts)" and len: "length slots = length ts"
    and slots: "\<And>k. k < length ts \<Longrightarrow> slots ! k = None \<longleftrightarrow> \<not> is_triple (ts ! k)"
  shows "\<exists>t. tier_build V (compact_entries api ts) (length ts) = Some t \<and> tier_ok api V Z ts slots (Owned t)"
proof -
  note built = compact_built [OF ok] and es = compact_entries_ok [OF ok fit]
  have dist: "distinct (map fst (compact_terms api ts))" using distinct_compact_terms(1) ok by (auto simp: terms_ok_def)
  obtain t where t: "tier_build V (compact_entries api ts) (length ts) = Some t"
      "encoded_count t = length (compact_entries api ts)"
    using tier_build_facts [OF assms(2) es(1)] by blast
  have mem: "(x, k) \<in> set (compact_terms api ts) \<longleftrightarrow> k < length ts \<and> slots ! k = None \<and> ts ! k = x" for x k
    using slots by (auto simp: set_compact_terms)
  have "\<exists>r. tier_get_id api V t x = Some r \<and>
      (\<forall>k. r = Some k \<longleftrightarrow> k < length ts \<and> slots ! k = None \<and> ts ! k = x)" if "flat_term api x" for x
    using tier_get_id_built [OF assms(1,2) es(1) built dist es(2) t(1) _ that] assms(5)
    unfolding no_straddling_def mem [symmetric] by (simp add: map_of_eq_Some_iff [OF dist])
  moreover have "encoded_count t = 0 \<longleftrightarrow> None \<notin> set slots"
  proof -
    have "encoded_count t = 0 \<longleftrightarrow> compact_terms api ts = []" using t(2) by (simp add: compact_entries_def)
    also have "\<dots> \<longleftrightarrow> (\<forall>x k. (x, k) \<notin> set (compact_terms api ts))" by (cases "compact_terms api ts") auto
    also have "\<dots> \<longleftrightarrow> None \<notin> set slots" unfolding mem using len by (auto simp: in_set_conv_nth)
    finally show ?thesis .
  qed
  moreover have "tier_decode_id api V t k = Some (Some (Inr (ts ! k)))" if "k < length ts" "slots ! k = None" for k
    using tier_decode_id_built [OF assms(1,2) es(1) built _ t(1)] mem that by blast
  moreover have "\<exists>out. decode_block_for_id api V t k = Some (Some out) \<and> (k, Inr (ts ! k)) \<in> set out \<and>
      (\<forall>e \<in> set out. fst e < length ts \<and> snd e = Inr (ts ! fst e))" if "k < length ts" "slots ! k = None" for k
  proof -
    have "(ts ! k, k) \<in> set (compact_terms api ts)" using mem that by blast
    from decode_block_for_id_built [OF assms(1,2) es(1) built this t(1)] show ?thesis
      using mem by (fastforce simp: split_beta)
  qed
  ultimately show ?thesis using t(1) by (auto simp: tier_ok_def)
qed

lemma free_terms_correct:
  assumes "\<forall>k \<in> set ks. k < length (id_to_term d)" "distinct ks"
  shows "\<exists>slots m. free_terms d ks = Some (d\<lparr>id_to_term := slots, term_to_id := m\<rparr>) \<and>
    length slots = length (id_to_term d) \<and>
    (\<forall>k. slots ! k = (if k \<in> set ks \<and> triple_terms d (tid k) = None then None else id_to_term d ! k)) \<and>
    (\<forall>x. m x = (if \<exists>k \<in> set ks. triple_terms d (tid k) = None \<and> id_to_term d ! k = Some x then None else term_to_id d x))"
  using assms
proof (induction ks arbitrary: d)
  case Nil
  have "free_terms d [] = Some (d\<lparr>id_to_term := id_to_term d, term_to_id := term_to_id d\<rparr>)" by simp
  then show ?case by fastforce
next
  case (Cons k ks)
  have k: "k < length (id_to_term d)" "k \<notin> set ks" using Cons.prems by auto
  show ?case
  proof (cases "triple_terms d (tid k) = None \<and> id_to_term d ! k \<noteq> None")
    case False
    then have "free_terms d (k # ks) = free_terms d ks" using k(1) by (auto simp: tid_def)
    moreover obtain slots m where ih: "free_terms d ks = Some (d\<lparr>id_to_term := slots, term_to_id := m\<rparr>)"
      "length slots = length (id_to_term d)"
      "\<And>j. slots ! j = (if j \<in> set ks \<and> triple_terms d (tid j) = None then None else id_to_term d ! j)"
      "\<And>y. m y = (if \<exists>j \<in> set ks. triple_terms d (tid j) = None \<and> id_to_term d ! j = Some y
         then None else term_to_id d y)"
      using Cons.IH [of d] Cons.prems by auto
    moreover have "slots ! j = (if j \<in> set (k # ks) \<and> triple_terms d (tid j) = None then None else id_to_term d ! j)" for j
      using ih(3) [of j] False by (cases "j = k") auto
    moreover have "m y = (if \<exists>j \<in> set (k # ks). triple_terms d (tid j) = None \<and> id_to_term d ! j = Some y
        then None else term_to_id d y)" for y
      using ih(4) [of y] False by auto
    ultimately show ?thesis by metis
  next
    case True
    then obtain x where x: "id_to_term d ! k = Some x" by auto
    let ?d = "d\<lparr>id_to_term := (id_to_term d)[k := None], term_to_id := (term_to_id d)(x := None)\<rparr>"
    have step: "free_terms d (k # ks) = free_terms ?d ks" using k(1) True x by (auto simp: tid_def)
    obtain slots m where ih: "free_terms ?d ks = Some (?d\<lparr>id_to_term := slots, term_to_id := m\<rparr>)"
      "length slots = length (id_to_term d)"
      "\<And>j. slots ! j = (if j \<in> set ks \<and> triple_terms d (tid j) = None then None else (id_to_term d)[k := None] ! j)"
      "\<And>y. m y = (if \<exists>j \<in> set ks. triple_terms d (tid j) = None \<and> (id_to_term d)[k := None] ! j = Some y
         then None else ((term_to_id d)(x := None)) y)"
      using Cons.IH [of ?d] Cons.prems by (auto cong: if_cong)
    have other: "(id_to_term d)[k := None] ! j = id_to_term d ! j" if "j \<in> set ks" for j
      using k(2) that by (metis nth_list_update_neq)
    show ?thesis
    proof (intro exI conjI allI)
      show "free_terms d (k # ks) = Some (d\<lparr>id_to_term := slots, term_to_id := m\<rparr>)" using step ih(1) by simp
      show "slots ! j = (if j \<in> set (k # ks) \<and> triple_terms d (tid j) = None then None else id_to_term d ! j)" for j
        using ih(3) [of j] k True by (cases "j = k") auto
      show "m y = (if \<exists>j \<in> set (k # ks). triple_terms d (tid j) = None \<and> id_to_term d ! j = Some y
          then None else term_to_id d y)" for y
        using ih(4) [of y] other True x by auto
    qed (rule ih(2))
  qed
qed

context dict_context
begin

lemma rep_triple_terms:
  assumes rep: "dict_rep E contents ts d" and k: "k < length ts"
  shows "triple_terms d (tid k) = None \<longleftrightarrow> \<not> is_triple (ts ! k)"
proof -
  have ok: "terms_ok (env_lit E) ts" and tr: "triples_ok ts d" using rep by (simp_all add: dict_rep_def)
  have at: "holds_at ts x (tid k) \<longleftrightarrow> ts ! k = x" for x by (rule holds_at_tid [OF rep_length [OF rep] k])
  have "triple_at ts (ts ! k) c" if "triple_at (take k ts) (ts ! k) c" for c
    using that holds_at_extends [of "take k ts" _ _ "drop k ts"] by (auto simp: triple_at_def)
  then have "is_triple (ts ! k) \<longleftrightarrow> (\<exists>c. triple_at ts (ts ! k) c)"
    using ok k unfolding terms_ok_def triple_at_def by (metis is_triple.simps(1))
  moreover have "(\<exists>c. triple_terms d (tid k) = Some c) \<longleftrightarrow> (\<exists>c. triple_at ts (ts ! k) c)"
    using tr at unfolding triples_ok_def by metis
  ultimately show ?thesis by (metis not_None_eq)
qed

lemma collect_entries_correct:
  assumes rep: "dict_rep E contents ts d" and "\<forall>k \<in> set ks. k < length ts"
  shows "collect_entries E d ks acc = Some (Inr (acc @
    map (\<lambda>k. the (entry_of (env_lit E) (ts ! k) k)) (filter (\<lambda>k. \<not> is_triple (ts ! k)) ks)))"
  using assms(2)
proof (induction ks arbitrary: acc)
  case (Cons k ks)
  note r = rep [unfolded dict_rep_def]
  have k: "k < length ts" using Cons.prems by simp
  have tt: "triple_terms d (TermId (of_nat k)) = None \<longleftrightarrow> \<not> is_triple (ts ! k)"
    using rep_triple_terms [OF rep k] by (simp add: tid_def)
  show ?case
  proof (cases "is_triple (ts ! k)")
    case True
    then show ?thesis using Cons tt by auto
  next
    case False
    have ok: "terms_ok (env_lit E) ts" using r by blast
    obtain tag primary aux where e: "entry_of (env_lit E) (ts ! k) k = Some (tag, primary, aux, k)"
      using compact_entry(2) [OF ok k False] entry_of_id by (metis entry_id.elims)
    have key: "term_sort_key (env_lit E) (ts ! k) = Some (tag, primary)" "term_aux_bytes (env_lit E) (ts ! k) = Some aux"
      using entry_of_parts [OF e] by simp_all
    have slot: "nth_opt (id_to_term d) k = Some (id_to_term d ! k)" using r k by simp
    have "collect_entries E d (k # ks) acc = collect_entries E d ks (acc @ [(tag, primary, aux, k)])"
    proof (cases "id_to_term d ! k")
      case None
      have "handle_decode_id (env_lit E) (env_bits E) (env_lz4 E) (compacted d) k = Some (Some (Inr (ts ! k)))"
        using tier_ok_decode(1) [OF _ k None] r by blast
      then show ?thesis using tt False slot None key by simp
    next
      case (Some x)
      then have "x = ts ! k" using rep_slot [OF rep k] by auto
      then show ?thesis using tt False slot Some key by simp
    qed
    then show ?thesis using Cons False e by simp
  qed
qed simp

lemma compact_steps:
  assumes rep: "dict_rep E contents ts d" and fit: "entries_fit (compact_entries (env_lit E) ts)"
  shows "\<exists>d' t. dict_compact E d = Some (d', Inr ()) \<and>
    tier_build (env_bits E) (compact_entries (env_lit E) ts) (length ts) = Some t \<and> compacted d' = Owned t \<and>
    contents (decode_cache d') = Map.empty \<and> triple_terms d' = triple_terms d \<and> triple_index d' = triple_index d \<and>
    length (id_to_term d') = length ts \<and>
    (\<forall>k < length ts. id_to_term d' ! k = (if is_triple (ts ! k) then Some (ts ! k) else None)) \<and>
    (\<forall>x. term_to_id d' x = (if is_triple x then term_to_id d x else None))"
proof -
  note r = rep [unfolded dict_rep_def]
  have ok: "terms_ok (env_lit E) ts" and len: "length (id_to_term d) = length ts" using r by auto
  let ?es = "map (\<lambda>k. the (entry_of (env_lit E) (ts ! k) k)) (flat_ids ts)"
  have coll: "collect_entries E d [0..<length ts] [] = Some (Inr ?es)"
    using collect_entries_correct [OF rep, of "[0..<length ts]" "[]"] by (simp add: flat_ids_def)
  have ek: "(\<lambda>(t, p, a, i). (t, p)) = entry_key" by (rule ext) auto
  have "entry_key (the (entry_of (env_lit E) (ts ! k) k)) = the (term_sort_key (env_lit E) (ts ! k))"
    if "k \<in> set (flat_ids ts)" for k
    using compact_entry(2) [OF ok, of k] entry_of_parts that unfolding set_flat_ids by (metis option.sel)
  then have keys: "sort_key (\<lambda>k. entry_key (the (entry_of (env_lit E) (ts ! k) k))) (flat_ids ts) =
      sort_key (\<lambda>k. the (term_sort_key (env_lit E) (ts ! k))) (flat_ids ts)"
    by (rule sort_key_cong)
  have sorted: "sort_key (\<lambda>(t, p, a, i). (t, p)) ?es = compact_entries (env_lit E) ts"
    unfolding ek compact_entries_def compact_terms_def sort_key_map keys by (simp add: comp_def)
  obtain t where t: "tier_build (env_bits E) (compact_entries (env_lit E) ts) (length ts) = Some t"
    using tier_build_facts [OF bits compact_entries_ok(1) [OF ok fit]] by blast
  obtain slots m where free: "free_terms d [0..<length ts] = Some (d\<lparr>id_to_term := slots, term_to_id := m\<rparr>)"
    "length slots = length ts"
    "\<And>k. slots ! k = (if k \<in> set [0..<length ts] \<and> triple_terms d (tid k) = None then None else id_to_term d ! k)"
    "\<And>x. m x = (if \<exists>k \<in> set [0..<length ts]. triple_terms d (tid k) = None \<and> id_to_term d ! k = Some x
       then None else term_to_id d x)"
    using free_terms_correct [of "[0..<length ts]" d] len by auto
  have "slots ! k = (if is_triple (ts ! k) then Some (ts ! k) else None)" if "k < length ts" for k
    using free(3) [of k] rep_triple_terms [OF rep that] rep_slot [OF rep that] that by auto
  moreover have "m x = (if is_triple x then term_to_id d x else None)" for x
  proof (cases "\<exists>k < length ts. triple_terms d (tid k) = None \<and> id_to_term d ! k = Some x")
    case True
    then show ?thesis using free(4) [of x] rep_triple_terms [OF rep] rep_slot [OF rep] by fastforce
  next
    case False
    have "term_to_id d x = None" if "\<not> is_triple x"
    proof (rule ccontr)
      assume "term_to_id d x \<noteq> None"
      then obtain i where "holds_at (id_to_term d) (Some x) i" using r by auto
      then obtain k where "k < length ts" "id_to_term d ! k = Some x" using len by (auto simp: holds_at_def)
      then show False using False rep_triple_terms [OF rep] rep_slot [OF rep] that by fastforce
    qed
    then show ?thesis using free(4) [of x] False by auto
  qed
  ultimately show ?thesis
    using coll sorted t free(1,2) lru_cache.contents_clear [OF lru] len by (auto simp: dict_compact_def)
qed

end

context dict_context
begin

lemma compact_correct:
  assumes rep: "dict_rep E contents ts d" and fit: "entries_fit (compact_entries (env_lit E) ts)"
    and "no_straddling (compact_entries (env_lit E) ts)"
  shows "\<exists>d'. dict_compact E d = Some (d', Inr ()) \<and> dict_rep E contents ts d' \<and>
    (\<forall>k < length ts. id_to_term d' ! k = (if is_triple (ts ! k) then Some (ts ! k) else None))"
proof -
  note r = rep [unfolded dict_rep_def]
  have ok: "terms_ok (env_lit E) ts" using r by blast
  obtain d' t where d': "dict_compact E d = Some (d', Inr ())"
    "tier_build (env_bits E) (compact_entries (env_lit E) ts) (length ts) = Some t" "compacted d' = Owned t"
    "contents (decode_cache d') = Map.empty" "triple_terms d' = triple_terms d" "triple_index d' = triple_index d"
    "length (id_to_term d') = length ts"
    "\<forall>k < length ts. id_to_term d' ! k = (if is_triple (ts ! k) then Some (ts ! k) else None)"
    "\<forall>x. term_to_id d' x = (if is_triple x then term_to_id d x else None)"
    using compact_steps [OF rep fit] by blast
  have "tier_ok (env_lit E) (env_bits E) (env_lz4 E) ts (id_to_term d') (compacted d')"
    using compact_tier [OF laws bits ok fit assms(3) d'(7)] d'(2,3,8) by auto
  moreover have "term_to_id d' x = Some i \<longleftrightarrow> holds_at (id_to_term d') (Some x) i" for x i
  proof -
    have "id_to_term d' ! k = Some x \<longleftrightarrow> is_triple x \<and> id_to_term d ! k = Some x" if "k < length ts" for k
      using d'(8) rep_slot [OF rep that] that by auto
    then show ?thesis using r d'(7,9) by (auto simp: holds_at_def)
  qed
  moreover have "triples_ok ts d'" using r d'(5,6) by (simp add: triples_ok_def)
  ultimately have "dict_rep E contents ts d'" using ok d'(4,7,8) by (auto simp: dict_rep_def)
  then show ?thesis using d'(1,8) by blast
qed

text \<open>Compaction of a term whose key opens a later block: the term is lost to lookup and interned again.\<close>

lemma compact_loses_straddling:
  assumes rep: "dict_rep E contents ts d" and fit: "entries_fit (compact_entries (env_lit E) ts)"
    and b: "0 < b" "b * BLOCK_SIZE < length (compact_entries (env_lit E) ts)" "j < b * BLOCK_SIZE"
    and key: "entry_key (compact_entries (env_lit E) ts ! j) = entry_key (compact_entries (env_lit E) ts ! (b * BLOCK_SIZE))"
    and x: "compact_terms (env_lit E) ts ! j = (x, k)" and room: "length ts < 2 ^ 40"
  shows "\<exists>d' d''. dict_compact E d = Some (d', Inr ()) \<and> dict_get_id E d' x = Some None \<and>
    dict_intern E d' x = Some (d'', Inr (tid (length ts)))"
proof -
  have ok: "terms_ok (env_lit E) ts" using rep by (simp add: dict_rep_def)
  have dist: "distinct (map fst (compact_terms (env_lit E) ts))" using distinct_compact_terms(1) ok by (auto simp: terms_ok_def)
  obtain d' t where d': "dict_compact E d = Some (d', Inr ())"
    "tier_build (env_bits E) (compact_entries (env_lit E) ts) (length ts) = Some t" "compacted d' = Owned t"
    "length (id_to_term d') = length ts" "\<forall>x. term_to_id d' x = (if is_triple x then term_to_id d x else None)"
    using compact_steps [OF rep fit] by blast
  have miss: "handle_get_id (env_lit E) (env_bits E) (env_lz4 E) (compacted d') x = Some None"
    using tier_get_id_straddling [OF laws bits compact_entries_ok(1) [OF ok fit] compact_built [OF ok] dist
        compact_entries_ok(2) [OF ok fit] b key x] d'(2) unfolding d'(3) handle_get_id.simps by blast
  have "length (compact_terms (env_lit E) ts) = length (compact_entries (env_lit E) ts)" by (simp add: compact_entries_def)
  then have "(x, k) \<in> set (compact_terms (env_lit E) ts)" using b x by (metis nth_mem order.strict_trans)
  then have flat: "\<not> is_triple x" by (simp add: set_compact_terms)
  then have none: "term_to_id d' x = None" using d'(5) by simp
  have "dict_get_id E d' x = Some None" using none miss by (simp add: dict_get_id_def)
  moreover have "dict_intern E d' x = append_term d' x"
    using none miss flat by (cases x) (simp_all add: dict_intern.simps)
  ultimately show ?thesis using d'(1,4) room by (auto simp: append_term_tid)
qed

end

section \<open>Reconstruction\<close>

context dict_context
begin

lemma rep_resident:
  assumes "dict_rep E contents ts d" "None \<notin> set (id_to_term d)" "x \<in> set ts"
  shows "\<exists>i. term_to_id d x = Some i \<and> holds_at ts x i"
proof -
  obtain k where k: "k < length ts" "ts ! k = x" using assms(3) by (auto simp: in_set_conv_nth)
  have "length (id_to_term d) = length ts" using assms(1) by (simp add: dict_rep_def)
  then have "id_to_term d ! k = Some x" using rep_slot [OF assms(1) k(1)] k assms(2) by (metis nth_mem)
  then have "term_to_id d x = Some (tid k)"
    using assms(1) k(1) unfolding dict_rep_def holds_at_def by metis
  then show ?thesis using k by (auto simp: holds_at_def)
qed

lemma rebuild_terms_correct:
  assumes "terms_ok (env_lit E) (us @ vs)" "dict_rep E contents us d" "None \<notin> set (id_to_term d)"
  shows "\<exists>d'. rebuild_terms d (length us) vs = Some (d', Inr ()) \<and> dict_rep E contents (us @ vs) d' \<and>
    graph_to_id d' = graph_to_id d \<and> id_to_graph d' = id_to_graph d \<and> next_graph_id d' = next_graph_id d"
  using assms
proof (induction vs arbitrary: us d)
  case (Cons x vs)
  note rep = Cons.prems(2) and resident = rep_resident [OF Cons.prems(2,3)]
  have x: "x \<notin> set us" "term_ok (env_lit E) x" "length us < 2 ^ 40" using Cons.prems(1) by (auto simp: terms_ok_def)
  then have id: "term_id_new (of_nat (length us)) = Inr (tid (length us))" by (simp add: term_id_new_tid)
  have tr: "\<exists>c. triple_at us x c" if "is_triple x"
  proof -
    have "\<forall>k < length (us @ x # vs). is_triple ((us @ x # vs) ! k) \<longrightarrow>
        (\<exists>c. triple_at (take k (us @ x # vs)) ((us @ x # vs) ! k) c)"
      using Cons.prems(1) unfolding terms_ok_def by (elim conjE)
    from spec [OF this, of "length us"] show ?thesis using that by simp
  qed
  let ?push = "\<lambda>d. d\<lparr>id_to_term := id_to_term d @ [Some x], term_to_id := (term_to_id d)(x \<mapsto> tid (length us))\<rparr>"
  have push: "dict_rep E contents (us @ [x]) d' \<Longrightarrow> id_to_term d' = id_to_term d @ [Some x] \<Longrightarrow>
      graph_to_id d' = graph_to_id d \<Longrightarrow> id_to_graph d' = id_to_graph d \<Longrightarrow> next_graph_id d' = next_graph_id d \<Longrightarrow>
      rebuild_terms d (length us) (x # vs) = rebuild_terms d' (length (us @ [x])) vs \<Longrightarrow> ?case" for d'
    using Cons.IH [of "us @ [x]" d'] Cons.prems(1,3) by auto
  show ?case
  proof (cases "is_triple x")
    case False
    have "triples_ok (us @ [x]) (?push d)"
      using rep x(1) False by (intro triples_ok_append [of "env_lit E" us x _ d]) (auto simp: dict_rep_def)
    then have "dict_rep E contents (us @ [x]) (?push d)"
      using x False by (intro rep_push [OF rep]) auto
    then show ?thesis using id False by (intro push [of "?push d"]) (cases x; simp)+
  next
    case True
    then obtain s p ob where sp: "x = Triple s p ob" by (cases x) auto
    obtain c where "triple_at us x c" using tr True by blast
    then have mem: "subject_term s \<in> set us" "NamedNode p \<in> set us" "ob \<in> set us"
      using sp by (auto simp: triple_at_def dest: holds_at_mem)
    obtain i j l where ids: "term_to_id d (subject_term s) = Some i" "term_to_id d (NamedNode p) = Some j"
        "term_to_id d ob = Some l" and "holds_at us (subject_term s) i" "holds_at us (NamedNode p) j" "holds_at us ob l"
      using resident [OF mem(1)] resident [OF mem(2)] resident [OF mem(3)] by blast
    then have c: "triple_at us x (i, j, l)" using sp by (simp add: triple_at_def)
    let ?d = "?push (d\<lparr>triple_terms := (triple_terms d)(tid (length us) \<mapsto> (i, j, l)),
                        triple_index := (triple_index d)((i, j, l) \<mapsto> tid (length us))\<rparr>)"
    have "triples_ok (us @ [x]) ?d"
      using rep x(1) c by (intro triples_ok_append_triple [of "env_lit E" us x "(i, j, l)" _ d]) (auto simp: dict_rep_def)
    then have "dict_rep E contents (us @ [x]) ?d"
      using x tr by (intro rep_push [OF rep]) auto
    then show ?thesis using id ids sp by (intro push [of ?d]) simp_all
  qed
qed simp

end

section \<open>Graph identifiers\<close>

text \<open>
  The graph tables are inverse to each other, the default graph has identifier 0, and exactly the
  identifiers below the next one are in use, or all of them when the next one is the sentinel 0.
\<close>

definition graphs_ok :: "('l, 'v, 'c) dictionary \<Rightarrow> bool" where
  "graphs_ok d \<longleftrightarrow> (\<forall>g i. graph_to_id d g = Some i \<longleftrightarrow> id_to_graph d (as_u8 i) = Some g) \<and>
     graph_to_id d DefaultGraph = Some GRAPH_DEFAULT \<and>
     (\<forall>raw. id_to_graph d raw \<noteq> None \<longleftrightarrow> next_graph_id d = 0 \<or> raw < next_graph_id d)"

lemma as_u8_eq_iff: "as_u8 i = as_u8 j \<longleftrightarrow> i = j"
  by (cases i; cases j) simp

lemma graphs_ok_new: "graphs_ok (dict_new E)"
proof -
  have "raw < 1 \<longleftrightarrow> raw = 0" for raw :: u8 by (simp add: word_less_1)
  then show ?thesis
    by (auto simp: graphs_ok_def dict_new_def GRAPH_DEFAULT_def as_u8_eq_iff [symmetric] split: if_splits)
qed

lemma next_graph_less:
  assumes "(n :: u8) \<noteq> 0"
  shows "(if n = - 1 then 0 else n + 1) = 0 \<or> raw < (if n = - 1 then 0 else n + 1) \<longleftrightarrow> raw < n \<or> raw = n"
proof (cases "n = - 1")
  case True
  then show ?thesis using word_n1_ge [of raw] by (auto simp: order.order_iff_strict)
next
  case False
  then have "1 + n \<noteq> 0" by (simp add: add_eq_0_iff)
  then have "unat (n + 1) = Suc (unat n)" using unatSuc [of n] by (simp add: add.commute)
  then show ?thesis
    using False by (auto simp: word_less_nat_alt less_Suc_eq word_unat_eq_iff add_eq_0_iff2)
qed

lemma intern_graph_ok:
  assumes ok: "graphs_ok d" and i: "intern_graph d g = (d', Inr i)"
  shows "graphs_ok d' \<and> get_graph_id d' g = Some i \<and> get_graph d' i = Some g \<and>
    (\<forall>h j. get_graph_id d h = Some j \<longrightarrow> get_graph_id d' h = Some j)"
proof (cases "graph_to_id d g")
  case (Some j)
  then show ?thesis using ok i by (auto simp: intern_graph_def graphs_ok_def get_graph_id_def get_graph_def)
next
  case None
  let ?n = "next_graph_id d"
  have g: "g \<noteq> DefaultGraph" using None ok by (auto simp: graphs_ok_def)
  then have n: "?n \<noteq> 0" using None i by (auto simp: intern_graph_def)
  have d': "i = GraphId ?n" "graph_to_id d' = (graph_to_id d)(g \<mapsto> i)" "id_to_graph d' = (id_to_graph d)(?n \<mapsto> g)"
    "next_graph_id d' = (if ?n = - 1 then 0 else ?n + 1)"
    using None i g n by (auto simp: intern_graph_def Let_def)
  have free: "id_to_graph d ?n = None" using ok n by (auto simp: graphs_ok_def)
  have used: "id_to_graph d raw \<noteq> None \<longleftrightarrow> raw < ?n" for raw using ok n by (auto simp: graphs_ok_def)
  have old: "graph_to_id d h = Some j \<longleftrightarrow> id_to_graph d (as_u8 j) = Some h" for h j using ok by (simp add: graphs_ok_def)
  have "graph_to_id d' h = Some j \<longleftrightarrow> id_to_graph d' (as_u8 j) = Some h" for h j
    using d' free None old [of h j] old [of g j] by (cases j) auto
  moreover have "id_to_graph d' raw \<noteq> None \<longleftrightarrow> next_graph_id d' = 0 \<or> raw < next_graph_id d'" for raw
    using used [of raw] unfolding d' next_graph_less [OF n] by auto
  moreover have "graph_to_id d' DefaultGraph = Some GRAPH_DEFAULT" using ok g d'(2) by (simp add: graphs_ok_def)
  ultimately have "graphs_ok d'" by (simp add: graphs_ok_def)
  then show ?thesis using d' None by (auto simp: get_graph_id_def get_graph_def)
qed

lemma intern_graph_error:
  assumes "graphs_ok d" "intern_graph d g = (d', Inl e)"
  shows "d' = d \<and> e = GraphSpaceExhausted \<and> get_graph_id d g = None \<and> (\<forall>i. get_graph d i \<noteq> None)"
proof -
  have "graph_to_id d g = None" "g \<noteq> DefaultGraph" "next_graph_id d = 0" "d' = d" "e = GraphSpaceExhausted"
    using assms by (auto simp: intern_graph_def Let_def split: option.splits if_splits)
  then show ?thesis using assms(1) by (auto simp: graphs_ok_def get_graph_id_def get_graph_def)
qed

text \<open>Restoring the graph tables from the pairs of one of them, in any order.\<close>

definition restore_graphs :: "(u8 \<times> graph_name) list \<Rightarrow> ('l, 'v, 'c) dictionary \<Rightarrow> ('l, 'v, 'c) dictionary" where
  "restore_graphs graphs d = fold (\<lambda>(raw, g) d. d\<lparr>graph_to_id := (graph_to_id d)(g \<mapsto> GraphId raw),
     id_to_graph := (id_to_graph d)(raw \<mapsto> g)\<rparr>) graphs d"

lemma map_add_rev_Cons: "m ++ map_of (rev ((k, v) # xs)) = m(k \<mapsto> v) ++ map_of (rev xs)"
proof -
  have "map_of (rev ((k, v) # xs)) = [k \<mapsto> v] ++ map_of (rev xs)" by (simp add: fun_eq_iff map_add_def)
  then show ?thesis by (simp add: map_add_assoc del: rev.simps)
qed

lemma restore_graphs_tables:
  "restore_graphs graphs d = d\<lparr>
     graph_to_id := graph_to_id d ++ map_of (rev (map (\<lambda>(raw, g). (g, GraphId raw)) graphs)),
     id_to_graph := id_to_graph d ++ map_of (rev graphs)\<rparr>"
proof (induction graphs arbitrary: d)
  case (Cons x graphs)
  obtain raw g where x: "x = (raw, g)" by (cases x)
  let ?d = "d\<lparr>graph_to_id := (graph_to_id d)(g \<mapsto> GraphId raw), id_to_graph := (id_to_graph d)(raw \<mapsto> g)\<rparr>"
  have step: "restore_graphs (x # graphs) d = restore_graphs graphs ?d" by (simp add: restore_graphs_def x)
  show ?case
    unfolding step Cons [of ?d] unfolding x list.map prod.case map_add_rev_Cons by simp
qed (simp add: restore_graphs_def)

lemma restored_graphs:
  assumes ok: "graphs_ok d0" and "distinct (map fst graphs)" "map_of graphs = id_to_graph d0"
    and d: "graph_to_id d = Map.empty" "id_to_graph d = Map.empty"
  shows "id_to_graph (restore_graphs graphs d) = id_to_graph d0" "graph_to_id (restore_graphs graphs d) = graph_to_id d0"
proof -
  have "distinct (map fst (rev graphs))" using assms(2) by (simp add: rev_map [symmetric])
  then have "map_of (rev graphs) = map_of graphs"
    using assms(2) by (intro map_of_inject_set [THEN iffD2]) auto
  then show "id_to_graph (restore_graphs graphs d) = id_to_graph d0"
    using assms(3) d(2) by (simp add: restore_graphs_tables)
  let ?pairs = "rev (map (\<lambda>(raw, g). (g, GraphId raw)) graphs)"
  have mem: "(g, i) \<in> set ?pairs \<longleftrightarrow> graph_to_id d0 g = Some i" for g i
  proof -
    have "(g, i) \<in> set ?pairs \<longleftrightarrow> (as_u8 i, g) \<in> set graphs" by (cases i) (force simp: image_iff split_beta)
    also have "\<dots> \<longleftrightarrow> id_to_graph d0 (as_u8 i) = Some g" using assms(2,3) by (metis map_of_eq_Some_iff)
    finally show ?thesis using ok by (simp add: graphs_ok_def)
  qed
  have "map_of ?pairs g = graph_to_id d0 g" for g
  proof (cases "map_of ?pairs g")
    case None
    then have "\<nexists>i. (g, i) \<in> set ?pairs" by (force simp: map_of_eq_None_iff)
    then show ?thesis using None mem by (metis not_None_eq)
  next
    case (Some i)
    then show ?thesis using map_of_SomeD mem by metis
  qed
  then have "map_of ?pairs = graph_to_id d0" by (rule ext)
  then show "graph_to_id (restore_graphs graphs d) = graph_to_id d0" using d(1) by (simp add: restore_graphs_tables)
qed

context dict_context
begin

lemma rebuild_correct:
  assumes rep: "dict_rep E contents ts d0" and ok: "graphs_ok d0"
    and graphs: "distinct (map fst graphs)" "map_of graphs = id_to_graph d0"
  shows "\<exists>d. dict_rebuild E ts graphs (next_graph_id d0) = Some (Inr d) \<and> dict_rep E contents ts d \<and>
    graph_to_id d = graph_to_id d0 \<and> id_to_graph d = id_to_graph d0 \<and> next_graph_id d = next_graph_id d0"
proof -
  let ?e = "\<lparr>id_to_term = [], term_to_id = Map.empty, compacted = Owned (tier_empty (env_bits E)),
               decode_cache = lru_new (env_lru E) DECODE_CACHE_CAPACITY,
               graph_to_id = Map.empty, id_to_graph = Map.empty, next_graph_id = next_graph_id d0,
               triple_terms = Map.empty, triple_index = Map.empty\<rparr>"
  have "dict_rep E contents [] ?e"
    using rep_new by (simp add: dict_rep_def dict_new_def terms_ok_def triples_ok_def)
  moreover have "terms_ok (env_lit E) ([] @ ts)" using rep by (simp add: dict_rep_def)
  ultimately obtain d where d: "rebuild_terms ?e 0 ts = Some (d, Inr ())" "dict_rep E contents ts d"
      "graph_to_id d = Map.empty" "id_to_graph d = Map.empty" "next_graph_id d = next_graph_id d0"
    using rebuild_terms_correct [of "[]" ts ?e] by auto
  note tables = restored_graphs [OF ok graphs d(3,4)]
  have "graph_to_id d0 DefaultGraph = Some GRAPH_DEFAULT" "id_to_graph d0 0 = Some DefaultGraph"
    using ok by (auto simp: graphs_ok_def GRAPH_DEFAULT_def)
  then have "or_insert (graph_to_id d0) DefaultGraph GRAPH_DEFAULT = graph_to_id d0"
    "or_insert (id_to_graph d0) 0 DefaultGraph = id_to_graph d0" by (simp_all add: or_insert_def)
  then have "dict_rebuild E ts graphs (next_graph_id d0) = Some (Inr (restore_graphs graphs d))"
    using d(1) tables by (simp add: dict_rebuild_def Let_def restore_graphs_def [symmetric] restore_graphs_tables)
  moreover have "dict_rep E contents ts (restore_graphs graphs d)"
    using d(2) by (simp add: restore_graphs_tables dict_rep_def triples_ok_def)
  moreover have "next_graph_id (restore_graphs graphs d) = next_graph_id d0"
    using d(5) by (simp add: restore_graphs_tables)
  ultimately show ?thesis using tables by blast
qed

end

section \<open>What the dictionary operations leave alone\<close>

definition graph_tables :: "('l, 'v, 'c) dictionary \<Rightarrow> (graph_name \<rightharpoonup> graph_id) \<times> (u8 \<rightharpoonup> graph_name) \<times> u8" where
  "graph_tables d = (graph_to_id d, id_to_graph d, next_graph_id d)"

lemma graph_tables_updates [simp]:
  "graph_tables (d\<lparr>id_to_term := a\<rparr>) = graph_tables d" "graph_tables (d\<lparr>term_to_id := b\<rparr>) = graph_tables d"
  "graph_tables (d\<lparr>compacted := t\<rparr>) = graph_tables d" "graph_tables (d\<lparr>decode_cache := c\<rparr>) = graph_tables d"
  "graph_tables (d\<lparr>triple_terms := u\<rparr>) = graph_tables d" "graph_tables (d\<lparr>triple_index := v\<rparr>) = graph_tables d"
  by (simp_all add: graph_tables_def)

lemma graph_tables_graphs:
  assumes "graph_tables d' = graph_tables d"
  shows "graphs_ok d' = graphs_ok d" "get_graph_id d' = get_graph_id d" "get_graph d' = get_graph d"
  using assms by (auto simp: graph_tables_def graphs_ok_def get_graph_id_def get_graph_def fun_eq_iff)

lemma append_term_tables: "append_term d x = Some (d', r) \<Longrightarrow> graph_tables d' = graph_tables d"
  by (auto simp: append_term_def split: sum.splits)

lemma dict_intern_tables: "dict_intern E d x = Some (d', r) \<Longrightarrow> graph_tables d' = graph_tables d"
proof (induction x arbitrary: d d' r)
  case (Triple s p ob)
  have flat: "graph_tables d' = graph_tables d"
    if "dict_intern E d y = Some (d', r)" "\<not> is_triple y" for y and d d' :: "('a, 'b, 'c) dictionary" and r
    using that append_term_tables
    by (subst (asm) dict_intern.simps) (cases y; auto split: option.splits bind_splits)
  show ?case
    using Triple.prems Triple.IH
    by (subst (asm) dict_intern.simps)
      (auto elim!: seq_Some_cases dest!: flat [where y = "subject_term s", simplified] flat [where y = "NamedNode p", simplified]
        append_term_tables simp: Let_def split: option.splits)
qed (subst (asm) dict_intern.simps, auto dest: append_term_tables split: option.splits bind_splits)+

lemma get_term_arc_tables: "get_term_arc E d i = Some (r, d') \<Longrightarrow> graph_tables d' = graph_tables d"
  by (auto simp: get_term_arc_def split: option.splits prod.splits bind_splits)

lemma free_terms_tables: "free_terms d ids = Some d' \<Longrightarrow> graph_tables d' = graph_tables d"
  by (induction ids arbitrary: d) (auto split: if_splits option.splits bind_splits)

lemma dict_compact_tables: "dict_compact E d = Some (d', r) \<Longrightarrow> graph_tables d' = graph_tables d"
  by (auto simp: dict_compact_def Let_def dest: free_terms_tables split: sum.splits bind_splits)

lemma dict_rep_graphs:
  assumes "dict_rep E contents ts d"
  shows "dict_rep E contents ts (d\<lparr>graph_to_id := a, id_to_graph := b, next_graph_id := c\<rparr>)"
    "dict_rep E contents ts (d\<lparr>graph_to_id := a, id_to_graph := b\<rparr>)"
    "dict_rep E contents ts (d\<lparr>next_graph_id := c, graph_to_id := a, id_to_graph := b\<rparr>)"
  using assms by (simp_all add: dict_rep_def triples_ok_def)

lemma intern_graph_rep:
  "intern_graph d g = (d', r) \<Longrightarrow> dict_rep E contents ts d \<Longrightarrow> dict_rep E contents ts d'"
  by (auto simp: intern_graph_def Let_def dict_rep_graphs split: option.splits if_splits)

section \<open>An environment\<close>

definition example_env :: "(rdf_literal, nat \<times> nat list, nat \<times> (term_id \<times> rdf_literal rdf_term) list) dict_env" where
  "example_env = \<lparr>env_lit = example_literals, env_bits = list_bits, env_lz4 = plain_lz4, env_lru = list_lru\<rparr>"

interpretation example_dict: dict_context example_env list_contents
  by (rule dict_context.intro)
    (simp_all add: example_env_def example_langs_ok(1) list_bits.bit_field_vec_axioms list_lru.lru_cache_axioms)

lemma example_rep:
  assumes "terms_ok example_literals ts"
  shows "\<exists>d. dict_rep example_env list_contents ts d \<and> graph_tables d = graph_tables (dict_new example_env)"
  using example_dict.rebuild_terms_correct [of "[]" ts "dict_new example_env"] example_dict.rep_new assms
  by (auto simp: example_env_def dict_new_def graph_tables_def)

definition example_terms :: "rdf_literal rdf_term list" where
  "example_terms = [NamedNode [97], NamedNode [98], Triple (SubjNamed [97]) [98] (NamedNode [97])]"

lemma triple_atI:
  "holds_at ts (subject_term s) i \<Longrightarrow> holds_at ts (NamedNode p) j \<Longrightarrow> holds_at ts ob k \<Longrightarrow>
   \<exists>c. triple_at ts (Triple s p ob) c"
  by (rule exI [of _ "(i, j, k)"]) (simp add: triple_at_def)

lemma example_terms_ok: "terms_ok example_literals example_terms"
proof -
  let ?ts = "[NamedNode [97], NamedNode [98]] :: rdf_literal rdf_term list"
  have "terms_ok example_literals ?ts" by (auto simp: terms_ok_def less_Suc_eq nth_Cons')
  moreover have "\<exists>c. triple_at ?ts (Triple (SubjNamed [97]) [98] (NamedNode [97])) c"
    by (rule triple_atI [of _ _ "tid 0" _ "tid 1" _ "tid 0"]) (auto simp: holds_at_def less_Suc_eq)
  ultimately have "terms_ok example_literals (?ts @ [Triple (SubjNamed [97]) [98] (NamedNode [97])])"
    by (intro terms_ok_append) simp_all
  then show ?thesis by (simp add: example_terms_def)
qed

lemma example_entries:
  "compact_terms example_literals example_terms = [(NamedNode [97], 0), (NamedNode [98], 1)]"
  "compact_entries example_literals example_terms = [(0, [97], [], 0), (0, [98], [], 1)]"
proof -
  have "flat_ids example_terms = [0, 1]" by (simp add: flat_ids_def example_terms_def)
  then show t: "compact_terms example_literals example_terms = [(NamedNode [97], 0), (NamedNode [98], 1)]"
    by (simp add: compact_terms_def example_terms_def)
  show "compact_entries example_literals example_terms = [(0, [97], [], 0), (0, [98], [], 1)]"
    by (simp add: compact_entries_def t entry_of_def)
qed

lemma example_lang_terms:
  "terms_ok example_literals (map fst example_langs)"
  "compact_terms example_literals (map fst example_langs) = example_langs"
  "compact_entries example_literals (map fst example_langs) = example_lang_entries"
proof -
  show "terms_ok example_literals (map fst example_langs)"
  proof (rule terms_ok_flat)
    show "\<forall>x \<in> set (map fst example_langs). flat_term example_literals x"
      by (simp add: example_langs_def upt_9 example_literals_def std_literal_api_def literal_strings_def)
  qed (simp_all add: example_langs_ok(4), simp add: example_langs_def)
  have "flat_ids (map fst example_langs) = [0..<9]" by (simp add: flat_ids_def example_langs_def upt_9)
  then show t: "compact_terms example_literals (map fst example_langs) = example_langs"
    by (simp add: compact_terms_def upt_9 example_langs_def example_literals_def std_literal_api_def)
  show "compact_entries example_literals (map fst example_langs) = example_lang_entries"
    unfolding compact_entries_def t
    by (simp add: example_langs_def example_lang_entries_def upt_9 entry_of_def example_literals_def std_literal_api_def)
qed

section \<open>Properties\<close>

text \<open>
  (C22) Interning refines the abstract operation on term lists: with room in the 40-bit identifier
  space it returns the identifier of the term in the list that is extended by exactly the new
  components and the term, in that order, all earlier identifiers keeping their terms; without room
  it reports exhaustion and leaves a valid dictionary that still holds every earlier term.
\<close>

theorem intern_refines:
  assumes "dict_context E contents" "dict_rep E contents ts d" "term_ok (env_lit E) x"
  shows "if length (intern_spec ts x) \<le> 2 ^ 40
    then \<exists>d' i. dict_intern E d x = Some (d', Inr i) \<and> dict_rep E contents (intern_spec ts x) d' \<and>
      holds_at (intern_spec ts x) x i
    else \<exists>d' us. dict_intern E d x = Some (d', Inl IdSpaceExhausted) \<and> dict_rep E contents (ts @ us) d'"
  using dict_context.intern_correct [OF assms] unfolding interned_def .

theorem intern_refines_witness:
  "\<exists>d'. dict_intern example_env (dict_new example_env) (Triple (SubjNamed [97]) [98] (NamedNode [97])) =
      Some (d', Inr (TermId 2)) \<and> dict_rep example_env list_contents example_terms d'"
proof -
  let ?x = "Triple (SubjNamed [97]) [98] (NamedNode [97]) :: rdf_literal rdf_term"
  have spec: "intern_spec [] ?x = example_terms"
    by (simp add: intern_spec_def add_term_def example_terms_def)
  have "term_ok (env_lit example_env) ?x" by simp
  from intern_refines [OF example_dict.dict_context_axioms example_dict.rep_new this] spec
  obtain d' i where d': "dict_intern example_env (dict_new example_env) ?x = Some (d', Inr i)"
      "dict_rep example_env list_contents example_terms d'" "holds_at example_terms ?x i"
    by (auto simp: example_terms_def)
  then have "i = TermId 2" by (auto simp: holds_at_def example_terms_def less_Suc_eq tid_def numeral_2_eq_2)
  then show ?thesis using d' by blast
qed



text \<open>
  (C29) Looking up a quoted triple that was never interned, in a dictionary with a compacted term,
  reaches the unreachable branch of the sort key and panics instead of returning nothing.
\<close>

theorem get_id_unknown_triple_panics:
  assumes "dict_context E contents" "dict_rep E contents ts d" "is_triple x" "x \<notin> set ts"
    and "None \<in> set (id_to_term d)"
  shows "dict_get_id E d x = None"
  by (rule dict_context.get_id_panics [OF assms])

theorem get_id_unknown_triple_panics_witness:
  "\<exists>d d'. dict_rep example_env list_contents [NamedNode [97]] d \<and> dict_compact example_env d = Some (d', Inr ()) \<and>
     dict_get_id example_env d' (Triple (SubjNamed [97]) [98] (NamedNode [97])) = None"
proof -
  let ?ts = "[NamedNode [97]] :: rdf_literal rdf_term list"
  have "terms_ok example_literals ?ts" by (rule terms_ok_flat) simp_all
  then obtain d where d: "dict_rep example_env list_contents ?ts d" using example_rep by blast
  have es: "compact_entries example_literals ?ts = [(0, [97], [], 0)]"
    by (simp add: compact_entries_def compact_terms_def flat_ids_def entry_of_def)
  obtain d' where d': "dict_compact example_env d = Some (d', Inr ())" "dict_rep example_env list_contents ?ts d'"
      "id_to_term d' ! 0 = None"
    using example_dict.compact_correct [OF d] es
    by (auto simp: example_env_def entries_fit_def no_straddling_def BLOCK_SIZE_def)
  have "length (id_to_term d') = 1" using d'(2) by (simp add: dict_rep_def)
  then have "None \<in> set (id_to_term d')" using d'(3) by (metis less_one nth_mem)
  then have "dict_get_id example_env d' (Triple (SubjNamed [97]) [98] (NamedNode [97])) = None"
    by (intro get_id_unknown_triple_panics [OF example_dict.dict_context_axioms d'(2)]) simp_all
  then show ?thesis using d d'(1) by blast
qed

text \<open>
  (C24) Decoding an identifier returns the term interned under it, whichever tier holds it and
  whatever the decode cache holds, and nothing for an identifier that was never assigned; filling
  the cache keeps the dictionary valid.
\<close>

theorem get_term_arc_exact:
  assumes "dict_context E contents" "dict_rep E contents ts d"
  shows "\<exists>d'. get_term_arc E d i = Some (nth_opt ts (unat (as_u64 i)), d') \<and> dict_rep E contents ts d'"
  by (rule dict_context.get_term_arc_correct [OF assms])

theorem get_term_arc_exact_witness:
  "\<exists>d d'. get_term_arc example_env d (TermId 1) = Some (Some (NamedNode [98]), d')"
proof -
  obtain d where d: "dict_rep example_env list_contents example_terms d" using example_rep [OF example_terms_ok] by blast
  from get_term_arc_exact [OF example_dict.dict_context_axioms d, of "TermId 1"] show ?thesis
    by (auto simp: example_terms_def)
qed

text \<open>
  (C23) Compaction keeps the dictionary: when the encoded entries fit their offsets and no key
  straddles a block boundary, it returns without error, every identifier keeps its term, and the
  terms other than quoted triples are freed from the delta tier.
\<close>

theorem compact_keeps_terms:
  assumes "dict_context E contents" "dict_rep E contents ts d"
    and "entries_fit (compact_entries (env_lit E) ts)" "no_straddling (compact_entries (env_lit E) ts)"
  shows "\<exists>d'. dict_compact E d = Some (d', Inr ()) \<and> dict_rep E contents ts d' \<and>
    (\<forall>k < length ts. id_to_term d' ! k = (if is_triple (ts ! k) then Some (ts ! k) else None))"
  by (rule dict_context.compact_correct [OF assms])

theorem compact_keeps_terms_witness:
  "\<exists>d d'. dict_rep example_env list_contents example_terms d \<and> dict_compact example_env d = Some (d', Inr ()) \<and>
     dict_rep example_env list_contents example_terms d' \<and> id_to_term d' ! 0 = None"
proof -
  obtain d where d: "dict_rep example_env list_contents example_terms d" using example_rep [OF example_terms_ok] by blast
  have "entries_fit (compact_entries (env_lit example_env) example_terms)"
    "no_straddling (compact_entries (env_lit example_env) example_terms)"
    by (auto simp: example_env_def example_entries entries_fit_def no_straddling_def BLOCK_SIZE_def)
  from compact_keeps_terms [OF example_dict.dict_context_axioms d this] show ?thesis
    using d by (auto simp: example_terms_def)
qed

text \<open>
  (C28) Compaction loses terms whose key straddles a block boundary: a term stored before a block
  that opens with the same tag and primary string is no longer found after compaction, and interning
  it again assigns it a second identifier.
\<close>

theorem compact_duplicates_straddling:
  assumes "dict_context E contents" "dict_rep E contents ts d" "entries_fit (compact_entries (env_lit E) ts)"
    and "0 < b" "b * BLOCK_SIZE < length (compact_entries (env_lit E) ts)" "j < b * BLOCK_SIZE"
    and "entry_key (compact_entries (env_lit E) ts ! j) = entry_key (compact_entries (env_lit E) ts ! (b * BLOCK_SIZE))"
    and "compact_terms (env_lit E) ts ! j = (x, k)" "length ts < 2 ^ 40"
  shows "\<exists>d' d''. dict_compact E d = Some (d', Inr ()) \<and> dict_get_id E d' x = Some None \<and>
    dict_intern E d' x = Some (d'', Inr (tid (length ts)))"
  by (rule dict_context.compact_loses_straddling [OF assms])

theorem compact_duplicates_straddling_witness:
  "\<exists>d d' d''. dict_rep example_env list_contents (map fst example_langs) d \<and>
     map fst example_langs ! 4 = Literal (LangLiteral [120] [101]) \<and>
     dict_compact example_env d = Some (d', Inr ()) \<and>
     dict_get_id example_env d' (Literal (LangLiteral [120] [101])) = Some None \<and>
     dict_intern example_env d' (Literal (LangLiteral [120] [101])) = Some (d'', Inr (tid 9))"
proof -
  obtain d where d: "dict_rep example_env list_contents (map fst example_langs) d"
    using example_rep [OF example_lang_terms(1)] by blast
  have env: "env_lit example_env = example_literals" by (simp add: example_env_def)
  have fit: "entries_fit example_lang_entries"
    using length_write_varint_10 [of 1] by (simp add: entries_fit_def example_lang_entries_def upt_9 write_str_def)
  have fourth: "map fst example_langs ! 4 = Literal (LangLiteral [120] [101])" "length (map fst example_langs) = 9"
    by (simp_all add: example_langs_def upt_9)
  have "\<exists>d' d''. dict_compact example_env d = Some (d', Inr ()) \<and>
      dict_get_id example_env d' (Literal (LangLiteral [120] [101])) = Some None \<and>
      dict_intern example_env d' (Literal (LangLiteral [120] [101])) = Some (d'', Inr (tid (length (map fst example_langs))))"
  proof (rule compact_duplicates_straddling [OF example_dict.dict_context_axioms d, unfolded env example_lang_terms, OF fit])
    show "(0::nat) < 1" "4 < 1 * BLOCK_SIZE" by (simp_all add: BLOCK_SIZE_def)
    show "1 * BLOCK_SIZE < length example_lang_entries"
      "entry_key (example_lang_entries ! 4) = entry_key (example_lang_entries ! (1 * BLOCK_SIZE))"
      "example_langs ! 4 = (Literal (LangLiteral [120] [101]), 4)"
      by (simp_all add: example_lang_entries_def example_langs_def upt_9 BLOCK_SIZE_def)
    show "length (map fst example_langs) < 2 ^ 40" unfolding fourth by simp
  qed
  then show ?thesis using d fourth by auto
qed

text \<open>
  (C26) Saving and rebuilding restores the dictionary: listing the terms in identifier order returns
  exactly the interned terms, and rebuilding from that list, the pairs of the graph table in any order
  and the next graph identifier gives a dictionary with the same terms under the same identifiers and
  the same graph tables.
\<close>

theorem rebuild_roundtrip:
  assumes "dict_context E contents" "dict_rep E contents ts d0" "graphs_ok d0"
    and "distinct (map fst graphs)" "map_of graphs = id_to_graph d0"
  shows "\<exists>terms d. terms_in_order E d0 = Some terms \<and>
    dict_rebuild E terms graphs (next_graph_id d0) = Some (Inr d) \<and> dict_rep E contents ts d \<and>
    graph_to_id d = graph_to_id d0 \<and> id_to_graph d = id_to_graph d0 \<and> next_graph_id d = next_graph_id d0"
  using dict_context.terms_in_order_correct [OF assms(1,2)] dict_context.rebuild_correct [OF assms] by blast

theorem rebuild_roundtrip_witness:
  "\<exists>terms d. terms_in_order example_env (dict_new example_env) = Some terms \<and>
     dict_rebuild example_env terms [(0, DefaultGraph)] 1 = Some (Inr d) \<and> dict_rep example_env list_contents [] d"
proof -
  have "map_of [(0, DefaultGraph)] = id_to_graph (dict_new example_env)" by (simp add: dict_new_def)
  from rebuild_roundtrip [OF example_dict.dict_context_axioms example_dict.rep_new graphs_ok_new _ this]
  show ?thesis by (auto simp: dict_new_def)
qed

text \<open>
  (C27) Interning a graph name keeps the graph tables inverse to each other: it returns the
  identifier under which both tables hold the name, keeps every earlier assignment, and fails only
  for a new name when all 256 identifiers are in use, leaving the tables as they are.
\<close>

theorem intern_graph_bijection:
  assumes "graphs_ok d"
  shows "case intern_graph d g of
      (d', Inr i) \<Rightarrow> graphs_ok d' \<and> get_graph_id d' g = Some i \<and> get_graph d' i = Some g \<and>
        (\<forall>h j. get_graph_id d h = Some j \<longrightarrow> get_graph_id d' h = Some j)
    | (d', Inl e) \<Rightarrow> d' = d \<and> e = GraphSpaceExhausted \<and> get_graph_id d g = None \<and> (\<forall>i. get_graph d i \<noteq> None)"
  using intern_graph_ok [OF assms] intern_graph_error [OF assms]
  by (cases "intern_graph d g"; cases "snd (intern_graph d g)") auto

theorem intern_graph_bijection_witness:
  "case intern_graph (dict_new example_env) (GraphNamed [103]) of
      (d', Inr i) \<Rightarrow> i = GraphId 1 \<and> get_graph d' i = Some (GraphNamed [103]) \<and> graphs_ok d'
    | (d', Inl e) \<Rightarrow> False"
  using intern_graph_bijection [OF graphs_ok_new, of example_env "GraphNamed [103]"]
  by (simp add: intern_graph_def dict_new_def Let_def)

end
