(* ===== verification/MemoryStore.thy ===== *)
theory MemoryStore
  imports QuadStore
begin

text \<open>
  The reference backend of \<^verbatim>\<open>crates/engines/nova-engine-memory/src/lib.rs\<close>: a vector of quads
  scanned linearly and the set of registered graph names. It interprets the storage contract and is the
  specification other backends are compared with. The iteration order of the hash set is the parameter
  \<open>ord\<close>, a function that lists a finite set.
\<close>

record 'l memory_store =
  mem_quads :: "'l quad list"
  named_graph_iris :: "rstring set"

definition mem_new :: "'l memory_store" where
  "mem_new = \<lparr>mem_quads = [], named_graph_iris = {}\<rparr>"

definition mem_insert :: "'l memory_store \<Rightarrow> 'l quad \<Rightarrow> ('l memory_store, bool) outcome" where
  "mem_insert s q =
     (let s = (case quad_graph q of
                 GraphNamed n \<Rightarrow> s\<lparr>named_graph_iris := insert n (named_graph_iris s)\<rparr>
               | _ \<Rightarrow> s)
      in if q \<in> set (mem_quads s) then Some (s, Inr False)
         else Some (s\<lparr>mem_quads := mem_quads s @ [q]\<rparr>, Inr True))"

text \<open>\<^verbatim>\<open>Iterator::position\<close> and \<^verbatim>\<open>Vec::swap_remove\<close>.\<close>

fun position :: "('a \<Rightarrow> bool) \<Rightarrow> 'a list \<Rightarrow> nat option" where
  "position P [] = None"
| "position P (x # xs) = (if P x then Some 0 else map_option Suc (position P xs))"

definition swap_remove :: "'a list \<Rightarrow> nat \<Rightarrow> 'a list" where
  "swap_remove xs i = butlast (xs[i := last xs])"

definition mem_remove :: "'l memory_store \<Rightarrow> 'l quad \<Rightarrow> ('l memory_store, bool) outcome" where
  "mem_remove s q =
     (case position (\<lambda>x. x = q) (mem_quads s) of
        Some pos \<Rightarrow> Some (s\<lparr>mem_quads := swap_remove (mem_quads s) pos\<rparr>, Inr True)
      | None \<Rightarrow> Some (s, Inr False))"

definition is_none_or :: "'a option \<Rightarrow> ('a \<Rightarrow> bool) \<Rightarrow> bool" where
  "is_none_or x P \<longleftrightarrow> (case x of None \<Rightarrow> True | Some v \<Rightarrow> P v)"

definition mem_quads_for_pattern ::
  "'l memory_store \<Rightarrow> 'l rdf_term option \<Rightarrow> rstring option \<Rightarrow> 'l rdf_term option \<Rightarrow> graph_name option \<Rightarrow>
   'l stored_quad list result" where
  "mem_quads_for_pattern s sub pred ob g =
     Inr (map stored_quad_from
       (filter (\<lambda>q. is_none_or sub (\<lambda>x. subject_term (quad_subject q) = x) \<and>
                     is_none_or pred (\<lambda>x. quad_predicate q = x) \<and>
                     is_none_or ob (\<lambda>x. quad_object q = x) \<and>
                     is_none_or g (\<lambda>x. quad_graph q = x)) (mem_quads s)))"

definition mem_len :: "'l memory_store \<Rightarrow> nat result" where
  "mem_len s = Inr (length (mem_quads s))"

definition mem_contains :: "'l memory_store \<Rightarrow> 'l quad \<Rightarrow> bool result" where
  "mem_contains s q = Inr (q \<in> set (mem_quads s))"

definition mem_known_named_graphs :: "(rstring set \<Rightarrow> rstring list) \<Rightarrow> 'l memory_store \<Rightarrow> graph_name list result" where
  "mem_known_named_graphs ord s = Inr (map GraphNamed (ord (named_graph_iris s)))"

definition mem_register_named_graph :: "'l memory_store \<Rightarrow> graph_name \<Rightarrow> 'l memory_store \<times> unit result" where
  "mem_register_named_graph s g =
     (case g of
        GraphNamed n \<Rightarrow> (s\<lparr>named_graph_iris := insert n (named_graph_iris s)\<rparr>, Inr ())
      | _ \<Rightarrow> (s, Inr ()))"

lemma is_none_or_eq: "is_none_or v (\<lambda>x. w = x) \<longleftrightarrow> (\<forall>x. v = Some x \<longrightarrow> w = x)"
  by (auto simp: is_none_or_def split: option.splits)

section \<open>The contract\<close>

lemma position_Some: "position P xs = Some i \<Longrightarrow> i < length xs \<and> P (xs ! i)"
  by (induction xs arbitrary: i) (auto split: if_splits)

lemma position_None: "position P xs = None \<longleftrightarrow> (\<forall>x \<in> set xs. \<not> P x)"
  by (induction xs) auto

lemma swap_remove_distinct:
  assumes "distinct xs" "i < length xs"
  shows "distinct (swap_remove xs i)" "set (swap_remove xs i) = set xs - {xs ! i}"
proof -
  obtain ys y where xs: "xs = ys @ [y]" using assms(2) by (cases xs rule: rev_cases) auto
  have "distinct (swap_remove xs i) \<and> set (swap_remove xs i) = set xs - {xs ! i}"
  proof (cases "i = length ys")
    case True
    then show ?thesis using assms(1) xs by (auto simp: swap_remove_def)
  next
    case False
    then have i: "i < length ys" using assms(2) xs by simp
    then have swap: "swap_remove xs i = ys[i := y]" using xs by (simp add: swap_remove_def list_update_append butlast_append)
    have ys: "distinct ys" "y \<notin> set ys" using assms(1) xs by auto
    then have "set (ys[i := y]) = insert y (set ys - {ys ! i})" using i by (simp add: set_update_distinct)
    moreover have "distinct (ys[i := y])" using ys i by (auto intro!: distinct_list_update)
    ultimately show ?thesis using swap xs i ys by (auto simp: nth_append)
  qed
  then show "distinct (swap_remove xs i)" "set (swap_remove xs i) = set xs - {xs ! i}" by auto
qed

definition mem_set :: "'l memory_store \<Rightarrow> 'l quad set" where
  "mem_set s = set (mem_quads s)"

definition mem_ok :: "'l memory_store \<Rightarrow> bool" where
  "mem_ok s \<longleftrightarrow> distinct (mem_quads s) \<and>
     (\<forall>q \<in> set (mem_quads s). \<forall>n. quad_graph q = GraphNamed n \<longrightarrow> n \<in> named_graph_iris s)"

lemma mem_ok_new: "mem_ok mem_new" "mem_set mem_new = {}"
  by (simp_all add: mem_ok_def mem_set_def mem_new_def)

lemma mem_insert_ok:
  assumes "mem_ok s"
  shows "\<exists>s'. mem_insert s q = Some (s', Inr (q \<notin> mem_set s)) \<and> mem_set s' = insert q (mem_set s) \<and> mem_ok s'"
  using assms by (auto simp: mem_insert_def mem_ok_def mem_set_def Let_def split: graph_name.splits)

lemma mem_remove_ok:
  assumes "mem_ok s"
  shows "\<exists>s'. mem_remove s q = Some (s', Inr (q \<in> mem_set s)) \<and> mem_set s' = mem_set s - {q} \<and> mem_ok s'"
proof (cases "position (\<lambda>x. x = q) (mem_quads s)")
  case None
  then have "q \<notin> mem_set s" unfolding position_None by (auto simp: mem_set_def)
  then show ?thesis using None assms by (simp add: mem_remove_def)
next
  case (Some i)
  note i = position_Some [OF Some]
  note rem = swap_remove_distinct [of "mem_quads s" i]
  have d: "distinct (mem_quads s)" using assms by (simp add: mem_ok_def)
  have "q \<in> mem_set s" using i nth_mem by (auto simp: mem_set_def)
  moreover have "mem_ok (s\<lparr>mem_quads := swap_remove (mem_quads s) i\<rparr>)"
    using rem d i assms by (auto simp: mem_ok_def)
  ultimately show ?thesis using Some i rem d by (auto simp: mem_remove_def mem_set_def)
qed

interpretation memory: quad_store mem_insert mem_remove mem_set "\<lambda>ops. mem_ok"
  by unfold_locales (simp_all add: mem_insert_ok mem_remove_ok)

section \<open>Properties\<close>

text \<open>
  (C32) The reference store is a set of quads under batches: from a well-formed store, any batch
  of insertions and removals returns, in order, the numbers of insertions that were new and of removals
  that hit, and leaves a well-formed store holding exactly the resulting set.
\<close>

theorem memory_batch_refines_set:
  assumes "mem_ok s"
  shows "\<exists>s'. default_apply_batch mem_insert mem_remove s ops = Some (s', Inr (op_counts ops (mem_set s))) \<and>
    mem_set s' = fold op_set ops (mem_set s) \<and> mem_ok s'"
  by (rule memory.apply_batch_correct [OF assms])

theorem memory_batch_refines_set_witness:
  "\<exists>s'. default_apply_batch mem_insert mem_remove mem_new
       [OpInsert \<lparr>quad_subject = SubjNamed [97], quad_predicate = [98], quad_object = NamedNode [99], quad_graph = DefaultGraph\<rparr>,
        OpRemove \<lparr>quad_subject = SubjNamed [97], quad_predicate = [98], quad_object = NamedNode [99], quad_graph = DefaultGraph\<rparr>]
     = Some (s', Inr (1, 1)) \<and> mem_set (s' :: rdf_literal memory_store) = {}"
  using memory_batch_refines_set [OF mem_ok_new(1), of
      "[OpInsert \<lparr>quad_subject = SubjNamed [97], quad_predicate = [98], quad_object = NamedNode [99], quad_graph = DefaultGraph\<rparr>,
        OpRemove \<lparr>quad_subject = SubjNamed [97], quad_predicate = [98], quad_object = NamedNode [99], quad_graph = DefaultGraph\<rparr>]"]
  by (auto simp: mem_ok_new)

text \<open>
  A pattern scan of the reference store returns exactly the stored quads that match the bound
  positions, each once, and the reported length is the number of quads held.
\<close>

theorem memory_pattern_exact:
  assumes "mem_ok s"
  shows "\<exists>out. mem_quads_for_pattern s sub pred ob g = Inr out \<and> distinct out \<and>
      set out = stored_quad_from ` {q \<in> mem_set s. (\<forall>x. sub = Some x \<longrightarrow> subject_term (quad_subject q) = x) \<and>
        (\<forall>x. pred = Some x \<longrightarrow> quad_predicate q = x) \<and> (\<forall>x. ob = Some x \<longrightarrow> quad_object q = x) \<and>
        (\<forall>x. g = Some x \<longrightarrow> quad_graph q = x)} \<and>
      mem_len s = Inr (card (mem_set s))"
proof -
  have st: "subject_term a = (subject_term b :: 'a rdf_term) \<Longrightarrow> a = b" for a b
    by (cases a; cases b) auto
  have "inj_on stored_quad_from Q" for Q :: "'a quad set"
    by (auto simp: inj_on_def stored_quad_from_def dest: st)
  then show ?thesis
    using assms by (simp add: is_none_or_eq mem_quads_for_pattern_def mem_ok_def mem_set_def mem_len_def distinct_map distinct_card)
qed

theorem memory_pattern_exact_witness:
  "\<exists>out. mem_quads_for_pattern (mem_new :: rdf_literal memory_store) None None None None = Inr out \<and> set out = {}"
  using memory_pattern_exact [OF mem_ok_new(1), of None None None None] by (auto simp: mem_ok_new)

end
