(* ===== verification/Louds.thy ===== *)
theory Louds
  imports DictCompact
begin

text \<open>
  The succinct height-3 trie of \<^verbatim>\<open>crates/engines/nova-engine-louds/src/louds.rs\<close>: the unary degree
  sequence \<open>T\<close>, the label array \<open>L\<close> in three bit-packed regions, navigation, the exponential search
  \<open>leap\<close>, and construction from sorted triples. Rank and select are those of the \<^verbatim>\<open>sux\<close> crate: they are
  the parameter \<open>rank_select\<close>, with their documented behaviour as the locale \<open>rank_select_laws\<close>; the
  bit-packed vectors are the parameter \<open>bit_fields\<close>. Positions (\<^verbatim>\<open>usize\<close>) are natural numbers with
  saturation and wrap-around at \<open>usize_max\<close> written out; labels are 32-bit words. \<open>None\<close> is a panic.

  The lemmas read the bit vector back as the list of node degrees in level order (\<open>degree_nth\<close>,
  \<open>child_nth\<close>), and show that the built trie has one node per distinct prefix of the triples.
\<close>

section \<open>Bit vector\<close>

definition usize_max :: nat where
  "usize_max = 2 ^ 64 - 1"

record 'r rank_select =
  rs_count_ones :: "bool list \<Rightarrow> nat"
  rs_build :: "bool list \<Rightarrow> 'r"
  rs_rank :: "'r \<Rightarrow> nat \<Rightarrow> nat"
  rs_select_unchecked :: "'r \<Rightarrow> nat \<Rightarrow> nat"

record 'r t_bitvec =
  tb_rs :: 'r
  tb_num_ones :: nat

definition tb_build :: "'r rank_select \<Rightarrow> bool list \<Rightarrow> 'r t_bitvec" where
  "tb_build R bits = \<lparr>tb_rs = rs_build R bits, tb_num_ones = rs_count_ones R bits\<rparr>"

definition rank1 :: "'r rank_select \<Rightarrow> 'r t_bitvec \<Rightarrow> nat \<Rightarrow> nat" where
  "rank1 R t k = rs_rank R (tb_rs t) k"

definition select1 :: "'r rank_select \<Rightarrow> 'r t_bitvec \<Rightarrow> nat \<Rightarrow> nat option" where
  "select1 R t k = (if k < tb_num_ones t then Some (rs_select_unchecked R (tb_rs t) k) else None)"

section \<open>Trie\<close>

definition bit_width_for_max :: "u32 \<Rightarrow> nat" where
  "bit_width_for_max max_label = max (bit_length (unat max_label)) 1"

definition max_label_of :: "u32 list \<Rightarrow> u32" where
  "max_label_of labels = (if labels = [] then 0 else Max (set labels))"

definition pack_labels :: "'v bit_fields \<Rightarrow> u32 list \<Rightarrow> 'v option" where
  "pack_labels V labels = push_all V (bit_width_for_max (max_label_of labels)) (map unat labels)"

definition empty_labels :: "'v bit_fields \<Rightarrow> 'v" where
  "empty_labels V = bf_new V 1"

record ('r, 'v) louds_trie =
  lt_t :: "'r t_bitvec"
  lt_l0 :: 'v
  lt_l1 :: 'v
  lt_l2 :: 'v
  lt_d1_start :: nat
  lt_d2_start :: nat
  lt_l_len :: nat

text \<open>The index of the first set bit.\<close>

definition position_true :: "bool list \<Rightarrow> nat option" where
  "position_true bits =
     (let k = length (takeWhile Not bits) in if k < length bits then Some k else None)"

text \<open>The loop of \<open>depth_boundaries_from_t_bits\<close> over the unary codes of \<open>n\<close> nodes.\<close>

primrec sum_degrees :: "bool list \<Rightarrow> nat \<Rightarrow> nat \<Rightarrow> nat \<Rightarrow> nat" where
  "sum_degrees t_bits 0 i n1 = n1"
| "sum_degrees t_bits (Suc n) i n1 =
     (if i \<ge> length t_bits then n1
      else
        let block_end = (case position_true (drop i t_bits) of
              Some p \<Rightarrow> i + p | None \<Rightarrow> length t_bits - 1);
            degree = block_end - i + 1
        in sum_degrees t_bits n (block_end + 1) (n1 + degree))"

definition depth_boundaries_from_t_bits :: "bool list \<Rightarrow> nat \<Rightarrow> (nat \<times> nat) option" where
  "depth_boundaries_from_t_bits t_bits l_len =
     (if t_bits = [] then Some (1, 1)
      else do {
        root_end \<leftarrow> position_true t_bits;
        let n0 = root_end + 1;
        let d1_start = 1 + n0;
        let n1 = sum_degrees t_bits n0 (root_end + 1) 0;
        let d2_start = d1_start + n1;
        Some (min d1_start l_len, min d2_start l_len)})"

definition from_raw ::
  "'r rank_select \<Rightarrow> 'v bit_fields \<Rightarrow> bool list \<Rightarrow> u32 list \<Rightarrow> ('r, 'v) louds_trie option" where
  "from_raw R V t_bits l_labels =
     (if length t_bits \<noteq> length l_labels then None
      else do {
        let t = tb_build R (False # t_bits);
        let l_len = length l_labels + 1;
        (d1_start, d2_start) \<leftarrow> depth_boundaries_from_t_bits t_bits l_len;
        let n0 = d1_start - 1;
        let n1 = d2_start - d1_start;
        let d0_slice = take (min n0 (length l_labels)) l_labels;
        let d1_slice = (if n0 < length l_labels
          then take (min (n0 + n1) (length l_labels) - n0) (drop n0 l_labels) else []);
        let d2_slice = (if n0 + n1 < length l_labels then drop (n0 + n1) l_labels else []);
        l0 \<leftarrow> push_all V (bit_width_for_max (max_label_of d0_slice)) (0 # map unat d0_slice);
        l1 \<leftarrow> (if d1_slice = [] then Some (empty_labels V) else pack_labels V d1_slice);
        l2 \<leftarrow> (if d2_slice = [] then Some (empty_labels V) else pack_labels V d2_slice);
        Some \<lparr>lt_t = t, lt_l0 = l0, lt_l1 = l1, lt_l2 = l2,
              lt_d1_start = d1_start, lt_d2_start = d2_start, lt_l_len = l_len\<rparr>})"

section \<open>Navigation\<close>

definition n_edges :: "('r, 'v) louds_trie \<Rightarrow> nat" where
  "n_edges T = lt_l_len T - 1"

definition louds_is_empty :: "('r, 'v) louds_trie \<Rightarrow> bool" where
  "louds_is_empty T \<longleftrightarrow> n_edges T = 0"

definition selectnext1 :: "'r rank_select \<Rightarrow> ('r, 'v) louds_trie \<Rightarrow> nat \<Rightarrow> nat" where
  "selectnext1 R T k =
     (case select1 R (lt_t T) (rank1 R (lt_t T) k) of Some p \<Rightarrow> p | None \<Rightarrow> lt_l_len T)"

definition child_from_label_pos :: "'r rank_select \<Rightarrow> ('r, 'v) louds_trie \<Rightarrow> nat \<Rightarrow> nat option" where
  "child_from_label_pos R T label_pos =
     (if label_pos = 0 then None else select1 R (lt_t T) (label_pos - 1))"

definition degree :: "'r rank_select \<Rightarrow> ('r, 'v) louds_trie \<Rightarrow> nat \<Rightarrow> nat" where
  "degree R T v = selectnext1 R T (v + 1) - v"

definition label_at :: "'v bit_fields \<Rightarrow> ('r, 'v) louds_trie \<Rightarrow> nat \<Rightarrow> u32 option" where
  "label_at V T p =
     (if p \<ge> lt_l_len T then Some 0
      else map_option of_nat
        (if p < lt_d1_start T then bf_get V (lt_l0 T) p
         else if p < lt_d2_start T then bf_get V (lt_l1 T) (p - lt_d1_start T)
         else bf_get V (lt_l2 T) (p - lt_d2_start T)))"

text \<open>The binary search of \<open>leap\<close>, in \<open>(left, right]\<close>.\<close>

function leap_binary :: "'v bit_fields \<Rightarrow> ('r, 'v) louds_trie \<Rightarrow> u32 \<Rightarrow> nat \<Rightarrow> nat \<Rightarrow> nat option" where
  "leap_binary V T c lo_b hi_b =
     (if lo_b < hi_b then do {
        let mid = lo_b + (hi_b - lo_b) div 2;
        l \<leftarrow> label_at V T mid;
        if l < c then leap_binary V T c (mid + 1) hi_b else leap_binary V T c lo_b mid}
      else Some lo_b)"
  by auto
termination by (relation "measure (\<lambda>(V, T, c, lo_b, hi_b). hi_b - lo_b)") auto

declare leap_binary.simps [simp del]

text \<open>The doubling loop of \<open>leap\<close>.\<close>

partial_function (option) leap_exponential ::
  "'v bit_fields \<Rightarrow> ('r, 'v) louds_trie \<Rightarrow> u32 \<Rightarrow> nat \<Rightarrow> nat \<Rightarrow> nat \<Rightarrow> nat option" where
  "leap_exponential V T c hi left step =
     do {
       let right = min (min (left + step) usize_max) hi;
       l \<leftarrow> label_at V T right;
       if c \<le> l then leap_binary V T c (left + 1) right
       else if right = hi then Some (hi + 1)
       else leap_exponential V T c hi right (min (step * 2) usize_max)}"

definition leap :: "'v bit_fields \<Rightarrow> ('r, 'v) louds_trie \<Rightarrow> nat \<Rightarrow> nat \<Rightarrow> u32 \<Rightarrow> nat option" where
  "leap V T lo hi c =
     (if lo > hi then Some ((hi + 1) mod (usize_max + 1))
      else do {
        l \<leftarrow> label_at V T lo;
        if c \<le> l then Some lo
        else do {
          h \<leftarrow> label_at V T hi;
          if h < c then Some (hi + 1) else leap_exponential V T c hi lo 1}})"

definition root_degree :: "'r rank_select \<Rightarrow> ('r, 'v) louds_trie \<Rightarrow> nat" where
  "root_degree R T = (if louds_is_empty T then 0 else degree R T 0)"

section \<open>Construction\<close>

type_synonym row32 = "u32 \<times> u32 \<times> u32"

abbreviation col0 :: "row32 \<Rightarrow> u32" where
  "col0 r \<equiv> fst r"

abbreviation col1 :: "row32 \<Rightarrow> u32" where
  "col1 r \<equiv> fst (snd r)"

abbreviation col2 :: "row32 \<Rightarrow> u32" where
  "col2 r \<equiv> snd (snd r)"

definition emit_node :: "nat \<Rightarrow> bool list" where
  "emit_node d = replicate (d - 1) False @ [True]"

text \<open>The slice \<open>xs[i..j]\<close>; the builders only take slices in bounds.\<close>

definition slice :: "'a list \<Rightarrow> nat \<Rightarrow> nat \<Rightarrow> 'a list" where
  "slice xs i j = take (j - i) (drop i xs)"

text \<open>The grouping loop: the bounds of each run of equal values and the value.\<close>

function group_runs :: "('a \<Rightarrow> 'b) \<Rightarrow> 'a list \<Rightarrow> nat \<Rightarrow> (nat \<times> nat \<times> 'b) list" where
  "group_runs f xs i =
     (if i < length xs then
        let c = f (xs ! i);
            j = i + partition_point (\<lambda>t. f t = c) (drop i xs)
        in (i, j, c) # group_runs f xs j
      else [])"
  by auto
termination
proof (relation "measure (\<lambda>(f, xs, i). length xs - i)")
  fix f :: "'a \<Rightarrow> 'b" and xs i c j
  assume *: "i < length xs" "c = f (xs ! i)" "j = i + partition_point (\<lambda>t. f t = c) (drop i xs)"
  then have "drop i xs = xs ! i # drop (Suc i) xs" by (simp add: Cons_nth_drop_Suc)
  then have "i < j" using * by (simp add: partition_point_def)
  then show "((f, xs, j), (f, xs, i)) \<in> measure (\<lambda>(f, xs, i). length xs - i)" using * by simp
qed simp

declare group_runs.simps [simp del]

text \<open>
  The second level: for each group, the bounds of its subgroups in the whole slice with their
  labels, and the number of subgroups.
\<close>

definition level1_groups :: "row32 list \<Rightarrow> (nat \<times> nat \<times> u32) list \<Rightarrow> (nat \<times> nat \<times> u32) list list" where
  "level1_groups srt groups_c0 =
     map (\<lambda>(c0_start, c0_end, _).
       map (\<lambda>(j, e, c1). (c0_start + j, c0_start + e, c1))
         (group_runs col1 (slice srt c0_start c0_end) 0)) groups_c0"

definition build_louds_from_sorted ::
  "'r rank_select \<Rightarrow> 'v bit_fields \<Rightarrow> row32 list \<Rightarrow> ('r, 'v) louds_trie option option" where
  "build_louds_from_sorted R V srt =
     (if srt = [] then Some None
      else
        let groups_c0 = group_runs col0 srt 0;
            level1 = level1_groups srt groups_c0;
            groups_c1 = concat level1;
            subs = map (\<lambda>(c1_start, c1_end, _). slice srt c1_start c1_end) groups_c1;
            t_bits = emit_node (length groups_c0) @ concat (map (emit_node \<circ> length) level1)
              @ concat (map (emit_node \<circ> length) subs);
            l_labels = map (\<lambda>(_, _, c0). c0) groups_c0 @ map (\<lambda>(_, _, c1). c1) groups_c1
              @ concat (map (map col2) subs)
        in map_option Some (from_raw R V t_bits l_labels))"

section \<open>The bit vector as a list of degrees\<close>

text \<open>
  The documented behaviour of rank and select: \<open>rank k\<close> counts the set bits before position \<open>k\<close>, and
  \<open>select\<close> returns the position of a set bit from the number of set bits before it.
\<close>

locale rank_select_laws =
  fixes R :: "'r rank_select"
  assumes count_ones: "rs_count_ones R bits = count_list bits True"
    and rank: "rs_rank R (rs_build R bits) k = count_list (take k bits) True"
    and select: "p < length bits \<Longrightarrow> bits ! p \<Longrightarrow>
      rs_select_unchecked R (rs_build R bits) (count_list (take p bits) True) = p"

text \<open>Bit vectors as lists satisfy the laws.\<close>

definition list_rank_select :: "bool list rank_select" where
  "list_rank_select = \<lparr>rs_count_ones = (\<lambda>bits. count_list bits True), rs_build = (\<lambda>bits. bits),
     rs_rank = (\<lambda>bits k. count_list (take k bits) True),
     rs_select_unchecked = (\<lambda>bits k. filter (\<lambda>p. bits ! p) [0..<length bits] ! k)\<rparr>"

lemma count_list_True: "count_list bits True = length (filter (\<lambda>p. bits ! p) [0..<length bits])"
proof -
  have "length (filter (\<lambda>p. bits ! p) [0..<length bits])
      = length (filter (\<lambda>b. b) (map (\<lambda>p. bits ! p) [0..<length bits]))"
    by (simp add: filter_map comp_def)
  also have "\<dots> = length (filter (\<lambda>b. b) bits)" by (simp only: map_nth)
  also have "\<dots> = count_list bits True" by (induction bits) auto
  finally show ?thesis by simp
qed

interpretation list_rank: rank_select_laws list_rank_select
proof
  fix p and bits :: "bool list" assume p: "p < length bits" "bits ! p"
  have "[0..<length bits] = [0..<p] @ p # [Suc p..<length bits]"
    using p upt_conv_Cons [of p "length bits"] upt_add_eq_append [of 0 p "length bits - p"] by simp
  then have *: "filter (\<lambda>p. bits ! p) [0..<length bits]
      = filter (\<lambda>p. bits ! p) [0..<p] @ p # filter (\<lambda>p. bits ! p) [Suc p..<length bits]"
    using p by simp
  have "filter (\<lambda>q. take p bits ! q) [0..<p] = filter (\<lambda>p. bits ! p) [0..<p]"
    by (rule filter_cong) auto
  then have "count_list (take p bits) True = length (filter (\<lambda>p. bits ! p) [0..<p])"
    using p by (simp add: count_list_True [of "take p bits"] min_def)
  then show "rs_select_unchecked list_rank_select (rs_build list_rank_select bits) (count_list (take p bits) True) = p"
    unfolding list_rank_select_def by (simp add: *)
qed (simp_all add: list_rank_select_def)

definition unary :: "nat list \<Rightarrow> bool list" where
  "unary degs = concat (map emit_node degs)"

definition off :: "nat list \<Rightarrow> nat \<Rightarrow> nat" where
  "off degs k = sum_list (take k degs)"

lemma unary_simps [simp]:
  "unary [] = []" "unary (d # ds) = emit_node d @ unary ds" "unary (as @ bs) = unary as @ unary bs"
  by (simp_all add: unary_def)

lemma length_emit_node: "0 < d \<Longrightarrow> length (emit_node d) = d"
  by (simp add: emit_node_def)

lemma count_emit_node: "count_list (emit_node d) True = 1"
proof -
  have "count_list (replicate n False) True = 0" for n by (induction n) auto
  then show ?thesis by (simp add: emit_node_def)
qed

lemma length_unary: "\<forall>d \<in> set degs. 0 < d \<Longrightarrow> length (unary degs) = sum_list degs"
  by (induction degs) (auto simp: length_emit_node)

lemma count_unary: "count_list (unary degs) True = length degs"
  by (induction degs) (auto simp: count_emit_node)

lemma off_Suc: "k < length degs \<Longrightarrow> off degs (Suc k) = off degs k + degs ! k"
  by (simp add: off_def take_Suc_conv_app_nth)

lemma off_0 [simp]: "off degs 0 = 0"
  by (simp add: off_def)

lemma off_le: "off degs k \<le> sum_list degs"
  using append_take_drop_id [of k degs] sum_list_append [of "take k degs" "drop k degs"]
  by (metis le_add1 off_def)

lemma take_unary:
  assumes "\<forall>d \<in> set degs. 0 < d"
  shows "take (off degs k) (unary degs) = unary (take k degs)"
proof -
  have "length (unary (take k degs)) = off degs k"
    using assms length_unary [of "take k degs"] in_set_takeD [of _ k degs] by (auto simp: off_def)
  moreover have "unary degs = unary (take k degs) @ unary (drop k degs)"
    by (metis append_take_drop_id unary_simps(3))
  ultimately show ?thesis by simp
qed

text \<open>Where the code of node \<open>k\<close> ends.\<close>

lemma unary_end:
  assumes "\<forall>d \<in> set degs. 0 < d" "k < length degs"
  shows "off degs (Suc k) \<le> length (unary degs)"
    and "(False # unary degs) ! off degs (Suc k)"
    and "count_list (take (off degs (Suc k)) (False # unary degs)) True = k"
proof -
  let ?d = "degs ! k" and ?a = "unary (take k degs)"
  have d: "0 < ?d" using assms by simp
  have len: "length ?a = off degs k"
    using assms(1) length_unary [of "take k degs"] in_set_takeD [of _ k degs] by (auto simp: off_def)
  have split: "unary degs = ?a @ replicate (?d - 1) False @ True # unary (drop (Suc k) degs)"
    by (subst id_take_nth_drop [OF assms(2)]) (simp add: emit_node_def)
  have e: "off degs (Suc k) = Suc (length (?a @ replicate (?d - 1) False))"
    using d by (simp add: off_Suc assms(2) len)
  show "off degs (Suc k) \<le> length (unary degs)" unfolding e by (subst split) simp
  show "(False # unary degs) ! off degs (Suc k)"
    unfolding e by (subst split) (simp add: nth_append)
  have "take (length (?a @ replicate (?d - 1) False)) (unary degs) = ?a @ replicate (?d - 1) False"
    by (subst split) simp
  moreover have "count_list (replicate n False) True = 0" for n by (induction n) auto
  ultimately show "count_list (take (off degs (Suc k)) (False # unary degs)) True = k"
    unfolding e using assms(2) by (simp add: count_unary)
qed

context rank_select_laws
begin

lemma select1_unary:
  assumes "\<forall>d \<in> set degs. 0 < d"
  shows "select1 R (tb_build R (False # unary degs)) k =
    (if k < length degs then Some (off degs (Suc k)) else None)"
proof (cases "k < length degs")
  case True
  then show ?thesis
    using select [of "off degs (Suc k)" "False # unary degs"] unary_end [OF assms True]
    by (simp add: select1_def tb_build_def count_ones count_unary)
qed (simp add: select1_def tb_build_def count_ones count_unary)

lemma rank1_unary:
  assumes "\<forall>d \<in> set degs. 0 < d" "k \<le> length degs"
  shows "rank1 R (tb_build R (False # unary degs)) (off degs k + 1) = k"
  using assms by (simp add: rank1_def tb_build_def rank take_unary count_unary)

end

section \<open>The label array\<close>

lemma fits_label_width: "x \<in> insert 0 (set labels) \<Longrightarrow> unat x < 2 ^ bit_width_for_max (max_label_of labels)"
proof -
  assume "x \<in> insert 0 (set labels)"
  then have "x \<le> max_label_of labels" by (auto simp: max_label_of_def)
  then have "unat x \<le> unat (max_label_of labels)" by (simp add: word_le_nat_alt)
  then show ?thesis using fits_bit_width by (simp add: bit_width_for_max_def bit_width_for_def)
qed

lemma pack_labels_get:
  assumes "bit_field_vec V"
  shows "\<exists>bv. pack_labels V labels = Some bv \<and> (\<forall>i < length labels. bf_get V bv i = Some (unat (labels ! i)))"
  using bit_field_vec.pushed [OF assms, of "map unat labels" "bit_width_for_max (max_label_of labels)"]
    fits_label_width [of _ labels] by (auto simp: pack_labels_def)

lemma pack_dummy_get:
  assumes "bit_field_vec V"
  shows "\<exists>bv. push_all V (bit_width_for_max (max_label_of labels)) (0 # map unat labels) = Some bv \<and>
    (\<forall>i \<le> length labels. bf_get V bv i = Some (unat ((0 # labels) ! i)))"
proof -
  have "\<forall>v \<in> set (map unat (0 # labels)). v < 2 ^ bit_width_for_max (max_label_of labels)"
    using fits_label_width [of _ labels] by auto
  then obtain bv where "push_all V (bit_width_for_max (max_label_of labels)) (map unat (0 # labels)) = Some bv"
    "\<forall>i < length (map unat (0 # labels)). bf_get V bv i = Some (map unat (0 # labels) ! i)"
    using bit_field_vec.pushed [OF assms] by blast
  then show ?thesis
    by (intro exI [of _ bv]) (auto simp: nth_Cons split: nat.splits)
qed

text \<open>The boundaries \<open>from_raw\<close> computes: after the labels of the root, and of its children.\<close>

lemma position_emit_node: "0 < d \<Longrightarrow> position_true (emit_node d @ bits) = Some (d - 1)"
proof -
  have "takeWhile Not (replicate n False @ True # bits) = replicate n False" for n
    by (induction n) auto
  then show "0 < d \<Longrightarrow> position_true (emit_node d @ bits) = Some (d - 1)"
    by (simp add: position_true_def emit_node_def Let_def)
qed

lemma sum_degrees_unary:
  "drop i t_bits = unary (ds @ es) \<Longrightarrow> \<forall>d \<in> set ds. 0 < d \<Longrightarrow>
   sum_degrees t_bits (length ds) i n1 = n1 + sum_list ds"
proof (induction ds arbitrary: i n1)
  case (Cons d ds)
  then have d: "0 < d" and i: "i < length t_bits"
    by (auto simp: emit_node_def intro: ccontr)
  have "drop (i + d) t_bits = drop d (drop i t_bits)" by (simp add: add.commute)
  also have "\<dots> = unary (ds @ es)" using d by (simp add: Cons.prems(1) length_emit_node)
  finally have "sum_degrees t_bits (length ds) (i + d) (n1 + d) = n1 + d + sum_list ds"
    using Cons.prems(2) by (intro Cons.IH) auto
  then show ?case
    using Cons.prems(1) d i position_emit_node [OF d, of "unary (ds @ es)"] by simp
qed simp

lemma depth_boundaries_unary:
  assumes "\<forall>d \<in> set (length ds # ds @ es). 0 < d"
  shows "depth_boundaries_from_t_bits (unary (length ds # ds @ es)) (sum_list (length ds # ds @ es) + 1) =
    Some (1 + length ds, 1 + length ds + sum_list ds)"
proof -
  have "sum_degrees (unary (length ds # ds @ es)) (length ds) (length ds) 0 = sum_list ds"
    using assms by (subst sum_degrees_unary [of _ _ ds es]) (auto simp: length_emit_node)
  moreover have "position_true (unary (length ds # ds @ es)) = Some (length ds - 1)"
    using assms position_emit_node [of "length ds" "unary (ds @ es)"] by simp
  moreover have "unary (length ds # ds @ es) \<noteq> []" by (simp add: emit_node_def)
  moreover have "length ds - 1 + 1 = length ds" using assms by (simp add: Suc_leI)
  ultimately show ?thesis
    by (simp add: depth_boundaries_from_t_bits_def del: unary_simps sum_degrees.simps)
qed

text \<open>
  A trie in memory represents the degrees \<open>degs\<close> of its inner nodes, in level order, and the labels of
  its edges.
\<close>

definition louds_rep ::
  "'r rank_select \<Rightarrow> 'v bit_fields \<Rightarrow> nat list \<Rightarrow> u32 list \<Rightarrow> ('r, 'v) louds_trie \<Rightarrow> bool" where
  "louds_rep R V degs labels T \<longleftrightarrow>
     (\<forall>d \<in> set degs. 0 < d) \<and> length labels = sum_list degs \<and>
     lt_t T = tb_build R (False # unary degs) \<and> lt_l_len T = length labels + 1 \<and>
     (\<forall>p \<le> length labels. label_at V T p = Some ((0 # labels) ! p))"

lemma from_raw_labels:
  assumes V: "bit_field_vec V" and len: "length t_bits = length labels"
    and b: "depth_boundaries_from_t_bits t_bits (length labels + 1) = Some (d1, d2)"
    and ord: "1 \<le> d1" "d1 \<le> d2" "d2 \<le> length labels + 1"
  shows "\<exists>T. from_raw R V t_bits labels = Some T \<and> lt_t T = tb_build R (False # t_bits) \<and>
    lt_l_len T = length labels + 1 \<and> lt_d1_start T = d1 \<and> lt_d2_start T = d2 \<and>
    (\<forall>p \<le> length labels. label_at V T p = Some ((0 # labels) ! p))"
proof -
  let ?s0 = "take (d1 - 1) labels" and ?s1 = "take (d2 - d1) (drop (d1 - 1) labels)" and ?s2 = "drop (d2 - 1) labels"
  have slices: "take (min (d1 - 1) (length labels)) labels = ?s0"
    "(if d1 - 1 < length labels then take (min (d1 - 1 + (d2 - d1)) (length labels) - (d1 - 1)) (drop (d1 - 1) labels) else []) = ?s1"
    "(if d1 - 1 + (d2 - d1) < length labels then drop (d1 - 1 + (d2 - d1)) labels else []) = ?s2"
    using ord by (auto simp: min_def)
  obtain l0 where l0: "push_all V (bit_width_for_max (max_label_of ?s0)) (0 # map unat ?s0) = Some l0"
    "\<forall>i \<le> length ?s0. bf_get V l0 i = Some (unat ((0 # ?s0) ! i))"
    using pack_dummy_get [OF V] by blast
  have ex: "\<exists>bv. (if ls = [] then Some (empty_labels V) else pack_labels V ls) = Some bv \<and>
      (\<forall>i < length ls. bf_get V bv i = Some (unat (ls ! i)))" for ls
    using pack_labels_get [OF V, of ls] by auto
  obtain l1 where l1: "(if ?s1 = [] then Some (empty_labels V) else pack_labels V ?s1) = Some l1"
    "\<forall>i < length ?s1. bf_get V l1 i = Some (unat (?s1 ! i))" using ex by blast
  obtain l2 where l2: "(if ?s2 = [] then Some (empty_labels V) else pack_labels V ?s2) = Some l2"
    "\<forall>i < length ?s2. bf_get V l2 i = Some (unat (?s2 ! i))" using ex by blast
  let ?T = "\<lparr>lt_t = tb_build R (False # t_bits), lt_l0 = l0, lt_l1 = l1, lt_l2 = l2,
    lt_d1_start = d1, lt_d2_start = d2, lt_l_len = length labels + 1\<rparr>"
  have "from_raw R V t_bits labels = Some ?T"
    unfolding from_raw_def Let_def b bind.simps prod.case slices l0(1) l1(1) l2(1)
    using len by simp
  moreover have "label_at V ?T p = Some ((0 # labels) ! p)" if p: "p \<le> length labels" for p
  proof -
    consider "p < d1" | "d1 \<le> p" "p < d2" | "d2 \<le> p" by linarith
    then show ?thesis
    proof cases
      case 1
      then have "(0 # ?s0) ! p = (0 # labels) ! p" "p \<le> length ?s0"
        using ord by (auto simp: nth_Cons split: nat.splits)
      with 1 p l0(2) show ?thesis by (simp add: label_at_def)
    next
      case 2
      then have "?s1 ! (p - d1) = (0 # labels) ! p" "p - d1 < length ?s1"
        using ord by (auto simp: nth_Cons split: nat.splits intro: arg_cong [where f = "(!) labels"])
      with 2 p l1(2) show ?thesis by (simp add: label_at_def)
    next
      case 3
      then have "?s2 ! (p - d2) = (0 # labels) ! p" "p - d2 < length ?s2"
        using ord p by (auto simp: nth_Cons split: nat.splits)
      with 3 p ord l2(2) show ?thesis by (simp add: label_at_def)
    qed
  qed
  ultimately show ?thesis by simp
qed

lemma from_raw_rep:
  assumes V: "bit_field_vec V"
    and degs: "degs = length ds # ds @ es" "\<forall>d \<in> set degs. 0 < d" "length labels = sum_list degs"
  shows "\<exists>T. from_raw R V (unary degs) labels = Some T \<and> louds_rep R V degs labels T \<and>
    lt_d1_start T = 1 + length ds \<and> lt_d2_start T = 1 + length ds + sum_list ds"
proof -
  have "depth_boundaries_from_t_bits (unary degs) (length labels + 1) =
      Some (1 + length ds, 1 + length ds + sum_list ds)"
    using depth_boundaries_unary [of ds es] degs by simp
  moreover have "length (unary degs) = length labels" using degs by (simp only: length_unary)
  moreover have "1 + length ds + sum_list ds \<le> length labels + 1" using degs by simp
  ultimately obtain T where "from_raw R V (unary degs) labels = Some T"
    "lt_t T = tb_build R (False # unary degs)" "lt_l_len T = length labels + 1"
    "lt_d1_start T = 1 + length ds" "lt_d2_start T = 1 + length ds + sum_list ds"
    "\<forall>p \<le> length labels. label_at V T p = Some ((0 # labels) ! p)"
    using from_raw_labels [OF V, of "unary degs" labels "1 + length ds" "1 + length ds + sum_list ds" R] by auto
  then show ?thesis unfolding louds_rep_def using degs(2,3) by blast
qed

lemma from_raw_empty:
  assumes "bit_field_vec V"
  shows "\<exists>T. from_raw R V [] [] = Some T \<and> louds_is_empty T"
  using from_raw_labels [OF assms, of "[]" "[]" 1 1 R]
  by (auto simp: depth_boundaries_from_t_bits_def louds_is_empty_def n_edges_def)

section \<open>Navigation\<close>

context rank_select_laws
begin

lemma child_nth:
  assumes "louds_rep R V degs labels T" "0 < p" "p \<le> length degs"
  shows "child_from_label_pos R T p = Some (off degs p)"
  using assms select1_unary [of degs "p - 1"] by (simp add: louds_rep_def child_from_label_pos_def)

lemma degree_nth:
  assumes "louds_rep R V degs labels T" "k < length degs"
  shows "degree R T (off degs k) = degs ! k"
  using assms select1_unary [of degs k] rank1_unary [of degs k]
  by (simp add: louds_rep_def degree_def selectnext1_def off_Suc)

lemma root_degree_nth:
  assumes "louds_rep R V degs labels T" "degs \<noteq> []"
  shows "root_degree R T = degs ! 0"
proof -
  have "0 < degs ! 0" "degs ! 0 \<le> sum_list degs"
    using assms by (auto simp: louds_rep_def intro: member_le_sum_list)
  then have "0 < sum_list degs" by linarith
  then have "\<not> louds_is_empty T"
    using assms unfolding louds_rep_def louds_is_empty_def n_edges_def by linarith
  then show ?thesis using degree_nth [OF assms(1), of 0] assms(2) by (simp add: root_degree_def)
qed

end

text \<open>The first position of \<open>[lo, hi]\<close> whose label is at least \<open>c\<close>, or \<open>hi + 1\<close>.\<close>

definition first_ge :: "(nat \<Rightarrow> 'a::linorder) \<Rightarrow> nat \<Rightarrow> nat \<Rightarrow> 'a \<Rightarrow> nat \<Rightarrow> bool" where
  "first_ge f lo hi c k \<longleftrightarrow>
     lo \<le> k \<and> k \<le> hi + 1 \<and> (\<forall>j. lo \<le> j \<and> j < k \<longrightarrow> f j < c) \<and> (k \<le> hi \<longrightarrow> c \<le> f k)"

definition labels_mono :: "'v bit_fields \<Rightarrow> ('r, 'v) louds_trie \<Rightarrow> (nat \<Rightarrow> u32) \<Rightarrow> nat \<Rightarrow> nat \<Rightarrow> bool" where
  "labels_mono V T f lo hi \<longleftrightarrow>
     (\<forall>k. lo \<le> k \<and> k \<le> hi \<longrightarrow> label_at V T k = Some (f k)) \<and>
     (\<forall>i j. lo \<le> i \<and> i \<le> j \<and> j \<le> hi \<longrightarrow> f i \<le> f j)"

lemma labels_mono_sub: "labels_mono V T f lo hi \<Longrightarrow> lo \<le> lo' \<Longrightarrow> hi' \<le> hi \<Longrightarrow> labels_mono V T f lo' hi'"
  unfolding labels_mono_def by (meson le_trans)

lemma first_ge_extend:
  assumes "first_ge f m hi' c k" "k \<le> hi'" "lo \<le> m" "hi' \<le> hi" "\<And>j. lo \<le> j \<Longrightarrow> j < m \<Longrightarrow> f j < c"
  shows "first_ge f lo hi c k"
proof -
  have "f j < c" if "lo \<le> j" "j < k" for j
    using assms(1,5) that by (cases "j < m") (auto simp: first_ge_def)
  then show ?thesis using assms(1-4) by (auto simp: first_ge_def)
qed

lemma leap_binary_first:
  assumes "labels_mono V T f lo hi" "lo \<le> hi" "c \<le> f hi"
  shows "\<exists>k. leap_binary V T c lo hi = Some k \<and> first_ge f lo hi c k \<and> k \<le> hi"
  using assms
proof (induction V T c lo hi rule: leap_binary.induct)
  case (1 V T c lo hi)
  show ?case
  proof (cases "lo < hi")
    case False
    then have "lo = hi" using 1(4) by simp
    then show ?thesis using 1(5) by (subst leap_binary.simps) (auto simp: first_ge_def)
  next
    case True
    let ?m = "lo + (hi - lo) div 2"
    have m: "lo \<le> ?m" "?m < hi" using True by auto
    then have lab: "label_at V T ?m = Some (f ?m)" using 1(3) by (simp add: labels_mono_def)
    show ?thesis
    proof (cases "f ?m < c")
      case less: True
      obtain k where k: "leap_binary V T c (?m + 1) hi = Some k" "first_ge f (?m + 1) hi c k" "k \<le> hi"
        using 1(1) [OF True refl lab less labels_mono_sub [OF 1(3)]] m 1(5) by auto
      have "f j < c" if "lo \<le> j" "j \<le> ?m" for j
        using 1(3) that m less unfolding labels_mono_def by (meson le_less_trans less_imp_le)
      then have "first_ge f lo hi c k"
        using m by (intro first_ge_extend [OF k(2,3)]) auto
      then show ?thesis using k True lab less by (subst leap_binary.simps) simp
    next
      case ge: False
      obtain k where k: "leap_binary V T c lo ?m = Some k" "first_ge f lo ?m c k" "k \<le> ?m"
        using 1(2) [OF True refl lab ge labels_mono_sub [OF 1(3)]] m ge by (auto simp: not_less)
      then have "first_ge f lo hi c k" using m by (auto simp: first_ge_def)
      then show ?thesis using k m True lab ge by (subst leap_binary.simps) simp
    qed
  qed
qed

lemma leap_exponential_first:
  assumes "labels_mono V T f lo hi" "lo \<le> left" "left < hi" "hi \<le> usize_max" "f left < c" "c \<le> f hi" "0 < step"
  shows "\<exists>k. leap_exponential V T c hi left step = Some k \<and> first_ge f lo hi c k"
  using assms(2,3,5,7)
proof (induction "hi - left" arbitrary: left step rule: less_induct)
  case less
  let ?r = "min (min (left + step) usize_max) hi"
  have r: "left < ?r" "?r \<le> hi" using less.prems assms(4) by auto
  then have lab: "label_at V T ?r = Some (f ?r)"
    using assms(1) less.prems(1) by (simp add: labels_mono_def)
  have low: "f j < c" if "lo \<le> j" "j \<le> left" for j
    using assms(1) that less.prems unfolding labels_mono_def by (meson le_less_trans less_imp_le)
  show ?case
  proof (cases "c \<le> f ?r")
    case True
    obtain k where k: "leap_binary V T c (left + 1) ?r = Some k" "first_ge f (left + 1) ?r c k" "k \<le> ?r"
      using leap_binary_first [of V T f "left + 1" ?r c] True r labels_mono_sub [OF assms(1)] less.prems(1)
      by auto
    have "first_ge f lo hi c k"
      using low r less.prems(1) by (intro first_ge_extend [OF k(2,3)]) auto
    then show ?thesis using k True lab by (subst leap_exponential.simps) (simp add: Let_def)
  next
    case False
    then have ne: "?r \<noteq> hi" using assms(6) by auto
    then have "?r < hi" "hi - ?r < hi - left" using r by linarith+
    moreover have "0 < min (step * 2) usize_max" using less.prems by (simp add: usize_max_def)
    moreover have "lo \<le> ?r" "f ?r < c" using less.prems(1) r False by (linarith, simp only: not_le)
    ultimately obtain k where "leap_exponential V T c hi ?r (min (step * 2) usize_max) = Some k" "first_ge f lo hi c k"
      using less.hyps [of ?r "min (step * 2) usize_max"] by blast
    then show ?thesis using False ne lab by (subst leap_exponential.simps) (auto simp: Let_def)
  qed
qed

lemma leap_first:
  assumes "labels_mono V T f lo hi" "lo \<le> hi" "hi \<le> usize_max"
  shows "\<exists>k. leap V T lo hi c = Some k \<and> first_ge f lo hi c k"
proof -
  have lab: "label_at V T lo = Some (f lo)" "label_at V T hi = Some (f hi)"
    using assms by (auto simp: labels_mono_def)
  have below: "f j < c" if "f hi < c" "lo \<le> j" "j \<le> hi" for j
    using assms(1) that unfolding labels_mono_def by (meson le_less_trans order_refl)
  consider "c \<le> f lo" | "f lo < c" "f hi < c" | "f lo < c" "c \<le> f hi" "lo < hi"
    using assms(2) by (metis le_neq_implies_less not_le)
  then show ?thesis
  proof cases
    case 3
    then show ?thesis
      using leap_exponential_first [OF assms(1) order_refl _ assms(3), of c 1] assms(2) lab
      by (auto simp: leap_def not_le)
  qed (use assms(2) lab below in \<open>auto simp: leap_def first_ge_def not_le\<close>)
qed

section \<open>Runs of equal values\<close>

function runs :: "('a \<Rightarrow> 'b) \<Rightarrow> 'a list \<Rightarrow> 'a list list" where
  "runs f [] = []"
| "runs f (x # xs) = (x # takeWhile (\<lambda>y. f y = f x) xs) # runs f (dropWhile (\<lambda>y. f y = f x) xs)"
  by pat_completeness auto
termination
  by (relation "measure (length \<circ> snd)") (auto simp: le_imp_less_Suc length_dropWhile_le)

lemma concat_runs [simp]: "concat (runs f xs) = xs"
  by (induction f xs rule: runs.induct) simp_all

lemma runs_ne: "g \<in> set (runs f xs) \<Longrightarrow> g \<noteq> []"
  by (induction f xs rule: runs.induct) auto

lemma runs_eq: "g \<in> set (runs f xs) \<Longrightarrow> r \<in> set g \<Longrightarrow> f r = f (hd g)"
  by (induction f xs rule: runs.induct) (auto dest: set_takeWhileD)

lemma runs_empty_iff [simp]: "runs f xs = [] \<longleftrightarrow> xs = []"
  by (cases xs) auto

lemma runs_sorted_wrt: "g \<in> set (runs f xs) \<Longrightarrow> sorted_wrt P xs \<Longrightarrow> sorted_wrt P g"
proof (induction f xs rule: runs.induct)
  case (2 f x xs)
  let ?P = "\<lambda>y. f y = f x"
  have xs: "sorted_wrt P xs" "\<forall>y \<in> set xs. P x y" using 2(3) by auto
  have tw: "sorted_wrt P (takeWhile ?P xs)" "sorted_wrt P (dropWhile ?P xs)"
    using xs(1) takeWhile_dropWhile_id [of ?P xs] by (metis sorted_wrt_append)+
  show ?case
  proof (cases "g = x # takeWhile ?P xs")
    case True
    then show ?thesis using tw xs(2) by (auto dest: set_takeWhileD)
  next
    case False
    then show ?thesis using 2 tw by auto
  qed
qed simp

lemma runs_heads_sorted:
  fixes f :: "'a \<Rightarrow> 'b::linorder"
  shows "sorted (map f xs) \<Longrightarrow> sorted_wrt (<) (map (f \<circ> hd) (runs f xs))"
proof (induction f xs rule: runs.induct)
  case (2 f x xs)
  let ?d = "dropWhile (\<lambda>y. f y = f x) xs"
  have sd: "sorted (map f ?d)"
    using 2(2) takeWhile_dropWhile_id [of "\<lambda>y. f y = f x" xs]
    by (metis (no_types, lifting) list.simps(9) map_append sorted_append sorted_simps(2))
  have "f x < f r" if "r \<in> set ?d" for r
  proof -
    have ne: "?d \<noteq> []" using \<open>r \<in> set ?d\<close> by force
    have "f (hd ?d) \<noteq> f x" using hd_dropWhile [OF ne] by simp
    moreover have "f x \<le> f (hd ?d)" using 2(2) hd_in_set [OF ne] set_dropWhileD by fastforce
    moreover have "f (hd ?d) \<le> f r" using sd that by (cases ?d) auto
    ultimately show ?thesis by simp
  qed
  moreover have "hd g \<in> set ?d" if "g \<in> set (runs f ?d)" for g
  proof -
    have "hd g \<in> \<Union> (set ` set (runs f ?d))" using that hd_in_set [OF runs_ne [OF that]] by (rule UN_I)
    then show ?thesis by (simp only: set_concat [symmetric] concat_runs)
  qed
  ultimately show ?case using 2(1) [OF sd] by simp
qed simp

lemma runs_singletons: "sorted_wrt (\<lambda>x y. f x \<noteq> f y) xs \<Longrightarrow> runs f xs = map (\<lambda>x. [x]) xs"
proof (induction xs)
  case (Cons x xs)
  have "takeWhile (\<lambda>y. f y = f x) xs = []" "dropWhile (\<lambda>y. f y = f x) xs = xs"
    using Cons.prems by (cases xs; force)+
  then show ?case using Cons by simp
qed simp

lemma group_runs_bounds: "(i, j, c) \<in> set (group_runs f xs k) \<Longrightarrow> k \<le> i \<and> i < j \<and> j \<le> length xs"
proof (induction f xs k rule: group_runs.induct)
  case (1 f xs k)
  show ?case
  proof (cases "k < length xs")
    case True
    let ?n = "partition_point (\<lambda>t. f t = f (xs ! k)) (drop k xs)"
    have "drop k xs = xs ! k # drop (Suc k) xs" using True by (simp add: Cons_nth_drop_Suc)
    then have n: "0 < ?n" "?n \<le> length xs - k"
      using length_takeWhile_le [of "\<lambda>t. f t = f (xs ! k)" "drop k xs"]
      by (simp_all add: partition_point_def flip: length_drop)
    consider "i = k" "j = k + ?n" | "(i, j, c) \<in> set (group_runs f xs (k + ?n))"
      using 1(2) True by (subst (asm) group_runs.simps) (auto simp: Let_def)
    then show ?thesis
    proof cases
      case 2
      then show ?thesis using 1(1) [OF True refl refl] n by simp
    qed (use n True in auto)
  next
    case False
    then show ?thesis using 1(2) by (subst (asm) group_runs.simps) simp
  qed
qed

lemma group_runs_slices:
  "map (\<lambda>(i, j, c). (slice xs i j, c)) (group_runs f xs k) = map (\<lambda>g. (g, f (hd g))) (runs f (drop k xs))"
proof (induction f xs k rule: group_runs.induct)
  case (1 f xs k)
  show ?case
  proof (cases "k < length xs")
    case True
    let ?P = "\<lambda>t. f t = f (xs ! k)" and ?x = "xs ! k"
    let ?n = "partition_point ?P (drop k xs)"
    have d: "drop k xs = ?x # drop (Suc k) xs" using True by (simp add: Cons_nth_drop_Suc)
    have s: "slice xs k (k + ?n) = takeWhile ?P (drop k xs)"
      using takeWhile_eq_take [of ?P "drop k xs"] by (simp add: slice_def partition_point_def)
    have "drop (k + ?n) xs = dropWhile ?P (drop k xs)"
      using dropWhile_eq_drop [of ?P "drop k xs"] by (simp add: partition_point_def add.commute)
    then have r: "runs f (drop k xs) = takeWhile ?P (drop k xs) # runs f (drop (k + ?n) xs)"
      by (simp add: d)
    have h: "hd (takeWhile ?P (drop k xs)) = ?x" by (simp add: d)
    show ?thesis
      using 1 [OF True refl refl] True by (subst group_runs.simps) (simp add: Let_def r s h)
  next
    case False
    then show ?thesis by (subst group_runs.simps) simp
  qed
qed

lemma slice_slice: "j \<le> length (slice xs s e) \<Longrightarrow> slice (slice xs s e) i j = slice xs (s + i) (s + j)"
proof -
  assume "j \<le> length (slice xs s e)"
  then have "j - i \<le> e - (i + s)" unfolding slice_def length_take by linarith
  then show ?thesis by (simp add: slice_def drop_take add.commute min_absorb1)
qed

section \<open>The built trie\<close>

definition rcol :: "nat \<Rightarrow> row32 \<Rightarrow> u32" where
  "rcol d r = (if d = 0 then col0 r else if d = 1 then col1 r else col2 r)"

lemma rcol_simps [simp]: "rcol 0 = fst" "rcol (Suc 0) = fst \<circ> snd" "rcol 2 = snd \<circ> snd"
  by (auto simp: rcol_def)

text \<open>The groups of rows below a node, the nodes of a level, and the degrees and labels in level order.\<close>

abbreviation kids :: "nat \<Rightarrow> row32 list \<Rightarrow> row32 list list" where
  "kids d g \<equiv> runs (rcol d) g"

definition kid_labels :: "nat \<Rightarrow> row32 list \<Rightarrow> u32 list" where
  "kid_labels d g = map (rcol d \<circ> hd) (kids d g)"

primrec level :: "row32 list \<Rightarrow> nat \<Rightarrow> row32 list list" where
  "level srt 0 = [srt]"
| "level srt (Suc d) = concat (map (kids d) (level srt d))"

definition label_lists :: "row32 list \<Rightarrow> u32 list list" where
  "label_lists srt = kid_labels 0 srt # map (kid_labels 1) (level srt 1) @ map (kid_labels 2) (level srt 2)"

definition degs_of :: "row32 list \<Rightarrow> nat list" where
  "degs_of srt = map length (label_lists srt)"

text \<open>The rows below a node at depth \<open>d\<close>: ascending, and equal in the columns above.\<close>

definition agree :: "nat \<Rightarrow> row32 list \<Rightarrow> bool" where
  "agree d g \<longleftrightarrow> (\<forall>r \<in> set g. \<forall>r' \<in> set g. \<forall>c < d. rcol c r = rcol c r')"

definition group_ok :: "nat \<Rightarrow> row32 list \<Rightarrow> bool" where
  "group_ok d g \<longleftrightarrow> g \<noteq> [] \<and> sorted_wrt (<) g \<and> agree d g"

lemma agreeD: "agree d g \<Longrightarrow> r \<in> set g \<Longrightarrow> r' \<in> set g \<Longrightarrow> c < d \<Longrightarrow> rcol c r = rcol c r'"
  unfolding agree_def by blast

lemma group_ok_kids:
  assumes "group_ok d g" "g' \<in> set (kids d g)"
  shows "group_ok (Suc d) g'"
proof -
  have sub: "set g' \<subseteq> set g" using assms(2) concat_runs [of "rcol d" g] by (metis UN_upper set_concat)
  have "rcol c r = rcol c r'" if "r \<in> set g'" "r' \<in> set g'" "c < Suc d" for r r' c
  proof (cases "c = d")
    case True
    then show ?thesis using runs_eq [OF assms(2)] that by metis
  next
    case False
    then have "c < d" using that(3) by simp
    moreover have "r \<in> set g" "r' \<in> set g" using sub that by auto
    ultimately show ?thesis using agreeD [of d g r r' c] assms(1) by (simp only: group_ok_def)
  qed
  then have "agree (Suc d) g'" unfolding agree_def by (intro ballI allI impI)
  moreover have "sorted_wrt (<) g'" using runs_sorted_wrt [OF assms(2)] assms(1) by (simp add: group_ok_def)
  ultimately show ?thesis using runs_ne [OF assms(2)] by (simp add: group_ok_def)
qed

lemma group_ok_level: "sorted_wrt (<) srt \<Longrightarrow> srt \<noteq> [] \<Longrightarrow> g \<in> set (level srt d) \<Longrightarrow> group_ok d g"
proof (induction d arbitrary: g)
  case 0
  then show ?case by (simp add: group_ok_def agree_def)
next
  case (Suc d)
  then obtain g' where "g' \<in> set (level srt d)" "g \<in> set (kids d g')" by auto
  then show ?case using Suc group_ok_kids by blast
qed

lemma group_ok_column: "group_ok d g \<Longrightarrow> d < 3 \<Longrightarrow> sorted (map (rcol d) g)"
proof -
  assume g: "group_ok d g" and d: "d < 3"
  have "rcol d r \<le> rcol d r'" if "r \<in> set g" "r' \<in> set g" "r < r'" for r r'
  proof -
    have eq: "rcol c r = rcol c r'" if "c < d" for c
      using agreeD [OF _ \<open>r \<in> set g\<close> \<open>r' \<in> set g\<close> that] g by (simp only: group_ok_def)
    consider "d = 0" | "d = 1" | "d = 2" using d by linarith
    then show ?thesis
      using \<open>r < r'\<close> eq [of 0] eq [of 1] by cases (cases r; cases r'; auto simp: less_prod_simp)+
  qed
  then show ?thesis
    unfolding sorted_map by (rule sorted_wrt_mono_rel [of g "(<)"]) (use g in \<open>simp_all only: group_ok_def\<close>)
qed

lemma group_ok_leaf: "group_ok 2 g \<Longrightarrow> kids 2 g = map (\<lambda>r. [r]) g"
proof -
  assume g: "group_ok 2 g"
  have "col2 r \<noteq> col2 r'" if "r \<in> set g" "r' \<in> set g" "r < r'" for r r'
  proof -
    have "rcol 0 r = rcol 0 r'" "rcol 1 r = rcol 1 r'"
      using agreeD [OF _ that(1,2), of 2 0] agreeD [OF _ that(1,2), of 2 1] g by (simp_all add: group_ok_def)
    then show ?thesis using that(3) by (cases r; cases r') (auto simp: less_prod_simp)
  qed
  then have "sorted_wrt (\<lambda>r r'. rcol 2 r \<noteq> rcol 2 r') g"
    unfolding rcol_simps comp_def
    by (rule sorted_wrt_mono_rel [of g "(<)"]) (use g in \<open>simp_all only: group_ok_def\<close>)
  then show ?thesis by (rule runs_singletons)
qed

lemma kid_labels_sorted: "group_ok d g \<Longrightarrow> d < 3 \<Longrightarrow> sorted_wrt (<) (kid_labels d g)"
  unfolding kid_labels_def by (intro runs_heads_sorted group_ok_column)

lemma level1_groups_slices:
  assumes "srt \<noteq> []"
  shows "map (map (\<lambda>(i, j, c). (slice srt i j, c))) (level1_groups srt (group_runs col0 srt 0))
    = map (\<lambda>g. map (\<lambda>h. (h, col1 (hd h))) (kids 1 g)) (level srt 1)"
proof -
  have inner: "map (\<lambda>(i, j, c). (slice srt i j, c)) (map (\<lambda>(j, e, c1). (a + j, a + e, c1))
      (group_runs col1 (slice srt a b) 0)) = map (\<lambda>h. (h, col1 (hd h))) (runs col1 (slice srt a b))" for a b
  proof -
    have "map (\<lambda>(i, j, c). (slice srt i j, c)) (map (\<lambda>(j, e, c1). (a + j, a + e, c1))
        (group_runs col1 (slice srt a b) 0))
      = map (\<lambda>(i, j, c). (slice (slice srt a b) i j, c)) (group_runs col1 (slice srt a b) 0)"
      by (auto simp: slice_slice dest: group_runs_bounds)
    then show ?thesis by (simp add: group_runs_slices)
  qed
  have "map (map (\<lambda>(i, j, c). (slice srt i j, c))) (level1_groups srt (group_runs col0 srt 0))
      = map (\<lambda>(g, c). map (\<lambda>h. (h, col1 (hd h))) (runs col1 g))
          (map (\<lambda>(i, j, c). (slice srt i j, c)) (group_runs col0 srt 0))"
    using inner by (auto simp: level1_groups_def)
  then show ?thesis
    unfolding group_runs_slices by (simp add: comp_def)
qed

lemma kid_labels_leaf: "group_ok 2 g \<Longrightarrow> kid_labels 2 g = map col2 g"
  unfolding kid_labels_def by (simp only: group_ok_leaf) simp

lemma length_kid_labels [simp]: "length (kid_labels d g) = length (kids d g)"
  by (simp add: kid_labels_def)

lemma build_louds_raw:
  assumes "sorted_wrt (<) srt" "srt \<noteq> []"
  shows "build_louds_from_sorted R V srt =
    map_option Some (from_raw R V (unary (degs_of srt)) (concat (label_lists srt)))"
proof -
  let ?sl = "\<lambda>(i, j, c). (slice srt i j, c)" and ?g0 = "group_runs col0 srt 0"
  let ?l1 = "level1_groups srt ?g0"
  have g0: "map ?sl ?g0 = map (\<lambda>g. (g, col0 (hd g))) (kids 0 srt)" by (simp add: group_runs_slices)
  have l1: "map (map ?sl) ?l1 = map (\<lambda>g. map (\<lambda>h. (h, col1 (hd h))) (kids 1 g)) (level srt 1)"
    by (rule level1_groups_slices [OF assms(2)])
  have g1: "map ?sl (concat ?l1) = map (\<lambda>h. (h, col1 (hd h))) (level srt 2)"
    unfolding map_concat l1 by (simp add: map_concat comp_def numeral_2_eq_2)
  have len0: "length ?g0 = length (kids 0 srt)" using arg_cong [OF g0, of length] by simp
  have lab0: "map (\<lambda>(_, _, c). c) ?g0 = kid_labels 0 srt"
    using arg_cong [OF g0, of "map snd"] by (simp add: comp_def case_prod_unfold kid_labels_def)
  have len1: "map length ?l1 = map (\<lambda>g. length (kids 1 g)) (level srt 1)"
    using arg_cong [OF l1, of "map length"] by (simp add: comp_def)
  have lab1: "map (\<lambda>(_, _, c). c) (concat ?l1) = map (col1 \<circ> hd) (level srt 2)"
    using arg_cong [OF g1, of "map snd"] by (simp add: comp_def case_prod_unfold)
  have subs: "map (\<lambda>(i, j, _). slice srt i j) (concat ?l1) = level srt 2"
    using arg_cong [OF g1, of "map fst"] by (simp add: comp_def case_prod_unfold)
  have leaf: "kid_labels 2 g = map col2 g" if "g \<in> set (level srt 2)" for g
    using that by (intro kid_labels_leaf group_ok_level [OF assms])
  have t: "emit_node (length ?g0) @ concat (map (emit_node \<circ> length) ?l1) @
      concat (map (emit_node \<circ> length) (level srt 2)) = unary (degs_of srt)"
  proof -
    have "map (emit_node \<circ> length) ?l1 = map emit_node (map (\<lambda>g. length (kids 1 g)) (level srt 1))"
      by (simp only: len1 [symmetric] map_map)
    moreover have "map (emit_node \<circ> length) (level srt 2) = map (emit_node \<circ> length) (map (kid_labels 2) (level srt 2))"
      using leaf by simp
    ultimately show ?thesis
      by (simp add: unary_def degs_of_def label_lists_def len0 comp_def del: map_eq_conv)
  qed
  have l: "kid_labels 0 srt @ map (col1 \<circ> hd) (level srt 2) @ concat (map (map col2) (level srt 2))
      = concat (label_lists srt)"
  proof -
    have "map (map col2) (level srt 2) = map (kid_labels 2) (level srt 2)" using leaf by simp
    moreover have "map (col1 \<circ> hd) (level srt 2) = concat (map (kid_labels 1) (level srt 1))"
      by (simp add: numeral_2_eq_2 map_concat comp_def kid_labels_def [abs_def])
    ultimately show ?thesis by (simp add: label_lists_def del: map_eq_conv)
  qed
  show ?thesis
    using assms(2) unfolding build_louds_from_sorted_def Let_def lab0 lab1 subs t l by simp
qed

lemma build_louds_rep:
  assumes "bit_field_vec V" "sorted_wrt (<) srt" "srt \<noteq> []"
  shows "\<exists>T. build_louds_from_sorted R V srt = Some (Some T) \<and>
    louds_rep R V (degs_of srt) (concat (label_lists srt)) T"
proof -
  let ?ds = "map (\<lambda>g. length (kids 1 g)) (level srt 1)" and ?es = "map (\<lambda>g. length (kids 2 g)) (level srt 2)"
  have "degs_of srt = length ?ds # ?ds @ ?es"
    by (simp add: degs_of_def label_lists_def comp_def)
  moreover have "0 < d" if "d \<in> set (degs_of srt)" for d
  proof -
    have "[] \<notin> set (level srt d)" for d
      using group_ok_level [OF assms(2,3), of "[]" d] by (auto simp: group_ok_def)
    then show ?thesis using that assms(3) by (auto simp: degs_of_def label_lists_def dest: runs_ne)
  qed
  moreover have "length (concat (label_lists srt)) = sum_list (degs_of srt)"
    by (simp add: degs_of_def length_concat)
  ultimately show ?thesis
    using from_raw_rep [OF assms(1), of "degs_of srt" ?ds ?es "concat (label_lists srt)" R]
      build_louds_raw [OF assms(2,3), of R V] by auto
qed

lemma concat_nth_off:
  "k < length xss \<Longrightarrow> i < length (xss ! k) \<Longrightarrow> concat xss ! (off (map length xss) k + i) = xss ! k ! i"
proof -
  assume k: "k < length xss" and i: "i < length (xss ! k)"
  have "concat xss = concat (take k xss) @ xss ! k @ concat (drop (Suc k) xss)"
    by (subst id_take_nth_drop [OF k]) simp
  moreover have "length (concat (take k xss)) = off (map length xss) k"
    by (simp add: off_def length_concat take_map)
  ultimately show ?thesis using i by (simp add: nth_append)
qed

lemma off_less_sum: "k < length xss \<Longrightarrow> i < length (xss ! k) \<Longrightarrow> off (map length xss) k + i < length (concat xss)"
  using off_Suc [of k "map length xss"] off_le [of "map length xss" "Suc k"] by (simp add: length_concat)

text \<open>Node number \<open>k\<close> in level order stands at depth \<open>d\<close> above the rows \<open>g\<close>.\<close>

definition node_at :: "row32 list \<Rightarrow> nat \<Rightarrow> nat \<Rightarrow> row32 list \<Rightarrow> bool" where
  "node_at srt k d g \<longleftrightarrow>
     d = 0 \<and> k = 0 \<and> g = srt \<or>
     d = 1 \<and> (\<exists>j < length (level srt 1). k = Suc j \<and> g = level srt 1 ! j) \<or>
     d = 2 \<and> (\<exists>j < length (level srt 2). k = Suc (length (level srt 1) + j) \<and> g = level srt 2 ! j)"

lemma node_at_root: "node_at srt 0 0 srt"
  by (simp add: node_at_def)

lemma node_at_ok: "sorted_wrt (<) srt \<Longrightarrow> srt \<noteq> [] \<Longrightarrow> node_at srt k d g \<Longrightarrow> group_ok d g \<and> d < 3"
  using group_ok_level [of srt] by (auto simp: node_at_def)

lemma node_at_labels:
  "node_at srt k d g \<Longrightarrow> k < length (label_lists srt) \<and> label_lists srt ! k = kid_labels d g"
  by (auto simp: node_at_def label_lists_def nth_append nth_Cons split: nat.splits)

lemma node_at_kid:
  assumes "node_at srt k d g" "d < 2" "i < length (kids d g)"
  shows "node_at srt (off (degs_of srt) k + i + 1) (Suc d) (kids d g ! i)"
proof -
  consider "d = 0" "k = 0" "g = srt"
    | j where "d = 1" "j < length (level srt 1)" "k = Suc j" "g = level srt 1 ! j"
    using assms(1,2) by (auto simp: node_at_def)
  then show ?thesis
  proof cases
    case 1
    then show ?thesis using assms(3) by (simp add: node_at_def)
  next
    case 2
    let ?kk = "map (kids 1) (level srt 1)"
    have "off (degs_of srt) k = length (level srt 1) + off (map length ?kk) j"
      using 2 by (simp add: degs_of_def label_lists_def off_def comp_def take_map)
    moreover have "level srt 2 ! (off (map length ?kk) j + i) = kids 1 g ! i"
      "off (map length ?kk) j + i < length (level srt 2)"
      using concat_nth_off [of j ?kk i] off_less_sum [of j ?kk i] 2 assms(3) by (simp_all add: numeral_2_eq_2)
    ultimately show ?thesis using 2 by (auto simp: node_at_def add.assoc)
  qed
qed

text \<open>The rows a built trie stands for.\<close>

definition louds_of ::
  "'r rank_select \<Rightarrow> 'v bit_fields \<Rightarrow> row32 list \<Rightarrow> ('r, 'v) louds_trie \<Rightarrow> bool" where
  "louds_of R V srt T \<longleftrightarrow>
     sorted_wrt (<) srt \<and> srt \<noteq> [] \<and> louds_rep R V (degs_of srt) (concat (label_lists srt)) T"

context rank_select_laws
begin

lemma louds_of_build:
  "bit_field_vec V \<Longrightarrow> sorted_wrt (<) srt \<Longrightarrow> srt \<noteq> [] \<Longrightarrow>
   \<exists>T. build_louds_from_sorted R V srt = Some (Some T) \<and> louds_of R V srt T"
  using build_louds_rep by (auto simp: louds_of_def)

lemma node_degree:
  assumes "louds_of R V srt T" "node_at srt k d g"
  shows "degree R T (off (degs_of srt) k) = length (kids d g)"
  using assms node_at_labels [OF assms(2)] degree_nth [of V "degs_of srt" _ T k]
  by (auto simp: louds_of_def degs_of_def)

lemma node_label:
  assumes "louds_of R V srt T" "node_at srt k d g" "i < length (kids d g)"
  shows "label_at V T (off (degs_of srt) k + i + 1) = Some (kid_labels d g ! i)"
proof -
  have k: "k < length (label_lists srt)" "label_lists srt ! k = kid_labels d g"
    using node_at_labels [OF assms(2)] by auto
  have "off (degs_of srt) k + i < length (concat (label_lists srt))"
    "concat (label_lists srt) ! (off (degs_of srt) k + i) = kid_labels d g ! i"
    using k assms(3) off_less_sum [of k "label_lists srt" i] concat_nth_off [of k "label_lists srt" i]
    by (simp_all add: degs_of_def)
  then show ?thesis using assms(1) by (simp add: louds_of_def louds_rep_def)
qed

lemma node_child:
  assumes "louds_of R V srt T" "node_at srt k d g" "d < 2" "i < length (kids d g)"
  shows "child_from_label_pos R T (off (degs_of srt) k + i + 1) =
    Some (off (degs_of srt) (off (degs_of srt) k + i + 1))"
proof -
  have "off (degs_of srt) k + i + 1 < length (degs_of srt)"
    using node_at_labels [OF node_at_kid [OF assms(2-4)]] by (simp add: degs_of_def)
  then show ?thesis
    using child_nth [of V "degs_of srt" "concat (label_lists srt)" T "off (degs_of srt) k + i + 1"] assms(1)
    by (simp add: louds_of_def)
qed

lemma node_root_degree: "louds_of R V srt T \<Longrightarrow> root_degree R T = length (kids 0 srt)"
  using root_degree_nth [of V "degs_of srt" "concat (label_lists srt)" T]
  by (simp add: louds_of_def degs_of_def label_lists_def)

text \<open>Searching the labels of a node.\<close>

lemma node_leap:
  assumes "louds_of R V srt T" "node_at srt k d g" "i < length (kids d g)" "length (concat (label_lists srt)) \<le> usize_max"
  defines "lo \<equiv> off (degs_of srt) k + i + 1" and "hi \<equiv> off (degs_of srt) k + length (kids d g)"
  shows "\<exists>j. leap V T lo hi c = Some (off (degs_of srt) k + j + 1) \<and> i \<le> j \<and> j \<le> length (kids d g) \<and>
    (\<forall>x. i \<le> x \<and> x < j \<longrightarrow> kid_labels d g ! x < c) \<and> (j < length (kids d g) \<longrightarrow> c \<le> kid_labels d g ! j)"
proof -
  let ?o = "off (degs_of srt) k" and ?f = "\<lambda>p. kid_labels d g ! (p - off (degs_of srt) k - 1)"
  have srt: "sorted_wrt (<) srt" "srt \<noteq> []" using assms(1) by (auto simp: louds_of_def)
  have "sorted_wrt (<) (kid_labels d g)"
    using node_at_ok [OF srt assms(2)] kid_labels_sorted by blast
  then have "sorted (kid_labels d g)" by (simp add: strict_sorted_iff)
  then have "?f a \<le> ?f b" if "lo \<le> a" "a \<le> b" "b \<le> hi" for a b
    using that by (intro sorted_nth_mono) (auto simp: lo_def hi_def)
  moreover have "label_at V T a = Some (?f a)" if "lo \<le> a" "a \<le> hi" for a
  proof -
    have "a = ?o + (a - ?o - 1) + 1" "a - ?o - 1 < length (kids d g)" using that by (auto simp: lo_def hi_def)
    then show ?thesis using node_label [OF assms(1,2), of "a - ?o - 1"] by metis
  qed
  ultimately have "labels_mono V T ?f lo hi" by (simp add: labels_mono_def)
  moreover have "hi \<le> usize_max"
    using off_Suc [of k "degs_of srt"] off_le [of "degs_of srt" "Suc k"] node_at_labels [OF assms(2)] assms(4)
    by (simp add: hi_def degs_of_def length_concat)
  ultimately obtain p where p: "leap V T lo hi c = Some p" "first_ge ?f lo hi c p"
    using leap_first [of V T ?f lo hi c] assms(3) by (auto simp: lo_def hi_def)
  define j where "j = p - ?o - 1"
  have pj: "p = ?o + j + 1" using p(2) by (simp add: first_ge_def lo_def j_def)
  have "kid_labels d g ! x < c" if "i \<le> x" "x < j" for x
  proof -
    have "lo \<le> ?o + x + 1" "?o + x + 1 < p" using that by (simp_all add: lo_def pj)
    then have "?f (?o + x + 1) < c" using p(2) unfolding first_ge_def by blast
    then show ?thesis by simp
  qed
  moreover have "c \<le> kid_labels d g ! j" if "j < length (kids d g)"
    using p(2) that by (simp add: first_ge_def hi_def pj)
  ultimately show ?thesis
    using p by (intro exI [of _ j]) (auto simp: first_ge_def pj lo_def hi_def)
qed

end

section \<open>Properties\<close>

text \<open>
  The search for a label ends and is exact: over positions whose labels ascend, it returns the
  first position in the range with a label of at least the target, or the position after the range.
\<close>

theorem leap_exact:
  assumes "labels_mono V T f lo hi" and "lo \<le> hi" and "hi \<le> usize_max"
  shows "\<exists>k. leap V T lo hi c = Some k \<and> first_ge f lo hi c k"
  by (rule leap_first [OF assms])

text \<open>A trie with the labels \<open>4\<close> and \<open>9\<close> at its root, searched for \<open>5\<close>.\<close>

theorem leap_exact_witness:
  "\<exists>T. from_raw list_rank_select list_bits [False, True] [4, 9] = Some T \<and> leap list_bits T 1 2 5 = Some 2"
proof -
  have "depth_boundaries_from_t_bits [False, True] (length [4, 9 :: u32] + 1) = Some (3, 3)"
    by (simp add: depth_boundaries_from_t_bits_def position_true_def Let_def eval_nat_numeral)
  then obtain T where T: "from_raw list_rank_select list_bits [False, True] [4, 9] = Some T"
    "\<forall>p \<le> 2. label_at list_bits T p = Some ([0, 4, 9] ! p)"
    using from_raw_labels [OF list_bits.bit_field_vec_axioms, of "[False, True]" "[4, 9]" 3 3 list_rank_select]
    by (auto simp: numeral_2_eq_2)
  let ?f = "\<lambda>p. [0, 4, 9 :: u32] ! p"
  have "?f i \<le> ?f j" if "1 \<le> i" "i \<le> j" "j \<le> 2" for i j
  proof -
    consider "i = 1" "j = 1" | "i = 1" "j = 2" | "i = 2" "j = 2" using \<open>1 \<le> i\<close> \<open>i \<le> j\<close> \<open>j \<le> 2\<close> by linarith
    then show ?thesis by cases simp_all
  qed
  then have "labels_mono list_bits T ?f 1 2"
    unfolding labels_mono_def using T(2) by blast
  then obtain k where k: "leap list_bits T 1 2 5 = Some k" "first_ge ?f 1 2 5 k"
    using leap_exact [of list_bits T ?f 1 2 5] by (auto simp: usize_max_def)
  have "k = 1 \<or> k = 2 \<or> k = 3" using k(2) by (auto simp: first_ge_def)
  moreover have "k \<noteq> 1" using k(2) by (auto simp: first_ge_def)
  moreover have "k \<noteq> 3"
  proof
    assume "k = 3"
    then have "\<forall>j. 1 \<le> j \<and> j < 3 \<longrightarrow> ?f j < 5" using k(2) unfolding first_ge_def by simp
    from spec [OF this, of 2] show False by simp
  qed
  ultimately show ?thesis using T(1) k(1) by blast
qed

end
