(* ===== verification/TrieIter.thy ===== *)
theory TrieIter
  imports Prelude
begin

text \<open>
  Trie iterators: the trait of \<^verbatim>\<open>nova-core/src/trie.rs\<close> with its \<open>EmptyTrieIter\<close>, the
  in-memory \<open>SortedVecTrie\<close> of \<^verbatim>\<open>nova-reasoning/src/sorted_vec_trie.rs\<close> with \<open>join_scan\<close>, and
  the merging \<open>UnionTrieIter\<close> of \<^verbatim>\<open>nova-reasoning/src/join.rs\<close>. A boxed iterator is a value of
  \<open>trie_iter\<close>; iterators of other crates enter as the constructor \<open>Backend\<close> with their
  methods in a record \<open>trie_ops\<close> (the vtable of the trait object). A result \<open>None\<close> is a panic.

  The denotation of an iterator is the set of key paths it still has to visit below its
  current depth (\<open>iter_paths\<close>). The locale \<open>trie_iterator\<close> is the trait's contract over that
  denotation; it is proved of every iterator whose backend meets it.
\<close>

section \<open>Rows and in-memory tries\<close>

type_synonym row = "u64 \<times> u64 \<times> u64"

definition row_list :: "row \<Rightarrow> u64 list" where
  "row_list r = (case r of (a, b, c) \<Rightarrow> [a, b, c])"

text \<open>The Rust expression \<open>rows[i][col]\<close> reads one field of a three-element array.\<close>

definition row_get :: "row \<Rightarrow> nat \<Rightarrow> u64 option" where
  "row_get r i = nth_opt (row_list r) i"

record svt =
  rows :: "row list"
  range_lo :: nat
  range_hi :: nat
  col :: nat
  pos :: nat

definition svt_new :: "row list \<Rightarrow> svt" where
  "svt_new rs = \<lparr>rows = rs, range_lo = 0, range_hi = length rs, col = 0, pos = 0\<rparr>"

definition from_unsorted :: "row list \<Rightarrow> svt" where
  "from_unsorted rs = svt_new (sort_dedup rs)"

definition svt_is_empty :: "svt \<Rightarrow> bool" where
  "svt_is_empty t \<longleftrightarrow> range_lo t \<ge> range_hi t"

definition val_at :: "svt \<Rightarrow> nat \<Rightarrow> u64 option" where
  "val_at t i = do {r \<leftarrow> nth_opt (rows t) i; row_get r (col t)}"

text \<open>The values of the current column in a sub-slice of the rows.\<close>

definition column :: "svt \<Rightarrow> nat \<Rightarrow> nat \<Rightarrow> u64 list option" where
  "column t lo hi = do {rs \<leftarrow> slice_of (rows t) lo hi; those (map (\<lambda>r. row_get r (col t)) rs)}"

definition lower_bound :: "svt \<Rightarrow> u64 \<Rightarrow> nat option" where
  "lower_bound t target =
     do {vs \<leftarrow> column t (range_lo t) (range_hi t);
         Some (range_lo t + partition_point (\<lambda>v. v < target) vs)}"

definition column_row :: "nat \<Rightarrow> u64 \<Rightarrow> row" where
  "column_row c v = (if c = 0 then (v, 0, 0) else if c = 1 then (0, v, 0) else (0, 0, v))"

definition at_column :: "u64 list \<Rightarrow> nat \<Rightarrow> svt option" where
  "at_column vals c =
     (if vals = [] \<or> c < 3
      then Some \<lparr>rows = map (column_row c) vals, range_lo = 0, range_hi = length vals, col = c, pos = 0\<rparr>
      else None)"

definition svt_at_end :: "svt \<Rightarrow> bool" where
  "svt_at_end t \<longleftrightarrow> range_lo t + pos t \<ge> range_hi t"

definition svt_key :: "svt \<Rightarrow> u64 option" where
  "svt_key t = val_at t (range_lo t + pos t)"

definition svt_seek :: "svt \<Rightarrow> u64 \<Rightarrow> svt option" where
  "svt_seek t target =
     (if svt_at_end t then Some t
      else do {
        cur \<leftarrow> val_at t (range_lo t + pos t);
        if cur \<ge> target then Some t
        else do {new_idx \<leftarrow> lower_bound t target; Some (t\<lparr>pos := new_idx - range_lo t\<rparr>)}})"

definition svt_advance :: "svt \<Rightarrow> svt option" where
  "svt_advance t =
     (if svt_at_end t then Some t
      else do {cur_key \<leftarrow> svt_key t; svt_seek t (saturating_add cur_key 1)})"

fun count_runs :: "u64 list \<Rightarrow> nat" where
  "count_runs [] = 0"
| "count_runs (v # vs) = Suc (count_runs (drop (partition_point (\<lambda>x. x = v) vs) vs))"

definition svt_remaining_count :: "svt \<Rightarrow> u64 option" where
  "svt_remaining_count t =
     (if svt_at_end t then Some 0
      else do {vs \<leftarrow> column t (range_lo t + pos t) (range_hi t); Some (of_nat (count_runs vs))})"

section \<open>Boxed iterators\<close>

datatype 'b trie_iter =
    EmptyTrieIter
  | SortedVecTrie svt
  | UnionTrieIter "'b trie_iter" "'b trie_iter"
  | Backend 'b

record 'b trie_ops =
  b_key :: "'b \<Rightarrow> u64 option"
  b_seek :: "'b \<Rightarrow> u64 \<Rightarrow> 'b option"
  b_advance :: "'b \<Rightarrow> 'b option"
  b_open :: "'b \<Rightarrow> 'b trie_iter option"
  b_at_end :: "'b \<Rightarrow> bool"
  b_remaining_count :: "'b \<Rightarrow> u64 option"

definition svt_open :: "svt \<Rightarrow> 'b trie_iter option" where
  "svt_open t =
     (if svt_at_end t then Some EmptyTrieIter
      else do {
        cur_key \<leftarrow> svt_key t;
        let cur = range_lo t + pos t;
        vs \<leftarrow> column t cur (range_hi t);
        let hi = cur + partition_point (\<lambda>v. v = cur_key) vs;
        Some (SortedVecTrie
          \<lparr>rows = rows t, range_lo = cur, range_hi = hi, col = col t + 1, pos = 0\<rparr>)})"

primrec at_end :: "'b trie_ops \<Rightarrow> 'b trie_iter \<Rightarrow> bool" where
  "at_end B EmptyTrieIter = True"
| "at_end B (SortedVecTrie t) = svt_at_end t"
| "at_end B (UnionTrieIter a b) = (at_end B a \<and> at_end B b)"
| "at_end B (Backend x) = b_at_end B x"

primrec key :: "'b trie_ops \<Rightarrow> 'b trie_iter \<Rightarrow> u64 option" where
  "key B EmptyTrieIter = Some 0"
| "key B (SortedVecTrie t) = svt_key t"
| "key B (UnionTrieIter a b) =
     (case (at_end B a, at_end B b) of
        (True, True) \<Rightarrow> Some 0
      | (True, False) \<Rightarrow> key B b
      | (False, True) \<Rightarrow> key B a
      | (False, False) \<Rightarrow> do {ka \<leftarrow> key B a; kb \<leftarrow> key B b; Some (min ka kb)})"
| "key B (Backend x) = b_key B x"

primrec seek :: "'b trie_ops \<Rightarrow> 'b trie_iter \<Rightarrow> u64 \<Rightarrow> 'b trie_iter option" where
  "seek B EmptyTrieIter target = Some EmptyTrieIter"
| "seek B (SortedVecTrie t) target = map_option SortedVecTrie (svt_seek t target)"
| "seek B (UnionTrieIter a b) target =
     do {a' \<leftarrow> (if at_end B a then Some a else seek B a target);
         b' \<leftarrow> (if at_end B b then Some b else seek B b target);
         Some (UnionTrieIter a' b')}"
| "seek B (Backend x) target = map_option Backend (b_seek B x target)"

text \<open>The trait's default method; \<open>EmptyTrieIter\<close> inherits it.\<close>

definition default_advance :: "'b trie_ops \<Rightarrow> 'b trie_iter \<Rightarrow> 'b trie_iter option" where
  "default_advance B it = do {k \<leftarrow> key B it; seek B it (saturating_add k 1)}"

fun advance :: "'b trie_ops \<Rightarrow> 'b trie_iter \<Rightarrow> 'b trie_iter option" where
  "advance B EmptyTrieIter = default_advance B EmptyTrieIter"
| "advance B (SortedVecTrie t) = map_option SortedVecTrie (svt_advance t)"
| "advance B (UnionTrieIter a b) =
     (if at_end B (UnionTrieIter a b) then Some (UnionTrieIter a b)
      else do {k \<leftarrow> key B (UnionTrieIter a b);
               seek B (UnionTrieIter a b) (saturating_add k 1)})"
| "advance B (Backend x) = map_option Backend (b_advance B x)"

primrec open_iter :: "'b trie_ops \<Rightarrow> 'b trie_iter \<Rightarrow> 'b trie_iter option" where
  "open_iter B EmptyTrieIter = Some EmptyTrieIter"
| "open_iter B (SortedVecTrie t) = svt_open t"
| "open_iter B (UnionTrieIter a b) =
     (if at_end B (UnionTrieIter a b) then Some EmptyTrieIter
      else do {
        cur \<leftarrow> key B (UnionTrieIter a b);
        a_matches \<leftarrow> (if at_end B a then Some False else do {ka \<leftarrow> key B a; Some (ka = cur)});
        b_matches \<leftarrow> (if at_end B b then Some False else do {kb \<leftarrow> key B b; Some (kb = cur)});
        case (a_matches, b_matches) of
          (True, True) \<Rightarrow> do {a' \<leftarrow> open_iter B a; b' \<leftarrow> open_iter B b; Some (UnionTrieIter a' b')}
        | (True, False) \<Rightarrow> open_iter B a
        | (False, True) \<Rightarrow> open_iter B b
        | (False, False) \<Rightarrow> None})"
| "open_iter B (Backend x) = b_open B x"

primrec remaining_count :: "'b trie_ops \<Rightarrow> 'b trie_iter \<Rightarrow> u64 option" where
  "remaining_count B EmptyTrieIter = Some 0"
| "remaining_count B (SortedVecTrie t) = svt_remaining_count t"
| "remaining_count B (UnionTrieIter a b) = Some (- 1)"
| "remaining_count B (Backend x) = b_remaining_count B x"

definition join_scan ::
  "row list \<Rightarrow> u64 option \<Rightarrow> u64 option \<Rightarrow> u64 option \<Rightarrow> nat \<Rightarrow> 'b trie_iter option" where
  "join_scan rs s p ob target_field =
     (let bound = [s, p, ob];
          hits = filter (\<lambda>row. \<forall>i \<in> {0..<3}. i = target_field \<or>
            (case bound ! i of None \<Rightarrow> True | Some v \<Rightarrow> v = row_list row ! i)) rs
      in do {
        vals \<leftarrow> those (map (\<lambda>row. row_get row target_field) hits);
        let vals = sort_dedup vals;
        if vals = [] then Some EmptyTrieIter
        else map_option SortedVecTrie (at_column vals target_field)})"

section \<open>Denotation and contract\<close>

text \<open>The rows of the current node, the rows not yet passed, and the key paths below them.\<close>

definition node_rows :: "svt \<Rightarrow> row list" where
  "node_rows t = take (range_hi t - range_lo t) (drop (range_lo t) (rows t))"

definition svt_paths :: "svt \<Rightarrow> u64 list set" where
  "svt_paths t = (\<lambda>r. drop (col t) (row_list r)) ` set (drop (pos t) (node_rows t))"

definition same_prefix :: "nat \<Rightarrow> row list \<Rightarrow> bool" where
  "same_prefix c rs \<longleftrightarrow>
     (\<forall>r \<in> set rs. \<forall>r' \<in> set rs. take c (row_list r) = take c (row_list r'))"

definition svt_ok :: "svt \<Rightarrow> bool" where
  "svt_ok t \<longleftrightarrow> sorted_wrt (<) (rows t) \<and> range_lo t + pos t \<le> range_hi t \<and>
     range_hi t \<le> length (rows t) \<and> col t < 3 \<and> same_prefix (col t) (node_rows t)"

primrec iter_ok :: "('b \<Rightarrow> bool) \<Rightarrow> 'b trie_iter \<Rightarrow> bool" where
  "iter_ok okB EmptyTrieIter = True"
| "iter_ok okB (SortedVecTrie t) = svt_ok t"
| "iter_ok okB (UnionTrieIter a b) = (iter_ok okB a \<and> iter_ok okB b)"
| "iter_ok okB (Backend x) = okB x"

primrec iter_paths :: "('b \<Rightarrow> u64 list set) \<Rightarrow> 'b trie_iter \<Rightarrow> u64 list set" where
  "iter_paths pathsB EmptyTrieIter = {}"
| "iter_paths pathsB (SortedVecTrie t) = svt_paths t"
| "iter_paths pathsB (UnionTrieIter a b) = iter_paths pathsB a \<union> iter_paths pathsB b"
| "iter_paths pathsB (Backend x) = pathsB x"

text \<open>The trait's documented invariants, over the paths an iterator denotes.\<close>

locale trie_iterator =
  fixes ok :: "'it \<Rightarrow> bool"
    and paths :: "'it \<Rightarrow> u64 list set"
    and child_ok :: "'ch \<Rightarrow> bool"
    and child_paths :: "'ch \<Rightarrow> u64 list set"
    and key_op :: "'it \<Rightarrow> u64 option"
    and seek_op :: "'it \<Rightarrow> u64 \<Rightarrow> 'it option"
    and advance_op :: "'it \<Rightarrow> 'it option"
    and open_op :: "'it \<Rightarrow> 'ch option"
    and at_end_op :: "'it \<Rightarrow> bool"
  assumes paths_finite: "ok it \<Longrightarrow> finite (paths it)"
    and paths_deep: "ok it \<Longrightarrow> [] \<notin> paths it"
    and at_end_paths: "ok it \<Longrightarrow> at_end_op it \<longleftrightarrow> paths it = {}"
    and key_paths: "ok it \<Longrightarrow> paths it \<noteq> {} \<Longrightarrow> key_op it = Some (Min (hd ` paths it))"
    and seek_paths: "ok it \<Longrightarrow>
      \<exists>it'. seek_op it t = Some it' \<and> ok it' \<and> paths it' = {xs \<in> paths it. t \<le> hd xs}"
    and advance_paths: "ok it \<Longrightarrow> paths it \<noteq> {} \<Longrightarrow> key_op it = Some k \<Longrightarrow> k \<noteq> - 1 \<Longrightarrow>
      \<exists>it'. advance_op it = Some it' \<and> ok it' \<and> paths it' = {xs \<in> paths it. k < hd xs}"
    and open_paths: "ok it \<Longrightarrow> paths it \<noteq> {} \<Longrightarrow> key_op it = Some k \<Longrightarrow> [k] \<notin> paths it \<Longrightarrow>
      \<exists>ch. open_op it = Some ch \<and> child_ok ch \<and> child_paths ch = {xs. k # xs \<in> paths it}"
begin

text \<open>The keys of the current level.\<close>

definition keys :: "'it \<Rightarrow> u64 set" where
  "keys it = hd ` paths it"

lemma keys_finite: "ok it \<Longrightarrow> finite (keys it)"
  by (simp add: keys_def paths_finite)

lemma at_end_keys: "ok it \<Longrightarrow> at_end_op it \<longleftrightarrow> keys it = {}"
  by (simp add: keys_def at_end_paths)

lemma key_keys: "ok it \<Longrightarrow> keys it \<noteq> {} \<Longrightarrow> key_op it = Some (Min (keys it))"
  by (simp add: keys_def key_paths)

lemma seek_keys: "ok it \<Longrightarrow>
    \<exists>it'. seek_op it t = Some it' \<and> ok it' \<and> keys it' = {k \<in> keys it. t \<le> k}"
  using seek_paths [of it t] by (auto simp: keys_def)

lemma advance_keys:
  assumes "ok it" "keys it \<noteq> {}" "Min (keys it) \<noteq> - 1"
  shows "\<exists>it'. advance_op it = Some it' \<and> ok it' \<and> keys it' = keys it - {Min (keys it)}"
proof -
  let ?k = "Min (keys it)"
  obtain it' where it': "advance_op it = Some it'" "ok it'" "paths it' = {xs \<in> paths it. ?k < hd xs}"
    using advance_paths [of it ?k] key_keys [of it] assms by (auto simp: keys_def)
  have "k = ?k \<or> ?k < k" if "k \<in> keys it" for k
    using Min_le [OF keys_finite [OF assms(1)] that] by auto
  then have "keys it' = keys it - {?k}"
    by (force simp: keys_def it'(3))
  with it' show ?thesis by blast
qed

end

section \<open>In-memory tries meet the contract\<close>

lemma row_list_triple: "row_list (a, b, c) = [a, b, c]"
  by (simp add: row_list_def)

lemma row_get_Some [simp]: "i < 3 \<Longrightarrow> row_get r i = Some (row_list r ! i)"
  by (cases r) (simp add: row_get_def row_list_triple)

lemma length_row_list [simp]: "length (row_list r) = 3"
  by (cases r) (simp add: row_list_triple)

lemma column_eq:
  "lo \<le> hi \<Longrightarrow> hi \<le> length (rows t) \<Longrightarrow> col t < 3 \<Longrightarrow>
   column t lo hi = Some (map (\<lambda>r. row_list r ! col t) (take (hi - lo) (drop lo (rows t))))"
  by (simp add: column_def slice_of_def those_map_Some)

lemma row_less_column:
  assumes "r \<le> r'" and "take c (row_list r) = take c (row_list r')" and "c < 3"
  shows "row_list r ! c \<le> row_list r' ! c"
proof -
  obtain x y z x' y' z' where r: "r = (x, y, z)" "r' = (x', y', z')" by (cases r; cases r')
  consider "c = 0" | "c = 1" | "c = 2" using assms(3) by linarith
  then show ?thesis by cases (use assms r in \<open>auto simp: less_eq_prod_simp row_list_triple\<close>)
qed

lemma node_rows_column_sorted:
  assumes "svt_ok t"
  shows "sorted (map (\<lambda>r. row_list r ! col t) (node_rows t))"
proof -
  have "sorted_wrt (<) (node_rows t)"
    using assms unfolding svt_ok_def node_rows_def by (auto intro: sorted_wrt_take sorted_wrt_drop)
  then show ?thesis
    unfolding sorted_map
    by (rule sorted_wrt_mono_rel [rotated])
      (use assms in \<open>auto simp: svt_ok_def same_prefix_def intro!: row_less_column\<close>)
qed

lemma hd_drop_row: "c < 3 \<Longrightarrow> hd (drop c (row_list r)) = row_list r ! c"
  by (simp add: hd_drop_conv_nth)

text \<open>The facts about a well-formed in-memory trie that its methods need.\<close>

lemma svt_facts:
  assumes "svt_ok t"
  shows svt_length_node: "length (node_rows t) = range_hi t - range_lo t"
    and svt_end: "svt_at_end t \<longleftrightarrow> drop (pos t) (node_rows t) = []"
    and svt_rest: "take (range_hi t - (range_lo t + pos t)) (drop (range_lo t + pos t) (rows t))
                   = drop (pos t) (node_rows t)"
    and svt_keys: "hd ` svt_paths t = (\<lambda>r. row_list r ! col t) ` set (drop (pos t) (node_rows t))"
    and svt_val: "\<not> svt_at_end t \<Longrightarrow>
       val_at t (range_lo t + pos t) = Some (row_list (node_rows t ! pos t) ! col t)"
  using assms
  by (auto simp: svt_ok_def node_rows_def svt_at_end_def svt_paths_def image_image hd_drop_row
      val_at_def drop_take add.commute)

lemma svt_key_min:
  assumes "svt_ok t" "\<not> svt_at_end t"
  shows "svt_key t = Some (Min (hd ` svt_paths t))"
proof -
  let ?f = "\<lambda>r. row_list r ! col t" and ?d = "drop (pos t) (node_rows t)"
  have ne: "?d \<noteq> []" using assms svt_end by blast
  have "sorted (map ?f ?d)"
    using node_rows_column_sorted [OF assms(1)] by (simp add: drop_map [symmetric] sorted_wrt_drop)
  moreover obtain d ds where "?d = d # ds" using ne by (cases ?d) auto
  ultimately have "Min (?f ` set ?d) = ?f (hd ?d)"
    by (intro Min_eqI) auto
  then show ?thesis
    using ne svt_val [OF assms] by (simp add: svt_key_def svt_keys [OF assms(1)] hd_drop_conv_nth)
qed

lemma svt_seek_paths:
  assumes "svt_ok t"
  shows "\<exists>t'. svt_seek t target = Some t' \<and> svt_ok t' \<and>
    svt_paths t' = {xs \<in> svt_paths t. target \<le> hd xs}"
proof (cases "svt_at_end t \<or> target \<le> row_list (node_rows t ! pos t) ! col t")
  case True
  have "target \<le> k" if "\<not> svt_at_end t" "k \<in> hd ` svt_paths t" for k
  proof -
    have "finite (hd ` svt_paths t)" by (simp add: svt_paths_def)
    with that(2) have "Min (hd ` svt_paths t) \<le> k" by simp
    moreover have "Min (hd ` svt_paths t) = row_list (node_rows t ! pos t) ! col t"
      using svt_key_min [OF assms that(1)] svt_val [OF assms that(1)] by (simp add: svt_key_def)
    ultimately show ?thesis using True that(1) by simp
  qed
  then show ?thesis
    using True assms svt_end [OF assms] svt_val [OF assms]
    by (cases "svt_at_end t") (auto simp: svt_seek_def svt_paths_def)
next
  case False
  let ?f = "\<lambda>r. row_list r ! col t" and ?n = "node_rows t"
  let ?pp = "partition_point (\<lambda>r. ?f r < target) ?n"
  note bounds = assms [unfolded svt_ok_def]
  have lb: "lower_bound t target = Some (range_lo t + ?pp)"
    using bounds by (auto simp: lower_bound_def column_eq node_rows_def partition_point_def
        takeWhile_map comp_def)
  have pp: "drop ?pp ?n = filter (\<lambda>r. target \<le> ?f r) ?n"
    by (rule drop_partition_point [OF node_rows_column_sorted [OF assms]])
  have le: "?pp \<le> length ?n" by (simp add: partition_point_def length_takeWhile_le)
  have low: "?f r < target" if "r \<in> set (take (pos t) ?n)" for r
  proof -
    obtain i where i: "i < pos t" "i < length ?n" "r = ?n ! i"
      using \<open>r \<in> set (take (pos t) ?n)\<close> by (auto simp: in_set_conv_nth)
    moreover have "pos t < length ?n" using False svt_end [OF assms] by simp
    ultimately have "?f r \<le> ?f (?n ! pos t)"
      using sorted_nth_mono [OF node_rows_column_sorted [OF assms], of i "pos t"] by simp
    with False show ?thesis by (meson le_less_trans not_le)
  qed
  have "filter (\<lambda>r. target \<le> ?f r) ?n
      = filter (\<lambda>r. target \<le> ?f r) (take (pos t) ?n @ drop (pos t) ?n)" by simp
  also have "\<dots> = filter (\<lambda>r. target \<le> ?f r) (drop (pos t) ?n)"
    unfolding filter_append using low by (simp add: filter_empty_conv not_le)
  finally have rest: "drop ?pp ?n = filter (\<lambda>r. target \<le> ?f r) (drop (pos t) ?n)"
    by (simp only: pp)
  let ?t' = "t\<lparr>pos := ?pp\<rparr>"
  have node: "node_rows ?t' = ?n" by (simp add: node_rows_def)
  have "hd (drop (col t) (row_list r)) = ?f r" for r
    using bounds by (simp add: hd_drop_row)
  then have "svt_paths ?t' = {xs \<in> svt_paths t. target \<le> hd xs}"
    unfolding svt_paths_def node by (auto simp: rest)
  moreover have "svt_ok ?t'"
    using bounds le unfolding svt_length_node [OF assms] svt_ok_def node by auto
  moreover have "svt_seek t target = Some ?t'"
    using False svt_val [OF assms] by (simp add: svt_seek_def lb)
  ultimately show ?thesis by blast
qed

lemma svt_advance_paths:
  assumes "svt_ok t" "\<not> svt_at_end t" "svt_key t = Some k" "k \<noteq> - 1"
  shows "\<exists>t'. svt_advance t = Some t' \<and> svt_ok t' \<and> svt_paths t' = {xs \<in> svt_paths t. k < hd xs}"
  using svt_seek_paths [OF assms(1), of "saturating_add k 1"] assms
  by (simp add: svt_advance_def less_saturating_add_1)

lemma takeWhile_sorted_eq_filter:
  assumes "sorted (map f xs)" and "\<And>x. x \<in> set xs \<Longrightarrow> k \<le> f x"
  shows "takeWhile (\<lambda>x. f x = (k :: 'a::linorder)) xs = filter (\<lambda>x. f x = k) xs"
  using assms
proof (induction xs)
  case (Cons x xs)
  have "filter (\<lambda>x. f x = k) xs = []" if "f x \<noteq> k"
  proof -
    have "k < f x" using Cons.prems(2) [of x] that by simp
    then show ?thesis using Cons.prems(1) by (fastforce simp: filter_empty_conv)
  qed
  with Cons show ?case by auto
qed simp

lemma drop_Suc_eq: "c < length xs \<Longrightarrow> xs ! c # drop (Suc c) xs = drop c xs"
  by (simp add: Cons_nth_drop_Suc)

lemma svt_open_paths:
  fixes okB :: "'b \<Rightarrow> bool"
  assumes "svt_ok t" "\<not> svt_at_end t" "svt_key t = Some k" "[k] \<notin> svt_paths t"
  shows "\<exists>ch. svt_open t = Some ch \<and> iter_ok okB ch \<and> iter_paths pathsB ch = {xs. k # xs \<in> svt_paths t}"
proof -
  let ?f = "\<lambda>r. row_list r ! col t" and ?d = "drop (pos t) (node_rows t)" and ?cur = "range_lo t + pos t"
  note bounds = assms(1) [unfolded svt_ok_def]
  define n where "n = length (takeWhile (\<lambda>r. ?f r = k) ?d)"
  define ch where "ch = \<lparr>rows = rows t, range_lo = ?cur, range_hi = ?cur + n, col = col t + 1, pos = 0\<rparr>"
  have ne: "?d \<noteq> []" using assms svt_end by blast
  have srt: "sorted (map ?f ?d)"
    using node_rows_column_sorted [OF assms(1)] by (simp add: drop_map [symmetric] sorted_wrt_drop)
  have k: "k = Min (hd ` svt_paths t)" using svt_key_min assms by fastforce
  have "k \<le> ?f r" if "r \<in> set ?d" for r
    unfolding k svt_keys [OF assms(1)] using that by (intro Min_le) auto
  then have run: "takeWhile (\<lambda>r. ?f r = k) ?d = filter (\<lambda>r. ?f r = k) ?d"
    by (intro takeWhile_sorted_eq_filter [OF srt]) auto
  have n_le: "n \<le> range_hi t - ?cur"
    using length_takeWhile_le [of "\<lambda>r. ?f r = k" ?d]
    unfolding n_def length_drop svt_length_node [OF assms(1)] by simp
  have "node_rows ch = take n (take (range_hi t - ?cur) (drop ?cur (rows t)))"
    using n_le by (simp add: ch_def node_rows_def min_absorb1)
  also have "\<dots> = filter (\<lambda>r. ?f r = k) ?d"
    unfolding svt_rest [OF assms(1)] n_def run [symmetric] by (rule takeWhile_eq_take [symmetric])
  finally have node: "node_rows ch = filter (\<lambda>r. ?f r = k) ?d" .
  have deep: "col t + 1 < 3"
  proof (rule ccontr)
    assume "\<not> col t + 1 < 3"
    then have c: "col t = 2" using bounds by simp
    have "k \<in> hd ` svt_paths t" unfolding k using ne by (intro Min_in) (auto simp: svt_paths_def)
    then obtain r where "r \<in> set ?d" "?f r = k" unfolding svt_keys [OF assms(1)] by blast
    moreover have "drop (col t) (row_list r) = [k]" if "?f r = k" for r
      using c that by (cases r) (auto simp: row_list_triple)
    ultimately have "[k] \<in> svt_paths t" unfolding svt_paths_def by (metis image_eqI)
    then show False using assms(4) by simp
  qed
  have sub: "r \<in> set (node_rows t)" if "r \<in> set ?d" for r using that by (rule in_set_dropD)
  have "same_prefix (col t + 1) (node_rows ch)"
    unfolding same_prefix_def
  proof (intro ballI)
    fix r r' assume "r \<in> set (node_rows ch)" "r' \<in> set (node_rows ch)"
    then have "r \<in> set (node_rows t)" "r' \<in> set (node_rows t)" "?f r = ?f r'"
      using sub by (auto simp: node)
    then have "take (col t) (row_list r) = take (col t) (row_list r')" "?f r = ?f r'"
      using bounds unfolding same_prefix_def by blast+
    then show "take (col t + 1) (row_list r) = take (col t + 1) (row_list r')"
      using bounds by (simp add: take_Suc_conv_app_nth)
  qed
  then have "svt_ok ch"
    using bounds n_le deep unfolding svt_ok_def by (auto simp: ch_def)
  moreover have "svt_paths ch = {xs. k # xs \<in> svt_paths t}"
  proof -
    have eq: "drop (col t) (row_list r) = k # xs \<longleftrightarrow> ?f r = k \<and> drop (Suc (col t)) (row_list r) = xs" for r xs
      using drop_Suc_eq [of "col t" "row_list r"] bounds by (metis length_row_list list.inject)
    show ?thesis
      unfolding svt_paths_def node by (auto simp: ch_def image_iff eq eq_commute [of "_ # _"] eq_commute [of _ "drop _ _"])
  qed
  moreover have "svt_open t = Some (SortedVecTrie ch :: 'b trie_iter)"
    using assms(2,3) bounds
    by (simp add: svt_open_def column_eq svt_rest [OF assms(1)] partition_point_def ch_def n_def
        takeWhile_map comp_def Let_def)
  ultimately show ?thesis by simp
qed

lemma count_runs_card: "sorted vs \<Longrightarrow> count_runs vs = card (set vs)"
proof (induction vs rule: count_runs.induct)
  case (2 v vs)
  let ?d = "drop (partition_point (\<lambda>x. x = v) vs) vs"
  have d: "?d = dropWhile (\<lambda>x. x = v) vs"
    by (simp add: partition_point_def dropWhile_eq_drop)
  have "sorted ?d" using 2(2) by (simp add: sorted_wrt_drop)
  moreover have "set (v # vs) = insert v (set ?d)"
  proof -
    have "set vs \<subseteq> insert v (set ?d)" unfolding d by (induction vs) auto
    moreover have "set ?d \<subseteq> set vs" by (rule set_drop_subset)
    ultimately show ?thesis by auto
  qed
  moreover have "v \<notin> set ?d"
  proof
    assume v: "v \<in> set ?d"
    then have ne: "?d \<noteq> []" by auto
    have "hd ?d \<noteq> v" using ne unfolding d by (rule hd_dropWhile)
    moreover have "hd ?d \<le> v" using v \<open>sorted ?d\<close> by (cases ?d) auto
    moreover have "v \<le> hd ?d" using 2(2) ne hd_in_set [OF ne] in_set_dropD by fastforce
    ultimately show False by simp
  qed
  ultimately show ?case using 2(1) by simp
qed simp

lemma svt_remaining_count_card:
  assumes "svt_ok t"
  shows "svt_remaining_count t = Some (of_nat (card (hd ` svt_paths t)))"
proof -
  let ?f = "\<lambda>r. row_list r ! col t" and ?d = "drop (pos t) (node_rows t)"
  have "sorted (map ?f ?d)"
    using node_rows_column_sorted [OF assms] by (simp add: drop_map [symmetric] sorted_wrt_drop)
  then show ?thesis
    using assms svt_end [OF assms] svt_rest [OF assms] svt_keys [OF assms]
    by (auto simp: svt_remaining_count_def column_eq count_runs_card svt_ok_def)
qed

section \<open>Every boxed iterator meets the contract\<close>

text \<open>A backend: iterators of another crate that meet the contract.\<close>

locale trie_backend =
  trie_iterator okB pathsB "iter_ok okB" "iter_paths pathsB"
    "b_key B" "b_seek B" "b_advance B" "b_open B" "b_at_end B"
  for okB :: "'b \<Rightarrow> bool" and pathsB :: "'b \<Rightarrow> u64 list set" and B :: "'b trie_ops"
begin

lemma iter_finite: "iter_ok okB it \<Longrightarrow> finite (iter_paths pathsB it)"
  by (induction it) (auto simp: svt_paths_def paths_finite)

lemma iter_deep: "iter_ok okB it \<Longrightarrow> [] \<notin> iter_paths pathsB it"
  by (induction it) (auto simp: svt_paths_def svt_ok_def paths_deep)

lemma iter_at_end: "iter_ok okB it \<Longrightarrow> at_end B it \<longleftrightarrow> iter_paths pathsB it = {}"
  by (induction it) (auto simp: at_end_paths svt_end svt_paths_def)

lemma iter_key:
  "iter_ok okB it \<Longrightarrow> iter_paths pathsB it \<noteq> {} \<Longrightarrow>
   key B it = Some (Min (hd ` iter_paths pathsB it))"
proof (induction it)
  case (SortedVecTrie t)
  then show ?case using svt_key_min iter_at_end [of "SortedVecTrie t"] by simp
next
  case (UnionTrieIter a b)
  then show ?case
    using iter_at_end [of a] iter_at_end [of b] iter_finite [of a] iter_finite [of b]
    by (cases "at_end B a"; cases "at_end B b") (auto simp: image_Un Min_Un)
qed (auto simp: key_paths)

lemma iter_seek:
  "iter_ok okB it \<Longrightarrow>
   \<exists>it'. seek B it t = Some it' \<and> iter_ok okB it' \<and>
     iter_paths pathsB it' = {xs \<in> iter_paths pathsB it. t \<le> hd xs}"
proof (induction it)
  case (SortedVecTrie x)
  then show ?case using svt_seek_paths [of x t] by auto
next
  case (UnionTrieIter a b)
  have skip: "\<exists>a'. (if at_end B a then Some a else seek B a t) = Some a' \<and> iter_ok okB a' \<and>
      iter_paths pathsB a' = {xs \<in> iter_paths pathsB a. t \<le> hd xs}"
    if "iter_ok okB a" "\<exists>it'. seek B a t = Some it' \<and> iter_ok okB it' \<and>
      iter_paths pathsB it' = {xs \<in> iter_paths pathsB a. t \<le> hd xs}" for a
    using that iter_at_end [of a] by auto
  have "\<exists>a'. (if at_end B a then Some a else seek B a t) = Some a' \<and> iter_ok okB a' \<and>
      iter_paths pathsB a' = {xs \<in> iter_paths pathsB a. t \<le> hd xs}"
    "\<exists>b'. (if at_end B b then Some b else seek B b t) = Some b' \<and> iter_ok okB b' \<and>
      iter_paths pathsB b' = {xs \<in> iter_paths pathsB b. t \<le> hd xs}"
    using UnionTrieIter by (intro skip; simp)+
  then show ?case by (elim exE conjE) (auto simp del: if_split)
next
  case (Backend x)
  then show ?case using seek_paths [of x t] by auto
qed simp

lemma iter_advance:
  assumes "iter_ok okB it" "iter_paths pathsB it \<noteq> {}" "key B it = Some k" "k \<noteq> - 1"
  shows "\<exists>it'. advance B it = Some it' \<and> iter_ok okB it' \<and>
    iter_paths pathsB it' = {xs \<in> iter_paths pathsB it. k < hd xs}"
proof (cases it)
  case (SortedVecTrie t)
  then show ?thesis
    using svt_advance_paths [of t k] assms iter_at_end [of it] by auto
next
  case (UnionTrieIter a b)
  then show ?thesis
    using iter_seek [OF assms(1), of "saturating_add k 1"] assms iter_at_end [OF assms(1)]
    by (auto simp: less_saturating_add_1 simp del: seek.simps key.simps at_end.simps)
next
  case (Backend x)
  then show ?thesis using advance_paths [of x k] assms by auto
qed (use assms in auto)

lemma iter_open:
  "iter_ok okB it \<Longrightarrow> iter_paths pathsB it \<noteq> {} \<Longrightarrow> key B it = Some k \<Longrightarrow>
   [k] \<notin> iter_paths pathsB it \<Longrightarrow>
   \<exists>ch. open_iter B it = Some ch \<and> iter_ok okB ch \<and>
     iter_paths pathsB ch = {xs. k # xs \<in> iter_paths pathsB it}"
proof (induction it)
  case (SortedVecTrie t)
  then show ?case using svt_open_paths [of t k] iter_at_end [of "SortedVecTrie t"] by simp
next
  case (UnionTrieIter a b)
  have none: "\<And>xs. k # xs \<notin> iter_paths pathsB c"
    if "iter_ok okB c" "at_end B c \<or> key B c \<noteq> Some k \<and> (\<forall>k'. key B c = Some k' \<longrightarrow> k \<le> k')" for c
  proof
    fix xs assume xs: "k # xs \<in> iter_paths pathsB c"
    then have ne: "iter_paths pathsB c \<noteq> {}" by auto
    have "Min (hd ` iter_paths pathsB c) \<le> k"
      using xs iter_finite [OF that(1)] by (intro Min_le) (auto intro: rev_image_eqI)
    then show False using that iter_key [OF that(1) ne] iter_at_end [OF that(1)] ne
      by (auto simp del: Min_le_iff Min_ge_iff Min.bounded_iff)
  qed
  have keys: "at_end B c \<or> (\<exists>k'. key B c = Some k')" if "iter_ok okB c" for c
    using iter_key [OF that] iter_at_end [OF that] by auto
  have ok: "iter_ok okB a" "iter_ok okB b" using UnionTrieIter.prems by simp_all
  note none' = none [OF ok(1)] none [OF ok(2)]
  note UnionTrieIter.IH(1) [OF ok(1)] UnionTrieIter.IH(2) [OF ok(2)]
  then show ?case
    using UnionTrieIter.prems keys [OF ok(1)] keys [OF ok(2)] iter_at_end [OF ok(1)] iter_at_end [OF ok(2)] none'
    by (cases "at_end B a"; cases "at_end B b"; cases "key B a"; cases "key B b")
      (auto simp: min_def split: if_splits bool.splits)
qed (auto simp: open_paths)

end

sublocale trie_backend \<subseteq> boxed: trie_iterator "iter_ok okB" "iter_paths pathsB" "iter_ok okB"
  "iter_paths pathsB" "key B" "seek B" "advance B" "open_iter B" "at_end B"
  by unfold_locales (simp_all add: iter_finite iter_deep iter_at_end iter_key iter_seek iter_advance iter_open)

text \<open>The in-memory trie used through its vtable.\<close>

definition svt_ops :: "svt trie_ops" where
  "svt_ops = \<lparr>b_key = svt_key, b_seek = svt_seek, b_advance = svt_advance, b_open = svt_open,
     b_at_end = svt_at_end, b_remaining_count = svt_remaining_count\<rparr>"

lemma svt_paths_empty_iff: "svt_ok t \<Longrightarrow> svt_paths t = {} \<longleftrightarrow> svt_at_end t"
  by (simp add: svt_end svt_paths_def)

lemma svt_paths_deep: "svt_ok t \<Longrightarrow> [] \<notin> svt_paths t"
  by (auto simp: svt_ok_def svt_paths_def)

lemma svt_paths_finite: "finite (svt_paths t)"
  by (simp add: svt_paths_def)

interpretation svt_backend: trie_backend svt_ok svt_paths svt_ops
  by unfold_locales
    (simp_all add: svt_ops_def svt_paths_empty_iff svt_key_min svt_seek_paths svt_advance_paths
      svt_open_paths svt_paths_deep svt_paths_finite)

section \<open>Building in-memory tries\<close>

lemma from_unsorted_ok: "svt_ok (from_unsorted rs)"
  by (auto simp: from_unsorted_def svt_new_def svt_ok_def same_prefix_def)

lemma from_unsorted_paths: "svt_paths (from_unsorted rs) = row_list ` set rs"
  by (simp add: from_unsorted_def svt_new_def svt_paths_def node_rows_def)

lemma column_row_get: "c < 3 \<Longrightarrow> row_list (column_row c v) ! c = v"
  by (auto simp: column_row_def row_list_triple less_Suc_eq numeral_3_eq_3)

lemma column_row_less: "v < v' \<Longrightarrow> column_row c v < column_row c v'"
  by (auto simp: column_row_def less_prod_simp)

lemma column_row_prefix: "c < 3 \<Longrightarrow> take c (row_list (column_row c v)) = replicate c 0"
  by (auto simp: column_row_def row_list_triple less_Suc_eq numeral_3_eq_3)

lemma at_column_ok:
  assumes "sorted_wrt (<) vals" "c < 3"
  shows "\<exists>t. at_column vals c = Some t \<and> svt_ok t \<and> hd ` svt_paths t = set vals"
proof -
  have "sorted_wrt (<) (map (column_row c) vals)"
    unfolding sorted_wrt_map
    by (rule sorted_wrt_mono_rel [OF _ assms(1)]) (simp add: column_row_less)
  then show ?thesis
    using assms(2)
    by (auto simp: at_column_def svt_ok_def same_prefix_def node_rows_def svt_paths_def
        column_row_prefix image_image hd_drop_row column_row_get)
qed

text \<open>The rows a scan request selects, and the values it returns.\<close>

definition bound_ok :: "u64 option \<Rightarrow> u64 \<Rightarrow> bool" where
  "bound_ok b v \<longleftrightarrow> b = None \<or> b = Some v"

definition scan_values ::
  "row set \<Rightarrow> u64 option \<Rightarrow> u64 option \<Rightarrow> u64 option \<Rightarrow> nat \<Rightarrow> u64 set" where
  "scan_values R s p ob f =
     {row_list r ! f | r. r \<in> R \<and> (\<forall>i < 3. i = f \<or> bound_ok ([s, p, ob] ! i) (row_list r ! i))}"

lemma join_scan_values:
  assumes "f < 3"
  shows "\<exists>it. join_scan rs s p ob f = Some it \<and> iter_ok okB it \<and>
    hd ` iter_paths pathsB it = scan_values (set rs) s p ob f"
proof -
  define hits where "hits = filter (\<lambda>row. \<forall>i \<in> {0..<3}. i = f \<or>
    (case [s, p, ob] ! i of None \<Rightarrow> True | Some v \<Rightarrow> v = row_list row ! i)) rs"
  define vals where "vals = sort_dedup (map (\<lambda>r. row_list r ! f) hits)"
  have "set vals = (\<lambda>r. row_list r ! f) ` set hits"
    by (simp add: vals_def)
  also have "\<dots> = scan_values (set rs) s p ob f"
  proof -
    have "(case b of None \<Rightarrow> True | Some v \<Rightarrow> v = x) = bound_ok b x" for b x
      by (cases b) (auto simp: bound_ok_def)
    then show ?thesis unfolding hits_def scan_values_def by (auto simp: image_iff atLeast0LessThan lessThan_def)
  qed
  finally have vals: "set vals = scan_values (set rs) s p ob f" .
  have eq: "join_scan rs s p ob f =
      (if vals = [] then Some EmptyTrieIter else map_option SortedVecTrie (at_column vals f))"
    using assms unfolding join_scan_def Let_def hits_def [symmetric]
    by (simp add: those_map_Some vals_def)
  obtain t where "at_column vals f = Some t" "svt_ok t" "hd ` svt_paths t = set vals"
    using at_column_ok [of vals f] assms by (auto simp: vals_def)
  then show ?thesis
    using vals by (cases "vals = []") (auto simp: eq)
qed

end
