(* ===== verification/Cltj.thy ===== *)
theory Cltj
  imports Louds TrieIter
begin

text \<open>
  The six tries of a graph, \<^verbatim>\<open>crates/engines/nova-engine-louds/src/cltj.rs\<close>: a succinct trie with the
  vocabularies that translate its labels, the cursor \<open>CltjTrieIter\<close>, the paired construction of the six
  orders, and the snapshot form. \<open>SortOrder\<close> is from \<^verbatim>\<open>ring.rs\<close>. A panic is \<open>None\<close>.

  A cursor denotes the key paths that the code's own navigation reaches from it (\<open>cltj_paths\<close>). The
  lemmas relate them to the rows the trie was built from and show that cursors meet the contract of
  trie iterators; the interpretation \<open>cltj\<close> makes every result on iterators hold for them.
\<close>

section \<open>Tries and cursors\<close>

datatype sort_order = Spo | Sop | Pso | Pos | Ops | Osp

record ('r, 'v) cltj_trie =
  ct_louds :: "('r, 'v) louds_trie"
  ct_vocab :: "u64 list list"

definition vocab_slice :: "('r, 'v) cltj_trie \<Rightarrow> nat \<Rightarrow> u64 list option" where
  "vocab_slice t d = nth_opt (ct_vocab t) d"

definition vocab_len :: "('r, 'v) cltj_trie \<Rightarrow> nat \<Rightarrow> nat option" where
  "vocab_len t d = (if d < 3 then map_option length (vocab_slice t d) else Some 0)"

record ('r, 'v) cltj_trie_iter =
  ci_trie :: "('r, 'v) cltj_trie"
  ci_hi :: nat
  ci_pos :: nat
  ci_depth :: nat

definition iter_d0_concrete :: "'r rank_select \<Rightarrow> ('r, 'v) cltj_trie \<Rightarrow> ('r, 'v) cltj_trie_iter option" where
  "iter_d0_concrete R t =
     (let degree = root_degree R (ct_louds t)
      in if degree = 0 then None
         else Some \<lparr>ci_trie = t, ci_hi = degree, ci_pos = 1, ci_depth = 0\<rparr>)"

definition iter_d0 ::
  "'r rank_select \<Rightarrow> ('r, 'v) cltj_trie \<Rightarrow> ('r, 'v) cltj_trie_iter trie_iter" where
  "iter_d0 R t = (case iter_d0_concrete R t of Some it \<Rightarrow> Backend it | None \<Rightarrow> EmptyTrieIter)"

definition at_end_c :: "('r, 'v) cltj_trie_iter \<Rightarrow> bool" where
  "at_end_c it \<longleftrightarrow> ci_pos it > ci_hi it"

text \<open>The key at a label position of a trie, as \<open>key_c\<close> computes it.\<close>

definition key_at :: "'v bit_fields \<Rightarrow> ('r, 'v) cltj_trie \<Rightarrow> nat \<Rightarrow> nat \<Rightarrow> u64 option" where
  "key_at V t depth p =
     do {local_id \<leftarrow> label_at V (ct_louds t) p;
         vocab \<leftarrow> vocab_slice t depth;
         nth_opt vocab (unat local_id)}"

definition key_c :: "'v bit_fields \<Rightarrow> ('r, 'v) cltj_trie_iter \<Rightarrow> u64 option" where
  "key_c V it = key_at V (ci_trie it) (ci_depth it) (ci_pos it)"

definition seek_c ::
  "'v bit_fields \<Rightarrow> ('r, 'v) cltj_trie_iter \<Rightarrow> u64 \<Rightarrow> ('r, 'v) cltj_trie_iter option" where
  "seek_c V it target =
     (if at_end_c it then Some it
      else do {
        k \<leftarrow> key_c V it;
        if target \<le> k then Some it
        else do {
          vocab \<leftarrow> vocab_slice (ci_trie it) (ci_depth it);
          let local_target = partition_point (\<lambda>v. v < target) vocab;
          if local_target \<ge> length vocab then Some (it\<lparr>ci_pos := ci_hi it + 1\<rparr>)
          else do {
            p \<leftarrow> leap V (ct_louds (ci_trie it)) (ci_pos it) (ci_hi it) (of_nat local_target);
            Some (it\<lparr>ci_pos := p\<rparr>)}}})"

definition advance_c :: "('r, 'v) cltj_trie_iter \<Rightarrow> ('r, 'v) cltj_trie_iter" where
  "advance_c it = (if at_end_c it then it else it\<lparr>ci_pos := ci_pos it + 1\<rparr>)"

text \<open>The result \<open>Some None\<close> of \<open>open_concrete\<close> is the code's \<open>None\<close>.\<close>

definition open_concrete ::
  "'r rank_select \<Rightarrow> ('r, 'v) cltj_trie_iter \<Rightarrow> ('r, 'v) cltj_trie_iter option option" where
  "open_concrete R it =
     (if ci_depth it \<ge> 2 then Some None
      else do {
        child_v \<leftarrow> child_from_label_pos R (ct_louds (ci_trie it)) (ci_pos it);
        let child_degree = degree R (ct_louds (ci_trie it)) child_v;
        if child_degree = 0 then Some None
        else Some (Some \<lparr>ci_trie = ci_trie it, ci_hi = child_v + child_degree, ci_pos = child_v + 1,
                          ci_depth = ci_depth it + 1\<rparr>)})"

function collect_keys_into ::
  "'v bit_fields \<Rightarrow> ('r, 'v) cltj_trie_iter \<Rightarrow> u64 list \<Rightarrow> (('r, 'v) cltj_trie_iter \<times> u64 list) option" where
  "collect_keys_into V it out =
     (if at_end_c it then Some (it, out)
      else do {k \<leftarrow> key_c V it; collect_keys_into V (advance_c it) (out @ [k])})"
  by auto
termination
  by (relation "measure (\<lambda>(V, it, out). Suc (ci_hi it) - ci_pos it)") (auto simp: at_end_c_def advance_c_def)

declare collect_keys_into.simps [simp del]

definition cltj_open ::
  "'r rank_select \<Rightarrow> ('r, 'v) cltj_trie_iter \<Rightarrow> ('r, 'v) cltj_trie_iter trie_iter option" where
  "cltj_open R it =
     map_option (\<lambda>r. case r of Some ch \<Rightarrow> Backend ch | None \<Rightarrow> EmptyTrieIter) (open_concrete R it)"

text \<open>The methods of the trait; the number of remaining keys is the trait's default, \<open>u64::MAX\<close>.\<close>

definition cltj_ops ::
  "'r rank_select \<Rightarrow> 'v bit_fields \<Rightarrow> ('r, 'v) cltj_trie_iter trie_ops" where
  "cltj_ops R V = \<lparr>b_key = key_c V, b_seek = seek_c V, b_advance = (\<lambda>it. Some (advance_c it)),
     b_open = cltj_open R, b_at_end = at_end_c, b_remaining_count = (\<lambda>_. Some (- 1))\<rparr>"

section \<open>Construction\<close>

definition swap12 :: "row32 \<Rightarrow> row32" where
  "swap12 r = (case r of (a, b, c) \<Rightarrow> (a, c, b))"

text \<open>The rows of the secondary trie: each group of the first column, swapped and sorted.\<close>

definition secondary_rows :: "row32 list \<Rightarrow> row32 list" where
  "secondary_rows primary_sorted =
     remdups_adj (concat (map (\<lambda>(i, j, _). sort (map swap12 (slice primary_sorted i j)))
       (group_runs col0 primary_sorted 0)))"

definition louds_or_empty ::
  "'r rank_select \<Rightarrow> 'v bit_fields \<Rightarrow> row32 list \<Rightarrow> ('r, 'v) louds_trie option" where
  "louds_or_empty R V srt =
     do {l \<leftarrow> build_louds_from_sorted R V srt;
         case l of Some T \<Rightarrow> Some T | None \<Rightarrow> from_raw R V [] []}"

definition build_pair_shared_c0 ::
  "'r rank_select \<Rightarrow> 'v bit_fields \<Rightarrow> row32 list \<Rightarrow> u64 list list \<Rightarrow> u64 list list \<Rightarrow>
   (('r, 'v) cltj_trie \<times> ('r, 'v) cltj_trie) option" where
  "build_pair_shared_c0 R V primary_sorted vocab_primary vocab_secondary =
     do {
       primary_louds \<leftarrow> louds_or_empty R V primary_sorted;
       secondary_louds \<leftarrow> louds_or_empty R V (secondary_rows primary_sorted);
       Some (\<lparr>ct_louds = primary_louds, ct_vocab = vocab_primary\<rparr>,
             \<lparr>ct_louds = secondary_louds, ct_vocab = vocab_secondary\<rparr>)}"

record ('r, 'v) cltj_data =
  cd_tries :: "('r, 'v) cltj_trie list"

text \<open>The local identifiers of a row; a missing value panics and the cast to 32 bits truncates.\<close>

definition local_row ::
  "(u64 \<rightharpoonup> nat) \<Rightarrow> (u64 \<rightharpoonup> nat) \<Rightarrow> (u64 \<rightharpoonup> nat) \<Rightarrow> row \<Rightarrow> row32 option" where
  "local_row map_s map_p map_o r =
     (case r of (s, p, ob) \<Rightarrow>
        do {ls \<leftarrow> map_s s; lp \<leftarrow> map_p p; lo \<leftarrow> map_o ob; Some (of_nat ls, of_nat lp, of_nat lo)})"

definition build_cltj_data ::
  "'r rank_select \<Rightarrow> 'v bit_fields \<Rightarrow> row list \<Rightarrow> (u64 \<rightharpoonup> nat) \<Rightarrow> (u64 \<rightharpoonup> nat) \<Rightarrow> (u64 \<rightharpoonup> nat) \<Rightarrow>
   u64 list \<Rightarrow> u64 list \<Rightarrow> u64 list \<Rightarrow> ('r, 'v) cltj_data option" where
  "build_cltj_data R V spo_sorted map_s map_p map_o orig_s orig_p orig_o =
     do {
       ls_lp_lo \<leftarrow> those (map (local_row map_s map_p map_o) spo_sorted);
       (spo_trie, sop_trie) \<leftarrow> build_pair_shared_c0 R V ls_lp_lo
         [orig_s, orig_p, orig_o] [orig_s, orig_o, orig_p];
       let pso_sorted = sort_dedup (map (\<lambda>(ls, lp, lo). (lp, ls, lo)) ls_lp_lo);
       (pso_trie, pos_trie) \<leftarrow> build_pair_shared_c0 R V pso_sorted
         [orig_p, orig_s, orig_o] [orig_p, orig_o, orig_s];
       let ops_sorted = sort_dedup (map (\<lambda>(ls, lp, lo). (lo, lp, ls)) ls_lp_lo);
       (ops_trie, osp_trie) \<leftarrow> build_pair_shared_c0 R V ops_sorted
         [orig_o, orig_p, orig_s] [orig_o, orig_s, orig_p];
       Some \<lparr>cd_tries = [spo_trie, sop_trie, pso_trie, pos_trie, ops_trie, osp_trie]\<rparr>}"

primrec order_idx :: "sort_order \<Rightarrow> nat" where
  "order_idx Spo = 0"
| "order_idx Sop = 1"
| "order_idx Pso = 2"
| "order_idx Pos = 3"
| "order_idx Ops = 4"
| "order_idx Osp = 5"

definition data_trie_iter ::
  "'r rank_select \<Rightarrow> ('r, 'v) cltj_data \<Rightarrow> sort_order \<Rightarrow> ('r, 'v) cltj_trie_iter trie_iter option" where
  "data_trie_iter R data ord = map_option (iter_d0 R) (nth_opt (cd_tries data) (order_idx ord))"

definition data_trie_iter_concrete ::
  "'r rank_select \<Rightarrow> ('r, 'v) cltj_data \<Rightarrow> sort_order \<Rightarrow> ('r, 'v) cltj_trie_iter option option" where
  "data_trie_iter_concrete R data ord =
     map_option (iter_d0_concrete R) (nth_opt (cd_tries data) (order_idx ord))"

definition vocab_size_for_field :: "('r, 'v) cltj_data \<Rightarrow> nat \<Rightarrow> nat option" where
  "vocab_size_for_field data field =
     do {t \<leftarrow> nth_opt (cd_tries data) (order_idx Spo); vocab_len t field}"

section \<open>Snapshots\<close>

text \<open>
  The serialised form: the three shared vocabularies once, and the six tries without theirs. A core
  (\<open>LoudsCore\<close>) has the fields of \<open>LoudsTrie\<close>.
\<close>

record ('r, 'v) cltj_snapshot =
  vocab_s :: "u64 list"
  vocab_p :: "u64 list"
  vocab_o :: "u64 list"
  snap_tries :: "('r, 'v) louds_trie list"

definition cltj_into_snapshot :: "('r, 'v) cltj_data \<Rightarrow> ('r, 'v) cltj_snapshot option" where
  "cltj_into_snapshot data =
     do {
       t0 \<leftarrow> nth_opt (cd_tries data) 0;
       vs \<leftarrow> vocab_slice t0 0;
       vp \<leftarrow> vocab_slice t0 1;
       vo \<leftarrow> vocab_slice t0 2;
       Some \<lparr>vocab_s = vs, vocab_p = vp, vocab_o = vo, snap_tries = map ct_louds (cd_tries data)\<rparr>}"

definition snapshot_empty :: "'r rank_select \<Rightarrow> 'v bit_fields \<Rightarrow> ('r, 'v) cltj_snapshot option" where
  "snapshot_empty R V =
     do {tries \<leftarrow> those (replicate 6 (from_raw R V [] []));
         Some \<lparr>vocab_s = [], vocab_p = [], vocab_o = [], snap_tries = tries\<rparr>}"

definition cltj_from_snapshot :: "('r, 'v) cltj_snapshot \<Rightarrow> ('r, 'v) cltj_data option" where
  "cltj_from_snapshot snap =
     (let s = vocab_s snap; p = vocab_p snap; ob = vocab_o snap;
          vocabs = [[s, p, ob], [s, ob, p], [p, s, ob], [p, ob, s], [ob, p, s], [ob, s, p]]
      in if length (snap_tries snap) < 6 then None
         else Some \<lparr>cd_tries = map (\<lambda>(vocab, core). \<lparr>ct_louds = core, ct_vocab = vocab\<rparr>)
                (zip vocabs (snap_tries snap))\<rparr>)"

section \<open>Paths of a cursor\<close>

text \<open>The key paths below the label positions \<open>lo\<close> to \<open>hi\<close>, with \<open>n\<close> levels to go.\<close>

primrec nav_paths ::
  "'r rank_select \<Rightarrow> 'v bit_fields \<Rightarrow> nat \<Rightarrow> ('r, 'v) cltj_trie \<Rightarrow> nat \<Rightarrow> nat \<Rightarrow> u64 list set" where
  "nav_paths R V 0 t lo hi = {[]}"
| "nav_paths R V (Suc n) t lo hi =
     (\<Union>p \<in> {lo..hi}. case key_at V t (2 - n) p of
        None \<Rightarrow> {}
      | Some k \<Rightarrow> (#) k ` (if n = 0 then {[]}
          else case child_from_label_pos R (ct_louds t) p of
              None \<Rightarrow> {}
            | Some v \<Rightarrow> nav_paths R V n t (v + 1) (v + degree R (ct_louds t) v)))"

definition cltj_paths :: "'r rank_select \<Rightarrow> 'v bit_fields \<Rightarrow> ('r, 'v) cltj_trie_iter \<Rightarrow> u64 list set" where
  "cltj_paths R V it = nav_paths R V (3 - ci_depth it) (ci_trie it) (ci_pos it) (ci_hi it)"

text \<open>A trie over the rows \<open>srt\<close> of local identifiers, with vocabularies that translate them.\<close>

definition trie_ok :: "'r rank_select \<Rightarrow> 'v bit_fields \<Rightarrow> row32 list \<Rightarrow> ('r, 'v) cltj_trie \<Rightarrow> bool" where
  "trie_ok R V srt t \<longleftrightarrow> louds_of R V srt (ct_louds t) \<and>
     length (concat (label_lists srt)) \<le> usize_max \<and> length (ct_vocab t) = 3 \<and>
     (\<forall>d < 3. sorted_wrt (<) (ct_vocab t ! d) \<and> length (ct_vocab t ! d) \<le> 2 ^ 32 \<and>
        (\<forall>r \<in> set srt. unat (rcol d r) < length (ct_vocab t ! d)))"

definition gkey :: "('r, 'v) cltj_trie \<Rightarrow> nat \<Rightarrow> row32 \<Rightarrow> u64" where
  "gkey t d r = ct_vocab t ! d ! unat (rcol d r)"

definition gpath :: "('r, 'v) cltj_trie \<Rightarrow> nat \<Rightarrow> row32 \<Rightarrow> u64 list" where
  "gpath t d r = map (\<lambda>c. gkey t c r) [d..<3]"

lemma gpath_Cons: "d < 3 \<Longrightarrow> gpath t d r = gkey t d r # gpath t (Suc d) r"
  by (simp add: gpath_def upt_conv_Cons)

definition cltj_view ::
  "'r rank_select \<Rightarrow> 'v bit_fields \<Rightarrow> row32 list \<Rightarrow> nat \<Rightarrow> row32 list \<Rightarrow> nat \<Rightarrow> ('r, 'v) cltj_trie_iter \<Rightarrow> bool" where
  "cltj_view R V srt k g i it \<longleftrightarrow> trie_ok R V srt (ci_trie it) \<and> node_at srt k (ci_depth it) g \<and>
     i \<le> length (kids (ci_depth it) g) \<and> ci_pos it = off (degs_of srt) k + i + 1 \<and>
     ci_hi it = off (degs_of srt) k + length (kids (ci_depth it) g)"

definition cltj_ok :: "'r rank_select \<Rightarrow> 'v bit_fields \<Rightarrow> ('r, 'v) cltj_trie_iter \<Rightarrow> bool" where
  "cltj_ok R V it \<longleftrightarrow> (\<exists>srt k g i. cltj_view R V srt k g i it)"

lemma node_rows_subset:
  assumes "node_at srt k d g"
  shows "set g \<subseteq> set srt"
proof -
  have "concat (level srt d) = srt" for d
  proof (induction d)
    case (Suc d)
    have "concat (concat (map (kids d) gs)) = concat gs" for gs by (induction gs) simp_all
    then show ?case using Suc by simp
  qed simp
  moreover have "g \<in> set (level srt d)"
    using assms unfolding node_at_def by (auto simp del: level.simps) simp
  ultimately show ?thesis by (metis UN_upper set_concat)
qed

lemma kids_subset: "g' \<in> set (kids d g) \<Longrightarrow> set g' \<subseteq> set g"
  using concat_runs [of "rcol d" g] by (metis UN_upper set_concat)

lemma set_drop_nth: "set (drop i xs) = (\<lambda>j. xs ! j) ` {i..<length xs}"
proof -
  have "drop i (map ((!) xs) [0..<length xs]) = map ((!) xs) [i..<length xs]"
    unfolding drop_map drop_upt by simp
  then show ?thesis by (simp only: map_nth) simp
qed

text \<open>The two parameters of the succinct tries, with their documented behaviour.\<close>

locale sux = rank_select_laws R + bit_field_vec V
  for R :: "'r rank_select" and V :: "'v bit_fields"
begin

lemma view_key:
  assumes "trie_ok R V srt t" "node_at srt k d g" "j < length (kids d g)" "r \<in> set (kids d g ! j)"
  shows "key_at V t d (off (degs_of srt) k + j + 1) = Some (gkey t d r)"
proof -
  have t: "louds_of R V srt (ct_louds t)" "sorted_wrt (<) srt" "srt \<noteq> []"
    using assms(1) by (auto simp: trie_ok_def louds_of_def)
  have d: "d < 3" using node_at_ok [OF t(2,3) assms(2)] by simp
  have mem: "kids d g ! j \<in> set (kids d g)" using assms(3) by simp
  have "kid_labels d g ! j = rcol d r"
    using runs_eq [OF mem assms(4)] assms(3) by (simp add: kid_labels_def)
  moreover have "r \<in> set srt"
    using assms(4) kids_subset [OF mem] node_rows_subset [OF assms(2)] by blast
  ultimately show ?thesis
    using node_label [OF t(1) assms(2,3)] assms(1) d
    by (simp add: key_at_def vocab_slice_def trie_ok_def gkey_def)
qed

lemma nav_paths_node:
  assumes "trie_ok R V srt t" "node_at srt k d g" "i \<le> length (kids d g)"
  shows "nav_paths R V (3 - d) t (off (degs_of srt) k + i + 1) (off (degs_of srt) k + length (kids d g))
    = gpath t d ` set (concat (drop i (kids d g)))"
  using assms
proof (induction "3 - d" arbitrary: d k g i)
  case 0
  then have "d < 3" using node_at_ok [of srt k d g] by (auto simp: trie_ok_def louds_of_def)
  then show ?case using 0 by simp
next
  case (Suc n)
  let ?o = "off (degs_of srt) k" and ?len = "length (kids d g)"
  have l: "louds_of R V srt (ct_louds t)" using Suc.prems(1) by (simp add: trie_ok_def)
  have d: "d < 3" "2 - n = d" using Suc.hyps(2) by auto
  let ?body = "\<lambda>p. case key_at V t (2 - n) p of None \<Rightarrow> {}
      | Some x \<Rightarrow> (#) x ` (if n = 0 then {[]} else case child_from_label_pos R (ct_louds t) p of None \<Rightarrow> {}
          | Some v \<Rightarrow> nav_paths R V n t (v + 1) (v + degree R (ct_louds t) v))"
  have body: "?body (?o + j + 1) = gpath t d ` set (kids d g ! j)" if j: "j < ?len" for j
  proof -
    let ?g' = "kids d g ! j" and ?p = "?o + j + 1"
    have mem: "?g' \<in> set (kids d g)" using j by simp
    obtain r0 where r0: "r0 \<in> set ?g'" using runs_ne [OF mem] by (cases ?g') auto
    have key: "key_at V t (2 - n) ?p = Some (gkey t d r)" if "r \<in> set ?g'" for r
      using view_key [OF Suc.prems(1,2) j that] d by simp
    have inner: "(if n = 0 then {[]} else case child_from_label_pos R (ct_louds t) ?p of None \<Rightarrow> {}
        | Some v \<Rightarrow> nav_paths R V n t (v + 1) (v + degree R (ct_louds t) v)) = gpath t (Suc d) ` set ?g'"
    proof (cases "n = 0")
      case True
      then have "d = 2" using Suc.hyps(2) by simp
      then show ?thesis using True r0 by (auto simp: gpath_def)
    next
      case False
      then have d2: "d < 2" using Suc.hyps(2) by simp
      note nd = node_at_kid [OF Suc.prems(2) d2 j]
      have "nav_paths R V (3 - Suc d) t (off (degs_of srt) ?p + 0 + 1)
          (off (degs_of srt) ?p + length (kids (Suc d) ?g')) = gpath t (Suc d) ` set (concat (drop 0 (kids (Suc d) ?g')))"
        using Suc.hyps(2) by (intro Suc.hyps(1) [OF _ Suc.prems(1) nd]) simp_all
      moreover have "n = 3 - Suc d" using Suc.hyps(2) by simp
      ultimately show ?thesis
        using False node_child [OF l Suc.prems(2) d2 j] node_degree [OF l nd] by simp
    qed
    have eq: "gpath t d r = gkey t d r0 # gpath t (Suc d) r" if "r \<in> set ?g'" for r
      using key [OF that] key [OF r0] d by (simp add: gpath_Cons)
    have "?body ?p = (#) (gkey t d r0) ` gpath t (Suc d) ` set ?g'"
      unfolding key [OF r0] option.case inner ..
    also have "\<dots> = gpath t d ` set ?g'" by (simp add: image_image eq)
    finally show ?thesis .
  qed
  have "nav_paths R V (3 - d) t (?o + i + 1) (?o + ?len) = (\<Union>p \<in> {?o + i + 1..?o + ?len}. ?body p)"
    unfolding Suc.hyps(2) [symmetric] nav_paths.simps ..
  also have "{?o + i + 1..?o + ?len} = (\<lambda>j. ?o + j + 1) ` {i..<?len}"
  proof (intro equalityI subsetI)
    fix p assume "p \<in> {?o + i + 1..?o + ?len}"
    then show "p \<in> (\<lambda>j. ?o + j + 1) ` {i..<?len}" by (intro image_eqI [of _ _ "p - ?o - 1"]) auto
  qed auto
  also have "(\<Union>p \<in> (\<lambda>j. ?o + j + 1) ` {i..<?len}. ?body p) = (\<Union>j \<in> {i..<?len}. ?body (?o + j + 1))"
    by (simp only: image_image)
  also have "\<dots> = (\<Union>j \<in> {i..<?len}. gpath t d ` set (kids d g ! j))"
    using body by (intro SUP_cong) auto
  also have "\<dots> = gpath t d ` set (concat (drop i (kids d g)))"
    by (simp add: set_concat set_drop_nth image_UN)
  finally show ?case .
qed

lemma view_node:
  assumes "cltj_view R V srt k g i it"
  shows "ci_depth it < 3" and "group_ok (ci_depth it) g" and "trie_ok R V srt (ci_trie it)"
    and "louds_of R V srt (ct_louds (ci_trie it))" and "node_at srt k (ci_depth it) g"
    and "at_end_c it \<longleftrightarrow> i = length (kids (ci_depth it) g)"
  using assms node_at_ok [of srt k "ci_depth it" g]
  by (auto simp: cltj_view_def trie_ok_def louds_of_def at_end_c_def)

text \<open>The key of the \<open>j\<close>-th child of the node of a cursor.\<close>

definition kid_key :: "row32 list \<Rightarrow> ('r, 'v) cltj_trie_iter \<Rightarrow> nat \<Rightarrow> u64" where
  "kid_key g it j = ct_vocab (ci_trie it) ! ci_depth it ! unat (kid_labels (ci_depth it) g ! j)"

lemma kid_label_bound:
  assumes "cltj_view R V srt k g i it" "j < length (kids (ci_depth it) g)"
  shows "unat (kid_labels (ci_depth it) g ! j) < length (ct_vocab (ci_trie it) ! ci_depth it)"
proof -
  note v = view_node [OF assms(1)]
  have mem: "kids (ci_depth it) g ! j \<in> set (kids (ci_depth it) g)" using assms(2) by simp
  have "hd (kids (ci_depth it) g ! j) \<in> set srt"
    using hd_in_set [OF runs_ne [OF mem]] kids_subset [OF mem] node_rows_subset [OF v(5)] by blast
  then show ?thesis using v(1,3) assms(2) by (simp add: trie_ok_def kid_labels_def)
qed

lemma kid_key_mono:
  assumes "cltj_view R V srt k g i it" "a < b" "b < length (kids (ci_depth it) g)"
  shows "kid_key g it a < kid_key g it b"
proof -
  note v = view_node [OF assms(1)]
  have "kid_labels (ci_depth it) g ! a < kid_labels (ci_depth it) g ! b"
    using sorted_wrt_nth_less [OF kid_labels_sorted [OF v(2,1)] assms(2)] assms(3) by simp
  moreover have "sorted_wrt (<) (ct_vocab (ci_trie it) ! ci_depth it)" using v(1,3) by (simp add: trie_ok_def)
  ultimately show ?thesis
    using kid_label_bound [OF assms(1,3)] unfolding kid_key_def
    by (intro sorted_wrt_nth_less [of "(<)"]) (simp_all add: word_less_nat_alt)
qed

lemma kid_key_gkey:
  assumes "cltj_view R V srt k g i it" "j < length (kids (ci_depth it) g)" "r \<in> set (kids (ci_depth it) g ! j)"
  shows "gkey (ci_trie it) (ci_depth it) r = kid_key g it j"
proof -
  have "kids (ci_depth it) g ! j \<in> set (kids (ci_depth it) g)" using assms(2) by simp
  from runs_eq [OF this assms(3)] show ?thesis
    using assms(2) by (simp add: gkey_def kid_key_def kid_labels_def)
qed

lemma kid_key_at:
  assumes "cltj_view R V srt k g i it" "j < length (kids (ci_depth it) g)"
  shows "key_at V (ci_trie it) (ci_depth it) (off (degs_of srt) k + j + 1) = Some (kid_key g it j)"
proof -
  note v = view_node [OF assms(1)]
  have "kids (ci_depth it) g ! j \<noteq> []" using runs_ne [of _ "rcol (ci_depth it)" g] assms(2) by simp
  then obtain r where r: "r \<in> set (kids (ci_depth it) g ! j)" by (metis hd_in_set)
  show ?thesis using view_key [OF v(3,5) assms(2) r] kid_key_gkey [OF assms r] by simp
qed

lemma view_key_c:
  assumes "cltj_view R V srt k g i it" "i < length (kids (ci_depth it) g)"
  shows "key_c V it = Some (kid_key g it i)"
  using kid_key_at [OF assms] assms(1) by (simp add: key_c_def cltj_view_def)

lemma view_paths:
  assumes "cltj_view R V srt k g i it"
  shows "cltj_paths R V it = gpath (ci_trie it) (ci_depth it) ` set (concat (drop i (kids (ci_depth it) g)))"
  using nav_paths_node [of srt "ci_trie it" k "ci_depth it" g i] assms
  by (simp add: cltj_paths_def cltj_view_def)

lemma view_path_iff:
  assumes "cltj_view R V srt k g i it"
  shows "xs \<in> cltj_paths R V it \<longleftrightarrow> (\<exists>j r. i \<le> j \<and> j < length (kids (ci_depth it) g) \<and>
    r \<in> set (kids (ci_depth it) g ! j) \<and> xs = gpath (ci_trie it) (ci_depth it) r \<and> hd xs = kid_key g it j)"
proof -
  have hd: "hd (gpath (ci_trie it) (ci_depth it) r) = gkey (ci_trie it) (ci_depth it) r" for r
    using view_node(1) [OF assms] by (simp add: gpath_Cons)
  have "xs \<in> cltj_paths R V it \<longleftrightarrow> (\<exists>j \<in> {i..<length (kids (ci_depth it) g)}.
      \<exists>r \<in> set (kids (ci_depth it) g ! j). xs = gpath (ci_trie it) (ci_depth it) r)"
    unfolding view_paths [OF assms] set_concat set_drop_nth by blast
  also have "\<dots> \<longleftrightarrow> (\<exists>j \<in> {i..<length (kids (ci_depth it) g)}. \<exists>r \<in> set (kids (ci_depth it) g ! j).
      xs = gpath (ci_trie it) (ci_depth it) r \<and> hd xs = kid_key g it j)"
    by (intro bex_cong refl) (use hd kid_key_gkey [OF assms] in \<open>auto simp del: split_paired_All\<close>)
  finally show ?thesis unfolding Bex_def atLeastLessThan_iff by blast
qed

lemma view_keys:
  assumes "cltj_view R V srt k g i it"
  shows "hd ` cltj_paths R V it = kid_key g it ` {i..<length (kids (ci_depth it) g)}"
proof (intro equalityI subsetI)
  fix x assume "x \<in> kid_key g it ` {i..<length (kids (ci_depth it) g)}"
  then obtain j where j: "i \<le> j" "j < length (kids (ci_depth it) g)" "x = kid_key g it j" by auto
  have "kids (ci_depth it) g ! j \<noteq> []" using runs_ne [of _ "rcol (ci_depth it)" g] j(2) by simp
  then obtain r where r: "r \<in> set (kids (ci_depth it) g ! j)" by (metis hd_in_set)
  let ?xs = "gpath (ci_trie it) (ci_depth it) r"
  have "hd ?xs = x"
    using view_node(1) [OF assms] kid_key_gkey [OF assms j(2) r] j(3) by (simp add: gpath_Cons)
  moreover have "?xs \<in> cltj_paths R V it"
    unfolding view_path_iff [OF assms] using j r calculation by blast
  ultimately show "x \<in> hd ` cltj_paths R V it" by blast
qed (auto simp: view_path_iff [OF assms])

lemma view_move:
  assumes "cltj_view R V srt k g i it" "i \<le> j" "j \<le> length (kids (ci_depth it) g)"
    and "\<And>x. i \<le> x \<Longrightarrow> x < j \<Longrightarrow> \<not> P (kid_key g it x)"
    and "\<And>x. j \<le> x \<Longrightarrow> x < length (kids (ci_depth it) g) \<Longrightarrow> P (kid_key g it x)"
  defines "it' \<equiv> it\<lparr>ci_pos := off (degs_of srt) k + j + 1\<rparr>"
  shows "cltj_view R V srt k g j it'" and "cltj_paths R V it' = {xs \<in> cltj_paths R V it. P (hd xs)}"
proof -
  show v: "cltj_view R V srt k g j it'" using assms(1,3) by (simp add: cltj_view_def it'_def)
  have kk: "kid_key g it' x = kid_key g it x" for x by (simp add: kid_key_def it'_def)
  have iff: "xs \<in> cltj_paths R V it' \<longleftrightarrow> (\<exists>a r. j \<le> a \<and> a < length (kids (ci_depth it) g) \<and>
      r \<in> set (kids (ci_depth it) g ! a) \<and> xs = gpath (ci_trie it) (ci_depth it) r \<and> hd xs = kid_key g it a)" for xs
    using view_path_iff [OF v, of xs] unfolding kk by (simp add: it'_def)
  show "cltj_paths R V it' = {xs \<in> cltj_paths R V it. P (hd xs)}"
  proof (intro equalityI subsetI)
    fix xs assume "xs \<in> cltj_paths R V it'"
    then obtain a r where "j \<le> a" "a < length (kids (ci_depth it) g)" "r \<in> set (kids (ci_depth it) g ! a)"
      "xs = gpath (ci_trie it) (ci_depth it) r" "hd xs = kid_key g it a" unfolding iff by blast
    then show "xs \<in> {xs \<in> cltj_paths R V it. P (hd xs)}"
      unfolding mem_Collect_eq view_path_iff [OF assms(1)] using assms(2) assms(5) [of a]
      by (intro conjI exI [of _ a] exI [of _ r]) auto
  next
    fix xs assume "xs \<in> {xs \<in> cltj_paths R V it. P (hd xs)}"
    then obtain a r where a: "i \<le> a" "a < length (kids (ci_depth it) g)" "r \<in> set (kids (ci_depth it) g ! a)"
      "xs = gpath (ci_trie it) (ci_depth it) r" "hd xs = kid_key g it a" "P (kid_key g it a)"
      unfolding mem_Collect_eq view_path_iff [OF assms(1)] by auto
    then have "j \<le> a" using assms(4) [of a] by (meson not_less)
    then show "xs \<in> cltj_paths R V it'" unfolding iff using a by blast
  qed
qed

lemma view_key_less:
  assumes "cltj_view R V srt k g i it" "i \<le> x" "x < length (kids (ci_depth it) g)"
  shows "kid_key g it i \<le> kid_key g it x"
  using kid_key_mono [OF assms(1), of i x] assms(2,3) by (cases "i = x") auto

lemma cltj_at_end: "cltj_ok R V it \<Longrightarrow> at_end_c it \<longleftrightarrow> cltj_paths R V it = {}"
proof -
  assume "cltj_ok R V it"
  then obtain srt k g i where v: "cltj_view R V srt k g i it" by (auto simp: cltj_ok_def)
  then have "i \<le> length (kids (ci_depth it) g)" by (simp add: cltj_view_def)
  moreover have "cltj_paths R V it = {} \<longleftrightarrow> hd ` cltj_paths R V it = {}" by simp
  ultimately show ?thesis unfolding view_node(6) [OF v] view_keys [OF v] by auto
qed

lemma cltj_key: "cltj_ok R V it \<Longrightarrow> cltj_paths R V it \<noteq> {} \<Longrightarrow> key_c V it = Some (Min (hd ` cltj_paths R V it))"
proof -
  assume "cltj_ok R V it" and ne: "cltj_paths R V it \<noteq> {}"
  then obtain srt k g i where v: "cltj_view R V srt k g i it" by (auto simp: cltj_ok_def)
  have i: "i < length (kids (ci_depth it) g)" using ne view_keys [OF v] by (cases "i < length (kids (ci_depth it) g)") auto
  have "Min (hd ` cltj_paths R V it) = kid_key g it i"
    unfolding view_keys [OF v] by (rule Min_eqI) (use i view_key_less [OF v] in auto)
  then show ?thesis using view_key_c [OF v i] by simp
qed

lemma partition_point_nth:
  "sorted_wrt (<) vs \<Longrightarrow> u < length vs \<Longrightarrow> vs ! u < t \<longleftrightarrow> u < partition_point (\<lambda>v. v < t) (vs :: u64 list)"
proof (induction vs arbitrary: u)
  case (Cons v vs)
  show ?case
  proof (cases "v < t")
    case True
    then show ?thesis using Cons by (cases u) (auto simp: partition_point_def)
  next
    case False
    have "v \<le> (v # vs) ! u" using Cons.prems by (cases u) (auto intro: less_imp_le)
    then have "t \<le> (v # vs) ! u" using False by (meson order.trans not_less)
    then show ?thesis using False by (simp add: partition_point_def)
  qed
qed simp

lemma cltj_seek:
  assumes "cltj_ok R V it"
  shows "\<exists>it'. seek_c V it target = Some it' \<and> cltj_ok R V it' \<and>
    cltj_paths R V it' = {xs \<in> cltj_paths R V it. target \<le> hd xs}"
proof -
  obtain srt k g i where v: "cltj_view R V srt k g i it" using assms by (auto simp: cltj_ok_def)
  note n = view_node [OF v]
  let ?len = "length (kids (ci_depth it) g)" and ?vocab = "ct_vocab (ci_trie it) ! ci_depth it"
  have i: "i \<le> ?len" and pos: "ci_pos it = off (degs_of srt) k + i + 1"
    and hi: "ci_hi it = off (degs_of srt) k + ?len" using v by (auto simp: cltj_view_def)
  have vs: "vocab_slice (ci_trie it) (ci_depth it) = Some ?vocab" "sorted_wrt (<) ?vocab" "length ?vocab \<le> 2 ^ 32"
    using n(1,3) by (auto simp: trie_ok_def vocab_slice_def)
  have stay: ?thesis if "at_end_c it \<or> target \<le> kid_key g it i \<and> i < ?len"
  proof -
    have "target \<le> hd xs" if "xs \<in> cltj_paths R V it" for xs
    proof -
      from that obtain j where j: "i \<le> j" "j < ?len" "hd xs = kid_key g it j"
        unfolding view_path_iff [OF v] by blast
      then have "target \<le> kid_key g it i" using \<open>at_end_c it \<or> _\<close> n(6) by auto
      also have "\<dots> \<le> hd xs" unfolding j(3) by (rule view_key_less [OF v j(1,2)])
      finally show ?thesis .
    qed
    then show ?thesis
      using that view_key_c [OF v] assms by (intro exI [of _ it]) (auto simp: seek_c_def)
  qed
  have key: "kid_key g it x < target \<longleftrightarrow> unat (kid_labels (ci_depth it) g ! x) < partition_point (\<lambda>v. v < target) ?vocab"
    if "x < ?len" for x
    unfolding kid_key_def by (rule partition_point_nth [OF vs(2) kid_label_bound [OF v that]])
  show ?thesis
  proof (cases "at_end_c it \<or> target \<le> kid_key g it i \<and> i < ?len")
    case False
    then have lt: "\<not> at_end_c it" "i < ?len" "kid_key g it i < target" using n(6) i by auto
    let ?t = "partition_point (\<lambda>v. v < target) ?vocab"
    show ?thesis
    proof (cases "?t \<ge> length ?vocab")
      case True
      have "kid_key g it x < target" if "x < ?len" for x
        using key [OF that] kid_label_bound [OF v that] True by simp
      then have m: "cltj_view R V srt k g ?len (it\<lparr>ci_pos := off (degs_of srt) k + ?len + 1\<rparr>)"
        "cltj_paths R V (it\<lparr>ci_pos := off (degs_of srt) k + ?len + 1\<rparr>) = {xs \<in> cltj_paths R V it. target \<le> hd xs}"
        using view_move [OF v i, of "(\<le>) target"] by (auto simp: not_le)
      then show ?thesis
        using lt True vs view_key_c [OF v lt(2)] hi
        by (intro exI [of _ "it\<lparr>ci_pos := off (degs_of srt) k + ?len + 1\<rparr>"]) (auto simp: seek_c_def cltj_ok_def not_le)
    next
      case False
      have u: "unat (of_nat ?t :: u32) = ?t" using False vs(3) by (intro unat_of_nat_u32) simp
      obtain j where j: "leap V (ct_louds (ci_trie it)) (ci_pos it) (ci_hi it) (of_nat ?t) = Some (off (degs_of srt) k + j + 1)"
        "i \<le> j" "j \<le> ?len" "\<forall>x. i \<le> x \<and> x < j \<longrightarrow> kid_labels (ci_depth it) g ! x < of_nat ?t"
        "j < ?len \<longrightarrow> of_nat ?t \<le> kid_labels (ci_depth it) g ! j"
        using node_leap [OF n(4,5) lt(2), of "of_nat ?t"] n(3) unfolding pos hi by (auto simp: trie_ok_def)
      have low: "\<not> target \<le> kid_key g it x" if "i \<le> x" "x < j" for x
        using j(3,4) that key [of x] u by (simp add: word_less_nat_alt not_le)
      have up: "target \<le> kid_key g it x" if "j \<le> x" "x < ?len" for x
      proof -
        have jl: "j < ?len" using that by simp
        then have "?t \<le> unat (kid_labels (ci_depth it) g ! j)" using j(5) u by (simp add: word_le_nat_alt)
        then have "target \<le> kid_key g it j" using key [OF jl] by (meson not_less)
        then show ?thesis using kid_key_mono [OF v, of j x] that by (cases "j = x") auto
      qed
      have m: "cltj_view R V srt k g j (it\<lparr>ci_pos := off (degs_of srt) k + j + 1\<rparr>)"
        "cltj_paths R V (it\<lparr>ci_pos := off (degs_of srt) k + j + 1\<rparr>) = {xs \<in> cltj_paths R V it. target \<le> hd xs}"
        using view_move [OF v j(2,3), of "(\<le>) target"] low up by simp_all
      then show ?thesis
        using lt False vs view_key_c [OF v lt(2)] j(1)
        by (intro exI [of _ "it\<lparr>ci_pos := off (degs_of srt) k + j + 1\<rparr>"]) (auto simp: seek_c_def cltj_ok_def not_le)
    qed
  qed (rule stay)
qed

lemma cltj_advance:
  assumes "cltj_ok R V it" "cltj_paths R V it \<noteq> {}" "key_c V it = Some x"
  shows "cltj_ok R V (advance_c it) \<and> cltj_paths R V (advance_c it) = {xs \<in> cltj_paths R V it. x < hd xs}"
proof -
  obtain srt k g i where v: "cltj_view R V srt k g i it" using assms by (auto simp: cltj_ok_def)
  have ne: "\<not> at_end_c it" using assms cltj_at_end by blast
  then have i: "i < length (kids (ci_depth it) g)" using view_node(6) [OF v] v by (auto simp: cltj_view_def)
  have x: "x = kid_key g it i" using view_key_c [OF v i] assms(3) by simp
  have eq: "advance_c it = it\<lparr>ci_pos := off (degs_of srt) k + Suc i + 1\<rparr>"
    using ne v by (simp add: advance_c_def cltj_view_def)
  have "cltj_view R V srt k g (Suc i) (advance_c it)"
    "cltj_paths R V (advance_c it) = {xs \<in> cltj_paths R V it. x < hd xs}"
    unfolding eq x using i kid_key_mono [OF v, of i]
    by (intro view_move [OF v, of "Suc i" "\<lambda>y. kid_key g it i < y"]; auto simp: less_Suc_eq)+
  then show ?thesis by (auto simp: cltj_ok_def)
qed

lemma cltj_open_paths:
  assumes "cltj_ok R V it" "cltj_paths R V it \<noteq> {}" "key_c V it = Some x" "[x] \<notin> cltj_paths R V it"
  shows "\<exists>ch. open_concrete R it = Some (Some ch) \<and> cltj_ok R V ch \<and> cltj_paths R V ch = {xs. x # xs \<in> cltj_paths R V it}
    \<and> \<not> at_end_c ch"
proof -
  obtain srt k g i where v: "cltj_view R V srt k g i it" using assms by (auto simp: cltj_ok_def)
  note n = view_node [OF v]
  let ?d = "ci_depth it" and ?o = "off (degs_of srt) k" and ?t = "ci_trie it"
  have i: "i < length (kids ?d g)" using cltj_at_end [OF assms(1)] assms(2) n(6) v by (auto simp: cltj_view_def)
  have x: "x = kid_key g it i" using view_key_c [OF v i] assms(3) by simp
  let ?g' = "kids ?d g ! i" and ?v = "off (degs_of srt) (off (degs_of srt) k + i + 1)"
  have mem: "?g' \<in> set (kids ?d g)" using i by simp
  have d2: "?d < 2"
  proof (rule ccontr)
    assume "\<not> ?d < 2"
    then have "?d = 2" using n(1) by simp
    moreover obtain r where "r \<in> set ?g'" using runs_ne [OF mem] by (metis hd_in_set)
    ultimately have "[x] \<in> cltj_paths R V it"
      unfolding view_path_iff [OF v] using i x kid_key_gkey [OF v i]
      by (intro exI [of _ i] exI [of _ r]) (simp add: gpath_def)
    then show False using assms(4) by simp
  qed
  note nd = node_at_kid [OF n(5) d2 i]
  have deg: "degree R (ct_louds ?t) ?v = length (kids (Suc ?d) ?g')" using node_degree [OF n(4) nd] .
  have pos: "0 < length (kids (Suc ?d) ?g')" using runs_ne [OF mem] by simp
  let ?ch = "\<lparr>ci_trie = ?t, ci_hi = ?v + length (kids (Suc ?d) ?g'), ci_pos = ?v + 1, ci_depth = ?d + 1\<rparr>"
  have op: "open_concrete R it = Some (Some ?ch)"
    using d2 node_child [OF n(4,5) d2 i] deg pos v by (simp add: open_concrete_def cltj_view_def Let_def)
  have vc: "cltj_view R V srt (?o + i + 1) ?g' 0 ?ch"
    using nd n(3) by (simp add: cltj_view_def)
  have "cltj_paths R V ?ch = gpath ?t (Suc ?d) ` set ?g'" using view_paths [OF vc] by simp
  moreover have "x # xs \<in> cltj_paths R V it \<longleftrightarrow> xs \<in> gpath ?t (Suc ?d) ` set ?g'" for xs
  proof
    assume "x # xs \<in> cltj_paths R V it"
    then obtain j r where j: "i \<le> j" "j < length (kids ?d g)" "r \<in> set (kids ?d g ! j)"
      "x # xs = gpath ?t ?d r" "x = kid_key g it j" unfolding view_path_iff [OF v] by auto
    then have "j = i" using kid_key_mono [OF v, of i j] x by (cases "i = j") auto
    then show "xs \<in> gpath ?t (Suc ?d) ` set ?g'" using j n(1) by (auto simp: gpath_Cons simp del: split_paired_Ex)
  next
    assume "xs \<in> gpath ?t (Suc ?d) ` set ?g'"
    then obtain r where r: "r \<in> set ?g'" "xs = gpath ?t (Suc ?d) r" by blast
    then have "x # xs = gpath ?t ?d r" using n(1) kid_key_gkey [OF v i r(1)] x by (simp add: gpath_Cons)
    then have "gpath ?t ?d r = x # xs" "hd (gpath ?t ?d r) = x" by (metis list.sel(1))+
    then show "x # xs \<in> cltj_paths R V it"
      unfolding view_path_iff [OF v] using r i x by (intro exI [of _ i] exI [of _ r]) simp
  qed
  ultimately have "cltj_paths R V ?ch = {xs. x # xs \<in> cltj_paths R V it}" by blast
  moreover have "cltj_ok R V ?ch" using vc by (auto simp: cltj_ok_def)
  moreover have "\<not> at_end_c ?ch" using pos by (simp add: at_end_c_def)
  ultimately show ?thesis using op by blast
qed

text \<open>Draining a cursor appends the keys left, in ascending order.\<close>

lemma collect_keys_list:
  assumes "cltj_ok R V it"
  shows "\<exists>it'. collect_keys_into V it out = Some (it', out @ sorted_list_of_set (hd ` cltj_paths R V it)) \<and> at_end_c it'"
  using assms
proof (induction "Suc (ci_hi it) - ci_pos it" arbitrary: it out rule: less_induct)
  case less
  show ?case
  proof (cases "at_end_c it")
    case True
    then show ?thesis using cltj_at_end [OF less.prems] by (subst collect_keys_into.simps) simp
  next
    case False
    then have ne: "cltj_paths R V it \<noteq> {}" using cltj_at_end [OF less.prems] by simp
    let ?K = "hd ` cltj_paths R V it"
    have key: "key_c V it = Some (Min ?K)" by (rule cltj_key [OF less.prems ne])
    have adv: "cltj_ok R V (advance_c it)" "cltj_paths R V (advance_c it) = {xs \<in> cltj_paths R V it. Min ?K < hd xs}"
      using cltj_advance [OF less.prems ne key] by auto
    have fin: "finite ?K" using less.prems view_paths by (auto simp: cltj_ok_def)
    have "hd ` cltj_paths R V (advance_c it) = ?K - {Min ?K}"
      unfolding adv(2) using Min_le [OF fin] by (auto simp: less_le)
    then have "sorted_list_of_set ?K = Min ?K # sorted_list_of_set (hd ` cltj_paths R V (advance_c it))"
      using sorted_list_of_set_nonempty [OF fin] ne by simp
    moreover have "Suc (ci_hi (advance_c it)) - ci_pos (advance_c it) < Suc (ci_hi it) - ci_pos it"
      using False by (simp add: advance_c_def at_end_c_def)
    then obtain it' where "collect_keys_into V (advance_c it) (out @ [Min ?K]) =
        Some (it', (out @ [Min ?K]) @ sorted_list_of_set (hd ` cltj_paths R V (advance_c it)))" "at_end_c it'"
      using less.hyps [OF _ adv(1)] by blast
    ultimately show ?thesis using False key by (subst collect_keys_into.simps) auto
  qed
qed

lemma cltj_finite: "cltj_ok R V it \<Longrightarrow> finite (cltj_paths R V it)"
  using view_paths by (auto simp: cltj_ok_def)

lemma cltj_deep: "cltj_ok R V it \<Longrightarrow> [] \<notin> cltj_paths R V it"
  using view_paths view_node(1) by (fastforce simp: cltj_ok_def gpath_def)

end

sublocale sux \<subseteq> cltj: trie_backend "cltj_ok R V" "cltj_paths R V" "cltj_ops R V"
proof
  fix it k assume "cltj_ok R V it" "cltj_paths R V it \<noteq> {}" "b_key (cltj_ops R V) it = Some k" "[k] \<notin> cltj_paths R V it"
  then show "\<exists>ch. b_open (cltj_ops R V) it = Some ch \<and> iter_ok (cltj_ok R V) ch \<and>
      iter_paths (cltj_paths R V) ch = {xs. k # xs \<in> cltj_paths R V it}"
    using cltj_open_paths [of it k] by (auto simp: cltj_ops_def cltj_open_def)
qed (simp_all add: cltj_ops_def cltj_finite cltj_deep cltj_at_end cltj_key cltj_seek cltj_advance)

interpretation list_sux: sux list_rank_select list_bits
  by unfold_locales

section \<open>The six tries of a graph\<close>

lemma sort_dedup_Nil [simp]: "sort_dedup xs = [] \<longleftrightarrow> xs = []"
  by (metis set_empty set_sort_dedup)

lemma secondary_concat:
  "concat (map (\<lambda>(i, j, _). sort (map swap12 (slice xs i j))) (group_runs col0 xs 0))
   = concat (map (sort \<circ> map swap12) (runs col0 xs))"
proof -
  have "map (\<lambda>(i, j, _). sort (map swap12 (slice xs i j))) (group_runs col0 xs 0)
      = map (sort \<circ> map swap12 \<circ> fst) (map (\<lambda>(i, j, c). (slice xs i j, c)) (group_runs col0 xs 0))"
    by (auto simp: comp_def)
  also have "\<dots> = map (sort \<circ> map swap12) (runs col0 xs)"
    unfolding group_runs_slices by (simp add: comp_def)
  finally show ?thesis by simp
qed

lemma fst_swap12 [simp]: "fst (swap12 r) = fst r"
  by (cases r) (auto simp: swap12_def)

lemma secondary_sorted: "sorted (map col0 xs) \<Longrightarrow> sorted (concat (map (sort \<circ> map swap12) (runs col0 xs)))"
proof (induction "col0 :: row32 \<Rightarrow> u32" xs rule: runs.induct)
  case (2 x xs)
  let ?P = "\<lambda>y. col0 y = col0 x" and ?rest = "concat (map (sort \<circ> map swap12) (runs col0 (dropWhile (\<lambda>y. col0 y = col0 x) xs)))"
  have sd: "sorted (map col0 (dropWhile ?P xs))"
    using 2(2) takeWhile_dropWhile_id [of ?P xs]
    by (metis (no_types, lifting) list.simps(9) map_append sorted_append sorted_simps(2))
  have rest: "set ?rest = swap12 ` set (dropWhile ?P xs)"
  proof -
    have "set ?rest = swap12 ` set (concat (runs col0 (dropWhile ?P xs)))" by (auto simp del: concat_runs)
    then show ?thesis by simp
  qed
  have "a \<le> b" if a: "a \<in> set (sort (map swap12 (x # takeWhile ?P xs)))" and b: "b \<in> set ?rest" for a b
  proof -
    have fa: "fst a = fst x" using a unfolding set_sort by (auto dest: set_takeWhileD)
    have ne: "dropWhile ?P xs \<noteq> []" using b unfolding rest by force
    have "fst (hd (dropWhile ?P xs)) \<noteq> fst x" using hd_dropWhile [OF ne] by simp
    moreover have "fst x \<le> fst (hd (dropWhile ?P xs))" using 2(2) hd_in_set [OF ne] set_dropWhileD by fastforce
    ultimately have "fst a < fst (hd (dropWhile ?P xs))" unfolding fa by (simp only: less_le not_sym simp_thms)
    also obtain r where "r \<in> set (dropWhile ?P xs)" "fst b = fst r" using b unfolding rest by auto
    then have "fst (hd (dropWhile ?P xs)) \<le> fst b" using sd by (cases "dropWhile ?P xs") auto
    finally have "fst a < fst b" .
    then show ?thesis by (simp add: less_eq_prod_def)
  qed
  then have "sorted (sort (map swap12 (x # takeWhile ?P xs)) @ ?rest)"
    using 2(1) [OF sd] sorted_sort [of "map swap12 (x # takeWhile ?P xs)"] unfolding sorted_append by blast
  then show ?case by simp
qed simp

lemma secondary_rows_eq:
  assumes "sorted_wrt (<) xs"
  shows "secondary_rows xs = sort_dedup (map swap12 xs)"
proof -
  let ?c = "concat (map (sort \<circ> map swap12) (runs col0 xs))"
  have "sorted (map col0 xs)"
    unfolding sorted_map by (rule sorted_wrt_mono_rel [OF _ assms]) (auto simp: less_prod_simp)
  then have "sorted_wrt (<) (remdups_adj ?c)"
    by (intro sorted_remdups_adj_strict secondary_sorted)
  moreover have "set ?c = set (map swap12 xs)"
  proof -
    have "set ?c = swap12 ` set (concat (runs col0 xs))" by (auto simp del: concat_runs)
    then show ?thesis by simp
  qed
  ultimately show ?thesis
    unfolding secondary_rows_def secondary_concat sort_dedup_eq
    by (intro sorted_distinct_set_unique) (auto simp: strict_sorted_iff)
qed

lemma level_length: "srt \<noteq> [] \<Longrightarrow> sorted_wrt (<) srt \<Longrightarrow> length (level srt d) \<le> length srt"
proof -
  assume s: "srt \<noteq> []" "sorted_wrt (<) srt"
  have "concat (level srt d) = srt"
  proof (induction d)
    case (Suc d)
    have "concat (concat (map (kids d) gs)) = concat gs" for gs by (induction gs) simp_all
    then show ?case using Suc by simp
  qed simp
  moreover have "length gs \<le> length (concat gs)" if "[] \<notin> set gs" for gs :: "row32 list list"
    using that
  proof (induction gs)
    case (Cons a gs)
    then show ?case by (cases a) auto
  qed simp
  moreover have "[] \<notin> set (level srt d)" using group_ok_level [OF s(2,1)] by (auto simp: group_ok_def)
  ultimately show ?thesis by metis
qed

lemma label_lists_length: "srt \<noteq> [] \<Longrightarrow> sorted_wrt (<) srt \<Longrightarrow> length (concat (label_lists srt)) \<le> 3 * length srt"
proof -
  assume s: "srt \<noteq> []" "sorted_wrt (<) srt"
  have len: "length (concat (map (kid_labels d) (level srt d))) = length (level srt (Suc d))" for d
    by (simp add: length_concat comp_def)
  have "length (concat (label_lists srt)) = length (level srt 1) + length (level srt 2) + length (level srt 3)"
    using len [of 0] len [of 1] len [of 2] by (simp add: label_lists_def numeral_2_eq_2 numeral_3_eq_3)
  then show ?thesis using level_length [OF s, of 1] level_length [OF s, of 2] level_length [OF s, of 3] by simp
qed

text \<open>The columns of a row in an order.\<close>

fun order_cols :: "sort_order \<Rightarrow> row \<Rightarrow> u64 list" where
  "order_cols Spo (s, p, ob) = [s, p, ob]"
| "order_cols Sop (s, p, ob) = [s, ob, p]"
| "order_cols Pso (s, p, ob) = [p, s, ob]"
| "order_cols Pos (s, p, ob) = [p, ob, s]"
| "order_cols Ops (s, p, ob) = [ob, p, s]"
| "order_cols Osp (s, p, ob) = [ob, s, p]"

definition trie_for :: "'r rank_select \<Rightarrow> 'v bit_fields \<Rightarrow> row set \<Rightarrow> sort_order \<Rightarrow> ('r, 'v) cltj_trie \<Rightarrow> bool" where
  "trie_for R V S ord t \<longleftrightarrow> (\<exists>srt. trie_ok R V srt t \<and> gpath t 0 ` set srt = order_cols ord ` S)"

definition data_ok :: "'r rank_select \<Rightarrow> 'v bit_fields \<Rightarrow> row set \<Rightarrow> ('r, 'v) cltj_data \<Rightarrow> bool" where
  "data_ok R V S data \<longleftrightarrow>
     length (cd_tries data) = 6 \<and> (\<forall>ord. trie_for R V S ord (cd_tries data ! order_idx ord))"

lemma trie_forI:
  assumes "louds_of R V srt (ct_louds t)" "set srt = P ` S" "3 * length srt \<le> usize_max"
    and "length (ct_vocab t) = 3"
    and "\<And>d. d < 3 \<Longrightarrow> sorted_wrt (<) (ct_vocab t ! d) \<and> length (ct_vocab t ! d) \<le> 2 ^ 32"
    and "\<And>r d. r \<in> S \<Longrightarrow> d < 3 \<Longrightarrow> unat (rcol d (P r)) < length (ct_vocab t ! d)"
    and "\<And>r d. r \<in> S \<Longrightarrow> d < 3 \<Longrightarrow> ct_vocab t ! d ! unat (rcol d (P r)) = order_cols ord r ! d"
  shows "trie_for R V S ord t"
proof -
  have srt: "sorted_wrt (<) srt" "srt \<noteq> []" using assms(1) by (auto simp: louds_of_def)
  have "trie_ok R V srt t"
    using assms(1,3-6) label_lists_length [OF srt(2,1)] unfolding trie_ok_def assms(2) by auto
  moreover have "gpath t 0 (P r) = order_cols ord r" if "r \<in> S" for r
  proof -
    have "length (order_cols ord r) = 3" by (cases r; cases ord) simp_all
    then show ?thesis using assms(7) [OF that]
      by (intro nth_equalityI) (auto simp: gpath_def gkey_def)
  qed
  then have "gpath t 0 ` set srt = order_cols ord ` S"
    unfolding assms(2) image_image by (intro image_cong) auto
  ultimately show ?thesis unfolding trie_for_def by blast
qed

text \<open>A vocabulary and the map from its values to their positions.\<close>

definition vocab_map :: "u64 list \<Rightarrow> (u64 \<rightharpoonup> nat) \<Rightarrow> bool" where
  "vocab_map vs m \<longleftrightarrow> sorted_wrt (<) vs \<and> length vs \<le> 2 ^ 32 \<and> (\<forall>i < length vs. m (vs ! i) = Some i)"

definition loc :: "(u64 \<rightharpoonup> nat) \<Rightarrow> u64 \<Rightarrow> u32" where
  "loc m v = of_nat (the (m v))"

lemma loc_facts:
  assumes "vocab_map vs m" "v \<in> set vs"
  shows "m v = Some (unat (loc m v))" and "unat (loc m v) < length vs" and "vs ! unat (loc m v) = v"
proof -
  obtain i where i: "i < length vs" "vs ! i = v" using assms(2) by (auto simp: in_set_conv_nth)
  then have "m v = Some i" using assms(1) by (auto simp: vocab_map_def)
  moreover have "unat (of_nat i :: u32) = i" using i assms(1) by (intro unat_of_nat_u32) (simp add: vocab_map_def)
  ultimately show "m v = Some (unat (loc m v))" "unat (loc m v) < length vs" "vs ! unat (loc m v) = v"
    using i by (simp_all add: loc_def)
qed

lemma loc_less:
  assumes "vocab_map vs m" "v \<in> set vs" "v' \<in> set vs"
  shows "loc m v < loc m v' \<longleftrightarrow> v < v'"
proof -
  have s: "sorted_wrt (<) vs" using assms(1) by (simp add: vocab_map_def)
  note f = loc_facts [OF assms(1,2)] loc_facts [OF assms(1,3)]
  have "unat (loc m v) < unat (loc m v') \<longleftrightarrow> v < v'"
  proof (cases "unat (loc m v)" "unat (loc m v')" rule: linorder_cases)
    case less
    have "v < v'" using sorted_wrt_nth_less [OF s less f(5)] unfolding f(3,6) .
    then show ?thesis using less by simp
  next
    case equal
    then have "v = v'" using f(3,6) by metis
    then show ?thesis by simp
  next
    case greater
    have "v' < v" using sorted_wrt_nth_less [OF s greater f(2)] unfolding f(3,6) .
    then show ?thesis using greater by simp
  qed
  then show ?thesis by (simp add: word_less_nat_alt)
qed

definition loc_row :: "(u64 \<rightharpoonup> nat) \<Rightarrow> (u64 \<rightharpoonup> nat) \<Rightarrow> (u64 \<rightharpoonup> nat) \<Rightarrow> row \<Rightarrow> row32" where
  "loc_row ms mp mo r = (case r of (s, p, ob) \<Rightarrow> (loc ms s, loc mp p, loc mo ob))"

text \<open>The vocabularies of the three columns of a list of rows.\<close>

definition vocabs_ok ::
  "row list \<Rightarrow> u64 list \<Rightarrow> u64 list \<Rightarrow> u64 list \<Rightarrow> (u64 \<rightharpoonup> nat) \<Rightarrow> (u64 \<rightharpoonup> nat) \<Rightarrow> (u64 \<rightharpoonup> nat) \<Rightarrow> bool" where
  "vocabs_ok rs vs vp vo ms mp mo \<longleftrightarrow> vocab_map vs ms \<and> vocab_map vp mp \<and> vocab_map vo mo \<and>
     (\<forall>(s, p, ob) \<in> set rs. s \<in> set vs \<and> p \<in> set vp \<and> ob \<in> set vo)"

lemma local_row_eq:
  assumes "vocabs_ok rs vs vp vo ms mp mo" "r \<in> set rs"
  shows "local_row ms mp mo r = Some (loc_row ms mp mo r)"
proof -
  obtain s p ob where r: "r = (s, p, ob)" by (cases r)
  then have "vocab_map vs ms" "vocab_map vp mp" "vocab_map vo mo" "s \<in> set vs" "p \<in> set vp" "ob \<in> set vo"
    using assms by (auto simp: vocabs_ok_def)
  then have "ms s = Some (unat (loc ms s))" "mp p = Some (unat (loc mp p))" "mo ob = Some (unat (loc mo ob))"
    by (simp_all only: loc_facts(1))
  then show ?thesis by (simp add: r local_row_def loc_row_def)
qed

lemma loc_row_less:
  assumes "vocabs_ok rs vs vp vo ms mp mo" "r \<in> set rs" "r' \<in> set rs" "r < r'"
  shows "loc_row ms mp mo r < loc_row ms mp mo r'"
proof -
  obtain s p ob s' p' ob' where r: "r = (s, p, ob)" "r' = (s', p', ob')" by (cases r; cases r')
  have "vocab_map vs ms" "vocab_map vp mp" "vocab_map vo mo"
    "s \<in> set vs" "p \<in> set vp" "ob \<in> set vo" "s' \<in> set vs" "p' \<in> set vp" "ob' \<in> set vo"
    using assms(1-3) r by (auto simp: vocabs_ok_def)
  then have "loc ms s < loc ms s' \<longleftrightarrow> s < s'" "loc mp p < loc mp p' \<longleftrightarrow> p < p'" "loc mo ob < loc mo ob' \<longleftrightarrow> ob < ob'"
    by (simp_all only: loc_less)
  then show ?thesis using assms(4) by (auto simp: r loc_row_def less_prod_simp)
qed

lemma local_rows:
  assumes "vocabs_ok rs vs vp vo ms mp mo" "sorted_wrt (<) rs"
  shows "those (map (local_row ms mp mo) rs) = Some (map (loc_row ms mp mo) rs)"
    and "sorted_wrt (<) (map (loc_row ms mp mo) rs)"
proof -
  show "those (map (local_row ms mp mo) rs) = Some (map (loc_row ms mp mo) rs)"
    by (rule those_map_Some) (rule local_row_eq [OF assms(1)])
  show "sorted_wrt (<) (map (loc_row ms mp mo) rs)"
    unfolding sorted_wrt_map
    by (rule sorted_wrt_mono_rel [OF _ assms(2)]) (rule loc_row_less [OF assms(1)])
qed

context sux
begin

lemma louds_or_empty_built:
  "sorted_wrt (<) srt \<Longrightarrow> srt \<noteq> [] \<Longrightarrow> \<exists>T. louds_or_empty R V srt = Some T \<and> louds_of R V srt T"
  using louds_of_build [OF bit_field_vec_axioms, of srt] by (auto simp: louds_or_empty_def)

lemma build_pair:
  assumes "sorted_wrt (<) srt" "srt \<noteq> []"
  shows "\<exists>t1 t2. build_pair_shared_c0 R V srt v1 v2 = Some (t1, t2) \<and> ct_vocab t1 = v1 \<and> ct_vocab t2 = v2 \<and>
    louds_of R V srt (ct_louds t1) \<and> louds_of R V (sort_dedup (map swap12 srt)) (ct_louds t2)"
proof -
  obtain T1 where T1: "louds_or_empty R V srt = Some T1" "louds_of R V srt T1"
    using louds_or_empty_built [OF assms] by blast
  have "sort_dedup (map swap12 srt) \<noteq> []" using assms(2) by simp
  then obtain T2 where "louds_or_empty R V (sort_dedup (map swap12 srt)) = Some T2"
    "louds_of R V (sort_dedup (map swap12 srt)) T2"
    using louds_or_empty_built [OF sort_dedup_strict] by blast
  then show ?thesis using T1 by (simp add: build_pair_shared_c0_def secondary_rows_eq [OF assms(1)])
qed

end

text \<open>The local rows of an order.\<close>

fun order_row :: "sort_order \<Rightarrow> row32 \<Rightarrow> row32" where
  "order_row Spo (a, b, c) = (a, b, c)"
| "order_row Sop (a, b, c) = (a, c, b)"
| "order_row Pso (a, b, c) = (b, a, c)"
| "order_row Pos (a, b, c) = (b, c, a)"
| "order_row Ops (a, b, c) = (c, b, a)"
| "order_row Osp (a, b, c) = (c, a, b)"

fun order_vocab :: "sort_order \<Rightarrow> 'a \<Rightarrow> 'a \<Rightarrow> 'a \<Rightarrow> 'a list" where
  "order_vocab Spo s p ob = [s, p, ob]"
| "order_vocab Sop s p ob = [s, ob, p]"
| "order_vocab Pso s p ob = [p, s, ob]"
| "order_vocab Pos s p ob = [p, ob, s]"
| "order_vocab Ops s p ob = [ob, p, s]"
| "order_vocab Osp s p ob = [ob, s, p]"

lemma less_3_cases: "(d :: nat) < 3 \<Longrightarrow> (d = 0 \<Longrightarrow> Q) \<Longrightarrow> (d = 1 \<Longrightarrow> Q) \<Longrightarrow> (d = 2 \<Longrightarrow> Q) \<Longrightarrow> Q"
  by linarith

lemma trie_for_order:
  assumes v: "vocabs_ok rs vs vp vo ms mp mo" and l: "louds_of R V srt (ct_louds t)"
    and srt: "srt = sort_dedup (map (order_row ord \<circ> loc_row ms mp mo) rs)"
    and t: "ct_vocab t = order_vocab ord vs vp vo" and n: "3 * length rs \<le> usize_max"
  shows "trie_for R V (set rs) ord t"
proof (rule trie_forI [OF l, where P = "order_row ord \<circ> loc_row ms mp mo"])
  show "set srt = (order_row ord \<circ> loc_row ms mp mo) ` set rs" by (simp add: srt)
  have "length srt \<le> length rs"
    unfolding srt sort_dedup_def by (rule order_trans [OF remdups_adj_length]) simp
  then show "3 * length srt \<le> usize_max" using n by simp
  show "length (ct_vocab t) = 3" by (cases ord) (simp_all add: t)
  have vm: "vocab_map vs ms" "vocab_map vp mp" "vocab_map vo mo" using v by (auto simp: vocabs_ok_def)
  show "sorted_wrt (<) (ct_vocab t ! d) \<and> length (ct_vocab t ! d) \<le> 2 ^ 32" if "d < 3" for d
    using vm that by (cases ord) (auto simp: t vocab_map_def elim!: less_3_cases)
  fix r d assume r: "r \<in> set rs" and d: "d < (3 :: nat)"
  obtain s p ob where e: "r = (s, p, ob)" by (cases r)
  have m: "s \<in> set vs" "p \<in> set vp" "ob \<in> set vo" using v r e by (auto simp: vocabs_ok_def)
  note f = loc_facts(2,3) [OF vm(1) m(1)] loc_facts(2,3) [OF vm(2) m(2)] loc_facts(2,3) [OF vm(3) m(3)]
  show "unat (rcol d ((order_row ord \<circ> loc_row ms mp mo) r)) < length (ct_vocab t ! d)"
    using f d by (cases ord) (auto simp: e loc_row_def t elim!: less_3_cases)
  show "ct_vocab t ! d ! unat (rcol d ((order_row ord \<circ> loc_row ms mp mo) r)) = order_cols ord r ! d"
    using f d by (cases ord) (auto simp: e loc_row_def t elim!: less_3_cases)
qed

lemma sort_dedup_map_dedup: "sort_dedup (map f (sort_dedup xs)) = sort_dedup (map f xs)"
  by (simp add: sort_dedup_eq)

context sux
begin

lemma build_order_pair:
  assumes v: "vocabs_ok rs vs vp vo ms mp mo" and n: "3 * length rs \<le> usize_max" and ne: "rs \<noteq> []"
    and p: "\<And>r. swap12 (order_row o1 r) = order_row o2 r"
    and s: "srt = sort_dedup (map (order_row o1 \<circ> loc_row ms mp mo) rs)"
  shows "\<exists>t1 t2. build_pair_shared_c0 R V srt (order_vocab o1 vs vp vo) (order_vocab o2 vs vp vo) = Some (t1, t2) \<and>
    ct_vocab t1 = order_vocab o1 vs vp vo \<and> ct_vocab t2 = order_vocab o2 vs vp vo \<and>
    trie_for R V (set rs) o1 t1 \<and> trie_for R V (set rs) o2 t2"
proof -
  have "srt \<noteq> []" using ne by (simp add: s)
  then obtain t1 t2 where t: "build_pair_shared_c0 R V srt (order_vocab o1 vs vp vo) (order_vocab o2 vs vp vo) = Some (t1, t2)"
    "ct_vocab t1 = order_vocab o1 vs vp vo" "ct_vocab t2 = order_vocab o2 vs vp vo"
    "louds_of R V srt (ct_louds t1)" "louds_of R V (sort_dedup (map swap12 srt)) (ct_louds t2)"
    using build_pair [OF _ \<open>srt \<noteq> []\<close>, of "order_vocab o1 vs vp vo" "order_vocab o2 vs vp vo"]
      sort_dedup_strict [of "map (order_row o1 \<circ> loc_row ms mp mo) rs"] unfolding s by blast
  have "map swap12 (map (order_row o1 \<circ> loc_row ms mp mo) rs) = map (order_row o2 \<circ> loc_row ms mp mo) rs"
    by (simp add: p)
  then have "sort_dedup (map swap12 srt) = sort_dedup (map (order_row o2 \<circ> loc_row ms mp mo) rs)"
    by (simp only: s sort_dedup_map_dedup)
  then have "trie_for R V (set rs) o1 t1" "trie_for R V (set rs) o2 t2"
    using trie_for_order [OF v t(4) s t(2) n] trie_for_order [OF v t(5) _ t(3) n] by auto
  then show ?thesis using t by blast
qed

text \<open>The paired construction builds, for each order, a trie of the rows in that order.\<close>

lemma build_cltj_data_ok:
  assumes v: "vocabs_ok rs vs vp vo ms mp mo" and n: "3 * length rs \<le> usize_max" and ne: "rs \<noteq> []"
    and s: "sorted_wrt (<) rs"
  shows "\<exists>data. build_cltj_data R V rs ms mp mo vs vp vo = Some data \<and> data_ok R V (set rs) data \<and>
    map ct_vocab (cd_tries data) = map (\<lambda>ord. order_vocab ord vs vp vo) [Spo, Sop, Pso, Pos, Ops, Osp]"
proof -
  let ?l = "map (loc_row ms mp mo) rs"
  have spo: "?l = sort_dedup (map (order_row Spo \<circ> loc_row ms mp mo) rs)"
  proof -
    have "order_row Spo = (\<lambda>r. r)" by (rule ext) (auto split: prod.split)
    moreover have "sort_dedup ?l = ?l"
      using local_rows(2) [OF v s] by (simp add: sort_dedup_def strict_sorted_iff sorted_sort_id remdups_adj_distinct)
    ultimately show ?thesis by (simp add: comp_def)
  qed
  have pso: "sort_dedup (map (\<lambda>(ls, lp, lo). (lp, ls, lo)) ?l) = sort_dedup (map (order_row Pso \<circ> loc_row ms mp mo) rs)"
    and ops: "sort_dedup (map (\<lambda>(ls, lp, lo). (lo, lp, ls)) ?l) = sort_dedup (map (order_row Ops \<circ> loc_row ms mp mo) rs)"
    by (auto simp: loc_row_def intro!: arg_cong [where f = sort_dedup])
  obtain t0 t1 where a: "build_pair_shared_c0 R V ?l (order_vocab Spo vs vp vo) (order_vocab Sop vs vp vo) = Some (t0, t1)"
    "ct_vocab t0 = order_vocab Spo vs vp vo" "ct_vocab t1 = order_vocab Sop vs vp vo"
    "trie_for R V (set rs) Spo t0" "trie_for R V (set rs) Sop t1"
    using build_order_pair [OF v n ne _ spo, of Sop] by (auto simp: swap12_def)
  obtain t2 t3 where b: "build_pair_shared_c0 R V (sort_dedup (map (\<lambda>(ls, lp, lo). (lp, ls, lo)) ?l))
      (order_vocab Pso vs vp vo) (order_vocab Pos vs vp vo) = Some (t2, t3)"
    "ct_vocab t2 = order_vocab Pso vs vp vo" "ct_vocab t3 = order_vocab Pos vs vp vo"
    "trie_for R V (set rs) Pso t2" "trie_for R V (set rs) Pos t3"
    using build_order_pair [OF v n ne _ pso, of Pos] by (auto simp: swap12_def)
  obtain t4 t5 where c: "build_pair_shared_c0 R V (sort_dedup (map (\<lambda>(ls, lp, lo). (lo, lp, ls)) ?l))
      (order_vocab Ops vs vp vo) (order_vocab Osp vs vp vo) = Some (t4, t5)"
    "ct_vocab t4 = order_vocab Ops vs vp vo" "ct_vocab t5 = order_vocab Osp vs vp vo"
    "trie_for R V (set rs) Ops t4" "trie_for R V (set rs) Osp t5"
    using build_order_pair [OF v n ne _ ops, of Osp] by (auto simp: swap12_def)
  let ?data = "\<lparr>cd_tries = [t0, t1, t2, t3, t4, t5]\<rparr>"
  have "build_cltj_data R V rs ms mp mo vs vp vo = Some ?data"
    unfolding build_cltj_data_def local_rows(1) [OF v s]
    using a(1) b(1) c(1) by (simp add: Let_def)
  moreover have "trie_for R V (set rs) ord (cd_tries ?data ! order_idx ord)" for ord
    using a b c by (cases ord) (simp_all add: eval_nat_numeral)
  ultimately show ?thesis using a(2,3) b(2,3) c(2,3) by (auto simp: data_ok_def)
qed

lemma data_iter:
  assumes "data_ok R V S data" "S \<noteq> {}"
  shows "\<exists>it. data_trie_iter_concrete R data ord = Some (Some it) \<and> data_trie_iter R data ord = Some (Backend it) \<and>
    cltj_ok R V it \<and> cltj_paths R V it = order_cols ord ` S \<and> ci_depth it = 0"
proof -
  let ?t = "cd_tries data ! order_idx ord"
  have i: "order_idx ord < 6" by (cases ord) simp_all
  obtain srt where srt: "trie_ok R V srt ?t" "gpath ?t 0 ` set srt = order_cols ord ` S"
    using assms(1) unfolding data_ok_def trie_for_def by blast
  let ?it = "\<lparr>ci_trie = ?t, ci_hi = length (kids 0 srt), ci_pos = 1, ci_depth = 0\<rparr>"
  have "srt \<noteq> []" using srt(2) assms(2) by auto
  then have it: "iter_d0_concrete R ?t = Some ?it"
    using node_root_degree [of V srt "ct_louds ?t"] srt(1) by (simp add: iter_d0_concrete_def trie_ok_def)
  have view: "cltj_view R V srt 0 srt 0 ?it" using srt(1) by (simp add: cltj_view_def node_at_root)
  have "nth_opt (cd_tries data) (order_idx ord) = Some ?t" using assms(1) i by (simp add: data_ok_def)
  moreover have "cltj_paths R V ?it = order_cols ord ` S" using view_paths [OF view] srt(2) by simp
  ultimately show ?thesis
    using it view by (auto simp: data_trie_iter_concrete_def data_trie_iter_def iter_d0_def cltj_ok_def)
qed

end

text \<open>Serialising the six tries and reading them back restores them, with the vocabularies shared again.\<close>

lemma snapshot_restores:
  assumes "map ct_vocab (cd_tries data) = map (\<lambda>ord. order_vocab ord vs vp vo) [Spo, Sop, Pso, Pos, Ops, Osp]"
  shows "cltj_into_snapshot data \<bind> cltj_from_snapshot = Some data"
proof -
  obtain ts where data: "data = \<lparr>cd_tries = ts\<rparr>" by (cases data) simp
  have "length (map ct_vocab ts) = 6" using assms unfolding data by simp
  then obtain t0 t1 t2 t3 t4 t5 where ts: "ts = [t0, t1, t2, t3, t4, t5]"
    by (auto simp: length_Suc_conv eval_nat_numeral)
  show ?thesis
    using assms unfolding data ts
    by (simp add: cltj_into_snapshot_def cltj_from_snapshot_def vocab_slice_def nth_opt_def Let_def)
qed

end
