(* ===== verification/Join.thy ===== *)
theory Join
  imports TrieIter
begin

text \<open>
  The heterogeneous leapfrog join of \<^verbatim>\<open>crates/core/nova-reasoning/src/join.rs\<close>: atom sources,
  the classification of an atom's fields, \<open>leapfrog_sync\<close>, \<open>join_step\<close> and \<open>leapfrog_join\<close>.
  The two loops have no syntactic bound, so they are partial functions in the option monad:
  \<open>None\<close> stands for a panic or for a loop that never ends, and the lemmas show that neither
  happens. The main result describes the bindings a join returns as the solutions of its atoms.
\<close>

section \<open>Atoms and sources\<close>

datatype atom_field = Const u64 | Var nat

type_synonym 'b atom_scan =
  "u64 option \<Rightarrow> u64 option \<Rightarrow> u64 option \<Rightarrow> nat \<Rightarrow> 'b trie_iter option"

definition slice_source :: "row list \<Rightarrow> 'b atom_scan" where
  "slice_source rs = join_scan rs"

definition null_source :: "'b atom_scan" where
  "null_source s p ob target_field = Some EmptyTrieIter"

definition combined_source :: "'b atom_scan \<Rightarrow> 'b atom_scan \<Rightarrow> 'b atom_scan" where
  "combined_source primary secondary s p ob target_field =
     do {a \<leftarrow> primary s p ob target_field;
         b \<leftarrow> secondary s p ob target_field;
         Some (UnionTrieIter a b)}"

record 'b atom =
  atom_s :: atom_field
  atom_p :: atom_field
  atom_o :: atom_field
  source :: "'b atom_scan"

definition is_active_for_var :: "'b atom \<Rightarrow> nat \<Rightarrow> bool" where
  "is_active_for_var a var \<longleftrightarrow> atom_s a = Var var \<or> atom_p a = Var var \<or> atom_o a = Var var"

primrec resolve_field :: "u64 option list \<Rightarrow> atom_field \<Rightarrow> u64 option option" where
  "resolve_field bindings (Const i) = Some (Some i)"
| "resolve_field bindings (Var v) = nth_opt bindings v"

definition resolve_for_var ::
  "'b atom \<Rightarrow> nat \<Rightarrow> u64 option list \<Rightarrow> (u64 option \<times> u64 option \<times> u64 option \<times> nat) option" where
  "resolve_for_var a var bindings =
     do {target_field \<leftarrow>
           (if atom_s a = Var var then Some 0
            else if atom_p a = Var var then Some 1
            else if atom_o a = Var var then Some 2
            else None);
         s \<leftarrow> resolve_field bindings (atom_s a);
         p \<leftarrow> resolve_field bindings (atom_p a);
         ob \<leftarrow> resolve_field bindings (atom_o a);
         Some (s, p, ob, target_field)}"

section \<open>Leapfrog loops\<close>

datatype sync_pass = AllAtMax | Overshoot | Exhausted

text \<open>The \<open>for\<close> loop of \<open>leapfrog_sync\<close> and how it was left.\<close>

fun align_scans ::
  "'b trie_ops \<Rightarrow> u64 \<Rightarrow> 'b trie_iter list \<Rightarrow> (sync_pass \<times> 'b trie_iter list) option" where
  "align_scans B max_key [] = Some (AllAtMax, [])"
| "align_scans B max_key (scan # scans) =
     do {k \<leftarrow> key B scan;
         if k < max_key then do {
           scan' \<leftarrow> seek B scan max_key;
           if at_end B scan' then Some (Exhausted, scan' # scans)
           else do {
             k' \<leftarrow> key B scan';
             if k' \<noteq> max_key then Some (Overshoot, scan' # scans)
             else do {(r, scans') \<leftarrow> align_scans B max_key scans; Some (r, scan' # scans')}}}
         else do {(r, scans') \<leftarrow> align_scans B max_key scans; Some (r, scan # scans')}}"

partial_function (option) sync_loop ::
  "'b trie_ops \<Rightarrow> 'b trie_iter list \<Rightarrow> (u64 option \<times> 'b trie_iter list) option" where
  "sync_loop B scans =
     do {ks \<leftarrow> those (map (key B) scans);
         if ks = [] then Some (None, scans)
         else do {
           let max_key = Max (set ks);
           (r, scans') \<leftarrow> align_scans B max_key scans;
           case r of
             Exhausted \<Rightarrow> Some (None, scans')
           | AllAtMax \<Rightarrow> Some (Some max_key, scans')
           | Overshoot \<Rightarrow> sync_loop B scans'}}"

definition leapfrog_sync ::
  "'b trie_ops \<Rightarrow> 'b trie_iter list \<Rightarrow> (u64 option \<times> 'b trie_iter list) option" where
  "leapfrog_sync B scans =
     (if scans = [] \<or> list_ex (at_end B) scans then Some (None, scans) else sync_loop B scans)"

text \<open>The loop of \<open>join_step\<close>; \<open>body\<close> is the recursive call under one binding.\<close>

partial_function (option) leap_loop ::
  "'b trie_ops \<Rightarrow> (u64 \<Rightarrow> 's \<Rightarrow> 's option) \<Rightarrow> 'b trie_iter list \<Rightarrow> 's \<Rightarrow> 's option" where
  "leap_loop B body scans st =
     do {(r, scans') \<leftarrow> leapfrog_sync B scans;
         case r of
           None \<Rightarrow> Some st
         | Some val \<Rightarrow> do {
             st' \<leftarrow> body val st;
             case scans' of
               [] \<Rightarrow> None
             | scan # rest \<Rightarrow> do {
                 scan' \<leftarrow> advance B scan;
                 if at_end B scan' then Some st' else leap_loop B body (scan' # rest) st'}}}"

definition set_binding :: "u64 option list \<Rightarrow> nat \<Rightarrow> u64 option \<Rightarrow> u64 option list option" where
  "set_binding bindings var b = (if var < length bindings then Some (bindings[var := b]) else None)"

primrec join_step ::
  "'b trie_ops \<Rightarrow> 'b atom list \<Rightarrow> nat list \<Rightarrow> u64 option list \<times> u64 list list \<Rightarrow>
   (u64 option list \<times> u64 list list) option" where
  "join_step B atoms [] st =
     (case st of (bindings, results) \<Rightarrow>
        do {res \<leftarrow> those bindings; Some (bindings, results @ [res])})"
| "join_step B atoms (var # remaining) st =
     (case st of (bindings, results) \<Rightarrow>
        let active = filter (\<lambda>a. is_active_for_var a var) atoms in
        if active = [] then join_step B atoms remaining (bindings, results)
        else do {
          scans \<leftarrow> those (map (\<lambda>a. do {(s, p, ob, target_field) \<leftarrow> resolve_for_var a var bindings;
                                       source a s p ob target_field}) active);
          if list_ex (at_end B) scans then Some (bindings, results)
          else leap_loop B
            (\<lambda>val (bindings, results). do {
               bindings \<leftarrow> set_binding bindings var (Some val);
               (bindings, results) \<leftarrow> join_step B atoms remaining (bindings, results);
               bindings \<leftarrow> set_binding bindings var None;
               Some (bindings, results)})
            scans (bindings, results)})"

definition leapfrog_join :: "'b trie_ops \<Rightarrow> 'b atom list \<Rightarrow> nat \<Rightarrow> u64 list list option" where
  "leapfrog_join B atoms num_vars =
     map_option snd (join_step B atoms [0..<num_vars] (replicate num_vars None, []))"

section \<open>The loops compute intersections\<close>

context trie_backend
begin

abbreviation keys_of :: "'b trie_iter \<Rightarrow> u64 set" where
  "keys_of \<equiv> boxed.keys"

definition common :: "'b trie_iter list \<Rightarrow> u64 set" where
  "common scans = (\<Inter>s \<in> set scans. keys_of s)"

definition scans_ok :: "'b trie_iter list \<Rightarrow> bool" where
  "scans_ok scans \<longleftrightarrow> (\<forall>s \<in> set scans. iter_ok okB s)"

definition total_keys :: "'b trie_iter list \<Rightarrow> nat" where
  "total_keys scans = (\<Sum>s \<leftarrow> scans. card (keys_of s))"

text \<open>One scan was left alone or sought to \<open>m\<close>.\<close>

definition sought :: "u64 \<Rightarrow> 'b trie_iter \<Rightarrow> 'b trie_iter \<Rightarrow> bool" where
  "sought m s s' \<longleftrightarrow> iter_ok okB s' \<and> (keys_of s' = keys_of s \<or> keys_of s' = {k \<in> keys_of s. m \<le> k})"

lemma sought_refl: "iter_ok okB s \<Longrightarrow> sought m s s"
  by (simp add: sought_def)

lemma sought_subset: "sought m s s' \<Longrightarrow> keys_of s' \<subseteq> keys_of s"
  by (auto simp: sought_def)

lemma sought_list_refl: "scans_ok scans \<Longrightarrow> list_all2 (sought m) scans scans"
  by (auto simp: scans_ok_def list_all2_same sought_refl)

lemma sought_card_le: "iter_ok okB s \<Longrightarrow> sought m s s' \<Longrightarrow> card (keys_of s') \<le> card (keys_of s)"
  by (simp add: boxed.keys_finite card_mono sought_subset)

lemma align_scans_correct:
  assumes "scans_ok scans" "\<forall>s \<in> set scans. keys_of s \<noteq> {} \<and> Min (keys_of s) \<le> m"
  shows "\<exists>r scans'. align_scans B m scans = Some (r, scans') \<and> list_all2 (sought m) scans scans' \<and>
    (case r of
       Exhausted \<Rightarrow> \<exists>s \<in> set scans'. keys_of s = {}
     | AllAtMax \<Rightarrow> \<forall>s \<in> set scans'. keys_of s \<noteq> {} \<and> Min (keys_of s) = m
     | Overshoot \<Rightarrow> (\<forall>s \<in> set scans'. keys_of s \<noteq> {}) \<and> total_keys scans' < total_keys scans)"
  using assms
proof (induction scans)
  case (Cons s scans)
  have ok: "iter_ok okB s" "scans_ok scans" and ne: "keys_of s \<noteq> {}" "Min (keys_of s) \<le> m"
    using Cons.prems by (auto simp: scans_ok_def)
  have k: "key B s = Some (Min (keys_of s))" using boxed.key_keys ok ne by blast
  obtain r scans' where IH: "align_scans B m scans = Some (r, scans')"
    "list_all2 (sought m) scans scans'"
    "case r of
       Exhausted \<Rightarrow> \<exists>s \<in> set scans'. keys_of s = {}
     | AllAtMax \<Rightarrow> \<forall>s \<in> set scans'. keys_of s \<noteq> {} \<and> Min (keys_of s) = m
     | Overshoot \<Rightarrow> (\<forall>s \<in> set scans'. keys_of s \<noteq> {}) \<and> total_keys scans' < total_keys scans"
    using Cons.IH ok(2) Cons.prems by auto
  obtain s' where s': "seek B s m = Some s'" "iter_ok okB s'" "keys_of s' = {k \<in> keys_of s. m \<le> k}"
    using boxed.seek_keys [OF ok(1)] by blast
  have sgt: "sought m s s'" using s' by (simp add: sought_def)
  note le = sought_card_le [OF ok(1) sgt]
  show ?case
  proof (cases "Min (keys_of s) < m")
    case False
    then have "Min (keys_of s) = m" using ne by simp
    then show ?thesis
      using IH ne False k sought_refl [OF ok(1)] by (cases r) (auto simp: total_keys_def)
  next
    case True
    then have "Min (keys_of s) \<notin> keys_of s'" "Min (keys_of s) \<in> keys_of s"
      using s'(3) Min_in [OF boxed.keys_finite [OF ok(1)] ne(1)] by auto
    then have lt: "card (keys_of s') < card (keys_of s)"
      using sought_subset [OF sgt] boxed.keys_finite [OF ok(1)] by (intro psubset_card_mono) auto
    show ?thesis
    proof (cases "keys_of s' = {}")
      case True
      then show ?thesis
        using \<open>Min (keys_of s) < m\<close> k s' sgt sought_list_refl [OF ok(2)] boxed.at_end_keys [OF s'(2)]
        by simp
    next
      case False
      note k' = boxed.key_keys [OF s'(2) False]
      show ?thesis
        using \<open>Min (keys_of s) < m\<close> k k' s' sgt sought_list_refl [OF ok(2)] IH lt le False
          boxed.at_end_keys [OF s'(2)] Cons.prems
        by (cases r; cases "Min (keys_of s') = m") (auto simp: total_keys_def)
    qed
  qed
qed simp

lemma common_sought:
  assumes "list_all2 (sought m) scans scans'" "\<forall>k \<in> common scans. m \<le> k"
  shows "common scans' = common scans"
proof
  show "common scans' \<subseteq> common scans"
    using assms(1) sought_subset by (fastforce simp: common_def list_all2_conv_all_nth in_set_conv_nth)
  show "common scans \<subseteq> common scans'"
  proof
    fix k assume k: "k \<in> common scans"
    then show "k \<in> common scans'"
      using assms by (fastforce simp: common_def list_all2_conv_all_nth in_set_conv_nth sought_def)
  qed
qed

lemma sought_ok: "list_all2 (sought m) scans scans' \<Longrightarrow> scans_ok scans'"
  by (auto simp: scans_ok_def list_all2_conv_all_nth in_set_conv_nth sought_def)

definition narrowed :: "'b trie_iter list \<Rightarrow> 'b trie_iter list \<Rightarrow> bool" where
  "narrowed scans scans' \<longleftrightarrow> list_all2 (\<lambda>s s'. keys_of s' \<subseteq> keys_of s) scans scans'"

lemma narrowed_sought: "list_all2 (sought m) scans scans' \<Longrightarrow> narrowed scans scans'"
  unfolding narrowed_def by (erule list_all2_mono) (rule sought_subset)

lemma narrowed_trans: "narrowed a b \<Longrightarrow> narrowed b c \<Longrightarrow> narrowed a c"
  unfolding narrowed_def by (rule list_all2_trans) auto

text \<open>What a synchronisation promises: the common keys are kept, and the scans agree on the least.\<close>

definition sync_post :: "'b trie_iter list \<Rightarrow> u64 option \<times> 'b trie_iter list \<Rightarrow> bool" where
  "sync_post scans res \<longleftrightarrow>
     (case res of
        (None, scans') \<Rightarrow> common scans = {}
      | (Some v, scans') \<Rightarrow> scans_ok scans' \<and> narrowed scans scans' \<and> common scans' = common scans \<and>
          (\<forall>s \<in> set scans'. keys_of s \<noteq> {} \<and> Min (keys_of s) = v))"

lemma sync_loop_correct:
  assumes "scans_ok scans" "scans \<noteq> []" "\<forall>s \<in> set scans. keys_of s \<noteq> {}"
  shows "\<exists>res. sync_loop B scans = Some res \<and> sync_post scans res"
  using assms
proof (induction "total_keys scans" arbitrary: scans rule: less_induct)
  case less
  define m where "m = Max (set (map (\<lambda>s. Min (keys_of s)) scans))"
  have ks: "those (map (key B) scans) = Some (map (\<lambda>s. Min (keys_of s)) scans)"
    using less.prems by (intro those_map_Some) (auto simp: scans_ok_def intro!: boxed.key_keys)
  have le: "\<forall>s \<in> set scans. keys_of s \<noteq> {} \<and> Min (keys_of s) \<le> m"
    using less.prems by (auto simp: m_def)
  have common_ge: "\<forall>k \<in> common scans. m \<le> k"
    using less.prems boxed.keys_finite unfolding m_def
    by (auto simp: common_def scans_ok_def)
  obtain r scans' where a: "align_scans B m scans = Some (r, scans')"
    "list_all2 (sought m) scans scans'"
    "case r of
       Exhausted \<Rightarrow> \<exists>s \<in> set scans'. keys_of s = {}
     | AllAtMax \<Rightarrow> \<forall>s \<in> set scans'. keys_of s \<noteq> {} \<and> Min (keys_of s) = m
     | Overshoot \<Rightarrow> (\<forall>s \<in> set scans'. keys_of s \<noteq> {}) \<and> total_keys scans' < total_keys scans"
    using align_scans_correct [OF less.prems(1) le] by blast
  note same = common_sought [OF a(2) common_ge] and ok' = sought_ok [OF a(2)]
    and nar = narrowed_sought [OF a(2)]
  have unfold: "sync_loop B scans =
      (case r of Exhausted \<Rightarrow> Some (None, scans') | AllAtMax \<Rightarrow> Some (Some m, scans')
       | Overshoot \<Rightarrow> sync_loop B scans')"
    using less.prems(2) a(1) ks by (subst sync_loop.simps) (cases r; simp add: m_def)
  show ?case
  proof (cases r)
    case AllAtMax
    then show ?thesis using unfold a same ok' nar by (simp add: sync_post_def)
  next
    case Exhausted
    then have "common scans' = {}" using a(3) by (auto simp: common_def)
    then show ?thesis using unfold Exhausted same by (simp add: sync_post_def)
  next
    case Overshoot
    have "scans' \<noteq> []" using a(2) less.prems(2) by auto
    then obtain res where "sync_loop B scans' = Some res" "sync_post scans' res"
      using less.hyps [of scans'] Overshoot a(3) ok' by auto
    then show ?thesis
      using unfold Overshoot same nar narrowed_trans
      by (auto simp: sync_post_def split: prod.splits option.splits)
  qed
qed

lemma leapfrog_sync_correct:
  assumes "scans_ok scans" "scans \<noteq> []"
  shows "\<exists>res. leapfrog_sync B scans = Some res \<and> sync_post scans res"
proof (cases "list_ex (at_end B) scans")
  case True
  then have "common scans = {}"
    using assms boxed.at_end_keys by (fastforce simp: common_def scans_ok_def list_ex_iff)
  then show ?thesis using True by (simp add: leapfrog_sync_def sync_post_def)
next
  case False
  then have "\<forall>s \<in> set scans. keys_of s \<noteq> {}"
    using assms boxed.at_end_keys by (auto simp: scans_ok_def list_ex_iff)
  then show ?thesis
    using sync_loop_correct [OF assms] assms(2) False by (simp add: leapfrog_sync_def)
qed

lemma common_finite: "scans_ok scans \<Longrightarrow> scans \<noteq> [] \<Longrightarrow> finite (common scans)"
  using boxed.keys_finite by (cases scans) (auto simp: common_def scans_ok_def)

text \<open>The outer loop runs its body once per common key, in ascending order, and stops.\<close>

lemma leap_loop_correct:
  assumes "scans_ok scans" "scans \<noteq> []" "- 1 \<notin> common scans"
  shows "leap_loop B body scans st = fold_opt body (sorted_list_of_set (common scans)) st"
  using assms
proof (induction "card (keys_of (hd scans))" arbitrary: scans st rule: less_induct)
  case less
  obtain r scans' where sync: "leapfrog_sync B scans = Some (r, scans')" "sync_post scans (r, scans')"
    using leapfrog_sync_correct [OF less.prems(1,2)] by auto
  show ?case
  proof (cases r)
    case None
    then show ?thesis using sync by (subst leap_loop.simps) (simp add: sync_post_def)
  next
    case (Some v)
    then have post: "scans_ok scans'" "narrowed scans scans'" "common scans' = common scans"
      "\<forall>s \<in> set scans'. keys_of s \<noteq> {} \<and> Min (keys_of s) = v"
      using sync(2) by (auto simp: sync_post_def)
    obtain s rest where s: "scans' = s # rest"
      using post(2) less.prems(2) by (cases scans'; cases scans) (auto simp: narrowed_def)
    have fin: "iter_ok okB t \<Longrightarrow> finite (keys_of t)" for t by (rule boxed.keys_finite)
    have mem: "v \<in> keys_of t" if "t \<in> set scans'" for t
      using post(1,4) that Min_in [OF fin, of t] by (fastforce simp: scans_ok_def)
    then have v: "v \<in> common scans" unfolding post(3) [symmetric] by (auto simp: common_def)
    have least: "v \<le> k" if "k \<in> common scans" for k
      using that post(1,4) s Min_le [OF fin] unfolding post(3) [symmetric]
      by (auto simp: common_def scans_ok_def)
    have "v \<noteq> - 1" using v less.prems(3) by auto
    then obtain s' where s': "advance B s = Some s'" "iter_ok okB s'" "keys_of s' = keys_of s - {v}"
      using boxed.advance_keys [of s] post(1,4) s by (auto simp: scans_ok_def)
    have common': "common (s' # rest) = common scans - {v}"
      unfolding post(3) [symmetric] s by (auto simp: common_def s')
    have ok': "scans_ok (s' # rest)" using post(1) s s' by (auto simp: scans_ok_def)
    have "keys_of s \<subseteq> keys_of (hd scans)"
      using post(2) s less.prems(2) by (cases scans) (auto simp: narrowed_def)
    moreover have "finite (keys_of (hd scans))"
      using less.prems by (auto simp: scans_ok_def intro: fin)
    ultimately have smaller: "card (keys_of s') < card (keys_of (hd scans))"
      using s' mem [of s] s by (intro psubset_card_mono) auto
    have order: "sorted_list_of_set (common scans) = v # sorted_list_of_set (common scans - {v})"
      using v least common_finite [OF less.prems(1,2)]
      by (subst sorted_list_of_set_nonempty) (auto intro!: Min_eqI simp: Min_eqI [of _ v])
    have IH: "leap_loop B body (s' # rest) st' = fold_opt body (sorted_list_of_set (common scans - {v})) st'"
      for st'
      using less.hyps [of "s' # rest"] smaller ok' common' less.prems(3) by auto
    have stop: "fold_opt body (sorted_list_of_set (common scans - {v})) st' = Some st'" if "at_end B s'" for st'
    proof -
      have "common (s' # rest) = {}" using that boxed.at_end_keys [OF s'(2)] by (simp add: common_def)
      then show ?thesis unfolding common' [symmetric] by simp
    qed
    show ?thesis
      unfolding order using sync(1) Some s s' stop
      by (subst leap_loop.simps) (auto simp: IH split: Option.bind_splits)
  qed
qed

end

section \<open>What sources and atoms denote\<close>

text \<open>The contract of an atom source: its scans list the matching values of a fixed relation.\<close>

locale atom_source =
  fixes okB :: "'b \<Rightarrow> bool" and pathsB :: "'b \<Rightarrow> u64 list set"
    and scan :: "'b atom_scan" and R :: "row set"
  assumes scan_denotes: "f < 3 \<Longrightarrow> \<exists>it. scan s p ob f = Some it \<and> iter_ok okB it \<and>
    hd ` iter_paths pathsB it = scan_values R s p ob f"
begin

lemma scan_two_bound:
  "\<exists>it. scan (Some a) (Some b) None 2 = Some it \<and> hd ` iter_paths pathsB it = {c. (a, b, c) \<in> R}"
proof -
  have "scan_values R (Some a) (Some b) None 2 = {c. (a, b, c) \<in> R}"
    by (force simp: scan_values_def row_list_triple bound_ok_def All_less_Suc numeral_3_eq_3 numeral_2_eq_2)
  then show ?thesis using scan_denotes [of 2 "Some a" "Some b" None] by auto
qed

end

interpretation slice: atom_source okB pathsB "slice_source rs" "set rs" for okB pathsB rs
  by unfold_locales (simp add: slice_source_def join_scan_values)

interpretation null: atom_source okB pathsB null_source "{}" for okB pathsB
  by unfold_locales (simp add: null_source_def scan_values_def)

lemma scan_values_Un: "scan_values (R \<union> S) s p ob f = scan_values R s p ob f \<union> scan_values S s p ob f"
  unfolding scan_values_def Un_iff by blast

lemma combined_source_denotes:
  assumes "atom_source okB pathsB a R" "atom_source okB pathsB b S"
  shows "atom_source okB pathsB (combined_source a b) (R \<union> S)"
proof
  fix f :: nat and s p ob assume "f < 3"
  then show "\<exists>it. combined_source a b s p ob f = Some it \<and> iter_ok okB it \<and>
      hd ` iter_paths pathsB it = scan_values (R \<union> S) s p ob f"
    using atom_source.scan_denotes [OF assms(1), of f s p ob]
      atom_source.scan_denotes [OF assms(2), of f s p ob]
    by (auto simp: combined_source_def scan_values_Un image_Un)
qed

text \<open>An atom under a complete binding, and under a partial one.\<close>

primrec inst :: "u64 list \<Rightarrow> atom_field \<Rightarrow> u64" where
  "inst \<sigma> (Const c) = c"
| "inst \<sigma> (Var x) = \<sigma> ! x"

definition atom_row :: "u64 list \<Rightarrow> 'b atom \<Rightarrow> row" where
  "atom_row \<sigma> a = (inst \<sigma> (atom_s a), inst \<sigma> (atom_p a), inst \<sigma> (atom_o a))"

primrec field_fits :: "u64 option list \<Rightarrow> atom_field \<Rightarrow> u64 \<Rightarrow> bool" where
  "field_fits b (Const c) v \<longleftrightarrow> c = v"
| "field_fits b (Var x) v \<longleftrightarrow> bound_ok (b ! x) v"

definition atom_fits :: "row set \<Rightarrow> u64 option list \<Rightarrow> 'b atom \<Rightarrow> bool" where
  "atom_fits R b a \<longleftrightarrow> (\<exists>(s, p, ob) \<in> R.
     field_fits b (atom_s a) s \<and> field_fits b (atom_p a) p \<and> field_fits b (atom_o a) ob)"

primrec field_vars :: "atom_field \<Rightarrow> nat list" where
  "field_vars (Const c) = []"
| "field_vars (Var x) = [x]"

definition atom_vars :: "'b atom \<Rightarrow> nat list" where
  "atom_vars a = field_vars (atom_s a) @ field_vars (atom_p a) @ field_vars (atom_o a)"

text \<open>The shape of atom the join handles: it names a variable, and none of them twice.\<close>

definition atom_wf :: "nat \<Rightarrow> 'b atom \<Rightarrow> bool" where
  "atom_wf n a \<longleftrightarrow> atom_vars a \<noteq> [] \<and> distinct (atom_vars a) \<and> (\<forall>x \<in> set (atom_vars a). x < n)"

text \<open>No value is the largest machine word (identifiers have 40 or 63 bits).\<close>

definition bounded_rows :: "row set \<Rightarrow> bool" where
  "bounded_rows R \<longleftrightarrow> (\<forall>r \<in> R. - 1 \<notin> set (row_list r))"

lemma active_iff: "is_active_for_var a var \<longleftrightarrow> var \<in> set (atom_vars a)"
proof -
  have "f = Var var \<longleftrightarrow> var \<in> set (field_vars f)" for f by (cases f) auto
  then show ?thesis by (simp add: is_active_for_var_def atom_vars_def)
qed

lemma all_less_3: "(\<forall>i < (3::nat). P i) \<longleftrightarrow> P 0 \<and> P 1 \<and> P 2"
  by (simp add: All_less_Suc numeral_3_eq_3 numeral_2_eq_2) blast

lemma scan_values_triple:
  "scan_values R s p ob f = {row_list (x, y, z) ! f | x y z. (x, y, z) \<in> R \<and>
     (0 = f \<or> bound_ok s x) \<and> (1 = f \<or> bound_ok p y) \<and> (2 = f \<or> bound_ok ob z)}"
  unfolding scan_values_def all_less_3 by (simp add: row_list_triple)

lemma bound_ok_simps [simp]: "bound_ok None v" "bound_ok (Some w) v \<longleftrightarrow> w = v"
  by (auto simp: bound_ok_def)

text \<open>A field other than the target resolves to what a partial binding demands of it.\<close>

lemma resolve_other_field:
  assumes "var \<notin> set (field_vars f)" "\<forall>x \<in> set (field_vars f). x < length b"
  shows "\<exists>w. resolve_field b f = Some w \<and> (\<forall>v u. field_fits (b[var := u]) f v = bound_ok w v)"
  using assms by (cases f) auto

lemma scan_request:
  assumes "atom_wf (length b) a" "var \<in> set (atom_vars a)"
  shows "\<exists>s p ob f. resolve_for_var a var b = Some (s, p, ob, f) \<and> f < 3 \<and>
    scan_values R s p ob f = {v. atom_fits R (b[var := Some v]) a}"
proof -
  have var: "var < length b" and dist: "distinct (atom_vars a)"
    and range: "\<forall>x \<in> set (atom_vars a). x < length b"
    using assms by (auto simp: atom_wf_def)
  have vf: "var \<in> set (field_vars f) \<longleftrightarrow> f = Var var" for f by (cases f) auto
  have tgt: "resolve_field b (Var var) = Some (b ! var)" "field_fits (b[var := Some w]) (Var var) v \<longleftrightarrow> w = v"
    for v w using var by auto
  consider (s) "atom_s a = Var var" | (p) "atom_p a = Var var" | (o) "atom_o a = Var var"
    using assms(2) by (auto simp: atom_vars_def vf)
  then show ?thesis
  proof cases
    case s
    then obtain w2 w3 where "resolve_field b (atom_p a) = Some w2" "resolve_field b (atom_o a) = Some w3"
      "\<forall>v u. field_fits (b[var := u]) (atom_p a) v = bound_ok w2 v"
      "\<forall>v u. field_fits (b[var := u]) (atom_o a) v = bound_ok w3 v"
      using resolve_other_field [of var "atom_p a" b] resolve_other_field [of var "atom_o a" b] dist range
      by (auto simp: atom_vars_def)
    then show ?thesis
      using s var by (auto simp: resolve_for_var_def scan_values_triple atom_fits_def row_list_triple)
  next
    case p
    then have "atom_s a \<noteq> Var var" using dist by (auto simp: atom_vars_def)
    obtain w1 w3 where "resolve_field b (atom_s a) = Some w1" "resolve_field b (atom_o a) = Some w3"
      "\<forall>v u. field_fits (b[var := u]) (atom_s a) v = bound_ok w1 v"
      "\<forall>v u. field_fits (b[var := u]) (atom_o a) v = bound_ok w3 v"
      using resolve_other_field [of var "atom_s a" b] resolve_other_field [of var "atom_o a" b] dist range p
      by (auto simp: atom_vars_def)
    then show ?thesis
      using p var \<open>atom_s a \<noteq> Var var\<close>
      by (auto simp: resolve_for_var_def scan_values_triple atom_fits_def row_list_triple)
  next
    case o
    then have "atom_s a \<noteq> Var var" "atom_p a \<noteq> Var var" using dist by (auto simp: atom_vars_def)
    obtain w1 w2 where "resolve_field b (atom_s a) = Some w1" "resolve_field b (atom_p a) = Some w2"
      "\<forall>v u. field_fits (b[var := u]) (atom_s a) v = bound_ok w1 v"
      "\<forall>v u. field_fits (b[var := u]) (atom_p a) v = bound_ok w2 v"
      using resolve_other_field [of var "atom_s a" b] resolve_other_field [of var "atom_p a" b] dist range o
      by (auto simp: atom_vars_def)
    then show ?thesis
      using o var \<open>atom_s a \<noteq> Var var\<close> \<open>atom_p a \<noteq> Var var\<close>
      by (auto simp: resolve_for_var_def scan_values_triple atom_fits_def row_list_triple)
  qed
qed

lemma atom_fits_of_row:
  assumes "atom_row \<sigma> a \<in> R" "\<forall>x \<in> set (atom_vars a). bound_ok (b ! x) (\<sigma> ! x)"
  shows "atom_fits R b a"
proof -
  have "field_fits b f (inst \<sigma> f)" if "\<forall>x \<in> set (field_vars f). bound_ok (b ! x) (\<sigma> ! x)" for f
    using that by (cases f) auto
  then show ?thesis using assms by (force simp: atom_fits_def atom_row_def atom_vars_def)
qed

lemma atom_row_of_fits:
  assumes "atom_fits R b a" "\<forall>x \<in> set (atom_vars a). b ! x = Some (\<sigma> ! x)"
  shows "atom_row \<sigma> a \<in> R"
proof -
  have "v = inst \<sigma> f" if "field_fits b f v" "\<forall>x \<in> set (field_vars f). b ! x = Some (\<sigma> ! x)" for f v
    using that by (cases f) auto
  then show ?thesis using assms unfolding atom_fits_def atom_row_def atom_vars_def by fastforce
qed

lemma atom_fits_bounded:
  assumes "atom_fits R (b[var := Some v]) a" "bounded_rows R" "var \<in> set (atom_vars a)" "var < length b"
  shows "v \<noteq> - 1"
proof -
  have "v = w" if "field_fits (b[var := Some v]) f w" "var \<in> set (field_vars f)" for f w
    using that assms(4) by (cases f) auto
  then show ?thesis
    using assms(1-3) unfolding atom_fits_def atom_vars_def bounded_rows_def by (fastforce simp: row_list_triple)
qed

section \<open>The join computes the solutions of its atoms\<close>

text \<open>
  The complete bindings that extend \<open>b\<close> and satisfy every atom that still has a variable to
  bind.
\<close>

definition solutions ::
  "('b atom \<Rightarrow> row set) \<Rightarrow> 'b atom list \<Rightarrow> nat list \<Rightarrow> u64 option list \<Rightarrow> u64 list set" where
  "solutions R atoms vs b = {\<sigma>. length \<sigma> = length b \<and> (\<forall>x < length b. bound_ok (b ! x) (\<sigma> ! x)) \<and>
     (\<forall>a \<in> set atoms. (\<exists>x \<in> set vs. x \<in> set (atom_vars a)) \<longrightarrow> atom_row \<sigma> a \<in> R a)}"

lemma solutions_Cons:
  assumes wf: "\<forall>a \<in> set atoms. atom_wf (length b) a"
    and unbound: "\<forall>x < length b. b ! x = None \<longleftrightarrow> x \<in> set (var # vs)" "var < length b"
  shows "solutions R atoms (var # vs) b =
    (\<Union>v \<in> {v. \<forall>a \<in> set atoms. var \<in> set (atom_vars a) \<longrightarrow> atom_fits (R a) (b[var := Some v]) a}.
       solutions R atoms vs (b[var := Some v]))" (is "?L = ?U")
proof (intro set_eqI iffI)
  fix \<sigma> assume \<sigma>: "\<sigma> \<in> ?L"
  let ?b = "b[var := Some (\<sigma> ! var)]"
  have ext: "\<forall>x < length b. bound_ok (?b ! x) (\<sigma> ! x)"
    using \<sigma> unbound(2) by (auto simp: solutions_def nth_list_update)
  then have "atom_fits (R a) ?b a" if "a \<in> set atoms" "var \<in> set (atom_vars a)" for a
    using that \<sigma> wf by (intro atom_fits_of_row [of \<sigma>]) (auto simp: solutions_def atom_wf_def)
  moreover have "\<sigma> \<in> solutions R atoms vs ?b" using \<sigma> ext by (auto simp: solutions_def)
  ultimately show "\<sigma> \<in> ?U" by auto
next
  fix \<sigma> assume "\<sigma> \<in> ?U"
  then obtain v where v: "\<forall>a \<in> set atoms. var \<in> set (atom_vars a) \<longrightarrow> atom_fits (R a) (b[var := Some v]) a"
    and \<sigma>: "\<sigma> \<in> solutions R atoms vs (b[var := Some v])" by auto
  have ext: "bound_ok (b[var := Some v] ! x) (\<sigma> ! x)" if "x < length b" for x
    using \<sigma> that by (simp add: solutions_def)
  have "bound_ok (b ! x) (\<sigma> ! x)" if "x < length b" for x
    using ext [OF that] unbound that by (cases "x = var") auto
  moreover have "atom_row \<sigma> a \<in> R a"
    if a: "a \<in> set atoms" and x: "\<exists>x \<in> set (var # vs). x \<in> set (atom_vars a)" for a
  proof (cases "\<exists>x \<in> set vs. x \<in> set (atom_vars a)")
    case True
    then show ?thesis using \<sigma> a by (simp add: solutions_def)
  next
    case False
    have "b[var := Some v] ! y = Some (\<sigma> ! y)" if "y \<in> set (atom_vars a)" for y
    proof -
      have "y < length b" "y \<notin> set vs" using that wf a False by (auto simp: atom_wf_def)
      then show ?thesis
        using ext [of y] unbound by (cases "y = var"; cases "b ! y") auto
    qed
    with False x show ?thesis using v a by (intro atom_row_of_fits) auto
  qed
  ultimately show "\<sigma> \<in> ?L" using \<sigma> by (simp add: solutions_def)
qed

lemma fold_opt_collect:
  assumes "\<And>x res. x \<in> set xs \<Longrightarrow> f x (b, res) = Some (b, res @ g x)"
  shows "fold_opt f xs (b, res) = Some (b, res @ concat (map g xs))"
  using assms by (induction xs arbitrary: res) auto

context trie_backend
begin

lemma active_scans:
  assumes "\<forall>a \<in> set active. atom_source okB pathsB (source a) (R a) \<and> atom_wf (length b) a \<and>
    var \<in> set (atom_vars a)"
  shows "\<exists>scans. those (map (\<lambda>a. do {(s, p, ob, f) \<leftarrow> resolve_for_var a var b; source a s p ob f}) active)
      = Some scans \<and> scans_ok scans \<and> length scans = length active \<and>
    common scans = {v. \<forall>a \<in> set active. atom_fits (R a) (b[var := Some v]) a}"
  using assms
proof (induction active)
  case (Cons a active)
  then obtain s p ob f where r: "resolve_for_var a var b = Some (s, p, ob, f)" "f < 3"
    "scan_values (R a) s p ob f = {v. atom_fits (R a) (b[var := Some v]) a}"
    using scan_request [of b a var "R a"] by auto
  obtain it where "source a s p ob f = Some it" "iter_ok okB it"
    "hd ` iter_paths pathsB it = scan_values (R a) s p ob f"
    using Cons.prems r(2) atom_source.scan_denotes [of okB pathsB "source a" "R a" f s p ob] by auto
  then show ?case
    using Cons r by (auto simp: scans_ok_def common_def boxed.keys_def)
qed (simp add: scans_ok_def common_def)

lemma join_step_correct:
  assumes "\<forall>a \<in> set atoms. atom_source okB pathsB (source a) (R a) \<and> bounded_rows (R a) \<and> atom_wf (length b) a"
    and "distinct vs" "\<forall>x < length b. b ! x = None \<longleftrightarrow> x \<in> set vs"
    and "\<forall>x \<in> set vs. x < length b \<and> (\<exists>a \<in> set atoms. x \<in> set (atom_vars a))"
  shows "\<exists>out. distinct out \<and> set out = solutions R atoms vs b \<and>
    (\<forall>res. join_step B atoms vs (b, res) = Some (b, res @ out))"
  using assms
proof (induction vs arbitrary: b)
  case Nil
  define \<sigma> where "\<sigma> = map the b"
  have b: "b = map Some \<sigma>" using Nil(3) by (auto simp: \<sigma>_def intro!: nth_equalityI)
  then have "solutions R atoms [] b = {\<sigma>}" by (auto simp: solutions_def intro!: nth_equalityI)
  moreover have "those b = Some \<sigma>" unfolding b by (simp add: those_map_Some [of \<sigma> Some "\<lambda>x. x"])
  ultimately show ?case by (intro exI [of _ "[\<sigma>]"]) auto
next
  case (Cons var vs)
  define active where "active = filter (\<lambda>a. is_active_for_var a var) atoms"
  have var: "var < length b" "var \<notin> set vs" "active \<noteq> []"
    using Cons.prems by (auto simp: active_def active_iff filter_empty_conv)
  obtain scans where scans: "those (map (\<lambda>a. do {(s, p, ob, f) \<leftarrow> resolve_for_var a var b;
      source a s p ob f}) active) = Some scans" "scans_ok scans" "length scans = length active"
      "common scans = {v. \<forall>a \<in> set active. atom_fits (R a) (b[var := Some v]) a}"
    using active_scans [of active R b var] Cons.prems(1) by (auto simp: active_def active_iff)
  then have ne: "scans \<noteq> []" using var(3) by auto
  have common: "common scans =
      {v. \<forall>a \<in> set atoms. var \<in> set (atom_vars a) \<longrightarrow> atom_fits (R a) (b[var := Some v]) a}"
    unfolding scans(4) by (auto simp: active_def active_iff)
  obtain a where a: "a \<in> set atoms" "var \<in> set (atom_vars a)" using Cons.prems(4) by auto
  then have max: "- 1 \<notin> common scans"
    using atom_fits_bounded [of "R a" b var "- 1" a] Cons.prems(1) var(1) unfolding common by auto
  have "\<exists>out. distinct out \<and> set out = solutions R atoms vs (b[var := Some v]) \<and>
      (\<forall>res. join_step B atoms vs (b[var := Some v], res) = Some (b[var := Some v], res @ out))" for v
    using Cons.prems var by (intro Cons.IH) (auto simp: nth_list_update)
  then obtain out where out: "distinct (out v)" "set (out v) = solutions R atoms vs (b[var := Some v])"
    "join_step B atoms vs (b[var := Some v], res) = Some (b[var := Some v], res @ out v)" for v res
    by metis
  define body where "body = (\<lambda>val (bindings, results). do {
    bindings \<leftarrow> set_binding bindings var (Some val);
    (bindings, results) \<leftarrow> join_step B atoms vs (bindings, results);
    bindings \<leftarrow> set_binding bindings var None;
    Some (bindings, results)})"
  have "b[var := None] = b" using Cons.prems(3) var(1) by (metis list.set_intros(1) list_update_id)
  then have body: "body v (b, res) = Some (b, res @ out v)" for v res
    using var(1) by (simp add: body_def set_binding_def out(3))
  let ?vals = "sorted_list_of_set (common scans)"
  have loop: "join_step B atoms (var # vs) (b, res) = Some (b, res @ concat (map out ?vals))" for res
  proof (cases "list_ex (at_end B) scans")
    case True
    then have "common scans = {}"
      using scans(2) boxed.at_end_keys by (fastforce simp: common_def scans_ok_def list_ex_iff)
    then show ?thesis using True var(3) scans(1) unfolding active_def by simp
  next
    case False
    then have "join_step B atoms (var # vs) (b, res) = leap_loop B body scans (b, res)"
      using var(3) scans(1) unfolding active_def body_def by simp
    also have "\<dots> = Some (b, res @ concat (map out ?vals))"
      unfolding leap_loop_correct [OF scans(2) ne max] by (rule fold_opt_collect) (rule body)
    finally show ?thesis .
  qed
  have fin: "finite (common scans)" by (rule common_finite [OF scans(2) ne])
  have "set (concat (map out ?vals)) = solutions R atoms (var # vs) b"
    using Cons.prems(1,3) var(1) fin by (subst solutions_Cons) (auto simp: out(2) common [symmetric])
  moreover have "distinct (concat (map out ?vals))"
  proof -
    have nth: "\<sigma> ! var = v" if "\<sigma> \<in> set (out v)" for \<sigma> v
      using that var(1) unfolding out(2) by (auto simp: solutions_def dest!: spec [of _ var])
    have "distinct vals \<Longrightarrow> distinct (concat (map out vals))" for vals
      by (induction vals) (auto simp: out(1) dest!: nth)
    then show ?thesis by simp
  qed
  ultimately show ?case using loop by blast
qed

end

lemma leapfrog_join_collects:
  assumes "trie_backend okB pathsB B"
    and "\<forall>a \<in> set atoms. atom_source okB pathsB (source a) (R a) \<and> bounded_rows (R a) \<and> atom_wf n a"
    and "\<forall>x < n. \<exists>a \<in> set atoms. x \<in> set (atom_vars a)"
  shows "\<exists>out. leapfrog_join B atoms n = Some out \<and> distinct out \<and>
    set out = {\<sigma>. length \<sigma> = n \<and> (\<forall>a \<in> set atoms. atom_row \<sigma> a \<in> R a)}"
proof -
  obtain out where out: "distinct out" "set out = solutions R atoms [0..<n] (replicate n None)"
    "\<forall>res. join_step B atoms [0..<n] (replicate n None, res) = Some (replicate n None, res @ out)"
    using trie_backend.join_step_correct [OF assms(1), of atoms R "replicate n None" "[0..<n]"] assms(2,3)
    by auto
  have "\<exists>x \<in> set [0..<n]. x \<in> set (atom_vars a)" if "a \<in> set atoms" for a
  proof -
    have "atom_vars a \<noteq> []" "\<forall>x \<in> set (atom_vars a). x < n"
      using assms(2) that by (auto simp: atom_wf_def)
    then show ?thesis by (cases "atom_vars a") auto
  qed
  then have "set out = {\<sigma>. length \<sigma> = n \<and> (\<forall>a \<in> set atoms. atom_row \<sigma> a \<in> R a)}"
    unfolding out(2) solutions_def by auto
  with out(1,3) show ?thesis by (simp add: leapfrog_join_def)
qed

text \<open>
  (C5) The leapfrog join returns, and returns each solution of its atoms exactly once: for
  atoms over sources that denote relations, where every atom names a variable and none twice
  and every variable occurs in some atom, the result holds precisely the bindings under which
  every atom's row is in its relation.
\<close>

theorem leapfrog_join_solutions:
  assumes "trie_backend okB pathsB B"
    and "\<forall>a \<in> set atoms. atom_source okB pathsB (source a) (R a) \<and> bounded_rows (R a) \<and> atom_wf n a"
    and "\<forall>x < n. \<exists>a \<in> set atoms. x \<in> set (atom_vars a)"
  shows "\<exists>out. leapfrog_join B atoms n = Some out \<and> distinct out \<and>
    set out = {\<sigma>. length \<sigma> = n \<and> (\<forall>a \<in> set atoms. atom_row \<sigma> a \<in> R a)}"
  using leapfrog_join_collects [OF assms] .

text \<open>A chain of two atoms over one relation: \<open>?0 7 ?1\<close> and \<open>?1 7 ?2\<close>.\<close>

theorem leapfrog_join_solutions_witness:
  "let R = {(1, 7, 2), (2, 7, 3), (2, 8, 4)} :: row set;
       src = slice_source [(1, 7, 2), (2, 7, 3), (2, 8, 4)];
       atoms = [\<lparr>atom_s = Var 0, atom_p = Const 7, atom_o = Var 1, source = src\<rparr>,
                \<lparr>atom_s = Var 1, atom_p = Const 7, atom_o = Var 2, source = src\<rparr>]
   in \<exists>out. leapfrog_join svt_ops atoms 3 = Some out \<and> [1, 2, 3] \<in> set out"
proof -
  let ?rs = "[(1, 7, 2), (2, 7, 3), (2, 8, 4)] :: row list"
  let ?src = "slice_source ?rs :: svt atom_scan"
  let ?atoms = "[\<lparr>atom_s = Var 0, atom_p = Const 7, atom_o = Var 1, source = ?src\<rparr>,
                 \<lparr>atom_s = Var 1, atom_p = Const 7, atom_o = Var 2, source = ?src\<rparr>]"
  have "\<exists>out. leapfrog_join svt_ops ?atoms 3 = Some out \<and> distinct out \<and>
      set out = {\<sigma>. length \<sigma> = 3 \<and> (\<forall>a \<in> set ?atoms. atom_row \<sigma> a \<in> set ?rs)}"
    using slice.atom_source_axioms [of svt_ok svt_paths ?rs]
    by (intro leapfrog_join_solutions [OF svt_backend.trie_backend_axioms])
      (auto simp: atom_wf_def atom_vars_def bounded_rows_def row_list_triple less_Suc_eq numeral_3_eq_3)
  then show ?thesis by (auto simp: atom_row_def Let_def)
qed

end
