(* ===== verification/Rule.thy ===== *)
theory Rule
  imports Join
begin

text \<open>
  Rules as data, from \<^verbatim>\<open>crates/core/nova-reasoning/src/rule.rs\<close>: rule atoms, rules, the
  constructors of the OWL 2 RL rule table, and the predicate-indexed \<open>RuleSet\<close>. The lemmas give
  the meaning of a rule instance and show that \<open>active_rules\<close> returns exactly the rules with a
  body atom that some row of the delta could match.
\<close>

section \<open>Rules\<close>

record rule_atom =
  ra_s :: atom_field
  ra_p :: atom_field
  ra_o :: atom_field

abbreviation ra :: "atom_field \<Rightarrow> atom_field \<Rightarrow> atom_field \<Rightarrow> rule_atom" where
  "ra s p ob \<equiv> \<lparr>ra_s = s, ra_p = p, ra_o = ob\<rparr>"

record rule =
  rule_name :: string
  body :: "rule_atom list"
  head :: rule_atom
  num_vars :: nat

abbreviation rule_new :: "string \<Rightarrow> rule_atom list \<Rightarrow> rule_atom \<Rightarrow> nat \<Rightarrow> rule" where
  "rule_new nm bd h nv \<equiv> \<lparr>rule_name = nm, body = bd, head = h, num_vars = nv\<rparr>"

definition rule_transitive :: "u64 \<Rightarrow> rule" where
  "rule_transitive predicate = rule_new ''transitive''
     [ra (Var 0) (Const predicate) (Var 1),
      ra (Var 1) (Const predicate) (Var 2)]
     (ra (Var 0) (Const predicate) (Var 2)) 3"

definition rule_type_propagation :: "u64 \<Rightarrow> u64 \<Rightarrow> rule" where
  "rule_type_propagation rdf_type sub_class_of = rule_new ''type_propagation''
     [ra (Var 0) (Const rdf_type) (Var 1),
      ra (Var 1) (Const sub_class_of) (Var 2)]
     (ra (Var 0) (Const rdf_type) (Var 2)) 3"

definition rule_subproperty_propagation :: "u64 \<Rightarrow> rule" where
  "rule_subproperty_propagation sub_property_of = rule_new ''subproperty_propagation''
     [ra (Var 0) (Const sub_property_of) (Var 1),
      ra (Var 2) (Var 0) (Var 3)]
     (ra (Var 2) (Var 1) (Var 3)) 4"

definition rule_domain :: "u64 \<Rightarrow> u64 \<Rightarrow> rule" where
  "rule_domain rdfs_domain rdf_type = rule_new ''domain''
     [ra (Var 0) (Const rdfs_domain) (Var 1),
      ra (Var 2) (Var 0) (Var 3)]
     (ra (Var 2) (Const rdf_type) (Var 1)) 4"

definition rule_range :: "u64 \<Rightarrow> u64 \<Rightarrow> rule" where
  "rule_range rdfs_range rdf_type = rule_new ''range''
     [ra (Var 0) (Const rdfs_range) (Var 1),
      ra (Var 2) (Var 0) (Var 3)]
     (ra (Var 3) (Const rdf_type) (Var 1)) 4"

definition rule_transitive_property :: "u64 \<Rightarrow> u64 \<Rightarrow> rule" where
  "rule_transitive_property rdf_type owl_transitive_property = rule_new ''transitive_property''
     [ra (Var 0) (Const rdf_type) (Const owl_transitive_property),
      ra (Var 1) (Var 0) (Var 2),
      ra (Var 2) (Var 0) (Var 3)]
     (ra (Var 1) (Var 0) (Var 3)) 4"

definition rule_symmetric_property :: "u64 \<Rightarrow> u64 \<Rightarrow> rule" where
  "rule_symmetric_property rdf_type owl_symmetric_property = rule_new ''symmetric_property''
     [ra (Var 0) (Const rdf_type) (Const owl_symmetric_property),
      ra (Var 1) (Var 0) (Var 2)]
     (ra (Var 2) (Var 0) (Var 1)) 3"

definition rule_equivalent_class_forward :: "u64 \<Rightarrow> u64 \<Rightarrow> rule" where
  "rule_equivalent_class_forward owl_equivalent_class rdfs_sub_class_of = rule_new ''equivalent_class_forward''
     [ra (Var 0) (Const owl_equivalent_class) (Var 1)]
     (ra (Var 0) (Const rdfs_sub_class_of) (Var 1)) 2"

definition rule_equivalent_class_backward :: "u64 \<Rightarrow> u64 \<Rightarrow> rule" where
  "rule_equivalent_class_backward owl_equivalent_class rdfs_sub_class_of = rule_new ''equivalent_class_backward''
     [ra (Var 0) (Const owl_equivalent_class) (Var 1)]
     (ra (Var 1) (Const rdfs_sub_class_of) (Var 0)) 2"

definition rule_equivalent_property_forward :: "u64 \<Rightarrow> u64 \<Rightarrow> rule" where
  "rule_equivalent_property_forward owl_equivalent_property rdfs_sub_property_of = rule_new ''equivalent_property_forward''
     [ra (Var 0) (Const owl_equivalent_property) (Var 1)]
     (ra (Var 0) (Const rdfs_sub_property_of) (Var 1)) 2"

definition rule_equivalent_property_backward :: "u64 \<Rightarrow> u64 \<Rightarrow> rule" where
  "rule_equivalent_property_backward owl_equivalent_property rdfs_sub_property_of = rule_new ''equivalent_property_backward''
     [ra (Var 0) (Const owl_equivalent_property) (Var 1)]
     (ra (Var 1) (Const rdfs_sub_property_of) (Var 0)) 2"

definition rule_inverse_forward :: "u64 \<Rightarrow> rule" where
  "rule_inverse_forward owl_inverse_of = rule_new ''inverse_forward''
     [ra (Var 0) (Const owl_inverse_of) (Var 1),
      ra (Var 2) (Var 0) (Var 3)]
     (ra (Var 3) (Var 1) (Var 2)) 4"

definition rule_inverse_backward :: "u64 \<Rightarrow> rule" where
  "rule_inverse_backward owl_inverse_of = rule_new ''inverse_backward''
     [ra (Var 0) (Const owl_inverse_of) (Var 1),
      ra (Var 2) (Var 1) (Var 3)]
     (ra (Var 3) (Var 0) (Var 2)) 4"

lemmas rule_table_defs = rule_transitive_def rule_type_propagation_def rule_subproperty_propagation_def
  rule_domain_def rule_range_def rule_transitive_property_def
  rule_symmetric_property_def rule_equivalent_class_forward_def rule_equivalent_class_backward_def
  rule_equivalent_property_forward_def rule_equivalent_property_backward_def rule_inverse_forward_def
  rule_inverse_backward_def

definition body_predicates :: "rule \<Rightarrow> u64 list" where
  "body_predicates r = List.map_filter (\<lambda>a. case ra_p a of Const i \<Rightarrow> Some i | Var _ \<Rightarrow> None) (body r)"

definition has_variable_predicate :: "rule \<Rightarrow> bool" where
  "has_variable_predicate r \<longleftrightarrow> list_ex (\<lambda>a. case ra_p a of Const _ \<Rightarrow> False | Var _ \<Rightarrow> True) (body r)"

section \<open>Rule sets\<close>

record rule_set =
  rules :: "rule list"
  by_predicate :: "u64 \<rightharpoonup> nat list"
  wildcard_rules :: "nat list"

text \<open>The inner loop of \<open>RuleSet::new\<close>: register each distinct body predicate once.\<close>

fun index_predicates :: "nat \<Rightarrow> u64 set \<Rightarrow> u64 list \<Rightarrow> (u64 \<rightharpoonup> nat list) \<Rightarrow> (u64 \<rightharpoonup> nat list)" where
  "index_predicates idx seen [] m = m"
| "index_predicates idx seen (pred # preds) m =
     (if pred \<in> seen then index_predicates idx seen preds m
      else index_predicates idx (insert pred seen) preds (entry_push m pred idx))"

fun index_rules :: "nat \<Rightarrow> rule list \<Rightarrow> (u64 \<rightharpoonup> nat list) \<times> nat list \<Rightarrow> (u64 \<rightharpoonup> nat list) \<times> nat list" where
  "index_rules idx [] st = st"
| "index_rules idx (r # rs) (m, wild) =
     index_rules (Suc idx) rs
       (index_predicates idx {} (body_predicates r) m,
        if has_variable_predicate r then wild @ [idx] else wild)"

definition rule_set_new :: "rule list \<Rightarrow> rule_set" where
  "rule_set_new rs =
     (let (m, wild) = index_rules 0 rs (Map.empty, [])
      in \<lparr>rules = rs, by_predicate = m, wildcard_rules = wild\<rparr>)"

definition active_rules :: "rule_set \<Rightarrow> row list \<Rightarrow> nat list" where
  "active_rules rs delta =
     sort_dedup (wildcard_rules rs @
       concat (map (\<lambda>row. case by_predicate rs (row_list row ! 1) of None \<Rightarrow> [] | Some idxs \<Rightarrow> idxs) delta))"

section \<open>Which rules are active\<close>

definition idxs_at :: "(u64 \<rightharpoonup> nat list) \<Rightarrow> u64 \<Rightarrow> nat set" where
  "idxs_at m p = (case m p of None \<Rightarrow> {} | Some l \<Rightarrow> set l)"

lemma idxs_at_simps [simp]:
  "idxs_at (entry_push m q i) p = (if p = q then insert i (idxs_at m p) else idxs_at m p)"
  "idxs_at Map.empty p = {}"
  by (auto simp: idxs_at_def entry_push_def split: option.splits)

lemma set_entry_or_default: "set (case m p of None \<Rightarrow> [] | Some l \<Rightarrow> l) = idxs_at m p"
  by (auto simp: idxs_at_def split: option.splits)

lemma idxs_at_index_predicates:
  "idxs_at (index_predicates idx seen preds m) p =
     idxs_at m p \<union> (if p \<in> set preds - seen then {idx} else {})"
  by (induction idx seen preds m rule: index_predicates.induct) auto

lemma index_rules_correct:
  "index_rules idx rs (m, wild) = (m', wild') \<Longrightarrow>
     set wild' = set wild \<union> {idx + i | i. i < length rs \<and> has_variable_predicate (rs ! i)} \<and>
     idxs_at m' p = idxs_at m p \<union> {idx + i | i. i < length rs \<and> p \<in> set (body_predicates (rs ! i))}"
proof (induction rs arbitrary: idx m wild)
  case (Cons r rs)
  have split: "{idx + i | i. i < length (r # rs) \<and> P ((r # rs) ! i)} =
      (if P r then {idx} else {}) \<union> {Suc idx + i | i. i < length rs \<and> P (rs ! i)}" for P
    by (auto simp: less_Suc_eq_0_disj)
  have "index_rules (Suc idx) rs (index_predicates idx {} (body_predicates r) m,
      if has_variable_predicate r then wild @ [idx] else wild) = (m', wild')"
    using Cons.prems by simp
  note IH = Cons.IH [OF this]
  show ?case
    unfolding split [of has_variable_predicate] split [of "\<lambda>r. p \<in> set (body_predicates r)"]
    using IH by (auto simp: idxs_at_index_predicates)
qed auto

text \<open>A body atom can match a row only if its predicate is a variable or the row's predicate.\<close>

definition may_match :: "rule_atom \<Rightarrow> row \<Rightarrow> bool" where
  "may_match a row \<longleftrightarrow> (case ra_p a of Const c \<Rightarrow> row_list row ! 1 = c | Var _ \<Rightarrow> True)"

lemma may_match_iff: "may_match a row \<longleftrightarrow> (\<exists>v. ra_p a = Var v) \<or> ra_p a = Const (row_list row ! 1)"
  by (cases "ra_p a") (auto simp: may_match_def)

lemma body_predicates_iff: "p \<in> set (body_predicates r) \<longleftrightarrow> (\<exists>a \<in> set (body r). ra_p a = Const p)"
proof -
  have "(case f of Const i \<Rightarrow> Some i | Var _ \<Rightarrow> None) = Some p \<longleftrightarrow> f = Const p" for f by (cases f) auto
  then show ?thesis unfolding body_predicates_def by (force simp: List.map_filter_def image_iff)
qed

lemma has_variable_predicate_iff:
  "has_variable_predicate r \<longleftrightarrow> (\<exists>a \<in> set (body r). \<exists>v. ra_p a = Var v)"
proof -
  have "(case f of Const _ \<Rightarrow> False | Var _ \<Rightarrow> True) \<longleftrightarrow> (\<exists>v. f = Var v)" for f by (cases f) auto
  then show ?thesis by (simp add: has_variable_predicate_def list_ex_iff)
qed

lemma set_active_rules:
  "set (active_rules (rule_set_new rs) delta) =
    {i. i < length rs \<and> (has_variable_predicate (rs ! i) \<or>
       (\<exists>row \<in> set delta. row_list row ! 1 \<in> set (body_predicates (rs ! i))))}"
proof -
  obtain m wild where mw: "index_rules 0 rs (Map.empty, []) = (m, wild)" by (cases "index_rules 0 rs (Map.empty, [])")
  note c = index_rules_correct [OF mw]
  have "set (active_rules (rule_set_new rs) delta) = set wild \<union> (\<Union>row \<in> set delta. idxs_at m (row_list row ! 1))"
    by (auto simp: active_rules_def rule_set_new_def mw set_entry_or_default)
  also have "\<dots> = {i. i < length rs \<and> (has_variable_predicate (rs ! i) \<or>
       (\<exists>row \<in> set delta. row_list row ! 1 \<in> set (body_predicates (rs ! i))))}"
    using c by auto
  finally show ?thesis .
qed

lemma active_rules_cover:
  assumes "i < length rs" "a \<in> set (body (rs ! i))" "row \<in> set delta" "may_match a row"
  shows "i \<in> set (active_rules (rule_set_new rs) delta)"
proof (cases "ra_p a")
  case (Const c)
  then have "row_list row ! 1 \<in> set (body_predicates (rs ! i))"
    using assms unfolding body_predicates_iff may_match_def by auto
  then show ?thesis using assms unfolding set_active_rules by blast
next
  case (Var v)
  then show ?thesis using assms unfolding set_active_rules has_variable_predicate_iff by blast
qed

text \<open>
  (C17) Predicate-indexed dispatch: for a delta with a row, \<open>active_rules\<close> returns, sorted and
  without repetition, exactly the rules with a body atom whose predicate admits some row of
  the delta; a rule that is left out cannot use the delta in this round.
\<close>

theorem active_rules_exact:
  assumes "delta \<noteq> []"
  shows "sorted_wrt (<) (active_rules (rule_set_new rs) delta) \<and>
    set (active_rules (rule_set_new rs) delta) =
      {i. i < length rs \<and> (\<exists>a \<in> set (body (rs ! i)). \<exists>row \<in> set delta. may_match a row)}"
proof -
  have "sorted_wrt (<) (active_rules (rule_set_new rs) delta)"
    unfolding active_rules_def by (rule sort_dedup_strict)
  moreover have "(has_variable_predicate r \<or> (\<exists>row \<in> set delta. row_list row ! 1 \<in> set (body_predicates r)))
      = (\<exists>a \<in> set (body r). \<exists>row \<in> set delta. may_match a row)" for r
  proof -
    have "hd delta \<in> set delta" using assms by simp
    then show ?thesis
      unfolding has_variable_predicate_iff body_predicates_iff may_match_iff by blast
  qed
  ultimately show ?thesis unfolding set_active_rules by simp
qed

theorem active_rules_exact_witness:
  "set (active_rules (rule_set_new [rule_transitive 5, rule_transitive 6]) [(1, 6, 2)]) = {1}"
proof -
  have "[(1, 6, 2)] \<noteq> ([] :: row list)" by simp
  from active_rules_exact [OF this, of "[rule_transitive 5, rule_transitive 6]"]
  have "i \<in> set (active_rules (rule_set_new [rule_transitive 5, rule_transitive 6]) [(1, 6, 2)]) \<longleftrightarrow>
      i = 1" for i
    by (cases "i = 0"; cases "i = 1") (simp_all add: rule_transitive_def may_match_def row_list_triple)
  then show ?thesis by blast
qed

end
