(* ===== verification/Fixpoint.thy ===== *)
theory Fixpoint
  imports Rule
begin

text \<open>
  The semi-naive driver of \<^verbatim>\<open>crates/core/nova-reasoning/src/fixpoint.rs\<close>: \<open>eval_rule_round\<close>,
  \<open>run_fixpoint\<close> and the entry points \<open>closure\<close>, \<open>closure_over_store\<close> and
  \<open>transitive_closure\<close>. The specification is the inductive set \<open>derives\<close>: the least set that
  contains the seed and is closed under rule instances with a body atom in it and the others in
  it or in the store. The lemmas show that the loop ends and computes this set.
\<close>

section \<open>Model\<close>

definition project_head :: "rule_atom \<Rightarrow> u64 list \<Rightarrow> row option" where
  "project_head h binding =
     (let resolve = (\<lambda>f. case f of Const i \<Rightarrow> Some i | Var v \<Rightarrow> nth_opt binding v)
      in do {s \<leftarrow> resolve (ra_s h); p \<leftarrow> resolve (ra_p h); ob \<leftarrow> resolve (ra_o h); Some (s, p, ob)})"

definition lift_atom :: "rule_atom \<Rightarrow> 'b atom_scan \<Rightarrow> 'b atom" where
  "lift_atom a src = \<lparr>atom_s = ra_s a, atom_p = ra_p a, atom_o = ra_o a, source = src\<rparr>"

definition round_atoms :: "rule \<Rightarrow> 'b atom_scan \<Rightarrow> 'b atom_scan \<Rightarrow> nat \<Rightarrow> 'b atom list" where
  "round_atoms r combined_total delta_src delta_pos =
     map (\<lambda>(i, a). lift_atom a (if i = delta_pos then delta_src else combined_total))
       (enumerate 0 (body r))"

definition eval_rule_round ::
  "'b trie_ops \<Rightarrow> rule \<Rightarrow> 'b atom_scan \<Rightarrow> 'b atom_scan \<Rightarrow> row list option" where
  "eval_rule_round B r combined_total delta_src =
     fold_opt (\<lambda>delta_pos out.
       do {bindings \<leftarrow> leapfrog_join B (round_atoms r combined_total delta_src delta_pos) (num_vars r);
           heads \<leftarrow> those (map (project_head (head r)) bindings);
           Some (out @ heads)}) [0..<length (body r)] []"

text \<open>The facts one round adds; the tree sets of the source are sorted lists without repetition.\<close>

definition round_facts ::
  "'b trie_ops \<Rightarrow> rule_set \<Rightarrow> 'b atom_scan \<Rightarrow> row list \<Rightarrow> row list \<Rightarrow> nat list \<Rightarrow> row list option" where
  "round_facts B rs store tot delta active =
     (let total_src = slice_source tot;
          delta_src = slice_source delta;
          combined_total = combined_source store total_src
      in do {
        new_facts \<leftarrow> fold_opt (\<lambda>rule_idx acc.
            do {r \<leftarrow> nth_opt (rules rs) rule_idx;
                derived \<leftarrow> eval_rule_round B r combined_total delta_src;
                Some (acc @ filter (\<lambda>d. d \<notin> set tot) derived)}) active [];
        Some (sort_dedup new_facts)})"

partial_function (option) fixpoint_loop ::
  "'b trie_ops \<Rightarrow> rule_set \<Rightarrow> 'b atom_scan \<Rightarrow> row list \<Rightarrow> row list \<Rightarrow> row list option" where
  "fixpoint_loop B rs store tot delta =
     (if delta = [] then Some tot
      else let active = active_rules rs delta in
        if active = [] then Some tot
        else do {delta' \<leftarrow> round_facts B rs store tot delta active;
                 fixpoint_loop B rs store (sort_dedup (tot @ delta')) delta'})"

definition run_fixpoint ::
  "'b trie_ops \<Rightarrow> rule_set \<Rightarrow> row list \<Rightarrow> 'b atom_scan \<Rightarrow> row list option" where
  "run_fixpoint B rs base_triples store =
     (let tot = sort_dedup base_triples in fixpoint_loop B rs store tot tot)"

definition closure :: "'b trie_ops \<Rightarrow> rule_set \<Rightarrow> row list \<Rightarrow> row list option" where
  "closure B rs base_triples = run_fixpoint B rs base_triples null_source"

definition closure_over_store ::
  "'b trie_ops \<Rightarrow> rule_set \<Rightarrow> 'b atom_scan \<Rightarrow> row list \<Rightarrow> row list option" where
  "closure_over_store B rs store seed_triples = run_fixpoint B rs seed_triples store"

definition transitive_closure :: "'b trie_ops \<Rightarrow> rule \<Rightarrow> row list \<Rightarrow> row list option" where
  "transitive_closure B r base_triples = closure B (rule_set_new [r]) base_triples"

section \<open>Rule instances\<close>

definition ra_row :: "u64 list \<Rightarrow> rule_atom \<Rightarrow> row" where
  "ra_row \<sigma> a = (inst \<sigma> (ra_s a), inst \<sigma> (ra_p a), inst \<sigma> (ra_o a))"

definition ra_vars :: "rule_atom \<Rightarrow> nat list" where
  "ra_vars a = field_vars (ra_s a) @ field_vars (ra_p a) @ field_vars (ra_o a)"

text \<open>
  The rules the driver is made for: every body atom names a variable and none twice, every
  variable is bound by the body, and no constant is the largest machine word.
\<close>

definition rule_ok :: "rule \<Rightarrow> bool" where
  "rule_ok r \<longleftrightarrow>
     (\<forall>a \<in> set (body r). ra_vars a \<noteq> [] \<and> distinct (ra_vars a) \<and> (\<forall>x \<in> set (ra_vars a). x < num_vars r)) \<and>
     (\<forall>x < num_vars r. \<exists>a \<in> set (body r). x \<in> set (ra_vars a)) \<and>
     (\<forall>x \<in> set (ra_vars (head r)). x < num_vars r) \<and>
     Const (- 1) \<notin> {ra_s (head r), ra_p (head r), ra_o (head r)}"

inductive_set derives :: "rule list \<Rightarrow> row set \<Rightarrow> row set \<Rightarrow> row set"
  for rs :: "rule list" and E S :: "row set" where
  seed: "row \<in> S \<Longrightarrow> row \<in> derives rs E S"
| step: "r \<in> set rs \<Longrightarrow> length \<sigma> = num_vars r \<Longrightarrow>
    \<forall>a \<in> set (body r). ra_row \<sigma> a \<in> E \<or> ra_row \<sigma> a \<in> derives rs E S \<Longrightarrow>
    a \<in> set (body r) \<Longrightarrow> ra_row \<sigma> a \<in> derives rs E S \<Longrightarrow>
    ra_row \<sigma> (head r) \<in> derives rs E S"

text \<open>The heads of the instances with all atoms in \<open>T\<close> and at least one in \<open>D\<close>.\<close>

definition heads :: "rule \<Rightarrow> row set \<Rightarrow> row set \<Rightarrow> row set" where
  "heads r T D = {ra_row \<sigma> (head r) | \<sigma>. length \<sigma> = num_vars r \<and>
     (\<forall>a \<in> set (body r). ra_row \<sigma> a \<in> T) \<and> (\<exists>a \<in> set (body r). ra_row \<sigma> a \<in> D)}"

lemma project_head_row:
  assumes "rule_ok r" "length \<sigma> = num_vars r"
  shows "project_head (head r) \<sigma> = Some (ra_row \<sigma> (head r))"
proof -
  have "(case f of Const i \<Rightarrow> Some i | Var v \<Rightarrow> nth_opt \<sigma> v) = Some (inst \<sigma> f)"
    if "\<forall>x \<in> set (field_vars f). x < num_vars r" for f
    using that assms(2) by (cases f) auto
  then show ?thesis
    using assms(1) by (auto simp: project_head_def ra_row_def rule_ok_def ra_vars_def)
qed

lemma fold_opt_append_all:
  assumes "\<And>x acc. x \<in> set xs \<Longrightarrow> f x acc = Some (acc @ g x)"
  shows "fold_opt f xs acc = Some (acc @ concat (map g xs))"
  using assms by (induction xs arbitrary: acc) auto

lemma atom_source_unique:
  assumes "atom_source okB pathsB src R" "atom_source okB pathsB src S"
  shows "R = S"
proof -
  have "(a, b, c) \<in> R \<longleftrightarrow> (a, b, c) \<in> S" for a b c
    using atom_source.scan_two_bound [OF assms(1), of a b] atom_source.scan_two_bound [OF assms(2), of a b]
    by auto
  then show ?thesis by auto
qed

text \<open>The join of one delta position, over relations \<open>T\<close> for the totals and \<open>D\<close> for the delta.\<close>

lemma set_round_atoms:
  "set (round_atoms r total_src delta_src i) =
    (\<lambda>j. lift_atom (body r ! j) (if j = i then delta_src else total_src)) ` {..<length (body r)}"
proof -
  have "round_atoms r total_src delta_src i =
      map (\<lambda>j. lift_atom (body r ! j) (if j = i then delta_src else total_src)) [0..<length (body r)]"
    by (rule nth_equalityI) (auto simp: round_atoms_def nth_enumerate_eq)
  then show ?thesis by (simp add: atLeast0LessThan)
qed

lemma lift_atom_simps:
  "atom_vars (lift_atom a src) = ra_vars a" "atom_row \<sigma> (lift_atom a src) = ra_row \<sigma> a"
  "source (lift_atom a src) = src"
  by (simp_all add: lift_atom_def atom_vars_def ra_vars_def atom_row_def ra_row_def)

lemma round_join:
  assumes B: "trie_backend okB pathsB B" and r: "rule_ok r"
    and T: "atom_source okB pathsB total_src T" "bounded_rows T"
    and D: "atom_source okB pathsB delta_src D" "D \<subseteq> T"
  shows "\<exists>out. leapfrog_join B (round_atoms r total_src delta_src i) (num_vars r) = Some out \<and>
    set out = {\<sigma>. length \<sigma> = num_vars r \<and>
      (\<forall>j < length (body r). ra_row \<sigma> (body r ! j) \<in> (if j = i then D else T))}"
proof -
  define R where "R a = (if source a = delta_src then D else T)" for a :: "'a atom"
  have bD: "bounded_rows D" using T(2) D(2) by (auto simp: bounded_rows_def)
  let ?at = "\<lambda>j. lift_atom (body r ! j) (if j = i then delta_src else total_src)"
  have R: "R (?at j) = (if j = i then D else T)" for j
    using atom_source_unique [OF D(1)] T(1) by (auto simp: R_def lift_atom_simps)
  note body = r [unfolded rule_ok_def]
  have "\<forall>a \<in> set (round_atoms r total_src delta_src i).
      atom_source okB pathsB (source a) (R a) \<and> bounded_rows (R a) \<and> atom_wf (num_vars r) a"
    unfolding set_round_atoms
  proof (intro ballI, elim imageE, clarsimp simp only: lessThan_iff, intro conjI)
    fix j assume j: "j < length (body r)"
    show "atom_source okB pathsB (source (?at j)) (R (?at j))"
      unfolding R lift_atom_simps using T D by simp
    show "bounded_rows (R (?at j))" unfolding R using T bD by simp
    show "atom_wf (num_vars r) (?at j)"
      unfolding atom_wf_def lift_atom_simps using body nth_mem [OF j] by blast
  qed
  moreover have "\<forall>x < num_vars r. \<exists>a \<in> set (round_atoms r total_src delta_src i). x \<in> set (atom_vars a)"
    using body by (fastforce simp: set_round_atoms lift_atom_simps in_set_conv_nth)
  ultimately obtain out where out: "leapfrog_join B (round_atoms r total_src delta_src i) (num_vars r) = Some out"
    "set out = {\<sigma>. length \<sigma> = num_vars r \<and> (\<forall>a \<in> set (round_atoms r total_src delta_src i). atom_row \<sigma> a \<in> R a)}"
    using leapfrog_join_collects [OF B] by blast
  then show ?thesis unfolding set_round_atoms ball_simps R lift_atom_simps by (auto simp: Ball_def)
qed

lemma eval_rule_round_heads:
  assumes B: "trie_backend okB pathsB B" and r: "rule_ok r"
    and T: "atom_source okB pathsB total_src T" "bounded_rows T"
    and D: "atom_source okB pathsB delta_src D" "D \<subseteq> T"
  shows "\<exists>out. eval_rule_round B r total_src delta_src = Some out \<and> set out = heads r T D"
proof -
  obtain out where out: "leapfrog_join B (round_atoms r total_src delta_src i) (num_vars r) = Some (out i)"
    "set (out i) = {\<sigma>. length \<sigma> = num_vars r \<and>
      (\<forall>j < length (body r). ra_row \<sigma> (body r ! j) \<in> (if j = i then D else T))}" for i
    using round_join [OF assms] by metis
  have "those (map (project_head (head r)) (out i)) = Some (map (\<lambda>\<sigma>. ra_row \<sigma> (head r)) (out i))" for i
    by (rule those_map_Some) (simp add: out(2) project_head_row r)
  then have "eval_rule_round B r total_src delta_src =
      Some (concat (map (\<lambda>i. map (\<lambda>\<sigma>. ra_row \<sigma> (head r)) (out i)) [0..<length (body r)]))"
    unfolding eval_rule_round_def by (subst fold_opt_append_all) (auto simp: out(1))
  moreover have "(\<Union>i < length (body r). set (out i)) = {\<sigma>. length \<sigma> = num_vars r \<and>
      (\<forall>a \<in> set (body r). ra_row \<sigma> a \<in> T) \<and> (\<exists>a \<in> set (body r). ra_row \<sigma> a \<in> D)}" (is "?L = ?U")
  proof (intro set_eqI iffI)
    fix \<sigma> assume "\<sigma> \<in> ?L"
    then obtain i where i: "i < length (body r)" "length \<sigma> = num_vars r"
      "\<forall>j < length (body r). ra_row \<sigma> (body r ! j) \<in> (if j = i then D else T)"
      by (auto simp: out(2))
    then have iD: "ra_row \<sigma> (body r ! i) \<in> D" by auto
    have "ra_row \<sigma> (body r ! j) \<in> T" if "j < length (body r)" for j
      using D(2) that i(3) iD by (cases "j = i") auto
    then have "\<forall>a \<in> set (body r). ra_row \<sigma> a \<in> T" by (simp add: all_set_conv_all_nth)
    then show "\<sigma> \<in> ?U" using i(1,2) iD nth_mem by blast
  next
    fix \<sigma> assume \<sigma>: "\<sigma> \<in> ?U"
    then obtain i where "i < length (body r)" "ra_row \<sigma> (body r ! i) \<in> D" by (auto simp: in_set_conv_nth)
    with \<sigma> show "\<sigma> \<in> ?L" by (auto simp: out(2) intro!: bexI [of _ i])
  qed
  then have "(\<Union>i < length (body r). (\<lambda>\<sigma>. ra_row \<sigma> (head r)) ` set (out i)) = heads r T D"
    unfolding heads_def by (auto simp: image_UN [symmetric])
  ultimately show ?thesis by (auto simp: atLeast0LessThan)
qed

section \<open>The loop computes the least closure\<close>

lemma heads_bounded:
  assumes "rule_ok r" "bounded_rows T"
  shows "bounded_rows (heads r T D)"
  unfolding bounded_rows_def
proof
  fix row assume "row \<in> heads r T D"
  then obtain \<sigma> where \<sigma>: "row = ra_row \<sigma> (head r)" "\<forall>a \<in> set (body r). ra_row \<sigma> a \<in> T"
    by (auto simp: heads_def)
  have var: "\<sigma> ! x \<noteq> - 1" if x: "x < num_vars r" for x
  proof -
    obtain a where a: "a \<in> set (body r)" "x \<in> set (ra_vars a)" using assms(1) x unfolding rule_ok_def by blast
    have "\<sigma> ! x = inst \<sigma> f" if "x \<in> set (field_vars f)" for f using that by (cases f) auto
    then have "\<sigma> ! x \<in> set (row_list (ra_row \<sigma> a))"
      using a(2) by (auto simp: ra_vars_def ra_row_def row_list_triple)
    then show ?thesis using \<sigma>(2) a(1) assms(2) by (auto simp: bounded_rows_def)
  qed
  have "inst \<sigma> f \<noteq> - 1" if "f \<in> {ra_s (head r), ra_p (head r), ra_o (head r)}" for f
  proof -
    have "f \<noteq> Const (- 1)" "\<forall>x \<in> set (field_vars f). x < num_vars r"
      using assms(1) that unfolding rule_ok_def ra_vars_def by auto
    then show ?thesis using var by (cases f) auto
  qed
  then show "- 1 \<notin> set (row_list row)"
    unfolding \<sigma>(1) ra_row_def row_list_triple by force
qed

lemma heads_active:
  assumes "i < length rs" "heads (rs ! i) T (set delta) \<noteq> {}"
  shows "i \<in> set (active_rules (rule_set_new rs) delta)"
proof -
  obtain \<sigma> a where "a \<in> set (body (rs ! i))" "ra_row \<sigma> a \<in> set delta"
    using assms(2) by (auto simp: heads_def)
  moreover have "may_match a (ra_row \<sigma> a) \<or> (\<exists>c. ra_p a = Const c)" for a
    by (cases "ra_p a") (auto simp: may_match_iff)
  moreover have "may_match a (ra_row \<sigma> a)" for a
    by (cases "ra_p a") (auto simp: may_match_iff ra_row_def row_list_triple)
  ultimately show ?thesis using active_rules_cover [OF assms(1)] by blast
qed

lemma round_facts_heads:
  assumes B: "trie_backend okB pathsB B" and ok: "\<forall>r \<in> set rs. rule_ok r"
    and E: "atom_source okB pathsB store E" "bounded_rows E"
    and tot: "bounded_rows (set tot)" "set delta \<subseteq> set tot"
  shows "\<exists>new. round_facts B (rule_set_new rs) store tot delta (active_rules (rule_set_new rs) delta) = Some new \<and>
    sorted_wrt (<) new \<and> set new = (\<Union>r \<in> set rs. heads r (E \<union> set tot) (set delta)) - set tot"
proof -
  let ?T = "E \<union> set tot" and ?D = "set delta" and ?act = "active_rules (rule_set_new rs) delta"
  let ?total_src = "combined_source store (slice_source tot)" and ?delta_src = "slice_source delta"
  have bT: "bounded_rows ?T" using E tot by (auto simp: bounded_rows_def)
  have srcT: "atom_source okB pathsB ?total_src ?T"
    by (rule combined_source_denotes [OF E(1) slice.atom_source_axioms])
  have "\<exists>out. eval_rule_round B r ?total_src ?delta_src = Some out \<and> set out = heads r ?T ?D"
    if "r \<in> set rs" for r
    using ok that tot(2) by (intro eval_rule_round_heads [OF B _ srcT bT slice.atom_source_axioms]) auto
  then obtain out where out: "r \<in> set rs \<Longrightarrow> eval_rule_round B r ?total_src ?delta_src = Some (out r)"
    "r \<in> set rs \<Longrightarrow> set (out r) = heads r ?T ?D" for r
    by metis
  have act: "i < length rs" if "i \<in> set ?act" for i using that unfolding set_active_rules by blast
  let ?new = "concat (map (\<lambda>i. filter (\<lambda>d. d \<notin> set tot) (out (rs ! i))) ?act)"
  have [simp]: "rules (rule_set_new rs) = rs" by (simp add: rule_set_new_def split: prod.splits)
  have "round_facts B (rule_set_new rs) store tot delta ?act = Some (sort_dedup ?new)"
    unfolding round_facts_def Let_def by (subst fold_opt_append_all) (auto simp: out(1) dest: act)
  moreover have "set (sort_dedup ?new) = (\<Union>r \<in> set rs. heads r ?T ?D) - set tot"
  proof (intro set_eqI iffI)
    fix d assume "d \<in> set (sort_dedup ?new)"
    then show "d \<in> (\<Union>r \<in> set rs. heads r ?T ?D) - set tot" using out(2) act nth_mem by fastforce
  next
    fix d assume "d \<in> (\<Union>r \<in> set rs. heads r ?T ?D) - set tot"
    then obtain i where i: "i < length rs" "d \<in> heads (rs ! i) ?T ?D" "d \<notin> set tot"
      by (auto simp: in_set_conv_nth)
    then have "i \<in> set ?act" using heads_active by blast
    moreover have "d \<in> set (out (rs ! i))" using i out(2) by simp
    ultimately show "d \<in> set (sort_dedup ?new)" using i(3) by auto
  qed
  ultimately show ?thesis by (intro exI [of _ "sort_dedup ?new"]) simp
qed

text \<open>The loop's invariant: what is known is derivable, and closed up to the last delta.\<close>

definition fixpoint_inv :: "rule list \<Rightarrow> row set \<Rightarrow> row set \<Rightarrow> row list \<Rightarrow> row list \<Rightarrow> bool" where
  "fixpoint_inv rs E S tot delta \<longleftrightarrow> sorted_wrt (<) tot \<and> bounded_rows (set tot) \<and>
     S \<subseteq> set tot \<and> set tot \<subseteq> derives rs E S \<and> set delta \<subseteq> set tot \<and>
     (\<forall>r \<in> set rs. heads r (E \<union> (set tot - set delta)) (set tot - set delta) \<subseteq> set tot)"

lemma heads_split: "heads r (E \<union> T) T \<subseteq> heads r (E \<union> (T - D)) (T - D) \<union> heads r (E \<union> T) D"
  unfolding heads_def by blast

lemma heads_derives:
  assumes "r \<in> set rs" "T \<subseteq> derives rs E S"
  shows "heads r (E \<union> T) T \<subseteq> derives rs E S"
proof
  fix row assume "row \<in> heads r (E \<union> T) T"
  then obtain \<sigma> a where \<sigma>: "row = ra_row \<sigma> (head r)" "length \<sigma> = num_vars r"
    "\<forall>a \<in> set (body r). ra_row \<sigma> a \<in> E \<union> T" "a \<in> set (body r)" "ra_row \<sigma> a \<in> T"
    unfolding heads_def by blast
  show "row \<in> derives rs E S"
    unfolding \<sigma>(1) by (rule derives.step [OF assms(1) \<sigma>(2) _ \<sigma>(4)]) (use \<sigma> assms(2) in blast)+
qed

lemma heads_mono: "T \<subseteq> T' \<Longrightarrow> D \<subseteq> D' \<Longrightarrow> heads r T D \<subseteq> heads r T' D'"
  unfolding heads_def by blast

lemma closed_derives:
  assumes "S \<subseteq> T" "\<forall>r \<in> set rs. heads r (E \<union> T) T \<subseteq> T"
  shows "derives rs E S \<subseteq> T"
proof
  fix row assume "row \<in> derives rs E S"
  then show "row \<in> T"
  proof induction
    case (step r \<sigma> a)
    then have "ra_row \<sigma> (head r) \<in> heads r (E \<union> T) T" unfolding heads_def by blast
    then show ?case using assms(2) step by blast
  qed (use assms in auto)
qed

lemma fixpoint_stop:
  assumes "fixpoint_inv rs E S tot delta" "\<forall>r \<in> set rs. heads r (E \<union> set tot) (set delta) = {}"
  shows "set tot = derives rs E S"
proof
  show "derives rs E S \<subseteq> set tot"
    using assms heads_split [of _ E "set tot" "set delta"] unfolding fixpoint_inv_def
    by (intro closed_derives) blast+
qed (use assms in \<open>simp add: fixpoint_inv_def\<close>)

lemma fixpoint_inv_round:
  assumes inv: "fixpoint_inv rs E S tot delta" and ok: "\<forall>r \<in> set rs. rule_ok r" and E: "bounded_rows E"
    and new: "set new = (\<Union>r \<in> set rs. heads r (E \<union> set tot) (set delta)) - set tot"
  shows "fixpoint_inv rs E S (sort_dedup (tot @ new)) new"
proof -
  note inv = inv [unfolded fixpoint_inv_def]
  have "heads r (E \<union> set tot) (set delta) \<subseteq> derives rs E S" if "r \<in> set rs" for r
    using heads_derives [OF that, of "set tot"] heads_mono [of "E \<union> set tot" "E \<union> set tot" "set delta" "set tot" r] inv
    by blast
  then have "set tot \<union> set new \<subseteq> derives rs E S" using inv unfolding new by blast
  moreover have "bounded_rows (set tot \<union> set new)"
  proof -
    have "bounded_rows (E \<union> set tot)" using E inv by (auto simp: bounded_rows_def)
    then have "bounded_rows (heads r (E \<union> set tot) (set delta))" if "r \<in> set rs" for r
      using heads_bounded ok that by blast
    then show ?thesis using inv unfolding new bounded_rows_def by blast
  qed
  moreover have "set tot \<union> set new - set new = set tot" unfolding new by blast
  moreover have "heads r (E \<union> set tot) (set tot) \<subseteq> set tot \<union> set new" if "r \<in> set rs" for r
    using heads_split [of r E "set tot" "set delta"] inv that unfolding new by blast
  ultimately show ?thesis
    using inv unfolding fixpoint_inv_def set_sort_dedup set_append by (simp add: le_supI1)
qed

lemma fixpoint_loop_correct:
  assumes B: "trie_backend okB pathsB B" and ok: "\<forall>r \<in> set rs. rule_ok r"
    and E: "atom_source okB pathsB store E" "bounded_rows E"
  shows "fixpoint_inv rs E S tot delta \<Longrightarrow>
    \<exists>out. fixpoint_loop B (rule_set_new rs) store tot delta = Some out \<and> sorted_wrt (<) out \<and>
      set out = derives rs E S"
proof (induction "card (- set tot)" arbitrary: tot delta rule: less_induct)
  case less
  have inv: "bounded_rows (set tot)" "set delta \<subseteq> set tot" "sorted_wrt (<) tot"
    using less.prems by (auto simp: fixpoint_inv_def)
  let ?act = "active_rules (rule_set_new rs) delta"
  have quiet: "heads r (E \<union> set tot) (set delta) = {}" if "delta = [] \<or> ?act = []" "r \<in> set rs" for r
    using that heads_active by (fastforce simp: heads_def in_set_conv_nth)
  obtain new where new: "round_facts B (rule_set_new rs) store tot delta ?act = Some new"
    "set new = (\<Union>r \<in> set rs. heads r (E \<union> set tot) (set delta)) - set tot"
    using round_facts_heads [OF B ok E inv(1,2)] by blast
  show ?case
  proof (cases "delta = [] \<or> ?act = []")
    case True
    then show ?thesis
      using quiet fixpoint_stop [OF less.prems] inv by (subst fixpoint_loop.simps) (auto simp: Let_def)
  next
    case False
    let ?tot = "sort_dedup (tot @ new)"
    have inv': "fixpoint_inv rs E S ?tot new"
      by (rule fixpoint_inv_round [OF less.prems ok E(2) new(2)])
    have step: "fixpoint_loop B (rule_set_new rs) store tot delta
        = fixpoint_loop B (rule_set_new rs) store ?tot new"
      using False new(1) by (subst fixpoint_loop.simps) simp
    show ?thesis
    proof (cases "new = []")
      case True
      have "\<forall>r \<in> set rs. heads r (E \<union> set ?tot) (set new) = {}" using True by (simp add: heads_def)
      then show ?thesis
        using fixpoint_stop [OF inv'] True unfolding step by (subst fixpoint_loop.simps) simp
    next
      case nonempty: False
      have "- set ?tot \<subset> - set tot" using nonempty new(2) by (cases new) auto
      then have "card (- set ?tot) < card (- set tot)" by (intro psubset_card_mono) auto
      then show ?thesis unfolding step using less.hyps inv' by blast
    qed
  qed
qed

lemma run_fixpoint_derives:
  assumes "trie_backend okB pathsB B" "\<forall>r \<in> set rs. rule_ok r"
    and "atom_source okB pathsB store E" "bounded_rows E" "bounded_rows (set base)"
  shows "\<exists>out. run_fixpoint B (rule_set_new rs) base store = Some out \<and> sorted_wrt (<) out \<and>
    set out = derives rs E (set base)"
proof -
  have "fixpoint_inv rs E (set base) (sort_dedup base) (sort_dedup base)"
    using assms(5) by (auto simp: fixpoint_inv_def heads_def intro: derives.seed)
  then show ?thesis
    unfolding run_fixpoint_def Let_def by (rule fixpoint_loop_correct [OF assms(1-4)])
qed

lemma closure_derives:
  assumes "trie_backend okB pathsB B" "\<forall>r \<in> set rs. rule_ok r" "bounded_rows (set base)"
  shows "\<exists>out. closure B (rule_set_new rs) base = Some out \<and> sorted_wrt (<) out \<and>
    set out = derives rs {} (set base)"
  using run_fixpoint_derives [OF assms(1,2) null.atom_source_axioms _ assms(3)]
  by (simp add: closure_def bounded_rows_def)

section \<open>Properties\<close>

text \<open>
  (C4) The semi-naive fixpoint over a store ends and returns, sorted and without repetition,
  exactly the rows derivable from the seed: the least set that contains the seed and the head
  of every rule instance with one body row in the set and the others in the set or the store.
\<close>

theorem closure_over_store_least:
  assumes "trie_backend okB pathsB B" and "\<forall>r \<in> set rs. rule_ok r"
    and "atom_source okB pathsB store E" and "bounded_rows E" and "bounded_rows (set seed)"
  shows "\<exists>out. closure_over_store B (rule_set_new rs) store seed = Some out \<and> sorted_wrt (<) out \<and>
    set out = derives rs E (set seed)"
  unfolding closure_over_store_def by (rule run_fixpoint_derives [OF assms])

text \<open>A store with \<open>1 7 2\<close> and a seed with \<open>2 7 3\<close>, under transitivity of \<open>7\<close>.\<close>

theorem closure_over_store_least_witness:
  "\<exists>out. closure_over_store svt_ops (rule_set_new [rule_transitive 7]) (slice_source [(1, 7, 2)]) [(2, 7, 3)]
     = Some out \<and> (1, 7, 3) \<in> set out"
proof -
  have ok: "\<forall>r \<in> set [rule_transitive 7]. rule_ok r"
    by (auto simp: rule_transitive_def rule_ok_def ra_vars_def less_Suc_eq numeral_3_eq_3)
  have b: "bounded_rows (set [(1, 7, 2)])" "bounded_rows (set [(2, 7, 3)])"
    by (simp_all add: bounded_rows_def row_list_triple)
  let ?d = "derives [rule_transitive 7] (set [(1, 7, 2)]) (set [(2, 7, 3)])"
  have "ra_row [1, 2, 3] (head (rule_transitive 7)) \<in> ?d"
    by (rule derives.step [where a = "ra (Var 1) (Const 7) (Var 2)"])
      (auto simp: rule_transitive_def ra_row_def intro!: derives.seed)
  then have "(1, 7, 3) \<in> ?d" by (simp add: rule_transitive_def ra_row_def)
  then show ?thesis
    using closure_over_store_least [OF svt_backend.trie_backend_axioms ok slice.atom_source_axioms b] by blast
qed

text \<open>
  (C16) The transitivity rule computes transitive closure: run to a fixpoint over in-memory
  triples it returns the triples themselves and, for its predicate, every pair of the
  transitive closure of the edges, and nothing else.
\<close>

theorem transitive_closure_trancl:
  assumes "trie_backend okB pathsB B" and "p \<noteq> - 1" and "bounded_rows (set base)"
  shows "\<exists>out. transitive_closure B (rule_transitive p) base = Some out \<and>
    set out = set base \<union> {(x, p, z) | x z. (x, z) \<in> {(a, b). (a, p, b) \<in> set base}\<^sup>+}"
proof -
  let ?r = "rule_transitive p" and ?edges = "{(a, b). (a, p, b) \<in> set base}"
  have "rule_ok ?r"
    using assms(2) by (auto simp: rule_transitive_def rule_ok_def ra_vars_def less_Suc_eq numeral_3_eq_3)
  then obtain out where out: "closure B (rule_set_new [?r]) base = Some out" "set out = derives [?r] {} (set base)"
    using closure_derives [OF assms(1) _ assms(3), of "[?r]"] by auto
  have "row \<in> set base \<union> {(x, p, z) | x z. (x, z) \<in> ?edges\<^sup>+}" if "row \<in> derives [?r] {} (set base)" for row
    using that
  proof induction
    case (step r \<sigma> a)
    have "(\<sigma> ! 0, \<sigma> ! 1) \<in> ?edges\<^sup>+" "(\<sigma> ! 1, \<sigma> ! 2) \<in> ?edges\<^sup>+"
      using step by (auto simp: rule_transitive_def ra_row_def)
    then have "(\<sigma> ! 0, \<sigma> ! 2) \<in> ?edges\<^sup>+" by (rule trancl_trans)
    then show ?case using step by (simp add: rule_transitive_def ra_row_def)
  qed simp
  moreover have "(x, p, z) \<in> derives [?r] {} (set base)" if "(x, z) \<in> ?edges\<^sup>+" for x z
    using that
  proof induction
    case (step y z)
    have "ra_row [x, y, z] (head ?r) \<in> derives [?r] {} (set base)"
      by (rule derives.step [where a = "ra (Var 0) (Const p) (Var 1)"])
        (use step in \<open>auto simp: rule_transitive_def ra_row_def intro: derives.seed\<close>)
    then show ?case by (simp add: rule_transitive_def ra_row_def)
  qed (auto intro: derives.seed)
  ultimately have "set out = set base \<union> {(x, p, z) | x z. (x, z) \<in> ?edges\<^sup>+}"
    unfolding out(2) using derives.seed [of _ "set base" "[?r]" "{}"] by blast
  then show ?thesis using out(1) by (simp add: transitive_closure_def)
qed

theorem transitive_closure_trancl_witness:
  "\<exists>out. transitive_closure svt_ops (rule_transitive 7) [(1, 7, 2), (2, 7, 3)] = Some out \<and>
    (1, 7, 3) \<in> set out"
proof -
  have "(7 :: u64) \<noteq> - 1" "bounded_rows (set [(1, 7, 2), (2, 7, 3)])"
    by (simp_all add: bounded_rows_def row_list_triple)
  moreover have "(1, 3) \<in> {(a, b). (a, 7, b) \<in> set [(1, 7, 2), (2, 7, 3 :: u64)]}\<^sup>+"
    by (rule trancl_trans [of _ 2]) auto
  ultimately show ?thesis
    using transitive_closure_trancl [OF svt_backend.trie_backend_axioms] by blast
qed

end
