(* ===== verification/Ring.thy ===== *)
theory Ring
  imports Cltj Fixpoint
begin

text \<open>
  The index of one graph, \<^verbatim>\<open>crates/engines/nova-engine-louds/src/ring.rs\<close>: construction from a list of
  triples, enumeration, membership, pattern matching, join scans and the snapshot form. The main
  results say that an index built from triples answers every query as the set of those triples does,
  and that the reasoner may run over it. A panic is \<open>None\<close>.
\<close>

section \<open>Orders\<close>

fun to_spo :: "sort_order \<Rightarrow> u64 \<Rightarrow> u64 \<Rightarrow> u64 \<Rightarrow> row" where
  "to_spo Spo a b c = (a, b, c)"
| "to_spo Sop a b c = (a, c, b)"
| "to_spo Pso a b c = (b, a, c)"
| "to_spo Pos a b c = (c, a, b)"
| "to_spo Ops a b c = (c, b, a)"
| "to_spo Osp a b c = (b, c, a)"

text \<open>The array \<open>ord\<close> has three elements, initially zero; writing past its end panics.\<close>

definition choose_array_for_lftj :: "nat list \<Rightarrow> nat \<Rightarrow> sort_order option" where
  "choose_array_for_lftj bound_fields target_field =
     (let ignored = filter (\<lambda>f. f \<noteq> target_field \<and> f \<notin> set bound_fields) [0, 1, 2];
          entries = bound_fields @ [target_field] @ ignored;
          ord = take 3 (entries @ [0, 0, 0])
      in if length ignored > 2 \<or> length entries > 3 then None
         else if ord = [0, 1, 2] then Some Spo
         else if ord = [0, 2, 1] then Some Sop
         else if ord = [1, 0, 2] then Some Pso
         else if ord = [1, 2, 0] then Some Pos
         else if ord = [2, 1, 0] then Some Ops
         else if ord = [2, 0, 1] then Some Osp
         else None)"

definition bound_fields_excluding ::
  "u64 option \<Rightarrow> u64 option \<Rightarrow> u64 option \<Rightarrow> nat \<Rightarrow> nat list" where
  "bound_fields_excluding s p ob target_field =
     (if s \<noteq> None \<and> target_field \<noteq> 0 then [0] else []) @
     (if p \<noteq> None \<and> target_field \<noteq> 1 then [1] else []) @
     (if ob \<noteq> None \<and> target_field \<noteq> 2 then [2] else [])"

section \<open>Queries\<close>

record ('r, 'v) graph_ring =
  gr_n :: nat
  gr_data :: "('r, 'v) cltj_data option"

text \<open>The loop \<open>while !it.at_end() { ...; it.advance() }\<close> with a body that may panic.\<close>

partial_function (option) for_each ::
  "'b trie_ops \<Rightarrow> ('b trie_iter \<Rightarrow> u64 \<Rightarrow> 's \<Rightarrow> 's option) \<Rightarrow> 'b trie_iter \<Rightarrow> 's \<Rightarrow> 's option" where
  "for_each B act it st =
     (if at_end B it then Some st
      else do {k \<leftarrow> key B it; st' \<leftarrow> act it k st; it' \<leftarrow> advance B it; for_each B act it' st'})"

definition spo_triples :: "'r rank_select \<Rightarrow> 'v bit_fields \<Rightarrow> ('r, 'v) graph_ring \<Rightarrow> row list option" where
  "spo_triples R V ring =
     (case gr_data ring of
        None \<Rightarrow> Some []
      | Some data \<Rightarrow> do {
          let B = cltj_ops R V;
          it0 \<leftarrow> data_trie_iter R data Spo;
          for_each B (\<lambda>it0 s results. do {
            it1 \<leftarrow> open_iter B it0;
            for_each B (\<lambda>it1 p results. do {
              it2 \<leftarrow> open_iter B it1;
              for_each B (\<lambda>it2 ob results. Some (results @ [(s, p, ob)])) it2 results}) it1 results}) it0 []})"

text \<open>
  Seeking one value, as \<open>contains\<close> and \<open>match_triples\<close> do: \<open>None\<close> inside when the value is not there.
\<close>

definition seek_exact :: "'b trie_ops \<Rightarrow> 'b trie_iter \<Rightarrow> u64 \<Rightarrow> 'b trie_iter option option" where
  "seek_exact B it v =
     (if at_end B it then Some None
      else do {
        it' \<leftarrow> seek B it v;
        if at_end B it' then Some None
        else do {k \<leftarrow> key B it'; Some (if k \<noteq> v then None else Some it')}})"

definition ring_contains ::
  "'r rank_select \<Rightarrow> 'v bit_fields \<Rightarrow> ('r, 'v) graph_ring \<Rightarrow> u64 \<Rightarrow> u64 \<Rightarrow> u64 \<Rightarrow> bool option" where
  "ring_contains R V ring s p ob =
     (case gr_data ring of
        None \<Rightarrow> Some False
      | Some data \<Rightarrow> do {
          let B = cltj_ops R V;
          it \<leftarrow> data_trie_iter R data Spo;
          r \<leftarrow> seek_exact B it s;
          case r of
            None \<Rightarrow> Some False
          | Some it \<Rightarrow> do {
              it \<leftarrow> open_iter B it;
              r \<leftarrow> seek_exact B it p;
              case r of
                None \<Rightarrow> Some False
              | Some it \<Rightarrow> do {
                  it \<leftarrow> open_iter B it;
                  r \<leftarrow> seek_exact B it ob;
                  Some (r \<noteq> None)}}})"

text \<open>
  Enumeration of the levels left below an iterator, \<open>n\<close> of them. The code overwrites the prefix in
  place before each use, so it is passed by value here.
\<close>

primrec enumerate_suffix ::
  "'b trie_ops \<Rightarrow> sort_order \<Rightarrow> nat \<Rightarrow> 'b trie_iter \<Rightarrow> u64 list \<Rightarrow> row list \<Rightarrow> row list option" where
  "enumerate_suffix B order 0 it prefix results = None"
| "enumerate_suffix B order (Suc n) it prefix results =
     for_each B (\<lambda>it k results.
       let prefix' = prefix[2 - n := k]
       in if n = 0 then Some (results @ [to_spo order (prefix' ! 0) (prefix' ! 1) (prefix' ! 2)])
          else do {ch \<leftarrow> open_iter B it; enumerate_suffix B order n ch prefix' results}) it results"

text \<open>The loop of \<open>match_triples\<close> through the bound prefix, from position \<open>i\<close>.\<close>

fun seek_prefix ::
  "'b trie_ops \<Rightarrow> nat \<Rightarrow> u64 list \<Rightarrow> 'b trie_iter \<Rightarrow> u64 list \<Rightarrow> ('b trie_iter \<times> u64 list) option option" where
  "seek_prefix B i [] it prefix = Some (Some (it, prefix))"
| "seek_prefix B i (v # vs) it prefix =
     do {r \<leftarrow> seek_exact B it v;
         case r of
           None \<Rightarrow> Some None
         | Some it \<Rightarrow> do {it' \<leftarrow> open_iter B it; seek_prefix B (Suc i) vs it' (prefix[i := v])}}"

definition match_order ::
  "u64 option \<Rightarrow> u64 option \<Rightarrow> u64 option \<Rightarrow> (sort_order \<times> u64 list) option" where
  "match_order s p ob =
     (case (s, p, ob) of
        (None, None, None) \<Rightarrow> Some (Spo, [])
      | (Some sv, None, None) \<Rightarrow> Some (Spo, [sv])
      | (None, Some pv, None) \<Rightarrow> Some (Pso, [pv])
      | (None, None, Some ov) \<Rightarrow> Some (Ops, [ov])
      | (Some sv, Some pv, None) \<Rightarrow> Some (Spo, [sv, pv])
      | (Some sv, None, Some ov) \<Rightarrow> Some (Sop, [sv, ov])
      | (None, Some pv, Some ov) \<Rightarrow> Some (Pos, [pv, ov])
      | (Some _, Some _, Some _) \<Rightarrow> None)"

definition match_triples ::
  "'r rank_select \<Rightarrow> 'v bit_fields \<Rightarrow> ('r, 'v) graph_ring \<Rightarrow>
   u64 option \<Rightarrow> u64 option \<Rightarrow> u64 option \<Rightarrow> row list option" where
  "match_triples R V ring s p ob =
     (case gr_data ring of
        None \<Rightarrow> Some []
      | Some data \<Rightarrow>
          (case (s, p, ob) of
             (Some sv, Some pv, Some ov) \<Rightarrow> do {
               c \<leftarrow> ring_contains R V ring sv pv ov;
               Some (if c then [(sv, pv, ov)] else [])}
           | _ \<Rightarrow> do {
               let B = cltj_ops R V;
               (order, seeks) \<leftarrow> match_order s p ob;
               it \<leftarrow> data_trie_iter R data order;
               r \<leftarrow> seek_prefix B 0 seeks it [0, 0, 0];
               case r of
                 None \<Rightarrow> Some []
               | Some (it, prefix) \<Rightarrow> enumerate_suffix B order (3 - length seeks) it prefix []}))"

definition estimate_count ::
  "('r, 'v) graph_ring \<Rightarrow> u64 option \<Rightarrow> u64 option \<Rightarrow> u64 option \<Rightarrow> nat \<Rightarrow> u64 option" where
  "estimate_count ring s p ob target_field =
     (case gr_data ring of
        None \<Rightarrow> Some 0
      | Some data \<Rightarrow> do {
          vocab \<leftarrow> vocab_size_for_field data target_field;
          let n_bound = length (filter (\<lambda>b. b \<noteq> None) [s, p, ob]);
          Some (of_nat vocab div (of_nat n_bound + 1))})"

text \<open>The loop of \<open>join_scan_concrete\<close> over the bound fields.\<close>

fun scan_prefix ::
  "'r rank_select \<Rightarrow> 'v bit_fields \<Rightarrow> u64 option list \<Rightarrow> nat list \<Rightarrow> ('r, 'v) cltj_trie_iter \<Rightarrow>
   ('r, 'v) cltj_trie_iter option option" where
  "scan_prefix R V field_vals [] it = Some (Some it)"
| "scan_prefix R V field_vals (f # fs) it =
     do {b \<leftarrow> nth_opt field_vals f;
         val \<leftarrow> b;
         it \<leftarrow> seek_c V it val;
         if at_end_c it then Some None
         else do {
           k \<leftarrow> key_c V it;
           if k \<noteq> val then Some None
           else do {
             ch \<leftarrow> open_concrete R it;
             case ch of
               None \<Rightarrow> Some None
             | Some it' \<Rightarrow> if at_end_c it' then Some None else scan_prefix R V field_vals fs it'}}}"

definition join_scan_concrete ::
  "'r rank_select \<Rightarrow> 'v bit_fields \<Rightarrow> ('r, 'v) graph_ring \<Rightarrow>
   u64 option \<Rightarrow> u64 option \<Rightarrow> u64 option \<Rightarrow> nat \<Rightarrow> ('r, 'v) cltj_trie_iter option option" where
  "join_scan_concrete R V ring s p ob target_field =
     (case gr_data ring of
        None \<Rightarrow> Some None
      | Some data \<Rightarrow> do {
          let bound = bound_fields_excluding s p ob target_field;
          sort_order \<leftarrow> choose_array_for_lftj bound target_field;
          it \<leftarrow> data_trie_iter_concrete R data sort_order;
          case it of
            None \<Rightarrow> Some None
          | Some it \<Rightarrow> scan_prefix R V [s, p, ob] bound it})"

definition ring_join_scan ::
  "'r rank_select \<Rightarrow> 'v bit_fields \<Rightarrow> ('r, 'v) graph_ring \<Rightarrow> ('r, 'v) cltj_trie_iter atom_scan" where
  "ring_join_scan R V ring s p ob target_field =
     map_option (\<lambda>r. case r of Some it \<Rightarrow> Backend it | None \<Rightarrow> EmptyTrieIter)
       (join_scan_concrete R V ring s p ob target_field)"

section \<open>Construction and snapshots\<close>

definition build_vocab :: "row list \<Rightarrow> (row \<Rightarrow> u64) \<Rightarrow> u64 list \<times> (u64 \<rightharpoonup> nat)" where
  "build_vocab triples extract =
     (let vals = sort_dedup (map extract triples)
      in (vals, map_of (zip vals [0..<length vals])))"

definition ring_build ::
  "'r rank_select \<Rightarrow> 'v bit_fields \<Rightarrow> row list \<Rightarrow> ('r, 'v) graph_ring option" where
  "ring_build R V ts =
     (let triples = sort_dedup ts;
          n = length triples
      in if n = 0 then Some \<lparr>gr_n = 0, gr_data = None\<rparr>
         else do {
           let (orig_s, map_s) = build_vocab triples fst;
           let (orig_p, map_p) = build_vocab triples (fst \<circ> snd);
           let (orig_o, map_o) = build_vocab triples (snd \<circ> snd);
           cltj \<leftarrow> build_cltj_data R V triples map_s map_p map_o orig_s orig_p orig_o;
           Some \<lparr>gr_n = n, gr_data = Some cltj\<rparr>})"

record ('r, 'v) ring_snapshot =
  rs_n :: nat
  rs_cltj :: "('r, 'v) cltj_snapshot"

definition ring_into_snapshot ::
  "'r rank_select \<Rightarrow> 'v bit_fields \<Rightarrow> ('r, 'v) graph_ring \<Rightarrow> ('r, 'v) ring_snapshot option" where
  "ring_into_snapshot R V ring =
     do {cltj \<leftarrow> (case gr_data ring of
                    Some data \<Rightarrow> cltj_into_snapshot data
                  | None \<Rightarrow> snapshot_empty R V);
         Some \<lparr>rs_n = gr_n ring, rs_cltj = cltj\<rparr>}"

definition ring_from_snapshot :: "('r, 'v) ring_snapshot \<Rightarrow> ('r, 'v) graph_ring option" where
  "ring_from_snapshot snap =
     (if rs_n snap > 0
      then do {data \<leftarrow> cltj_from_snapshot (rs_cltj snap); Some \<lparr>gr_n = rs_n snap, gr_data = Some data\<rparr>}
      else Some \<lparr>gr_n = rs_n snap, gr_data = None\<rparr>)"

section \<open>Loops over iterators\<close>

context trie_backend
begin

lemma iter_key_least:
  assumes "iter_ok okB it" "iter_paths pathsB it \<noteq> {}"
  obtains k where "key B it = Some k" "k \<in> hd ` iter_paths pathsB it"
    "\<And>xs. xs \<in> iter_paths pathsB it \<Longrightarrow> k \<le> hd xs"
proof -
  have f: "finite (hd ` iter_paths pathsB it)" using iter_finite [OF assms(1)] by simp
  show thesis
    by (rule that [OF iter_key [OF assms]]) (use f assms(2) Min_in [OF f] in auto)
qed

lemma seek_exact_paths:
  assumes "iter_ok okB it"
  shows "if \<exists>xs \<in> iter_paths pathsB it. hd xs = v
    then \<exists>it'. seek_exact B it v = Some (Some it') \<and> iter_ok okB it' \<and> key B it' = Some v \<and>
      iter_paths pathsB it' \<noteq> {} \<and> iter_paths pathsB it' = {xs \<in> iter_paths pathsB it. v \<le> hd xs}
    else seek_exact B it v = Some None"
proof (cases "at_end B it")
  case True
  then show ?thesis using iter_at_end [OF assms] by (simp add: seek_exact_def)
next
  case False
  obtain it' where it': "seek B it v = Some it'" "iter_ok okB it'"
    "iter_paths pathsB it' = {xs \<in> iter_paths pathsB it. v \<le> hd xs}" using iter_seek [OF assms] by blast
  show ?thesis
  proof (cases "iter_paths pathsB it' = {}")
    case True
    then have "\<not> (\<exists>xs \<in> iter_paths pathsB it. hd xs = v)" unfolding it'(3) by auto
    then show ?thesis using False it' True iter_at_end [OF it'(2)] by (simp add: seek_exact_def)
  next
    case ne: False
    obtain k where k: "key B it' = Some k" "k \<in> hd ` iter_paths pathsB it'"
      "\<And>xs. xs \<in> iter_paths pathsB it' \<Longrightarrow> k \<le> hd xs" using iter_key_least [OF it'(2) ne] by blast
    have ge: "v \<le> k" using k(2) it'(3) by auto
    have "(\<exists>xs \<in> iter_paths pathsB it. hd xs = v) \<longleftrightarrow> k = v"
    proof
      assume "\<exists>xs \<in> iter_paths pathsB it. hd xs = v"
      then obtain xs where "xs \<in> iter_paths pathsB it'" "hd xs = v" unfolding it'(3) by auto
      then have "k \<le> v" using k(3) by blast
      then show "k = v" using ge by simp
    next
      assume "k = v"
      then show "\<exists>xs \<in> iter_paths pathsB it. hd xs = v" using k(2) unfolding it'(3) by auto
    qed
    then show ?thesis
      using False it' ne k(1) iter_at_end [OF it'(2)] by (auto simp: seek_exact_def)
  qed
qed

text \<open>The loop visits the keys of the level in ascending order.\<close>

lemma for_each_append:
  assumes "iter_ok okB it" "- 1 \<notin> hd ` iter_paths pathsB it"
    and "\<And>it' k res. iter_ok okB it' \<Longrightarrow> iter_paths pathsB it' \<noteq> {} \<Longrightarrow> key B it' = Some k \<Longrightarrow>
      k \<in> hd ` iter_paths pathsB it \<Longrightarrow> (\<And>xs. k # xs \<in> iter_paths pathsB it' \<longleftrightarrow> k # xs \<in> iter_paths pathsB it) \<Longrightarrow>
      act it' k res = Some (res @ out k)"
  shows "for_each B act it res =
    Some (res @ concat (map out (sorted_list_of_set (hd ` iter_paths pathsB it))))"
  using assms
proof (induction "card (hd ` iter_paths pathsB it)" arbitrary: it res rule: less_induct)
  case less
  note fin = iter_finite [OF less.prems(1)]
  show ?case
  proof (cases "at_end B it")
    case True
    then show ?thesis
      using iter_at_end [OF less.prems(1)] by (subst for_each.simps) simp
  next
    case False
    then have ne: "iter_paths pathsB it \<noteq> {}" using iter_at_end [OF less.prems(1)] by simp
    obtain k where k: "key B it = Some k" "k \<in> hd ` iter_paths pathsB it"
      "\<And>xs. xs \<in> iter_paths pathsB it \<Longrightarrow> k \<le> hd xs" using iter_key_least [OF less.prems(1) ne] by blast
    have "k \<noteq> - 1" using k(2) less.prems(2) by metis
    then obtain it' where it': "advance B it = Some it'" "iter_ok okB it'"
      "iter_paths pathsB it' = {xs \<in> iter_paths pathsB it. k < hd xs}"
      using iter_advance [OF less.prems(1) ne k(1)] by blast
    have rest: "hd ` iter_paths pathsB it' = hd ` iter_paths pathsB it - {k}"
      unfolding it'(3) using k(3) by (auto simp: less_le) 
    have run: "act it k res = Some (res @ out k)" for res
      by (rule less.prems(3) [OF less.prems(1) ne k(1,2)]) simp
    have "for_each B act it' (res @ out k) =
        Some ((res @ out k) @ concat (map out (sorted_list_of_set (hd ` iter_paths pathsB it'))))"
    proof (rule less.hyps [OF _ it'(2)])
      show "card (hd ` iter_paths pathsB it') < card (hd ` iter_paths pathsB it)"
        unfolding rest using fin k(2) by (intro psubset_card_mono) auto
      show "- 1 \<notin> hd ` iter_paths pathsB it'" using less.prems(2) unfolding rest by blast
      fix it'' k' res
      assume a: "iter_ok okB it''" "iter_paths pathsB it'' \<noteq> {}" "key B it'' = Some k'"
        "k' \<in> hd ` iter_paths pathsB it'"
        "\<And>xs. k' # xs \<in> iter_paths pathsB it'' \<longleftrightarrow> k' # xs \<in> iter_paths pathsB it'"
      have "k < k'" using a(4) unfolding it'(3) by auto
      then have "k' # xs \<in> iter_paths pathsB it' \<longleftrightarrow> k' # xs \<in> iter_paths pathsB it" for xs
        unfolding it'(3) by simp
      moreover have "k' \<in> hd ` iter_paths pathsB it" using a(4) unfolding rest by blast
      ultimately show "act it'' k' res = Some (res @ out k')"
        using a by (intro less.prems(3)) simp_all
    qed
    moreover have "sorted_list_of_set (hd ` iter_paths pathsB it) = k # sorted_list_of_set (hd ` iter_paths pathsB it')"
    proof -
      have "Min (hd ` iter_paths pathsB it) = k" using k(2,3) fin by (intro Min_eqI) auto
      then show ?thesis
        unfolding rest using sorted_list_of_set_nonempty [of "hd ` iter_paths pathsB it"] fin ne by simp
    qed
    ultimately show ?thesis
      using False k(1) it'(1) run by (subst for_each.simps) simp
  qed
qed

lemma open_key:
  assumes "iter_ok okB it" "iter_paths pathsB it \<noteq> {}" "key B it = Some k" "[k] \<notin> iter_paths pathsB it"
  obtains ch where "open_iter B it = Some ch" "iter_ok okB ch" "iter_paths pathsB ch = {xs. k # xs \<in> iter_paths pathsB it}"
  using iter_open [OF assms] by blast

end

section \<open>Enumeration\<close>

text \<open>The paths of a set, \<open>n\<close> keys each, in ascending order.\<close>

primrec enum_paths :: "nat \<Rightarrow> u64 list set \<Rightarrow> u64 list list" where
  "enum_paths 0 P = [[]]"
| "enum_paths (Suc n) P =
     concat (map (\<lambda>k. map ((#) k) (enum_paths n {xs. k # xs \<in> P})) (sorted_list_of_set (hd ` P)))"

definition paths_ok :: "nat \<Rightarrow> u64 list set \<Rightarrow> bool" where
  "paths_ok n P \<longleftrightarrow> finite P \<and> (\<forall>xs \<in> P. length xs = n \<and> - 1 \<notin> set xs)"

lemma paths_ok_sub: "paths_ok (Suc n) P \<Longrightarrow> paths_ok n {xs. k # xs \<in> P}"
proof -
  assume P: "paths_ok (Suc n) P"
  have "{xs. k # xs \<in> P} \<subseteq> tl ` P" by (force simp: image_iff)
  then have "finite {xs. k # xs \<in> P}" using P finite_subset unfolding paths_ok_def by blast
  then show ?thesis using P by (auto simp: paths_ok_def)
qed

lemma paths_ok_hd: "paths_ok (Suc n) P \<Longrightarrow> - 1 \<notin> hd ` P"
  by (auto simp: paths_ok_def length_Suc_conv)

lemma set_enum_paths: "paths_ok n P \<Longrightarrow> 0 < n \<or> P = {[]} \<Longrightarrow> set (enum_paths n P) = P"
proof (induction n arbitrary: P)
  case (Suc n)
  have fin: "finite (hd ` P)" using Suc.prems by (simp add: paths_ok_def)
  have ne: "\<exists>k xs. ys = k # xs \<and> k \<in> hd ` P" if "ys \<in> P" for ys
    using Suc.prems that by (cases ys) (force simp: paths_ok_def image_iff)+
  have sub: "set (enum_paths n {xs. k # xs \<in> P}) = {xs. k # xs \<in> P}" if "k \<in> hd ` P" for k
  proof (rule Suc.IH [OF paths_ok_sub [OF Suc.prems(1)]])
    obtain ys where "ys \<in> P" "k = hd ys" using \<open>k \<in> hd ` P\<close> by blast
    then obtain xs where xs: "k # xs \<in> P" using ne [of ys] by auto
    show "0 < n \<or> {xs. k # xs \<in> P} = {[]}"
      using xs Suc.prems(1) by (auto simp: paths_ok_def)
  qed
  have "set (enum_paths (Suc n) P) = (\<Union>k \<in> hd ` P. (#) k ` {xs. k # xs \<in> P})"
    using fin sub by simp
  also have "\<dots> = P"
  proof (intro equalityI subsetI)
    fix ys assume y: "ys \<in> P"
    then obtain k xs where "ys = k # xs" "k \<in> hd ` P" using ne by blast
    with y show "ys \<in> (\<Union>k \<in> hd ` P. (#) k ` {xs. k # xs \<in> P})" by blast
  qed auto
  finally show ?case .
qed (auto simp: paths_ok_def)

lemma enum_paths_sorted: "finite P \<Longrightarrow> sorted_wrt (<) (enum_paths n P)"
proof (induction n arbitrary: P)
  case (Suc n)
  let ?f = "\<lambda>k. map ((#) k) (enum_paths n {xs. k # xs \<in> P})"
  have fin: "finite {xs. k # xs \<in> P}" for k
    by (rule finite_subset [of _ "tl ` P"]) (use Suc.prems in \<open>force simp: image_iff\<close>)+
  have inner: "sorted_wrt (<) (?f k)" for k
    using Suc.IH [OF fin [of k]] by (simp add: sorted_wrt_map)
  have "sorted_wrt (<) ks \<Longrightarrow> sorted_wrt (<) (concat (map ?f ks))" for ks
    by (induction ks) (auto simp: sorted_wrt_append inner simp del: map_map)
  then show ?case by simp
qed simp

definition of_cols :: "sort_order \<Rightarrow> u64 list \<Rightarrow> row" where
  "of_cols order xs = to_spo order (xs ! 0) (xs ! 1) (xs ! 2)"

lemma of_cols_order [simp]: "of_cols order (order_cols order r) = r"
  by (cases r; cases order) (simp_all add: of_cols_def)

context trie_backend
begin

lemma enumerate_suffix_eq:
  assumes "iter_ok okB it" "paths_ok n (iter_paths pathsB it)" "0 < n" "n \<le> 3" "length prefix = 3"
  shows "enumerate_suffix B order n it prefix res =
    Some (res @ map (\<lambda>xs. of_cols order (take (3 - n) prefix @ xs)) (enum_paths n (iter_paths pathsB it)))"
  using assms
proof (induction n arbitrary: it prefix res)
  case (Suc n)
  let ?P = "iter_paths pathsB it"
  let ?act = "\<lambda>it k results. let prefix' = prefix[2 - n := k]
     in if n = 0 then Some (results @ [to_spo order (prefix' ! 0) (prefix' ! 1) (prefix' ! 2)])
        else do {ch \<leftarrow> open_iter B it; enumerate_suffix B order n ch prefix' results}"
  let ?out = "\<lambda>k. map (\<lambda>xs. of_cols order (take (2 - n) prefix @ k # xs)) (enum_paths n {xs. k # xs \<in> ?P})"
  have tk: "take (3 - n) (prefix[2 - n := k]) = take (2 - n) prefix @ [k]" for k
  proof -
    have "3 - n = Suc (2 - n)" "2 - n < length prefix" using Suc.prems by auto
    then show ?thesis by (simp add: take_Suc_conv_app_nth)
  qed
  have "for_each B ?act it res = Some (res @ concat (map ?out (sorted_list_of_set (hd ` ?P))))"
  proof (rule for_each_append [OF Suc.prems(1) paths_ok_hd [OF Suc.prems(2)]])
    fix it' k res
    assume a: "iter_ok okB it'" "iter_paths pathsB it' \<noteq> {}" "key B it' = Some k" "k \<in> hd ` ?P"
      "\<And>xs. k # xs \<in> iter_paths pathsB it' \<longleftrightarrow> k # xs \<in> ?P"
    show "?act it' k res = Some (res @ ?out k)"
    proof (cases "n = 0")
      case True
      then show ?thesis using tk [of k] Suc.prems(5) by (simp add: of_cols_def Let_def)
    next
      case False
      have "[k] \<notin> ?P" using Suc.prems(2) False by (auto simp: paths_ok_def)
      then obtain ch where ch: "open_iter B it' = Some ch" "iter_ok okB ch"
        "iter_paths pathsB ch = {xs. k # xs \<in> ?P}" using open_key [OF a(1-3)] a(5) by auto
      have "enumerate_suffix B order n ch (prefix[2 - n := k]) res =
          Some (res @ map (\<lambda>xs. of_cols order (take (3 - n) (prefix[2 - n := k]) @ xs)) (enum_paths n (iter_paths pathsB ch)))"
        using Suc.prems False ch(2) paths_ok_sub [OF Suc.prems(2)] by (intro Suc.IH) (simp_all add: ch(3))
      then show ?thesis using False ch(1) by (simp only: tk ch(3)) (simp add: Let_def)
    qed
  qed
  moreover have "concat (map ?out ks) = map (\<lambda>xs. of_cols order (take (3 - Suc n) prefix @ xs))
      (concat (map (\<lambda>k. map ((#) k) (enum_paths n {xs. k # xs \<in> ?P})) ks))" for ks
    by (induction ks) simp_all
  ultimately show ?case by (simp only: enumerate_suffix.simps enum_paths.simps)
qed simp

lemma seek_prefix_paths:
  assumes "iter_ok okB it" "\<forall>xs \<in> iter_paths pathsB it. length vs < length xs" "i + length vs \<le> length prefix"
  shows "if vs = [] \<or> (\<exists>xs. vs @ xs \<in> iter_paths pathsB it)
    then \<exists>it' prefix'. seek_prefix B i vs it prefix = Some (Some (it', prefix')) \<and> iter_ok okB it' \<and>
      iter_paths pathsB it' = {xs. vs @ xs \<in> iter_paths pathsB it} \<and> length prefix' = length prefix \<and>
      take (i + length vs) prefix' = take i prefix @ vs
    else seek_prefix B i vs it prefix = Some None"
  using assms
proof (induction vs arbitrary: i it prefix)
  case (Cons v vs)
  let ?P = "iter_paths pathsB it"
  show ?case
  proof (cases "\<exists>xs \<in> ?P. hd xs = v")
    case False
    then have "\<not> (\<exists>xs. (v # vs) @ xs \<in> ?P)" by force
    then show ?thesis using False seek_exact_paths [OF Cons.prems(1), of v] by simp
  next
    case True
    then obtain it1 where it1: "seek_exact B it v = Some (Some it1)" "iter_ok okB it1" "key B it1 = Some v"
      "iter_paths pathsB it1 \<noteq> {}" "iter_paths pathsB it1 = {xs \<in> ?P. v \<le> hd xs}"
      using seek_exact_paths [OF Cons.prems(1), of v] by auto
    have "[v] \<notin> iter_paths pathsB it1" using Cons.prems(2) unfolding it1(5) by force
    then obtain ch where ch: "open_iter B it1 = Some ch" "iter_ok okB ch" "iter_paths pathsB ch = {xs. v # xs \<in> ?P}"
      using open_key [OF it1(2,4,3)] unfolding it1(5) by auto
    have len: "\<forall>xs \<in> iter_paths pathsB ch. length vs < length xs" using Cons.prems(2) unfolding ch(3) by force
    obtain ys where ys: "ys \<in> ?P" "hd ys = v" using True by blast
    then have "v # tl ys \<in> ?P" using Cons.prems(2) by (cases ys) auto
    then have nonempty: "vs = [] \<Longrightarrow> \<exists>xs. (v # vs) @ xs \<in> ?P" by auto
    have step: "seek_prefix B i (v # vs) it prefix = seek_prefix B (Suc i) vs ch (prefix[i := v])"
      using it1(1) ch(1) by simp
    have tk: "take (Suc i) (prefix[i := v]) = take i prefix @ [v]"
      using Cons.prems(3) by (simp add: take_Suc_conv_app_nth)
    show ?thesis
      using Cons.IH [OF ch(2) len, of "Suc i" "prefix[i := v]"] Cons.prems(3) nonempty
      unfolding step ch(3) by (auto simp: tk split: if_splits)
  qed
qed simp

end

section \<open>An index and its triples\<close>

definition ring_ok :: "'r rank_select \<Rightarrow> 'v bit_fields \<Rightarrow> row set \<Rightarrow> ('r, 'v) graph_ring \<Rightarrow> bool" where
  "ring_ok R V S ring \<longleftrightarrow> finite S \<and> bounded_rows S \<and> gr_n ring = card S \<and>
     (case gr_data ring of None \<Rightarrow> S = {} | Some data \<Rightarrow> S \<noteq> {} \<and> data_ok R V S data)"

text \<open>
  The triples an index can hold: as many rows as positions can address, at most \<open>2 ^ 32\<close> distinct values
  in each column (labels have 32 bits), and no identifier \<open>u64::MAX\<close> (identifiers have 40 bits).
\<close>

definition ring_fits :: "row list \<Rightarrow> bool" where
  "ring_fits ts \<longleftrightarrow> 3 * length ts \<le> usize_max \<and> bounded_rows (set ts) \<and>
     card (fst ` set ts) \<le> 2 ^ 32 \<and> card ((fst \<circ> snd) ` set ts) \<le> 2 ^ 32 \<and> card ((snd \<circ> snd) ` set ts) \<le> 2 ^ 32"

lemma order_cols_length [simp]: "length (order_cols order r) = 3"
  by (cases r; cases order) simp_all

lemma order_cols_set: "set (order_cols order r) = set (row_list r)"
  by (cases r; cases order) (auto simp: row_list_triple)

lemma paths_ok_order: "finite S \<Longrightarrow> bounded_rows S \<Longrightarrow> paths_ok 3 (order_cols order ` S)"
  by (auto simp: paths_ok_def bounded_rows_def order_cols_set simp del: split_paired_Ex split_paired_All)

lemma build_vocab_ok:
  assumes "card (f ` set ts) \<le> 2 ^ 32" "build_vocab ts f = (vs, m)"
  shows "vocab_map vs m" and "set vs = f ` set ts"
proof -
  have vs: "vs = sort_dedup (map f ts)" and m: "m = map_of (zip vs [0..<length vs])"
    using assms(2) by (auto simp: build_vocab_def Let_def)
  have s: "sorted_wrt (<) vs" "distinct vs" using sort_dedup_strict [of "map f ts"] unfolding vs by (auto simp: strict_sorted_iff)
  show "set vs = f ` set ts" by (simp add: vs)
  then have "length vs \<le> 2 ^ 32" using assms(1) distinct_card [OF s(2)] by simp
  moreover have "m (vs ! i) = Some i" if "i < length vs" for i
    using map_of_zip_nth [of vs "[0..<length vs]" i] s(2) that by (simp add: m)
  ultimately show "vocab_map vs m" using s by (simp add: vocab_map_def)
qed

lemma sorted_of_cols: "sorted_wrt (<) xss \<Longrightarrow> \<forall>xs \<in> set xss. length xs = 3 \<Longrightarrow> sorted_wrt (<) (map (of_cols Spo) xss)"
  unfolding sorted_wrt_map
proof (erule sorted_wrt_mono_rel [rotated])
  fix xs ys assume "xs \<in> set xss" "ys \<in> set xss" and l: "xs < ys" and len: "\<forall>xs \<in> set xss. length xs = 3"
  then have "length xs = 3" "length ys = 3" by blast+
  then obtain a b c a' b' c' where "xs = [a, b, c]" "ys = [a', b', c']"
    by (auto simp: numeral_3_eq_3 length_Suc_conv)
  then show "of_cols Spo xs < of_cols Spo ys" using l by (auto simp: of_cols_def less_prod_simp)
qed

context sux
begin

lemma ring_iter:
  assumes "ring_ok R V S ring" "gr_data ring = Some data"
  obtains it where "data_trie_iter R data ord = Some (Backend it)" "data_trie_iter_concrete R data ord = Some (Some it)"
    "cltj_ok R V it" "cltj_paths R V it = order_cols ord ` S" "paths_ok 3 (order_cols ord ` S)"
  using data_iter [of S data ord] assms paths_ok_order [of S ord] by (auto simp: ring_ok_def simp del: split_paired_Ex)

lemma ring_build_ok:
  assumes "ring_fits ts"
  shows "\<exists>ring. ring_build R V ts = Some ring \<and> ring_ok R V (set ts) ring \<and>
    (\<forall>data. gr_data ring = Some data \<longrightarrow> cltj_into_snapshot data \<bind> cltj_from_snapshot = Some data)"
proof (cases "ts = []")
  case True
  then show ?thesis by (auto simp: ring_build_def ring_ok_def bounded_rows_def sort_dedup_def)
next
  case False
  let ?t = "sort_dedup ts"
  obtain vs ms where s: "build_vocab ?t fst = (vs, ms)" by fastforce
  obtain vp mp where p: "build_vocab ?t (fst \<circ> snd) = (vp, mp)" by fastforce
  obtain vo mo where ob: "build_vocab ?t (snd \<circ> snd) = (vo, mo)" by fastforce
  have c: "card (fst ` set ?t) \<le> 2 ^ 32" "card ((fst \<circ> snd) ` set ?t) \<le> 2 ^ 32" "card ((snd \<circ> snd) ` set ?t) \<le> 2 ^ 32"
    using assms unfolding ring_fits_def set_sort_dedup by blast+
  have sets: "set vs = fst ` set ?t" "set vp = (fst \<circ> snd) ` set ?t" "set vo = (snd \<circ> snd) ` set ?t"
    using build_vocab_ok(2) [OF c(1) s] build_vocab_ok(2) [OF c(2) p] build_vocab_ok(2) [OF c(3) ob] by blast+
  have "x \<in> set vs \<and> y \<in> set vp \<and> z \<in> set vo" if "(x, y, z) \<in> set ?t" for x y z
    unfolding sets using imageI [OF that, of fst] imageI [OF that, of "fst \<circ> snd"] imageI [OF that, of "snd \<circ> snd"]
    by simp
  then have "vocabs_ok ?t vs vp vo ms mp mo"
    using build_vocab_ok(1) [OF c(1) s] build_vocab_ok(1) [OF c(2) p] build_vocab_ok(1) [OF c(3) ob]
    unfolding vocabs_ok_def by blast
  moreover have "length ?t \<le> length ts"
    unfolding sort_dedup_def by (rule order_trans [OF remdups_adj_length]) simp
  then have "3 * length ?t \<le> usize_max" using assms by (simp add: ring_fits_def)
  ultimately obtain data where data: "build_cltj_data R V ?t ms mp mo vs vp vo = Some data"
    "data_ok R V (set ?t) data"
    "map ct_vocab (cd_tries data) = map (\<lambda>ord. order_vocab ord vs vp vo) [Spo, Sop, Pso, Pos, Ops, Osp]"
    using build_cltj_data_ok [of ?t vs vp vo ms mp mo] False sort_dedup_strict by auto
  have "length ?t = card (set ts)"
    using sort_dedup_strict [of ts] distinct_card [of ?t] by (simp add: strict_sorted_iff)
  then show ?thesis
    using data False assms snapshot_restores [OF data(3)]
    by (simp add: ring_build_def Let_def s p ob ring_ok_def ring_fits_def)
qed

lemma ring_build_snapshot:
  assumes "ring_fits ts"
  shows "\<exists>ring snap. ring_build R V ts = Some ring \<and> ring_ok R V (set ts) ring \<and>
    ring_into_snapshot R V ring = Some snap \<and> ring_from_snapshot snap = Some ring"
proof -
  obtain ring where r: "ring_build R V ts = Some ring" "ring_ok R V (set ts) ring"
    "\<forall>data. gr_data ring = Some data \<longrightarrow> cltj_into_snapshot data \<bind> cltj_from_snapshot = Some data"
    using ring_build_ok [OF assms] by blast
  show ?thesis
  proof (cases "gr_data ring")
    case None
    then have n: "gr_n ring = 0" using r(2) by (simp add: ring_ok_def)
    obtain T where "from_raw R V [] [] = Some T" using from_raw_empty [OF bit_field_vec_axioms, of R] by blast
    then have "\<exists>e. snapshot_empty R V = Some e" by (simp add: snapshot_empty_def eval_nat_numeral)
    then show ?thesis
      using r(1,2) None n by (cases ring) (auto simp: ring_into_snapshot_def ring_from_snapshot_def)
  next
    case (Some data)
    then have "0 < gr_n ring" using r(2) by (auto simp: ring_ok_def card_gt_0_iff)
    moreover obtain s where "cltj_into_snapshot data = Some s" "cltj_from_snapshot s = Some data"
      using r(3) Some by (cases "cltj_into_snapshot data") auto
    ultimately show ?thesis
      using r(1,2) Some by (cases ring) (auto simp: ring_into_snapshot_def ring_from_snapshot_def)
  qed
qed

lemma spo_triples_list:
  assumes "ring_ok R V S ring"
  shows "spo_triples R V ring = Some (sorted_list_of_set S)"
proof (cases "gr_data ring")
  case None
  then show ?thesis using assms by (simp add: spo_triples_def ring_ok_def)
next
  case (Some data)
  obtain it where it: "data_trie_iter R data Spo = Some (Backend it)" "cltj_ok R V it"
    "cltj_paths R V it = order_cols Spo ` S" "paths_ok 3 (order_cols Spo ` S)"
    using ring_iter [OF assms Some] by metis
  let ?rows = "map (of_cols Spo) (enum_paths 3 (order_cols Spo ` S))"
  have "spo_triples R V ring = enumerate_suffix (cltj_ops R V) Spo 3 (Backend it) [0, 0, 0] []"
    using it(1) Some by (simp add: spo_triples_def numeral_3_eq_3 numeral_2_eq_2 Let_def cong: if_cong)
  also have "\<dots> = Some ?rows"
    using cltj.enumerate_suffix_eq [of "Backend it" 3 "[0, 0, 0]" Spo "[]"] it(2-4) by simp
  finally have eq: "spo_triples R V ring = Some ?rows" .
  have "set (enum_paths 3 (order_cols Spo ` S)) = order_cols Spo ` S" by (rule set_enum_paths [OF it(4)]) simp
  then have set: "set ?rows = S" and len: "\<forall>xs \<in> set (enum_paths 3 (order_cols Spo ` S)). length xs = 3"
    by (simp_all add: image_image)
  have "finite (order_cols Spo ` S)" using assms by (simp add: ring_ok_def)
  then have "sorted_wrt (<) ?rows" by (intro sorted_of_cols enum_paths_sorted len)
  then have "?rows = sorted_list_of_set S"
    using set by (metis strict_sorted_iff sorted_list_of_set.idem_if_sorted_distinct)
  then show ?thesis using eq by simp
qed

end

text \<open>The triples a pattern selects.\<close>

definition matches :: "u64 option \<Rightarrow> u64 option \<Rightarrow> u64 option \<Rightarrow> row \<Rightarrow> bool" where
  "matches s p ob r \<longleftrightarrow> bound_ok s (fst r) \<and> bound_ok p (fst (snd r)) \<and> bound_ok ob (snd (snd r))"

lemma match_order_paths:
  assumes "match_order s p ob = Some (order, seeks)"
  shows "length seeks < 3" and "(\<exists>xs. order_cols order r = seeks @ xs) \<longleftrightarrow> matches s p ob r"
  using assms
  by (cases s; cases p; cases ob; cases r; auto simp: match_order_def matches_def)+

lemma match_order_total: "\<not> (s \<noteq> None \<and> p \<noteq> None \<and> ob \<noteq> None) \<Longrightarrow> \<exists>order seeks. match_order s p ob = Some (order, seeks)"
  by (cases s; cases p; cases ob) (auto simp: match_order_def)

context sux
begin

lemma contains_iff:
  assumes "ring_ok R V S ring"
  shows "ring_contains R V ring s p ob = Some ((s, p, ob) \<in> S)"
proof (cases "gr_data ring")
  case None
  then show ?thesis using assms by (simp add: ring_contains_def ring_ok_def)
next
  case (Some data)
  let ?B = "cltj_ops R V" and ?P = "order_cols Spo ` S"
  obtain it where it: "data_trie_iter R data Spo = Some (Backend it)" "cltj_ok R V it"
    "cltj_paths R V it = ?P" "paths_ok 3 ?P"
    using ring_iter [OF assms Some] by metis
  have eq: "ring_contains R V ring s p ob =
      (seek_prefix ?B 0 [s, p] (Backend it) [0, 0, 0] \<bind> (\<lambda>r. case r of None \<Rightarrow> Some False
        | Some (it, _) \<Rightarrow> seek_exact ?B it ob \<bind> (\<lambda>r. Some (r \<noteq> None))))"
    using it(1) Some by (auto simp: ring_contains_def Let_def split: option.splits bind_splits)
  have mem: "xs \<in> ?P \<longleftrightarrow> (\<exists>a b c. xs = [a, b, c] \<and> (a, b, c) \<in> S)" for xs by force
  have len: "\<forall>xs \<in> iter_paths (cltj_paths R V) (Backend it). length [s, p] < length xs"
    using it(3,4) by (auto simp: paths_ok_def)
  note sp = cltj.seek_prefix_paths [of "Backend it" "[s, p]" 0 "[0, 0, 0]"]
  show ?thesis
  proof (cases "\<exists>xs. [s, p] @ xs \<in> ?P")
    case False
    then have "(s, p, ob) \<notin> S" by (auto simp: mem)
    then show ?thesis using sp len it(2,3) False eq by (simp del: seek_prefix.simps)
  next
    case True
    then obtain it' prefix' where i: "seek_prefix ?B 0 [s, p] (Backend it) [0, 0, 0] = Some (Some (it', prefix'))"
      "iter_ok (cltj_ok R V) it'" "iter_paths (cltj_paths R V) it' = {xs. [s, p] @ xs \<in> ?P}"
      using sp len it(2,3) by (auto simp del: seek_prefix.simps)
    have "(\<exists>xs \<in> iter_paths (cltj_paths R V) it'. hd xs = ob) \<longleftrightarrow> (s, p, ob) \<in> S"
      unfolding i(3) by (force simp: mem)
    then show ?thesis
      using cltj.seek_exact_paths [OF i(2), of ob] eq i(1) by (auto split: if_splits simp del: seek_prefix.simps)
  qed
qed

lemma match_triples_set:
  assumes "ring_ok R V S ring"
  shows "\<exists>res. match_triples R V ring s p ob = Some res \<and> distinct res \<and> set res = {r \<in> S. matches s p ob r}"
proof (cases "gr_data ring")
  case None
  then show ?thesis using assms by (simp add: match_triples_def ring_ok_def)
next
  case (Some data)
  show ?thesis
  proof (cases "s \<noteq> None \<and> p \<noteq> None \<and> ob \<noteq> None")
    case True
    then show ?thesis
      using Some contains_iff [OF assms] by (auto simp: match_triples_def matches_def)
  next
    case False
    then obtain order seeks where o: "match_order s p ob = Some (order, seeks)" using match_order_total by blast
    note om = match_order_paths [OF o]
    let ?B = "cltj_ops R V" and ?P = "order_cols order ` S"
    obtain it where it: "data_trie_iter R data order = Some (Backend it)" "cltj_ok R V it"
      "cltj_paths R V it = ?P" "paths_ok 3 ?P"
      using ring_iter [OF assms Some] by metis
    have len: "\<forall>xs \<in> iter_paths (cltj_paths R V) (Backend it). length seeks < length xs"
      using it(3,4) om(1) by (auto simp: paths_ok_def)
    have eq: "match_triples R V ring s p ob =
        (seek_prefix ?B 0 seeks (Backend it) [0, 0, 0] \<bind> (\<lambda>r. case r of None \<Rightarrow> Some []
          | Some (it, prefix) \<Rightarrow> enumerate_suffix ?B order (3 - length seeks) it prefix []))"
      using False Some it(1) o by (auto simp: match_triples_def Let_def split: option.splits)
    have mem: "(\<exists>xs. seeks @ xs \<in> ?P) \<longleftrightarrow> (\<exists>r \<in> S. matches s p ob r)"
      unfolding image_iff using om(2) by metis
    show ?thesis
    proof (cases "seeks = [] \<or> (\<exists>xs. seeks @ xs \<in> ?P)")
      case none: False
      then show ?thesis
        using cltj.seek_prefix_paths [of "Backend it" seeks 0 "[0, 0, 0]"] len it(2,3) om(1) eq mem by auto
    next
      case True
      then obtain it' prefix' where i: "seek_prefix ?B 0 seeks (Backend it) [0, 0, 0] = Some (Some (it', prefix'))"
        "iter_ok (cltj_ok R V) it'" "iter_paths (cltj_paths R V) it' = {xs. seeks @ xs \<in> ?P}"
        "length prefix' = 3" "take (length seeks) prefix' = seeks"
        using cltj.seek_prefix_paths [of "Backend it" seeks 0 "[0, 0, 0]"] len it(2,3) om(1) by auto
      let ?Q = "{xs. seeks @ xs \<in> ?P}" and ?n = "3 - length seeks"
      have Q: "paths_ok ?n ?Q"
      proof -
        have "finite ?Q" by (rule finite_imageD [of "(@) seeks"]) (use it(4) in \<open>auto simp: paths_ok_def inj_on_def intro: finite_subset\<close>)
        moreover have "length xs = ?n \<and> - 1 \<notin> set xs" if "xs \<in> ?Q" for xs
        proof -
          have "length (seeks @ xs) = 3 \<and> - 1 \<notin> set (seeks @ xs)"
            using it(4) that unfolding paths_ok_def by blast
          then show ?thesis by auto
        qed
        ultimately show ?thesis by (simp add: paths_ok_def)
      qed
      have n: "0 < ?n" "?n \<le> 3" "3 - ?n = length seeks" using om(1) by auto
      let ?res = "map (\<lambda>xs. of_cols order (seeks @ xs)) (enum_paths ?n ?Q)"
      have "match_triples R V ring s p ob = Some ?res"
        using cltj.enumerate_suffix_eq [OF i(2), of ?n prefix' order "[]"] Q n i eq by simp
      moreover have "inj_on (\<lambda>xs. of_cols order (seeks @ xs)) ?Q"
      proof (rule inj_onI)
        fix xs ys assume a: "xs \<in> ?Q" "ys \<in> ?Q" "of_cols order (seeks @ xs) = of_cols order (seeks @ ys)"
        then obtain r r' where r: "seeks @ xs = order_cols order r" "seeks @ ys = order_cols order r'" by blast
        then have "r = r'" using a(3) by simp
        then have "seeks @ xs = seeks @ ys" using r by simp
        then show "xs = ys" by simp
      qed
      then have "distinct ?res"
        using enum_paths_sorted [of ?Q ?n] Q set_enum_paths [OF Q] n(1)
        by (simp add: distinct_map strict_sorted_iff paths_ok_def)
      moreover have "set ?res = {r \<in> S. matches s p ob r}"
      proof -
        have "set ?res = (\<lambda>xs. of_cols order (seeks @ xs)) ` ?Q" using set_enum_paths [OF Q] n(1) by simp
        also have "\<dots> = {r \<in> S. \<exists>xs. order_cols order r = seeks @ xs}"
          by (auto simp: image_iff simp del: split_paired_Ex) (metis of_cols_order)+
        finally show ?thesis using om(2) by simp
      qed
      ultimately show ?thesis by blast
    qed
  qed
qed

end

section \<open>Join scans\<close>

context sux
begin

lemma scan_prefix_paths:
  assumes "cltj_ok R V it" "\<forall>xs \<in> cltj_paths R V it. length fs < length xs"
    and "\<forall>f \<in> set fs. \<exists>v. nth_opt fvs f = Some (Some v)"
  defines "vals \<equiv> map (\<lambda>f. the (fvs ! f)) fs"
  shows "if fs = [] \<or> (\<exists>xs. vals @ xs \<in> cltj_paths R V it)
    then \<exists>it'. scan_prefix R V fvs fs it = Some (Some it') \<and> cltj_ok R V it' \<and>
      cltj_paths R V it' = {xs. vals @ xs \<in> cltj_paths R V it}
    else scan_prefix R V fvs fs it = Some None"
  using assms(1-3) unfolding vals_def
proof (induction fs arbitrary: it)
  case (Cons f fs)
  let ?P = "cltj_paths R V it"
  obtain v where v: "nth_opt fvs f = Some (Some v)" using Cons.prems(3) by auto
  then have fv: "the (fvs ! f) = v" by (auto simp: nth_opt_def split: if_splits)
  obtain it1 where it1: "seek_c V it v = Some it1" "cltj_ok R V it1" "cltj_paths R V it1 = {xs \<in> ?P. v \<le> hd xs}"
    using cltj_seek [OF Cons.prems(1)] by blast
  have end1: "at_end_c it1 \<longleftrightarrow> cltj_paths R V it1 = {}" by (rule cltj_at_end [OF it1(2)])
  show ?case
  proof (cases "\<exists>xs \<in> ?P. hd xs = v")
    case False
    then have none: "\<not> (\<exists>xs. map (\<lambda>f. the (fvs ! f)) (f # fs) @ xs \<in> ?P)" by (force simp: fv)
    have "key_c V it1 \<noteq> Some v \<and> key_c V it1 \<noteq> None" if "cltj_paths R V it1 \<noteq> {}"
    proof -
      have "Min (hd ` cltj_paths R V it1) \<in> hd ` cltj_paths R V it1"
        using cltj_finite [OF it1(2)] that by (intro Min_in) auto
      then show ?thesis using cltj_key [OF it1(2) that] False unfolding it1(3) by auto
    qed
    then have "scan_prefix R V fvs (f # fs) it = Some None"
      using v it1(1) end1 by (cases "cltj_paths R V it1 = {}"; cases "key_c V it1") auto
    then show ?thesis using none by (simp del: scan_prefix.simps)
  next
    case True
    then have ne: "cltj_paths R V it1 \<noteq> {}" unfolding it1(3) by auto
    have "Min (hd ` cltj_paths R V it1) = v"
      using True cltj_finite [OF it1(2)] unfolding it1(3) by (intro Min_eqI) auto
    then have key: "key_c V it1 = Some v" using cltj_key [OF it1(2) ne] by simp
    have "[v] \<notin> cltj_paths R V it1" using Cons.prems(2) unfolding it1(3) by force
    then obtain ch where ch: "open_concrete R it1 = Some (Some ch)" "cltj_ok R V ch"
      "cltj_paths R V ch = {xs. v # xs \<in> ?P}" "\<not> at_end_c ch"
      using cltj_open_paths [OF it1(2) ne key] unfolding it1(3) by auto
    have step: "scan_prefix R V fvs (f # fs) it = scan_prefix R V fvs fs ch"
      using v it1(1) end1 ne key ch(1,4) by simp
    have len: "\<forall>xs \<in> cltj_paths R V ch. length fs < length xs" using Cons.prems(2) unfolding ch(3) by force
    have "\<exists>xs. v # xs \<in> ?P" using ch(3,4) cltj_at_end [OF ch(2)] by auto
    then show ?thesis
      using Cons.IH [OF ch(2) len] Cons.prems(3) unfolding step ch(3) by (auto simp: fv split: if_splits)
  qed
qed simp

end

text \<open>The chosen order lists the bound fields first, then the target.\<close>

lemma choose_array_scan:
  assumes "f < 3"
  shows "\<exists>order. choose_array_for_lftj (bound_fields_excluding s p ob f) f = Some order \<and>
    length (bound_fields_excluding s p ob f) < 3 \<and>
    (\<forall>g \<in> set (bound_fields_excluding s p ob f). \<exists>v. nth_opt [s, p, ob] g = Some (Some v)) \<and>
    hd ` {xs. map (\<lambda>g. the ([s, p, ob] ! g)) (bound_fields_excluding s p ob f) @ xs \<in> order_cols order ` S} =
      scan_values S s p ob f"
proof -
  consider "f = 0" | "f = 1" | "f = 2" using assms by linarith
  then show ?thesis
    by cases (cases s; cases p; cases ob; force simp: bound_fields_excluding_def choose_array_for_lftj_def
        nth_opt_def scan_values_triple row_list_triple image_iff)+
qed

context sux
begin

lemma ring_join_scan_values:
  assumes "ring_ok R V S ring" "f < 3"
  shows "\<exists>it. ring_join_scan R V ring s p ob f = Some it \<and> iter_ok (cltj_ok R V) it \<and>
    hd ` iter_paths (cltj_paths R V) it = scan_values S s p ob f"
proof (cases "gr_data ring")
  case None
  then have "S = {}" using assms by (simp add: ring_ok_def)
  then show ?thesis
    using None by (simp add: ring_join_scan_def join_scan_concrete_def scan_values_def)
next
  case (Some data)
  let ?b = "bound_fields_excluding s p ob f"
  obtain order where o: "choose_array_for_lftj ?b f = Some order" "length ?b < 3"
    "\<forall>g \<in> set ?b. \<exists>v. nth_opt [s, p, ob] g = Some (Some v)"
    "hd ` {xs. map (\<lambda>g. the ([s, p, ob] ! g)) ?b @ xs \<in> order_cols order ` S} = scan_values S s p ob f"
    using choose_array_scan [OF assms(2), of s p ob S] by blast
  obtain it where it: "data_trie_iter_concrete R data order = Some (Some it)" "cltj_ok R V it"
    "cltj_paths R V it = order_cols order ` S" "paths_ok 3 (order_cols order ` S)"
    using ring_iter [OF assms(1) Some] by metis
  have len: "\<forall>xs \<in> cltj_paths R V it. length ?b < length xs" using it(3,4) o(2) by (auto simp: paths_ok_def)
  have eq: "join_scan_concrete R V ring s p ob f = scan_prefix R V [s, p, ob] ?b it"
    using Some o(1) it(1) by (simp add: join_scan_concrete_def Let_def)
  note sp = scan_prefix_paths [OF it(2) len o(3)]
  show ?thesis
  proof (cases "?b = [] \<or> (\<exists>xs. map (\<lambda>g. the ([s, p, ob] ! g)) ?b @ xs \<in> cltj_paths R V it)")
    case True
    then show ?thesis using sp eq o(4) it(3) by (auto simp: ring_join_scan_def)
  next
    case False
    then have "scan_values S s p ob f = {}" using o(4) it(3) by auto
    then show ?thesis using sp False eq by (auto simp: ring_join_scan_def)
  qed
qed

lemma cltj_backend: "trie_backend (cltj_ok R V) (cltj_paths R V) (cltj_ops R V)"
  by (rule cltj.trie_backend_axioms)

lemma ring_atom_source:
  "ring_ok R V S ring \<Longrightarrow> atom_source (cltj_ok R V) (cltj_paths R V) (ring_join_scan R V ring) S"
  by unfold_locales (rule ring_join_scan_values)

end

section \<open>Properties\<close>

lemma example_fits: "ring_fits [(1, 7, 3), (1, 7, 2)]"
  by (simp add: ring_fits_def usize_max_def bounded_rows_def row_list_triple)

text \<open>
  (C33) An index built from triples, in any order and with repetitions, answers every pattern: the
  matching triples are returned, each once, and nothing else. The triples must fit the index: at most
  \<open>2 ^ 32\<close> values in each column and no identifier \<open>u64::MAX\<close>.
\<close>

theorem ring_match_exact:
  assumes "sux R V" and "ring_fits ts"
  shows "\<exists>ring. ring_build R V ts = Some ring \<and>
    (\<forall>s p ob. \<exists>res. match_triples R V ring s p ob = Some res \<and> distinct res \<and>
      set res = {r \<in> set ts. matches s p ob r})"
  using sux.ring_build_ok [OF assms] sux.match_triples_set [OF assms(1)] by blast

text \<open>The triples with subject \<open>1\<close> and object \<open>2\<close>.\<close>

theorem ring_match_exact_witness:
  "\<exists>ring res. ring_build list_rank_select list_bits [(1, 7, 3), (1, 7, 2)] = Some ring \<and>
     match_triples list_rank_select list_bits ring (Some 1) None (Some 2) = Some res \<and> set res = {(1, 7, 2)}"
proof -
  have "{r \<in> set [(1, 7, 3), (1, 7, 2)]. matches (Some 1) None (Some 2) r} = {(1, 7, 2)}"
    by (auto simp: matches_def)
  then show ?thesis
    using ring_match_exact [OF list_sux.sux_axioms example_fits] by metis
qed

text \<open>
  (C34) Enumerating an index returns the triples it was built from, sorted and without repetition,
  and its count is their number.
\<close>

theorem ring_enumerates_sorted:
  assumes "sux R V" and "ring_fits ts"
  shows "\<exists>ring. ring_build R V ts = Some ring \<and> spo_triples R V ring = Some (sort_dedup ts) \<and>
    gr_n ring = length (sort_dedup ts)"
proof -
  obtain ring where r: "ring_build R V ts = Some ring" "ring_ok R V (set ts) ring"
    using sux.ring_build_ok [OF assms] by blast
  have "length (sort_dedup ts) = card (set ts)"
    using sort_dedup_strict [of ts] distinct_card [of "sort_dedup ts"] by (simp add: strict_sorted_iff)
  then show ?thesis
    using r sux.spo_triples_list [OF assms(1) r(2)] by (simp add: sort_dedup_eq ring_ok_def)
qed

theorem ring_enumerates_sorted_witness:
  "\<exists>ring. ring_build list_rank_select list_bits [(1, 7, 3), (1, 7, 2)] = Some ring \<and>
     spo_triples list_rank_select list_bits ring = Some [(1, 7, 2), (1, 7, 3)] \<and> gr_n ring = 2"
proof -
  have "sort_dedup [(1, 7, 3), (1, 7, 2)] = [(1, 7, 2), (1 :: u64, 7 :: u64, 3 :: u64)]"
    by (simp add: sort_dedup_def less_eq_prod_simp)
  then show ?thesis
    using ring_enumerates_sorted [OF list_sux.sux_axioms example_fits] by auto
qed

text \<open>
  (C35) A join scan over an index yields exactly the values of the target field among the triples
  that agree with the other bound fields: the scan never panics, meets the contract of trie iterators,
  and its keys are those values.
\<close>

theorem ring_join_scan_exact:
  assumes "sux R V" and "ring_fits ts" and "f < 3"
  shows "\<exists>ring it. ring_build R V ts = Some ring \<and> ring_join_scan R V ring s p ob f = Some it \<and>
    iter_ok (cltj_ok R V) it \<and> hd ` iter_paths (cltj_paths R V) it = scan_values (set ts) s p ob f"
  using sux.ring_build_ok [OF assms(1,2)] sux.ring_join_scan_values [OF assms(1) _ assms(3)] by blast

theorem ring_join_scan_exact_witness:
  "\<exists>ring it. ring_build list_rank_select list_bits [(1, 7, 3), (1, 7, 2)] = Some ring \<and>
     ring_join_scan list_rank_select list_bits ring (Some 1) None None 2 = Some it \<and>
     hd ` iter_paths (cltj_paths list_rank_select list_bits) it = {2, 3}"
proof -
  have "scan_values (set [(1, 7, 3), (1, 7, 2)]) (Some 1) None None 2 = {2, 3}"
    by (auto simp: scan_values_triple row_list_triple)
  then show ?thesis
    using ring_join_scan_exact [OF list_sux.sux_axioms example_fits, of 2 "Some 1" None None] by auto
qed

text \<open>
  (C36) The reasoner runs over an index: with the join scans of an index as its store, the semi-naive
  fixpoint ends and returns the rows derivable from the seed and the triples of the index.
\<close>

theorem reasoning_over_ring:
  assumes "sux R V" and "ring_fits ts" and "\<forall>r \<in> set rs. rule_ok r" and "bounded_rows (set seed)"
  shows "\<exists>ring out. ring_build R V ts = Some ring \<and>
    closure_over_store (cltj_ops R V) (rule_set_new rs) (ring_join_scan R V ring) seed = Some out \<and>
    sorted_wrt (<) out \<and> set out = derives rs (set ts) (set seed)"
proof -
  obtain ring where r: "ring_build R V ts = Some ring" "ring_ok R V (set ts) ring"
    using sux.ring_build_ok [OF assms(1,2)] by blast
  have "bounded_rows (set ts)" using assms(2) by (simp add: ring_fits_def)
  moreover have "trie_backend (cltj_ok R V) (cltj_paths R V) (cltj_ops R V)"
    by (rule sux.cltj_backend [OF assms(1)])
  ultimately show ?thesis
    using run_fixpoint_derives [OF _ assms(3) sux.ring_atom_source [OF assms(1) r(2)] _ assms(4)] r(1)
    unfolding closure_over_store_def by blast
qed

text \<open>An index with \<open>1 7 2\<close> and a seed with \<open>2 7 3\<close>, under transitivity of \<open>7\<close>.\<close>

theorem reasoning_over_ring_witness:
  "\<exists>ring out. ring_build list_rank_select list_bits [(1, 7, 3), (1, 7, 2)] = Some ring \<and>
     closure_over_store (cltj_ops list_rank_select list_bits) (rule_set_new [rule_transitive 7])
       (ring_join_scan list_rank_select list_bits ring) [(2, 7, 5)] = Some out \<and> (1, 7, 5) \<in> set out"
proof -
  let ?ts = "[(1, 7, 3), (1, 7, 2)] :: row list"
  have ok: "\<forall>r \<in> set [rule_transitive 7]. rule_ok r"
    by (auto simp: rule_transitive_def rule_ok_def ra_vars_def less_Suc_eq numeral_3_eq_3)
  have b: "bounded_rows (set [(2, 7, 5)])" by (simp add: bounded_rows_def row_list_triple)
  let ?d = "derives [rule_transitive 7] (set ?ts) (set [(2, 7, 5)])"
  have "ra_row [1, 2, 5] (head (rule_transitive 7)) \<in> ?d"
    by (rule derives.step [where a = "ra (Var 1) (Const 7) (Var 2)"])
      (auto simp: rule_transitive_def ra_row_def intro!: derives.seed)
  then have "(1, 7, 5) \<in> ?d" by (simp add: rule_transitive_def ra_row_def)
  then show ?thesis
    using reasoning_over_ring [OF list_sux.sux_axioms example_fits ok b] by metis
qed

text \<open>
  (C37) The snapshot of an index restores it: serialising a built index, which stores the shared
  vocabularies once, and reading it back gives the same index.
\<close>

theorem ring_snapshot_roundtrip:
  assumes "sux R V" and "ring_fits ts"
  shows "\<exists>ring snap. ring_build R V ts = Some ring \<and> ring_into_snapshot R V ring = Some snap \<and>
    ring_from_snapshot snap = Some ring"
  using sux.ring_build_snapshot [OF assms] by blast

theorem ring_snapshot_roundtrip_witness:
  "\<exists>ring snap. ring_build list_rank_select list_bits [(1, 7, 3), (1, 7, 2)] = Some ring \<and>
     ring_into_snapshot list_rank_select list_bits ring = Some snap \<and> ring_from_snapshot snap = Some ring"
  by (rule ring_snapshot_roundtrip [OF list_sux.sux_axioms example_fits])

end
