(* ===== verification/Store.thy ===== *)
theory Store
  imports Delta Dict MemoryStore Ring
begin

text \<open>
  The storage engine of \<^verbatim>\<open>crates/engines/nova-engine-louds/src/store.rs\<close> as \<open>LoudsStore::new\<close> makes it:
  dictionary, one index per graph, write buffer and the set of registered graphs, with the whole-store
  snapshot of \<^verbatim>\<open>snapshot.rs\<close>. Such a store has no data directory and no log, for its whole life: the
  calls that append to the log do nothing, the automatic compaction never fires, and the commit of a
  compaction takes its in-memory branch. The lock serialises calls, so an operation is a function on the state.
  The serialisation of the \<^verbatim>\<open>epserde\<close> crate and the iteration order of hash maps are parameters.
\<close>

section \<open>State\<close>

record ('r, 'v) store_snapshot =
  snap_graph_ids :: "u8 list"
  snap_rings :: "('r, 'v) ring_snapshot list"

text \<open>The third-party operations the store calls, and the order in which a hash map lists its keys.\<close>

record ('l, 'v, 'c, 'r, 'b) store_env =
  st_dict :: "('l, 'v, 'c) dict_env"
  st_rank :: "'r rank_select"
  st_serialize :: "('r, 'v) store_snapshot \<Rightarrow> 'b result"
  st_deserialize :: "'b \<Rightarrow> ('r, 'v) store_snapshot result"
  st_order :: "graph_id set \<Rightarrow> graph_id list"

abbreviation st_bits :: "('l, 'v, 'c, 'r, 'b) store_env \<Rightarrow> 'v bit_fields" where
  "st_bits SE \<equiv> env_bits (st_dict SE)"

record ('l, 'v, 'c, 'r) louds_inner =
  dict :: "('l, 'v, 'c) dictionary"
  graphs :: "graph_id \<rightharpoonup> ('r, 'v) graph_ring"
  delta_tier :: delta
  named_graph_ids :: "graph_id set"

record ('l, 'v, 'c, 'r) louds_store =
  store_inner :: "('l, 'v, 'c, 'r) louds_inner"
  decode_snap :: "'l rdf_term option list option"

definition inner_new :: "('l, 'v, 'c, 'r, 'b) store_env \<Rightarrow> ('l, 'v, 'c, 'r) louds_inner" where
  "inner_new SE =
     \<lparr>dict = dict_new (st_dict SE), graphs = Map.empty, delta_tier = delta_new, named_graph_ids = {}\<rparr>"

definition louds_new :: "('l, 'v, 'c, 'r, 'b) store_env \<Rightarrow> ('l, 'v, 'c, 'r) louds_store" where
  "louds_new SE = \<lparr>store_inner = inner_new SE, decode_snap = None\<rparr>"

text \<open>Running a dictionary operation, and an operation on the locked part, inside a larger state.\<close>

definition on_dict ::
  "('l, 'v, 'c, 'r) louds_inner \<Rightarrow> (('l, 'v, 'c) dictionary, 'a) outcome \<Rightarrow> (('l, 'v, 'c, 'r) louds_inner, 'a) outcome" where
  "on_dict s out = map_option (\<lambda>(d, res). (s\<lparr>dict := d\<rparr>, res)) out"

definition on_inner ::
  "('l, 'v, 'c, 'r) louds_store \<Rightarrow> (('l, 'v, 'c, 'r) louds_inner, 'a) outcome \<Rightarrow> (('l, 'v, 'c, 'r) louds_store, 'a) outcome" where
  "on_inner st out = map_option (\<lambda>(s, res). (st\<lparr>store_inner := s\<rparr>, res)) out"

section \<open>Writes\<close>

definition ring_has ::
  "('l, 'v, 'c, 'r, 'b) store_env \<Rightarrow> ('l, 'v, 'c, 'r) louds_inner \<Rightarrow> graph_id \<Rightarrow> term_id \<Rightarrow> term_id \<Rightarrow> term_id \<Rightarrow> bool option" where
  "ring_has SE s g_id s_id p_id o_id =
     (case graphs s g_id of
        Some ring \<Rightarrow> ring_contains (st_rank SE) (st_bits SE) ring (as_u64 s_id) (as_u64 p_id) (as_u64 o_id)
      | None \<Rightarrow> Some False)"

definition intern_quad_ids ::
  "('l, 'v, 'c, 'r, 'b) store_env \<Rightarrow> ('l, 'v, 'c, 'r) louds_inner \<Rightarrow> 'l quad \<Rightarrow>
   (('l, 'v, 'c, 'r) louds_inner, graph_id \<times> term_id \<times> term_id \<times> term_id) outcome" where
  "intern_quad_ids SE s q =
     seq (on_dict s (Some (intern_graph (dict s) (quad_graph q)))) (\<lambda>s g_id.
     seq (on_dict s (dict_intern (st_dict SE) (dict s) (subject_term (quad_subject q)))) (\<lambda>s s_id.
     seq (on_dict s (intern_predicate (st_dict SE) (dict s) (quad_predicate q))) (\<lambda>s p_id.
     seq (on_dict s (dict_intern (st_dict SE) (dict s) (quad_object q))) (\<lambda>s o_id.
       Some (s, Inr (g_id, s_id, p_id, o_id))))))"

definition note_graph :: "'l quad \<Rightarrow> graph_id \<Rightarrow> ('l, 'v, 'c, 'r) louds_inner \<Rightarrow> ('l, 'v, 'c, 'r) louds_inner" where
  "note_graph q g_id s =
     (case quad_graph q of
        GraphNamed _ \<Rightarrow> s\<lparr>named_graph_ids := insert g_id (named_graph_ids s)\<rparr>
      | _ \<Rightarrow> s)"

definition apply_insert ::
  "('l, 'v, 'c, 'r, 'b) store_env \<Rightarrow> ('l, 'v, 'c, 'r) louds_inner \<Rightarrow> 'l quad \<Rightarrow> (('l, 'v, 'c, 'r) louds_inner, bool) outcome" where
  "apply_insert SE s q =
     seq (intern_quad_ids SE s q) (\<lambda>s (g_id, s_id, p_id, o_id).
       let key = pack_quad g_id s_id p_id o_id in
       case delta_get (delta_tier s) key of
         Some True \<Rightarrow> Some (s, Inr False)
       | Some False \<Rightarrow> Some (s\<lparr>delta_tier := insert_key (delta_tier s) key\<rparr>, Inr True)
       | None \<Rightarrow>
           do {present \<leftarrow> ring_has SE s g_id s_id p_id o_id;
               if present then Some (s, Inr False)
               else Some (note_graph q g_id (s\<lparr>delta_tier := insert_key (delta_tier s) key\<rparr>), Inr True)})"

text \<open>
  The lookups \<open>apply_remove\<close> and \<open>contains\<close> share: the identifiers of a quad, unless one of its
  parts is unknown. The outer option is a panic.
\<close>

definition lookup_quad_ids ::
  "('l, 'v, 'c, 'r, 'b) store_env \<Rightarrow> ('l, 'v, 'c, 'r) louds_inner \<Rightarrow> 'l quad \<Rightarrow>
   (graph_id \<times> term_id \<times> term_id \<times> term_id) option option" where
  "lookup_quad_ids SE s q =
     (case get_graph_id (dict s) (quad_graph q) of
        None \<Rightarrow> Some None
      | Some g_id \<Rightarrow> do {
          r \<leftarrow> dict_get_id (st_dict SE) (dict s) (subject_term (quad_subject q));
          case r of
            None \<Rightarrow> Some None
          | Some s_id \<Rightarrow> do {
              r \<leftarrow> dict_get_id (st_dict SE) (dict s) (NamedNode (quad_predicate q));
              case r of
                None \<Rightarrow> Some None
              | Some p_id \<Rightarrow> do {
                  r \<leftarrow> dict_get_id (st_dict SE) (dict s) (quad_object q);
                  case r of
                    None \<Rightarrow> Some None
                  | Some o_id \<Rightarrow> Some (Some (g_id, s_id, p_id, o_id))}}})"

definition apply_remove ::
  "('l, 'v, 'c, 'r, 'b) store_env \<Rightarrow> ('l, 'v, 'c, 'r) louds_inner \<Rightarrow> 'l quad \<Rightarrow> (('l, 'v, 'c, 'r) louds_inner, bool) outcome" where
  "apply_remove SE s q =
     do {ids \<leftarrow> lookup_quad_ids SE s q;
         case ids of
           None \<Rightarrow> Some (s, Inr False)
         | Some (g_id, s_id, p_id, o_id) \<Rightarrow>
             let key = pack_quad g_id s_id p_id o_id in
             (case delta_get (delta_tier s) key of
                Some True \<Rightarrow> Some (s\<lparr>delta_tier := tombstone_key (delta_tier s) key\<rparr>, Inr True)
              | Some False \<Rightarrow> Some (s, Inr False)
              | None \<Rightarrow>
                  do {present \<leftarrow> ring_has SE s g_id s_id p_id o_id;
                      if present then Some (s\<lparr>delta_tier := tombstone_key (delta_tier s) key\<rparr>, Inr True)
                      else Some (s, Inr False)})}"

definition apply_register_graph ::
  "('l, 'v, 'c, 'r) louds_inner \<Rightarrow> graph_name \<Rightarrow> (('l, 'v, 'c, 'r) louds_inner, unit) outcome" where
  "apply_register_graph s g =
     (case g of
        GraphNamed _ \<Rightarrow>
          seq (on_dict s (Some (intern_graph (dict s) g))) (\<lambda>s g_id.
            Some (s\<lparr>named_graph_ids := insert g_id (named_graph_ids s)\<rparr>, Inr ()))
      | _ \<Rightarrow> Some (s, Inr ()))"

section \<open>Snapshots and compaction\<close>

definition snapshot_from_graphs ::
  "('l, 'v, 'c, 'r, 'b) store_env \<Rightarrow> (graph_id \<rightharpoonup> ('r, 'v) graph_ring) \<Rightarrow> ('r, 'v) store_snapshot option" where
  "snapshot_from_graphs SE gs =
     fold_opt (\<lambda>g_id snap. do {
         ring \<leftarrow> gs g_id;
         r \<leftarrow> ring_into_snapshot (st_rank SE) (st_bits SE) ring;
         Some \<lparr>snap_graph_ids = snap_graph_ids snap @ [as_u8 g_id], snap_rings = snap_rings snap @ [r]\<rparr>})
       (st_order SE (dom gs)) \<lparr>snap_graph_ids = [], snap_rings = []\<rparr>"

definition snapshot_into_graphs :: "('r, 'v) store_snapshot \<Rightarrow> (graph_id \<rightharpoonup> ('r, 'v) graph_ring) option" where
  "snapshot_into_graphs snap =
     fold_opt (\<lambda>(g, r) gs. do {ring \<leftarrow> ring_from_snapshot r; Some (gs(GraphId g \<mapsto> ring))})
       (zip (snap_graph_ids snap) (snap_rings snap)) Map.empty"

text \<open>\<open>round_trip_and_maybe_save\<close> without a path.\<close>

definition round_trip ::
  "('l, 'v, 'c, 'r, 'b) store_env \<Rightarrow> (graph_id \<rightharpoonup> ('r, 'v) graph_ring) \<Rightarrow> (graph_id \<rightharpoonup> ('r, 'v) graph_ring) result option" where
  "round_trip SE gs =
     do {snap \<leftarrow> snapshot_from_graphs SE gs;
         case st_serialize SE snap of
           Inl e \<Rightarrow> Some (Inl e)
         | Inr buf \<Rightarrow>
             (case st_deserialize SE buf of
                Inl e \<Rightarrow> Some (Inl e)
              | Inr snap2 \<Rightarrow> map_option Inr (snapshot_into_graphs snap2))}"

definition commit_compaction ::
  "('l, 'v, 'c, 'r, 'b) store_env \<Rightarrow> ('l, 'v, 'c, 'r) louds_inner \<Rightarrow> (graph_id \<rightharpoonup> ('r, 'v) graph_ring) \<Rightarrow> bool \<Rightarrow>
   (('l, 'v, 'c, 'r) louds_inner, unit) outcome" where
  "commit_compaction SE s new_graphs clear_delta =
     do {res \<leftarrow> round_trip SE new_graphs;
         case res of
           Inl e \<Rightarrow> Some (s, Inl e)
         | Inr gs \<Rightarrow>
             let s = s\<lparr>graphs := gs\<rparr> in
             Some (if clear_delta then s\<lparr>delta_tier := delta_clear (delta_tier s)\<rparr> else s, Inr ())}"

definition build_graphs_from_triples ::
  "('l, 'v, 'c, 'r, 'b) store_env \<Rightarrow> (graph_id \<rightharpoonup> row list) \<Rightarrow> (graph_id \<rightharpoonup> ('r, 'v) graph_ring) option" where
  "build_graphs_from_triples SE per_graph =
     fold_opt (\<lambda>g_id new_graphs. do {
         triples \<leftarrow> per_graph g_id;
         if triples = [] then Some new_graphs
         else do {ring \<leftarrow> ring_build (st_rank SE) (st_bits SE) triples; Some (new_graphs(g_id \<mapsto> ring))}})
       (st_order SE (dom per_graph)) Map.empty"

text \<open>The triples of every index.\<close>

definition ring_triples ::
  "('l, 'v, 'c, 'r, 'b) store_env \<Rightarrow> ('l, 'v, 'c, 'r) louds_inner \<Rightarrow> (graph_id \<rightharpoonup> row list) option" where
  "ring_triples SE s =
     fold_opt (\<lambda>g_id per_graph. do {
         ring \<leftarrow> graphs s g_id;
         triples \<leftarrow> spo_triples (st_rank SE) (st_bits SE) ring;
         Some (per_graph(g_id \<mapsto> triples))})
       (st_order SE (dom (graphs s))) Map.empty"

definition or_default :: "(graph_id \<rightharpoonup> row list) \<Rightarrow> graph_id \<Rightarrow> row list" where
  "or_default m g = (case m g of None \<Rightarrow> [] | Some ts \<Rightarrow> ts)"

definition merge_entry :: "u128 \<times> bool \<Rightarrow> (graph_id \<rightharpoonup> row list) \<Rightarrow> (graph_id \<rightharpoonup> row list)" where
  "merge_entry e per_graph =
     (case e of (k, is_insert) \<Rightarrow> case unpack_quad k of (g_id, s_id, p_id, o_id) \<Rightarrow>
        let triples = or_default per_graph g_id;
            triple = (as_u64 s_id, as_u64 p_id, as_u64 o_id)
        in per_graph(g_id \<mapsto> (if is_insert then triples @ [triple] else filter (\<lambda>t. t \<noteq> triple) triples)))"

definition compact_locked ::
  "('l, 'v, 'c, 'r, 'b) store_env \<Rightarrow> ('l, 'v, 'c, 'r) louds_inner \<Rightarrow> (('l, 'v, 'c, 'r) louds_inner, unit) outcome" where
  "compact_locked SE s =
     do {per_graph \<leftarrow> ring_triples SE s;
         let per_graph = fold merge_entry (delta_iter (delta_tier s)) per_graph;
         new_graphs \<leftarrow> build_graphs_from_triples SE per_graph;
         seq (on_dict s (dict_compact (st_dict SE) (dict s))) (\<lambda>s _.
           commit_compaction SE s new_graphs True)}"

section \<open>Decoding\<close>

text \<open>\<open>TermId::new(raw)\<close> and \<open>get_term_arc\<close> for every identifier; decoding may change the cache.\<close>

fun decode_table ::
  "('l, 'v, 'c) dict_env \<Rightarrow> ('l, 'v, 'c) dictionary \<Rightarrow> nat list \<Rightarrow> 'l rdf_term option list \<Rightarrow>
   ('l rdf_term option list \<times> ('l, 'v, 'c) dictionary) option" where
  "decode_table E d [] table = Some (table, d)"
| "decode_table E d (raw # raws) table =
     (case term_id_new (of_nat raw) of
        Inl _ \<Rightarrow> decode_table E d raws (table @ [None])
      | Inr ti \<Rightarrow> do {(term, d) \<leftarrow> get_term_arc E d ti; decode_table E d raws (table @ [term])})"

definition build_decode_snapshot_from_dict ::
  "('l, 'v, 'c) dict_env \<Rightarrow> ('l, 'v, 'c) dictionary \<Rightarrow>
   ('l rdf_term option list \<times> ('l, 'v, 'c) dictionary) option" where
  "build_decode_snapshot_from_dict E d = decode_table E d [0..<dict_len d] []"

definition decode_stored_quad ::
  "('l, 'v, 'c) dict_env \<Rightarrow> ('l, 'v, 'c) dictionary \<Rightarrow> graph_id \<Rightarrow> term_id \<Rightarrow> term_id \<Rightarrow> term_id \<Rightarrow>
   ('l stored_quad option \<times> ('l, 'v, 'c) dictionary) option" where
  "decode_stored_quad E d g_id s_id p_id o_id =
     (case get_graph d g_id of
        None \<Rightarrow> Some (None, d)
      | Some graph_name \<Rightarrow> do {
          (s_term, d) \<leftarrow> get_term_arc E d s_id;
          case s_term of
            None \<Rightarrow> Some (None, d)
          | Some s_term \<Rightarrow> do {
              (p_term, d) \<leftarrow> get_term_arc E d p_id;
              case p_term of
                None \<Rightarrow> Some (None, d)
              | Some p_term \<Rightarrow> do {
                  (o_term, d) \<leftarrow> get_term_arc E d o_id;
                  case o_term of
                    None \<Rightarrow> Some (None, d)
                  | Some o_term \<Rightarrow>
                      (case s_term of
                         Literal _ \<Rightarrow> Some (None, d)
                       | _ \<Rightarrow>
                           (case p_term of
                              NamedNode _ \<Rightarrow>
                                Some (Some \<lparr>stored_subject = s_term, stored_predicate = p_term,
                                            stored_object = o_term, stored_graph = graph_name\<rparr>, d)
                            | _ \<Rightarrow> Some (None, d)))}}})"

section \<open>Queries\<close>

definition louds_contains ::
  "('l, 'v, 'c, 'r, 'b) store_env \<Rightarrow> ('l, 'v, 'c, 'r) louds_inner \<Rightarrow> 'l quad \<Rightarrow> bool result option" where
  "louds_contains SE s q =
     do {ids \<leftarrow> lookup_quad_ids SE s q;
         case ids of
           None \<Rightarrow> Some (Inr False)
         | Some (g_id, s_id, p_id, o_id) \<Rightarrow>
             (case delta_get (delta_tier s) (pack_quad g_id s_id p_id o_id) of
                Some True \<Rightarrow> Some (Inr True)
              | Some False \<Rightarrow> Some (Inr False)
              | None \<Rightarrow> map_option Inr (ring_has SE s g_id s_id p_id o_id))}"

definition louds_len :: "('l, 'v, 'c, 'r, 'b) store_env \<Rightarrow> ('l, 'v, 'c, 'r) louds_inner \<Rightarrow> nat result" where
  "louds_len SE s =
     (let ring_total = sum_list (map (\<lambda>g. case graphs s g of None \<Rightarrow> 0 | Some ring \<Rightarrow> gr_n ring)
                                  (st_order SE (dom (graphs s))));
          delta_inserts = insert_count (delta_tier s);
          delta_tombstones = tombstone_count (delta_tier s)
      in Inr (ring_total - delta_tombstones + delta_inserts))"

text \<open>
  What a pattern scan accumulates: the dictionary, whose cache decoding may change, the keys seen in the
  buffer, and the results.
\<close>

record ('l, 'v, 'c) scan_state =
  sc_dict :: "('l, 'v, 'c) dictionary"
  sc_seen :: "u128 set"
  sc_results :: "'l stored_quad list"

definition push_decoded ::
  "('l, 'v, 'c) dict_env \<Rightarrow> graph_id \<Rightarrow> term_id \<Rightarrow> term_id \<Rightarrow> term_id \<Rightarrow> ('l, 'v, 'c) scan_state \<Rightarrow>
   ('l, 'v, 'c) scan_state option" where
  "push_decoded E g_id s_id p_id o_id st =
     do {(sq, d) \<leftarrow> decode_stored_quad E (sc_dict st) g_id s_id p_id o_id;
         Some (st\<lparr>sc_dict := d,
                  sc_results := (case sq of None \<Rightarrow> sc_results st | Some sq \<Rightarrow> sc_results st @ [sq])\<rparr>)}"

definition scan_delta_entry ::
  "('l, 'v, 'c) dict_env \<Rightarrow> graph_id \<Rightarrow> term_id option \<Rightarrow> term_id option \<Rightarrow> term_id option \<Rightarrow> u128 \<times> bool \<Rightarrow>
   ('l, 'v, 'c) scan_state \<Rightarrow> ('l, 'v, 'c) scan_state option" where
  "scan_delta_entry E g_id s_id p_id o_id e st =
     (case e of (k, is_insert) \<Rightarrow>
        case unpack_quad k of (dk_g, dk_s, dk_p, dk_o) \<Rightarrow>
          if dk_g \<noteq> g_id then Some st
          else if \<not> is_none_or s_id (\<lambda>sv. dk_s = sv) then Some st
          else if \<not> is_none_or p_id (\<lambda>pv. dk_p = pv) then Some st
          else if \<not> is_none_or o_id (\<lambda>ov. dk_o = ov) then Some st
          else
            let st = st\<lparr>sc_seen := insert k (sc_seen st)\<rparr> in
            if is_insert then push_decoded E g_id dk_s dk_p dk_o st else Some st)"

text \<open>\<open>TermId::new(raw)\<close> with the fallback to identifier 0, and with a panic.\<close>

definition term_id_or_zero :: "u64 \<Rightarrow> term_id" where
  "term_id_or_zero raw = (case term_id_new raw of Inl _ \<Rightarrow> TermId 0 | Inr t \<Rightarrow> t)"

definition term_id_unwrap :: "u64 \<Rightarrow> term_id option" where
  "term_id_unwrap raw = (case term_id_new raw of Inl _ \<Rightarrow> None | Inr t \<Rightarrow> Some t)"

definition scan_ring_row ::
  "('l, 'v, 'c) dict_env \<Rightarrow> graph_id \<Rightarrow> row \<Rightarrow> ('l, 'v, 'c) scan_state \<Rightarrow> ('l, 'v, 'c) scan_state option" where
  "scan_ring_row E g_id r st =
     (case r of (rs, rp, ro) \<Rightarrow>
        if pack_quad g_id (term_id_or_zero rs) (term_id_or_zero rp) (term_id_or_zero ro) \<in> sc_seen st then Some st
        else do {
          s_id \<leftarrow> term_id_unwrap rs;
          p_id \<leftarrow> term_id_unwrap rp;
          o_id \<leftarrow> term_id_unwrap ro;
          push_decoded E g_id s_id p_id o_id st})"

definition scan_graph ::
  "('l, 'v, 'c, 'r, 'b) store_env \<Rightarrow> ('l, 'v, 'c, 'r) louds_inner \<Rightarrow> term_id option \<Rightarrow> term_id option \<Rightarrow> term_id option \<Rightarrow>
   graph_id \<Rightarrow> ('l, 'v, 'c) scan_state \<Rightarrow> ('l, 'v, 'c) scan_state option" where
  "scan_graph SE s s_id p_id o_id g_id st =
     (case graph_range g_id s_id p_id o_id of (lo, hi) \<Rightarrow> do {
        st \<leftarrow> fold_opt (scan_delta_entry (st_dict SE) g_id s_id p_id o_id) (range_inclusive (delta_tier s) lo hi) st;
        case graphs s g_id of
          None \<Rightarrow> Some st
        | Some ring \<Rightarrow> do {
            found \<leftarrow> match_triples (st_rank SE) (st_bits SE) ring
                      (map_option as_u64 s_id) (map_option as_u64 p_id) (map_option as_u64 o_id);
            fold_opt (scan_ring_row (st_dict SE) g_id) found st}})"

text \<open>The graphs a scan without a graph name visits.\<close>

definition known_graph_ids :: "('l, 'v, 'c, 'r) louds_inner \<Rightarrow> graph_id set" where
  "known_graph_ids s =
     insert GRAPH_DEFAULT (dom (graphs s)) \<union> named_graph_ids s \<union>
     set (map (\<lambda>(k, _). fst (unpack_quad k)) (delta_iter (delta_tier s)))"

text \<open>An optional pattern term: unbound, unknown to the dictionary, or its identifier.\<close>

definition pattern_id ::
  "('l, 'v, 'c) dict_env \<Rightarrow> ('l, 'v, 'c) dictionary \<Rightarrow> 'l rdf_term option \<Rightarrow> term_id option option option" where
  "pattern_id E d v =
     (case v of
        None \<Rightarrow> Some (Some None)
      | Some x \<Rightarrow> do {r \<leftarrow> dict_get_id E d x; Some (map_option Some r)})"

definition quads_for_pattern ::
  "('l, 'v, 'c, 'r, 'b) store_env \<Rightarrow> ('l, 'v, 'c, 'r) louds_inner \<Rightarrow> 'l rdf_term option \<Rightarrow> rstring option \<Rightarrow>
   'l rdf_term option \<Rightarrow> graph_name option \<Rightarrow> (('l, 'v, 'c, 'r) louds_inner, 'l stored_quad list) outcome" where
  "quads_for_pattern SE s sub pred ob gname =
     do {
       s_id \<leftarrow> pattern_id (st_dict SE) (dict s) sub;
       case s_id of None \<Rightarrow> Some (s, Inr []) | Some s_id \<Rightarrow> do {
       p_id \<leftarrow> pattern_id (st_dict SE) (dict s) (map_option NamedNode pred);
       case p_id of None \<Rightarrow> Some (s, Inr []) | Some p_id \<Rightarrow> do {
       o_id \<leftarrow> pattern_id (st_dict SE) (dict s) ob;
       case o_id of None \<Rightarrow> Some (s, Inr []) | Some o_id \<Rightarrow>
       (case (case gname of
                Some gn \<Rightarrow> map_option (\<lambda>g. [g]) (get_graph_id (dict s) gn)
              | None \<Rightarrow> Some (st_order SE (known_graph_ids s))) of
          None \<Rightarrow> Some (s, Inr [])
        | Some search_graphs \<Rightarrow> do {
            st \<leftarrow> fold_opt (scan_graph SE s s_id p_id o_id) search_graphs
                     \<lparr>sc_dict = dict s, sc_seen = {}, sc_results = []\<rparr>;
            Some (s\<lparr>dict := sc_dict st\<rparr>, Inr (sc_results st))})}}}"

definition louds_known_named_graphs ::
  "('l, 'v, 'c, 'r, 'b) store_env \<Rightarrow> ('l, 'v, 'c, 'r) louds_inner \<Rightarrow> graph_name list result" where
  "louds_known_named_graphs SE s =
     (let named = st_order SE (named_graph_ids s);
          rings = filter (\<lambda>g. \<not> is_default g \<and> g \<notin> set named) (st_order SE (dom (graphs s)))
      in Inr (List.map_filter (get_graph (dict s)) (named @ rings)))"

section \<open>The store\<close>

text \<open>After a write the published decode table is dropped when the write took effect.\<close>

definition louds_insert ::
  "('l, 'v, 'c, 'r, 'b) store_env \<Rightarrow> ('l, 'v, 'c, 'r) louds_store \<Rightarrow> 'l quad \<Rightarrow> (('l, 'v, 'c, 'r) louds_store, bool) outcome" where
  "louds_insert SE st q =
     seq (on_inner st (apply_insert SE (store_inner st) q)) (\<lambda>st result.
       Some (if result then st\<lparr>decode_snap := None\<rparr> else st, Inr result))"

definition louds_remove ::
  "('l, 'v, 'c, 'r, 'b) store_env \<Rightarrow> ('l, 'v, 'c, 'r) louds_store \<Rightarrow> 'l quad \<Rightarrow> (('l, 'v, 'c, 'r) louds_store, bool) outcome" where
  "louds_remove SE st q =
     seq (on_inner st (apply_remove SE (store_inner st) q)) (\<lambda>st result.
       Some (if result then st\<lparr>decode_snap := None\<rparr> else st, Inr result))"

text \<open>After a batch it is dropped when the buffer is not empty.\<close>

definition drop_if_dirty :: "('l, 'v, 'c, 'r) louds_store \<Rightarrow> ('l, 'v, 'c, 'r) louds_store" where
  "drop_if_dirty st =
     (if delta_is_empty (delta_tier (store_inner st)) then st else st\<lparr>decode_snap := None\<rparr>)"

definition louds_extend_boxed ::
  "('l, 'v, 'c, 'r, 'b) store_env \<Rightarrow> ('l, 'v, 'c, 'r) louds_store \<Rightarrow> 'l quad list \<Rightarrow> (('l, 'v, 'c, 'r) louds_store, nat) outcome" where
  "louds_extend_boxed SE st quads =
     (if quads = [] then Some (st, Inr 0)
      else seq (on_inner st (extend_loop (apply_insert SE) (store_inner st) quads 0)) (\<lambda>st count.
             Some (drop_if_dirty st, Inr count)))"

definition louds_apply_batch ::
  "('l, 'v, 'c, 'r, 'b) store_env \<Rightarrow> ('l, 'v, 'c, 'r) louds_store \<Rightarrow> 'l quad_op list \<Rightarrow>
   (('l, 'v, 'c, 'r) louds_store, nat \<times> nat) outcome" where
  "louds_apply_batch SE st ops =
     (if ops = [] then Some (st, Inr (0, 0))
      else seq (on_inner st (batch_loop (apply_insert SE) (apply_remove SE) (store_inner st) ops 0 0)) (\<lambda>st counts.
             Some (drop_if_dirty st, Inr counts)))"

definition louds_register_named_graph ::
  "('l, 'v, 'c, 'r) louds_store \<Rightarrow> graph_name \<Rightarrow> (('l, 'v, 'c, 'r) louds_store, unit) outcome" where
  "louds_register_named_graph st g = on_inner st (apply_register_graph (store_inner st) g)"

text \<open>Publishing the decode table of the current dictionary.\<close>

definition publish ::
  "('l, 'v, 'c, 'r, 'b) store_env \<Rightarrow> ('l, 'v, 'c, 'r) louds_store \<Rightarrow> ('l, 'v, 'c, 'r) louds_store option" where
  "publish SE st =
     do {(snap, d) \<leftarrow> build_decode_snapshot_from_dict (st_dict SE) (dict (store_inner st));
         Some (st\<lparr>store_inner := (store_inner st)\<lparr>dict := d\<rparr>, decode_snap := Some snap\<rparr>)}"

definition louds_compact ::
  "('l, 'v, 'c, 'r, 'b) store_env \<Rightarrow> ('l, 'v, 'c, 'r) louds_store \<Rightarrow> (('l, 'v, 'c, 'r) louds_store, unit) outcome" where
  "louds_compact SE st =
     seq (on_inner st (compact_locked SE (store_inner st))) (\<lambda>st _.
       map_option (\<lambda>st. (st, Inr ())) (publish SE st))"

text \<open>The interning loop of a bulk load.\<close>

fun bulk_loop ::
  "('l, 'v, 'c, 'r, 'b) store_env \<Rightarrow> ('l, 'v, 'c, 'r) louds_inner \<Rightarrow> (graph_id \<rightharpoonup> row list) \<Rightarrow> nat \<Rightarrow> 'l quad list \<Rightarrow>
   (('l, 'v, 'c, 'r) louds_inner, (graph_id \<rightharpoonup> row list) \<times> nat) outcome" where
  "bulk_loop SE s per_graph count [] = Some (s, Inr (per_graph, count))"
| "bulk_loop SE s per_graph count (q # quads) =
     seq (intern_quad_ids SE s q) (\<lambda>s (g_id, s_id, p_id, o_id).
       bulk_loop SE (note_graph q g_id s)
         (per_graph(g_id \<mapsto> or_default per_graph g_id @ [(as_u64 s_id, as_u64 p_id, as_u64 o_id)]))
         (count + 1) quads)"

definition louds_bulk_load ::
  "('l, 'v, 'c, 'r, 'b) store_env \<Rightarrow> ('l, 'v, 'c, 'r) louds_store \<Rightarrow> 'l quad list \<Rightarrow> (('l, 'v, 'c, 'r) louds_store, nat) outcome" where
  "louds_bulk_load SE st quads =
     do {per_graph \<leftarrow> ring_triples SE (store_inner st);
         seq (on_inner st (bulk_loop SE (store_inner st) per_graph 0 quads)) (\<lambda>st (per_graph, count). do {
           new_graphs \<leftarrow> build_graphs_from_triples SE per_graph;
           seq (on_inner st (on_dict (store_inner st) (dict_compact (st_dict SE) (dict (store_inner st))))) (\<lambda>st _.
           seq (on_inner st (commit_compaction SE (store_inner st) new_graphs False)) (\<lambda>st _.
             map_option (\<lambda>st. (st, Inr count)) (publish SE st)))})}"

section \<open>The join source\<close>

definition lftj_intern_term ::
  "('l, 'v, 'c, 'r, 'b) store_env \<Rightarrow> ('l, 'v, 'c, 'r) louds_store \<Rightarrow> 'l rdf_term \<Rightarrow> u64 option option" where
  "lftj_intern_term SE st term =
     map_option (map_option as_u64) (dict_get_id (st_dict SE) (dict (store_inner st)) term)"

definition lftj_decode_term ::
  "('l, 'v, 'c, 'r, 'b) store_env \<Rightarrow> ('l, 'v, 'c, 'r) louds_store \<Rightarrow> u64 \<Rightarrow>
   ('l rdf_term option \<times> ('l, 'v, 'c, 'r) louds_store) option" where
  "lftj_decode_term SE st i =
     (case decode_snap st of
        Some table \<Rightarrow> Some (case nth_opt table (unat i) of Some (Some t) \<Rightarrow> Some t | _ \<Rightarrow> None, st)
      | None \<Rightarrow>
          (case term_id_new i of
             Inl _ \<Rightarrow> Some (None, st)
           | Inr ti \<Rightarrow> do {
               (term, d) \<leftarrow> get_term_arc (st_dict SE) (dict (store_inner st)) ti;
               Some (term, st\<lparr>store_inner := (store_inner st)\<lparr>dict := d\<rparr>\<rparr>)}))"

definition lftj_graph_id :: "('l, 'v, 'c, 'r) louds_store \<Rightarrow> graph_name \<Rightarrow> u8 option" where
  "lftj_graph_id st g = map_option as_u8 (get_graph_id (dict (store_inner st)) g)"

definition lftj_estimate_count ::
  "('l, 'v, 'c, 'r) louds_store \<Rightarrow> u64 option \<Rightarrow> u64 option \<Rightarrow> u64 option \<Rightarrow> nat \<Rightarrow> u8 \<Rightarrow> u64 option" where
  "lftj_estimate_count st s p ob target_field g =
     (case graphs (store_inner st) (GraphId g) of
        None \<Rightarrow> Some 0
      | Some ring \<Rightarrow> estimate_count ring s p ob target_field)"

definition lftj_join_scan ::
  "('l, 'v, 'c, 'r, 'b) store_env \<Rightarrow> ('l, 'v, 'c, 'r) louds_store \<Rightarrow> u8 \<Rightarrow> ('r, 'v) cltj_trie_iter atom_scan" where
  "lftj_join_scan SE st g s p ob target_field =
     (case graphs (store_inner st) (GraphId g) of
        None \<Rightarrow> Some EmptyTrieIter
      | Some ring \<Rightarrow> ring_join_scan (st_rank SE) (st_bits SE) ring s p ob target_field)"

definition lftj_has_delta :: "('l, 'v, 'c, 'r) louds_store \<Rightarrow> bool" where
  "lftj_has_delta st \<longleftrightarrow> \<not> delta_is_empty (delta_tier (store_inner st))"

lemma finite_graph_ids [simp]: "finite (A :: graph_id set)"
proof (rule finite_subset)
  show "A \<subseteq> range GraphId" by (metis graph_id.collapse rangeI subsetI)
qed simp

section \<open>What a store holds\<close>

type_synonym id_quad = "graph_id \<times> term_id \<times> term_id \<times> term_id"

text \<open>The identifiers of a quad under a dictionary, its key in the buffer, its row in an index.\<close>

definition encodes :: "'l rdf_term list \<Rightarrow> ('l, 'v, 'c) dictionary \<Rightarrow> 'l quad \<Rightarrow> id_quad \<Rightarrow> bool" where
  "encodes ts d q x \<longleftrightarrow> (case x of (g, i, j, k) \<Rightarrow> get_graph_id d (quad_graph q) = Some g \<and>
     holds_at ts (subject_term (quad_subject q)) i \<and> holds_at ts (NamedNode (quad_predicate q)) j \<and>
     holds_at ts (quad_object q) k)"

definition id_key :: "id_quad \<Rightarrow> u128" where
  "id_key x = (case x of (g, i, j, k) \<Rightarrow> pack_quad g i j k)"

definition id_row :: "id_quad \<Rightarrow> row" where
  "id_row x = (case x of (g, i, j, k) \<Rightarrow> (as_u64 i, as_u64 j, as_u64 k))"

definition id_ok :: "id_quad \<Rightarrow> bool" where
  "id_ok x \<longleftrightarrow> (case x of (g, i, j, k) \<Rightarrow> term_id_ok i \<and> term_id_ok j \<and> term_id_ok k)"

lemmas id_defs = id_key_def id_row_def id_ok_def

lemma unpack_id_key [simp]: "id_ok x \<Longrightarrow> unpack_quad (id_key x) = x"
  by (cases x) (simp add: id_defs unpack_pack)

lemma id_key_unpack [simp]: "id_key (unpack_quad k) = k" and id_ok_unpack [simp]: "id_ok (unpack_quad k)"
  by (cases "unpack_quad k"; simp add: id_defs pack_unpack unpack_quad_ok)+

lemma id_key_inj: "id_ok x \<Longrightarrow> id_ok y \<Longrightarrow> id_key x = id_key y \<longleftrightarrow> x = y"
  by (metis unpack_id_key)

lemma id_row_inj: "fst x = fst y \<Longrightarrow> id_row x = id_row y \<longleftrightarrow> x = y"
  by (cases x; cases y) (auto simp: id_row_def term_id.expand)

lemma holds_at_ok: "length ts \<le> 2 ^ 40 \<Longrightarrow> holds_at ts x i \<Longrightarrow> term_id_ok i"
  using unat_tid by (fastforce simp: holds_at_def term_id_ok_unat)

text \<open>
  The write buffer decides for the quads it mentions, the indexes for the others; \<open>G\<close> are the rows of
  the index of each graph.
\<close>

definition live :: "(graph_id \<Rightarrow> row set) \<Rightarrow> delta \<Rightarrow> id_quad \<Rightarrow> bool" where
  "live G dl x \<longleftrightarrow> (case delta_get dl (id_key x) of Some b \<Rightarrow> b | None \<Rightarrow> id_row x \<in> G (fst x))"

definition store_rep ::
  "('l, 'v, 'c, 'r, 'b) store_env \<Rightarrow> ('c \<Rightarrow> term_id \<rightharpoonup> 'l rdf_term) \<Rightarrow> 'l rdf_term list \<Rightarrow> (graph_id \<Rightarrow> row set) \<Rightarrow>
   ('l, 'v, 'c, 'r) louds_inner \<Rightarrow> bool" where
  "store_rep SE contents ts G s \<longleftrightarrow>
     dict_rep (st_dict SE) contents ts (dict s) \<and> graphs_ok (dict s) \<and> delta_ok (delta_tier s) \<and>
     (\<forall>g. case graphs s g of None \<Rightarrow> G g = {} | Some ring \<Rightarrow> ring_ok (st_rank SE) (st_bits SE) (G g) ring) \<and>
     (\<forall>g. \<forall>r \<in> G g. \<exists>q x. encodes ts (dict s) q x \<and> fst x = g \<and> id_row x = r) \<and>
     (\<forall>k b. delta_get (delta_tier s) k = Some b \<longrightarrow> (\<exists>q. encodes ts (dict s) q (unpack_quad k)))"

definition store_set ::
  "'l rdf_term list \<Rightarrow> (graph_id \<Rightarrow> row set) \<Rightarrow> ('l, 'v, 'c, 'r) louds_inner \<Rightarrow> 'l quad set" where
  "store_set ts G s = {q. \<exists>x. encodes ts (dict s) q x \<and> live G (delta_tier s) x}"

lemma encodes_det:
  "distinct ts \<Longrightarrow> encodes ts d q x \<Longrightarrow> encodes ts d q y \<Longrightarrow> x = y"
  by (auto simp: encodes_def split: prod.splits intro: holds_at_unique)

lemma encodes_inj:
  assumes "length ts \<le> 2 ^ 40" "graphs_ok d" "encodes ts d q x" "encodes ts d q' x"
  shows "q = q'"
proof -
  obtain g i j k where x: "x = (g, i, j, k)" by (cases x)
  have h: "holds_at ts a c \<Longrightarrow> holds_at ts b c \<Longrightarrow> a = b" for a b c using holds_at_fun [OF assms(1)] by blast
  have g: "graph_to_id d a = Some g \<Longrightarrow> graph_to_id d b = Some g \<Longrightarrow> a = b" for a b
    using assms(2) by (simp add: graphs_ok_def)
  have "quad_graph q = quad_graph q'" "subject_term (quad_subject q) = (subject_term (quad_subject q') :: 'a rdf_term)"
    "quad_predicate q = quad_predicate q'" "quad_object q = quad_object q'"
    using assms(3,4) h g unfolding x encodes_def get_graph_id_def by (blast dest: h)+
  then show ?thesis by (cases q; cases q') (simp add: subject_term_inj)
qed

lemma encodes_ok: "length ts \<le> 2 ^ 40 \<Longrightarrow> encodes ts d q x \<Longrightarrow> id_ok x"
  by (auto simp: encodes_def id_ok_def holds_at_ok split: prod.splits)

lemma encodes_mono:
  assumes "encodes ts d q x" "\<And>g i. get_graph_id d g = Some i \<Longrightarrow> get_graph_id d' g = Some i"
  shows "encodes (ts @ us) d' q x"
  using assms by (auto simp: encodes_def holds_at_extends split: prod.splits)

lemma store_repD:
  assumes "store_rep SE contents ts G s"
  shows "dict_rep (st_dict SE) contents ts (dict s)" "graphs_ok (dict s)" "delta_ok (delta_tier s)"
    "graphs s g = None \<Longrightarrow> G g = {}" "graphs s g = Some ring \<Longrightarrow> ring_ok (st_rank SE) (st_bits SE) (G g) ring"
    "r \<in> G g \<Longrightarrow> \<exists>q x. encodes ts (dict s) q x \<and> fst x = g \<and> id_row x = r"
    "delta_get (delta_tier s) k = Some b \<Longrightarrow> \<exists>q. encodes ts (dict s) q (unpack_quad k)"
proof -
  note r = assms [unfolded store_rep_def]
  show "dict_rep (st_dict SE) contents ts (dict s)" "graphs_ok (dict s)" "delta_ok (delta_tier s)"
    using r by blast+
  show "graphs s g = None \<Longrightarrow> G g = {}" "graphs s g = Some ring \<Longrightarrow> ring_ok (st_rank SE) (st_bits SE) (G g) ring"
    using r by (auto dest!: spec [of _ g] simp del: split_paired_All)
  show "r \<in> G g \<Longrightarrow> \<exists>q x. encodes ts (dict s) q x \<and> fst x = g \<and> id_row x = r"
    "delta_get (delta_tier s) k = Some b \<Longrightarrow> \<exists>q. encodes ts (dict s) q (unpack_quad k)"
    using r by blast+
qed

lemma store_rep_terms: "store_rep SE contents ts G s \<Longrightarrow> length ts \<le> 2 ^ 40 \<and> distinct ts"
  by (simp add: store_rep_def dict_rep_def terms_ok_def)

text \<open>Everything live is the encoding of a quad.\<close>

lemma live_encodes:
  assumes "store_rep SE contents ts G s" "live G (delta_tier s) x" "id_ok x"
  shows "\<exists>q. encodes ts (dict s) q x"
proof (cases "delta_get (delta_tier s) (id_key x)")
  case None
  then have "id_row x \<in> G (fst x)" using assms(2) by (simp add: live_def)
  then show ?thesis using store_repD(6) [OF assms(1)] id_row_inj by metis
next
  case (Some b)
  then show ?thesis using store_repD(7) [OF assms(1) Some] assms(3) by simp
qed

text \<open>A larger dictionary that keeps the identifiers keeps the contents.\<close>

lemma store_rep_extend:
  assumes rep: "store_rep SE contents ts G s" and d: "dict_rep (st_dict SE) contents (ts @ us) d" "graphs_ok d"
    and old: "\<And>g i. get_graph_id (dict s) g = Some i \<Longrightarrow> get_graph_id d g = Some i"
  shows "store_rep SE contents (ts @ us) G (s\<lparr>dict := d\<rparr>)" "store_set (ts @ us) G (s\<lparr>dict := d\<rparr>) = store_set ts G s"
proof -
  have mono: "encodes ts (dict s) q x \<Longrightarrow> encodes (ts @ us) d q x" for q x by (rule encodes_mono [OF _ old])
  show rep': "store_rep SE contents (ts @ us) G (s\<lparr>dict := d\<rparr>)"
    using rep d mono unfolding store_rep_def by (simp, meson)
  have len: "length (ts @ us) \<le> 2 ^ 40" using store_rep_terms [OF rep'] by simp
  show "store_set (ts @ us) G (s\<lparr>dict := d\<rparr>) = store_set ts G s"
  proof (intro set_eqI iffI)
    fix q assume "q \<in> store_set (ts @ us) G (s\<lparr>dict := d\<rparr>)"
    then obtain x where x: "encodes (ts @ us) d q x" "live G (delta_tier s) x" by (auto simp: store_set_def)
    then obtain q' where q': "encodes ts (dict s) q' x"
      using live_encodes [OF rep x(2)] encodes_ok [OF len x(1)] by blast
    then have "q = q'" using encodes_inj [OF len d(2) x(1)] mono by blast
    then show "q \<in> store_set ts G s" using q' x(2) unfolding store_set_def by blast
  next
    fix q assume "q \<in> store_set ts G s"
    then show "q \<in> store_set (ts @ us) G (s\<lparr>dict := d\<rparr>)" using mono unfolding store_set_def
      by (simp del: split_paired_Ex split_paired_All) blast
  qed
qed

section \<open>Single writes\<close>

text \<open>Terms and quads the store takes: what Rust strings can represent.\<close>

definition quad_terms_ok :: "'l literal_api \<Rightarrow> 'l quad \<Rightarrow> bool" where
  "quad_terms_ok api q \<longleftrightarrow> flat_term api (subject_term (quad_subject q)) \<and>
     flat_term api (NamedNode (quad_predicate q)) \<and> term_ok api (quad_object q)"

definition quad_spec :: "'l rdf_term list \<Rightarrow> 'l quad \<Rightarrow> 'l rdf_term list" where
  "quad_spec ts q = intern_spec (add_term (NamedNode (quad_predicate q)) (add_term (subject_term (quad_subject q)) ts))
     (quad_object q)"

lemma quad_spec_extends: "\<exists>us. quad_spec ts q = ts @ us"
proof -
  obtain a b where "add_term (subject_term (quad_subject q)) ts = ts @ a"
    "add_term (NamedNode (quad_predicate q)) (ts @ a) = (ts @ a) @ b" by (metis add_term_def append_Nil2)
  then show ?thesis using intern_spec_extends [of "(ts @ a) @ b" "quad_object q"] by (auto simp: quad_spec_def)
qed

text \<open>The environment of a store: its dictionary and its indexes, a hash map that lists each of its
  keys once, and a serialisation that reads back what it wrote.\<close>

locale louds_env = dict_context "st_dict SE" contents + sux "st_rank SE" "st_bits SE"
  for SE :: "('l, 'v, 'c, 'r, 'b) store_env" and contents :: "'c \<Rightarrow> term_id \<rightharpoonup> 'l rdf_term" +
  assumes order_set: "set (st_order SE A) = A"
    and order_distinct: "distinct (st_order SE A)"
    and serde: "\<exists>buf. st_serialize SE snap = Inr buf \<and> st_deserialize SE buf = Inr snap"
begin

lemma ring_has_iff:
  assumes "store_rep SE contents ts G s"
  shows "ring_has SE s g i j k = Some (id_row (g, i, j, k) \<in> G g)"
proof (cases "graphs s g")
  case None
  then show ?thesis using store_repD(4) [OF assms] by (simp add: ring_has_def)
next
  case (Some ring)
  then show ?thesis
    using contains_iff [OF store_repD(5) [OF assms Some]] by (simp add: ring_has_def id_row_def)
qed

lemma lookup_known:
  assumes rep: "store_rep SE contents ts G s" and ok: "quad_terms_ok (env_lit (st_dict SE)) q"
    and known: "is_triple (quad_object q) \<Longrightarrow> quad_object q \<in> set ts \<or> None \<notin> set (id_to_term (dict s))"
  shows "\<exists>r. lookup_quad_ids SE s q = Some r \<and> (\<forall>x. r = Some x \<longleftrightarrow> encodes ts (dict s) q x)"
proof -
  note d = store_repD(1) [OF rep]
  have t: "term_ok (env_lit (st_dict SE)) (subject_term (quad_subject q))"
    "term_ok (env_lit (st_dict SE)) (NamedNode (quad_predicate q))" "term_ok (env_lit (st_dict SE)) (quad_object q)"
    using ok by (auto simp: quad_terms_ok_def term_ok_flat)
  obtain rs where s: "dict_get_id (st_dict SE) (dict s) (subject_term (quad_subject q)) = Some rs"
    "\<forall>i. rs = Some i \<longleftrightarrow> holds_at ts (subject_term (quad_subject q)) i" using get_id_correct [OF d t(1)] by auto
  obtain rp where p: "dict_get_id (st_dict SE) (dict s) (NamedNode (quad_predicate q)) = Some rp"
    "\<forall>i. rp = Some i \<longleftrightarrow> holds_at ts (NamedNode (quad_predicate q)) i" using get_id_correct [OF d t(2)] by auto
  obtain ro where o: "dict_get_id (st_dict SE) (dict s) (quad_object q) = Some ro"
    "\<forall>i. ro = Some i \<longleftrightarrow> holds_at ts (quad_object q) i" using get_id_correct [OF d t(3) known] by auto
  have h: "holds_at ts (subject_term (quad_subject q)) i \<longleftrightarrow> rs = Some i"
    "holds_at ts (NamedNode (quad_predicate q)) i \<longleftrightarrow> rp = Some i" "holds_at ts (quad_object q) i \<longleftrightarrow> ro = Some i" for i
    using s(2) p(2) o(2) by blast+
  show ?thesis
    by (cases "get_graph_id (dict s) (quad_graph q)"; cases rs; cases rp; cases ro)
      (auto simp: lookup_quad_ids_def encodes_def h s(1) p(1) o(1))
qed

text \<open>A lookup that returns identifiers is right, known object or not.\<close>

lemma lookup_encodes:
  assumes rep: "store_rep SE contents ts G s" and ok: "quad_terms_ok (env_lit (st_dict SE)) q"
  shows "lookup_quad_ids SE s q = Some (Some x) \<longleftrightarrow> encodes ts (dict s) q x"
proof (cases "is_triple (quad_object q) \<longrightarrow> quad_object q \<in> set ts \<or> None \<notin> set (id_to_term (dict s))")
  case True
  then obtain r where r: "lookup_quad_ids SE s q = Some r" "\<forall>x. r = Some x \<longleftrightarrow> encodes ts (dict s) q x"
    using lookup_known [OF rep ok] by blast
  then show ?thesis unfolding r(1) option.inject by blast
next
  case False
  then have "dict_get_id (st_dict SE) (dict s) (quad_object q) = None"
    using get_id_panics [OF store_repD(1) [OF rep]] by blast
  then have "lookup_quad_ids SE s q \<noteq> Some (Some x)"
    by (auto simp: lookup_quad_ids_def split: option.splits bind_splits)
  moreover have "\<not> encodes ts (dict s) q x" using False by (auto simp: encodes_def dest: holds_at_mem)
  ultimately show ?thesis by blast
qed

text \<open>The writes on the buffer change one quad.\<close>

lemma store_set_write:
  assumes rep: "store_rep SE contents ts G s" and q: "encodes ts (dict s) q x"
  shows "store_rep SE contents ts G (s\<lparr>delta_tier := insert_key (delta_tier s) (id_key x)\<rparr>)"
    "store_set ts G (s\<lparr>delta_tier := insert_key (delta_tier s) (id_key x)\<rparr>) = insert q (store_set ts G s)"
    "store_rep SE contents ts G (s\<lparr>delta_tier := tombstone_key (delta_tier s) (id_key x)\<rparr>)"
    "store_set ts G (s\<lparr>delta_tier := tombstone_key (delta_tier s) (id_key x)\<rparr>) = store_set ts G s - {q}"
proof -
  note len = store_rep_terms [OF rep]
  have dl: "delta_ok (delta_tier s)" by (rule store_repD(3) [OF rep])
  have x: "id_ok x" using encodes_ok q len by blast
  have other: "id_key y = id_key x \<longleftrightarrow> q' = q" if "encodes ts (dict s) q' y" for q' y
    using id_key_inj [OF encodes_ok [OF _ that] x] len encodes_inj [OF _ store_repD(2) [OF rep], of ts q y q'] q that
      encodes_det [of ts "dict s" q x y] by blast
  note get = lsm.get_ins [OF dl] lsm.get_del [OF dl]
  show "store_rep SE contents ts G (s\<lparr>delta_tier := insert_key (delta_tier s) (id_key x)\<rparr>)"
    "store_rep SE contents ts G (s\<lparr>delta_tier := tombstone_key (delta_tier s) (id_key x)\<rparr>)"
    using rep q x lsm.ok_ins [OF dl] lsm.ok_del [OF dl] unfolding store_rep_def
    by (auto simp: get simp del: split_paired_Ex split: if_splits)
  have "q' \<in> store_set ts G (s\<lparr>delta_tier := insert_key (delta_tier s) (id_key x)\<rparr>) \<longleftrightarrow> q' = q \<or> q' \<in> store_set ts G s" for q'
    using other [of q'] q unfolding store_set_def live_def
    by (auto simp: get simp del: split_paired_Ex split_paired_All)
  then show "store_set ts G (s\<lparr>delta_tier := insert_key (delta_tier s) (id_key x)\<rparr>) = insert q (store_set ts G s)" by blast
  have "q' \<in> store_set ts G (s\<lparr>delta_tier := tombstone_key (delta_tier s) (id_key x)\<rparr>) \<longleftrightarrow> q' \<noteq> q \<and> q' \<in> store_set ts G s" for q'
    using other [of q'] q unfolding store_set_def live_def
    by (auto simp: get simp del: split_paired_Ex split_paired_All) metis
  then show "store_set ts G (s\<lparr>delta_tier := tombstone_key (delta_tier s) (id_key x)\<rparr>) = store_set ts G s - {q}" by blast
qed

lemma store_set_encoded:
  "store_rep SE contents ts G s \<Longrightarrow> encodes ts (dict s) q x \<Longrightarrow> q \<in> store_set ts G s \<longleftrightarrow> live G (delta_tier s) x"
  using encodes_det store_rep_terms unfolding store_set_def by blast

end

text \<open>The contents of a store, as the code reports them.\<close>

definition quads_of :: "('l, 'v, 'c, 'r, 'b) store_env \<Rightarrow> ('l, 'v, 'c, 'r) louds_inner \<Rightarrow> 'l quad set" where
  "quads_of SE s = {q. quad_terms_ok (env_lit (st_dict SE)) q \<and> louds_contains SE s q = Some (Inr True)}"

text \<open>
  What a batch needs: representable terms, room for the new terms and graph names (\<open>2 ^ 40\<close> and 256
  identifiers), and no removal that names an unknown quoted triple.
\<close>

fun batch_fits :: "'l literal_api \<Rightarrow> 'l rdf_term list \<Rightarrow> graph_name set \<Rightarrow> 'l quad_op list \<Rightarrow> bool" where
  "batch_fits api ts gs [] \<longleftrightarrow> True"
| "batch_fits api ts gs (OpInsert q # ops) \<longleftrightarrow> quad_terms_ok api q \<and> length (quad_spec ts q) \<le> 2 ^ 40 \<and>
     card (insert (quad_graph q) gs) \<le> 256 \<and> batch_fits api (quad_spec ts q) (insert (quad_graph q) gs) ops"
| "batch_fits api ts gs (OpRemove q # ops) \<longleftrightarrow> quad_terms_ok api q \<and>
     (is_triple (quad_object q) \<longrightarrow> quad_object q \<in> set ts) \<and> batch_fits api ts gs ops"

definition store_admits ::
  "('l, 'v, 'c, 'r, 'b) store_env \<Rightarrow> ('c \<Rightarrow> term_id \<rightharpoonup> 'l rdf_term) \<Rightarrow> 'l quad_op list \<Rightarrow> ('l, 'v, 'c, 'r) louds_inner \<Rightarrow> bool" where
  "store_admits SE contents ops s \<longleftrightarrow> (\<exists>ts G. store_rep SE contents ts G s \<and>
     batch_fits (env_lit (st_dict SE)) ts (dom (graph_to_id (dict s))) ops)"

lemma card_graph_ids: "card (UNIV :: graph_id set) = 256"
proof -
  have "bij_betw GraphId UNIV UNIV" by (rule bij_betw_byWitness [where f' = as_u8]) auto
  then have "card (UNIV :: graph_id set) = card (UNIV :: u8 set)" using bij_betw_same_card by metis
  then show ?thesis by (simp add: card_word)
qed

lemma graph_names_card:
  assumes "graphs_ok d"
  shows "card (dom (graph_to_id d)) \<le> 256" "DefaultGraph \<in> dom (graph_to_id d)"
proof -
  have "inj_on (\<lambda>h. the (graph_to_id d h)) (dom (graph_to_id d))"
  proof (rule inj_onI)
    fix a b assume "a \<in> dom (graph_to_id d)" "b \<in> dom (graph_to_id d)" "the (graph_to_id d a) = the (graph_to_id d b)"
    then obtain i where "graph_to_id d a = Some i" "graph_to_id d b = Some i" by auto
    then show "a = b" using assms by (simp add: graphs_ok_def)
  qed
  then show "card (dom (graph_to_id d)) \<le> 256" using card_inj_on_le [of _ _ UNIV] card_graph_ids by fastforce
  show "DefaultGraph \<in> dom (graph_to_id d)" using assms by (auto simp: graphs_ok_def)
qed

lemma intern_graph_room:
  assumes ok: "graphs_ok d" and room: "card (insert g (dom (graph_to_id d))) \<le> 256"
  obtains d' i where "intern_graph d g = (d', Inr i)" "dom (graph_to_id d') = insert g (dom (graph_to_id d))"
proof (cases "intern_graph d g")
  case (Pair d' r)
  show ?thesis
  proof (cases r)
    case (Inr i)
    have "dom (graph_to_id d') = insert g (dom (graph_to_id d))"
      using Pair Inr by (auto simp: intern_graph_def Let_def split: option.splits if_splits)
    then show ?thesis using Pair Inr that by blast
  next
    case (Inl e)
    have full: "graph_to_id d g = None" "\<forall>i. get_graph d i \<noteq> None"
      using intern_graph_error [OF ok] Pair Inl by (auto simp: get_graph_id_def)
    have inv: "graph_to_id d h = Some i \<longleftrightarrow> get_graph d i = Some h" for h i
      using ok by (simp add: graphs_ok_def get_graph_def)
    have i: "\<exists>h. get_graph d i = Some h \<and> graph_to_id d h = Some i" for i using full(2) inv by blast
    have "bij_betw (\<lambda>i. the (get_graph d i)) UNIV (dom (graph_to_id d))"
    proof (rule bij_betw_byWitness [where f' = "\<lambda>h. the (graph_to_id d h)"])
      show "\<forall>a \<in> UNIV. the (graph_to_id d (the (get_graph d a))) = a" using i by (metis option.sel)
      show "\<forall>h \<in> dom (graph_to_id d). the (get_graph d (the (graph_to_id d h))) = h" using inv by (metis domD option.sel)
      show "range (\<lambda>i. the (get_graph d i)) \<subseteq> dom (graph_to_id d)" using i by (metis domI image_subsetI option.sel)
    qed simp
    then have "card (dom (graph_to_id d)) = 256" "finite (dom (graph_to_id d))"
      using bij_betw_same_card card_graph_ids bij_betw_finite finite_graph_ids by metis+
    then show ?thesis using room full(1) by (simp add: domIff)
  qed
qed

context louds_env
begin

lemma intern_step:
  assumes "dict_rep (st_dict SE) contents ts d" "term_ok (env_lit (st_dict SE)) x" "length (intern_spec ts x) \<le> 2 ^ 40"
  obtains d' i where "dict_intern (st_dict SE) d x = Some (d', Inr i)" "dict_rep (st_dict SE) contents (intern_spec ts x) d'"
    "holds_at (intern_spec ts x) x i" "graph_tables d' = graph_tables d"
  using intern_correct [OF assms(1,2)] assms(3) dict_intern_tables by (fastforce simp: interned_def)

lemma intern_quad_ok:
  assumes rep: "store_rep SE contents ts G s" and ok: "quad_terms_ok (env_lit (st_dict SE)) q"
    and room: "length (quad_spec ts q) \<le> 2 ^ 40" "card (insert (quad_graph q) (dom (graph_to_id (dict s)))) \<le> 256"
  obtains d' x where "intern_quad_ids SE s q = Some (s\<lparr>dict := d'\<rparr>, Inr x)"
    "store_rep SE contents (quad_spec ts q) G (s\<lparr>dict := d'\<rparr>)" "encodes (quad_spec ts q) d' q x"
    "store_set (quad_spec ts q) G (s\<lparr>dict := d'\<rparr>) = store_set ts G s"
    "dom (graph_to_id d') = insert (quad_graph q) (dom (graph_to_id (dict s)))"
    "\<forall>h i. get_graph_id (dict s) h = Some i \<longrightarrow> get_graph_id d' h = Some i"
proof -
  let ?E = "st_dict SE" and ?s = "subject_term (quad_subject q)" and ?p = "NamedNode (quad_predicate q)"
  let ?t1 = "add_term ?s ts" and ?t2 = "add_term ?p (add_term ?s ts)" and ?t3 = "quad_spec ts q"
  have t: "term_ok (env_lit ?E) ?s" "term_ok (env_lit ?E) ?p" "term_ok (env_lit ?E) (quad_object q)"
    using ok by (auto simp: quad_terms_ok_def term_ok_flat)
  have spec: "intern_spec ts ?s = ?t1" "intern_spec ?t1 ?p = ?t2" "intern_spec ?t2 (quad_object q) = ?t3"
    by (simp_all add: intern_spec_flat quad_spec_def)
  have len: "length ?t2 \<le> 2 ^ 40" "length ?t1 \<le> 2 ^ 40"
    using room(1) length_intern_spec [of ?t2 "quad_object q"] length_add_term [of ?t1 ?p] by (auto simp: spec(3))
  obtain d0 g where g: "intern_graph (dict s) (quad_graph q) = (d0, Inr g)"
    "dom (graph_to_id d0) = insert (quad_graph q) (dom (graph_to_id (dict s)))"
    using intern_graph_room [OF store_repD(2) [OF rep] room(2)] .
  note g0 = intern_graph_ok [OF store_repD(2) [OF rep] g(1)] intern_graph_rep [OF g(1) store_repD(1) [OF rep]]
  obtain d1 i where i: "dict_intern ?E d0 ?s = Some (d1, Inr i)" "dict_rep ?E contents ?t1 d1" "holds_at ?t1 ?s i"
    "graph_tables d1 = graph_tables d0"
    by (rule intern_step [OF g0(2) t(1), unfolded spec(1), OF len(2)])
  obtain d2 j where j: "dict_intern ?E d1 ?p = Some (d2, Inr j)" "dict_rep ?E contents ?t2 d2" "holds_at ?t2 ?p j"
    "graph_tables d2 = graph_tables d1"
    by (rule intern_step [OF i(2) t(2), unfolded spec(2), OF len(1)])
  obtain d3 k where k: "dict_intern ?E d2 (quad_object q) = Some (d3, Inr k)" "dict_rep ?E contents ?t3 d3"
    "holds_at ?t3 (quad_object q) k" "graph_tables d3 = graph_tables d2"
    by (rule intern_step [OF j(2) t(3), unfolded spec(3), OF room(1)])
  have tables: "graph_tables d3 = graph_tables d0" using i(4) j(4) k(4) by simp
  note gt = graph_tables_graphs [OF tables]
  obtain us where us: "?t3 = ts @ us" using quad_spec_extends by blast
  have "store_rep SE contents (ts @ us) G (s\<lparr>dict := d3\<rparr>)" "store_set (ts @ us) G (s\<lparr>dict := d3\<rparr>) = store_set ts G s"
    using store_rep_extend [OF rep k(2) [unfolded us]] g0(1) unfolding gt by blast+
  moreover have "holds_at ?t3 ?s i" "holds_at ?t3 ?p j"
    using holds_at_intern_spec [OF holds_at_add_term [OF i(3)], of ?p "quad_object q"]
      holds_at_intern_spec [OF j(3), of "quad_object q"] by (simp_all add: spec(3))
  then have "encodes ?t3 d3 q (g, i, j, k)" using g0(1) gt k(3) by (simp add: encodes_def)
  moreover have "intern_quad_ids SE s q = Some (s\<lparr>dict := d3\<rparr>, Inr (g, i, j, k))"
    using g(1) i(1) j(1) k(1) by (simp add: intern_quad_ids_def on_dict_def intern_predicate_def)
  moreover have "graph_to_id d3 = graph_to_id d0" using tables by (simp add: graph_tables_def)
  moreover have "\<forall>h a. get_graph_id (dict s) h = Some a \<longrightarrow> get_graph_id d3 h = Some a"
    using g0(1) gt(2) by simp
  ultimately show ?thesis using that us g(2) by simp
qed

lemma contains_store_set:
  assumes rep: "store_rep SE contents ts G s" and ok: "quad_terms_ok (env_lit (st_dict SE)) q"
    and known: "is_triple (quad_object q) \<Longrightarrow> quad_object q \<in> set ts \<or> None \<notin> set (id_to_term (dict s))"
  shows "louds_contains SE s q = Some (Inr (q \<in> store_set ts G s))"
proof -
  obtain r where r: "lookup_quad_ids SE s q = Some r" "\<forall>x. r = Some x \<longleftrightarrow> encodes ts (dict s) q x"
    using lookup_known [OF assms] by blast
  show ?thesis
  proof (cases r)
    case None
    then have "q \<notin> store_set ts G s" using r(2) unfolding store_set_def by blast
    then show ?thesis using r(1) None by (simp add: louds_contains_def)
  next
    case (Some x)
    obtain g i j k where x: "x = (g, i, j, k)" by (cases x)
    have "encodes ts (dict s) q x" using r(2) Some by blast
    then have "q \<in> store_set ts G s \<longleftrightarrow> live G (delta_tier s) x" by (rule store_set_encoded [OF rep])
    then show ?thesis
      using r(1) Some ring_has_iff [OF rep]
      by (auto simp: louds_contains_def live_def id_key_def x split: option.splits bool.splits)
  qed
qed

end

context louds_env
begin

lemma note_graph_keeps [simp]: "dict (note_graph q g s) = dict s" "graphs (note_graph q g s) = graphs s"
  "delta_tier (note_graph q g s) = delta_tier s"
  by (simp_all add: note_graph_def split: graph_name.splits)

lemma note_graph_rep [simp]: "store_rep SE contents ts G (note_graph q g s) = store_rep SE contents ts G s"
  "store_set ts G (note_graph q g s) = store_set ts G s"
  by (simp_all add: store_rep_def store_set_def)

lemma apply_insert_ok:
  assumes rep: "store_rep SE contents ts G s" and ok: "quad_terms_ok (env_lit (st_dict SE)) q"
    and room: "length (quad_spec ts q) \<le> 2 ^ 40" "card (insert (quad_graph q) (dom (graph_to_id (dict s)))) \<le> 256"
  shows "\<exists>s'. apply_insert SE s q = Some (s', Inr (q \<notin> store_set ts G s)) \<and> store_rep SE contents (quad_spec ts q) G s' \<and>
    store_set (quad_spec ts q) G s' = insert q (store_set ts G s) \<and>
    dom (graph_to_id (dict s')) = insert (quad_graph q) (dom (graph_to_id (dict s)))"
proof -
  let ?ts = "quad_spec ts q"
  obtain d' x where i: "intern_quad_ids SE s q = Some (s\<lparr>dict := d'\<rparr>, Inr x)"
    "store_rep SE contents ?ts G (s\<lparr>dict := d'\<rparr>)" "encodes ?ts d' q x"
    "store_set ?ts G (s\<lparr>dict := d'\<rparr>) = store_set ts G s"
    "dom (graph_to_id d') = insert (quad_graph q) (dom (graph_to_id (dict s)))"
    by (rule intern_quad_ok [OF assms])
  let ?s = "s\<lparr>dict := d'\<rparr>"
  obtain g a b c where x: "x = (g, a, b, c)" by (cases x)
  have k: "pack_quad g a b c = id_key x" by (simp add: x id_key_def)
  have e: "encodes ?ts (dict ?s) q x" using i(3) by simp
  note live = store_set_encoded [OF i(2) e]
  note w = store_set_write(1,2) [OF i(2) e]
  have has: "ring_has SE ?s g a b c = Some (id_row x \<in> G g)" using ring_has_iff [OF i(2)] by (simp add: x)
  consider "delta_get (delta_tier s) (id_key x) = Some True" | "delta_get (delta_tier s) (id_key x) = Some False"
    | "delta_get (delta_tier s) (id_key x) = None" by (cases "delta_get (delta_tier s) (id_key x)") auto
  then show ?thesis
  proof cases
    case 1
    then have "q \<in> store_set ts G s" using live i(4) by (simp add: live_def)
    moreover have "apply_insert SE s q = Some (?s, Inr False)" using i(1) 1 by (simp add: apply_insert_def Let_def x k)
    ultimately show ?thesis using i(2,4,5) by auto
  next
    case 2
    then have "q \<notin> store_set ts G s" using live i(4) by (simp add: live_def)
    moreover have "apply_insert SE s q = Some (?s\<lparr>delta_tier := insert_key (delta_tier s) (id_key x)\<rparr>, Inr True)"
      using i(1) 2 by (simp add: apply_insert_def Let_def x k)
    ultimately show ?thesis using w i(4,5) by simp
  next
    case 3
    then have "q \<in> store_set ts G s \<longleftrightarrow> id_row x \<in> G g" using live i(4) by (simp add: live_def x)
    then show ?thesis
      using i 3 w has by (cases "id_row x \<in> G g") (auto simp: apply_insert_def Let_def x k insert_absorb)
  qed
qed

lemma apply_remove_ok:
  assumes rep: "store_rep SE contents ts G s" and ok: "quad_terms_ok (env_lit (st_dict SE)) q"
    and known: "is_triple (quad_object q) \<longrightarrow> quad_object q \<in> set ts"
  shows "\<exists>s'. apply_remove SE s q = Some (s', Inr (q \<in> store_set ts G s)) \<and> store_rep SE contents ts G s' \<and>
    store_set ts G s' = store_set ts G s - {q} \<and> dict s' = dict s"
proof -
  obtain r where r: "lookup_quad_ids SE s q = Some r" "\<forall>x. r = Some x \<longleftrightarrow> encodes ts (dict s) q x"
    using lookup_known [OF rep ok] known by blast
  show ?thesis
  proof (cases r)
    case None
    then have "q \<notin> store_set ts G s" using r(2) unfolding store_set_def by blast
    then show ?thesis using r(1) None rep by (simp add: apply_remove_def)
  next
    case (Some x)
    obtain g a b c where x: "x = (g, a, b, c)" by (cases x)
    have k: "pack_quad g a b c = id_key x" by (simp add: x id_key_def)
    have e: "encodes ts (dict s) q x" using r(2) Some by blast
    note live = store_set_encoded [OF rep e]
    note w = store_set_write(3,4) [OF rep e]
    have has: "ring_has SE s g a b c = Some (id_row x \<in> G g)" using ring_has_iff [OF rep] by (simp add: x)
    show ?thesis
      using r(1) Some rep w live has
      by (cases "delta_get (delta_tier s) (id_key x)"; cases "id_row x \<in> G g")
        (auto simp: apply_remove_def Let_def x k live_def split: bool.splits)
  qed
qed

text \<open>\<open>contains\<close> reports the contents; it never claims a quad it does not hold, not even where it panics.\<close>

lemma store_set_ok:
  assumes "store_rep SE contents ts G s" "q \<in> store_set ts G s"
  shows "quad_terms_ok (env_lit (st_dict SE)) q \<and> quad_object q \<in> set ts"
proof -
  have "\<forall>x \<in> set ts. term_ok (env_lit (st_dict SE)) x" using store_repD(1) [OF assms(1)] by (simp add: dict_rep_def terms_ok_def)
  moreover have "subject_term (quad_subject q) \<in> set ts" "NamedNode (quad_predicate q) \<in> set ts" "quad_object q \<in> set ts"
    using assms(2) by (auto simp: store_set_def encodes_def dest: holds_at_mem)
  ultimately show ?thesis by (auto simp: quad_terms_ok_def term_ok_flat [symmetric])
qed

lemma quads_of_store_set:
  assumes rep: "store_rep SE contents ts G s"
  shows "quads_of SE s = store_set ts G s"
proof (intro set_eqI iffI)
  fix q assume "q \<in> quads_of SE s"
  then have ok: "quad_terms_ok (env_lit (st_dict SE)) q" and c: "louds_contains SE s q = Some (Inr True)"
    by (simp_all add: quads_of_def)
  then obtain x where "lookup_quad_ids SE s q = Some (Some x)"
    by (auto simp: louds_contains_def split: bind_splits option.splits)
  then have "encodes ts (dict s) q x" using lookup_encodes [OF rep ok] by blast
  then have "quad_object q \<in> set ts" by (auto simp: encodes_def dest: holds_at_mem)
  then show "q \<in> store_set ts G s" using contains_store_set [OF rep ok] c by simp
next
  fix q assume q: "q \<in> store_set ts G s"
  show "q \<in> quads_of SE s"
    using store_set_ok [OF rep q] contains_store_set [OF rep, of q] q by (simp add: quads_of_def)
qed

end

text \<open>A store meets the storage contract.\<close>

sublocale louds_env \<subseteq> batch: quad_store "apply_insert SE" "apply_remove SE" "quads_of SE" "store_admits SE contents"
proof unfold_locales
  fix q ops s
  assume "store_admits SE contents (OpInsert q # ops) s"
  then obtain ts G where a: "store_rep SE contents ts G s" "quad_terms_ok (env_lit (st_dict SE)) q"
    "length (quad_spec ts q) \<le> 2 ^ 40" "card (insert (quad_graph q) (dom (graph_to_id (dict s)))) \<le> 256"
    "batch_fits (env_lit (st_dict SE)) (quad_spec ts q) (insert (quad_graph q) (dom (graph_to_id (dict s)))) ops"
    by (auto simp: store_admits_def)
  show "\<exists>s'. apply_insert SE s q = Some (s', Inr (q \<notin> quads_of SE s)) \<and> quads_of SE s' = insert q (quads_of SE s) \<and>
      store_admits SE contents ops s'"
    using apply_insert_ok [OF a(1-4)] a(5) quads_of_store_set [OF a(1)] quads_of_store_set
    unfolding store_admits_def by metis
next
  fix q ops s
  assume "store_admits SE contents (OpRemove q # ops) s"
  then obtain ts G where a: "store_rep SE contents ts G s" "quad_terms_ok (env_lit (st_dict SE)) q"
    "is_triple (quad_object q) \<longrightarrow> quad_object q \<in> set ts"
    "batch_fits (env_lit (st_dict SE)) ts (dom (graph_to_id (dict s))) ops"
    by (auto simp: store_admits_def)
  show "\<exists>s'. apply_remove SE s q = Some (s', Inr (q \<in> quads_of SE s)) \<and> quads_of SE s' = quads_of SE s - {q} \<and>
      store_admits SE contents ops s'"
    using apply_remove_ok [OF a(1-3)] a(4) quads_of_store_set [OF a(1)] quads_of_store_set
    unfolding store_admits_def by metis
qed

context louds_env
begin

lemma store_rep_new: "store_rep SE contents [] (\<lambda>_. {}) (inner_new SE)"
  using rep_new graphs_ok_new by (simp add: store_rep_def inner_new_def delta_defs)

lemma quads_of_new: "quads_of SE (inner_new SE) = {}"
  unfolding quads_of_store_set [OF store_rep_new] by (simp add: store_set_def encodes_def holds_at_def split_beta)

lemma louds_apply_batch_ok:
  assumes "store_admits SE contents ops (store_inner st)"
  shows "\<exists>st'. louds_apply_batch SE st ops = Some (st', Inr (op_counts ops (quads_of SE (store_inner st)))) \<and>
    quads_of SE (store_inner st') = fold op_set ops (quads_of SE (store_inner st)) \<and> store_admits SE contents [] (store_inner st')"
proof -
  obtain s where "batch_loop (apply_insert SE) (apply_remove SE) (store_inner st) ops 0 0 =
      Some (s, Inr (op_counts ops (quads_of SE (store_inner st))))"
    "quads_of SE s = fold op_set ops (quads_of SE (store_inner st))" "store_admits SE contents [] s"
    using batch.batch_loop_correct [OF assms, of 0 0] by auto
  then show ?thesis using assms by (cases "ops = []") (auto simp: louds_apply_batch_def on_inner_def drop_if_dirty_def)
qed

end

section \<open>An environment\<close>

definition example_store_env where
  "example_store_env = \<lparr>st_dict = example_env, st_rank = list_rank_select, st_serialize = Inr, st_deserialize = Inr,
     st_order = sorted_list_of_set\<rparr>"

interpretation example_store: louds_env example_store_env list_contents
  by (intro louds_env.intro louds_env_axioms.intro)
    (use list_sux.sux_axioms example_dict.dict_context_axioms in \<open>simp_all add: example_store_env_def example_env_def\<close>)

text \<open>A quad of the default graph, with one-letter names.\<close>

definition letter_quad :: "u8 \<Rightarrow> rdf_literal quad" where
  "letter_quad n = \<lparr>quad_subject = SubjNamed [97], quad_predicate = [98], quad_object = NamedNode [n], quad_graph = DefaultGraph\<rparr>"

lemma letter_quad_inj: "letter_quad a = letter_quad b \<longleftrightarrow> a = b"
  by (simp add: letter_quad_def)

lemma letter_quad_ok: "n < 128 \<Longrightarrow> quad_terms_ok example_literals (letter_quad n)"
  by (simp add: letter_quad_def quad_terms_ok_def)

lemma letter_quad_spec:
  "quad_spec [] (letter_quad 99) = [NamedNode [97], NamedNode [98], NamedNode [99]]"
  "quad_spec [NamedNode [97], NamedNode [98], NamedNode [99]] (letter_quad 100) =
    [NamedNode [97], NamedNode [98], NamedNode [99], NamedNode [100]]"
  "quad_spec [NamedNode [97], NamedNode [98], NamedNode [99], NamedNode [100]] (letter_quad 99) =
    [NamedNode [97], NamedNode [98], NamedNode [99], NamedNode [100]]"
  by (simp_all add: quad_spec_def letter_quad_def intern_spec_def add_term_def)

lemma example_admits:
  "store_admits example_store_env list_contents
     [OpInsert (letter_quad 99), OpInsert (letter_quad 100), OpInsert (letter_quad 99), OpRemove (letter_quad 99)]
     (inner_new example_store_env)"
proof -
  have "dom (graph_to_id (dict (inner_new example_store_env))) = {DefaultGraph}"
    by (auto simp: inner_new_def dict_new_def)
  moreover have "env_lit (st_dict example_store_env) = example_literals" by (simp add: example_store_env_def example_env_def)
  moreover have "quad_graph (letter_quad n) = DefaultGraph" "\<not> is_triple (quad_object (letter_quad n))" for n
    by (simp_all add: letter_quad_def)
  ultimately show ?thesis
    unfolding store_admits_def using example_store.store_rep_new letter_quad_ok
    by (intro exI [of _ "[]"] exI [of _ "\<lambda>_. {}"]) (simp add: letter_quad_spec)
qed

section \<open>Properties\<close>

text \<open>
  (C6) The store implements the storage contract: a batch of insertions and removals leaves the store
  with exactly the quads that the operations produce on a set, and reports how many insertions and removals
  took effect. The batch needs representable terms and free identifiers, and may not remove a quad whose
  object is a quoted triple the store has never seen.
\<close>

theorem store_batch_refines:
  assumes "louds_env SE contents" and "store_admits SE contents ops (store_inner st)"
  shows "\<exists>st'. louds_apply_batch SE st ops = Some (st', Inr (op_counts ops (quads_of SE (store_inner st)))) \<and>
    quads_of SE (store_inner st') = fold op_set ops (quads_of SE (store_inner st)) \<and> store_admits SE contents [] (store_inner st')"
  by (rule louds_env.louds_apply_batch_ok [OF assms])

theorem store_batch_refines_witness:
  "\<exists>st'. louds_apply_batch example_store_env (louds_new example_store_env)
      [OpInsert (letter_quad 99), OpInsert (letter_quad 100), OpInsert (letter_quad 99), OpRemove (letter_quad 99)] =
      Some (st', Inr (2, 1)) \<and> quads_of example_store_env (store_inner st') = {letter_quad 100}"
proof -
  let ?ops = "[OpInsert (letter_quad 99), OpInsert (letter_quad 100), OpInsert (letter_quad 99), OpRemove (letter_quad 99)]"
  have new: "store_inner (louds_new example_store_env) = inner_new example_store_env" by (simp add: louds_new_def)
  have "op_counts ?ops {} = (2, 1)" "fold op_set ?ops {} = {letter_quad 100}"
    by (auto simp: letter_quad_inj)
  then show ?thesis
    using store_batch_refines [OF example_store.louds_env_axioms, of ?ops "louds_new example_store_env"] example_admits
      example_store.quads_of_new unfolding new by auto
qed

end
