(* ===== verification/StoreQuery.thy ===== *)
theory StoreQuery
  imports Store
begin

text \<open>
  Pattern queries of the LOUDS store: the scan of the write buffer and the indexes of the searched
  graphs returns each matching quad of the store once.
\<close>

section \<open>Decoding\<close>

lemma holds_at_nth_opt: "length ts \<le> 2 ^ 40 \<Longrightarrow> holds_at ts x i \<Longrightarrow> nth_opt ts (unat (as_u64 i)) = Some x"
  by (auto simp: holds_at_def unat_tid nth_opt_def)

context louds_env
begin

lemma decode_step:
  assumes "dict_rep (st_dict SE) contents ts d" "holds_at ts x i"
  obtains d' where "get_term_arc (st_dict SE) d i = Some (Some x, d')" "dict_rep (st_dict SE) contents ts d'"
    "graph_tables d' = graph_tables d"
proof -
  obtain d' where d': "get_term_arc (st_dict SE) d i = Some (nth_opt ts (unat (as_u64 i)), d')"
    "dict_rep (st_dict SE) contents ts d'" using get_term_arc_correct [OF assms(1)] by blast
  then show ?thesis
    using that holds_at_nth_opt [OF rep_length [OF assms(1)] assms(2)] get_term_arc_tables [OF d'(1)] by simp
qed

lemma decode_stored_quad_ok:
  assumes rep: "dict_rep (st_dict SE) contents ts d" and ok: "graphs_ok d" and q: "encodes ts d q (g, i, j, k)"
  obtains d' where "decode_stored_quad (st_dict SE) d g i j k = Some (Some (stored_quad_from q), d')"
    "dict_rep (st_dict SE) contents ts d'" "graph_tables d' = graph_tables d"
proof -
  have e: "holds_at ts (subject_term (quad_subject q)) i" "holds_at ts (NamedNode (quad_predicate q)) j"
    "holds_at ts (quad_object q) k" and g: "get_graph d g = Some (quad_graph q)"
    using q ok by (auto simp: encodes_def graphs_ok_def get_graph_def get_graph_id_def)
  obtain d1 where d1: "get_term_arc (st_dict SE) d i = Some (Some (subject_term (quad_subject q)), d1)"
    "dict_rep (st_dict SE) contents ts d1" "graph_tables d1 = graph_tables d" by (rule decode_step [OF rep e(1)])
  obtain d2 where d2: "get_term_arc (st_dict SE) d1 j = Some (Some (NamedNode (quad_predicate q)), d2)"
    "dict_rep (st_dict SE) contents ts d2" "graph_tables d2 = graph_tables d1" by (rule decode_step [OF d1(2) e(2)])
  obtain d3 where d3: "get_term_arc (st_dict SE) d2 k = Some (Some (quad_object q), d3)"
    "dict_rep (st_dict SE) contents ts d3" "graph_tables d3 = graph_tables d2" by (rule decode_step [OF d2(2) e(3)])
  have "decode_stored_quad (st_dict SE) d g i j k = Some (Some (stored_quad_from q), d3)"
    using g d1(1) d2(1) d3(1)
    by (cases "quad_subject q") (simp_all add: decode_stored_quad_def stored_quad_from_def)
  then show ?thesis using that d1(3) d2(3) d3(2,3) by simp
qed

end

section \<open>Scans\<close>

text \<open>What a scan has emitted: the decoded quads of a list of identifiers.\<close>

definition emits :: "'l rdf_term list \<Rightarrow> ('l, 'v, 'c) dictionary \<Rightarrow> id_quad list \<Rightarrow> 'l stored_quad list \<Rightarrow> bool" where
  "emits ts d xs out \<longleftrightarrow> list_all2 (\<lambda>x sq. \<exists>q. encodes ts d q x \<and> sq = stored_quad_from q) xs out"

lemma emits_simps [simp]: "emits ts d [] []" "emits ts d xs out \<Longrightarrow> emits ts d ys out' \<Longrightarrow> emits ts d (xs @ ys) (out @ out')"
  by (auto simp: emits_def intro: list_all2_appendI)

definition id_match :: "term_id option \<Rightarrow> term_id option \<Rightarrow> term_id option \<Rightarrow> id_quad \<Rightarrow> bool" where
  "id_match s p ob x \<longleftrightarrow> (case x of (g, i, j, k) \<Rightarrow>
     is_none_or s (\<lambda>v. i = v) \<and> is_none_or p (\<lambda>v. j = v) \<and> is_none_or ob (\<lambda>v. k = v))"

lemma live_iff:
  "live G dl x \<longleftrightarrow> delta_get dl (id_key x) = Some True \<or> delta_get dl (id_key x) = None \<and> id_row x \<in> G (fst x)"
  by (auto simp: live_def split: option.splits)

definition scan_ok ::
  "('l, 'v, 'c, 'r, 'b) store_env \<Rightarrow> ('c \<Rightarrow> term_id \<rightharpoonup> 'l rdf_term) \<Rightarrow> 'l rdf_term list \<Rightarrow> ('l, 'v, 'c, 'r) louds_inner \<Rightarrow>
   ('l, 'v, 'c) scan_state \<Rightarrow> bool" where
  "scan_ok SE contents ts s st \<longleftrightarrow>
     dict_rep (st_dict SE) contents ts (sc_dict st) \<and> graph_tables (sc_dict st) = graph_tables (dict s)"

text \<open>A step of a scan: it keeps the invariant, records the keys \<open>K\<close> and emits \<open>xs\<close>.\<close>

definition scan_step ::
  "('l, 'v, 'c, 'r, 'b) store_env \<Rightarrow> ('c \<Rightarrow> term_id \<rightharpoonup> 'l rdf_term) \<Rightarrow> 'l rdf_term list \<Rightarrow> ('l, 'v, 'c, 'r) louds_inner \<Rightarrow>
   u128 set \<Rightarrow> id_quad list \<Rightarrow> ('l, 'v, 'c) scan_state \<Rightarrow> ('l, 'v, 'c) scan_state option \<Rightarrow> bool" where
  "scan_step SE contents ts s K xs st res \<longleftrightarrow> (\<exists>st' out. res = Some st' \<and> scan_ok SE contents ts s st' \<and>
     sc_seen st' = sc_seen st \<union> K \<and> sc_results st' = sc_results st @ out \<and> emits ts (dict s) xs out)"

lemma scan_stepI: "scan_ok SE contents ts s st \<Longrightarrow> scan_step SE contents ts s {} [] st (Some st)"
  by (simp add: scan_step_def)

lemma scan_step_bind:
  assumes "scan_step SE contents ts s K xs st res"
    and "\<And>st'. res = Some st' \<Longrightarrow> scan_ok SE contents ts s st' \<Longrightarrow> sc_seen st' = sc_seen st \<union> K \<Longrightarrow>
      scan_step SE contents ts s K' ys st' (f st')"
  shows "scan_step SE contents ts s (K \<union> K') (xs @ ys) st (res \<bind> f)"
proof -
  obtain st' out where st': "res = Some st'" "scan_ok SE contents ts s st'" "sc_seen st' = sc_seen st \<union> K"
    "sc_results st' = sc_results st @ out" "emits ts (dict s) xs out" using assms(1) by (auto simp: scan_step_def)
  obtain st2 out2 where "f st' = Some st2" "scan_ok SE contents ts s st2" "sc_seen st2 = sc_seen st' \<union> K'"
    "sc_results st2 = sc_results st' @ out2" "emits ts (dict s) ys out2"
    using assms(2) [OF st'(1-3)] by (auto simp: scan_step_def)
  then show ?thesis using st' by (auto simp: scan_step_def)
qed

context louds_env
begin

lemma push_step:
  assumes rep: "store_rep SE contents ts G s" and st: "scan_ok SE contents ts s st" and q: "encodes ts (dict s) q (g, i, j, k)"
  shows "scan_step SE contents ts s {} [(g, i, j, k)] st (push_decoded (st_dict SE) g i j k st)"
proof -
  have d: "dict_rep (st_dict SE) contents ts (sc_dict st)" "graph_tables (sc_dict st) = graph_tables (dict s)"
    using st by (simp_all add: scan_ok_def)
  note g = graph_tables_graphs [OF d(2)]
  obtain d' where "decode_stored_quad (st_dict SE) (sc_dict st) g i j k = Some (Some (stored_quad_from q), d')"
    "dict_rep (st_dict SE) contents ts d'" "graph_tables d' = graph_tables (sc_dict st)"
    using decode_stored_quad_ok [OF d(1), of q g i j k] q store_repD(2) [OF rep] g by (auto simp: encodes_def)
  then show ?thesis
    using d(2) q by (auto simp: scan_step_def push_decoded_def scan_ok_def emits_def simp del: split_paired_Ex)
qed

lemma delta_entry_step:
  assumes rep: "store_rep SE contents ts G s" and st: "scan_ok SE contents ts s st"
    and e: "delta_get (delta_tier s) k = Some b"
  shows "scan_step SE contents ts s (if fst (unpack_quad k) = g \<and> id_match si p ob (unpack_quad k) then {k} else {})
    (if fst (unpack_quad k) = g \<and> id_match si p ob (unpack_quad k) \<and> b then [unpack_quad k] else [])
    st (scan_delta_entry (st_dict SE) g si p ob (k, b) st)"
proof -
  obtain g' a c d where k: "unpack_quad k = (g', a, c, d)" by (cases "unpack_quad k")
  obtain q where q: "encodes ts (dict s) q (unpack_quad k)" using store_repD(7) [OF rep e] by blast
  let ?st = "st\<lparr>sc_seen := insert k (sc_seen st)\<rparr>"
  have ok: "scan_ok SE contents ts s ?st" using st by (simp add: scan_ok_def)
  show ?thesis
  proof (cases "g' = g \<and> id_match si p ob (unpack_quad k)")
    case False
    then show ?thesis
      using k scan_stepI [OF st] by (auto simp: scan_delta_entry_def id_match_def)
  next
    case True
    then have m: "g' = g" "is_none_or si (\<lambda>v. a = v)" "is_none_or p (\<lambda>v. c = v)" "is_none_or ob (\<lambda>v. d = v)"
      by (auto simp: k id_match_def)
    have "scan_delta_entry (st_dict SE) g si p ob (k, b) st =
        (if b then push_decoded (st_dict SE) g a c d ?st else Some ?st)"
      using m by (simp add: scan_delta_entry_def k Let_def)
    then show ?thesis
      using push_step [OF rep ok, of q g a c d] q ok True k m(1) by (auto simp: scan_step_def)
  qed
qed

lemma delta_scan:
  assumes rep: "store_rep SE contents ts G s" and st: "scan_ok SE contents ts s st"
    and es: "\<forall>(k, b) \<in> set es. delta_get (delta_tier s) k = Some b"
  shows "scan_step SE contents ts s {k \<in> fst ` set es. fst (unpack_quad k) = g \<and> id_match si p ob (unpack_quad k)}
    (map (\<lambda>e. unpack_quad (fst e)) (filter (\<lambda>(k, b). fst (unpack_quad k) = g \<and> id_match si p ob (unpack_quad k) \<and> b) es))
    st (fold_opt (scan_delta_entry (st_dict SE) g si p ob) es st)"
  using st es
proof (induction es arbitrary: st)
  case Nil
  then show ?case using scan_stepI by simp
next
  case (Cons e es)
  obtain k b where e: "e = (k, b)" by (cases e)
  let ?m = "\<lambda>k. fst (unpack_quad k) = g \<and> id_match si p ob (unpack_quad k)"
  have "scan_step SE contents ts s ((if ?m k then {k} else {}) \<union> {k \<in> fst ` set es. ?m k})
    ((if ?m k \<and> b then [unpack_quad k] else []) @
      map (\<lambda>e. unpack_quad (fst e)) (filter (\<lambda>(k, b). fst (unpack_quad k) = g \<and> id_match si p ob (unpack_quad k) \<and> b) es))
    st (scan_delta_entry (st_dict SE) g si p ob (k, b) st \<bind> fold_opt (scan_delta_entry (st_dict SE) g si p ob) es)"
  proof (rule scan_step_bind)
    have "delta_get (delta_tier s) k = Some b" using Cons.prems(2) e by simp
    then show "scan_step SE contents ts s (if ?m k then {k} else {}) (if ?m k \<and> b then [unpack_quad k] else [])
        st (scan_delta_entry (st_dict SE) g si p ob (k, b) st)"
      using delta_entry_step [OF rep Cons.prems(1)] by simp
  qed (use Cons.IH Cons.prems(2) in simp)
  moreover have "(if ?m k then {k} else {}) \<union> {k \<in> fst ` set es. ?m k} = {k \<in> fst ` set (e # es). ?m k}"
    by (auto simp: e)
  ultimately show ?case by (cases "?m k"; cases b) (auto simp: e)
qed

end

text \<open>The rows of an index are in-range identifiers of its graph.\<close>

definition id_of :: "graph_id \<Rightarrow> row \<Rightarrow> id_quad" where
  "id_of g r = (case r of (a, b, c) \<Rightarrow> (g, TermId a, TermId b, TermId c))"

lemma id_of_row [simp]: "id_row (id_of g r) = r" "fst (id_of g r) = g" "id_of (fst x) (id_row x) = x"
  by (cases r; cases x; simp add: id_of_def id_row_def)+

lemma inj_id_of: "inj_on (id_of g) A"
  by (rule inj_on_inverseI [where g = id_row]) simp

lemma matches_id: "matches (map_option as_u64 s) (map_option as_u64 p) (map_option as_u64 ob) (id_row x) \<longleftrightarrow> id_match s p ob x"
  by (cases x; cases s; cases p; cases ob)
    (auto simp: matches_def id_match_def id_row_def is_none_or_def term_id.expand)

lemma term_id_new_in_range: "term_id_ok (TermId a) \<Longrightarrow> term_id_new a = Inr (TermId a)"
  by (simp add: term_id_new_def term_id_ok_def)

context louds_env
begin

lemma ring_row_encodes:
  assumes rep: "store_rep SE contents ts G s" and "r \<in> G g"
  obtains q where "encodes ts (dict s) q (id_of g r)" "id_ok (id_of g r)"
proof -
  obtain q x where x: "encodes ts (dict s) q x" "fst x = g" "id_row x = r" using store_repD(6) [OF assms] by blast
  then have "x = id_of g r" using id_of_row(3) by metis
  then show ?thesis using that x(1) encodes_ok store_rep_terms [OF rep] by blast
qed

lemma ring_row_step:
  assumes rep: "store_rep SE contents ts G s" and st: "scan_ok SE contents ts s st" and r: "r \<in> G g"
  shows "scan_step SE contents ts s {} (if id_key (id_of g r) \<in> sc_seen st then [] else [id_of g r])
    st (scan_ring_row (st_dict SE) g r st)"
proof -
  obtain a b c where abc: "r = (a, b, c)" by (cases r)
  obtain q where q: "encodes ts (dict s) q (id_of g r)" "id_ok (id_of g r)" by (rule ring_row_encodes [OF rep r])
  have ok: "term_id_ok (TermId a)" "term_id_ok (TermId b)" "term_id_ok (TermId c)"
    using q(2) by (auto simp: abc id_of_def id_ok_def)
  note new = ok [THEN term_id_new_in_range]
  have "scan_ring_row (st_dict SE) g r st = (if id_key (id_of g r) \<in> sc_seen st then Some st
      else push_decoded (st_dict SE) g (TermId a) (TermId b) (TermId c) st)"
    by (simp add: scan_ring_row_def abc id_of_def id_key_def term_id_or_zero_def term_id_unwrap_def new)
  then show ?thesis
    using push_step [OF rep st, of q g "TermId a" "TermId b" "TermId c"] q(1) scan_stepI [OF st]
    by (simp add: abc id_of_def)
qed

lemma ring_scan:
  assumes rep: "store_rep SE contents ts G s" and st: "scan_ok SE contents ts s st" and rs: "set rs \<subseteq> G g"
  shows "scan_step SE contents ts s {} (filter (\<lambda>x. id_key x \<notin> sc_seen st) (map (id_of g) rs))
    st (fold_opt (scan_ring_row (st_dict SE) g) rs st)"
  using st rs
proof (induction rs arbitrary: st)
  case Nil
  then show ?case using scan_stepI by simp
next
  case (Cons r rs)
  have "scan_step SE contents ts s ({} \<union> {})
    ((if id_key (id_of g r) \<in> sc_seen st then [] else [id_of g r]) @ filter (\<lambda>x. id_key x \<notin> sc_seen st) (map (id_of g) rs))
    st (scan_ring_row (st_dict SE) g r st \<bind> fold_opt (scan_ring_row (st_dict SE) g) rs)"
  proof (rule scan_step_bind)
    show "scan_step SE contents ts s {} (if id_key (id_of g r) \<in> sc_seen st then [] else [id_of g r])
        st (scan_ring_row (st_dict SE) g r st)"
      by (rule ring_row_step [OF rep Cons.prems(1)]) (use Cons.prems(2) in simp)
    fix st' assume st': "scan_ok SE contents ts s st'" "sc_seen st' = sc_seen st \<union> {}"
    show "scan_step SE contents ts s {} (filter (\<lambda>x. id_key x \<notin> sc_seen st) (map (id_of g) rs))
        st' (fold_opt (scan_ring_row (st_dict SE) g) rs st')"
      using Cons.IH [OF st'(1)] Cons.prems(2) st'(2) by simp
  qed
  then show ?case by (auto split: if_splits)
qed

text \<open>The scan of one graph emits its live, matching quads, each once.\<close>

lemma scan_graph_step:
  assumes rep: "store_rep SE contents ts G s" and st: "scan_ok SE contents ts s st"
    and ok: "\<And>t. t \<in> set_option si \<union> set_option p \<union> set_option ob \<Longrightarrow> term_id_ok t"
    and new: "\<forall>k \<in> sc_seen st. fst (unpack_quad k) \<noteq> g"
  shows "\<exists>K xs. scan_step SE contents ts s K xs st (scan_graph SE s si p ob g st) \<and> (\<forall>k \<in> K. fst (unpack_quad k) = g) \<and>
    distinct xs \<and> set xs = {x. id_ok x \<and> fst x = g \<and> live G (delta_tier s) x \<and> id_match si p ob x}"
proof -
  let ?m = "\<lambda>k. fst (unpack_quad k) = g \<and> id_match si p ob (unpack_quad k)"
  obtain lo hi where range: "graph_range g si p ob = (lo, hi)" by (cases "graph_range g si p ob")
  let ?es = "range_inclusive (delta_tier s) lo hi"
  have dl: "delta_ok (delta_tier s)" by (rule store_repD(3) [OF rep])
  have in_range: "lo \<le> k \<and> k \<le> hi" if "?m k" for k
    using graph_range_iff [OF _ _ _ range, of k] ok that
    by (cases "unpack_quad k") (auto simp: id_match_def is_none_or_def split: option.splits)
  have es: "set ?es = {(k, b). delta_get (delta_tier s) k = Some b \<and> lo \<le> k \<and> k \<le> hi}"
    by (rule set_range_inclusive [OF dl])
  let ?K = "{k \<in> fst ` set ?es. ?m k}"
  let ?xs = "map (\<lambda>e. unpack_quad (fst e)) (filter (\<lambda>(k, b). fst (unpack_quad k) = g \<and> id_match si p ob (unpack_quad k) \<and> b) ?es)"
  have K: "k \<in> ?K \<longleftrightarrow> ?m k \<and> delta_get (delta_tier s) k \<noteq> None" for k
    using in_range unfolding es by (force simp: image_iff)
  have xs_set: "set ?xs = {x. id_ok x \<and> fst x = g \<and> id_match si p ob x \<and> delta_get (delta_tier s) (id_key x) = Some True}"
  proof (intro set_eqI iffI)
    fix x assume "x \<in> set ?xs"
    then show "x \<in> {x. id_ok x \<and> fst x = g \<and> id_match si p ob x \<and> delta_get (delta_tier s) (id_key x) = Some True}"
      unfolding set_map set_filter es by (auto simp del: split_paired_Ex split_paired_All)
  next
    fix x assume "x \<in> {x. id_ok x \<and> fst x = g \<and> id_match si p ob x \<and> delta_get (delta_tier s) (id_key x) = Some True}"
    then have "(id_key x, True) \<in> {e \<in> set ?es. case e of (k, b) \<Rightarrow> fst (unpack_quad k) = g \<and> id_match si p ob (unpack_quad k) \<and> b}"
      using in_range [of "id_key x"] unfolding es by simp
    then show "x \<in> set ?xs"
      using \<open>x \<in> _\<close> unfolding set_map set_filter by (intro image_eqI [of _ _ "(id_key x, True)"]) simp_all
  qed
  have xs_distinct: "distinct ?xs"
  proof -
    have "distinct (map fst (filter (\<lambda>(k, b). fst (unpack_quad k) = g \<and> id_match si p ob (unpack_quad k) \<and> b) ?es))"
      using range_inclusive_distinct [OF dl] by (rule distinct_map_filter)
    moreover have "inj unpack_quad" by (rule inj_on_inverseI [where g = id_key]) simp
    ultimately show ?thesis by (auto simp: distinct_map inj_on_def)
  qed
  let ?D = "fold_opt (scan_delta_entry (st_dict SE) g si p ob) ?es st"
  have scan: "scan_step SE contents ts s ?K ?xs st ?D" by (rule delta_scan [OF rep st]) (auto simp: es)
  show ?thesis
  proof (cases "graphs s g")
    case None
    then have "G g = {}" by (rule store_repD(4) [OF rep])
    then have "set ?xs = {x. id_ok x \<and> fst x = g \<and> live G (delta_tier s) x \<and> id_match si p ob x}"
      unfolding xs_set live_iff by blast
    moreover have "scan_graph SE s si p ob g st = ?D" by (simp add: scan_graph_def range None)
    ultimately show ?thesis using scan xs_distinct by (intro exI [of _ ?K] exI [of _ ?xs]) auto
  next
    case (Some ring)
    obtain found where found: "match_triples (st_rank SE) (st_bits SE) ring (map_option as_u64 si) (map_option as_u64 p)
        (map_option as_u64 ob) = Some found" "distinct found"
      "set found = {r \<in> G g. matches (map_option as_u64 si) (map_option as_u64 p) (map_option as_u64 ob) r}"
      using match_triples_set [OF store_repD(5) [OF rep Some]] by blast
    let ?ys = "filter (\<lambda>x. id_key x \<notin> sc_seen st \<union> ?K) (map (id_of g) found)"
    have "scan_step SE contents ts s (?K \<union> {}) (?xs @ ?ys) st (?D \<bind> fold_opt (scan_ring_row (st_dict SE) g) found)"
    proof (rule scan_step_bind [OF scan])
      fix st' assume st': "scan_ok SE contents ts s st'" "sc_seen st' = sc_seen st \<union> ?K"
      show "scan_step SE contents ts s {} ?ys st' (fold_opt (scan_ring_row (st_dict SE) g) found st')"
        using ring_scan [OF rep st'(1), of found g] unfolding st'(2) found(3) by blast
    qed
    moreover have "scan_graph SE s si p ob g st = ?D \<bind> fold_opt (scan_ring_row (st_dict SE) g) found"
      by (simp add: scan_graph_def range Some found(1))
    ultimately have step: "scan_step SE contents ts s ?K (?xs @ ?ys) st (scan_graph SE s si p ob g st)" by simp
    have ys: "set ?ys = {x. id_ok x \<and> fst x = g \<and> id_match si p ob x \<and> delta_get (delta_tier s) (id_key x) = None \<and> id_row x \<in> G g}"
    proof (intro set_eqI iffI)
      fix x assume "x \<in> set ?ys"
      then obtain r where r: "x = id_of g r" "r \<in> set found" "id_key x \<notin> sc_seen st \<union> ?K" by auto
      then have "r \<in> G g" "matches (map_option as_u64 si) (map_option as_u64 p) (map_option as_u64 ob) (id_row x)"
        unfolding found(3) by auto
      moreover have "id_ok x" using ring_row_encodes [OF rep \<open>r \<in> G g\<close>] r(1) by blast
      ultimately show "x \<in> {x. id_ok x \<and> fst x = g \<and> id_match si p ob x \<and> delta_get (delta_tier s) (id_key x) = None \<and> id_row x \<in> G g}"
        using r(1,3) K [of "id_key x"] unfolding matches_id by auto
    next
      fix x
      assume x: "x \<in> {x. id_ok x \<and> fst x = g \<and> id_match si p ob x \<and> delta_get (delta_tier s) (id_key x) = None \<and> id_row x \<in> G g}"
      then have "id_row x \<in> set found" unfolding found(3) by (simp add: matches_id)
      moreover have "id_key x \<notin> sc_seen st \<union> ?K" using x new K [of "id_key x"] by auto
      moreover have "x = id_of g (id_row x)" using x id_of_row(3) by force
      ultimately show "x \<in> set ?ys" by auto
    qed
    have "distinct ?ys" using found(2) by (intro distinct_filter) (simp add: distinct_map inj_id_of)
    then have "distinct (?xs @ ?ys)" using xs_distinct unfolding distinct_append xs_set ys by auto
    moreover have "set (?xs @ ?ys) = {x. id_ok x \<and> fst x = g \<and> live G (delta_tier s) x \<and> id_match si p ob x}"
      unfolding set_append xs_set ys live_iff by blast
    ultimately show ?thesis using step by (intro exI [of _ ?K] exI [of _ "?xs @ ?ys"]) auto
  qed
qed

end

section \<open>Queries\<close>

context louds_env
begin

lemma scan_graphs_step:
  assumes rep: "store_rep SE contents ts G s" and st: "scan_ok SE contents ts s st"
    and ok: "\<And>t. t \<in> set_option si \<union> set_option p \<union> set_option ob \<Longrightarrow> term_id_ok t"
    and new: "\<forall>k \<in> sc_seen st. fst (unpack_quad k) \<notin> set gs" and "distinct gs"
  shows "\<exists>K xs. scan_step SE contents ts s K xs st (fold_opt (scan_graph SE s si p ob) gs st) \<and> distinct xs \<and>
    set xs = {x. id_ok x \<and> fst x \<in> set gs \<and> live G (delta_tier s) x \<and> id_match si p ob x}"
  using st new \<open>distinct gs\<close>
proof (induction gs arbitrary: st)
  case Nil
  then show ?case using scan_stepI by fastforce
next
  case (Cons g gs)
  obtain K xs where x: "scan_step SE contents ts s K xs st (scan_graph SE s si p ob g st)" "\<forall>k \<in> K. fst (unpack_quad k) = g"
    "distinct xs" "set xs = {x. id_ok x \<and> fst x = g \<and> live G (delta_tier s) x \<and> id_match si p ob x}"
    using scan_graph_step [where si = si and p = p and ob = ob and g = g, OF rep Cons.prems(1) ok] Cons.prems(2) by auto
  obtain st' where st': "scan_graph SE s si p ob g st = Some st'" "scan_ok SE contents ts s st'" "sc_seen st' = sc_seen st \<union> K"
    using x(1) by (auto simp: scan_step_def)
  have new': "\<forall>k \<in> sc_seen st'. fst (unpack_quad k) \<notin> set gs" using Cons.prems(2,3) x(2) st'(3) by auto
  obtain K' ys where y: "scan_step SE contents ts s K' ys st' (fold_opt (scan_graph SE s si p ob) gs st')" "distinct ys"
    "set ys = {x. id_ok x \<and> fst x \<in> set gs \<and> live G (delta_tier s) x \<and> id_match si p ob x}"
    using Cons.IH [OF st'(2) new'] Cons.prems(3) by auto
  have "scan_step SE contents ts s (K \<union> K') (xs @ ys) st (fold_opt (scan_graph SE s si p ob) (g # gs) st)"
    unfolding fold_opt.simps by (rule scan_step_bind [OF x(1)]) (use y(1) st'(1) in simp)
  moreover have "distinct (xs @ ys)" using x(3) y(2) Cons.prems(3) unfolding distinct_append x(4) y(3) by auto
  moreover have "set (xs @ ys) = {x. id_ok x \<and> fst x \<in> set (g # gs) \<and> live G (delta_tier s) x \<and> id_match si p ob x}"
    unfolding set_append x(4) y(3) by auto
  ultimately show ?case by blast
qed

end

text \<open>A pattern over the terms of quads.\<close>

definition quad_match ::
  "'l rdf_term option \<Rightarrow> rstring option \<Rightarrow> 'l rdf_term option \<Rightarrow> graph_name option \<Rightarrow> 'l quad \<Rightarrow> bool" where
  "quad_match sub pred ob gname q \<longleftrightarrow> is_none_or sub (\<lambda>x. subject_term (quad_subject q) = x) \<and>
     is_none_or pred (\<lambda>x. quad_predicate q = x) \<and> is_none_or ob (\<lambda>x. quad_object q = x) \<and>
     is_none_or gname (\<lambda>x. quad_graph q = x)"

text \<open>The terms a query may bind: a quoted triple must be known once the dictionary has been compacted.\<close>

definition pattern_ok ::
  "'l literal_api \<Rightarrow> ('l, 'v, 'c) dictionary \<Rightarrow> 'l rdf_term list \<Rightarrow> 'l rdf_term option \<Rightarrow> bool" where
  "pattern_ok api d ts v \<longleftrightarrow> (\<forall>x. v = Some x \<longrightarrow> term_ok api x \<and> (is_triple x \<longrightarrow> x \<in> set ts \<or> None \<notin> set (id_to_term d)))"

lemma stored_quad_from_inj: "stored_quad_from q = stored_quad_from q' \<longleftrightarrow> q = q'"
  by (cases q; cases q') (auto simp: stored_quad_from_def subject_term_inj)

lemma emits_quads:
  assumes "emits ts d xs out" "distinct xs" "distinct ts" "length ts \<le> 2 ^ 40" "graphs_ok d"
  shows "distinct out" "set out = stored_quad_from ` {q. \<exists>x \<in> set xs. encodes ts d q x}"
proof -
  have "distinct out \<and> set out = stored_quad_from ` {q. \<exists>x \<in> set xs. encodes ts d q x}"
    using assms(1,2) unfolding emits_def
  proof (induction rule: list_all2_induct)
    case (Cons x xs sq out)
    then obtain q where q: "encodes ts d q x" "sq = stored_quad_from q" by blast
    have uniq: "encodes ts d q' x \<longleftrightarrow> q' = q" for q' using encodes_inj [OF assms(4,5) q(1)] q(1) by blast
    have "\<not> encodes ts d q y" if "y \<in> set xs" for y
      using that Cons.prems encodes_det [OF assms(3) q(1), of y] by auto
    then show ?case using Cons q uniq by (auto simp: stored_quad_from_inj image_iff)
  qed simp
  then show "distinct out" "set out = stored_quad_from ` {q. \<exists>x \<in> set xs. encodes ts d q x}" by auto
qed

context louds_env
begin

lemma pattern_id_ok:
  assumes rep: "dict_rep (st_dict SE) contents ts d" and ok: "pattern_ok (env_lit (st_dict SE)) d ts v"
  obtains x where "pattern_id (st_dict SE) d v = Some None" "v = Some x" "x \<notin> set ts"
  | i where "pattern_id (st_dict SE) d v = Some (Some i)" "\<And>t. t \<in> set_option i \<Longrightarrow> term_id_ok t"
    "\<And>y j. holds_at ts y j \<Longrightarrow> is_none_or i (\<lambda>t. j = t) \<longleftrightarrow> is_none_or v (\<lambda>x. y = x)"
proof (cases v)
  case None
  then show ?thesis using that(2) [of None] by (simp add: pattern_id_def is_none_or_def)
next
  case (Some x)
  obtain r where r: "dict_get_id (st_dict SE) d x = Some r" "\<forall>i. r = Some i \<longleftrightarrow> holds_at ts x i"
    using get_id_correct [OF rep, of x] ok Some by (auto simp: pattern_ok_def)
  note len = rep_length [OF rep]
  have dist: "distinct ts" using rep by (simp add: dict_rep_def terms_ok_def)
  show ?thesis
  proof (cases r)
    case None
    then have "x \<notin> set ts" using r(2) mem_holds_at by fastforce
    then show ?thesis using that(1) Some r(1) None by (simp add: pattern_id_def)
  next
    case (Some i)
    then have i: "holds_at ts x i" using r(2) by blast
    have "j = i \<longleftrightarrow> y = x" if "holds_at ts y j" for y j
      using that i holds_at_unique [OF dist] holds_at_fun [OF len] by blast
    then show ?thesis
      using that(2) [of "Some i"] holds_at_ok [OF len i] \<open>v = Some x\<close> r(1) Some by (auto simp: pattern_id_def is_none_or_def)
  qed
qed

lemma live_known_graph:
  assumes "store_rep SE contents ts G s" "live G (delta_tier s) x" "id_ok x"
  shows "fst x \<in> known_graph_ids s"
proof (cases "delta_get (delta_tier s) (id_key x)")
  case None
  then have "id_row x \<in> G (fst x)" using assms(2) by (simp add: live_def)
  then have "graphs s (fst x) \<noteq> None" using store_repD(4) [OF assms(1)] by auto
  then show ?thesis by (simp add: known_graph_ids_def domIff)
next
  case (Some b)
  then have "(id_key x, b) \<in> set (delta_iter (delta_tier s))"
    using store_repD(3) [OF assms(1)] by (simp add: delta_defs bt_get_Some_iff)
  then show ?thesis using assms(3) by (force simp: known_graph_ids_def)
qed

lemma search_graphs_ok:
  assumes rep: "store_rep SE contents ts G s"
    and gs: "(case gname of Some gn \<Rightarrow> map_option (\<lambda>g. [g]) (get_graph_id (dict s) gn)
      | None \<Rightarrow> Some (st_order SE (known_graph_ids s))) = Some gs"
  shows "distinct gs \<and> (\<forall>q x. encodes ts (dict s) q x \<longrightarrow> live G (delta_tier s) x \<longrightarrow>
    (fst x \<in> set gs \<longleftrightarrow> is_none_or gname (\<lambda>n. quad_graph q = n)))"
proof (cases gname)
  case None
  have "fst x \<in> known_graph_ids s" if "encodes ts (dict s) q x" "live G (delta_tier s) x" for q x
    using live_known_graph [OF rep that(2)] encodes_ok [OF _ that(1)] store_rep_terms [OF rep] by blast
  then show ?thesis using gs None order_set order_distinct by (auto simp: is_none_or_def)
next
  case (Some gn)
  then obtain g where g: "get_graph_id (dict s) gn = Some g" "gs = [g]" using gs by auto
  have "a = g \<longleftrightarrow> n = gn" if "get_graph_id (dict s) n = Some a" for n a
    using that g(1) store_repD(2) [OF rep] unfolding graphs_ok_def get_graph_id_def by (metis option.inject)
  then show ?thesis using g Some by (auto simp: is_none_or_def encodes_def)
qed

lemma pattern_scan:
  assumes rep: "store_rep SE contents ts G s"
    and ok: "\<And>t. t \<in> set_option i \<union> set_option j \<union> set_option k \<Longrightarrow> term_id_ok t"
    and s: "\<And>y a. holds_at ts y a \<Longrightarrow> is_none_or i (\<lambda>t. a = t) \<longleftrightarrow> is_none_or sub (\<lambda>x. y = x)"
    and p: "\<And>y a. holds_at ts y a \<Longrightarrow> is_none_or j (\<lambda>t. a = t) \<longleftrightarrow> is_none_or (map_option NamedNode pred) (\<lambda>x. y = x)"
    and ob: "\<And>y a. holds_at ts y a \<Longrightarrow> is_none_or k (\<lambda>t. a = t) \<longleftrightarrow> is_none_or ob (\<lambda>x. y = x)"
    and gs: "distinct gs" "\<And>q x. encodes ts (dict s) q x \<Longrightarrow> live G (delta_tier s) x \<Longrightarrow>
      fst x \<in> set gs \<longleftrightarrow> is_none_or gname (\<lambda>n. quad_graph q = n)"
  shows "\<exists>st. fold_opt (scan_graph SE s i j k) gs \<lparr>sc_dict = dict s, sc_seen = {}, sc_results = []\<rparr> = Some st \<and>
    distinct (sc_results st) \<and> set (sc_results st) = stored_quad_from ` {q \<in> store_set ts G s. quad_match sub pred ob gname q} \<and>
    scan_ok SE contents ts s st"
proof -
  let ?st = "\<lparr>sc_dict = dict s, sc_seen = {}, sc_results = []\<rparr>"
  note len = store_rep_terms [OF rep]
  have "scan_ok SE contents ts s ?st" using store_repD(1) [OF rep] by (simp add: scan_ok_def)
  then obtain K xs st where x: "scan_step SE contents ts s K xs ?st (fold_opt (scan_graph SE s i j k) gs ?st)" "distinct xs"
    "set xs = {x. id_ok x \<and> fst x \<in> set gs \<and> live G (delta_tier s) x \<and> id_match i j k x}"
    using scan_graphs_step [where si = i and p = j and ob = k, OF rep _ ok, of ?st gs] gs(1) by auto
  then obtain st where st: "fold_opt (scan_graph SE s i j k) gs ?st = Some st" "scan_ok SE contents ts s st"
    "emits ts (dict s) xs (sc_results st)" by (auto simp: scan_step_def)
  have match: "id_match i j k x \<and> is_none_or gname (\<lambda>n. quad_graph q = n) \<longleftrightarrow> quad_match sub pred ob gname q"
    if "encodes ts (dict s) q x" for q x
  proof -
    obtain g a b c where x: "x = (g, a, b, c)" by (cases x)
    then have h: "holds_at ts (subject_term (quad_subject q)) a" "holds_at ts (NamedNode (quad_predicate q)) b"
      "holds_at ts (quad_object q) c" using that by (auto simp: encodes_def)
    show ?thesis
      using s [OF h(1)] p [OF h(2)] ob [OF h(3)] by (cases pred) (auto simp: x id_match_def quad_match_def is_none_or_def)
  qed
  have "{q. \<exists>x \<in> set xs. encodes ts (dict s) q x} = {q \<in> store_set ts G s. quad_match sub pred ob gname q}"
    unfolding x(3) store_set_def using match gs(2) encodes_ok [of ts "dict s"] len by blast
  then show ?thesis
    using st emits_quads [OF st(3) x(2)] len store_repD(2) [OF rep] by simp
qed

lemma quads_for_pattern_ok:
  assumes rep: "store_rep SE contents ts G s"
    and pats: "pattern_ok (env_lit (st_dict SE)) (dict s) ts sub"
      "pattern_ok (env_lit (st_dict SE)) (dict s) ts (map_option NamedNode pred)"
      "pattern_ok (env_lit (st_dict SE)) (dict s) ts ob"
  shows "\<exists>s' out. quads_for_pattern SE s sub pred ob gname = Some (s', Inr out) \<and> distinct out \<and>
    set out = stored_quad_from ` {q \<in> store_set ts G s. quad_match sub pred ob gname q} \<and>
    store_rep SE contents ts G s' \<and> store_set ts G s' = store_set ts G s \<and> graph_tables (dict s') = graph_tables (dict s)"
proof -
  note d = store_repD(1) [OF rep]
  note len = store_rep_terms [OF rep]
  let ?Q = "{q \<in> store_set ts G s. quad_match sub pred ob gname q}"
  have mem: "subject_term (quad_subject q) \<in> set ts" "NamedNode (quad_predicate q) \<in> set ts" "quad_object q \<in> set ts"
    "get_graph_id (dict s) (quad_graph q) \<noteq> None" if "q \<in> store_set ts G s" for q
    using that by (auto simp: store_set_def encodes_def dest: holds_at_mem)
  have none: "\<exists>s' out. Some (s, Inr []) = Some (s', Inr out) \<and> distinct out \<and> set out = stored_quad_from ` ?Q \<and>
      store_rep SE contents ts G s' \<and> store_set ts G s' = store_set ts G s \<and> graph_tables (dict s') = graph_tables (dict s)" if "?Q = {}"
    using rep unfolding that by simp
  show ?thesis
  proof (cases rule: pattern_id_ok [OF d pats(1)])
    case (1 x)
    then have "?Q = {}" using mem(1) by (auto simp: quad_match_def is_none_or_def)
    then show ?thesis using none 1(1) by (simp add: quads_for_pattern_def)
  next
    case s1: (2 i)
    show ?thesis
    proof (cases rule: pattern_id_ok [OF d pats(2)])
      case (1 x)
      then have "?Q = {}" using mem(2) by (auto simp: quad_match_def is_none_or_def)
      then show ?thesis using none s1(1) 1(1) by (simp add: quads_for_pattern_def)
    next
      case p1: (2 j)
      show ?thesis
      proof (cases rule: pattern_id_ok [OF d pats(3)])
        case (1 x)
        then have "?Q = {}" using mem(3) by (auto simp: quad_match_def is_none_or_def)
        then show ?thesis using none s1(1) p1(1) 1(1) by (simp add: quads_for_pattern_def)
      next
        case o1: (2 k)
        let ?gs = "case gname of Some gn \<Rightarrow> map_option (\<lambda>g. [g]) (get_graph_id (dict s) gn) | None \<Rightarrow> Some (st_order SE (known_graph_ids s))"
        show ?thesis
        proof (cases ?gs)
          case None
          then obtain gn where gn: "gname = Some gn" "get_graph_id (dict s) gn = None" by (auto split: option.splits)
          have "q \<notin> ?Q" for q using mem(4) [of q] gn by (auto simp: quad_match_def is_none_or_def)
          then have "?Q = {}" by blast
          then show ?thesis using none s1(1) p1(1) o1(1) gn by (simp add: quads_for_pattern_def)
        next
          case (Some gs)
          have gs: "distinct gs" "\<And>q x. encodes ts (dict s) q x \<Longrightarrow> live G (delta_tier s) x \<Longrightarrow>
              fst x \<in> set gs \<longleftrightarrow> is_none_or gname (\<lambda>n. quad_graph q = n)"
            using search_graphs_ok [OF rep Some] by blast+
          obtain st where st: "fold_opt (scan_graph SE s i j k) gs \<lparr>sc_dict = dict s, sc_seen = {}, sc_results = []\<rparr> = Some st"
            "distinct (sc_results st)" "set (sc_results st) = stored_quad_from ` ?Q" "scan_ok SE contents ts s st"
            using pattern_scan [OF rep _ s1(3) p1(3) o1(3) gs] s1(2) p1(2) o1(2) by blast
          have "store_rep SE contents ts G (s\<lparr>dict := sc_dict st\<rparr>)" "store_set ts G (s\<lparr>dict := sc_dict st\<rparr>) = store_set ts G s"
            using store_rep_extend [OF rep, of "[]" "sc_dict st"] st(4) store_repD(2) [OF rep]
              graph_tables_graphs [of "sc_dict st" "dict s"] by (simp_all add: scan_ok_def)
          then show ?thesis using s1(1) p1(1) o1(1) Some st by (simp add: quads_for_pattern_def scan_ok_def)
        qed
      qed
    qed
  qed
qed

end

section \<open>Properties\<close>

text \<open>
  (C7) A pattern query is exact: with any of subject, predicate, object and graph bound, the result lists
  the quads of the store that match, decoded, each once and nothing else, whether they lie in the write buffer
  or in the indexes; a tombstone in the buffer hides the indexed quad, and the query does not change the contents.
\<close>

theorem store_pattern_exact:
  assumes "louds_env SE contents" and "store_rep SE contents ts G s"
    and "pattern_ok (env_lit (st_dict SE)) (dict s) ts sub"
    and "pattern_ok (env_lit (st_dict SE)) (dict s) ts (map_option NamedNode pred)"
    and "pattern_ok (env_lit (st_dict SE)) (dict s) ts ob"
  shows "\<exists>s' out. quads_for_pattern SE s sub pred ob gname = Some (s', Inr out) \<and> distinct out \<and>
    set out = stored_quad_from ` {q \<in> quads_of SE s. quad_match sub pred ob gname q} \<and> quads_of SE s' = quads_of SE s"
proof -
  obtain s' out where s': "quads_for_pattern SE s sub pred ob gname = Some (s', Inr out)" "distinct out"
    "set out = stored_quad_from ` {q \<in> store_set ts G s. quad_match sub pred ob gname q}"
    "store_rep SE contents ts G s'" "store_set ts G s' = store_set ts G s"
    using louds_env.quads_for_pattern_ok [OF assms, of gname] by blast
  note q = louds_env.quads_of_store_set [OF assms(1)]
  have "quads_of SE s' = quads_of SE s" using q [OF assms(2)] q [OF s'(4)] s'(5) by simp
  then show ?thesis using s'(1-3) unfolding q [OF assms(2), symmetric] by blast
qed

theorem store_pattern_exact_witness:
  "\<exists>st s' out. louds_apply_batch example_store_env (louds_new example_store_env)
      [OpInsert (letter_quad 99), OpInsert (letter_quad 100), OpInsert (letter_quad 99), OpRemove (letter_quad 99)] =
      Some (st, Inr (2, 1)) \<and>
     quads_for_pattern example_store_env (store_inner st) (Some (NamedNode [97])) None None None = Some (s', Inr out) \<and>
     set out = {stored_quad_from (letter_quad 100)}"
proof -
  let ?ops = "[OpInsert (letter_quad 99), OpInsert (letter_quad 100), OpInsert (letter_quad 99), OpRemove (letter_quad 99)]"
  have new: "store_inner (louds_new example_store_env) = inner_new example_store_env" by (simp add: louds_new_def)
  have "op_counts ?ops {} = (2, 1)" "fold op_set ?ops {} = {letter_quad 100}" by (auto simp: letter_quad_inj)
  then obtain st ts G where st: "louds_apply_batch example_store_env (louds_new example_store_env) ?ops = Some (st, Inr (2, 1))"
    "quads_of example_store_env (store_inner st) = {letter_quad 100}" "store_rep example_store_env list_contents ts G (store_inner st)"
    using example_store.louds_apply_batch_ok [of ?ops "louds_new example_store_env"] example_admits
      example_store.quads_of_new unfolding new by (auto simp: store_admits_def)
  have p: "pattern_ok (env_lit (st_dict example_store_env)) (dict (store_inner st)) ts (Some (NamedNode [97]))"
    "pattern_ok (env_lit (st_dict example_store_env)) (dict (store_inner st)) ts None"
    by (simp_all add: pattern_ok_def)
  obtain s' out where "quads_for_pattern example_store_env (store_inner st) (Some (NamedNode [97])) None None None = Some (s', Inr out)"
    "set out = stored_quad_from ` {q \<in> {letter_quad 100}. quad_match (Some (NamedNode [97])) None None None q}"
    using store_pattern_exact [OF example_store.louds_env_axioms st(3) p(1) _ p(2), of None None] p(2) st(2) by auto
  moreover have "{q \<in> {letter_quad 100}. quad_match (Some (NamedNode [97])) None None None q} = {letter_quad 100}"
    by (auto simp: quad_match_def is_none_or_def letter_quad_def)
  ultimately show ?thesis using st(1) by auto
qed

end
