(* ===== verification/StoreCompact.thy ===== *)
theory StoreCompact
  imports StoreQuery
begin

text \<open>
  Compaction and bulk loading of the LOUDS store: merging the write buffer into the indexes, rebuilding
  and serialising them, and publishing the decode table keep the contents.
\<close>

section \<open>Loops over hash maps\<close>

lemma fold_opt_fold: "(\<And>x m. x \<in> set xs \<Longrightarrow> f x m = Some (g x m)) \<Longrightarrow> fold_opt f xs m = Some (fold g xs m)"
  by (induction xs arbitrary: m) auto

lemma fold_upd: "fold (\<lambda>x m. if P x then m else m(x \<mapsto> h x)) xs m = (\<lambda>x. if x \<in> set xs \<and> \<not> P x then Some (h x) else m x)"
  by (induction xs arbitrary: m) (auto simp: fun_eq_iff)

context louds_env
begin

lemma fold_order:
  assumes "\<And>g m. g \<in> A \<Longrightarrow> f g m = Some (if P g then m else m(g \<mapsto> h g))"
  shows "fold_opt f (st_order SE A) Map.empty = Some (\<lambda>g. if g \<in> A \<and> \<not> P g then Some (h g) else None)"
  using fold_opt_fold [of "st_order SE A" f "\<lambda>g m. if P g then m else m(g \<mapsto> h g)" Map.empty] assms
  by (simp add: order_set fold_upd)

lemma ring_triples_ok:
  assumes rep: "store_rep SE contents ts G s"
  shows "\<exists>m. ring_triples SE s = Some m \<and> (\<forall>g. or_default m g = sorted_list_of_set (G g)) \<and> dom m = dom (graphs s)"
proof -
  have spo: "spo_triples (st_rank SE) (st_bits SE) ring = Some (sorted_list_of_set (G g))" if "graphs s g = Some ring" for g ring
    by (rule spo_triples_list [OF store_repD(5) [OF rep that]])
  have "ring_triples SE s = Some (\<lambda>g. if g \<in> dom (graphs s) \<and> \<not> False then Some (sorted_list_of_set (G g)) else None)"
    unfolding ring_triples_def by (rule fold_order) (auto simp: spo)
  then show ?thesis using store_repD(4) [OF rep] by (auto simp: or_default_def dom_def split: option.splits)
qed

section \<open>Building and serialising the indexes\<close>

lemma round_trip_ok:
  assumes snap: "\<And>g ring. gs g = Some ring \<Longrightarrow>
    ring_into_snapshot (st_rank SE) (st_bits SE) ring = Some (snap g) \<and> ring_from_snapshot (snap g) = Some ring"
  shows "round_trip SE gs = Some (Inr gs)"
proof -
  let ?xs = "st_order SE (dom gs)"
  let ?snap = "\<lparr>snap_graph_ids = map as_u8 ?xs, snap_rings = map snap ?xs\<rparr>"
  have "fold_opt (\<lambda>g_id st. gs g_id \<bind> (\<lambda>ring. ring_into_snapshot (st_rank SE) (st_bits SE) ring \<bind>
      (\<lambda>r. Some \<lparr>snap_graph_ids = snap_graph_ids st @ [as_u8 g_id], snap_rings = snap_rings st @ [r]\<rparr>)))
      xs \<lparr>snap_graph_ids = ids, snap_rings = rs\<rparr> = Some \<lparr>snap_graph_ids = ids @ map as_u8 xs, snap_rings = rs @ map snap xs\<rparr>"
    if "set xs \<subseteq> dom gs" for xs ids rs
    using that by (induction xs arbitrary: ids rs) (auto simp: snap [THEN conjunct1])
  from this [of ?xs "[]" "[]"] have from_graphs: "snapshot_from_graphs SE gs = Some ?snap"
    unfolding snapshot_from_graphs_def by (simp add: order_set)
  have "fold_opt (\<lambda>(g, r) m. ring_from_snapshot r \<bind> (\<lambda>ring. Some (m(GraphId g \<mapsto> ring)))) (zip (map as_u8 xs) (map snap xs)) m =
      Some (\<lambda>g. if g \<in> set xs then gs g else m g)" if "set xs \<subseteq> dom gs" for xs m
    using that
  proof (induction xs arbitrary: m)
    case (Cons x xs)
    obtain ring where "gs x = Some ring" using Cons.prems by auto
    then show ?case using Cons.IH [of "m(x \<mapsto> ring)"] Cons.prems snap by (auto simp: fun_eq_iff)
  qed simp
  from this [of ?xs Map.empty] have "snapshot_into_graphs ?snap = Some (\<lambda>g. if g \<in> dom gs then gs g else None)"
    by (simp add: snapshot_into_graphs_def order_set)
  moreover have "(\<lambda>g. if g \<in> dom gs then gs g else None) = gs" by (auto simp: fun_eq_iff domIff)
  moreover obtain buf where "st_serialize SE ?snap = Inr buf" "st_deserialize SE buf = Inr ?snap" using serde by blast
  ultimately show ?thesis using from_graphs by (simp add: round_trip_def)
qed

lemma build_graphs_ok:
  assumes fits: "\<And>g. ring_fits (or_default m g)"
  shows "\<exists>gs. build_graphs_from_triples SE m = Some gs \<and> round_trip SE gs = Some (Inr gs) \<and>
    (\<forall>g. case gs g of None \<Rightarrow> or_default m g = [] | Some ring \<Rightarrow> ring_ok (st_rank SE) (st_bits SE) (set (or_default m g)) ring)"
proof -
  let ?R = "st_rank SE" and ?V = "st_bits SE"
  define ring snap where "ring g = the (ring_build ?R ?V (or_default m g))"
    and "snap g = the (ring_into_snapshot ?R ?V (ring g))" for g
  have r: "ring_build ?R ?V (or_default m g) = Some (ring g)" "ring_ok ?R ?V (set (or_default m g)) (ring g)"
    "ring_into_snapshot ?R ?V (ring g) = Some (snap g)" "ring_from_snapshot (snap g) = Some (ring g)" for g
    using ring_build_snapshot [OF fits, of g] unfolding ring_def snap_def by auto
  let ?gs = "\<lambda>g. if g \<in> dom m \<and> \<not> or_default m g = [] then Some (ring g) else None"
  have build: "build_graphs_from_triples SE m = Some ?gs"
    unfolding build_graphs_from_triples_def
  proof (rule fold_order)
    fix g and gs :: "graph_id \<rightharpoonup> ('r, 'v) graph_ring"
    assume "g \<in> dom m"
    then have "m g = Some (or_default m g)" by (auto simp: or_default_def)
    then show "(m g \<bind> (\<lambda>triples. if triples = [] then Some gs
          else ring_build ?R ?V triples \<bind> (\<lambda>ring. Some (gs(g \<mapsto> ring))))) =
        Some (if or_default m g = [] then gs else gs(g \<mapsto> ring g))" using r(1) by simp
  qed
  have "round_trip SE ?gs = Some (Inr ?gs)" by (rule round_trip_ok [of _ snap]) (auto simp: r split: if_splits)
  moreover have "case ?gs g of None \<Rightarrow> or_default m g = [] | Some ring \<Rightarrow> ring_ok ?R ?V (set (or_default m g)) ring" for g
    using r(2) [of g] by (cases "m g") (simp_all add: or_default_def domIff)
  ultimately show ?thesis using build by blast
qed

end

section \<open>Merging the write buffer\<close>

lemma or_default_upd [simp]: "or_default (m(g \<mapsto> v)) h = (if h = g then v else or_default m h)"
  by (simp add: or_default_def)

lemma update_row:
  "t \<in> set (or_default (m(g \<mapsto> (if b then or_default m g @ [r] else filter (\<lambda>u. u \<noteq> r) (or_default m g)))) h) \<longleftrightarrow>
    (if g = h \<and> r = t then b else t \<in> set (or_default m h))"
  by auto

lemma id_quad_eq: "x = y \<longleftrightarrow> fst x = fst y \<and> id_row x = id_row y"
  using id_row_inj by blast

lemma merge_entry_row:
  "id_row x \<in> set (or_default (merge_entry (k, b) m) (fst x)) \<longleftrightarrow>
    (if unpack_quad k = x then b else id_row x \<in> set (or_default m (fst x)))"
proof -
  have "merge_entry (k, b) m = (let y = unpack_quad k in m(fst y \<mapsto> (if b then or_default m (fst y) @ [id_row y]
      else filter (\<lambda>t. t \<noteq> id_row y) (or_default m (fst y)))))"
    by (simp add: merge_entry_def id_row_def Let_def split: prod.splits)
  then show ?thesis unfolding Let_def id_quad_eq [of "unpack_quad k" x] by (simp only: update_row)
qed

lemma length_merge_entry: "length (or_default (merge_entry e m) g) \<le> Suc (length (or_default m g))"
  by (auto simp: merge_entry_def or_default_def Let_def le_Suc_eq split: prod.splits option.splits)

lemma fold_merge_length: "length (or_default (fold merge_entry es m) g) \<le> length (or_default m g) + length es"
  by (induction es arbitrary: m) (use length_merge_entry in \<open>fastforce intro: order.trans\<close>)+

lemma fold_merge_row:
  assumes "distinct (map fst es)"
  shows "id_row x \<in> set (or_default (fold merge_entry es m) (fst x)) \<longleftrightarrow>
    (case map_of (map (\<lambda>(k, b). (unpack_quad k, b)) es) x of Some b \<Rightarrow> b | None \<Rightarrow> id_row x \<in> set (or_default m (fst x)))"
  using assms
proof (induction es arbitrary: m)
  case (Cons e es)
  obtain k b where e: "e = (k, b)" by (cases e)
  have "map_of (map (\<lambda>(k, b). (unpack_quad k, b)) es) (unpack_quad k) = None"
    using Cons.prems by (force simp: e map_of_eq_None_iff dest: arg_cong [of _ _ id_key])
  then show ?case using Cons by (auto simp: e merge_entry_row split: option.splits)
qed simp

lemma map_of_unpack: "map_of (map (\<lambda>(k, b). (unpack_quad k, b)) es) x = (if id_ok x then map_of es (id_key x) else None)"
proof (induction es)
  case (Cons e es)
  obtain k b where e: "e = (k, b)" by (cases e)
  have "x = unpack_quad k \<longleftrightarrow> id_ok x \<and> id_key x = k" by (metis id_key_unpack id_ok_unpack unpack_id_key)
  then show ?case using Cons by (auto simp: e)
qed simp

context louds_env
begin

text \<open>The merged rows of a graph are those of its live quads.\<close>

lemma merged_rows:
  assumes rep: "store_rep SE contents ts G s" and m: "\<forall>g. or_default m g = sorted_list_of_set (G g)"
  shows "set (or_default (fold merge_entry (delta_iter (delta_tier s)) m) g) =
    id_row ` {x. id_ok x \<and> fst x = g \<and> live G (delta_tier s) x}"
proof -
  let ?es = "delta_iter (delta_tier s)"
  have ok: "bt_ok (inner (delta_tier s))" using store_repD(3) [OF rep] by (simp add: delta_ok_def)
  then have dist: "distinct (map fst ?es)" by (simp add: delta_iter_def bt_ok_distinct)
  have get: "map_of ?es k = delta_get (delta_tier s) k" for k
    by (simp add: delta_get_def delta_iter_def bt_get_def)
  have fin: "finite (G g)" for g
    using store_repD(4,5) [OF rep, of g] by (cases "graphs s g") (auto simp: ring_ok_def)
  have row: "id_row x \<in> G (fst x) \<Longrightarrow> id_ok x" for x using ring_row_encodes [OF rep, of "id_row x" "fst x"] id_of_row(3) by metis
  have mem: "id_row x \<in> set (or_default (fold merge_entry ?es m) (fst x)) \<longleftrightarrow> id_ok x \<and> live G (delta_tier s) x" for x
    using row [of x] fin m unfolding fold_merge_row [OF dist] map_of_unpack get live_def by (auto split: option.splits)
  show ?thesis
  proof (intro set_eqI iffI)
    fix r assume "r \<in> set (or_default (fold merge_entry ?es m) g)"
    then have "id_ok (id_of g r) \<and> live G (delta_tier s) (id_of g r)" using mem [of "id_of g r"] by simp
    then show "r \<in> id_row ` {x. id_ok x \<and> fst x = g \<and> live G (delta_tier s) x}"
      by (intro image_eqI [of _ _ "id_of g r"]) simp_all
  qed (use mem in auto)
qed

end

section \<open>Compaction\<close>

text \<open>
  What fits the indexes: at most \<open>2 ^ 32\<close> terms (labels have 32 bits) and as many rows as positions can
  address; and what the compacted dictionary tier represents exactly.
\<close>

definition store_small :: "('l, 'v, 'c, 'r) louds_inner \<Rightarrow> nat \<Rightarrow> bool" where
  "store_small s extra \<longleftrightarrow> dict_len (dict s) \<le> 2 ^ 32 \<and>
     (\<forall>g. 3 * ((case graphs s g of None \<Rightarrow> 0 | Some ring \<Rightarrow> gr_n ring) + extra) \<le> usize_max)"

definition terms_compactable :: "'l literal_api \<Rightarrow> 'l rdf_term list \<Rightarrow> bool" where
  "terms_compactable api ts \<longleftrightarrow> entries_fit (compact_entries api ts) \<and> no_straddling (compact_entries api ts)"

lemma row_image: "id_row x \<in> id_row ` {y. P y \<and> fst y = fst x \<and> Q y} \<longleftrightarrow> P x \<and> Q x"
proof
  assume "id_row x \<in> id_row ` {y. P y \<and> fst y = fst x \<and> Q y}"
  then obtain y where y: "P y" "fst y = fst x" "Q y" "id_row x = id_row y" by blast
  then have "x = y" using id_row_inj [OF y(2) [symmetric]] by blast
  then show "P x \<and> Q x" using y by blast
qed blast

lemma encodes_tables: "graph_tables d' = graph_tables d \<Longrightarrow> encodes ts d' = encodes ts d"
  by (intro ext) (simp add: encodes_def graph_tables_graphs(2) [of d' d])

lemma holds_at_range: "holds_at ts x i \<Longrightarrow> as_u64 i \<in> (\<lambda>k. as_u64 (tid k)) ` {..<length ts}"
  by (auto simp: holds_at_def)

lemma encoded_rows_fit:
  assumes enc: "\<And>r. r \<in> set rs \<Longrightarrow> \<exists>q x. encodes ts d q x \<and> id_row x = r"
    and len: "length ts \<le> 2 ^ 32" "3 * length rs \<le> usize_max"
  shows "ring_fits rs"
proof -
  let ?I = "(\<lambda>k. as_u64 (tid k)) ` {..<length ts}"
  have mem: "a \<in> ?I \<and> b \<in> ?I \<and> c \<in> ?I" if r: "(a, b, c) \<in> set rs" for a b c
  proof -
    obtain q x where x: "encodes ts d q x" "id_row x = (a, b, c)" using enc [OF r] by blast
    obtain g i j k where ids: "x = (g, i, j, k)" by (cases x)
    have h: "holds_at ts (subject_term (quad_subject q)) i" "holds_at ts (NamedNode (quad_predicate q)) j"
      "holds_at ts (quad_object q) k" and "a = as_u64 i" "b = as_u64 j" "c = as_u64 k"
      using x by (simp_all add: ids encodes_def id_row_def)
    then show ?thesis using h [THEN holds_at_range] by blast
  qed
  have small: "card A \<le> 2 ^ 32" if "A \<subseteq> ?I" for A
  proof -
    have "card A \<le> card ?I" by (rule card_mono [OF _ that]) simp
    also have "\<dots> \<le> card {..<length ts}" by (rule card_image_le) simp
    finally show ?thesis using len(1) by simp
  qed
  have "- 1 \<notin> ?I"
  proof
    assume "- 1 \<in> ?I"
    then obtain k where k: "k < length ts" "- 1 = as_u64 (tid k)" by auto
    then have "unat (- 1 :: u64) = k" using unat_tid [of k] len(1) by simp
    moreover have "unat (- 1 :: u64) = 2 ^ 64 - 1" by (simp add: unsigned_minus_1_eq_mask mask_eq_exp_minus_1)
    ultimately show False using k(1) len(1) by simp
  qed
  then have "bounded_rows (set rs)" using mem by (auto simp: bounded_rows_def row_list_triple)
  moreover have "fst ` set rs \<subseteq> ?I" "(fst \<circ> snd) ` set rs \<subseteq> ?I" "(snd \<circ> snd) ` set rs \<subseteq> ?I" using mem by fastforce+
  ultimately show ?thesis using small len(2) by (auto simp: ring_fits_def)
qed

context louds_env
begin

lemma decode_table_ok:
  assumes "dict_rep (st_dict SE) contents ts d" "set ks \<subseteq> {..<length ts}"
  shows "\<exists>d'. decode_table (st_dict SE) d ks out = Some (out @ map (\<lambda>k. Some (ts ! k)) ks, d') \<and>
    dict_rep (st_dict SE) contents ts d' \<and> graph_tables d' = graph_tables d"
  using assms
proof (induction ks arbitrary: d out)
  case (Cons k ks)
  note len = rep_length [OF Cons.prems(1)]
  have k: "k < length ts" using Cons.prems(2) by simp
  then have h: "holds_at ts (ts ! k) (tid k)" by (auto simp: holds_at_def)
  have new: "term_id_new (of_nat k) = Inr (tid k)"
    using term_id_new_in_range [of "of_nat k"] holds_at_ok [OF len h] by (simp add: tid_def)
  obtain d1 where d1: "get_term_arc (st_dict SE) d (tid k) = Some (Some (ts ! k), d1)"
    "dict_rep (st_dict SE) contents ts d1" "graph_tables d1 = graph_tables d" by (rule decode_step [OF Cons.prems(1) h])
  show ?case
    using Cons.IH [OF d1(2), of "out @ [Some (ts ! k)]"] Cons.prems(2) new d1(1,3) by auto
qed simp

lemma build_snapshot_ok:
  assumes "dict_rep (st_dict SE) contents ts d"
  shows "\<exists>d'. build_decode_snapshot_from_dict (st_dict SE) d = Some (map Some ts, d') \<and>
    dict_rep (st_dict SE) contents ts d' \<and> graph_tables d' = graph_tables d"
proof -
  have "dict_len d = length ts" using assms by (simp add: dict_len_def dict_rep_def)
  moreover have "map (\<lambda>k. Some (ts ! k)) [0..<length ts] = map Some ts" by (rule nth_equalityI) simp_all
  moreover have "set [0..<length ts] \<subseteq> {..<length ts}" by auto
  ultimately show ?thesis
    using decode_table_ok [OF assms, of "[0..<length ts]" "[]"] by (simp add: build_decode_snapshot_from_dict_def)
qed

lemma store_rep_install:
  assumes "dict_rep (st_dict SE) contents ts d" "graphs_ok d" "delta_ok dl"
    and "\<And>g. gs g = None \<Longrightarrow> G g = {}" "\<And>g ring. gs g = Some ring \<Longrightarrow> ring_ok (st_rank SE) (st_bits SE) (G g) ring"
    and "\<And>g r. r \<in> G g \<Longrightarrow> \<exists>q x. encodes ts d q x \<and> fst x = g \<and> id_row x = r"
    and "\<And>k b. delta_get dl k = Some b \<Longrightarrow> \<exists>q. encodes ts d q (unpack_quad k)"
  shows "store_rep SE contents ts G (s\<lparr>dict := d, graphs := gs, delta_tier := dl\<rparr>)"
  using assms by (simp add: store_rep_def split: option.splits del: split_paired_Ex split_paired_All)

text \<open>Installing the indexes of a set of rows, with or without clearing the buffer.\<close>

lemma commit_ok:
  assumes "round_trip SE gs = Some (Inr gs)"
  shows "commit_compaction SE s gs clear = Some (s\<lparr>graphs := gs,
    delta_tier := (if clear then delta_clear (delta_tier s) else delta_tier s)\<rparr>, Inr ())"
  using assms by (simp add: commit_compaction_def)

text \<open>Rows that encode quads are rebuilt into indexes, with the dictionary compacted.\<close>

lemma install_rows:
  assumes rep: "store_rep SE contents ts G s" and terms: "terms_compactable (env_lit (st_dict SE)) ts" "length ts \<le> 2 ^ 32"
    and enc: "\<And>g r. r \<in> set (or_default m g) \<Longrightarrow> \<exists>q x. encodes ts (dict s) q x \<and> fst x = g \<and> id_row x = r"
    and size: "\<And>g. 3 * length (or_default m g) \<le> usize_max"
    and dl: "delta_ok dl" "\<And>k b. delta_get dl k = Some b \<Longrightarrow> \<exists>q. encodes ts (dict s) q (unpack_quad k)"
  obtains gs d where "build_graphs_from_triples SE m = Some gs" "round_trip SE gs = Some (Inr gs)"
    "dict_compact (st_dict SE) (dict s) = Some (d, Inr ())" "encodes ts d = encodes ts (dict s)"
    "store_rep SE contents ts (\<lambda>g. set (or_default m g)) (s\<lparr>dict := d, graphs := gs, delta_tier := dl\<rparr>)"
proof -
  have "ring_fits (or_default m g)" for g by (rule encoded_rows_fit [OF _ terms(2) size]) (use enc in blast)
  then obtain gs where gs: "build_graphs_from_triples SE m = Some gs" "round_trip SE gs = Some (Inr gs)"
    "\<forall>g. case gs g of None \<Rightarrow> or_default m g = [] | Some ring \<Rightarrow> ring_ok (st_rank SE) (st_bits SE) (set (or_default m g)) ring"
    using build_graphs_ok by blast
  obtain d where d: "dict_compact (st_dict SE) (dict s) = Some (d, Inr ())" "dict_rep (st_dict SE) contents ts d"
    using compact_correct [OF store_repD(1) [OF rep]] terms(1) unfolding terms_compactable_def by blast
  note tables = graph_tables_graphs [OF dict_compact_tables [OF d(1)]] and encs = encodes_tables [OF dict_compact_tables [OF d(1)]]
  have "store_rep SE contents ts (\<lambda>g. set (or_default m g)) (s\<lparr>dict := d, graphs := gs, delta_tier := dl\<rparr>)"
  proof (rule store_rep_install [OF d(2) _ dl(1)])
    show "graphs_ok d" using store_repD(2) [OF rep] tables(1) by simp
    show "gs g = None \<Longrightarrow> set (or_default m g) = {}"
      "gs g = Some ring \<Longrightarrow> ring_ok (st_rank SE) (st_bits SE) (set (or_default m g)) ring" for g ring
      using gs(3) [rule_format, of g] by auto
  qed (unfold encs, rule enc, assumption, rule dl(2))
  then show ?thesis using that gs(1,2) d(1) encs by blast
qed

text \<open>The number of rows of an index.\<close>

lemma ring_rows:
  assumes "store_rep SE contents ts G s"
  shows "finite (G g)" "card (G g) = (case graphs s g of None \<Rightarrow> 0 | Some ring \<Rightarrow> gr_n ring)"
  using store_repD(4,5) [OF assms, of g] by (cases "graphs s g"; auto simp: ring_ok_def)+

text \<open>The parts of a compaction, up to its commit.\<close>

lemma compact_parts:
  assumes rep: "store_rep SE contents ts G s" and small: "store_small s (delta_len (delta_tier s))"
    and terms: "terms_compactable (env_lit (st_dict SE)) ts"
  obtains m gs d G' where "ring_triples SE s = Some m"
    "build_graphs_from_triples SE (fold merge_entry (delta_iter (delta_tier s)) m) = Some gs" "round_trip SE gs = Some (Inr gs)"
    "dict_compact (st_dict SE) (dict s) = Some (d, Inr ())"
    "store_rep SE contents ts G' (s\<lparr>dict := d, graphs := gs, delta_tier := delta_clear (delta_tier s)\<rparr>)"
    "store_set ts G' (s\<lparr>dict := d, graphs := gs, delta_tier := delta_clear (delta_tier s)\<rparr>) = store_set ts G s"
proof -
  note len = store_rep_terms [OF rep]
  obtain m where m: "ring_triples SE s = Some m" "\<forall>g. or_default m g = sorted_list_of_set (G g)"
    using ring_triples_ok [OF rep] by blast
  let ?m = "fold merge_entry (delta_iter (delta_tier s)) m" and ?dl = "delta_clear (delta_tier s)"
  let ?G = "\<lambda>g. set (or_default ?m g)"
  have rows: "?G g = id_row ` {x. id_ok x \<and> fst x = g \<and> live G (delta_tier s) x}" for g by (rule merged_rows [OF rep m(2)])
  have enc: "\<exists>q x. encodes ts (dict s) q x \<and> fst x = g \<and> id_row x = r" if "r \<in> ?G g" for r g
    using that live_encodes [OF rep] unfolding rows by blast
  have size: "3 * length (or_default ?m g) \<le> usize_max" for g
    using small fold_merge_length [of "delta_iter (delta_tier s)" m g] m(2) ring_rows [OF rep, of g]
    unfolding store_small_def by (auto simp: delta_iter_def delta_len_def dest!: spec [of _ g])
  have n: "length ts \<le> 2 ^ 32" using small store_repD(1) [OF rep] by (simp add: store_small_def dict_len_def dict_rep_def)
  obtain gs d where i: "build_graphs_from_triples SE ?m = Some gs" "round_trip SE gs = Some (Inr gs)"
    "dict_compact (st_dict SE) (dict s) = Some (d, Inr ())" "encodes ts d = encodes ts (dict s)"
    "store_rep SE contents ts ?G (s\<lparr>dict := d, graphs := gs, delta_tier := ?dl\<rparr>)"
    by (rule install_rows [OF rep terms n enc size, of ?dl]) (auto simp: delta_defs)
  have "live ?G ?dl x \<longleftrightarrow> live G (delta_tier s) x" if "encodes ts (dict s) q x" for q x
    using encodes_ok [OF _ that] len unfolding rows live_def by (simp add: delta_defs row_image)
  then have "store_set ts ?G (s\<lparr>dict := d, graphs := gs, delta_tier := ?dl\<rparr>) = store_set ts G s"
    unfolding store_set_def by (simp add: i(4) del: split_paired_Ex) blast
  with that [OF m(1) i(1-3,5)] show ?thesis .
qed

lemma compact_locked_ok:
  assumes rep: "store_rep SE contents ts G s" and small: "store_small s (delta_len (delta_tier s))"
    and terms: "terms_compactable (env_lit (st_dict SE)) ts"
  shows "\<exists>s' G'. compact_locked SE s = Some (s', Inr ()) \<and> store_rep SE contents ts G' s' \<and>
    store_set ts G' s' = store_set ts G s \<and> delta_is_empty (delta_tier s')"
proof -
  let ?s = "\<lambda>d gs. s\<lparr>dict := d, graphs := gs, delta_tier := delta_clear (delta_tier s)\<rparr>"
  obtain m gs d G' where c: "ring_triples SE s = Some m"
    "build_graphs_from_triples SE (fold merge_entry (delta_iter (delta_tier s)) m) = Some gs" "round_trip SE gs = Some (Inr gs)"
    "dict_compact (st_dict SE) (dict s) = Some (d, Inr ())" "store_rep SE contents ts G' (?s d gs)"
    "store_set ts G' (?s d gs) = store_set ts G s" by (rule compact_parts [OF assms])
  then have "compact_locked SE s = Some (?s d gs, Inr ())" by (simp add: compact_locked_def Let_def on_dict_def commit_ok)
  then show ?thesis using c(5,6) by (auto simp: delta_defs)
qed

end

end
