(* ===== verification/StoreLoad.thy ===== *)
theory StoreLoad
  imports StoreCompact
begin

text \<open>
  Bulk loading and counting in the LOUDS store: a bulk load adds its quads to the indexes past the write
  buffer, so a quad whose removal is pending stays invisible; the count is exact while the buffer is
  empty and can be too small otherwise.
\<close>

section \<open>Bulk loading\<close>

context louds_env
begin

lemma bulk_loop_ok:
  assumes "store_rep SE contents ts G s"
    and "batch_fits (env_lit (st_dict SE)) ts (dom (graph_to_id (dict s))) (map OpInsert qs)"
  shows "\<exists>s' m' us. bulk_loop SE s m n qs = Some (s', Inr (m', n + length qs)) \<and>
    store_rep SE contents (ts @ us) G s' \<and> ts @ us = foldl quad_spec ts qs \<and>
    graphs s' = graphs s \<and> delta_tier s' = delta_tier s \<and>
    (\<forall>h i. get_graph_id (dict s) h = Some i \<longrightarrow> get_graph_id (dict s') h = Some i) \<and>
    (\<forall>q \<in> set qs. quad_terms_ok (env_lit (st_dict SE)) q \<and> (\<exists>x. encodes (ts @ us) (dict s') q x)) \<and>
    (\<forall>g. length (or_default m' g) \<le> length (or_default m g) + length qs \<and>
      set (or_default m' g) = set (or_default m g) \<union> {r. \<exists>q \<in> set qs. \<exists>x. encodes (ts @ us) (dict s') q x \<and> fst x = g \<and> id_row x = r})"
  using assms
proof (induction qs arbitrary: ts s m n)
  case Nil
  then show ?case by (auto intro: exI [of _ "[]"])
next
  case (Cons q qs)
  let ?E = "env_lit (st_dict SE)"
  have room: "quad_terms_ok ?E q" "length (quad_spec ts q) \<le> 2 ^ 40" "card (insert (quad_graph q) (dom (graph_to_id (dict s)))) \<le> 256"
    "batch_fits ?E (quad_spec ts q) (insert (quad_graph q) (dom (graph_to_id (dict s)))) (map OpInsert qs)"
    using Cons.prems(2) by auto
  obtain d x where i: "intern_quad_ids SE s q = Some (s\<lparr>dict := d\<rparr>, Inr x)"
    "store_rep SE contents (quad_spec ts q) G (s\<lparr>dict := d\<rparr>)" "encodes (quad_spec ts q) d q x"
    "store_set (quad_spec ts q) G (s\<lparr>dict := d\<rparr>) = store_set ts G s"
    "dom (graph_to_id d) = insert (quad_graph q) (dom (graph_to_id (dict s)))"
    "\<forall>h i. get_graph_id (dict s) h = Some i \<longrightarrow> get_graph_id d h = Some i"
    by (rule intern_quad_ok [OF Cons.prems(1) room(1-3)])
  let ?s = "note_graph q (fst x) (s\<lparr>dict := d\<rparr>)" and ?m = "m(fst x \<mapsto> or_default m (fst x) @ [id_row x])"
  obtain vs where vs: "quad_spec ts q = ts @ vs" using quad_spec_extends by blast
  have rep': "store_rep SE contents (quad_spec ts q) G ?s" using i(2) by simp
  have fits': "batch_fits ?E (quad_spec ts q) (dom (graph_to_id (dict ?s))) (map OpInsert qs)" using room(4) i(5) by simp
  obtain s' m' us where l: "bulk_loop SE ?s ?m (n + 1) qs = Some (s', Inr (m', n + 1 + length qs))"
    "store_rep SE contents (quad_spec ts q @ us) G s'" "quad_spec ts q @ us = foldl quad_spec (quad_spec ts q) qs"
    "graphs s' = graphs ?s" "delta_tier s' = delta_tier ?s"
    "\<forall>h i. get_graph_id (dict ?s) h = Some i \<longrightarrow> get_graph_id (dict s') h = Some i"
    "\<forall>q' \<in> set qs. quad_terms_ok ?E q' \<and> (\<exists>x. encodes (quad_spec ts q @ us) (dict s') q' x)"
    "\<forall>g. length (or_default m' g) \<le> length (or_default ?m g) + length qs \<and>
      set (or_default m' g) = set (or_default ?m g) \<union> {r. \<exists>q' \<in> set qs. \<exists>y. encodes (quad_spec ts q @ us) (dict s') q' y \<and> fst y = g \<and> id_row y = r}"
    using Cons.IH [OF rep' fits', of ?m "n + 1"] by blast
  have e: "encodes (quad_spec ts q @ us) (dict s') q x"
    by (rule encodes_mono [OF i(3)]) (use l(6) in simp)
  have only: "encodes (quad_spec ts q @ us) (dict s') q y \<longleftrightarrow> y = x" for y
    using e encodes_det store_rep_terms [OF l(2)] by blast
  have "bulk_loop SE s m n (q # qs) = Some (s', Inr (m', n + length (q # qs)))"
    using l(1) i(1) by (simp add: id_row_def split: prod.splits)
  moreover have "length (or_default m' g) \<le> length (or_default m g) + length (q # qs)" for g
    using l(8) [rule_format, of g] by (auto split: if_splits)
  moreover have "set (or_default m' g) = set (or_default m g) \<union>
      {r. \<exists>q' \<in> set (q # qs). \<exists>y. encodes (quad_spec ts q @ us) (dict s') q' y \<and> fst y = g \<and> id_row y = r}" for g
    using l(8) [rule_format, of g] only by (auto split: if_splits simp del: split_paired_Ex split_paired_All)
  ultimately show ?case
    using l(2-7) i(6) vs e room(1)
    by (intro exI [of _ s'] exI [of _ m'] exI [of _ "vs @ us"]) (simp del: split_paired_Ex, blast)
qed

end

section \<open>Store operations\<close>

text \<open>A removal of the quad is pending in the buffer.\<close>

definition tombstoned :: "('l, 'v, 'c, 'r, 'b) store_env \<Rightarrow> ('l, 'v, 'c, 'r) louds_inner \<Rightarrow> 'l quad \<Rightarrow> bool" where
  "tombstoned SE s q \<longleftrightarrow> (\<exists>g i j k. lookup_quad_ids SE s q = Some (Some (g, i, j, k)) \<and>
     delta_get (delta_tier s) (pack_quad g i j k) = Some False)"

text \<open>What compaction and a bulk load need.\<close>

definition compact_fits ::
  "('l, 'v, 'c, 'r, 'b) store_env \<Rightarrow> ('c \<Rightarrow> term_id \<rightharpoonup> 'l rdf_term) \<Rightarrow> 'l rdf_term list \<Rightarrow> ('l, 'v, 'c, 'r) louds_inner \<Rightarrow> bool" where
  "compact_fits SE contents ts s \<longleftrightarrow> (\<exists>G. store_rep SE contents ts G s) \<and> store_small s (delta_len (delta_tier s)) \<and>
     terms_compactable (env_lit (st_dict SE)) ts"

definition load_fits ::
  "('l, 'v, 'c, 'r, 'b) store_env \<Rightarrow> ('c \<Rightarrow> term_id \<rightharpoonup> 'l rdf_term) \<Rightarrow> 'l rdf_term list \<Rightarrow> ('l, 'v, 'c, 'r) louds_inner \<Rightarrow>
   'l quad list \<Rightarrow> bool" where
  "load_fits SE contents ts s qs \<longleftrightarrow> (\<exists>G. store_rep SE contents ts G s) \<and> store_small s (length qs) \<and>
     batch_fits (env_lit (st_dict SE)) ts (dom (graph_to_id (dict s))) (map OpInsert qs) \<and>
     length (foldl quad_spec ts qs) \<le> 2 ^ 32 \<and> terms_compactable (env_lit (st_dict SE)) (foldl quad_spec ts qs)"

context louds_env
begin

lemma tombstoned_encodes:
  assumes "store_rep SE contents ts G s" "quad_terms_ok (env_lit (st_dict SE)) q"
  shows "tombstoned SE s q \<longleftrightarrow> (\<exists>x. encodes ts (dict s) q x \<and> delta_get (delta_tier s) (id_key x) = Some False)"
  unfolding tombstoned_def lookup_encodes [OF assms] by (auto simp: id_key_def)

lemma publish_ok:
  assumes rep: "store_rep SE contents ts G (store_inner st)"
  shows "\<exists>st'. publish SE st = Some st' \<and> store_rep SE contents ts G (store_inner st') \<and> decode_snap st' = Some (map Some ts) \<and>
    quads_of SE (store_inner st') = quads_of SE (store_inner st) \<and> delta_tier (store_inner st') = delta_tier (store_inner st)"
proof -
  obtain d where d: "build_decode_snapshot_from_dict (st_dict SE) (dict (store_inner st)) = Some (map Some ts, d)"
    "dict_rep (st_dict SE) contents ts d" "graph_tables d = graph_tables (dict (store_inner st))"
    using build_snapshot_ok [OF store_repD(1) [OF rep]] by blast
  let ?s = "(store_inner st)\<lparr>dict := d\<rparr>"
  have "store_rep SE contents ts G ?s" "store_set ts G ?s = store_set ts G (store_inner st)"
    using store_rep_extend [OF rep, of "[]" d] d(2,3) store_repD(2) [OF rep] graph_tables_graphs [OF d(3)] by simp_all
  then show ?thesis using d(1) quads_of_store_set [OF rep] quads_of_store_set by (auto simp: publish_def)
qed

lemma louds_compact_ok:
  assumes "compact_fits SE contents ts (store_inner st)"
  shows "\<exists>st'. louds_compact SE st = Some (st', Inr ()) \<and> (\<exists>G. store_rep SE contents ts G (store_inner st')) \<and>
    quads_of SE (store_inner st') = quads_of SE (store_inner st) \<and> delta_is_empty (delta_tier (store_inner st')) \<and>
    decode_snap st' = Some (map Some ts)"
proof -
  obtain G where rep: "store_rep SE contents ts G (store_inner st)" using assms by (auto simp: compact_fits_def)
  obtain s G' where s: "compact_locked SE (store_inner st) = Some (s, Inr ())" "store_rep SE contents ts G' s"
    "store_set ts G' s = store_set ts G (store_inner st)" "delta_is_empty (delta_tier s)"
    using compact_locked_ok [OF rep] assms by (auto simp: compact_fits_def)
  obtain st' where "publish SE (st\<lparr>store_inner := s\<rparr>) = Some st'" "store_rep SE contents ts G' (store_inner st')"
    "decode_snap st' = Some (map Some ts)" "quads_of SE (store_inner st') = quads_of SE s" "delta_tier (store_inner st') = delta_tier s"
    using publish_ok [of ts G' "st\<lparr>store_inner := s\<rparr>"] s(2) by auto
  then show ?thesis
    using s quads_of_store_set [OF rep] quads_of_store_set [OF s(2)] by (auto simp: louds_compact_def on_inner_def)
qed

lemma store_rep_clear: "store_rep SE contents ts G s \<Longrightarrow> store_rep SE contents ts G (s\<lparr>delta_tier := delta_new\<rparr>)"
  by (simp add: store_rep_def delta_defs)

text \<open>Adding rows to the indexes past the buffer.\<close>

lemma load_set:
  assumes rep: "store_rep SE contents ts G s" and rep': "store_rep SE contents (ts @ us) G s'" and dl: "delta_tier s' = delta_tier s"
    and qs: "\<forall>q \<in> set qs. quad_terms_ok (env_lit (st_dict SE)) q \<and> (\<exists>x. encodes (ts @ us) (dict s') q x)"
    and old: "\<forall>h i. get_graph_id (dict s) h = Some i \<longrightarrow> get_graph_id (dict s') h = Some i"
    and G': "\<And>g. G' g = G g \<union> {r. \<exists>q \<in> set qs. \<exists>x. encodes (ts @ us) (dict s') q x \<and> fst x = g \<and> id_row x = r}"
  shows "{q. \<exists>x. encodes (ts @ us) (dict s') q x \<and> live G' (delta_tier s) x} = store_set ts G s \<union> {q \<in> set qs. \<not> tombstoned SE s q}"
proof -
  have set: "store_set ts G s = store_set (ts @ us) G s'"
    using store_rep_extend(2) [OF rep store_repD(1,2) [OF rep']] old dl unfolding store_set_def by auto
  have mem: "q \<in> store_set ts G s \<longleftrightarrow> (\<exists>x. encodes (ts @ us) (dict s') q x \<and> live G (delta_tier s) x)" for q
    unfolding set by (simp add: store_set_def dl)
  note len = store_rep_terms [OF rep']
  have inj: "encodes (ts @ us) (dict s') q x \<Longrightarrow> encodes (ts @ us) (dict s') q' x \<Longrightarrow> q = q'" for q q' x
    using encodes_inj [OF _ store_repD(2) [OF rep']] len by blast
  have row: "id_row x \<in> G' (fst x) \<longleftrightarrow> id_row x \<in> G (fst x) \<or> q \<in> set qs" if "encodes (ts @ us) (dict s') q x" for q x
  proof -
    have "q \<in> set qs" if q': "q' \<in> set qs" and y: "encodes (ts @ us) (dict s') q' y" "fst y = fst x" "id_row y = id_row x" for q' y
    proof -
      have "y = x" using id_row_inj [OF y(2)] y(3) by blast
      then show ?thesis using inj [OF y(1)] \<open>encodes (ts @ us) (dict s') q x\<close> q' by blast
    qed
    then show ?thesis using that unfolding G' by blast
  qed
  have tomb: "tombstoned SE s q \<longleftrightarrow> delta_get (delta_tier s) (id_key x) = Some False"
    if x: "encodes (ts @ us) (dict s') q x" and q: "q \<in> set qs" for q x
  proof -
    have "encodes ts (dict s) q x" if f: "delta_get (delta_tier s) (id_key x) = Some False"
    proof -
      obtain q' where "encodes ts (dict s) q' x"
        using store_repD(7) [OF rep f] encodes_ok [OF _ x] len by auto
      then show ?thesis using encodes_mono [of ts "dict s" q' x "dict s'" us] old inj [OF x] by metis
    qed
    moreover have "y = x" if "encodes ts (dict s) q y" for y
      using encodes_mono [OF that, of "dict s'" us] old x encodes_det len by blast
    ultimately show ?thesis using tombstoned_encodes [OF rep, of q] qs q by blast
  qed
  show ?thesis
  proof (intro set_eqI iffI)
    fix q assume "q \<in> {q. \<exists>x. encodes (ts @ us) (dict s') q x \<and> live G' (delta_tier s) x}"
    then obtain x where x: "encodes (ts @ us) (dict s') q x" "live G' (delta_tier s) x" by blast
    have "live G (delta_tier s) x \<or> q \<in> set qs \<and> \<not> tombstoned SE s q"
      using x(2) row [OF x(1)] tomb [OF x(1)] unfolding live_iff by auto
    then show "q \<in> store_set ts G s \<union> {q \<in> set qs. \<not> tombstoned SE s q}"
      using x(1) mem by blast
  next
    fix q assume "q \<in> store_set ts G s \<union> {q \<in> set qs. \<not> tombstoned SE s q}"
    then obtain x where x: "encodes (ts @ us) (dict s') q x" "live G (delta_tier s) x \<or> q \<in> set qs \<and> \<not> tombstoned SE s q"
      using qs mem by blast
    then have "live G' (delta_tier s) x" using row [OF x(1)] tomb [OF x(1)] unfolding live_iff
      by (cases "delta_get (delta_tier s) (id_key x)") auto
    then show "q \<in> {q. \<exists>x. encodes (ts @ us) (dict s') q x \<and> live G' (delta_tier s) x}" using x(1) by blast
  qed
qed

text \<open>The parts of a bulk load, up to its commit.\<close>

lemma load_parts:
  assumes fits: "load_fits SE contents ts s qs" and rep: "store_rep SE contents ts G s"
  obtains m s1 m1 gs d where "ring_triples SE s = Some m" "bulk_loop SE s m 0 qs = Some (s1, Inr (m1, length qs))"
    "build_graphs_from_triples SE m1 = Some gs" "round_trip SE gs = Some (Inr gs)"
    "dict_compact (st_dict SE) (dict s1) = Some (d, Inr ())" "delta_tier s1 = delta_tier s"
    "store_rep SE contents (foldl quad_spec ts qs) (\<lambda>g. set (or_default m1 g)) (s1\<lparr>dict := d, graphs := gs\<rparr>)"
    "store_set (foldl quad_spec ts qs) (\<lambda>g. set (or_default m1 g)) (s1\<lparr>dict := d, graphs := gs\<rparr>) =
      store_set ts G s \<union> {q \<in> set qs. \<not> tombstoned SE s q}"
    "store_set (foldl quad_spec ts qs) (\<lambda>g. set (or_default m1 g)) (s1\<lparr>dict := d, graphs := gs, delta_tier := delta_new\<rparr>) =
      store_set ts G (s\<lparr>delta_tier := delta_new\<rparr>) \<union> set qs"
proof -
  let ?ts = "foldl quad_spec ts qs"
  obtain m where m: "ring_triples SE s = Some m" "\<forall>g. or_default m g = sorted_list_of_set (G g)"
    using ring_triples_ok [OF rep] by blast
  have room: "batch_fits (env_lit (st_dict SE)) ts (dom (graph_to_id (dict s))) (map OpInsert qs)"
    using fits by (simp add: load_fits_def)
  obtain s1 m1 us where l: "bulk_loop SE s m 0 qs = Some (s1, Inr (m1, length qs))" "store_rep SE contents ?ts G s1"
    "ts @ us = ?ts" "delta_tier s1 = delta_tier s"
    "\<forall>h i. get_graph_id (dict s) h = Some i \<longrightarrow> get_graph_id (dict s1) h = Some i"
    "\<forall>q \<in> set qs. quad_terms_ok (env_lit (st_dict SE)) q \<and> (\<exists>x. encodes ?ts (dict s1) q x)"
    "\<forall>g. length (or_default m1 g) \<le> length (or_default m g) + length qs \<and>
      set (or_default m1 g) = set (or_default m g) \<union> {r. \<exists>q \<in> set qs. \<exists>x. encodes ?ts (dict s1) q x \<and> fst x = g \<and> id_row x = r}"
    using bulk_loop_ok [OF rep room, of m 0] by auto
  let ?G = "\<lambda>g. set (or_default m1 g)"
  have G': "?G g = G g \<union> {r. \<exists>q \<in> set qs. \<exists>x. encodes ?ts (dict s1) q x \<and> fst x = g \<and> id_row x = r}" for g
    using l(7) m(2) ring_rows(1) [OF rep] by simp
  have enc: "\<exists>q x. encodes ?ts (dict s1) q x \<and> fst x = g \<and> id_row x = r" if "r \<in> ?G g" for r g
    using that store_repD(6) [OF l(2)] unfolding G' by blast
  have size: "3 * length (or_default m1 g) \<le> usize_max" for g
    using fits l(7) [rule_format, of g] m(2) ring_rows [OF rep, of g] unfolding load_fits_def store_small_def
    by (auto dest!: spec [of _ g])
  have terms: "terms_compactable (env_lit (st_dict SE)) ?ts" "length ?ts \<le> 2 ^ 32" using fits by (simp_all add: load_fits_def)
  obtain gs d where i: "build_graphs_from_triples SE m1 = Some gs" "round_trip SE gs = Some (Inr gs)"
    "dict_compact (st_dict SE) (dict s1) = Some (d, Inr ())" "encodes ?ts d = encodes ?ts (dict s1)"
    "store_rep SE contents ?ts ?G (s1\<lparr>dict := d, graphs := gs, delta_tier := delta_tier s1\<rparr>)"
    by (rule install_rows [OF l(2) terms enc size store_repD(3,7) [OF l(2)]])
  have "store_set ?ts ?G (s1\<lparr>dict := d, graphs := gs\<rparr>) = store_set ts G s \<union> {q \<in> set qs. \<not> tombstoned SE s q}"
    using load_set [OF rep, of us s1 qs ?G] l(2,4-6) G' unfolding l(3) by (simp add: store_set_def i(4))
  moreover have "store_set ?ts ?G (s1\<lparr>dict := d, graphs := gs, delta_tier := delta_new\<rparr>) = store_set ts G (s\<lparr>delta_tier := delta_new\<rparr>) \<union> set qs"
  proof -
    have "\<not> tombstoned SE (s\<lparr>delta_tier := delta_new\<rparr>) q" for q by (simp add: tombstoned_def delta_defs)
    then show ?thesis
      using load_set [OF store_rep_clear [OF rep], of us "s1\<lparr>delta_tier := delta_new\<rparr>" qs ?G] store_rep_clear [OF l(2)] l(5,6) G'
      unfolding l(3) by (simp add: store_set_def i(4))
  qed
  moreover have "store_rep SE contents ?ts ?G (s1\<lparr>dict := d, graphs := gs\<rparr>)" using i(5) by simp
  ultimately show ?thesis using that [OF m(1) l(1) i(1-3) l(4)] by blast
qed

lemma louds_bulk_load_ok:
  assumes fits: "load_fits SE contents ts (store_inner st) qs"
  shows "\<exists>st'. louds_bulk_load SE st qs = Some (st', Inr (length qs)) \<and>
    (\<exists>G. store_rep SE contents (foldl quad_spec ts qs) G (store_inner st')) \<and>
    quads_of SE (store_inner st') = quads_of SE (store_inner st) \<union> {q \<in> set qs. \<not> tombstoned SE (store_inner st) q} \<and>
    decode_snap st' = Some (map Some (foldl quad_spec ts qs)) \<and> delta_tier (store_inner st') = delta_tier (store_inner st)"
proof -
  let ?s = "store_inner st" and ?ts = "foldl quad_spec ts qs"
  obtain G where rep: "store_rep SE contents ts G ?s" using fits by (auto simp: load_fits_def)
  obtain m s1 m1 gs d where l: "ring_triples SE ?s = Some m" "bulk_loop SE ?s m 0 qs = Some (s1, Inr (m1, length qs))"
    "build_graphs_from_triples SE m1 = Some gs" "round_trip SE gs = Some (Inr gs)"
    "dict_compact (st_dict SE) (dict s1) = Some (d, Inr ())" "delta_tier s1 = delta_tier ?s"
    "store_rep SE contents ?ts (\<lambda>g. set (or_default m1 g)) (s1\<lparr>dict := d, graphs := gs\<rparr>)"
    "store_set ?ts (\<lambda>g. set (or_default m1 g)) (s1\<lparr>dict := d, graphs := gs\<rparr>) = store_set ts G ?s \<union> {q \<in> set qs. \<not> tombstoned SE ?s q}"
    by (rule load_parts [OF fits rep]) blast
  let ?s2 = "s1\<lparr>dict := d, graphs := gs\<rparr>"
  obtain st' where st': "publish SE (st\<lparr>store_inner := ?s2\<rparr>) = Some st'" "store_rep SE contents ?ts (\<lambda>g. set (or_default m1 g)) (store_inner st')"
    "decode_snap st' = Some (map Some ?ts)" "quads_of SE (store_inner st') = quads_of SE ?s2"
    "delta_tier (store_inner st') = delta_tier ?s2"
    using publish_ok [of ?ts "\<lambda>g. set (or_default m1 g)" "st\<lparr>store_inner := ?s2\<rparr>"] l(7) by auto
  have "louds_bulk_load SE st qs = Some (st', Inr (length qs))"
    using l(1-5) st'(1) by (simp add: louds_bulk_load_def on_inner_def on_dict_def commit_ok)
  then show ?thesis
    using st' l(6,8) quads_of_store_set [OF rep] quads_of_store_set [OF l(7)] by auto
qed

end

section \<open>Counting\<close>

lemma card_encoded:
  assumes "distinct ts" "length ts \<le> 2 ^ 40" "graphs_ok d" and x: "\<And>x. x \<in> X \<Longrightarrow> \<exists>q. encodes ts d q x"
  shows "card {q. \<exists>x \<in> X. encodes ts d q x} = card X"
proof -
  define f where "f x = (THE q. encodes ts d q x)" for x
  have f: "encodes ts d q x \<longleftrightarrow> q = f x" if "x \<in> X" for q x
  proof -
    obtain q' where q': "encodes ts d q' x" using x \<open>x \<in> X\<close> by blast
    then have uniq: "encodes ts d r x \<longleftrightarrow> r = q'" for r using encodes_inj [OF assms(2,3) q'] by blast
    then show ?thesis unfolding f_def by simp
  qed
  have "inj_on f X"
  proof (rule inj_onI)
    fix a b assume "a \<in> X" "b \<in> X" "f a = f b"
    then show "a = b" using f encodes_det [OF assms(1)] by metis
  qed
  moreover have "{q. \<exists>x \<in> X. encodes ts d q x} = f ` X" using f by blast
  ultimately show ?thesis by (simp add: card_image)
qed

context louds_env
begin

lemma ring_total:
  assumes "store_rep SE contents ts G s"
  shows "sum_list (map (\<lambda>g. case graphs s g of None \<Rightarrow> 0 | Some ring \<Rightarrow> gr_n ring) (st_order SE (dom (graphs s)))) =
    card {x. id_row x \<in> G (fst x)}"
proof -
  have "sum_list (map (\<lambda>g. case graphs s g of None \<Rightarrow> 0 | Some ring \<Rightarrow> gr_n ring) (st_order SE (dom (graphs s)))) =
      (\<Sum>g \<in> dom (graphs s). card (G g))"
    using ring_rows(2) [OF assms] by (simp add: sum_list_distinct_conv_sum_set order_distinct order_set)
  also have "\<dots> = card (Sigma (dom (graphs s)) G)" using ring_rows(1) [OF assms] by (intro card_SigmaI [symmetric]) auto
  also have "\<dots> = card ((\<lambda>(g, r). id_of g r) ` Sigma (dom (graphs s)) G)"
  proof (rule card_image [symmetric], rule inj_onI, clarify)
    fix g r h t assume "id_of g r = id_of h t"
    then show "g = h \<and> r = t" using id_of_row(1,2) by metis
  qed
  also have "(\<lambda>(g, r). id_of g r) ` Sigma (dom (graphs s)) G = {x. id_row x \<in> G (fst x)}"
  proof (intro set_eqI iffI)
    fix x assume "x \<in> {x. id_row x \<in> G (fst x)}"
    then have "(fst x, id_row x) \<in> Sigma (dom (graphs s)) G" using store_repD(4) [OF assms, of "fst x"] by (auto simp: domIff)
    then show "x \<in> (\<lambda>(g, r). id_of g r) ` Sigma (dom (graphs s)) G"
      by (rule rev_image_eqI) (simp only: id_of_row prod.case)
  qed (auto simp del: split_paired_Ex)
  finally show ?thesis .
qed

text \<open>With an empty buffer the count is exact.\<close>

lemma len_exact:
  assumes rep: "store_rep SE contents ts G s" and empty: "delta_is_empty (delta_tier s)"
  shows "card {x. id_row x \<in> G (fst x)} = card (quads_of SE s)"
proof -
  let ?X = "{x. id_row x \<in> G (fst x)}"
  note len = store_rep_terms [OF rep]
  have get: "delta_get (delta_tier s) k = None" for k using empty by (simp add: delta_defs)
  have "\<exists>q. encodes ts (dict s) q x" if "x \<in> ?X" for x
  proof -
    have "id_row x \<in> G (fst x)" using that by simp
    then obtain q where "encodes ts (dict s) q (id_of (fst x) (id_row x))" "id_ok (id_of (fst x) (id_row x))"
      by (rule ring_row_encodes [OF rep])
    then show ?thesis unfolding id_of_row(3) by blast
  qed
  then have "card {q. \<exists>x \<in> ?X. encodes ts (dict s) q x} = card ?X"
    using card_encoded [of ts "dict s" ?X] len store_repD(2) [OF rep] by blast
  moreover have "{q. \<exists>x \<in> ?X. encodes ts (dict s) q x} = quads_of SE s"
    unfolding quads_of_store_set [OF rep] store_set_def live_def get by auto
  ultimately show ?thesis by simp
qed

lemma ring_le_len:
  assumes "store_rep SE contents ts G s" "delta_is_empty (delta_tier s)"
  shows "(case graphs s g of None \<Rightarrow> 0 | Some ring \<Rightarrow> gr_n ring) \<le> card (quads_of SE s)"
proof (cases "g \<in> dom (graphs s)")
  case True
  let ?n = "\<lambda>g. case graphs s g of None \<Rightarrow> 0 | Some ring \<Rightarrow> gr_n ring"
  have "?n g \<in> set (map ?n (st_order SE (dom (graphs s))))" using True by (simp add: order_set)
  then have "?n g \<le> sum_list (map ?n (st_order SE (dom (graphs s))))" by (rule member_le_sum_list [OF _ zero_le])
  then show ?thesis using ring_total [OF assms(1)] len_exact [OF assms] by simp
qed (simp add: domIff)

text \<open>A new quad inserted and removed again leaves a tombstone for nothing.\<close>

lemma insert_remove_tombstone:
  assumes rep: "store_rep SE contents ts G s" and empty: "delta_is_empty (delta_tier s)" and q: "q \<notin> store_set ts G s"
    and fits: "batch_fits (env_lit (st_dict SE)) ts (dom (graph_to_id (dict s))) [OpInsert q, OpRemove q]"
  shows "\<exists>s1 s2 k. apply_insert SE s q = Some (s1, Inr True) \<and> apply_remove SE s1 q = Some (s2, Inr True) \<and>
    graphs s2 = graphs s \<and> delta_tier s2 = \<lparr>inner = [(k, False)]\<rparr>"
proof -
  let ?ts = "quad_spec ts q"
  have ok: "quad_terms_ok (env_lit (st_dict SE)) q" "length ?ts \<le> 2 ^ 40" "card (insert (quad_graph q) (dom (graph_to_id (dict s)))) \<le> 256"
    using fits by auto
  obtain d x where i: "intern_quad_ids SE s q = Some (s\<lparr>dict := d\<rparr>, Inr x)"
    "store_rep SE contents ?ts G (s\<lparr>dict := d\<rparr>)" "encodes ?ts d q x"
    "store_set ?ts G (s\<lparr>dict := d\<rparr>) = store_set ts G s"
    by (rule intern_quad_ok [OF rep ok])
  obtain g a b c where x: "x = (g, a, b, c)" by (cases x)
  have k: "pack_quad g a b c = id_key x" by (simp add: x id_key_def)
  have dl: "delta_tier s = \<lparr>inner = []\<rparr>" using empty by (cases "delta_tier s") (simp add: delta_defs)
  have e: "encodes ?ts (dict (s\<lparr>dict := d\<rparr>)) q x" using i(3) by simp
  have "id_row x \<notin> G g" using store_set_encoded [OF i(2) e] q i(4) by (simp add: live_def dl delta_defs x)
  then have has: "ring_has SE (s\<lparr>dict := d\<rparr>) g a b c = Some False" using ring_has_iff [OF i(2)] by (simp add: x)
  let ?s1 = "note_graph q g (s\<lparr>dict := d, delta_tier := insert_key (delta_tier s) (id_key x)\<rparr>)"
  have 1: "apply_insert SE s q = Some (?s1, Inr True)"
    using i(1) has by (simp add: apply_insert_def Let_def x k dl delta_defs)
  have "store_rep SE contents ?ts G ?s1" using store_set_write(1) [OF i(2) e] by simp
  then have "lookup_quad_ids SE ?s1 q = Some (Some x)" using lookup_encodes ok(1) i(3) by simp
  then have "apply_remove SE ?s1 q = Some (?s1\<lparr>delta_tier := tombstone_key (delta_tier ?s1) (id_key x)\<rparr>, Inr True)"
    by (simp add: apply_remove_def Let_def x k dl delta_defs bt_get_def)
  then show ?thesis using 1 by (auto simp: dl delta_defs)
qed

end

section \<open>Joins over a graph of the store\<close>

context louds_env
begin

lemma lftj_decode_published:
  "decode_snap st = Some (map Some ts) \<Longrightarrow> lftj_decode_term SE st i = Some (nth_opt ts (unat i), st)"
  by (auto simp: lftj_decode_term_def nth_opt_def)

lemma lftj_atom_source:
  assumes rep: "store_rep SE contents ts G (store_inner st)"
  shows "atom_source (cltj_ok (st_rank SE) (st_bits SE)) (cltj_paths (st_rank SE) (st_bits SE)) (lftj_join_scan SE st g) (G (GraphId g))"
proof (cases "graphs (store_inner st) (GraphId g)")
  case None
  then have "G (GraphId g) = {}" by (rule store_repD(4) [OF rep])
  then show ?thesis using None by unfold_locales (simp add: lftj_join_scan_def scan_values_def)
next
  case (Some ring)
  then have "lftj_join_scan SE st g = ring_join_scan (st_rank SE) (st_bits SE) ring" by (simp add: lftj_join_scan_def fun_eq_iff)
  then show ?thesis using ring_atom_source [OF store_repD(5) [OF rep Some]] by simp
qed

text \<open>With an empty buffer the index of a graph holds the rows of its quads.\<close>

lemma graph_rows:
  assumes rep: "store_rep SE contents ts G s" and empty: "delta_is_empty (delta_tier s)"
  shows "G g = {id_row x | x q. q \<in> quads_of SE s \<and> encodes ts (dict s) q x \<and> fst x = g}"
proof -
  have live: "live G (delta_tier s) x \<longleftrightarrow> id_row x \<in> G (fst x)" for x using empty by (simp add: live_def delta_defs)
  show ?thesis
  proof (intro set_eqI iffI)
    fix r assume "r \<in> G g"
    then obtain q x where x: "encodes ts (dict s) q x" "fst x = g" "id_row x = r" using store_repD(6) [OF rep] by blast
    then have "q \<in> quads_of SE s"
      using \<open>r \<in> G g\<close> live store_set_encoded [OF rep x(1)] unfolding quads_of_store_set [OF rep] by simp
    then show "r \<in> {id_row x | x q. q \<in> quads_of SE s \<and> encodes ts (dict s) q x \<and> fst x = g}" using x by blast
  next
    fix r assume "r \<in> {id_row x | x q. q \<in> quads_of SE s \<and> encodes ts (dict s) q x \<and> fst x = g}"
    then obtain q x where x: "r = id_row x" "q \<in> quads_of SE s" "encodes ts (dict s) q x" "fst x = g" by blast
    then show "r \<in> G g" using store_set_encoded [OF rep x(3)] live unfolding quads_of_store_set [OF rep] by simp
  qed
qed

end

section \<open>A loaded store\<close>

lemma letters_compactable:
  "terms_compactable example_literals [NamedNode [97], NamedNode [98], NamedNode [99]]"
  "terms_compactable example_literals [NamedNode [97], NamedNode [98], NamedNode [99], NamedNode [100]]"
proof -
  let ?ts = "[NamedNode [97], NamedNode [98], NamedNode [99]] :: rdf_literal rdf_term list"
  have "flat_ids ?ts = [0, 1, 2]" "flat_ids (?ts @ [NamedNode [100]]) = [0, 1, 2, 3]" by (simp_all add: flat_ids_def)
  then have "compact_entries example_literals ?ts = [(0, [97], [], 0), (0, [98], [], 1), (0, [99], [], 2)]"
    "compact_entries example_literals (?ts @ [NamedNode [100]]) = [(0, [97], [], 0), (0, [98], [], 1), (0, [99], [], 2), (0, [100], [], 3)]"
    by (simp_all add: compact_entries_def compact_terms_def entry_of_def)
  then show "terms_compactable example_literals ?ts"
    "terms_compactable example_literals [NamedNode [97], NamedNode [98], NamedNode [99], NamedNode [100]]"
    by (auto simp: terms_compactable_def entries_fit_def no_straddling_def BLOCK_SIZE_def)
qed

lemma example_store_new:
  "store_inner (louds_new example_store_env) = inner_new example_store_env"
  "env_lit (st_dict example_store_env) = example_literals"
  "dom (graph_to_id (dict (inner_new example_store_env))) = {DefaultGraph}"
  "quad_graph (letter_quad n) = DefaultGraph" "\<not> is_triple (quad_object (letter_quad n))"
  "delta_tier (inner_new example_store_env) = delta_new" "graphs (inner_new example_store_env) = Map.empty"
  "dict_len (dict (inner_new example_store_env)) = 0"
  by (auto simp: louds_new_def inner_new_def dict_new_def example_store_env_def example_env_def letter_quad_def dict_len_def)

lemma example_load_fits:
  "load_fits example_store_env list_contents [] (store_inner (louds_new example_store_env)) [letter_quad 99]"
  "load_fits example_store_env list_contents [] (store_inner (louds_new example_store_env)) [letter_quad 99, letter_quad 100]"
  unfolding load_fits_def example_store_new store_small_def
  using example_store.store_rep_new letter_quad_ok [of 99] letter_quad_ok [of 100] letters_compactable
  by (auto simp: letter_quad_spec example_store_new usize_max_def)

lemma example_loaded:
  obtains st G where "louds_bulk_load example_store_env (louds_new example_store_env) [letter_quad 99] = Some (st, Inr 1)"
    "store_rep example_store_env list_contents [NamedNode [97], NamedNode [98], NamedNode [99]] G (store_inner st)"
    "quads_of example_store_env (store_inner st) = {letter_quad 99}" "delta_tier (store_inner st) = delta_new"
proof -
  have "\<not> tombstoned example_store_env (inner_new example_store_env) q" for q
    by (simp add: tombstoned_def example_store_new delta_defs)
  then show ?thesis
    using that example_store.louds_bulk_load_ok [OF example_load_fits(1)] example_store.quads_of_new
    by (auto simp: example_store_new letter_quad_spec)
qed

section \<open>Properties\<close>





text \<open>
  (C40) The count is wrong after a write that was undone: on a store without pending writes, inserting a new
  quad and removing it again leaves the quads as they were, but the reported number is one less than their
  number, because the tombstone is subtracted from the indexed quads it does not hide.
\<close>

theorem len_undercounts:
  assumes "louds_env SE contents" and "store_rep SE contents ts G (store_inner st)" and "\<not> lftj_has_delta st"
    and "q \<notin> quads_of SE (store_inner st)"
    and "batch_fits (env_lit (st_dict SE)) ts (dom (graph_to_id (dict (store_inner st)))) [OpInsert q, OpRemove q]"
  shows "\<exists>st'. louds_apply_batch SE st [OpInsert q, OpRemove q] = Some (st', Inr (1, 1)) \<and>
    quads_of SE (store_inner st') = quads_of SE (store_inner st) \<and>
    louds_len SE (store_inner st') = Inr (card (quads_of SE (store_inner st)) - 1)"
proof -
  let ?s = "store_inner st"
  have empty: "delta_is_empty (delta_tier ?s)" using assms(3) by (simp add: lftj_has_delta_def)
  have q: "q \<notin> store_set ts G ?s" using assms(4) louds_env.quads_of_store_set [OF assms(1,2)] by simp
  obtain s1 s2 k where s: "apply_insert SE ?s q = Some (s1, Inr True)" "apply_remove SE s1 q = Some (s2, Inr True)"
    "graphs s2 = graphs ?s" "delta_tier s2 = \<lparr>inner = [(k, False)]\<rparr>"
    using louds_env.insert_remove_tombstone [OF assms(1,2) empty q assms(5)] by blast
  have batch: "louds_apply_batch SE st [OpInsert q, OpRemove q] = Some (st\<lparr>store_inner := s2, decode_snap := None\<rparr>, Inr (1, 1))"
    using s(1,2,4) by (simp add: louds_apply_batch_def on_inner_def drop_if_dirty_def delta_defs)
  have "store_admits SE contents [OpInsert q, OpRemove q] ?s" using assms(2,5) unfolding store_admits_def by blast
  then have "quads_of SE s2 = quads_of SE ?s"
    using louds_env.louds_apply_batch_ok [OF assms(1)] batch assms(4) by fastforce
  moreover have "louds_len SE s2 = Inr (card (quads_of SE ?s) - 1)"
    using louds_env.ring_total [OF assms(1,2)] louds_env.len_exact [OF assms(1,2) empty] s(3,4)
    by (simp add: louds_len_def insert_count_def tombstone_count_def)
  ultimately show ?thesis using batch by simp
qed

text \<open>A store with one quad reports itself empty.\<close>

theorem len_undercounts_witness:
  "\<exists>st st'. louds_bulk_load example_store_env (louds_new example_store_env) [letter_quad 99] = Some (st, Inr 1) \<and>
     louds_apply_batch example_store_env st [OpInsert (letter_quad 100), OpRemove (letter_quad 100)] = Some (st', Inr (1, 1)) \<and>
     quads_of example_store_env (store_inner st') = {letter_quad 99} \<and>
     default_is_empty (louds_len example_store_env) (store_inner st') = Inr True"
proof -
  let ?ts = "[NamedNode [97], NamedNode [98], NamedNode [99]] :: rdf_literal rdf_term list"
  obtain st G where st: "louds_bulk_load example_store_env (louds_new example_store_env) [letter_quad 99] = Some (st, Inr 1)"
    "store_rep example_store_env list_contents ?ts G (store_inner st)"
    "quads_of example_store_env (store_inner st) = {letter_quad 99}" "delta_tier (store_inner st) = delta_new" by (rule example_loaded)
  have "letter_quad 100 \<notin> quads_of example_store_env (store_inner st)" using st(3) by (simp add: letter_quad_inj)
  moreover have "\<not> lftj_has_delta st" using st(4) by (simp add: lftj_has_delta_def delta_defs)
  moreover have "batch_fits (env_lit (st_dict example_store_env)) ?ts (dom (graph_to_id (dict (store_inner st)))) [OpInsert (letter_quad 100), OpRemove (letter_quad 100)]"
    using letter_quad_ok [of 100] graph_names_card [OF store_repD(2) [OF st(2)]]
    by (simp add: letter_quad_spec example_store_new insert_absorb)
  ultimately show ?thesis
    using len_undercounts [OF example_store.louds_env_axioms st(2), of "letter_quad 100"] st(1,3)
    by (auto simp: default_is_empty_def)
qed

end
