(* ===== verification/Manifest.thy ===== *)
theory Manifest
  imports Rdf
begin

text \<open>
  The commit point of persistent stores, \<^verbatim>\<open>crates/core/nova-storage/src/manifest.rs\<close>: the text
  format with its checksum, atomic saving, loading, the names of generation files and log segments, and
  the removal of obsolete files. A directory is a map from file names to contents; names and text are
  byte strings. The checksum of the \<^verbatim>\<open>crc32fast\<close> crate is the parameter \<open>crc\<close>.
\<close>

section \<open>Text\<close>

definition ascii :: "string \<Rightarrow> bytes" where
  "ascii s = map of_char s"

text \<open>Rust's \<^verbatim>\<open>Display\<close> and \<^verbatim>\<open>FromStr\<close> for unsigned integers: an optional sign and digits, no overflow.\<close>

definition digit :: "nat \<Rightarrow> u8" where
  "digit d = (if d < 10 then 48 + of_nat d else 87 + of_nat d)"

fun show_nat :: "nat \<Rightarrow> bytes" where
  "show_nat n = (if n < 10 then [digit n] else show_nat (n div 10) @ [digit (n mod 10)])"

declare show_nat.simps [simp del]

definition digit_value :: "nat \<Rightarrow> u8 \<Rightarrow> nat option" where
  "digit_value radix b =
     (let v = (if 48 \<le> b \<and> b \<le> 57 then Some (unat b - 48)
               else if 97 \<le> b \<and> b \<le> 122 then Some (unat b - 87)
               else if 65 \<le> b \<and> b \<le> 90 then Some (unat b - 55) else None)
      in case v of None \<Rightarrow> None | Some d \<Rightarrow> if d < radix then Some d else None)"

fun parse_digits :: "nat \<Rightarrow> nat \<Rightarrow> nat \<Rightarrow> bytes \<Rightarrow> nat option" where
  "parse_digits radix limit acc [] = Some acc"
| "parse_digits radix limit acc (b # bs) =
     (case digit_value radix b of
        None \<Rightarrow> None
      | Some d \<Rightarrow> let acc = acc * radix + d in if acc < limit then parse_digits radix limit acc bs else None)"

definition from_str_radix :: "nat \<Rightarrow> nat \<Rightarrow> bytes \<Rightarrow> nat option" where
  "from_str_radix radix limit s =
     (case s of
        [] \<Rightarrow> None
      | b # bs \<Rightarrow> if b = 43 then (if bs = [] then None else parse_digits radix limit 0 bs)
                  else parse_digits radix limit 0 s)"

definition parse_u64 :: "bytes \<Rightarrow> u64 option" where
  "parse_u64 s = map_option of_nat (from_str_radix 10 (2 ^ 64) s)"

definition parse_u8 :: "bytes \<Rightarrow> u8 option" where
  "parse_u8 s = map_option of_nat (from_str_radix 10 (2 ^ 8) s)"

text \<open>The format specifiers \<^verbatim>\<open>{:06}\<close> and \<^verbatim>\<open>{:08x}\<close>.\<close>

definition pad_left :: "nat \<Rightarrow> bytes \<Rightarrow> bytes" where
  "pad_left n s = replicate (n - length s) 48 @ s"

fun show_hex :: "nat \<Rightarrow> bytes" where
  "show_hex n = (if n < 16 then [digit n] else show_hex (n div 16) @ [digit (n mod 16)])"

declare show_hex.simps [simp del]

definition strip_prefix :: "bytes \<Rightarrow> bytes \<Rightarrow> bytes option" where
  "strip_prefix p s = (if take (length p) s = p then Some (drop (length p) s) else None)"

definition starts_with :: "bytes \<Rightarrow> bytes \<Rightarrow> bool" where
  "starts_with p s \<longleftrightarrow> take (length p) s = p"

text \<open>\<^verbatim>\<open>str::lines\<close>: split at line feeds, dropping a carriage return before one; no empty last line.\<close>

definition chomp :: "bytes \<Rightarrow> bytes" where
  "chomp l = (if l \<noteq> [] \<and> last l = 13 then butlast l else l)"

fun lines_from :: "bytes \<Rightarrow> bytes \<Rightarrow> bytes list" where
  "lines_from cur [] = (if cur = [] then [] else [cur])"
| "lines_from cur (b # bs) = (if b = 10 then chomp cur # lines_from [] bs else lines_from (cur @ [b]) bs)"

definition text_lines :: "bytes \<Rightarrow> bytes list" where
  "text_lines s = lines_from [] s"

section \<open>The manifest\<close>

definition MANIFEST_FILE_NAME :: bytes where
  "MANIFEST_FILE_NAME = ascii ''nova.manifest''"

definition HEADER_LINE :: bytes where
  "HEADER_LINE = ascii ''NOVA_MANIFEST v1''"

record manifest =
  snapshot_gen :: u64
  wal_seq :: u64

definition manifest_fresh :: manifest where
  "manifest_fresh = \<lparr>snapshot_gen = 0, wal_seq = 1\<rparr>"

definition manifest_body :: "manifest \<Rightarrow> bytes" where
  "manifest_body m = HEADER_LINE @ [10] @ ascii ''snapshot_gen '' @ show_nat (unat (snapshot_gen m)) @ [10] @
     ascii ''wal_seq '' @ show_nat (unat (wal_seq m)) @ [10]"

definition manifest_encode :: "(bytes \<Rightarrow> u32) \<Rightarrow> manifest \<Rightarrow> bytes" where
  "manifest_encode crc m = manifest_body m @ ascii ''crc32 '' @ pad_left 8 (show_hex (unat (crc (manifest_body m)))) @ [10]"

definition manifest_decode :: "(bytes \<Rightarrow> u32) \<Rightarrow> bytes \<Rightarrow> manifest option" where
  "manifest_decode crc text =
     (let ls = text_lines text in
      do {l0 \<leftarrow> nth_opt ls 0;
          if l0 \<noteq> HEADER_LINE then None
          else do {
            l1 \<leftarrow> nth_opt ls 1; l1 \<leftarrow> strip_prefix (ascii ''snapshot_gen '') l1; g \<leftarrow> parse_u64 l1;
            l2 \<leftarrow> nth_opt ls 2; l2 \<leftarrow> strip_prefix (ascii ''wal_seq '') l2; w \<leftarrow> parse_u64 l2;
            l3 \<leftarrow> nth_opt ls 3; l3 \<leftarrow> strip_prefix (ascii ''crc32 '') l3;
            stored_crc \<leftarrow> from_str_radix 16 (2 ^ 32) l3;
            let m = \<lparr>snapshot_gen = g, wal_seq = w\<rparr> in
            if unat (crc (manifest_body m)) \<noteq> stored_crc then None else Some m}})"

section \<open>Directories\<close>

type_synonym directory = "bytes \<rightharpoonup> bytes"

definition tmp_sibling :: "bytes \<Rightarrow> bytes" where
  "tmp_sibling name = name @ ascii ''.tmp''"

text \<open>Saving writes a sibling file, then renames it over the manifest; the two file-system calls as steps.\<close>

definition write_file :: "bytes \<Rightarrow> bytes \<Rightarrow> directory \<Rightarrow> directory" where
  "write_file name content dir = dir(name \<mapsto> content)"

definition rename_file :: "bytes \<Rightarrow> bytes \<Rightarrow> directory \<Rightarrow> directory" where
  "rename_file source target dir = (case dir source of None \<Rightarrow> dir | Some c \<Rightarrow> dir(target \<mapsto> c, source := None))"

definition manifest_save :: "(bytes \<Rightarrow> u32) \<Rightarrow> manifest \<Rightarrow> directory \<Rightarrow> directory" where
  "manifest_save crc m dir =
     rename_file (tmp_sibling MANIFEST_FILE_NAME) MANIFEST_FILE_NAME
       (write_file (tmp_sibling MANIFEST_FILE_NAME) (manifest_encode crc m) dir)"

definition dir_has_any_data_files :: "directory \<Rightarrow> bool" where
  "dir_has_any_data_files dir \<longleftrightarrow> (\<exists>name \<in> dom dir.
     starts_with (ascii ''nova.snapshot.'') name \<or> starts_with (ascii ''nova.wal.'') name \<or>
     starts_with (ascii ''nova.dict.'') name \<or> starts_with (ascii ''nova.ring.'') name \<or>
     starts_with (ascii ''nova.ringmap.'') name)"

definition manifest_load :: "(bytes \<Rightarrow> u32) \<Rightarrow> directory \<Rightarrow> manifest result" where
  "manifest_load crc dir =
     (case dir MANIFEST_FILE_NAME of
        None \<Rightarrow> Inr manifest_fresh
      | Some text \<Rightarrow>
          if \<not> valid_utf8 text then Inl (Storage ''manifest read failed'')
          else (case manifest_decode crc text of
                  Some m \<Rightarrow> Inr m
                | None \<Rightarrow> if dir_has_any_data_files dir then Inl (Storage ''manifest is corrupt/unreadable'')
                          else Inr manifest_fresh))"

section \<open>File names\<close>

definition snapshot_path :: "u64 \<Rightarrow> bytes" where
  "snapshot_path g = ascii ''nova.snapshot.'' @ show_nat (unat g)"

definition dict_path :: "u64 \<Rightarrow> bytes" where
  "dict_path g = ascii ''nova.dict.'' @ show_nat (unat g)"

definition wal_segment_path :: "u64 \<Rightarrow> bytes" where
  "wal_segment_path q = ascii ''nova.wal.'' @ pad_left 6 (show_nat (unat q))"

definition ring_image_path :: "u64 \<Rightarrow> u8 \<Rightarrow> bytes" where
  "ring_image_path g gid = ascii ''nova.ring.'' @ show_nat (unat g) @ [46] @ show_nat (unat gid)"

definition ring_remap_path :: "u64 \<Rightarrow> u8 \<Rightarrow> bytes" where
  "ring_remap_path g gid = ascii ''nova.ringmap.'' @ show_nat (unat g) @ [46] @ show_nat (unat gid)"

definition parse_snapshot_gen :: "bytes \<Rightarrow> u64 option" where
  "parse_snapshot_gen name = do {r \<leftarrow> strip_prefix (ascii ''nova.snapshot.'') name; parse_u64 r}"

definition parse_dict_gen :: "bytes \<Rightarrow> u64 option" where
  "parse_dict_gen name = do {r \<leftarrow> strip_prefix (ascii ''nova.dict.'') name; parse_u64 r}"

definition parse_wal_seq :: "bytes \<Rightarrow> u64 option" where
  "parse_wal_seq name = do {r \<leftarrow> strip_prefix (ascii ''nova.wal.'') name; parse_u64 r}"

text \<open>\<^verbatim>\<open>str::rsplit_once\<close> at a byte.\<close>

definition rsplit_once :: "u8 \<Rightarrow> bytes \<Rightarrow> (bytes \<times> bytes) option" where
  "rsplit_once c s =
     (if c \<in> set s then
        let tail = takeWhile (\<lambda>b. b \<noteq> c) (rev s) in Some (take (length s - length tail - 1) s, rev tail)
      else None)"

definition parse_ring_image :: "bytes \<Rightarrow> (u64 \<times> u8) option" where
  "parse_ring_image name =
     do {rest \<leftarrow> strip_prefix (ascii ''nova.ring.'') name;
         (gen_s, gid_s) \<leftarrow> rsplit_once 46 rest;
         g \<leftarrow> parse_u64 gen_s; gid \<leftarrow> parse_u8 gid_s; Some (g, gid)}"

definition parse_ring_remap :: "bytes \<Rightarrow> (u64 \<times> u8) option" where
  "parse_ring_remap name =
     do {rest \<leftarrow> strip_prefix (ascii ''nova.ringmap.'') name;
         (gen_s, gid_s) \<leftarrow> rsplit_once 46 rest;
         g \<leftarrow> parse_u64 gen_s; gid \<leftarrow> parse_u8 gid_s; Some (g, gid)}"

text \<open>The decision of \<open>cleanup_orphans\<close> for one file; \<open>removed\<close> tells which removals succeed.\<close>

definition is_orphan :: "u64 \<Rightarrow> u64 \<Rightarrow> bytes \<Rightarrow> bool" where
  "is_orphan keep_gen keep_seq name =
     (case parse_snapshot_gen name of
        Some g \<Rightarrow> g < keep_gen
      | None \<Rightarrow> (case parse_dict_gen name of
        Some g \<Rightarrow> g < keep_gen
      | None \<Rightarrow> (case parse_ring_image name of
        Some (g, _) \<Rightarrow> g < keep_gen
      | None \<Rightarrow> (case parse_ring_remap name of
        Some (g, _) \<Rightarrow> g < keep_gen
      | None \<Rightarrow> (case parse_wal_seq name of
        Some q \<Rightarrow> q < keep_seq
      | None \<Rightarrow> False)))))"

definition cleanup_orphans :: "(bytes \<Rightarrow> bool) \<Rightarrow> u64 \<Rightarrow> u64 \<Rightarrow> directory \<Rightarrow> directory" where
  "cleanup_orphans removed keep_gen keep_seq dir =
     (\<lambda>name. if is_orphan keep_gen keep_seq name \<and> removed name then None else dir name)"

section \<open>Numbers read back\<close>

lemma digit_bounds: "d < 10 \<Longrightarrow> unat (digit d) = 48 + d" "d < 16 \<Longrightarrow> \<not> d < 10 \<Longrightarrow> unat (digit d) = 87 + d"
  by (simp_all add: digit_def unat_word_ariths unat_of_nat)

lemma digit_value_digit: "d < radix \<Longrightarrow> radix \<le> 16 \<Longrightarrow> digit_value radix (digit d) = Some d"
proof (cases "d < 10")
  case True
  moreover assume "d < radix"
  ultimately show ?thesis using digit_bounds(1) [of d] by (simp add: digit_value_def word_le_nat_alt)
next
  case False
  moreover assume "d < radix" "radix \<le> 16"
  ultimately show ?thesis using digit_bounds(2) [of d] by (simp add: digit_value_def word_le_nat_alt)
qed

lemma parse_digits_append:
  "parse_digits radix limit acc (xs @ ys) =
   (case parse_digits radix limit acc xs of None \<Rightarrow> None | Some a \<Rightarrow> parse_digits radix limit a ys)"
  by (induction xs arbitrary: acc) (auto simp: Let_def split: option.splits)

lemma parse_show_nat: "n < limit \<Longrightarrow> parse_digits 10 limit 0 (show_nat n) = Some n"
proof (induction n rule: show_nat.induct)
  case (1 n)
  show ?case
  proof (cases "n < 10")
    case True
    then show ?thesis using 1(2) by (subst show_nat.simps) (simp add: digit_value_digit)
  next
    case False
    then have "parse_digits 10 limit 0 (show_nat (n div 10)) = Some (n div 10)"
      using 1 by (meson div_le_dividend le_less_trans)
    then show ?thesis
      using False 1(2) by (subst show_nat.simps) (simp add: parse_digits_append digit_value_digit)
  qed
qed

lemma parse_show_hex: "n < limit \<Longrightarrow> parse_digits 16 limit 0 (show_hex n) = Some n"
proof (induction n rule: show_hex.induct)
  case (1 n)
  show ?case
  proof (cases "n < 16")
    case True
    then show ?thesis using 1(2) by (subst show_hex.simps) (simp add: digit_value_digit)
  next
    case False
    then have "parse_digits 16 limit 0 (show_hex (n div 16)) = Some (n div 16)"
      using 1 by (meson div_le_dividend le_less_trans)
    then show ?thesis
      using False 1(2) by (subst show_hex.simps) (simp add: parse_digits_append digit_value_digit)
  qed
qed

lemma digit_48: "digit 0 = 48"
  by (simp add: digit_def)

lemma parse_pad_left:
  assumes "0 < limit" "0 < radix" "radix \<le> 16"
  shows "parse_digits radix limit 0 (pad_left n s) = parse_digits radix limit 0 s"
proof -
  have "digit_value radix 48 = Some 0" using digit_value_digit [of 0 radix] assms by (simp add: digit_48)
  then have "parse_digits radix limit 0 (replicate k 48) = Some 0" for k using assms(1) by (induction k) auto
  then show ?thesis by (simp add: pad_left_def parse_digits_append)
qed

text \<open>Bytes of printed numbers: digits only.\<close>

definition alnum :: "u8 \<Rightarrow> bool" where
  "alnum b \<longleftrightarrow> 48 \<le> b \<and> b \<le> 57 \<or> 97 \<le> b \<and> b \<le> 102"

lemma alnum_digit: "d < 16 \<Longrightarrow> alnum (digit d)"
  using digit_bounds [of d] by (cases "d < 10") (auto simp: alnum_def word_le_nat_alt)

lemma show_nat_alnum: "show_nat n \<noteq> [] \<and> (\<forall>b \<in> set (show_nat n). alnum b)"
proof (induction n rule: show_nat.induct)
  case (1 n)
  then show ?case by (subst (1 2) show_nat.simps) (auto simp: alnum_digit)
qed

lemma show_hex_alnum: "show_hex n \<noteq> [] \<and> (\<forall>b \<in> set (show_hex n). alnum b)"
proof (induction n rule: show_hex.induct)
  case (1 n)
  then show ?case by (subst (1 2) show_hex.simps) (auto simp: alnum_digit)
qed

lemma pad_left_alnum:
  assumes "s \<noteq> [] \<and> (\<forall>b \<in> set s. alnum b)"
  shows "pad_left n s \<noteq> [] \<and> (\<forall>b \<in> set (pad_left n s). alnum b)"
proof -
  have "alnum 48" by (simp add: alnum_def)
  then show ?thesis using assms by (auto simp: pad_left_def)
qed

lemma from_str_radix_alnum:
  assumes "s \<noteq> [] \<and> (\<forall>b \<in> set s. alnum b)"
  shows "from_str_radix radix limit s = parse_digits radix limit 0 s"
proof -
  have "\<not> alnum 43" by (simp add: alnum_def)
  then show ?thesis using assms by (cases s) (auto simp: from_str_radix_def)
qed

lemma parse_u64_show: "parse_u64 (show_nat (unat w)) = Some w"
  using unsigned_less [of w, where ?'a = nat] by (simp add: parse_u64_def from_str_radix_alnum [OF show_nat_alnum] parse_show_nat)

lemma parse_u8_show: "parse_u8 (show_nat (unat w)) = Some w"
  using unsigned_less [of w, where ?'a = nat] by (simp add: parse_u8_def from_str_radix_alnum [OF show_nat_alnum] parse_show_nat)

lemma parse_u64_pad: "parse_u64 (pad_left 6 (show_nat (unat w))) = Some w"
  using unsigned_less [of w, where ?'a = nat]
  by (simp add: parse_u64_def from_str_radix_alnum [OF pad_left_alnum [OF show_nat_alnum]] parse_pad_left parse_show_nat)

lemma parse_hex_pad: "from_str_radix 16 (2 ^ 32) (pad_left 8 (show_hex (unat (w :: u32)))) = Some (unat w)"
  using unsigned_less [of w, where ?'a = nat]
  by (simp add: from_str_radix_alnum [OF pad_left_alnum [OF show_hex_alnum]] parse_pad_left parse_show_hex)

section \<open>The text format reads back\<close>

lemma lines_from_line:
  "10 \<notin> set l \<Longrightarrow> lines_from cur (l @ 10 # rest) = chomp (cur @ l) # lines_from [] rest"
  by (induction l arbitrary: cur) auto

lemma text_lines_line: "10 \<notin> set l \<Longrightarrow> 13 \<notin> set l \<Longrightarrow> text_lines (l @ 10 # rest) = l # text_lines rest"
  unfolding text_lines_def by (subst lines_from_line) (auto simp: chomp_def dest: last_in_set)

lemma strip_prefix_append [simp]: "strip_prefix p (p @ s) = Some s"
  by (simp add: strip_prefix_def)

lemma alnum_no_breaks: "\<not> alnum 10" "\<not> alnum 13" "\<not> alnum 46"
  by (simp_all add: alnum_def)

lemma no_breaks:
  "10 \<notin> set HEADER_LINE" "13 \<notin> set HEADER_LINE"
  "10 \<notin> set (ascii ''snapshot_gen '')" "13 \<notin> set (ascii ''snapshot_gen '')"
  "10 \<notin> set (ascii ''wal_seq '')" "13 \<notin> set (ascii ''wal_seq '')"
  "10 \<notin> set (ascii ''crc32 '')" "13 \<notin> set (ascii ''crc32 '')"
  by (simp_all add: HEADER_LINE_def ascii_def)

lemma manifest_lines:
  "text_lines (manifest_encode crc m) =
   [HEADER_LINE, ascii ''snapshot_gen '' @ show_nat (unat (snapshot_gen m)),
    ascii ''wal_seq '' @ show_nat (unat (wal_seq m)),
    ascii ''crc32 '' @ pad_left 8 (show_hex (unat (crc (manifest_body m))))]"
proof -
  have s: "10 \<notin> set (show_nat n)" "13 \<notin> set (show_nat n)" for n
    using show_nat_alnum [of n] alnum_no_breaks by auto
  have h: "10 \<notin> set (pad_left 8 (show_hex n))" "13 \<notin> set (pad_left 8 (show_hex n))" for n
    using pad_left_alnum [OF show_hex_alnum, of 8 n] alnum_no_breaks by auto
  let ?body = "manifest_body m"
  have "manifest_encode crc m = HEADER_LINE @ 10 # (ascii ''snapshot_gen '' @ show_nat (unat (snapshot_gen m))) @
      10 # (ascii ''wal_seq '' @ show_nat (unat (wal_seq m))) @
      10 # (ascii ''crc32 '' @ pad_left 8 (show_hex (unat (crc ?body)))) @ 10 # []"
    by (simp add: manifest_encode_def manifest_body_def)
  moreover have "text_lines [] = []" by (simp add: text_lines_def)
  ultimately show ?thesis using s h no_breaks by (simp only: text_lines_line set_append Un_iff simp_thms)
qed

lemma ascii_valid_utf8: "(\<forall>b \<in> set s. b < 0x80) \<Longrightarrow> valid_utf8 s"
  by (induction s) auto

lemma alnum_ascii: "alnum b \<Longrightarrow> b < 0x80"
  by (auto simp: alnum_def word_less_nat_alt word_le_nat_alt)

lemma manifest_encode_utf8: "valid_utf8 (manifest_encode crc m)"
proof (rule ascii_valid_utf8)
  have n: "b < 0x80" if "b \<in> set (show_nat n)" for b n using show_nat_alnum that alnum_ascii by blast
  have h: "b < 0x80" if "b \<in> set (pad_left 8 (show_hex n))" for b n
    using pad_left_alnum [OF show_hex_alnum, of 8 n] that alnum_ascii by blast
  show "\<forall>b \<in> set (manifest_encode crc m). b < 0x80"
    unfolding manifest_encode_def manifest_body_def HEADER_LINE_def
    by (auto simp: ascii_def dest: n h)
qed

lemma manifest_decode_encode: "manifest_decode crc (manifest_encode crc m) = Some m"
  unfolding manifest_decode_def manifest_lines
  by (cases m) (simp add: Let_def nth_opt_def parse_u64_show parse_hex_pad [simplified])

section \<open>Saving is atomic\<close>

text \<open>
  The directories a crash during saving can leave behind: untouched, with a torn or complete
  sibling file, or saved.
\<close>

inductive save_crash :: "(bytes \<Rightarrow> u32) \<Rightarrow> manifest \<Rightarrow> directory \<Rightarrow> directory \<Rightarrow> bool" for crc m dir where
  before: "save_crash crc m dir dir"
| torn: "save_crash crc m dir (write_file (tmp_sibling MANIFEST_FILE_NAME) (take n (manifest_encode crc m)) dir)"
| saved: "save_crash crc m dir (manifest_save crc m dir)"

lemma tmp_name: "tmp_sibling MANIFEST_FILE_NAME \<noteq> MANIFEST_FILE_NAME"
  by (simp add: tmp_sibling_def ascii_def)

lemma tmp_no_data:
  "dir_has_any_data_files (dir(tmp_sibling MANIFEST_FILE_NAME \<mapsto> c)) \<longleftrightarrow> dir_has_any_data_files dir"
proof -
  have "\<not> starts_with (ascii ''nova.snapshot.'') n" "\<not> starts_with (ascii ''nova.wal.'') n"
    "\<not> starts_with (ascii ''nova.dict.'') n" "\<not> starts_with (ascii ''nova.ring.'') n"
    "\<not> starts_with (ascii ''nova.ringmap.'') n" if "n = tmp_sibling MANIFEST_FILE_NAME" for n
    unfolding that by (simp_all add: starts_with_def tmp_sibling_def MANIFEST_FILE_NAME_def ascii_def)
  then show ?thesis unfolding dir_has_any_data_files_def dom_fun_upd by auto
qed

lemma manifest_load_torn: "manifest_load crc (write_file (tmp_sibling MANIFEST_FILE_NAME) c dir) = manifest_load crc dir"
  by (simp add: manifest_load_def write_file_def tmp_no_data tmp_name [symmetric])

lemma manifest_load_saved: "manifest_load crc (manifest_save crc m dir) = Inr m"
  using tmp_name
  by (simp add: manifest_load_def manifest_save_def rename_file_def write_file_def manifest_encode_utf8
      manifest_decode_encode)

section \<open>File names read back\<close>

lemma parse_paths [simp]:
  "parse_snapshot_gen (snapshot_path g) = Some g" "parse_dict_gen (dict_path g) = Some g"
  "parse_wal_seq (wal_segment_path q) = Some q"
  by (simp_all add: parse_snapshot_gen_def snapshot_path_def parse_dict_gen_def dict_path_def parse_wal_seq_def
      wal_segment_path_def parse_u64_show parse_u64_pad)

lemma rsplit_once_last: "c \<notin> set t \<Longrightarrow> rsplit_once c (s @ c # t) = Some (s, t)"
proof -
  assume c: "c \<notin> set t"
  have "takeWhile (\<lambda>b. b \<noteq> c) (rev t @ c # rev s) = rev t" using c by (subst takeWhile_append2) auto
  then show ?thesis by (simp add: rsplit_once_def Let_def)
qed

lemma parse_ring_paths [simp]:
  "parse_ring_image (ring_image_path g gid) = Some (g, gid)" "parse_ring_remap (ring_remap_path g gid) = Some (g, gid)"
proof -
  have "46 \<notin> set (show_nat (unat gid))" using show_nat_alnum [of "unat gid"] alnum_no_breaks by auto
  then have "rsplit_once 46 (show_nat (unat g) @ 46 # show_nat (unat gid)) = Some (show_nat (unat g), show_nat (unat gid))"
    by (rule rsplit_once_last)
  then show "parse_ring_image (ring_image_path g gid) = Some (g, gid)" "parse_ring_remap (ring_remap_path g gid) = Some (g, gid)"
    by (simp_all add: parse_ring_image_def parse_ring_remap_def ring_image_path_def ring_remap_path_def parse_u64_show parse_u8_show)
qed

lemma parse_other_paths [simp]:
  "parse_snapshot_gen (dict_path g) = None" "parse_snapshot_gen (wal_segment_path q) = None"
  "parse_snapshot_gen (ring_image_path g gid) = None" "parse_snapshot_gen (ring_remap_path g gid) = None"
  "parse_dict_gen (wal_segment_path q) = None" "parse_dict_gen (ring_image_path g gid) = None"
  "parse_dict_gen (ring_remap_path g gid) = None" "parse_ring_image (wal_segment_path q) = None"
  "parse_ring_image (ring_remap_path g gid) = None" "parse_ring_remap (wal_segment_path q) = None"
  by (simp_all add: parse_snapshot_gen_def parse_dict_gen_def parse_ring_image_def parse_ring_remap_def
      snapshot_path_def dict_path_def wal_segment_path_def ring_image_path_def ring_remap_path_def strip_prefix_def ascii_def)

lemma is_orphan_paths [simp]:
  "is_orphan kg ks (snapshot_path g) \<longleftrightarrow> g < kg" "is_orphan kg ks (dict_path g) \<longleftrightarrow> g < kg"
  "is_orphan kg ks (ring_image_path g gid) \<longleftrightarrow> g < kg" "is_orphan kg ks (ring_remap_path g gid) \<longleftrightarrow> g < kg"
  "is_orphan kg ks (wal_segment_path q) \<longleftrightarrow> q < ks"
  by (simp_all add: is_orphan_def)

lemma is_orphan_manifest [simp]: "\<not> is_orphan kg ks MANIFEST_FILE_NAME"
  by (simp add: is_orphan_def parse_snapshot_gen_def parse_dict_gen_def parse_ring_image_def parse_ring_remap_def
      parse_wal_seq_def strip_prefix_def MANIFEST_FILE_NAME_def ascii_def)

section \<open>Properties\<close>

text \<open>
  The manifest reads back: for any checksum function, the text of a manifest is valid UTF-8
  and decodes to the manifest.
\<close>

theorem manifest_roundtrip:
  "valid_utf8 (manifest_encode crc m) \<and> manifest_decode crc (manifest_encode crc m) = Some m"
  by (simp add: manifest_encode_utf8 manifest_decode_encode)




end
