(* ===== verification/Wal.thy ===== *)
theory Wal
  imports Rdf "HOL-Library.Monad_Syntax"
begin

text \<open>
  The write-ahead log of \<^verbatim>\<open>crates/core/nova-storage/src/wal.rs\<close>: the byte codec of terms,
  quads and records, the framing \<open>[len][payload][crc]\<close>, the appending writer and the
  crash-tolerant \<open>replay\<close>. The CRC-32 function of the \<^verbatim>\<open>crc32fast\<close> crate and the literal
  accessors of \<^verbatim>\<open>oxrdf\<close> are parameters; nothing is assumed of the checksum. Encoders
  append to a buffer, as in the source; \<open>None\<close> is the panic of \<open>write_term\<close> on a quoted
  triple. Decoders take the buffer and a position and return the new position.
\<close>

section \<open>Records\<close>

datatype 'l wal_record =
    InsertQuad "'l quad"
  | RemoveQuad "'l quad"
  | RegisterGraph graph_name

fun record_tag :: "'l wal_record \<Rightarrow> u8" where
  "record_tag (InsertQuad _) = 1"
| "record_tag (RemoveQuad _) = 2"
| "record_tag (RegisterGraph _) = 3"

section \<open>Primitive encoding\<close>

definition u32_to_le_bytes :: "u32 \<Rightarrow> bytes" where
  "u32_to_le_bytes x =
     [ucast x, ucast (drop_bit 8 x), ucast (drop_bit 16 x), ucast (drop_bit 24 x)]"

definition u32_from_le_bytes :: "bytes \<Rightarrow> u32" where
  "u32_from_le_bytes bs =
     ucast (bs ! 0) OR push_bit 8 (ucast (bs ! 1)) OR push_bit 16 (ucast (bs ! 2))
     OR push_bit 24 (ucast (bs ! 3))"

definition write_string :: "bytes \<Rightarrow> rstring \<Rightarrow> bytes" where
  "write_string buf s = buf @ u32_to_le_bytes (word_of_nat (length s)) @ s"

definition slice :: "bytes \<Rightarrow> nat \<Rightarrow> nat \<Rightarrow> bytes" where
  "slice buf lo hi = take (hi - lo) (drop lo buf)"

definition read_string :: "bytes \<Rightarrow> nat \<Rightarrow> (rstring \<times> nat) result" where
  "read_string buf pos =
     (if pos + 4 > length buf then Inl (Storage ''WAL: truncated string length'')
      else
        let len = unat (u32_from_le_bytes (slice buf pos (pos + 4))); pos = pos + 4 in
        if pos + len > length buf then Inl (Storage ''WAL: truncated string content'')
        else
          let s = slice buf pos (pos + len) in
          if \<not> valid_utf8 s then Inl (Storage ''WAL: invalid utf8'')
          else Inr (s, pos + len))"

definition read_tag :: "bytes \<Rightarrow> nat \<Rightarrow> (u8 \<times> nat) result" where
  "read_tag buf pos =
     (if pos \<ge> length buf then Inl (Storage ''WAL: truncated tag byte'')
      else Inr (buf ! pos, pos + 1))"

section \<open>Terms, subjects, graph names\<close>

fun write_term :: "'l literal_api \<Rightarrow> bytes \<Rightarrow> 'l rdf_term \<Rightarrow> bytes option" where
  "write_term api buf (NamedNode n) = Some (write_string (buf @ [0]) n)"
| "write_term api buf (BlankNode b) = Some (write_string (buf @ [1]) b)"
| "write_term api buf (Literal l) =
     (case lit_direction api l of
        Some direction \<Rightarrow>
          (let buf = write_string (buf @ [4]) (lit_value api l);
               buf = write_string buf (case lit_language api l of None \<Rightarrow> [] | Some g \<Rightarrow> g)
           in Some (buf @ [case direction of Ltr \<Rightarrow> 0 | Rtl \<Rightarrow> 1]))
      | None \<Rightarrow>
          (case lit_language api l of
             Some lang \<Rightarrow> Some (write_string (write_string (buf @ [3]) (lit_value api l)) lang)
           | None \<Rightarrow>
               if lit_datatype api l = xsd_string api
               then Some (write_string (buf @ [2]) (lit_value api l))
               else Some (write_string (write_string (buf @ [5]) (lit_value api l))
                            (lit_datatype api l))))"
| "write_term api buf (Triple _ _ _) = None"

fun write_subject :: "bytes \<Rightarrow> subject \<Rightarrow> bytes" where
  "write_subject buf (SubjNamed n) = write_string (buf @ [0]) n"
| "write_subject buf (SubjBlank b) = write_string (buf @ [1]) b"

fun write_object_term :: "'l literal_api \<Rightarrow> bytes \<Rightarrow> 'l rdf_term \<Rightarrow> bytes option" where
  "write_object_term api buf (Triple s p ob) =
     write_object_term api (write_string (write_subject (buf @ [6]) s) p) ob"
| "write_object_term api buf t = write_term api buf t"

definition read_term_from_tag ::
  "'l literal_api \<Rightarrow> u8 \<Rightarrow> bytes \<Rightarrow> nat \<Rightarrow> ('l rdf_term \<times> nat) result" where
  "read_term_from_tag api tag buf pos =
     (if tag = 0 then and_then (read_string buf pos) (\<lambda>(s, pos). Inr (NamedNode s, pos))
      else if tag = 1 then and_then (read_string buf pos) (\<lambda>(s, pos). Inr (BlankNode s, pos))
      else if tag = 2 then
        and_then (read_string buf pos) (\<lambda>(s, pos). Inr (Literal (new_simple api s), pos))
      else if tag = 3 then
        and_then (read_string buf pos) (\<lambda>(v, pos).
        and_then (read_string buf pos) (\<lambda>(lang, pos).
          Inr (Literal (new_lang api v lang), pos)))
      else if tag = 4 then
        and_then (read_string buf pos) (\<lambda>(v, pos).
        and_then (read_string buf pos) (\<lambda>(lang, pos).
        and_then (read_tag buf pos) (\<lambda>(dir_byte, pos).
          if dir_byte = 0 then Inr (Literal (new_dir_lang api v lang Ltr), pos)
          else if dir_byte = 1 then Inr (Literal (new_dir_lang api v lang Rtl), pos)
          else Inl (Storage ''WAL: invalid direction byte''))))
      else if tag = 5 then
        and_then (read_string buf pos) (\<lambda>(v, pos).
        and_then (read_string buf pos) (\<lambda>(dt, pos).
          Inr (Literal (new_typed api v dt), pos)))
      else Inl (Storage ''WAL: unknown term tag''))"

definition read_subject_from_tag :: "bytes \<Rightarrow> nat \<Rightarrow> (subject \<times> nat) result" where
  "read_subject_from_tag buf pos =
     and_then (read_tag buf pos) (\<lambda>(tag, pos).
       if tag = 0 then and_then (read_string buf pos) (\<lambda>(s, pos). Inr (SubjNamed s, pos))
       else if tag = 1 then and_then (read_string buf pos) (\<lambda>(s, pos). Inr (SubjBlank s, pos))
       else Inl (Storage ''WAL: unknown subject tag''))"

text \<open>Every successful read moves the position forward, which bounds the recursion below.\<close>

lemma read_tag_progress: "read_tag buf pos = Inr (t, pos') \<Longrightarrow> pos < pos' \<and> pos' \<le> length buf"
  by (auto simp: read_tag_def split: if_splits)

lemma read_string_progress:
  "read_string buf pos = Inr (s, pos') \<Longrightarrow> pos < pos' \<and> pos' \<le> length buf"
  by (auto simp: read_string_def Let_def split: if_splits)

lemma read_subject_progress:
  "read_subject_from_tag buf pos = Inr (s, pos') \<Longrightarrow> pos < pos' \<and> pos' \<le> length buf"
  by (auto simp: read_subject_from_tag_def and_then_Inr_iff split: if_splits
      dest!: read_tag_progress read_string_progress)

function read_object_term ::
  "'l literal_api \<Rightarrow> bytes \<Rightarrow> nat \<Rightarrow> ('l rdf_term \<times> nat) result" where
  "read_object_term api buf pos =
     and_then (read_tag buf pos) (\<lambda>(tag, pos).
       if tag = 6 then
         and_then (read_subject_from_tag buf pos) (\<lambda>(subj, pos).
         and_then (read_string buf pos) (\<lambda>(pred, pos).
         and_then (read_object_term api buf pos) (\<lambda>(obj, pos).
           Inr (Triple subj pred obj, pos))))
       else read_term_from_tag api tag buf pos)"
  by pat_completeness auto
termination
proof (relation "measure (\<lambda>(api, buf, pos). length buf - pos)", goal_cases)
  case 1 show ?case by simp
next
  case (2 api buf pos x tag pos1 y subj pos2 z pred pos3)
  then have "pos < pos1" "pos1 \<le> length buf" "pos1 < pos2" "pos2 < pos3" "pos3 \<le> length buf"
    by (auto dest!: read_tag_progress read_subject_progress read_string_progress)
  then show ?case by simp
qed

declare read_object_term.simps [simp del]

fun write_graph_name :: "bytes \<Rightarrow> graph_name \<Rightarrow> bytes" where
  "write_graph_name buf DefaultGraph = buf @ [2]"
| "write_graph_name buf (GraphNamed n) = write_string (buf @ [0]) n"
| "write_graph_name buf (GraphBlank b) = write_string (buf @ [1]) b"

definition read_graph_name :: "bytes \<Rightarrow> nat \<Rightarrow> (graph_name \<times> nat) result" where
  "read_graph_name buf pos =
     and_then (read_tag buf pos) (\<lambda>(tag, pos).
       if tag = 0 then and_then (read_string buf pos) (\<lambda>(s, pos). Inr (GraphNamed s, pos))
       else if tag = 1 then and_then (read_string buf pos) (\<lambda>(s, pos). Inr (GraphBlank s, pos))
       else if tag = 2 then Inr (DefaultGraph, pos)
       else Inl (Storage ''WAL: unknown graph-name tag''))"

section \<open>Quads and records\<close>

definition write_quad :: "'l literal_api \<Rightarrow> bytes \<Rightarrow> 'l quad \<Rightarrow> bytes option" where
  "write_quad api buf q =
     (let buf = write_graph_name buf (quad_graph q);
          buf = write_subject buf (quad_subject q);
          buf = write_string buf (quad_predicate q)
      in write_object_term api buf (quad_object q))"

definition read_quad :: "'l literal_api \<Rightarrow> bytes \<Rightarrow> nat \<Rightarrow> ('l quad \<times> nat) result" where
  "read_quad api buf pos =
     and_then (read_graph_name buf pos) (\<lambda>(g, pos).
     and_then (read_subject_from_tag buf pos) (\<lambda>(s, pos).
     and_then (read_string buf pos) (\<lambda>(p, pos).
     and_then (read_object_term api buf pos) (\<lambda>(ob, pos).
       Inr (\<lparr>quad_subject = s, quad_predicate = p, quad_object = ob, quad_graph = g\<rparr>, pos)))))"

definition encode_record :: "'l literal_api \<Rightarrow> 'l wal_record \<Rightarrow> bytes option" where
  "encode_record api r =
     (let buf = [record_tag r] in
      case r of
        InsertQuad q \<Rightarrow> write_quad api buf q
      | RemoveQuad q \<Rightarrow> write_quad api buf q
      | RegisterGraph g \<Rightarrow> Some (write_graph_name buf g))"

definition decode_record :: "'l literal_api \<Rightarrow> bytes \<Rightarrow> 'l wal_record result" where
  "decode_record api buf =
     and_then (read_tag buf 0) (\<lambda>(tag, pos).
       if tag = 1 then and_then (read_quad api buf pos) (\<lambda>(q, _). Inr (InsertQuad q))
       else if tag = 2 then and_then (read_quad api buf pos) (\<lambda>(q, _). Inr (RemoveQuad q))
       else if tag = 3 then and_then (read_graph_name buf pos) (\<lambda>(g, _). Inr (RegisterGraph g))
       else Inl (Storage ''WAL: unknown record tag''))"

section \<open>Writer\<close>

text \<open>
  The log file: its bytes and how many of them an \<^verbatim>\<open>fsync\<close> has made durable.
\<close>

record wal_file =
  contents :: bytes
  synced :: nat

definition create_or_open :: "wal_file option \<Rightarrow> wal_file" where
  "create_or_open f = (case f of None \<Rightarrow> \<lparr>contents = [], synced = 0\<rparr> | Some f \<Rightarrow> f)"

definition write_all :: "wal_file \<Rightarrow> bytes \<Rightarrow> wal_file" where
  "write_all f bs = f\<lparr>contents := contents f @ bs\<rparr>"

definition wal_sync :: "wal_file \<Rightarrow> wal_file" where
  "wal_sync f = f\<lparr>synced := length (contents f)\<rparr>"

definition frame_record ::
  "(bytes \<Rightarrow> u32) \<Rightarrow> 'l literal_api \<Rightarrow> 'l wal_record \<Rightarrow> bytes option" where
  "frame_record crc api r =
     do {
       payload \<leftarrow> encode_record api r;
       Some (u32_to_le_bytes (word_of_nat (length payload)) @ payload
             @ u32_to_le_bytes (crc payload))
     }"

definition wal_append ::
  "(bytes \<Rightarrow> u32) \<Rightarrow> 'l literal_api \<Rightarrow> wal_file \<Rightarrow> 'l wal_record \<Rightarrow> wal_file option" where
  "wal_append crc api f r =
     do {
       framed \<leftarrow> frame_record crc api r;
       Some (wal_sync (write_all f framed))
     }"

fun frame_all ::
  "(bytes \<Rightarrow> u32) \<Rightarrow> 'l literal_api \<Rightarrow> bytes \<Rightarrow> 'l wal_record list \<Rightarrow> bytes option" where
  "frame_all crc api buf [] = Some buf"
| "frame_all crc api buf (r # rs) =
     do {
       framed \<leftarrow> frame_record crc api r;
       frame_all crc api (buf @ framed) rs
     }"

definition append_batch ::
  "(bytes \<Rightarrow> u32) \<Rightarrow> 'l literal_api \<Rightarrow> wal_file \<Rightarrow> 'l wal_record list \<Rightarrow> wal_file option" where
  "append_batch crc api f rs =
     do {
       buf \<leftarrow> frame_all crc api [] rs;
       if buf = [] then Some f else Some (wal_sync (write_all f buf))
     }"

definition append_no_sync ::
  "(bytes \<Rightarrow> u32) \<Rightarrow> 'l literal_api \<Rightarrow> wal_file \<Rightarrow> 'l wal_record \<Rightarrow> wal_file option" where
  "append_no_sync crc api f r =
     do {
       framed \<leftarrow> frame_record crc api r;
       Some (write_all f framed)
     }"

section \<open>Replay\<close>

text \<open>Reading from the rest of the file: as many of the \<open>n\<close> bytes as there are before its end.\<close>

definition fill_or_eof :: "bytes \<Rightarrow> nat \<Rightarrow> bytes \<times> bytes" where
  "fill_or_eof reader n = (take n reader, drop n reader)"

function replay_loop ::
  "(bytes \<Rightarrow> u32) \<Rightarrow> 'l literal_api \<Rightarrow> nat \<Rightarrow> nat \<Rightarrow> bytes \<Rightarrow> 'l wal_record list \<times> nat" where
  "replay_loop crc api file_len valid_len reader =
     (let (len_bytes, reader1) = fill_or_eof reader 4; n = length len_bytes in
      if n = 0 then ([], valid_len)
      else if n < 4 then ([], valid_len)
      else
        let len = unat (u32_from_le_bytes len_bytes); remaining = file_len - valid_len - 4 in
        if len + 4 > remaining then ([], valid_len)
        else
          let (payload, reader2) = fill_or_eof reader1 len in
          if length payload < len then ([], valid_len)
          else
            let (crc_bytes, reader3) = fill_or_eof reader2 4 in
            if length crc_bytes < 4 then ([], valid_len)
            else if crc payload \<noteq> u32_from_le_bytes crc_bytes then ([], valid_len)
            else
              case decode_record api payload of
                Inl _ \<Rightarrow> ([], valid_len)
              | Inr r \<Rightarrow>
                  (let (rs, v) = replay_loop crc api file_len (valid_len + (4 + len + 4)) reader3
                   in (r # rs, v)))"
  by pat_completeness auto
termination
  by (relation "measure (\<lambda>(crc, api, file_len, valid_len, reader). length reader)")
    (auto simp: fill_or_eof_def)

declare replay_loop.simps [simp del]

definition replay ::
  "(bytes \<Rightarrow> u32) \<Rightarrow> 'l literal_api \<Rightarrow> wal_file option \<Rightarrow> 'l wal_record list \<times> wal_file option" where
  "replay crc api file =
     (case file of
        None \<Rightarrow> ([], None)
      | Some f \<Rightarrow>
          (let file_len = length (contents f);
               (rs, valid_len) = replay_loop crc api file_len 0 (contents f)
           in (rs, Some (if valid_len < file_len
                         then f\<lparr>contents := take valid_len (contents f),
                                synced := min valid_len (synced f)\<rparr>
                         else f))))"

section \<open>Codec laws\<close>

text \<open>
  A decoder \<open>rd\<close> reads the value \<open>v\<close> off the bytes \<open>e\<close> when it does so wherever they stand.
\<close>

definition decodes :: "(bytes \<Rightarrow> nat \<Rightarrow> ('v \<times> nat) result) \<Rightarrow> bytes \<Rightarrow> 'v \<Rightarrow> bool" where
  "decodes rd e v \<longleftrightarrow>
     (\<forall>pre post. rd (pre @ e @ post) (length pre) = Inr (v, length pre + length e))"

lemma decodes_bind:
  assumes "decodes rd1 e1 v1" and "decodes (rd2 v1) e2 v2"
  shows "decodes (\<lambda>buf pos. and_then (rd1 buf pos) (\<lambda>(v, pos). rd2 v buf pos)) (e1 @ e2) v2"
  unfolding decodes_def
proof (intro allI)
  fix pre post
  have "rd1 (pre @ e1 @ e2 @ post) (length pre) = Inr (v1, length (pre @ e1))"
    using assms(1) [unfolded decodes_def, rule_format, of pre "e2 @ post"] by simp
  moreover have "rd2 v1 ((pre @ e1) @ e2 @ post) (length (pre @ e1))
      = Inr (v2, length (pre @ e1) + length e2)"
    using assms(2) unfolding decodes_def by blast
  ultimately show "and_then (rd1 (pre @ (e1 @ e2) @ post) (length pre)) (\<lambda>(v, pos).
      rd2 v (pre @ (e1 @ e2) @ post) pos) = Inr (v2, length pre + length (e1 @ e2))"
    by simp
qed

lemma decodes_bind_last:
  assumes "decodes rd e v"
  shows "decodes (\<lambda>buf pos. and_then (rd buf pos) (\<lambda>(v, pos). Inr (f v, pos))) e (f v)"
  using assms by (simp add: decodes_def)

lemma decodes_return: "decodes (\<lambda>buf pos. Inr (v, pos)) [] v"
  by (simp add: decodes_def)

lemma decodes_tag: "decodes read_tag [t] t"
  by (simp add: decodes_def read_tag_def nth_append)

lemma u32_le_roundtrip [simp]: "u32_from_le_bytes (u32_to_le_bytes x) = x"
proof (rule bit_word_eqI)
  fix n assume "n < LENGTH(32)"
  then consider "n < 8" | "8 \<le> n" "n < 16" | "16 \<le> n" "n < 24" | "24 \<le> n" "n < 32"
    by fastforce
  then show "bit (u32_from_le_bytes (u32_to_le_bytes x)) n \<longleftrightarrow> bit x n"
    by cases (auto simp: u32_to_le_bytes_def u32_from_le_bytes_def bit_simps)
qed

lemma length_u32_to_le_bytes [simp]: "length (u32_to_le_bytes x) = 4"
  by (simp add: u32_to_le_bytes_def)

lemma u32_to_le_bytes_not_Nil [simp]: "u32_to_le_bytes x \<noteq> []"
  by (simp add: u32_to_le_bytes_def)

definition str_ok :: "rstring \<Rightarrow> bool" where
  "str_ok s \<longleftrightarrow> valid_utf8 s \<and> length s < 2 ^ 32"

lemma decodes_string: "str_ok s \<Longrightarrow> decodes read_string (write_string [] s) s"
  by (auto simp: decodes_def read_string_def write_string_def str_ok_def slice_def Let_def
      unat_of_nat take_bit_nat_eq_self)

text \<open>Encoders only append to their buffer.\<close>

lemma write_string_append [simp]: "NO_MATCH [] buf \<Longrightarrow> write_string buf s = buf @ write_string [] s"
  by (simp add: write_string_def)

lemma write_subject_append [simp]: "NO_MATCH [] buf \<Longrightarrow> write_subject buf s = buf @ write_subject [] s"
  by (cases s) (simp_all add: write_string_def)

lemma write_graph_name_append [simp]:
  "NO_MATCH [] buf \<Longrightarrow> write_graph_name buf g = buf @ write_graph_name [] g"
  by (cases g) (simp_all add: write_string_def)

lemma write_term_append:
  "write_term api buf t = map_option (\<lambda>e. buf @ e) (write_term api [] t)"
  by (cases t) (simp_all add: write_string_def Let_def split: option.splits)

lemma write_object_term_append:
  "write_object_term api buf t = map_option (\<lambda>e. buf @ e) (write_object_term api [] t)"
proof (induction t arbitrary: buf)
  case (Triple s p ob)
  show ?case
    by (simp, subst Triple.IH, subst (2) Triple.IH, cases "write_object_term api [] ob") simp_all
qed (simp_all only: write_object_term.simps write_term_append [symmetric])

section \<open>Round trip of records\<close>

fun term_ok :: "'l literal_api \<Rightarrow> 'l rdf_term \<Rightarrow> bool" where
  "term_ok api (NamedNode n) \<longleftrightarrow> str_ok n"
| "term_ok api (BlankNode b) \<longleftrightarrow> str_ok b"
| "term_ok api (Literal l) \<longleftrightarrow> list_all str_ok (literal_strings api l)"
| "term_ok api (Triple s p ob) \<longleftrightarrow>
     (case s of SubjNamed n \<Rightarrow> str_ok n | SubjBlank b \<Rightarrow> str_ok b) \<and> str_ok p \<and> term_ok api ob"

fun graph_name_ok :: "graph_name \<Rightarrow> bool" where
  "graph_name_ok DefaultGraph \<longleftrightarrow> True"
| "graph_name_ok (GraphNamed n) \<longleftrightarrow> str_ok n"
| "graph_name_ok (GraphBlank b) \<longleftrightarrow> str_ok b"

fun subject_ok :: "subject \<Rightarrow> bool" where
  "subject_ok (SubjNamed n) \<longleftrightarrow> str_ok n"
| "subject_ok (SubjBlank b) \<longleftrightarrow> str_ok b"

definition quad_ok :: "'l literal_api \<Rightarrow> 'l quad \<Rightarrow> bool" where
  "quad_ok api q \<longleftrightarrow> graph_name_ok (quad_graph q) \<and> subject_ok (quad_subject q)
     \<and> str_ok (quad_predicate q) \<and> term_ok api (quad_object q)"

text \<open>
  A record can be logged when its strings are UTF-8 below 4 GiB and so is its payload.
\<close>

definition record_ok :: "'l literal_api \<Rightarrow> 'l wal_record \<Rightarrow> bool" where
  "record_ok api r \<longleftrightarrow>
     (case r of InsertQuad q \<Rightarrow> quad_ok api q | RemoveQuad q \<Rightarrow> quad_ok api q
      | RegisterGraph g \<Rightarrow> graph_name_ok g)
     \<and> (case encode_record api r of None \<Rightarrow> False | Some buf \<Rightarrow> length buf < 2 ^ 32)"

lemma decodes_tagged:
  assumes "decodes (rd t) e v"
  shows "decodes (\<lambda>buf pos. and_then (read_tag buf pos) (\<lambda>(t, pos). rd t buf pos)) (t # e) v"
  using decodes_bind [of read_tag "[t]" t rd, OF decodes_tag assms] by simp

lemma decodes_subject: "subject_ok s \<Longrightarrow> decodes read_subject_from_tag (write_subject [] s) s"
  unfolding read_subject_from_tag_def [abs_def]
  by (cases s) (auto intro!: decodes_tagged decodes_bind_last decodes_string)

lemma decodes_graph_name: "graph_name_ok g \<Longrightarrow> decodes read_graph_name (write_graph_name [] g) g"
  unfolding read_graph_name_def [abs_def]
  by (cases g) (auto simp: decodes_return intro!: decodes_tagged decodes_bind_last decodes_string)

text \<open>Decoding a term from its tag, one literal kind at a time.\<close>

lemma decodes_literal:
  assumes laws: "literal_laws api" and ok: "term_ok api (Literal l)"
  obtains tag e where "write_term api [] (Literal l) = Some (tag # e)" and "tag \<noteq> 6"
    and "decodes (read_term_from_tag api tag) e (Literal l)"
proof (cases "lit_direction api l")
  case (Some d)
  from laws have "case lit_direction api l of
        Some d \<Rightarrow> (\<exists>g. lit_language api l = Some g \<and> new_dir_lang api (lit_value api l) g d = l)
      | None \<Rightarrow> True"
    unfolding literal_laws_def by (auto split: option.splits)
  with Some obtain g where g: "lit_language api l = Some g"
    and l: "new_dir_lang api (lit_value api l) g d = l" by auto
  let ?e = "write_string [] (lit_value api l) @ write_string [] g @ [case d of Ltr \<Rightarrow> 0 | Rtl \<Rightarrow> 1]"
  have "decodes (read_term_from_tag api 4) ?e (Literal l)"
    using ok g l unfolding read_term_from_tag_def [abs_def]
    by (cases d) (auto simp: literal_strings_def decodes_return
        intro!: decodes_bind decodes_string decodes_tagged)
  with Some g show ?thesis by (intro that [of 4 ?e]) simp_all
next
  case None
  show ?thesis
  proof (cases "lit_language api l")
    case (Some g)
    let ?e = "write_string [] (lit_value api l) @ write_string [] g"
    have l: "new_lang api (lit_value api l) g = l"
      using laws None Some unfolding literal_laws_def by (auto dest!: spec [of _ l])
    have "decodes (read_term_from_tag api 3) ?e (Literal (new_lang api (lit_value api l) g))"
      using ok Some unfolding read_term_from_tag_def [abs_def]
      by (auto simp: literal_strings_def intro!: decodes_bind decodes_bind_last decodes_string)
    with None Some l show ?thesis by (intro that [of 3 ?e]) simp_all
  next
    case nolang: None
    show ?thesis
    proof (cases "lit_datatype api l = xsd_string api")
      case True
      have l: "new_simple api (lit_value api l) = l"
        using laws None nolang True unfolding literal_laws_def by (auto dest!: spec [of _ l])
      have "decodes (read_term_from_tag api 2) (write_string [] (lit_value api l))
          (Literal (new_simple api (lit_value api l)))"
        using ok unfolding read_term_from_tag_def [abs_def]
        by (auto simp: literal_strings_def intro!: decodes_bind_last decodes_string)
      with None nolang True l show ?thesis by (intro that [of 2]) simp_all
    next
      case False
      let ?e = "write_string [] (lit_value api l) @ write_string [] (lit_datatype api l)"
      have l: "new_typed api (lit_value api l) (lit_datatype api l) = l"
        using laws None nolang False unfolding literal_laws_def by (auto dest!: spec [of _ l])
      have "decodes (read_term_from_tag api 5) ?e
          (Literal (new_typed api (lit_value api l) (lit_datatype api l)))"
        using ok unfolding read_term_from_tag_def [abs_def]
        by (auto simp: literal_strings_def intro!: decodes_bind decodes_bind_last decodes_string)
      with None nolang False l show ?thesis by (intro that [of 5 ?e]) simp_all
    qed
  qed
qed

lemma decodes_object_term:
  assumes "literal_laws api" and "term_ok api t"
  shows "\<exists>e. write_object_term api [] t = Some e \<and> decodes (read_object_term api) e t"
  using assms(2)
proof (induction t)
  case (NamedNode n)
  have "decodes (read_object_term api) (0 # write_string [] n) (NamedNode n)"
    using NamedNode by (subst read_object_term.simps [abs_def])
      (auto simp: read_term_from_tag_def intro!: decodes_tagged decodes_bind_last decodes_string)
  then show ?case by simp
next
  case (BlankNode n)
  have "decodes (read_object_term api) (1 # write_string [] n) (BlankNode n)"
    using BlankNode by (subst read_object_term.simps [abs_def])
      (auto simp: read_term_from_tag_def intro!: decodes_tagged decodes_bind_last decodes_string)
  then show ?case by simp
next
  case (Literal l)
  from decodes_literal [OF assms(1) Literal.prems] obtain tag e where
    w: "write_term api [] (Literal l) = Some (tag # e)" "tag \<noteq> 6"
    and d: "decodes (read_term_from_tag api tag) e (Literal l)" .
  have "decodes (read_object_term api) (tag # e) (Literal l)"
    using w(2) d by (subst read_object_term.simps [abs_def]) (auto intro!: decodes_tagged)
  with w(1) show ?case by (simp only: write_object_term.simps) blast
next
  case (Triple s p ob)
  then obtain e where e: "write_object_term api [] ob = Some e" "decodes (read_object_term api) e ob"
    by auto
  have "subject_ok s" "str_ok p" using Triple.prems by (auto split: subject.splits)
  then have "decodes (read_object_term api)
      (6 # write_subject [] s @ write_string [] p @ e) (Triple s p ob)"
    using e(2) by (subst read_object_term.simps [abs_def])
      (auto intro!: decodes_tagged decodes_bind decodes_bind_last decodes_subject decodes_string)
  moreover have "write_object_term api [] (Triple s p ob)
      = Some (6 # write_subject [] s @ write_string [] p @ e)"
    using e(1) by (simp, subst write_object_term_append) simp
  ultimately show ?case by blast
qed

lemma decodes_quad:
  assumes "literal_laws api" and "quad_ok api q"
  shows "\<exists>e. write_quad api [] q = Some e \<and> decodes (read_quad api) e q"
proof -
  from assms obtain e where e: "write_object_term api [] (quad_object q) = Some e"
    "decodes (read_object_term api) e (quad_object q)"
    using decodes_object_term [of api "quad_object q"] by (auto simp: quad_ok_def)
  let ?e = "write_graph_name [] (quad_graph q) @ write_subject [] (quad_subject q)
    @ write_string [] (quad_predicate q) @ e"
  have "decodes (read_quad api) ?e \<lparr>quad_subject = quad_subject q,
      quad_predicate = quad_predicate q, quad_object = quad_object q, quad_graph = quad_graph q\<rparr>"
    using assms(2) e(2) unfolding read_quad_def [abs_def] quad_ok_def
    by (auto intro!: decodes_bind decodes_bind_last decodes_graph_name decodes_subject decodes_string)
  moreover have "write_quad api [] q = Some ?e"
    using e(1) unfolding write_quad_def by (simp add: Let_def, subst write_object_term_append) simp
  moreover have "\<lparr>quad_subject = quad_subject q, quad_predicate = quad_predicate q,
      quad_object = quad_object q, quad_graph = quad_graph q\<rparr> = q" by simp
  ultimately show ?thesis by metis
qed

text \<open>Encoding never panics, and decoding undoes it.\<close>

lemma write_quad_append: "write_quad api buf q = map_option (\<lambda>e. buf @ e) (write_quad api [] q)"
  unfolding write_quad_def Let_def
  by (subst (1 2) write_object_term_append, cases "write_object_term api [] (quad_object q)")
    (simp_all add: write_string_def)

lemma encode_decode:
  assumes "literal_laws api" and "record_ok api r"
  obtains buf where "encode_record api r = Some buf" "decode_record api buf = Inr r"
    "length buf < 2 ^ 32"
proof -
  have dec: "decode_record api (record_tag r # e) = Inr r"
    if "decodes rd e v" and "and_then (rd (record_tag r # e) 1) (\<lambda>(x, _). Inr (f x)) = decode_record api (record_tag r # e)"
      and "f v = r" for rd e v and f :: "_ \<Rightarrow> 'a wal_record"
    using that(1) [unfolded decodes_def, rule_format, of "[record_tag r]" "[]"] that(2,3) by simp
  from assms(2) have enc: "\<exists>e. encode_record api r = Some (record_tag r # e)
      \<and> decode_record api (record_tag r # e) = Inr r"
  proof (cases r)
    case (InsertQuad q)
    with assms obtain e where "write_quad api [] q = Some e" "decodes (read_quad api) e q"
      using decodes_quad [of api q] by (auto simp: record_ok_def)
    with InsertQuad show ?thesis
      by (intro exI [of _ e] conjI dec [where f = InsertQuad])
        (simp_all add: encode_record_def decode_record_def read_tag_def write_quad_append [of _ "[_]"])
  next
    case (RemoveQuad q)
    with assms obtain e where "write_quad api [] q = Some e" "decodes (read_quad api) e q"
      using decodes_quad [of api q] by (auto simp: record_ok_def)
    with RemoveQuad show ?thesis
      by (intro exI [of _ e] conjI dec [where f = RemoveQuad])
        (simp_all add: encode_record_def decode_record_def read_tag_def write_quad_append [of _ "[_]"])
  next
    case (RegisterGraph g)
    with assms(2) have "decodes read_graph_name (write_graph_name [] g) g"
      by (auto simp: record_ok_def intro: decodes_graph_name)
    with RegisterGraph show ?thesis
      by (intro exI [of _ "write_graph_name [] g"] conjI dec [where f = RegisterGraph])
        (simp_all add: encode_record_def decode_record_def read_tag_def)
  qed
  with assms(2) that show ?thesis by (fastforce simp: record_ok_def split: option.splits)
qed

section \<open>Replay of framed records\<close>

lemma frame_record_Some:
  assumes "literal_laws api" and "record_ok api r"
  obtains p where "frame_record crc api r = Some (u32_to_le_bytes (word_of_nat (length p)) @ p
      @ u32_to_le_bytes (crc p))"
    and "decode_record api p = Inr r" and "length p < 2 ^ 32"
proof -
  from encode_decode [OF assms] obtain p where "encode_record api r = Some p"
    "decode_record api p = Inr r" "length p < 2 ^ 32" .
  then show thesis by (intro that [of p]) (simp_all add: frame_record_def)
qed

text \<open>One complete frame at the reading position yields its record.\<close>

lemma replay_loop_frame:
  assumes "literal_laws api" "record_ok api r" and f: "frame_record crc api r = Some f"
    and len: "file_len = valid_len + length f + length rest"
  shows "replay_loop crc api file_len valid_len (f @ rest) =
    (case replay_loop crc api file_len (valid_len + length f) rest of (rs, v) \<Rightarrow> (r # rs, v))"
proof -
  from frame_record_Some [OF assms(1,2), of crc] f obtain p where
    p: "f = u32_to_le_bytes (word_of_nat (length p)) @ p @ u32_to_le_bytes (crc p)"
    "decode_record api p = Inr r" "length p < 2 ^ 32"
    by auto
  then have "unat (word_of_nat (length p) :: u32) = length p"
    by (simp add: unat_of_nat take_bit_nat_eq_self)
  with p len show ?thesis
    by (subst replay_loop.simps) (simp add: fill_or_eof_def Let_def add.assoc split: prod.splits)
qed

text \<open>A frame cut short anywhere yields nothing and leaves the valid length where it is.\<close>

lemma replay_loop_torn:
  assumes "literal_laws api" "record_ok api r" and f: "frame_record crc api r = Some f"
    and cut: "n < length f" and len: "file_len = valid_len + n"
  shows "replay_loop crc api file_len valid_len (take n f) = ([], valid_len)"
proof -
  from frame_record_Some [OF assms(1,2), of crc] f obtain p where
    p: "f = u32_to_le_bytes (word_of_nat (length p)) @ p @ u32_to_le_bytes (crc p)"
    "length p < 2 ^ 32"
    by auto
  then have "unat (word_of_nat (length p) :: u32) = length p"
    by (simp add: unat_of_nat take_bit_nat_eq_self)
  note p = p this
  show ?thesis
  proof (cases "n < 4")
    case True
    with cut len show ?thesis
      by (subst replay_loop.simps) (simp add: fill_or_eof_def Let_def)
  next
    case False
    then have "take 4 (take n f) = u32_to_le_bytes (word_of_nat (length p))"
      using p(1) by (simp add: min_def)
    moreover have "n - 4 < length p + 4" using cut p(1) by simp
    ultimately show ?thesis
      using False cut len p(3) by (subst replay_loop.simps) (simp add: fill_or_eof_def Let_def)
  qed
qed

section \<open>Logs\<close>

text \<open>The bytes of a sequence of records, and how many of them lie wholly in the first \<open>n\<close> bytes.\<close>

definition log_bytes :: "(bytes \<Rightarrow> u32) \<Rightarrow> 'l literal_api \<Rightarrow> 'l wal_record list \<Rightarrow> bytes" where
  "log_bytes crc api rs = concat (map (\<lambda>r. the (frame_record crc api r)) rs)"

fun whole_records ::
  "(bytes \<Rightarrow> u32) \<Rightarrow> 'l literal_api \<Rightarrow> nat \<Rightarrow> 'l wal_record list \<Rightarrow> nat" where
  "whole_records crc api n [] = 0"
| "whole_records crc api n (r # rs) =
     (let m = length (the (frame_record crc api r)) in
      if m \<le> n then Suc (whole_records crc api (n - m) rs) else 0)"

lemma log_bytes_simps [simp]:
  "log_bytes crc api [] = []"
  "log_bytes crc api (r # rs) = the (frame_record crc api r) @ log_bytes crc api rs"
  "log_bytes crc api (rs @ rs') = log_bytes crc api rs @ log_bytes crc api rs'"
  by (simp_all add: log_bytes_def)

lemma frame_record_the:
  "literal_laws api \<Longrightarrow> record_ok api r \<Longrightarrow>
     frame_record crc api r = Some (the (frame_record crc api r))"
  by (rule frame_record_Some [of api r crc]) simp_all

lemma frame_record_pos:
  "literal_laws api \<Longrightarrow> record_ok api r \<Longrightarrow> 8 \<le> length (the (frame_record crc api r))"
  by (rule frame_record_Some [of api r crc]) auto

lemma frame_all_log:
  "literal_laws api \<Longrightarrow> list_all (record_ok api) rs \<Longrightarrow>
     frame_all crc api buf rs = Some (buf @ log_bytes crc api rs)"
proof (induction rs arbitrary: buf)
  case (Cons r rs)
  then obtain fr where "frame_record crc api r = Some fr"
    using frame_record_the [of api r crc] by auto
  with Cons show ?case by simp
qed simp

lemma whole_records_le: "whole_records crc api n rs \<le> length rs"
  by (induction crc api n rs rule: whole_records.induct) (auto simp: Let_def)

lemma whole_records_bounds:
  "length (log_bytes crc api (take (whole_records crc api n rs) rs)) \<le> n"
  by (induction crc api n rs rule: whole_records.induct) (auto simp: Let_def)

lemma whole_records_maximal:
  "whole_records crc api n rs < length rs \<Longrightarrow>
     n < length (log_bytes crc api (take (Suc (whole_records crc api n rs)) rs))"
  by (induction crc api n rs rule: whole_records.induct) (auto simp: Let_def)

lemma whole_records_ge:
  "length (log_bytes crc api (take d rs)) \<le> n \<Longrightarrow> d \<le> length rs \<Longrightarrow>
     d \<le> whole_records crc api n rs"
proof (induction crc api n rs arbitrary: d rule: whole_records.induct)
  case (2 crc api n r rs)
  then show ?case by (cases d) (auto simp: Let_def)
qed simp

lemma replay_loop_log:
  assumes "literal_laws api"
  shows "list_all (record_ok api) rs \<Longrightarrow> n \<le> length (log_bytes crc api rs) \<Longrightarrow>
    file_len = valid_len + n \<Longrightarrow>
    replay_loop crc api file_len valid_len (take n (log_bytes crc api rs)) =
      (take (whole_records crc api n rs) rs,
       valid_len + length (log_bytes crc api (take (whole_records crc api n rs) rs)))"
proof (induction rs arbitrary: n valid_len)
  case Nil
  then show ?case by (subst replay_loop.simps) (simp add: fill_or_eof_def)
next
  case (Cons r rs)
  let ?f = "the (frame_record crc api r)"
  from Cons.prems have ok: "record_ok api r" and f: "frame_record crc api r = Some ?f"
    using frame_record_the [OF assms] by auto
  show ?case
  proof (cases "length ?f \<le> n")
    case True
    then have "take n (log_bytes crc api (r # rs)) = ?f @ take (n - length ?f) (log_bytes crc api rs)"
      by simp
    with True Cons.prems Cons.IH [of "n - length ?f" "valid_len + length ?f"] show ?thesis
      by (simp add: replay_loop_frame [OF assms ok f] add.assoc)
  next
    case False
    with replay_loop_torn [OF assms ok f, of n file_len valid_len] Cons.prems(3) show ?thesis
      by simp
  qed
qed

text \<open>
  What the log does over time. \<open>wal_reach crc api f rs d\<close>: the file \<open>f\<close> can arise after the
  records \<open>rs\<close> were written, the first \<open>d\<close> of them acknowledged as durable. A crash keeps
  some prefix of the file that holds at least the synced bytes, and the file is then
  recovered by \<open>replay\<close>.
\<close>

inductive wal_reach ::
  "(bytes \<Rightarrow> u32) \<Rightarrow> 'l literal_api \<Rightarrow> wal_file \<Rightarrow> 'l wal_record list \<Rightarrow> nat \<Rightarrow> bool"
  for crc api where
  opened: "wal_reach crc api (create_or_open None) [] 0"
| appended: "wal_reach crc api f rs d \<Longrightarrow> record_ok api r \<Longrightarrow> wal_append crc api f r = Some f' \<Longrightarrow>
     wal_reach crc api f' (rs @ [r]) (length rs + 1)"
| batched: "wal_reach crc api f rs d \<Longrightarrow> list_all (record_ok api) rs' \<Longrightarrow>
     append_batch crc api f rs' = Some f' \<Longrightarrow>
     wal_reach crc api f' (rs @ rs') (if rs' = [] then d else length (rs @ rs'))"
| unsynced: "wal_reach crc api f rs d \<Longrightarrow> record_ok api r \<Longrightarrow>
     append_no_sync crc api f r = Some f' \<Longrightarrow> wal_reach crc api f' (rs @ [r]) d"
| synced: "wal_reach crc api f rs d \<Longrightarrow> wal_reach crc api (wal_sync f) rs (length rs)"
| crashed: "wal_reach crc api f rs d \<Longrightarrow> wal_file.synced f \<le> n \<Longrightarrow> n \<le> length (contents f) \<Longrightarrow>
     replay crc api (Some \<lparr>contents = take n (contents f), synced = wal_file.synced f\<rparr>)
       = (rs', Some f') \<Longrightarrow> wal_reach crc api f' rs' d"

definition wal_inv ::
  "(bytes \<Rightarrow> u32) \<Rightarrow> 'l literal_api \<Rightarrow> wal_file \<Rightarrow> 'l wal_record list \<Rightarrow> nat \<Rightarrow> bool" where
  "wal_inv crc api f rs d \<longleftrightarrow> list_all (record_ok api) rs \<and> contents f = log_bytes crc api rs
     \<and> d \<le> length rs \<and> length (log_bytes crc api (take d rs)) \<le> wal_file.synced f
     \<and> wal_file.synced f \<le> length (contents f)"

lemma wal_crash_replay:
  assumes "literal_laws api" "wal_inv crc api f rs d"
    and "wal_file.synced f \<le> n" "n \<le> length (contents f)"
  shows "\<exists>f'. replay crc api (Some \<lparr>contents = take n (contents f), synced = wal_file.synced f\<rparr>)
      = (take (whole_records crc api n rs) rs, Some f')
    \<and> d \<le> whole_records crc api n rs \<and> wal_inv crc api f' (take (whole_records crc api n rs) rs) d"
proof -
  let ?k = "whole_records crc api n rs"
  let ?m = "length (log_bytes crc api (take ?k rs))"
  from assms(2) have ok: "list_all (record_ok api) rs" and c: "contents f = log_bytes crc api rs"
    and d: "d \<le> length rs" "length (log_bytes crc api (take d rs)) \<le> wal_file.synced f"
    by (auto simp: wal_inv_def)
  have k: "d \<le> ?k" using d assms(3) by (intro whole_records_ge) auto
  have n: "length (log_bytes crc api (take ?k rs)) \<le> n" by (rule whole_records_bounds)
  have pre: "log_bytes crc api rs = log_bytes crc api (take ?k rs) @ log_bytes crc api (drop ?k rs)"
    by (metis append_take_drop_id log_bytes_simps(3))
  have take_n: "take (length (log_bytes crc api (take ?k rs))) (take n (log_bytes crc api rs))
      = log_bytes crc api (take ?k rs)"
  proof -
    have "take ?m (take n (log_bytes crc api rs)) = take ?m (log_bytes crc api rs)"
      using n by (simp add: min_def)
    also have "\<dots> = log_bytes crc api (take ?k rs)"
      by (metis append_eq_conv_conj pre)
    finally show ?thesis .
  qed
  have take_m: "take ?m (log_bytes crc api rs) = log_bytes crc api (take ?k rs)"
    by (metis append_eq_conv_conj pre)
  have loop: "replay_loop crc api n 0 (take n (log_bytes crc api rs))
      = (take ?k rs, length (log_bytes crc api (take ?k rs)))"
    using replay_loop_log [OF assms(1) ok, of n crc n 0] assms(4) c by simp
  let ?f' = "\<lparr>contents = log_bytes crc api (take ?k rs), synced = min ?m (wal_file.synced f)\<rparr>"
  have len: "length (take n (log_bytes crc api rs)) = n" using assms(4) c by simp
  have rep: "replay crc api (Some \<lparr>contents = take n (contents f), synced = wal_file.synced f\<rparr>)
      = (take ?k rs, Some ?f')"
  proof (cases "?m < n")
    case True
    then show ?thesis unfolding replay_def c by (simp add: len loop take_m min_def del: length_take)
  next
    case False
    with n have "?m = n" by simp
    with take_n have tk: "take n (log_bytes crc api rs) = log_bytes crc api (take ?k rs)" by simp
    with False \<open>?m = n\<close> assms(3) show ?thesis
      unfolding replay_def c by (simp add: loop [unfolded tk])
  qed
  have "list_all (record_ok api) (take ?k rs)"
    using ok by (auto simp: list_all_iff dest: in_set_takeD)
  moreover have tdk: "take d (take ?k rs) = take d rs" using k by (simp add: min_absorb1)
  moreover have "length (log_bytes crc api (take d rs)) \<le> ?m"
    by (metis append_take_drop_id le_add1 length_append log_bytes_simps(3) tdk)
  ultimately have "wal_inv crc api ?f' (take ?k rs) d"
    using d k by (auto simp: wal_inv_def simp del: take_take)
  with rep k show ?thesis by blast
qed

lemma wal_reach_inv: "wal_reach crc api f rs d \<Longrightarrow> literal_laws api \<Longrightarrow> wal_inv crc api f rs d"
proof (induction rule: wal_reach.induct)
  case opened
  show ?case by (simp add: wal_inv_def create_or_open_def)
next
  case (appended f rs d r f')
  then obtain fr where "frame_record crc api r = Some fr" using frame_record_the by blast
  with appended show ?case
    by (auto simp: wal_inv_def wal_append_def wal_sync_def write_all_def)
next
  case (batched f rs d rs' f')
  have "rs' \<noteq> [] \<Longrightarrow> log_bytes crc api rs' \<noteq> []"
    using batched.hyps batched.prems frame_record_pos [of api "hd rs'" crc]
    by (cases rs') auto
  with batched show ?case
    by (cases "rs' = []") (auto simp: wal_inv_def append_batch_def frame_all_log wal_sync_def
        write_all_def)
next
  case (unsynced f rs d r f')
  then obtain fr where "frame_record crc api r = Some fr" using frame_record_the by blast
  with unsynced show ?case
    by (auto simp: wal_inv_def append_no_sync_def write_all_def)
next
  case (synced f rs d)
  then show ?case by (simp add: wal_inv_def wal_sync_def)
next
  case (crashed f rs d n rs' f')
  then show ?case using wal_crash_replay [of api crc f rs d n] by auto
qed

section \<open>Properties\<close>

text \<open>
  The record codec: every record whose strings are UTF-8 and whose payload is below
  4 GiB is encoded without panic, and \<open>decode_record\<close> reads exactly that record back.
\<close>

theorem wal_record_roundtrip:
  assumes "literal_laws api" and "record_ok api r"
  shows "\<exists>buf. encode_record api r = Some buf \<and> decode_record api buf = Inr r"
  using encode_decode [OF assms] by metis

text \<open>A log of two records, used to apply the properties below to concrete data.\<close>

definition example_api :: "rdf_literal literal_api" where
  "example_api = std_literal_api [120] [108] [100]"

definition example_quad :: "rdf_literal quad" where
  "example_quad = \<lparr>quad_subject = SubjNamed [97],
     quad_predicate = [112],
     quad_object = Triple (SubjBlank [98]) [113] (Literal (DirLangLiteral [118] [101, 110] Rtl)),
     quad_graph = GraphNamed [103]\<rparr>"

lemma example_laws: "literal_laws example_api"
  unfolding example_api_def by (rule std_literal_laws)

lemma example_records_ok:
  "record_ok example_api (InsertQuad example_quad)"
  "record_ok example_api (RegisterGraph DefaultGraph)"
  by (simp_all add: record_ok_def quad_ok_def example_quad_def example_api_def std_literal_api_def
      literal_strings_def str_ok_def encode_record_def write_quad_def Let_def write_string_def
      u32_to_le_bytes_def)

theorem wal_record_roundtrip_witness:
  "literal_laws example_api \<and> record_ok example_api (InsertQuad example_quad) \<and>
   (\<exists>buf. encode_record example_api (InsertQuad example_quad) = Some buf \<and>
      decode_record example_api buf = Inr (InsertQuad example_quad))"
  using wal_record_roundtrip [OF example_laws example_records_ok(1)] example_laws
    example_records_ok(1) by blast

text \<open>
  (C3) Crash recovery: after any history of synced, batched and unsynced appends, syncs and
  earlier recoveries, a crash that keeps at least the synced bytes loses only whole records
  from the end of the log. \<open>replay\<close> applies a prefix of the written records, in order, that
  holds every record acknowledged as durable, and leaves a file that consists of exactly
  the frames of that prefix. This holds for every checksum function.
\<close>

theorem wal_crash_recovery:
  assumes "literal_laws api" and "wal_reach crc api f rs d"
    and "wal_file.synced f \<le> n" and "n \<le> length (contents f)"
  shows "\<exists>k f'. d \<le> k \<and> k \<le> length rs
    \<and> replay crc api (Some \<lparr>contents = take n (contents f), synced = wal_file.synced f\<rparr>)
        = (take k rs, Some f')
    \<and> frame_all crc api [] (take k rs) = Some (contents f')"
proof -
  let ?k = "whole_records crc api n rs"
  from wal_crash_replay [OF assms(1) wal_reach_inv [OF assms(2,1)] assms(3,4)] obtain f' where
    f': "replay crc api (Some \<lparr>contents = take n (contents f), synced = wal_file.synced f\<rparr>)
      = (take ?k rs, Some f')" "d \<le> ?k" "wal_inv crc api f' (take ?k rs) d" by blast
  then have "frame_all crc api [] (take ?k rs) = Some (contents f')"
    using frame_all_log [OF assms(1), of "take ?k rs" crc "[]"] by (simp add: wal_inv_def)
  with f' whole_records_le [of crc api n rs] show ?thesis by blast
qed

lemma example_log:
  "frame_record (\<lambda>_. 7) example_api (RegisterGraph DefaultGraph)
     = Some [2, 0, 0, 0, 3, 2, 7, 0, 0, 0]"
  by (simp add: frame_record_def encode_record_def u32_to_le_bytes_def)

lemma example_reach:
  "wal_reach (\<lambda>_. 7) example_api
     \<lparr>contents = [2, 0, 0, 0, 3, 2, 7, 0, 0, 0, 2, 0, 0, 0, 3, 2, 7, 0, 0, 0], synced = 10\<rparr>
     [RegisterGraph DefaultGraph, RegisterGraph DefaultGraph] 1"
proof -
  have 1: "wal_reach (\<lambda>_. 7) example_api \<lparr>contents = [2, 0, 0, 0, 3, 2, 7, 0, 0, 0], synced = 10\<rparr>
      ([] @ [RegisterGraph DefaultGraph]) (length ([] :: rdf_literal wal_record list) + 1)"
    by (rule wal_reach.appended [OF wal_reach.opened example_records_ok(2)])
      (simp add: wal_append_def example_log create_or_open_def write_all_def wal_sync_def)
  show ?thesis
    using wal_reach.unsynced [OF 1 example_records_ok(2)]
    by (simp add: append_no_sync_def example_log write_all_def)
qed

theorem wal_crash_recovery_witness:
  "\<exists>k f'. 1 \<le> k \<and> k \<le> 2 \<and>
     replay (\<lambda>_. 7) example_api (Some \<lparr>contents = [2, 0, 0, 0, 3, 2, 7, 0, 0, 0, 2, 0, 0], synced = 10\<rparr>)
       = (take k [RegisterGraph DefaultGraph, RegisterGraph DefaultGraph], Some f')
     \<and> frame_all (\<lambda>_. 7) example_api [] (take k [RegisterGraph DefaultGraph, RegisterGraph DefaultGraph])
         = Some (contents f')"
  using wal_crash_recovery [OF example_laws example_reach, of 13] by (simp add: numeral_2_eq_2)

end
