(* ===== verification/DictSnapshot.thy ===== *)
theory DictSnapshot
  imports Dict Manifest Wal "HOL-Library.Multiset"
begin

text \<open>
  Persistence of the dictionary: the snapshot of \<^verbatim>\<open>Dictionary::to_snapshot\<close> and its reconstruction
  (\<^verbatim>\<open>crates/core/nova-core/src/dict.rs\<close>), the container file with a serialised index and compressed blocks
  (\<^verbatim>\<open>crates/core/nova-storage/src/dict_lz4.rs\<close>), and writing and loading it (\<^verbatim>\<open>dict_snapshot.rs\<close>). The
  serialisation of the \<^verbatim>\<open>epserde\<close> crate and the order in which hash maps list their keys are parameters.
\<close>

section \<open>Snapshots\<close>

record 'v dict_snapshot =
  ds_next_graph_id :: u8
  ds_compacted :: "'v compacted_tier"
  ds_triple_ids :: "u64 list"
  ds_triple_s :: "u64 list"
  ds_triple_p :: "u64 list"
  ds_triple_o :: "u64 list"
  ds_graph_ids :: "u8 list"
  ds_graph_kinds :: "u8 list"
  ds_graph_str_flat :: bytes
  ds_graph_str_offsets :: "u32 list"

record 'v dict_index_snapshot =
  di_next_graph_id :: u8
  di_compacted :: "'v compacted_tier"
  di_buf_len :: u64
  di_triple_ids :: "u64 list"
  di_triple_s :: "u64 list"
  di_triple_p :: "u64 list"
  di_triple_o :: "u64 list"
  di_graph_ids :: "u8 list"
  di_graph_kinds :: "u8 list"
  di_graph_str_flat :: bytes
  di_graph_str_offsets :: "u32 list"

record 'v dict_codec =
  dc_serialize :: "'v dict_index_snapshot \<Rightarrow> bytes result"
  dc_deserialize :: "bytes \<Rightarrow> 'v dict_index_snapshot result"
  dc_triple_order :: "term_id set \<Rightarrow> term_id list"
  dc_graph_order :: "u8 set \<Rightarrow> u8 list"

definition all_graphs :: "'v dict_codec \<Rightarrow> ('l, 'v, 'c) dictionary \<Rightarrow> (graph_id \<times> graph_name) list" where
  "all_graphs K d =
     List.map_filter (\<lambda>raw. map_option (Pair (GraphId raw)) (id_to_graph d raw)) (dc_graph_order K (dom (id_to_graph d)))"

definition graph_kind :: "graph_name \<Rightarrow> u8" where
  "graph_kind g = (case g of DefaultGraph \<Rightarrow> 2 | GraphNamed _ \<Rightarrow> 0 | GraphBlank _ \<Rightarrow> 1)"

definition graph_str :: "graph_name \<Rightarrow> bytes" where
  "graph_str g = (case g of DefaultGraph \<Rightarrow> [] | GraphNamed n \<Rightarrow> n | GraphBlank b \<Rightarrow> b)"

definition push_graph :: "graph_id \<times> graph_name \<Rightarrow> 'v dict_snapshot \<Rightarrow> 'v dict_snapshot" where
  "push_graph e snap =
     (case e of (gid, gname) \<Rightarrow>
        snap\<lparr>ds_graph_ids := ds_graph_ids snap @ [as_u8 gid],
             ds_graph_str_offsets := ds_graph_str_offsets snap @ [of_nat (length (ds_graph_str_flat snap))],
             ds_graph_kinds := ds_graph_kinds snap @ [graph_kind gname],
             ds_graph_str_flat := ds_graph_str_flat snap @ graph_str gname\<rparr>)"

text \<open>The components of every quoted triple, by ascending identifier.\<close>

definition triple_rows :: "'v dict_codec \<Rightarrow> ('l, 'v, 'c) dictionary \<Rightarrow> (u64 \<times> u64 \<times> u64 \<times> u64) list" where
  "triple_rows K d =
     sort_key fst (List.map_filter (\<lambda>i. map_option (\<lambda>(s, p, ob). (as_u64 i, as_u64 s, as_u64 p, as_u64 ob)) (triple_terms d i))
       (dc_triple_order K (dom (triple_terms d))))"

definition to_snapshot :: "'v dict_codec \<Rightarrow> ('l, 'v, 'c) dictionary \<Rightarrow> 'v dict_snapshot option" where
  "to_snapshot K d =
     (case compacted d of
        BlockCached _ _ \<Rightarrow> None
      | Owned t \<Rightarrow>
          let triples = triple_rows K d in
          Some (fold push_graph (all_graphs K d)
            \<lparr>ds_next_graph_id = next_graph_id d, ds_compacted = t,
             ds_triple_ids = map (\<lambda>(i, s, p, ob). i) triples, ds_triple_s = map (\<lambda>(i, s, p, ob). s) triples,
             ds_triple_p = map (\<lambda>(i, s, p, ob). p) triples, ds_triple_o = map (\<lambda>(i, s, p, ob). ob) triples,
             ds_graph_ids = [], ds_graph_kinds = [], ds_graph_str_flat = [], ds_graph_str_offsets = []\<rparr>))"

definition from_full_snapshot :: "'v dict_snapshot \<Rightarrow> 'v dict_index_snapshot \<times> bytes" where
  "from_full_snapshot snap =
     (let buf = fc_buf (ds_compacted snap) in
      (\<lparr>di_next_graph_id = ds_next_graph_id snap, di_compacted = (ds_compacted snap)\<lparr>fc_buf := []\<rparr>,
        di_buf_len = of_nat (length buf), di_triple_ids = ds_triple_ids snap, di_triple_s = ds_triple_s snap,
        di_triple_p = ds_triple_p snap, di_triple_o = ds_triple_o snap, di_graph_ids = ds_graph_ids snap,
        di_graph_kinds = ds_graph_kinds snap, di_graph_str_flat = ds_graph_str_flat snap,
        di_graph_str_offsets = ds_graph_str_offsets snap\<rparr>, buf))"

definition into_tier_index :: "'v dict_index_snapshot \<Rightarrow> 'v tier_index" where
  "into_tier_index x = tier_index_of (di_compacted x) (unat (di_buf_len x))"

section \<open>Reconstruction\<close>

text \<open>The closure \<open>decode_component\<close> of \<open>finish_from_parts\<close>; the outer option is a panic.\<close>

definition decode_component ::
  "('l, 'v, 'c) dict_env \<Rightarrow> ('l, 'v, 'c) dictionary \<Rightarrow> u64 \<Rightarrow> 'l rdf_term result option" where
  "decode_component E d raw_id =
     (case nth_opt (id_to_term d) (unat raw_id) of
        Some (Some term) \<Rightarrow> Some (Inr term)
      | _ \<Rightarrow>
          do {res \<leftarrow> handle_decode_id (env_lit E) (env_bits E) (env_lz4 E) (compacted d) (unat raw_id);
              Some (case res of
                      None \<Rightarrow> Inl (Storage ''dict snapshot: quoted-triple component id not found'')
                    | Some r \<Rightarrow> r)})"

fun as_subject :: "'l rdf_term \<Rightarrow> subject result" where
  "as_subject (NamedNode n) = Inr (SubjNamed n)"
| "as_subject (BlankNode b) = Inr (SubjBlank b)"
| "as_subject _ = Inl (Storage ''dict snapshot: quoted-triple subject decoded to non-subject term'')"

fun as_predicate :: "'l rdf_term \<Rightarrow> rstring result" where
  "as_predicate (NamedNode n) = Inr n"
| "as_predicate _ = Inl (Storage ''dict snapshot: quoted-triple predicate decoded to non-IRI term'')"

text \<open>One iteration of the loop over the quoted triples.\<close>

definition restore_triple ::
  "('l, 'v, 'c) dict_env \<Rightarrow> u64 \<times> u64 \<times> u64 \<times> u64 \<Rightarrow> ('l, 'v, 'c) dictionary \<Rightarrow> ('l, 'v, 'c) dictionary result option" where
  "restore_triple E row d =
     (case row of (tid_raw, s_raw, p_raw, o_raw) \<Rightarrow>
        do {s_term \<leftarrow> decode_component E d s_raw;
            case s_term of Inl e \<Rightarrow> Some (Inl e) | Inr s_term \<Rightarrow> do {
            p_term \<leftarrow> decode_component E d p_raw;
            case p_term of Inl e \<Rightarrow> Some (Inl e) | Inr p_term \<Rightarrow> do {
            o_term \<leftarrow> decode_component E d o_raw;
            case o_term of Inl e \<Rightarrow> Some (Inl e) | Inr o_term \<Rightarrow>
            (case and_then (as_subject s_term) (\<lambda>s.
                  and_then (as_predicate p_term) (\<lambda>p.
                  and_then (term_id_new tid_raw) (\<lambda>ti.
                  and_then (term_id_new s_raw) (\<lambda>s_id.
                  and_then (term_id_new p_raw) (\<lambda>p_id.
                  and_then (term_id_new o_raw) (\<lambda>o_id.
                    Inr (Triple s p o_term, ti, (s_id, p_id, o_id)))))))) of
               Inl e \<Rightarrow> Some (Inl e)
             | Inr (term, ti, components) \<Rightarrow>
                 if unat tid_raw < length (id_to_term d)
                 then Some (Inr (d\<lparr>id_to_term := (id_to_term d)[unat tid_raw := Some term],
                                   term_to_id := (term_to_id d)(term \<mapsto> ti),
                                   triple_terms := (triple_terms d)(ti \<mapsto> components),
                                   triple_index := (triple_index d)(components \<mapsto> ti)\<rparr>))
                 else None)}}})"

text \<open>A loop whose body may panic or return an error.\<close>

fun fold_result :: "('a \<Rightarrow> 's \<Rightarrow> 's result option) \<Rightarrow> 'a list \<Rightarrow> 's \<Rightarrow> 's result option" where
  "fold_result f [] s = Some (Inr s)"
| "fold_result f (x # xs) s =
     do {r \<leftarrow> f x s; case r of Inl e \<Rightarrow> Some (Inl e) | Inr s \<Rightarrow> fold_result f xs s}"

text \<open>One iteration of the loop over the graphs.\<close>

definition restore_graph ::
  "'v dict_index_snapshot \<Rightarrow> nat \<Rightarrow> ('l, 'v, 'c) dictionary \<Rightarrow> ('l, 'v, 'c) dictionary result option" where
  "restore_graph x i d =
     do {gid \<leftarrow> nth_opt (di_graph_ids x) i;
         kind \<leftarrow> nth_opt (di_graph_kinds x) i;
         start \<leftarrow> nth_opt (di_graph_str_offsets x) i;
         let end_pos = (case nth_opt (di_graph_str_offsets x) (i + 1) of
                          Some y \<Rightarrow> unat y | None \<Rightarrow> length (di_graph_str_flat x));
         s \<leftarrow> slice_of (di_graph_str_flat x) (unat start) end_pos;
         if \<not> valid_utf8 s then Some (Inl (Storage ''dict snapshot: invalid utf8''))
         else
           (case (if kind = 0 then Inr (GraphNamed s)
                  else if kind = 1 then Inr (GraphBlank s)
                  else if kind = 2 then Inr DefaultGraph
                  else Inl (Storage ''dict snapshot: unknown graph kind'')) of
              Inl e \<Rightarrow> Some (Inl e)
            | Inr gname \<Rightarrow> Some (Inr (d\<lparr>graph_to_id := (graph_to_id d)(gname \<mapsto> GraphId gid),
                                         id_to_graph := (id_to_graph d)(gid \<mapsto> gname)\<rparr>)))}"

definition snapshot_rows :: "'v dict_index_snapshot \<Rightarrow> (u64 \<times> u64 \<times> u64 \<times> u64) option list" where
  "snapshot_rows x =
     map (\<lambda>i. do {ti \<leftarrow> nth_opt (di_triple_ids x) i; s \<leftarrow> nth_opt (di_triple_s x) i;
                  p \<leftarrow> nth_opt (di_triple_p x) i; ob \<leftarrow> nth_opt (di_triple_o x) i; Some (ti, s, p, ob)})
       [0..<length (di_triple_ids x)]"

definition finish_from_parts ::
  "('l, 'v, 'c) dict_env \<Rightarrow> 'v tier_handle \<Rightarrow> nat \<Rightarrow> 'v dict_index_snapshot \<Rightarrow> ('l, 'v, 'c) dictionary result option" where
  "finish_from_parts E handle hw x =
     do {r \<leftarrow> fold_result (\<lambda>row d. do {row \<leftarrow> row; restore_triple E row d}) (snapshot_rows x)
            \<lparr>id_to_term = replicate hw None, term_to_id = Map.empty, compacted = handle,
             decode_cache = lru_new (env_lru E) DECODE_CACHE_CAPACITY, graph_to_id = Map.empty,
             id_to_graph = Map.empty, next_graph_id = di_next_graph_id x, triple_terms = Map.empty,
             triple_index = Map.empty\<rparr>;
         case r of Inl e \<Rightarrow> Some (Inl e) | Inr d \<Rightarrow> do {
         r \<leftarrow> fold_result (restore_graph x) [0..<length (di_graph_ids x)] d;
         case r of Inl e \<Rightarrow> Some (Inl e) | Inr d \<Rightarrow>
           Some (Inr (d\<lparr>graph_to_id := or_insert (graph_to_id d) DefaultGraph GRAPH_DEFAULT,
                        id_to_graph := or_insert (id_to_graph d) 0 DefaultGraph\<rparr>))}}"

text \<open>The index of a compressed tier and its blocks; the new cache is empty.\<close>

definition from_parts ::
  "'v dict_index_snapshot \<Rightarrow> nat \<Rightarrow> nat \<Rightarrow> u64 list \<Rightarrow> bytes \<Rightarrow> ('v tier_index \<times> lz4_buf_blocks) result" where
  "from_parts x bs raw_len offs data =
     (let ix = (into_tier_index x)\<lparr>ix_buf_len := raw_len\<rparr>;
          lz = \<lparr>lz_block_size = bs, lz_raw_len = raw_len, lz_offsets = offs, lz_data = data\<rparr>
      in if ix_buf_len ix \<noteq> lz_raw_len lz then Inl (Storage ''dict block cache: index buf_len != lz4 raw_len'')
         else Inr (ix, lz))"

definition from_block_cached ::
  "('l, 'v, 'c) dict_env \<Rightarrow> 'v tier_index \<Rightarrow> lz4_buf_blocks \<Rightarrow> 'v dict_index_snapshot \<Rightarrow> ('l, 'v, 'c) dictionary result option" where
  "from_block_cached E ix lz x = finish_from_parts E (BlockCached ix lz) (ix_high_water ix) x"

section \<open>The container\<close>

definition u64_to_le_bytes :: "u64 \<Rightarrow> bytes" where
  "u64_to_le_bytes x = map (\<lambda>k. ucast (drop_bit (8 * k) x)) [0..<8]"

definition u64_from_le_bytes :: "bytes \<Rightarrow> u64" where
  "u64_from_le_bytes bs = foldr (\<lambda>b x. ucast b OR push_bit 8 x) bs 0"

definition DEFAULT_BUF_LZ4_BLOCK :: nat where
  "DEFAULT_BUF_LZ4_BLOCK = 64 * 1024"

definition MAGIC :: bytes where
  "MAGIC = ascii ''NOVA_DICT_LZ4'' @ [0, 0, 0]"

definition VERSION :: u32 where
  "VERSION = 2"

definition HEADER_FIXED_LEN :: nat where
  "HEADER_FIXED_LEN = 40"

definition is_lz4_container :: "bytes \<Rightarrow> bool" where
  "is_lz4_container c \<longleftrightarrow> length c \<ge> length MAGIC \<and> take (length MAGIC) c = MAGIC"

definition div_ceil :: "nat \<Rightarrow> nat \<Rightarrow> nat" where
  "div_ceil n d = n div d + (if n mod d = 0 then 0 else 1)"

function compress_blocks :: "lz4_api \<Rightarrow> nat \<Rightarrow> bytes \<Rightarrow> bytes list" where
  "compress_blocks Z bs buf =
     (if buf = [] \<or> bs = 0 then [] else lz_compress Z (take bs buf) # compress_blocks Z bs (drop bs buf))"
  by pat_completeness auto
termination by (relation "measure (\<lambda>(Z, bs, buf). length buf)") auto

declare compress_blocks.simps [simp del]

text \<open>The start of every block relative to the first one, and the end of the last.\<close>

definition rel_offsets :: "bytes list \<Rightarrow> u64 list" where
  "rel_offsets blks = map (\<lambda>k. of_nat (length (concat (take k blks)))) [0..<Suc (length blks)]"

definition compress_dict :: "lz4_api \<Rightarrow> 'v dict_codec \<Rightarrow> 'v dict_snapshot \<Rightarrow> nat \<Rightarrow> bytes result" where
  "compress_dict Z K snap bs =
     (if bs = 0 then Inl (Storage ''dict lz4: block_size must be non-zero'')
      else case from_full_snapshot snap of (x, buf) \<Rightarrow>
        and_then (dc_serialize K x) (\<lambda>index_bytes.
          let n_blocks = (if buf = [] then 0 else div_ceil (length buf) bs);
              blks = compress_blocks Z bs buf
          in Inr (MAGIC @ u32_to_le_bytes VERSION @ u32_to_le_bytes (of_nat bs) @ u64_to_le_bytes (of_nat (length buf)) @
                  u32_to_le_bytes (of_nat n_blocks) @ u32_to_le_bytes 0 @ u64_to_le_bytes (of_nat (length index_bytes)) @
                  index_bytes @ concat (map u64_to_le_bytes (rel_offsets blks)) @ concat blks)))"

text \<open>Fixed-width integers inside the container; the conversions of the slices cannot fail.\<close>

definition u32_at :: "bytes \<Rightarrow> nat \<Rightarrow> u32 option" where
  "u32_at c pos = map_option u32_from_le_bytes (slice_of c pos (pos + 4))"

definition u64_at :: "bytes \<Rightarrow> nat \<Rightarrow> u64 option" where
  "u64_at c pos = map_option u64_from_le_bytes (slice_of c pos (pos + 8))"

text \<open>The loop that checks the offsets and copies the blocks.\<close>

fun copy_blocks ::
  "bytes \<Rightarrow> u64 list \<Rightarrow> nat list \<Rightarrow> u64 list \<Rightarrow> bytes \<Rightarrow> (u64 list \<times> bytes) result option" where
  "copy_blocks payload rels [] offs data = Some (Inr (offs @ [of_nat (length data)], data))"
| "copy_blocks payload rels (b # bs) offs data =
     do {start \<leftarrow> nth_opt rels b;
         end_pos \<leftarrow> nth_opt rels (b + 1);
         if unat end_pos > length payload \<or> start > end_pos then Some (Inl (Storage ''dict lz4: block offsets out of range''))
         else do {
           part \<leftarrow> slice_of payload (unat start) (unat end_pos);
           copy_blocks payload rels bs (offs @ [of_nat (length data)]) (data @ part)}}"

definition load_container ::
  "('l, 'v, 'c) dict_env \<Rightarrow> 'v dict_codec \<Rightarrow> bytes \<Rightarrow> ('l, 'v, 'c) dictionary result option" where
  "load_container E K c =
     do {bs \<leftarrow> map_option unat (u32_at c 20);
         raw_len \<leftarrow> map_option unat (u64_at c 24);
         n_blocks \<leftarrow> map_option unat (u32_at c 32);
         if bs = 0 then Some (Inl (Storage ''dict lz4: block_size is zero''))
         else if (if raw_len = 0 then 0 else div_ceil raw_len bs) \<noteq> n_blocks
         then Some (Inl (Storage ''dict lz4: n_blocks inconsistent with raw_len / block_size''))
         else if length c < HEADER_FIXED_LEN + 8 then Some (Inl (Storage ''dict lz4: truncated before index_len''))
         else do {
           index_len \<leftarrow> map_option unat (u64_at c HEADER_FIXED_LEN);
           let pos = HEADER_FIXED_LEN + 8;
           if length c < pos + index_len then Some (Inl (Storage ''dict lz4: truncated in index payload''))
           else do {
             index_bytes \<leftarrow> slice_of c pos (pos + index_len);
             let pos = pos + index_len;
             let offsets_bytes = (n_blocks + 1) * 8;
             if length c < pos + offsets_bytes then Some (Inl (Storage ''dict lz4: truncated in offset table''))
             else do {
               rels \<leftarrow> those (map (\<lambda>k. u64_at c (pos + k * 8)) [0..<Suc n_blocks]);
               blks \<leftarrow> copy_blocks (drop (pos + offsets_bytes) c) rels [0..<n_blocks] [] [];
               case blks of Inl e \<Rightarrow> Some (Inl e) | Inr (abs_offsets, data) \<Rightarrow>
               (case dc_deserialize K index_bytes of Inl e \<Rightarrow> Some (Inl e) | Inr x \<Rightarrow>
                  if unat (di_buf_len x) \<noteq> raw_len then Some (Inl (Storage ''dict lz4: header raw_len != index buf_len''))
                  else
                    (case from_parts x bs raw_len abs_offsets data of
                       Inl e \<Rightarrow> Some (Inl e)
                     | Inr (ix, lz) \<Rightarrow> from_block_cached E ix lz x))}}}}"

definition load_dictionary_from_container ::
  "('l, 'v, 'c) dict_env \<Rightarrow> 'v dict_codec \<Rightarrow> bytes \<Rightarrow> ('l, 'v, 'c) dictionary result option" where
  "load_dictionary_from_container E K c =
     (if \<not> is_lz4_container c then Some (Inl (Storage ''dict lz4: missing NOVA_DICT_LZ4 magic''))
      else if length c < HEADER_FIXED_LEN then Some (Inl (Storage ''dict lz4: container truncated in fixed header''))
      else do {
        version \<leftarrow> u32_at c 16;
        if version \<noteq> VERSION then Some (Inl (Storage ''dict lz4: unsupported version''))
        else load_container E K c})"

section \<open>Files\<close>

definition path_is_lz4_container :: "bytes \<Rightarrow> bool" where
  "path_is_lz4_container content \<longleftrightarrow> length content \<ge> 16 \<and> take 16 content = MAGIC"

definition load_mmap_from_file ::
  "('l, 'v, 'c) dict_env \<Rightarrow> 'v dict_codec \<Rightarrow> bytes \<Rightarrow> directory \<Rightarrow> ('l, 'v, 'c) dictionary result option" where
  "load_mmap_from_file E K path dir =
     (case dir path of
        None \<Rightarrow> Some (Inr (dict_new E))
      | Some content \<Rightarrow>
          if \<not> path_is_lz4_container content
          then Some (Inl (Storage ''dict snapshot: expected NOVA_DICT_LZ4 container''))
          else load_dictionary_from_container E K content)"

definition write_and_load_mmap ::
  "('l, 'v, 'c) dict_env \<Rightarrow> 'v dict_codec \<Rightarrow> ('l, 'v, 'c) dictionary \<Rightarrow> bytes \<Rightarrow> directory \<Rightarrow>
   (directory, ('l, 'v, 'c) dictionary) outcome" where
  "write_and_load_mmap E K d path dir =
     do {snap \<leftarrow> to_snapshot K d;
         case compress_dict (env_lz4 E) K snap DEFAULT_BUF_LZ4_BLOCK of
           Inl e \<Rightarrow> Some (dir, Inl e)
         | Inr container \<Rightarrow>
             let dir = rename_file (tmp_sibling path) path (write_file (tmp_sibling path) container dir) in
             map_option (Pair dir) (load_mmap_from_file E K path dir)}"

section \<open>Reading a container back\<close>

locale lz4_laws =
  fixes Z :: lz4_api
  assumes decompress_compress: "lz_decompress Z (lz_compress Z bs) = Inr bs"
    and compress_bound: "length (lz_compress Z bs) \<le> 2 * length bs + 24"

interpretation plain_lz4: lz4_laws plain_lz4
  by unfold_locales (simp_all add: plain_lz4_def)

lemma u64_le_roundtrip [simp]: "u64_from_le_bytes (u64_to_le_bytes x) = x"
proof (rule bit_word_eqI)
  fix n assume "n < LENGTH(64)"
  then consider "n < 8" | "8 \<le> n" "n < 16" | "16 \<le> n" "n < 24" | "24 \<le> n" "n < 32"
    | "32 \<le> n" "n < 40" | "40 \<le> n" "n < 48" | "48 \<le> n" "n < 56" | "56 \<le> n" "n < 64"
    by fastforce
  then show "bit (u64_from_le_bytes (u64_to_le_bytes x)) n \<longleftrightarrow> bit x n"
    by cases (auto simp: u64_to_le_bytes_def u64_from_le_bytes_def upt_rec bit_simps)
qed

lemma length_u64_to_le_bytes [simp]: "length (u64_to_le_bytes x) = 8"
  by (simp add: u64_to_le_bytes_def)

lemma slice_of_middle: "length pre = pos \<Longrightarrow> length w = n \<Longrightarrow> slice_of (pre @ w @ post) pos (pos + n) = Some w"
  by (auto simp: slice_of_def)

lemma u32_at_middle: "length pre = pos \<Longrightarrow> u32_at (pre @ u32_to_le_bytes x @ post) pos = Some x"
  by (simp add: u32_at_def slice_of_middle)

lemma u64_at_middle: "length pre = pos \<Longrightarrow> u64_at (pre @ u64_to_le_bytes x @ post) pos = Some x"
  by (simp add: u64_at_def slice_of_middle)

lemma u64_at_table:
  assumes "length pre = pos" "k < length xs"
  shows "u64_at (pre @ concat (map u64_to_le_bytes xs) @ post) (pos + k * 8) = Some (xs ! k)"
proof -
  have "concat (map u64_to_le_bytes xs) = concat (map u64_to_le_bytes (take k xs)) @ u64_to_le_bytes (xs ! k) @
      concat (map u64_to_le_bytes (drop (Suc k) xs))"
    using id_take_nth_drop [OF assms(2)] by (metis append.assoc concat.simps(2) concat_append list.simps(9) map_append)
  moreover have "length (pre @ concat (map u64_to_le_bytes (take k xs))) = pos + k * 8"
    using assms by (simp add: length_concat comp_def sum_list_triv)
  ultimately show ?thesis
    using u64_at_middle [of "pre @ concat (map u64_to_le_bytes (take k xs))" "pos + k * 8" "xs ! k"] by simp
qed

lemma compress_blocks_nth:
  assumes "0 < bs"
  shows "length (compress_blocks Z bs buf) = div_ceil (length buf) bs \<and>
    (\<forall>b < length (compress_blocks Z bs buf). compress_blocks Z bs buf ! b = lz_compress Z (take bs (drop (b * bs) buf)))"
  using assms
proof (induction Z bs buf rule: compress_blocks.induct)
  case (1 Z bs buf)
  show ?case
  proof (cases "buf = []")
    case False
    let ?cs = "compress_blocks Z bs (drop bs buf)"
    have IH: "length ?cs = div_ceil (length (drop bs buf)) bs"
      "b < length ?cs \<Longrightarrow> ?cs ! b = lz_compress Z (take bs (drop (b * bs) (drop bs buf)))" for b
      using 1 False by auto
    have cs: "compress_blocks Z bs buf = lz_compress Z (take bs buf) # ?cs"
      using False 1(2) by (subst compress_blocks.simps) simp
    have "div_ceil (length buf) bs = Suc (div_ceil (length buf - bs) bs)"
    proof (cases "bs \<le> length buf")
      case True
      then show ?thesis using 1(2) by (simp add: div_ceil_def le_div_geq le_mod_geq)
    next
      case shorter: False
      then show ?thesis using False by (simp add: div_ceil_def)
    qed
    moreover have "compress_blocks Z bs buf ! b = lz_compress Z (take bs (drop (b * bs) buf))" if "b < Suc (length ?cs)" for b
      using that IH(2) by (cases b) (simp_all add: cs add.commute)
    ultimately show ?thesis using IH(1) cs by simp
  qed (simp add: compress_blocks.simps div_ceil_def)
qed

lemma block_index: "0 < bs \<Longrightarrow> b < div_ceil n bs \<longleftrightarrow> b * bs < n"
proof -
  assume bs: "0 < bs"
  have n: "n = n div bs * bs + n mod bs" "n mod bs < bs" using bs by simp_all
  show ?thesis
  proof
    assume b: "b < div_ceil n bs"
    show "b * bs < n"
    proof (cases "b < n div bs")
      case True
      then show ?thesis using bs by (metis div_le_mono leD leI nonzero_mult_div_cancel_right not_gr0)
    next
      case False
      then have "b = n div bs" "n mod bs \<noteq> 0" using b by (auto simp: div_ceil_def split: if_splits)
      then show ?thesis using n(1) by (metis less_add_same_cancel1 neq0_conv)
    qed
  next
    assume less: "b * bs < n"
    then have "b \<le> n div bs" using bs by (metis div_le_mono less_imp_le nonzero_mult_div_cancel_right not_gr0)
    moreover have "b < n div bs" if "n mod bs = 0"
      using less n(1) that bs by (metis add.right_neutral mult_less_cancel2)
    ultimately show "b < div_ceil n bs" by (auto simp: div_ceil_def)
  qed
qed

lemma length_rel_offsets [simp]: "length (rel_offsets blks) = Suc (length blks)"
  by (simp add: rel_offsets_def)

lemma nth_rel_offsets: "k \<le> length blks \<Longrightarrow> rel_offsets blks ! k = of_nat (length (concat (take k blks)))"
  by (simp add: rel_offsets_def del: upt_Suc)

lemma concat_take_Suc: "k < length xs \<Longrightarrow> concat (take (Suc k) xs) = concat (take k xs) @ xs ! k"
  by (simp add: take_Suc_conv_app_nth)

lemma block_slice:
  assumes "length (concat blks) < 2 ^ 64" "k < length blks"
  shows "unat (rel_offsets blks ! k) = length (concat (take k blks))"
    and "unat (rel_offsets blks ! Suc k) = length (concat (take k blks)) + length (blks ! k)"
    and "length (concat (take k blks)) + length (blks ! k) \<le> length (concat blks)"
    and "slice_of (concat blks) (unat (rel_offsets blks ! k)) (unat (rel_offsets blks ! Suc k)) = Some (blks ! k)"
proof -
  have split: "concat blks = concat (take k blks) @ blks ! k @ concat (drop (Suc k) blks)"
    using id_take_nth_drop [OF assms(2)] by (metis concat.simps(2) concat_append)
  then have len: "length (concat (take k blks)) + length (blks ! k) \<le> length (concat blks)" by (metis add.assoc le_add1 length_append)
  then show "length (concat (take k blks)) + length (blks ! k) \<le> length (concat blks)" .
  have small: "length (concat (take k blks)) < 2 ^ 64" "length (concat (take k blks)) + length (blks ! k) < 2 ^ 64"
    using len assms(1) by linarith+
  show a: "unat (rel_offsets blks ! k) = length (concat (take k blks))"
    using small(1) assms(2) by (simp add: nth_rel_offsets unat_of_nat_u64)
  show b: "unat (rel_offsets blks ! Suc k) = length (concat (take k blks)) + length (blks ! k)"
    using unat_of_nat_u64 [OF small(2)] assms(2) concat_take_Suc [OF assms(2)] by (simp add: nth_rel_offsets)
  show "slice_of (concat blks) (unat (rel_offsets blks ! k)) (unat (rel_offsets blks ! Suc k)) = Some (blks ! k)"
    unfolding a b using split slice_of_middle [of "concat (take k blks)" _ "blks ! k"] by metis
qed

lemma copy_blocks_all:
  assumes "length (concat blks) < 2 ^ 64"
  shows "copy_blocks (concat blks) (rel_offsets blks) [0..<length blks] [] [] = Some (Inr (rel_offsets blks, concat blks))"
proof -
  have "copy_blocks (concat blks) (rel_offsets blks) [k..<length blks] (take k (rel_offsets blks)) (concat (take k blks)) =
      Some (Inr (rel_offsets blks, concat blks))" if "k \<le> length blks" for k
    using that
  proof (induction "length blks - k" arbitrary: k)
    case 0
    then have "k = length blks" by simp
    then show ?case
      using take_Suc_conv_app_nth [of "length blks" "rel_offsets blks"] nth_rel_offsets [of "length blks" blks] by simp
  next
    case (Suc n)
    then have k: "k < length blks" by simp
    note s = block_slice [OF assms k]
    have "rel_offsets blks ! k \<le> rel_offsets blks ! Suc k" using s(1,2) by (simp add: word_le_nat_alt)
    then have "copy_blocks (concat blks) (rel_offsets blks) [k..<length blks] (take k (rel_offsets blks)) (concat (take k blks)) =
        copy_blocks (concat blks) (rel_offsets blks) [Suc k..<length blks]
          (take k (rel_offsets blks) @ [rel_offsets blks ! k]) (concat (take k blks) @ blks ! k)"
      using k s by (simp add: upt_conv_Cons nth_rel_offsets not_less)
    then show ?case
      using Suc.hyps(1) [of "Suc k"] Suc.hyps(2) k concat_take_Suc [OF k] take_Suc_conv_app_nth [of k "rel_offsets blks"] by simp
  qed
  from this [of 0] show ?thesis by simp
qed

text \<open>What loading a compressed dictionary starts from: the index that was written, and the blocks.\<close>

definition written_blocks :: "lz4_api \<Rightarrow> bytes \<Rightarrow> lz4_buf_blocks" where
  "written_blocks Z buf =
     (let blks = compress_blocks Z DEFAULT_BUF_LZ4_BLOCK buf in
      \<lparr>lz_block_size = DEFAULT_BUF_LZ4_BLOCK, lz_raw_len = length buf, lz_offsets = rel_offsets blks, lz_data = concat blks\<rparr>)"

context lz4_laws
begin

lemma payload_bound:
  assumes "length buf < 2 ^ 32"
  shows "length (concat (compress_blocks Z DEFAULT_BUF_LZ4_BLOCK buf)) < 2 ^ 64"
    and "length (compress_blocks Z DEFAULT_BUF_LZ4_BLOCK buf) < 2 ^ 32"
proof -
  let ?blks = "compress_blocks Z DEFAULT_BUF_LZ4_BLOCK buf"
  note nth = compress_blocks_nth [of DEFAULT_BUF_LZ4_BLOCK Z buf]
  have n: "length ?blks \<le> Suc (length buf div DEFAULT_BUF_LZ4_BLOCK)"
    using nth by (simp add: DEFAULT_BUF_LZ4_BLOCK_def div_ceil_def)
  then have n': "length ?blks \<le> 2 ^ 17" using assms by (simp add: DEFAULT_BUF_LZ4_BLOCK_def)
  then show "length ?blks < 2 ^ 32" by simp
  have "length b \<le> 2 ^ 18" if b: "b \<in> set ?blks" for b
  proof -
    obtain k where "k < length ?blks" "b = ?blks ! k" using b by (auto simp: in_set_conv_nth)
    then have "b = lz_compress Z (take DEFAULT_BUF_LZ4_BLOCK (drop (k * DEFAULT_BUF_LZ4_BLOCK) buf))"
      using nth by (simp add: DEFAULT_BUF_LZ4_BLOCK_def)
    then have "length b \<le> 2 * length (take DEFAULT_BUF_LZ4_BLOCK (drop (k * DEFAULT_BUF_LZ4_BLOCK) buf)) + 24"
      by (simp only: compress_bound)
    also have "\<dots> \<le> 2 ^ 18" by (simp add: DEFAULT_BUF_LZ4_BLOCK_def)
    finally show ?thesis .
  qed
  then have "sum_list (map length ?blks) \<le> length ?blks * 2 ^ 18"
    using sum_list_mono [of ?blks length "\<lambda>_. 2 ^ 18"] by (simp add: sum_list_triv)
  also have "\<dots> \<le> 2 ^ 17 * 2 ^ 18" using n' by (rule mult_le_mono1)
  finally show "length (concat ?blks) < 2 ^ 64" by (simp add: length_concat)
qed

lemma written_blocks_hold:
  assumes "length buf < 2 ^ 32"
  shows "blocks_hold Z (written_blocks Z buf) buf"
proof -
  let ?blks = "compress_blocks Z DEFAULT_BUF_LZ4_BLOCK buf"
  have bs: "0 < DEFAULT_BUF_LZ4_BLOCK" by (simp add: DEFAULT_BUF_LZ4_BLOCK_def)
  note nth = compress_blocks_nth [OF bs, of Z buf]
  have "decompress_block Z (written_blocks Z buf) b =
      Some (Inr (take DEFAULT_BUF_LZ4_BLOCK (drop (b * DEFAULT_BUF_LZ4_BLOCK) buf)))"
    if "b * DEFAULT_BUF_LZ4_BLOCK < length buf" for b
  proof -
    have b: "b < length ?blks" using that block_index [OF bs] nth by simp
    show ?thesis
      using b nth block_slice(4) [OF payload_bound(1) [OF assms] b]
      by (simp add: decompress_block_def written_blocks_def Let_def lz_n_blocks_def decompress_compress)
  qed
  then show ?thesis using bs by (simp add: blocks_hold_def written_blocks_def Let_def)
qed

end

lemma tier_index_of_buf [simp]: "tier_index_of (t\<lparr>fc_buf := b\<rparr>) n = tier_index_of t n"
  by (simp add: tier_index_of_def)

lemma tier_index_of_len [simp]: "tier_index_of t n\<lparr>ix_buf_len := m\<rparr> = tier_index_of t m"
  by (simp add: tier_index_of_def)

lemma those_table:
  assumes "length pre = pos" "length xs = n"
  shows "those (map (\<lambda>k. u64_at (pre @ concat (map u64_to_le_bytes xs) @ post) (pos + k * 8)) [0..<n]) = Some xs"
  using those_map_nth [of xs "\<lambda>k. u64_at (pre @ concat (map u64_to_le_bytes xs) @ post) (pos + k * 8)"]
    u64_at_table [OF assms(1)] assms(2) by simp

lemma length_MAGIC: "length MAGIC = 16"
  by (simp add: MAGIC_def ascii_def)

context lz4_laws
begin

lemma load_compressed:
  assumes c: "compress_dict Z K snap DEFAULT_BUF_LZ4_BLOCK = Inr c" and Z: "env_lz4 E = Z"
    and small: "length (fc_buf (ds_compacted snap)) < 2 ^ 32"
    and serde: "\<And>x bs. dc_serialize K x = Inr bs \<Longrightarrow> dc_deserialize K bs = Inr x \<and> length bs < 2 ^ 64"
  shows "is_lz4_container c" and "load_dictionary_from_container E K c =
    from_block_cached E (tier_index_of (ds_compacted snap) (length (fc_buf (ds_compacted snap))))
      (written_blocks Z (fc_buf (ds_compacted snap))) (fst (from_full_snapshot snap))"
proof -
  let ?buf = "fc_buf (ds_compacted snap)" and ?x = "fst (from_full_snapshot snap)"
  let ?blks = "compress_blocks Z DEFAULT_BUF_LZ4_BLOCK ?buf"
  define n where "n = (if ?buf = [] then 0 else div_ceil (length ?buf) DEFAULT_BUF_LZ4_BLOCK)"
  have bs: "0 < DEFAULT_BUF_LZ4_BLOCK" "DEFAULT_BUF_LZ4_BLOCK < 2 ^ 32" by (simp_all add: DEFAULT_BUF_LZ4_BLOCK_def)
  have nb: "n = length ?blks" using compress_blocks_nth [OF bs(1), of Z ?buf] by (auto simp: n_def div_ceil_def)
  then have n32: "n < 2 ^ 32" using payload_bound(2) [OF small] by simp
  obtain ib where ib: "dc_serialize K ?x = Inr ib" "dc_deserialize K ib = Inr ?x" "length ib < 2 ^ 64"
    and c': "c = MAGIC @ u32_to_le_bytes VERSION @ u32_to_le_bytes (of_nat DEFAULT_BUF_LZ4_BLOCK) @
      u64_to_le_bytes (of_nat (length ?buf)) @ u32_to_le_bytes (of_nat n) @ u32_to_le_bytes 0 @
      u64_to_le_bytes (of_nat (length ib)) @ ib @ concat (map u64_to_le_bytes (rel_offsets ?blks)) @ concat ?blks"
    using c bs(1) serde unfolding compress_dict_def n_def
    by (auto simp: from_full_snapshot_def Let_def and_then_Inr_iff)
  have len: "length ?buf < 2 ^ 64" using small by simp
  have fields: "u32_at c 16 = Some VERSION" "u32_at c 20 = Some (of_nat DEFAULT_BUF_LZ4_BLOCK)"
    "u64_at c 24 = Some (of_nat (length ?buf))" "u32_at c 32 = Some (of_nat n)" "u64_at c 40 = Some (of_nat (length ib))"
    using u32_at_middle [of MAGIC 16 VERSION] u32_at_middle [of "MAGIC @ u32_to_le_bytes VERSION" 20 "of_nat DEFAULT_BUF_LZ4_BLOCK"]
      u64_at_middle [of "MAGIC @ u32_to_le_bytes VERSION @ u32_to_le_bytes (of_nat DEFAULT_BUF_LZ4_BLOCK)" 24 "of_nat (length ?buf)"]
      u32_at_middle [of "MAGIC @ u32_to_le_bytes VERSION @ u32_to_le_bytes (of_nat DEFAULT_BUF_LZ4_BLOCK) @
        u64_to_le_bytes (of_nat (length ?buf))" 32 "of_nat n"]
      u64_at_middle [of "MAGIC @ u32_to_le_bytes VERSION @ u32_to_le_bytes (of_nat DEFAULT_BUF_LZ4_BLOCK) @
        u64_to_le_bytes (of_nat (length ?buf)) @ u32_to_le_bytes (of_nat n) @ u32_to_le_bytes 0" 40 "of_nat (length ib)"]
    by (simp_all add: c' length_MAGIC)
  define pre where "pre = MAGIC @ u32_to_le_bytes VERSION @ u32_to_le_bytes (of_nat DEFAULT_BUF_LZ4_BLOCK) @
      u64_to_le_bytes (of_nat (length ?buf)) @ u32_to_le_bytes (of_nat n) @ u32_to_le_bytes 0 @ u64_to_le_bytes (of_nat (length ib))"
  have pre: "length pre = 48" by (simp add: pre_def length_MAGIC)
  have c'': "c = pre @ ib @ concat (map u64_to_le_bytes (rel_offsets ?blks)) @ concat ?blks" by (simp add: c' pre_def)
  have table: "length (concat (map u64_to_le_bytes (rel_offsets ?blks))) = (n + 1) * 8"
    by (simp add: length_concat comp_def sum_list_triv nb)
  have index: "slice_of c 48 (48 + length ib) = Some ib" unfolding c'' by (rule slice_of_middle [OF pre refl])
  have rels: "those (map (\<lambda>k. u64_at c (48 + length ib + k * 8)) [0..<Suc n]) = Some (rel_offsets ?blks)"
    using those_table [of "pre @ ib" "48 + length ib" "rel_offsets ?blks" "Suc n"] pre nb by (simp add: c'' del: upt_Suc)
  have payload: "drop (48 + length ib + (n + 1) * 8) c = concat ?blks"
    unfolding c'' using pre table by (simp add: algebra_simps)
  have lens: "48 \<le> length c" "48 + length ib \<le> length c" "48 + length ib + (n + 1) * 8 \<le> length c"
    unfolding c'' using pre table by simp_all
  show "is_lz4_container c" by (simp add: is_lz4_container_def c' length_MAGIC)
  moreover have "load_container E K c = from_block_cached E (tier_index_of (ds_compacted snap) (length ?buf)) (written_blocks Z ?buf) ?x"
    using fields ib(2,3) index rels payload lens copy_blocks_all [OF payload_bound(1) [OF small]] bs len n32 nb
    by (simp add: load_container_def HEADER_FIXED_LEN_def unat_of_nat_u64 unat_of_nat_u32 n_def from_parts_def
        into_tier_index_def from_full_snapshot_def Let_def written_blocks_def not_less del: upt_Suc)
  ultimately show "load_dictionary_from_container E K c =
      from_block_cached E (tier_index_of (ds_compacted snap) (length ?buf)) (written_blocks Z ?buf) ?x"
    using fields(1) lens by (simp add: load_dictionary_from_container_def HEADER_FIXED_LEN_def)
qed

end

section \<open>Restoring the graph tables\<close>

locale dict_codec_laws =
  fixes K :: "'v dict_codec"
  assumes serde: "dc_serialize K x = Inr bs \<Longrightarrow> dc_deserialize K bs = Inr x \<and> length bs < 2 ^ 64"
    and triple_order: "finite T \<Longrightarrow> set (dc_triple_order K T) = T \<and> distinct (dc_triple_order K T)"
    and graph_order: "finite G \<Longrightarrow> set (dc_graph_order K G) = G \<and> distinct (dc_graph_order K G)"

lemma push_graphs:
  "ds_graph_ids (fold push_graph gs snap) = ds_graph_ids snap @ map (as_u8 \<circ> fst) gs"
  "ds_graph_kinds (fold push_graph gs snap) = ds_graph_kinds snap @ map (graph_kind \<circ> snd) gs"
  "ds_graph_str_flat (fold push_graph gs snap) = ds_graph_str_flat snap @ concat (map (graph_str \<circ> snd) gs)"
  "ds_graph_str_offsets (fold push_graph gs snap) =
     ds_graph_str_offsets snap @ offsets (length (ds_graph_str_flat snap)) (map (graph_str \<circ> snd) gs)"
  "ds_next_graph_id (fold push_graph gs snap) = ds_next_graph_id snap"
  "ds_compacted (fold push_graph gs snap) = ds_compacted snap"
  "ds_triple_ids (fold push_graph gs snap) = ds_triple_ids snap" "ds_triple_s (fold push_graph gs snap) = ds_triple_s snap"
  "ds_triple_p (fold push_graph gs snap) = ds_triple_p snap" "ds_triple_o (fold push_graph gs snap) = ds_triple_o snap"
  by (induction gs arbitrary: snap) (auto simp: push_graph_def)

lemma fold_result_append:
  "fold_result f (xs @ ys) s =
     do {r \<leftarrow> fold_result f xs s; case r of Inl e \<Rightarrow> Some (Inl e) | Inr s \<Rightarrow> fold_result f ys s}"
  by (induction xs arbitrary: s) (auto split: bind_split sum.split)

lemma fold_result_nth:
  assumes "\<And>i d. i < length gs \<Longrightarrow> f i d = Some (Inr (g (gs ! i) d))"
  shows "fold_result f [0..<length gs] d = Some (Inr (fold g gs d))"
proof -
  have "fold_result f [k..<length gs] d = Some (Inr (fold g (drop k gs) d))" if "k \<le> length gs" for k d
    using that
  proof (induction "length gs - k" arbitrary: k d)
    case (Suc n)
    then have "k < length gs" by simp
    then show ?case
      using Suc.hyps(1) [of "Suc k" "g (gs ! k) d"] Suc.hyps(2) assms
      by (simp add: upt_conv_Cons Cons_nth_drop_Suc [symmetric])
  qed simp
  from this [of 0 d] show ?thesis by simp
qed

text \<open>The names of the graphs are text, and their offsets fit.\<close>

definition graphs_fit :: "'v dict_codec \<Rightarrow> ('l, 'v, 'c) dictionary \<Rightarrow> bool" where
  "graphs_fit K d \<longleftrightarrow> (\<forall>g \<in> ran (id_to_graph d). valid_utf8 (graph_str g)) \<and>
     length (concat (map (graph_str \<circ> snd) (all_graphs K d))) < 2 ^ 32"

definition put_graph :: "graph_id \<times> graph_name \<Rightarrow> ('l, 'v, 'c) dictionary \<Rightarrow> ('l, 'v, 'c) dictionary" where
  "put_graph e d = d\<lparr>graph_to_id := (graph_to_id d)(snd e \<mapsto> fst e), id_to_graph := (id_to_graph d)(as_u8 (fst e) \<mapsto> snd e)\<rparr>"

lemma restore_graph_nth:
  assumes x: "di_graph_ids x = map (as_u8 \<circ> fst) gs" "di_graph_kinds x = map (graph_kind \<circ> snd) gs"
      "di_graph_str_flat x = concat (map (graph_str \<circ> snd) gs)" "di_graph_str_offsets x = offsets 0 (map (graph_str \<circ> snd) gs)"
    and "length (concat (map (graph_str \<circ> snd) gs)) < 2 ^ 32" "i < length gs" "valid_utf8 (graph_str (snd (gs ! i)))"
  shows "restore_graph x i d = Some (Inr (put_graph (gs ! i) d))"
proof -
  let ?ws = "map (graph_str \<circ> snd) gs"
  obtain gid gname where g: "gs ! i = (gid, gname)" by fastforce
  have "i < length ?ws" using assms(6) by simp
  from flat_slot [OF this assms(5)] obtain k where k: "nth_opt (offsets 0 ?ws) i = Some (of_nat k)" "unat (of_nat k :: u32) = k"
    "(case nth_opt (offsets 0 ?ws) (i + 1) of Some x \<Rightarrow> unat x | None \<Rightarrow> length (concat ?ws)) = k + length (?ws ! i)"
    "has_at (concat ?ws) k (?ws ! i)" by auto
  then have slice: "slice_of (concat ?ws) k (k + length (?ws ! i)) = Some (graph_str gname)"
    using assms(6) g by (simp add: has_at_def slice_of_def)
  have ops: "GraphId (as_u8 gid) = gid" by (cases gid) simp
  show ?thesis
    using k slice assms(6,7) g ops
    by (cases gname) (simp_all add: restore_graph_def x put_graph_def graph_kind_def graph_str_def Let_def cong: option.case_cong)
qed

lemma fold_put_graph: "fold put_graph gs d = restore_graphs (map (\<lambda>(g, n). (as_u8 g, n)) gs) d"
proof (induction gs arbitrary: d)
  case (Cons e gs)
  obtain g n where "e = (g, n)" by (cases e)
  moreover have "GraphId (as_u8 g) = g" by (cases g) simp
  ultimately show ?case using Cons by (simp add: restore_graphs_def put_graph_def)
qed (simp add: restore_graphs_def)

context dict_codec_laws
begin

lemma all_graphs_pairs:
  shows "distinct (map fst (map (\<lambda>(g, n). (as_u8 g, n)) (all_graphs K d)))"
    and "map_of (map (\<lambda>(g, n). (as_u8 g, n)) (all_graphs K d)) = id_to_graph d"
    and "snd ` set (all_graphs K d) \<subseteq> ran (id_to_graph d)"
proof -
  let ?o = "dc_graph_order K (dom (id_to_graph d))"
  have o: "set ?o = dom (id_to_graph d)" "distinct ?o" using graph_order [of "dom (id_to_graph d)"] by simp_all
  have "List.map_filter (\<lambda>raw. map_option (Pair (GraphId raw)) (id_to_graph d raw)) raws =
      map (\<lambda>raw. (GraphId raw, the (id_to_graph d raw))) raws" if "set raws \<subseteq> dom (id_to_graph d)" for raws
    using that by (induction raws) (auto simp: List.map_filter_simps)
  then have gs: "all_graphs K d = map (\<lambda>raw. (GraphId raw, the (id_to_graph d raw))) ?o" using o(1) by (simp add: all_graphs_def)
  show "distinct (map fst (map (\<lambda>(g, n). (as_u8 g, n)) (all_graphs K d)))" using o(2) by (simp add: gs comp_def)
  show "snd ` set (all_graphs K d) \<subseteq> ran (id_to_graph d)" using o(1) by (auto simp: gs ran_def)
  have "map_of (map (\<lambda>raw. (raw, the (id_to_graph d raw))) raws) raw = (if raw \<in> set raws then Some (the (id_to_graph d raw)) else None)" for raws raw
    by (induction raws) auto
  then show "map_of (map (\<lambda>(g, n). (as_u8 g, n)) (all_graphs K d)) = id_to_graph d"
    using o(1) by (auto simp: gs comp_def fun_eq_iff domIff)
qed

end

section \<open>Restoring the quoted triples\<close>

text \<open>A dictionary right after compaction: only quoted triples are in memory, the rest is in a built tier.\<close>

definition just_compacted :: "('l, 'v, 'c) dict_env \<Rightarrow> 'l rdf_term list \<Rightarrow> ('l, 'v, 'c) dictionary \<Rightarrow> bool" where
  "just_compacted E ts d \<longleftrightarrow>
     (\<forall>k < length ts. id_to_term d ! k = (if is_triple (ts ! k) then Some (ts ! k) else None)) \<and>
     (\<exists>es t. entries_ok es (length ts) \<and> tier_build (env_bits E) es (length ts) = Some t \<and> compacted d = Owned t)"

definition trow :: "('l, 'v, 'c) dictionary \<Rightarrow> term_id \<Rightarrow> u64 \<times> u64 \<times> u64 \<times> u64" where
  "trow d i = (case triple_terms d i of Some (s, p, ob) \<Rightarrow> (as_u64 i, as_u64 s, as_u64 p, as_u64 ob))"

definition triple_ids :: "'l rdf_term list \<Rightarrow> nat \<Rightarrow> nat list" where
  "triple_ids ts m = filter (\<lambda>k. is_triple (ts ! k)) [0..<m]"

lemma triple_ids_Suc: "triple_ids ts (Suc m) = triple_ids ts m @ (if is_triple (ts ! m) then [m] else [])"
  by (simp add: triple_ids_def)

lemma tid_of_unat: "k \<le> 2 ^ 40 \<Longrightarrow> unat (as_u64 i) = k \<longleftrightarrow> i = tid k"
  using tid_unat [of i] unat_tid [of k] by auto

context dict_context
begin

lemma triple_dom:
  assumes "dict_rep E contents ts d"
  shows "dom (triple_terms d) = tid ` set (triple_ids ts (length ts))"
proof -
  have "\<exists>k < length ts. i = tid k" if "triple_terms d i = Some c" for i c
    using assms that unfolding dict_rep_def triples_ok_def holds_at_def by blast
  then have "triple_terms d i \<noteq> None \<longleftrightarrow> (\<exists>k < length ts. is_triple (ts ! k) \<and> i = tid k)" for i
    using rep_triple_terms [OF assms] by (metis not_None_eq)
  then show ?thesis by (auto simp: triple_ids_def dom_def)
qed

lemma triple_rows_eq:
  assumes rep: "dict_rep E contents ts d" and K: "dict_codec_laws K"
  shows "triple_rows K d = map (trow d \<circ> tid) (triple_ids ts (length ts))"
proof -
  let ?o = "dc_triple_order K (dom (triple_terms d))" and ?ks = "triple_ids ts (length ts)"
  have small: "length ts \<le> 2 ^ 40" by (rule rep_length [OF rep])
  have inj: "inj_on tid (set ?ks)" using small tid_inj by (auto simp: inj_on_def triple_ids_def)
  have o: "set ?o = dom (triple_terms d)" "distinct ?o"
    using dict_codec_laws.triple_order [OF K, of "dom (triple_terms d)"] triple_dom [OF rep] by simp_all
  have "List.map_filter (\<lambda>i. map_option (\<lambda>(s, p, ob). (as_u64 i, as_u64 s, as_u64 p, as_u64 ob)) (triple_terms d i)) is =
      map (trow d) is" if "set is \<subseteq> dom (triple_terms d)" for "is"
    using that by (induction "is") (auto simp: List.map_filter_simps trow_def)
  then have rows: "triple_rows K d = sort_key fst (map (trow d) ?o)" using o(1) by (simp add: triple_rows_def)
  have "distinct (map tid ?ks)" using inj by (simp add: distinct_map triple_ids_def)
  then have "mset ?o = mset (map tid ?ks)" using o triple_dom [OF rep] set_eq_iff_mset_eq_distinct [of ?o "map tid ?ks"] by simp
  then have m: "mset (map (trow d) ?o) = mset (map (trow d \<circ> tid) ?ks)" by (metis map_map mset_map)
  have fst: "fst (trow d i) = as_u64 i" if "i \<in> dom (triple_terms d)" for i using that by (auto simp: trow_def)
  have "inj_on fst (set (map (trow d) ?o))"
    using o(1) fst by (auto simp: inj_on_def) (metis term_id.expand)
  moreover have "sorted (map fst (map (trow d \<circ> tid) ?ks))"
  proof -
    have "map fst (map (trow d \<circ> tid) ?ks) = map (\<lambda>k. as_u64 (tid k)) ?ks"
      using fst triple_dom [OF rep] by auto
    moreover have "as_u64 (tid j) \<le> as_u64 (tid k)" if "j \<in> set ?ks" "k \<in> set ?ks" "j \<le> k" for j k
      using that small by (auto simp: triple_ids_def word_le_nat_alt unat_tid)
    moreover have "sorted ?ks" by (simp add: triple_ids_def sorted_wrt_filter)
    ultimately show ?thesis by (simp add: sorted_map) (metis (no_types, lifting) sorted_wrt_mono_rel)
  qed
  ultimately show ?thesis unfolding rows by (rule sort_key_inj_key_eq [OF m])
qed

end

text \<open>The dictionary after the quoted triples below an identifier have been restored.\<close>

definition restored ::
  "('l, 'v, 'c) dict_env \<Rightarrow> 'v tier_handle \<Rightarrow> ('l, 'v, 'c) dictionary \<Rightarrow> nat \<Rightarrow> ('l, 'v, 'c) dictionary" where
  "restored E h d m =
     \<lparr>id_to_term = map (\<lambda>k. if k < m then id_to_term d ! k else None) [0..<length (id_to_term d)],
      term_to_id = (\<lambda>x. Option.bind (term_to_id d x) (\<lambda>i. if unat (as_u64 i) < m then Some i else None)),
      compacted = h, decode_cache = lru_new (env_lru E) DECODE_CACHE_CAPACITY, graph_to_id = Map.empty,
      id_to_graph = Map.empty, next_graph_id = next_graph_id d,
      triple_terms = (\<lambda>i. if unat (as_u64 i) < m then triple_terms d i else None),
      triple_index = (\<lambda>c. Option.bind (triple_index d c) (\<lambda>i. if unat (as_u64 i) < m then Some i else None))\<rparr>"

context dict_context
begin

lemma restored_0:
  "restored E h d 0 = \<lparr>id_to_term = replicate (length (id_to_term d)) None, term_to_id = Map.empty, compacted = h,
     decode_cache = lru_new (env_lru E) DECODE_CACHE_CAPACITY, graph_to_id = Map.empty, id_to_graph = Map.empty,
     next_graph_id = next_graph_id d, triple_terms = Map.empty, triple_index = Map.empty\<rparr>"
  by (auto simp: restored_def fun_eq_iff map_replicate_const split: bind_split)

lemma rep_index: "dict_rep E contents ts d \<Longrightarrow> triple_index d c = Some i \<longleftrightarrow> triple_terms d i = Some c"
  unfolding dict_rep_def triples_ok_def by blast

lemma rep_triple_at: "dict_rep E contents ts d \<Longrightarrow> holds_at ts x i \<Longrightarrow> triple_at ts x c \<Longrightarrow> triple_terms d i = Some c"
  unfolding dict_rep_def triples_ok_def by blast

lemma rep_ids_small:
  assumes "dict_rep E contents ts d"
  shows "term_to_id d x = Some i \<Longrightarrow> unat (as_u64 i) < length ts" "triple_terms d i = Some c \<Longrightarrow> unat (as_u64 i) < length ts"
    and "triple_index d c = Some i \<Longrightarrow> unat (as_u64 i) < length ts"
proof -
  note small = rep_length [OF assms]
  have at: "unat (as_u64 i) < length ts" if h: "holds_at us y i" "length us = length ts" for us :: "'z list" and y i
  proof -
    obtain k where "k < length ts" "i = tid k" using h by (auto simp: holds_at_def)
    then show ?thesis using small unat_tid [of k] by simp
  qed
  show "term_to_id d x = Some i \<Longrightarrow> unat (as_u64 i) < length ts" using assms at unfolding dict_rep_def by metis
  show t: "triple_terms d i = Some c \<Longrightarrow> unat (as_u64 i) < length ts" for i c
    using assms at unfolding dict_rep_def triples_ok_def by metis
  show "triple_index d c = Some i \<Longrightarrow> unat (as_u64 i) < length ts"
    using assms t unfolding dict_rep_def triples_ok_def by metis
qed

lemma restored_all:
  assumes rep: "dict_rep E contents ts d"
  shows "restored E h d (length ts) = d\<lparr>compacted := h, decode_cache := lru_new (env_lru E) DECODE_CACHE_CAPACITY,
    graph_to_id := Map.empty, id_to_graph := Map.empty\<rparr>"
proof -
  have "map (\<lambda>k. if k < length ts then id_to_term d ! k else None) [0..<length (id_to_term d)] = id_to_term d"
  proof -
    have "length (id_to_term d) = length ts" using rep by (simp add: dict_rep_def)
    then show ?thesis by (intro nth_equalityI) simp_all
  qed
  moreover have "(\<lambda>x. Option.bind (term_to_id d x) (\<lambda>i. if unat (as_u64 i) < length ts then Some i else None)) = term_to_id d"
    using rep_ids_small(1) [OF rep] by (auto simp: fun_eq_iff split: bind_split)
  moreover have "(\<lambda>i. if unat (as_u64 i) < length ts then triple_terms d i else None) = triple_terms d"
  proof
    show "(if unat (as_u64 i) < length ts then triple_terms d i else None) = triple_terms d i" for i
      using rep_ids_small(2) [OF rep, of i] by (cases "triple_terms d i") simp_all
  qed
  moreover have "(\<lambda>c. Option.bind (triple_index d c) (\<lambda>i. if unat (as_u64 i) < length ts then Some i else None)) = triple_index d"
    using rep_ids_small(3) [OF rep] by (auto simp: fun_eq_iff split: bind_split)
  ultimately show ?thesis by (simp add: restored_def)
qed

end

context dict_context
begin

lemma below_upd:
  assumes "\<And>y. m y = Some (tid k) \<longleftrightarrow> y = x" and lt: "\<And>i. unat (as_u64 i) < Suc k \<longleftrightarrow> unat (as_u64 i) < k \<or> i = tid k"
  shows "(\<lambda>y. Option.bind (m y) (\<lambda>i. if unat (as_u64 i) < Suc k then Some i else None)) =
    (\<lambda>y. Option.bind (m y) (\<lambda>i. if unat (as_u64 i) < k then Some i else None))(x \<mapsto> tid k)"
proof
  fix y
  show "Option.bind (m y) (\<lambda>i. if unat (as_u64 i) < Suc k then Some i else None) =
      ((\<lambda>y. Option.bind (m y) (\<lambda>i. if unat (as_u64 i) < k then Some i else None))(x \<mapsto> tid k)) y"
  proof (cases "y = x")
    case True
    then have "m y = Some (tid k)" using assms(1) by simp
    then show ?thesis using True by (simp add: lt)
  next
    case False
    then have "m y \<noteq> Some (tid k)" using assms(1) by simp
    then show ?thesis using False by (cases "m y") (auto simp: lt)
  qed
qed

text \<open>Nothing is restored at the identifier of another term.\<close>

lemma restored_skip:
  assumes rep: "dict_rep E contents ts d" and comp: "just_compacted E ts d" and k: "k < length ts" "\<not> is_triple (ts ! k)"
  shows "restored E h d (Suc k) = restored E h d k"
proof -
  have small: "k \<le> 2 ^ 40" using rep_length [OF rep] k(1) by linarith
  have slot: "id_to_term d ! k = None" using comp k by (simp add: just_compacted_def)
  have len: "length (id_to_term d) = length ts" using rep by (simp add: dict_rep_def)
  have no_term: "term_to_id d x \<noteq> Some (tid k)" for x
    using rep slot holds_at_tid [of "id_to_term d" k "Some x"] len rep_length [OF rep] k(1) by (simp add: dict_rep_def)
  have no_triple: "triple_terms d (tid k) = None" using rep_triple_terms [OF rep k(1)] k(2) by simp
  then have no_index: "triple_index d c \<noteq> Some (tid k)" for c by (simp add: rep_index [OF rep])
  have lt: "unat (as_u64 i) < Suc k \<longleftrightarrow> unat (as_u64 i) < k \<or> i = tid k" for i
    using tid_of_unat [OF small, of i] by (auto simp: less_Suc_eq)
  have "id_to_term (restored E h d (Suc k)) = id_to_term (restored E h d k)"
    using slot by (auto simp: restored_def less_Suc_eq)
  moreover have "term_to_id (restored E h d (Suc k)) = term_to_id (restored E h d k)"
    using no_term by (auto simp: restored_def fun_eq_iff lt split: bind_split)
  moreover have "triple_terms (restored E h d (Suc k)) = triple_terms (restored E h d k)"
    using no_triple by (auto simp: restored_def fun_eq_iff lt)
  moreover have "triple_index (restored E h d (Suc k)) = triple_index (restored E h d k)"
    using no_index by (auto simp: restored_def fun_eq_iff lt split: bind_split)
  ultimately show ?thesis by (simp add: restored_def)
qed

lemma decode_component_ok:
  assumes rep: "dict_rep E contents ts d" and comp: "just_compacted E ts d"
    and h: "tier_ok (env_lit E) (env_bits E) (env_lz4 E) ts (id_to_term d) h"
    and at: "holds_at (take k ts) x i" and k: "k \<le> length ts"
  shows "decode_component E (restored E h d k) (as_u64 i) = Some (Inr x) \<and> unat (as_u64 i) < k \<and>
    term_id_new (as_u64 i) = Inr i"
proof -
  obtain j where j: "j < k" "j < length ts" "i = tid j" "ts ! j = x" using at by (auto simp: holds_at_def)
  then have u: "unat (as_u64 i) = j" "j < 2 ^ 40" using rep_length [OF rep] by (simp_all add: unat_tid)
  have len: "length (id_to_term d) = length ts" using rep by (simp add: dict_rep_def)
  have slot: "nth_opt (id_to_term (restored E h d k)) j = Some (id_to_term d ! j)"
    using j len by (simp add: restored_def)
  have "decode_component E (restored E h d k) (as_u64 i) = Some (Inr x)"
  proof (cases "id_to_term d ! j")
    case None
    have "handle_decode_id (env_lit E) (env_bits E) (env_lz4 E) h j = Some (Some (Inr (ts ! j)))"
      by (rule tier_ok_decode(1) [OF h j(2) None])
    then show ?thesis using slot None u j by (simp add: decode_component_def restored_def)
  next
    case (Some y)
    then have "y = x" using rep_slot [OF rep j(2)] j(4) by auto
    then show ?thesis using slot Some u by (simp add: decode_component_def)
  qed
  moreover have "term_id_new (as_u64 i) = Inr i"
    using term_id_new_tid [of j] u j by (simp add: tid_def)
  ultimately show ?thesis using u j by simp
qed

lemma as_subject_term [simp]: "as_subject (subject_term s) = Inr s"
  by (cases s) auto

lemma restored_step:
  assumes rep: "dict_rep E contents ts d" and comp: "just_compacted E ts d"
    and h: "tier_ok (env_lit E) (env_bits E) (env_lz4 E) ts (id_to_term d) h"
    and k: "k < length ts" "is_triple (ts ! k)"
  shows "restore_triple E (trow d (tid k)) (restored E h d k) = Some (Inr (restored E h d (Suc k)))"
proof -
  have ok: "terms_ok (env_lit E) ts" and tr: "triples_ok ts d" using rep by (simp_all add: dict_rep_def)
  have small: "k < 2 ^ 40" "k \<le> 2 ^ 40" using rep_length [OF rep] k(1) by linarith+
  have len: "length (id_to_term d) = length ts" using rep by (simp add: dict_rep_def)
  obtain c where c: "triple_at (take k ts) (ts ! k) c" using ok k unfolding terms_ok_def by blast
  then have "triple_at ts (ts ! k) c"
    using holds_at_extends [of "take k ts" _ _ "drop k ts"] by (auto simp: triple_at_def)
  then have terms: "triple_terms d (tid k) = Some c"
    using tr holds_at_tid [OF rep_length [OF rep] k(1)] unfolding triples_ok_def by blast
  obtain s_id p_id o_id where cs: "c = (s_id, p_id, o_id)" by (cases c)
  obtain s p ob where x: "ts ! k = Triple s p ob" "holds_at (take k ts) (subject_term s) s_id"
      "holds_at (take k ts) (NamedNode p) p_id" "holds_at (take k ts) ob o_id"
    using c cs by (auto simp: triple_at_def)
  note dec = decode_component_ok [OF rep comp h _ less_imp_le [OF k(1)]]
  have slot: "id_to_term d ! k = Some (ts ! k)" using comp k by (simp add: just_compacted_def)
  have lt: "unat (as_u64 i) < Suc k \<longleftrightarrow> unat (as_u64 i) < k \<or> i = tid k" for i
    using tid_of_unat [OF small(2), of i] by (auto simp: less_Suc_eq)
  have notlt: "\<not> unat (as_u64 (tid k)) < k" using unat_tid [OF small(2)] by simp
  have known: "term_to_id d x = Some (tid k) \<longleftrightarrow> x = ts ! k" for x
    using rep slot holds_at_tid [of "id_to_term d" k "Some x"] len rep_length [OF rep] k(1) by (auto simp: dict_rep_def)
  have index: "triple_index d c' = Some (tid k) \<longleftrightarrow> c' = c" for c' using terms by (auto simp: rep_index [OF rep])
  have "id_to_term (restored E h d (Suc k)) = (id_to_term (restored E h d k))[k := Some (ts ! k)]"
    using slot len k by (auto simp: restored_def less_Suc_eq intro!: nth_equalityI)
  moreover have "term_to_id (restored E h d (Suc k)) = (term_to_id (restored E h d k))(ts ! k \<mapsto> tid k)"
    using below_upd [OF known lt] by (simp add: restored_def)
  moreover have "triple_terms (restored E h d (Suc k)) = (triple_terms (restored E h d k))(tid k \<mapsto> c)"
    using terms notlt by (auto simp: restored_def fun_eq_iff lt)
  moreover have "triple_index (restored E h d (Suc k)) = (triple_index (restored E h d k))(c \<mapsto> tid k)"
    using below_upd [OF index lt] by (simp add: restored_def)
  moreover have "term_id_new (as_u64 (tid k)) = Inr (tid k)" "unat (as_u64 (tid k)) = k"
    using term_id_new_tid [OF small(2)] small(1) unat_tid [OF small(2)] by (simp_all add: tid_def)
  moreover have "trow d (tid k) = (as_u64 (tid k), as_u64 s_id, as_u64 p_id, as_u64 o_id)" by (simp add: trow_def terms cs)
  moreover have "length (id_to_term (restored E h d k)) = length ts" using len by (simp add: restored_def)
  ultimately show ?thesis
    using dec [OF x(2)] dec [OF x(3)] dec [OF x(4)] k(1) x(1) cs
    by (simp add: restore_triple_def) (simp add: restored_def)
qed

lemma restore_all:
  assumes rep: "dict_rep E contents ts d" and comp: "just_compacted E ts d"
    and h: "tier_ok (env_lit E) (env_bits E) (env_lz4 E) ts (id_to_term d) h" and m: "m \<le> length ts"
  shows "fold_result (\<lambda>row d. do {row \<leftarrow> row; restore_triple E row d}) (map (Some \<circ> trow d \<circ> tid) (triple_ids ts m)) (restored E h d 0) =
    Some (Inr (restored E h d m))"
  using m
proof (induction m)
  case 0
  then show ?case by (simp add: triple_ids_def)
next
  case (Suc m)
  then show ?case
    using restored_step [OF rep comp h, of m] restored_skip [OF rep comp, of m h]
    by (simp add: triple_ids_Suc fold_result_append)
qed

end

section \<open>Writing and loading a dictionary\<close>

lemma snapshot_rows_map:
  assumes "di_triple_ids x = map (\<lambda>(i, s, p, ob). i) rows" "di_triple_s x = map (\<lambda>(i, s, p, ob). s) rows"
    "di_triple_p x = map (\<lambda>(i, s, p, ob). p) rows" "di_triple_o x = map (\<lambda>(i, s, p, ob). ob) rows"
  shows "snapshot_rows x = map Some rows"
proof (rule nth_equalityI)
  fix i assume "i < length (snapshot_rows x)"
  then have "i < length rows" using assms(1) by (simp add: snapshot_rows_def)
  then show "snapshot_rows x ! i = map Some rows ! i"
    using assms by (cases "rows ! i") (simp add: snapshot_rows_def)
qed (simp add: snapshot_rows_def assms(1))

lemma tier_build_high_water: "tier_build V es hw = Some t \<Longrightarrow> high_water t = hw"
  by (auto simp: tier_build_def Let_def split: bind_splits)

context dict_context
begin

lemma finish_from_parts_ok:
  assumes rep: "dict_rep E contents ts d" and comp: "just_compacted E ts d" and K: "dict_codec_laws K"
    and ok: "graphs_ok d" and fit: "graphs_fit K d" and snap: "to_snapshot K d = Some snap"
    and h: "tier_ok (env_lit E) (env_bits E) (env_lz4 E) ts (id_to_term d) h"
  shows "finish_from_parts E h (length ts) (fst (from_full_snapshot snap)) =
    Some (Inr (d\<lparr>compacted := h, decode_cache := lru_new (env_lru E) DECODE_CACHE_CAPACITY\<rparr>))"
proof -
  let ?x = "fst (from_full_snapshot snap)" and ?gs = "all_graphs K d"
  let ?d = "d\<lparr>compacted := h, decode_cache := lru_new (env_lru E) DECODE_CACHE_CAPACITY\<rparr>"
  obtain t where t: "compacted d = Owned t" using comp by (auto simp: just_compacted_def)
  have snap': "snap = fold push_graph ?gs \<lparr>ds_next_graph_id = next_graph_id d, ds_compacted = t,
      ds_triple_ids = map (\<lambda>(i, s, p, ob). i) (triple_rows K d), ds_triple_s = map (\<lambda>(i, s, p, ob). s) (triple_rows K d),
      ds_triple_p = map (\<lambda>(i, s, p, ob). p) (triple_rows K d), ds_triple_o = map (\<lambda>(i, s, p, ob). ob) (triple_rows K d),
      ds_graph_ids = [], ds_graph_kinds = [], ds_graph_str_flat = [], ds_graph_str_offsets = []\<rparr>"
    using snap t by (simp add: to_snapshot_def Let_def)
  have x: "di_next_graph_id ?x = next_graph_id d" "di_graph_ids ?x = map (as_u8 \<circ> fst) ?gs"
    "di_graph_kinds ?x = map (graph_kind \<circ> snd) ?gs" "di_graph_str_flat ?x = concat (map (graph_str \<circ> snd) ?gs)"
    "di_graph_str_offsets ?x = offsets 0 (map (graph_str \<circ> snd) ?gs)"
    by (simp_all add: from_full_snapshot_def Let_def snap' push_graphs)
  have "snapshot_rows ?x = map Some (triple_rows K d)"
    by (rule snapshot_rows_map) (simp_all add: from_full_snapshot_def Let_def snap' push_graphs)
  then have rows: "snapshot_rows ?x = map (Some \<circ> trow d \<circ> tid) (triple_ids ts (length ts))"
    using triple_rows_eq [OF rep K] by (simp add: comp_assoc)
  have len: "length (id_to_term d) = length ts" using rep by (simp add: dict_rep_def)
  have triples: "fold_result (\<lambda>row d. do {row \<leftarrow> row; restore_triple E row d}) (snapshot_rows ?x)
      \<lparr>id_to_term = replicate (length ts) None, term_to_id = Map.empty, compacted = h,
       decode_cache = lru_new (env_lru E) DECODE_CACHE_CAPACITY, graph_to_id = Map.empty,
       id_to_graph = Map.empty, next_graph_id = di_next_graph_id ?x, triple_terms = Map.empty,
       triple_index = Map.empty\<rparr> = Some (Inr (?d\<lparr>graph_to_id := Map.empty, id_to_graph := Map.empty\<rparr>))"
    using restore_all [OF rep comp h order_refl] unfolding rows restored_0 restored_all [OF rep] x(1) len by simp
  have "valid_utf8 (graph_str (snd (?gs ! i)))" if "i < length ?gs" for i
    using dict_codec_laws.all_graphs_pairs(3) [OF K, of d] nth_mem [OF that] fit by (auto simp: graphs_fit_def)
  then have "restore_graph ?x i e = Some (Inr (put_graph (?gs ! i) e))" if "i < length ?gs" for i and e :: "('l, 'v, 'c) dictionary"
    using restore_graph_nth [OF x(2-5) _ that] fit that by (simp add: graphs_fit_def)
  from fold_result_nth [of ?gs "restore_graph ?x" put_graph, OF this]
  have graphs: "fold_result (restore_graph ?x) [0..<length (di_graph_ids ?x)] e =
      Some (Inr (restore_graphs (map (\<lambda>(g, n). (as_u8 g, n)) ?gs) e))" for e :: "('l, 'v, 'c) dictionary"
    by (simp add: x(2) fold_put_graph)
  note tables = restored_graphs [OF ok dict_codec_laws.all_graphs_pairs(1,2) [OF K]]
  have "graph_to_id d DefaultGraph = Some GRAPH_DEFAULT" "id_to_graph d 0 = Some DefaultGraph"
    using ok by (auto simp: graphs_ok_def GRAPH_DEFAULT_def)
  then have "or_insert (graph_to_id d) DefaultGraph GRAPH_DEFAULT = graph_to_id d"
    "or_insert (id_to_graph d) 0 DefaultGraph = id_to_graph d" by (simp_all add: or_insert_def)
  then show ?thesis
    using triples graphs tables [of "?d\<lparr>graph_to_id := Map.empty, id_to_graph := Map.empty\<rparr>"]
    by (simp add: finish_from_parts_def restore_graphs_tables)
qed

lemma tier_ok_cached:
  assumes comp: "just_compacted E ts d" and rep: "dict_rep E contents ts d" and Z: "lz4_laws (env_lz4 E)"
    and t: "compacted d = Owned t"
  shows "length (fc_buf t) < 2 ^ 32" and "high_water t = length ts"
    and "tier_ok (env_lit E) (env_bits E) (env_lz4 E) ts (id_to_term d)
      (BlockCached (tier_index_of t (length (fc_buf t))) (written_blocks (env_lz4 E) (fc_buf t)))"
proof -
  obtain es where es: "entries_ok es (length ts)" "tier_build (env_bits E) es (length ts) = Some t"
    using comp t by (auto simp: just_compacted_def)
  show len: "length (fc_buf t) < 2 ^ 32" using es tier_build_bufs [OF es(2)] by (simp add: entries_ok_def)
  show "high_water t = length ts" by (rule tier_build_high_water [OF es(2)])
  have "compressed_tier (env_lz4 E) (written_blocks (env_lz4 E) (fc_buf t)) (env_bits E) t es (length ts)"
    by unfold_locales (use es lz4_laws.written_blocks_hold [OF Z len] in simp_all)
  note same = compressed_tier.handle_owned [OF this]
  have "tier_ok (env_lit E) (env_bits E) (env_lz4 E) ts (id_to_term d) (Owned t)" using rep t by (simp add: dict_rep_def)
  then show "tier_ok (env_lit E) (env_bits E) (env_lz4 E) ts (id_to_term d)
      (BlockCached (tier_index_of t (length (fc_buf t))) (written_blocks (env_lz4 E) (fc_buf t)))"
    unfolding tier_ok_def same .
qed

lemma write_and_load_ok:
  assumes rep: "dict_rep E contents ts d" and comp: "just_compacted E ts d" and K: "dict_codec_laws K"
    and Z: "lz4_laws (env_lz4 E)" and ok: "graphs_ok d" and fit: "graphs_fit K d" and snap: "to_snapshot K d = Some snap"
    and ser: "dc_serialize K (fst (from_full_snapshot snap)) = Inr ib"
  shows "\<exists>c d'. write_and_load_mmap E K d path dir = Some (dir(path \<mapsto> c, tmp_sibling path := None), Inr d') \<and>
    (\<forall>dir'. dir' path = Some c \<longrightarrow> load_mmap_from_file E K path dir' = Some (Inr d')) \<and>
    dict_rep E contents ts d' \<and> graph_tables d' = graph_tables d"
proof -
  obtain t where t: "compacted d = Owned t" using comp by (auto simp: just_compacted_def)
  let ?ix = "tier_index_of t (length (fc_buf t))" and ?lz = "written_blocks (env_lz4 E) (fc_buf t)"
  let ?d = "d\<lparr>compacted := BlockCached ?ix ?lz, decode_cache := lru_new (env_lru E) DECODE_CACHE_CAPACITY\<rparr>"
  note tier = tier_ok_cached [OF comp rep Z t]
  have st: "ds_compacted snap = t" using snap t by (auto simp: to_snapshot_def Let_def push_graphs)
  have "\<exists>c. compress_dict (env_lz4 E) K snap DEFAULT_BUF_LZ4_BLOCK = Inr c"
    using ser by (simp add: compress_dict_def DEFAULT_BUF_LZ4_BLOCK_def from_full_snapshot_def Let_def)
  then obtain c where c: "compress_dict (env_lz4 E) K snap DEFAULT_BUF_LZ4_BLOCK = Inr c" by blast
  note load = lz4_laws.load_compressed [OF Z c refl, unfolded st, OF tier(1) dict_codec_laws.serde [OF K]]
  have "from_block_cached E ?ix ?lz (fst (from_full_snapshot snap)) = Some (Inr ?d)"
    using finish_from_parts_ok [OF rep comp K ok fit snap tier(3)] tier(2) by (simp add: from_block_cached_def)
  then have loaded: "load_mmap_from_file E K path dir' = Some (Inr ?d)" if "dir' path = Some c" for dir'
    using that load by (simp add: load_mmap_from_file_def path_is_lz4_container_def is_lz4_container_def length_MAGIC)
  have dir: "rename_file (tmp_sibling path) path (write_file (tmp_sibling path) c dir) = dir(path \<mapsto> c, tmp_sibling path := None)"
    by (auto simp: rename_file_def write_file_def tmp_sibling_def fun_eq_iff)
  then have "write_and_load_mmap E K d path dir = Some (dir(path \<mapsto> c, tmp_sibling path := None), Inr ?d)"
    using snap c loaded by (simp add: write_and_load_mmap_def Let_def tmp_sibling_def ascii_def)
  moreover have "dict_rep E contents ts ?d"
    using rep tier(3) lru_cache.contents_new [OF lru] by (simp add: dict_rep_def triples_ok_def)
  ultimately show ?thesis using loaded by (intro exI [of _ c] exI [of _ ?d]) (simp add: graph_tables_def)
qed

end

text \<open>What compaction leaves.\<close>

context dict_context
begin

lemma compact_just:
  assumes rep: "dict_rep E contents ts d0" and fit: "entries_fit (compact_entries (env_lit E) ts)"
    and straddle: "no_straddling (compact_entries (env_lit E) ts)" and d: "dict_compact E d0 = Some (d, Inr ())"
  shows "dict_rep E contents ts d" and "just_compacted E ts d"
proof -
  show "dict_rep E contents ts d" using compact_correct [OF rep fit straddle] d by auto
  have "terms_ok (env_lit E) ts" using rep by (simp add: dict_rep_def)
  from compact_entries_ok(1) [OF this fit] show "just_compacted E ts d"
    using compact_steps [OF rep fit] d by (auto simp: just_compacted_def)
qed

end

section \<open>A serialiser\<close>

text \<open>An index snapshot as lists of numbers, in unary.\<close>

definition enc_lists :: "nat list list \<Rightarrow> bytes" where
  "enc_lists ls = concat (map (\<lambda>l. concat (map (\<lambda>n. replicate n 1 @ [0]) l) @ [2]) ls)"

fun dec_lists :: "nat \<Rightarrow> nat list \<Rightarrow> bytes \<Rightarrow> nat list list" where
  "dec_lists n acc [] = []"
| "dec_lists n acc (b # bs) =
     (if b = 1 then dec_lists (Suc n) acc bs else if b = 0 then dec_lists 0 (acc @ [n]) bs else acc # dec_lists 0 [] bs)"

lemma dec_lists_enc: "dec_lists 0 [] (enc_lists ls) = ls"
proof (induction ls)
  case (Cons l ls)
  have nat: "dec_lists m acc (replicate n 1 @ 0 # bs) = dec_lists 0 (acc @ [m + n]) bs" for m n acc bs
    by (induction n arbitrary: m) simp_all
  have "dec_lists 0 acc (concat (map (\<lambda>n. replicate n 1 @ [0]) l) @ bs) = dec_lists 0 (acc @ l) bs" for acc bs
    by (induction l arbitrary: acc) (simp_all add: nat)
  then show ?case using Cons by (simp add: enc_lists_def)
qed (simp add: enc_lists_def)

definition index_lists :: "(nat \<times> nat list) dict_index_snapshot \<Rightarrow> nat list list" where
  "index_lists x =
     (let t = di_compacted x in
      [[unat (di_next_graph_id x), block_size t, high_water t, encoded_count t, unat (di_buf_len x),
        rank2id_bit_width t, id2rank_bit_width t, fst (rank2id t), fst (id2rank t)],
       map unat (fc_buf t), map unat (block_starts t), map unat (block_tags t), map unat (key_flat t),
       map unat (key_offsets t), snd (rank2id t), snd (id2rank t), map unat (di_triple_ids x), map unat (di_triple_s x),
       map unat (di_triple_p x), map unat (di_triple_o x), map unat (di_graph_ids x), map unat (di_graph_kinds x),
       map unat (di_graph_str_flat x), map unat (di_graph_str_offsets x)])"

fun index_of_lists :: "nat list list \<Rightarrow> (nat \<times> nat list) dict_index_snapshot option" where
  "index_of_lists [[ng, bs, hw, ec, len, rw, iw, r2, i2], buf, starts, tags, flat, offs, r2i, i2r, ti, ts, tp, to, gi, gk, gf, go] =
     Some \<lparr>di_next_graph_id = of_nat ng,
       di_compacted = \<lparr>block_size = bs, high_water = hw, encoded_count = ec, fc_buf = map of_nat buf,
         block_starts = map of_nat starts, block_tags = map of_nat tags, key_flat = map of_nat flat,
         key_offsets = map of_nat offs, rank2id = (r2, r2i), id2rank = (i2, i2r), rank2id_bit_width = rw,
         id2rank_bit_width = iw\<rparr>,
       di_buf_len = of_nat len, di_triple_ids = map of_nat ti, di_triple_s = map of_nat ts, di_triple_p = map of_nat tp,
       di_triple_o = map of_nat to, di_graph_ids = map of_nat gi, di_graph_kinds = map of_nat gk,
       di_graph_str_flat = map of_nat gf, di_graph_str_offsets = map of_nat go\<rparr>"
| "index_of_lists _ = None"

lemma index_of_lists: "index_of_lists (index_lists x) = Some x"
  by (simp add: index_lists_def Let_def comp_def)

definition list_codec :: "(nat \<times> nat list) dict_codec" where
  "list_codec =
     \<lparr>dc_serialize = (\<lambda>x. let bs = enc_lists (index_lists x) in
        if length bs < 2 ^ 64 then Inr bs else Inl (Storage ''dict index serialize failed'')),
      dc_deserialize = (\<lambda>bs. case index_of_lists (dec_lists 0 [] bs) of
        Some x \<Rightarrow> Inr x | None \<Rightarrow> Inl (Storage ''dict index deserialize failed'')),
      dc_triple_order = (\<lambda>T. map TermId (sorted_list_of_set (as_u64 ` T))),
      dc_graph_order = sorted_list_of_set\<rparr>"

interpretation list_codec: dict_codec_laws list_codec
proof
  show "dc_deserialize list_codec bs = Inr x \<and> length bs < 2 ^ 64" if "dc_serialize list_codec x = Inr bs" for x bs
    using that by (auto simp: list_codec_def Let_def dec_lists_enc index_of_lists split: if_splits)
  show "set (dc_triple_order list_codec T) = T \<and> distinct (dc_triple_order list_codec T)" if "finite T" for T
    using that by (auto simp: list_codec_def image_image distinct_map inj_on_def)
  show "set (dc_graph_order list_codec G) = G \<and> distinct (dc_graph_order list_codec G)" if "finite G" for G
    using that by (simp add: list_codec_def)
qed

section \<open>Sequences of reads\<close>

datatype 'l tier_call = GetId "'l rdf_term" | DecodeId nat | DecodeBlockForId nat

datatype 'l tier_answer =
    IdAnswer "nat option"
  | TermAnswer "'l rdf_term result option"
  | BlockAnswer "(nat \<times> 'l rdf_term result) list option"

fun cached_call ::
  "'l literal_api \<Rightarrow> 'v bit_fields \<Rightarrow> 's reader \<Rightarrow> 'v tier_index \<Rightarrow> lz4_buf_blocks \<Rightarrow> 'l tier_call \<Rightarrow> 's \<Rightarrow> ('s \<times> 'l tier_answer) option" where
  "cached_call api V rd ix lz (GetId x) s = map_option (map_prod id IdAnswer) (cached_get_id api V rd ix lz x s)"
| "cached_call api V rd ix lz (DecodeId i) s = map_option (map_prod id TermAnswer) (cached_decode_id api V rd ix lz i s)"
| "cached_call api V rd ix lz (DecodeBlockForId i) s =
     map_option (map_prod id BlockAnswer) (cached_decode_block_for_id api V rd ix lz i s)"

fun owned_call :: "'l literal_api \<Rightarrow> 'v bit_fields \<Rightarrow> 'v compacted_tier \<Rightarrow> 'l tier_call \<Rightarrow> 'l tier_answer option" where
  "owned_call api V t (GetId x) = map_option IdAnswer (tier_get_id api V t x)"
| "owned_call api V t (DecodeId i) = map_option TermAnswer (tier_decode_id api V t i)"
| "owned_call api V t (DecodeBlockForId i) = map_option BlockAnswer (decode_block_for_id api V t i)"

fun cached_run ::
  "'l literal_api \<Rightarrow> 'v bit_fields \<Rightarrow> 's reader \<Rightarrow> 'v tier_index \<Rightarrow> lz4_buf_blocks \<Rightarrow> 'l tier_call list \<Rightarrow> 's \<Rightarrow>
   ('s \<times> 'l tier_answer list) option" where
  "cached_run api V rd ix lz [] s = Some (s, [])"
| "cached_run api V rd ix lz (call # calls) s =
     do {(s, a) \<leftarrow> cached_call api V rd ix lz call s;
         (s, rest) \<leftarrow> cached_run api V rd ix lz calls s;
         Some (s, a # rest)}"

lemma agrees_map_prod: "agrees ok x y \<Longrightarrow> agrees ok (map_option (map_prod id f) x) (map_option (map_prod id f) y)"
  by (cases y) (auto simp: agrees_def)

lemma agrees_snd: "agrees ok x y \<Longrightarrow> map_option snd x = map_option snd y"
  by (cases y) (auto simp: agrees_def)

context block_reader
begin

lemma call_agrees:
  "ok s \<Longrightarrow> agrees ok (cached_call api V rd ix lz call s) (cached_call api V (direct_reader direct) ix lz call ())"
  by (cases call) (simp_all add: agrees_map_prod get_id_agrees decode_id_agrees decode_block_agrees)

lemma run_agrees:
  "ok s \<Longrightarrow> agrees ok (cached_run api V rd ix lz calls s) (cached_run api V (direct_reader direct) ix lz calls ())"
proof (induction calls arbitrary: s)
  case (Cons call calls)
  show ?case
    unfolding cached_run.simps
    by (rule agrees_bind [OF call_agrees [OF Cons.prems]], unfold prod.case, rule agrees_bind [OF Cons.IH]) auto
qed auto

end

context compressed_tier
begin

lemma run_owned: "map_option snd (cached_run api V rd ix lz calls ()) = those (map (owned_call api V t) calls)"
proof (induction calls)
  case (Cons call calls)
  have "cached_call api V rd ix lz call () = map_option (Pair ()) (owned_call api V t call)"
    by (cases call) (simp_all add: get_id_owned decode_id_owned decode_block_owned option.map_comp comp_def)
  then show ?case
    using Cons [symmetric] by (cases "owned_call api V t call"; cases "cached_run api V rd ix lz calls ()") auto
qed simp

end

section \<open>An example\<close>

declare decode_entries.simps [code]

definition example_fc :: "(nat \<times> nat list) compacted_tier" where
  "example_fc =
     \<lparr>block_size = 8, high_water = 3, encoded_count = 2, fc_buf = [0, 1, 97, 0, 0, 0, 1, 98, 0, 0], block_starts = [0],
      block_tags = [0], key_flat = [97], key_offsets = [0], rank2id = (2, [0, 1]), id2rank = (1, [0, 1, 0]),
      rank2id_bit_width = 2, id2rank_bit_width = 1\<rparr>"

lemma example_tier: "tier_build list_bits [(0, [97], [], 0), (0, [98], [], 1)] 3 = Some example_fc"
  by code_simp

lemma example_terms_fit:
  "entries_fit (compact_entries (env_lit example_env) example_terms)"
  "no_straddling (compact_entries (env_lit example_env) example_terms)"
  by (auto simp: example_env_def example_entries entries_fit_def no_straddling_def BLOCK_SIZE_def)

lemma example_compacted:
  assumes rep: "dict_rep example_env list_contents example_terms d0" and tables: "graph_tables d0 = graph_tables (dict_new example_env)"
  obtains d snap ib where "dict_compact example_env d0 = Some (d, Inr ())" "to_snapshot list_codec d = Some snap"
    "dc_serialize list_codec (fst (from_full_snapshot snap)) = Inr ib"
proof -
  obtain d t where d: "dict_compact example_env d0 = Some (d, Inr ())"
    "tier_build (env_bits example_env) (compact_entries (env_lit example_env) example_terms) (length example_terms) = Some t"
    "compacted d = Owned t" "dict_rep example_env list_contents example_terms d"
    using example_dict.compact_steps [OF rep example_terms_fit(1)] example_dict.compact_correct [OF rep example_terms_fit] by auto
  have t: "t = example_fc"
  proof -
    have "length example_terms = 3" by (simp add: example_terms_def)
    then show ?thesis using d(2) example_tier by (simp add: example_env_def example_entries)
  qed
  have g: "graph_tables d = graph_tables (dict_new example_env)" using dict_compact_tables [OF d(1)] tables by simp
  then have "id_to_graph d = [0 \<mapsto> DefaultGraph]" "next_graph_id d = 1" by (simp_all add: graph_tables_def dict_new_def)
  then have gs: "all_graphs list_codec d = [(GraphId 0, DefaultGraph)]" "next_graph_id d = 1"
    by (simp_all add: all_graphs_def list_codec_def List.map_filter_simps)
  have "triple_ids example_terms (length example_terms) = [2]" by (simp add: triple_ids_def example_terms_def)
  then have "triple_rows list_codec d = [trow d (tid 2)]"
    using example_dict.triple_rows_eq [OF d(4) list_codec.dict_codec_laws_axioms] by simp
  moreover have "triple_terms d (tid 2) = Some (tid 0, tid 1, tid 0)"
  proof -
    have at: "holds_at example_terms (example_terms ! k) (tid k)" if "k < 3" for k
      unfolding holds_at_def using that by (intro exI [of _ k]) (simp add: example_terms_def)
    have "triple_at example_terms (example_terms ! 2) (tid 0, tid 1, tid 0)"
      using at [of 0] at [of 1] by (simp add: triple_at_def example_terms_def)
    with at [of 2] show ?thesis using example_dict.rep_triple_at [OF d(4)] by simp
  qed
  ultimately have rows: "triple_rows list_codec d = [(2, 0, 1, 0)]" by (simp add: trow_def tid_def)
  obtain snap where snap: "to_snapshot list_codec d = Some snap" using d(3) by (simp add: to_snapshot_def Let_def)
  then have "index_lists (fst (from_full_snapshot snap)) =
      [[1, 8, 3, 2, 10, 2, 1, 2, 1], [], [0], [0], [97], [0], [0, 1], [0, 1, 0], [2], [0], [1], [0], [0], [2], [], [0]]"
    using d(3) t gs rows
    by (auto simp: example_fc_def to_snapshot_def Let_def push_graph_def from_full_snapshot_def index_lists_def graph_kind_def graph_str_def)
  then have "length (enc_lists (index_lists (fst (from_full_snapshot snap)))) < 2 ^ 64" by (simp add: enc_lists_def)
  then show ?thesis using that [OF d(1) snap] by (simp add: list_codec_def Let_def)
qed

interpretation list_reader: block_reader "get_lz4_block Z list_lru lz" "decompress_block Z lz" "coherent Z lz list_contents"
  for Z :: lz4_api and lz :: lz4_buf_blocks
  by (rule cached_reader [OF list_lru.lru_cache_axioms])

lemma example_entries_ok: "entries_ok [(0, [97], [], 0), (0, [98], [], 1)] 3"
  using compact_entries_ok(1) [OF example_terms_ok] example_terms_fit(1)
  by (simp add: example_env_def example_entries) (simp add: example_terms_def numeral_eq_Suc)

interpretation example_blocks: compressed_tier plain_lz4 "written_blocks plain_lz4 (fc_buf example_fc)" list_bits
  example_fc "[(0, [97], [], 0), (0, [98], [], 1)]" 3
proof
  show "blocks_hold plain_lz4 (written_blocks plain_lz4 (fc_buf example_fc)) (fc_buf example_fc)"
    by (rule plain_lz4.written_blocks_hold) (simp add: example_fc_def)
qed (rule example_entries_ok, rule example_tier)

section \<open>Properties\<close>

text \<open>
  (C38) The block cache is transparent: whatever sequence of lookups and decodes is run on a compressed tier,
  starting from an empty cache of any capacity, each call returns what the tier in memory returns, panics included.
\<close>

theorem block_cache_transparent:
  assumes "lru_cache L held" and "lz4_laws Z" and "entries_ok es hw" and "tier_build V es hw = Some t"
  shows "map_option snd (cached_run api V (get_lz4_block Z L (written_blocks Z (fc_buf t)))
      (tier_index_of t (length (fc_buf t))) (written_blocks Z (fc_buf t)) calls (lru_new L n)) =
    those (map (owned_call api V t) calls)"
proof -
  have "length (fc_buf t) < 2 ^ 32" using assms(3) tier_build_bufs [OF assms(4)] by (simp add: entries_ok_def)
  then have "compressed_tier Z (written_blocks Z (fc_buf t)) V t es hw"
    by unfold_locales (use assms lz4_laws.written_blocks_hold [OF assms(2)] in simp_all)
  from compressed_tier.run_owned [OF this] show ?thesis
    using agrees_snd [OF block_reader.run_agrees [OF cached_reader [OF assms(1)] coherent_new [OF assms(1)]]] by metis
qed

text \<open>Two lookups and a decode on the tier of two names.\<close>

theorem block_cache_transparent_witness:
  "map_option snd (cached_run example_literals list_bits (get_lz4_block plain_lz4 list_lru (written_blocks plain_lz4 (fc_buf example_fc)))
     (tier_index_of example_fc (length (fc_buf example_fc))) (written_blocks plain_lz4 (fc_buf example_fc))
     [GetId (NamedNode [98]), GetId (NamedNode [99]), DecodeId 0] (lru_new list_lru 128)) =
   Some [IdAnswer (Some 1), IdAnswer None, TermAnswer (Some (Inr (NamedNode [97])))]"
proof -
  have "those (map (owned_call example_literals list_bits example_fc) [GetId (NamedNode [98]), GetId (NamedNode [99]), DecodeId 0]) =
      Some [IdAnswer (Some 1), IdAnswer None, TermAnswer (Some (Inr (NamedNode [97])))]"
    by code_simp
  then show ?thesis
    unfolding block_cache_transparent [OF list_lru.lru_cache_axioms plain_lz4.lz4_laws_axioms example_entries_ok example_tier] .
qed

text \<open>
  (C10) A dictionary survives its file: compacting a dictionary, writing it and loading it back succeed once the
  index can be serialised; only the file itself is left in the directory, and in any directory that holds that file
  loading returns the same dictionary, with every term under its identifier and the graph tables unchanged.
\<close>

theorem dict_persist_roundtrip:
  assumes "dict_context E held" and "lz4_laws (env_lz4 E)" and "dict_codec_laws K"
    and "dict_rep E held ts d0" and "graphs_ok d0" and "graphs_fit K d0"
    and "entries_fit (compact_entries (env_lit E) ts)" and "no_straddling (compact_entries (env_lit E) ts)"
    and "dict_compact E d0 = Some (d, Inr ())" and "to_snapshot K d = Some snap"
    and "dc_serialize K (fst (from_full_snapshot snap)) = Inr ib"
  shows "\<exists>c d'. write_and_load_mmap E K d path dir = Some (dir(path \<mapsto> c, tmp_sibling path := None), Inr d') \<and>
    (\<forall>dir'. dir' path = Some c \<longrightarrow> load_mmap_from_file E K path dir' = Some (Inr d')) \<and>
    dict_rep E held ts d' \<and> graph_tables d' = graph_tables d0"
proof -
  have tables: "graph_tables d = graph_tables d0" by (rule dict_compact_tables [OF assms(9)])
  note comp = dict_context.compact_just [OF assms(1,4,7-9)]
  have "graphs_ok d" using assms(5) graph_tables_graphs(1) [OF tables] by simp
  moreover have "graphs_fit K d" using assms(6) tables by (simp add: graphs_fit_def all_graphs_def graph_tables_def)
  ultimately show ?thesis
    using dict_context.write_and_load_ok [OF assms(1) comp(1,2) assms(3,2) _ _ assms(10,11), of path dir] tables by simp
qed

text \<open>Two names and a quoted triple, written as the first generation.\<close>

theorem dict_persist_roundtrip_witness:
  "\<exists>d0 d c d'. dict_rep example_env list_contents example_terms d0 \<and> dict_compact example_env d0 = Some (d, Inr ()) \<and>
     write_and_load_mmap example_env list_codec d (dict_path 1) Map.empty = Some ([dict_path 1 \<mapsto> c], Inr d') \<and>
     load_mmap_from_file example_env list_codec (dict_path 1) [dict_path 1 \<mapsto> c] = Some (Inr d') \<and>
     dict_rep example_env list_contents example_terms d'"
proof -
  obtain d0 where d0: "dict_rep example_env list_contents example_terms d0" "graph_tables d0 = graph_tables (dict_new example_env)"
    using example_rep [OF example_terms_ok] by blast
  obtain d snap ib where d: "dict_compact example_env d0 = Some (d, Inr ())" "to_snapshot list_codec d = Some snap"
    "dc_serialize list_codec (fst (from_full_snapshot snap)) = Inr ib" by (rule example_compacted [OF d0])
  have ok: "graphs_ok d0" using graph_tables_graphs(1) [OF d0(2)] graphs_ok_new by simp
  have "id_to_graph d0 = [0 \<mapsto> DefaultGraph]" using d0(2) by (simp add: graph_tables_def dict_new_def)
  then have "graphs_fit list_codec d0"
    by (simp add: graphs_fit_def all_graphs_def list_codec_def List.map_filter_simps graph_str_def ascii_valid_utf8)
  moreover have "lz4_laws (env_lz4 example_env)" by (simp add: example_env_def plain_lz4.lz4_laws_axioms)
  ultimately obtain c d' where w: "write_and_load_mmap example_env list_codec d (dict_path 1) Map.empty =
        Some ((Map.empty)(dict_path 1 \<mapsto> c, tmp_sibling (dict_path 1) := None), Inr d')"
      "\<forall>dir'. dir' (dict_path 1) = Some c \<longrightarrow> load_mmap_from_file example_env list_codec (dict_path 1) dir' = Some (Inr d')"
      "dict_rep example_env list_contents example_terms d'"
    using dict_persist_roundtrip [OF example_dict.dict_context_axioms _ list_codec.dict_codec_laws_axioms d0(1) ok _ example_terms_fit d,
        of "dict_path 1" Map.empty] by blast
  have "(Map.empty)(dict_path 1 \<mapsto> c, tmp_sibling (dict_path 1) := None) = [dict_path 1 \<mapsto> c]"
    by (auto simp: fun_eq_iff tmp_sibling_def ascii_def)
  then show ?thesis
    using w d0(1) d(1) by (intro exI [of _ d0] exI [of _ d] exI [of _ c] exI [of _ d']) simp
qed

end
