(* ===== verification/StoreDisk.thy ===== *)
theory StoreDisk
  imports StoreLoad DictSnapshot
begin

text \<open>
  The persistent LOUDS store: the branch of \<^verbatim>\<open>crates/engines/nova-engine-louds/src/store.rs\<close> for a store with
  a data directory (\<open>LoudsStore::open\<close>), and the snapshot files of \<^verbatim>\<open>snapshot.rs\<close>. Every write is logged before
  it is applied, a full buffer is merged into a new generation of files, and opening loads the committed
  generation and replays the log. File-system calls succeed; the directory lists its entries in an order that
  is a parameter, and removing an obsolete file may fail. The background flusher is the operation
  \<open>disk_flush_wal\<close> at any time.
\<close>

section \<open>The disk\<close>

text \<open>The files of the data directory, and how many bytes of a log segment are known to be durable.\<close>

record disk =
  files :: directory
  durable :: "bytes \<Rightarrow> nat"

definition get_wal :: "bytes \<Rightarrow> disk \<Rightarrow> wal_file option" where
  "get_wal path dk = map_option (\<lambda>c. \<lparr>contents = c, synced = durable dk path\<rparr>) (files dk path)"

definition put_wal :: "bytes \<Rightarrow> wal_file \<Rightarrow> disk \<Rightarrow> disk" where
  "put_wal path f dk =
     dk\<lparr>files := (files dk)(path \<mapsto> wal_file.contents f), durable := (durable dk)(path := wal_file.synced f)\<rparr>"

datatype sync_policy = Always | Interval nat

definition default_sync_policy :: sync_policy where
  "default_sync_policy = Interval 500"

definition DEFAULT_AUTO_COMPACT_THRESHOLD :: nat where
  "DEFAULT_AUTO_COMPACT_THRESHOLD = 1000000"

text \<open>What the store calls: its own environment, the dictionary codec, the checksum and the file system.\<close>

record ('l, 'v, 'c, 'r) disk_env =
  de_store :: "('l, 'v, 'c, 'r, bytes) store_env"
  de_codec :: "'v dict_codec"
  de_crc :: "bytes \<Rightarrow> u32"
  de_list :: "bytes set \<Rightarrow> bytes list"
  de_removed :: "bytes \<Rightarrow> bool"

abbreviation de_lit :: "('l, 'v, 'c, 'r) disk_env \<Rightarrow> 'l literal_api" where
  "de_lit DE \<equiv> env_lit (st_dict (de_store DE))"

record ('l, 'v, 'c, 'r) disk_store =
  pd_store :: "('l, 'v, 'c, 'r) louds_store"
  pd_disk :: disk
  pd_gen :: u64
  pd_seq :: u64
  pd_threshold :: nat
  pd_policy :: sync_policy

abbreviation pd_inner :: "('l, 'v, 'c, 'r) disk_store \<Rightarrow> ('l, 'v, 'c, 'r) louds_inner" where
  "pd_inner p \<equiv> store_inner (pd_store p)"

definition set_inner :: "('l, 'v, 'c, 'r) louds_inner \<Rightarrow> ('l, 'v, 'c, 'r) disk_store \<Rightarrow> ('l, 'v, 'c, 'r) disk_store" where
  "set_inner s p = p\<lparr>pd_store := (pd_store p)\<lparr>store_inner := s\<rparr>\<rparr>"

definition set_snap :: "'l rdf_term option list option \<Rightarrow> ('l, 'v, 'c, 'r) disk_store \<Rightarrow> ('l, 'v, 'c, 'r) disk_store" where
  "set_snap snap p = p\<lparr>pd_store := (pd_store p)\<lparr>decode_snap := snap\<rparr>\<rparr>"

definition set_files :: "directory \<Rightarrow> ('l, 'v, 'c, 'r) disk_store \<Rightarrow> ('l, 'v, 'c, 'r) disk_store" where
  "set_files fs p = p\<lparr>pd_disk := (pd_disk p)\<lparr>files := fs\<rparr>\<rparr>"

text \<open>Running an operation on the locked state, and one on the files, inside the store.\<close>

definition on_mem ::
  "('l, 'v, 'c, 'r) disk_store \<Rightarrow> (('l, 'v, 'c, 'r) louds_inner, 'a) outcome \<Rightarrow> (('l, 'v, 'c, 'r) disk_store, 'a) outcome" where
  "on_mem p out = map_option (\<lambda>(s, res). (set_inner s p, res)) out"

definition on_files ::
  "('l, 'v, 'c, 'r) disk_store \<Rightarrow> (directory, 'a) outcome \<Rightarrow> (('l, 'v, 'c, 'r) disk_store, 'a) outcome" where
  "on_files p out = map_option (\<lambda>(fs, res). (set_files fs p, res)) out"

section \<open>Logging\<close>

text \<open>The file of the writer: the active segment.\<close>

definition active_wal :: "('l, 'v, 'c, 'r) disk_store \<Rightarrow> wal_file" where
  "active_wal p = create_or_open (get_wal (wal_segment_path (pd_seq p)) (pd_disk p))"

definition set_active :: "('l, 'v, 'c, 'r) disk_store \<Rightarrow> wal_file \<Rightarrow> ('l, 'v, 'c, 'r) disk_store" where
  "set_active p f = p\<lparr>pd_disk := put_wal (wal_segment_path (pd_seq p)) f (pd_disk p)\<rparr>"

definition disk_wal_append ::
  "('l, 'v, 'c, 'r) disk_env \<Rightarrow> ('l, 'v, 'c, 'r) disk_store \<Rightarrow> 'l wal_record \<Rightarrow> (('l, 'v, 'c, 'r) disk_store, unit) outcome" where
  "disk_wal_append DE p r =
     do {f \<leftarrow> (case pd_policy p of
                  Always \<Rightarrow> wal_append (de_crc DE) (de_lit DE) (active_wal p) r
                | Interval _ \<Rightarrow> append_no_sync (de_crc DE) (de_lit DE) (active_wal p) r);
         Some (set_active p f, Inr ())}"

definition disk_wal_append_batch ::
  "('l, 'v, 'c, 'r) disk_env \<Rightarrow> ('l, 'v, 'c, 'r) disk_store \<Rightarrow> 'l wal_record list \<Rightarrow> (('l, 'v, 'c, 'r) disk_store, unit) outcome" where
  "disk_wal_append_batch DE p rs =
     do {f \<leftarrow> (case pd_policy p of
                  Always \<Rightarrow> append_batch (de_crc DE) (de_lit DE) (active_wal p) rs
                | Interval _ \<Rightarrow> fold_opt (\<lambda>r f. append_no_sync (de_crc DE) (de_lit DE) f r) rs (active_wal p));
         Some (set_active p f, Inr ())}"

definition disk_flush_wal :: "('l, 'v, 'c, 'r) disk_store \<Rightarrow> ('l, 'v, 'c, 'r) disk_store" where
  "disk_flush_wal p = set_active p (wal_sync (active_wal p))"

definition disk_set_sync_policy :: "('l, 'v, 'c, 'r) disk_store \<Rightarrow> sync_policy \<Rightarrow> ('l, 'v, 'c, 'r) disk_store" where
  "disk_set_sync_policy p policy = p\<lparr>pd_policy := policy\<rparr>"

definition disk_set_auto_compact_threshold :: "('l, 'v, 'c, 'r) disk_store \<Rightarrow> nat \<Rightarrow> ('l, 'v, 'c, 'r) disk_store" where
  "disk_set_auto_compact_threshold p threshold = p\<lparr>pd_threshold := threshold\<rparr>"

section \<open>Snapshot files\<close>

definition load_graphs ::
  "('l, 'v, 'c, 'r, bytes) store_env \<Rightarrow> bytes \<Rightarrow> directory \<Rightarrow> (graph_id \<rightharpoonup> ('r, 'v) graph_ring) result option" where
  "load_graphs SE path dir =
     (case dir path of
        None \<Rightarrow> Some (Inr Map.empty)
      | Some buf \<Rightarrow>
          (case st_deserialize SE buf of
             Inl e \<Rightarrow> Some (Inl e)
           | Inr snap \<Rightarrow> map_option Inr (snapshot_into_graphs snap)))"

definition write_and_load_graphs ::
  "('l, 'v, 'c, 'r, bytes) store_env \<Rightarrow> (graph_id \<rightharpoonup> ('r, 'v) graph_ring) \<Rightarrow> bytes \<Rightarrow> directory \<Rightarrow>
   (directory, graph_id \<rightharpoonup> ('r, 'v) graph_ring) outcome" where
  "write_and_load_graphs SE gs path dir =
     do {snap \<leftarrow> snapshot_from_graphs SE gs;
         case st_serialize SE snap of
           Inl e \<Rightarrow> Some (dir, Inl e)
         | Inr buf \<Rightarrow>
             let dir = rename_file (tmp_sibling path) path (write_file (tmp_sibling path) buf dir) in
             map_option (Pair dir) (load_graphs SE path dir)}"

section \<open>Compaction\<close>

text \<open>
  The commit: new snapshot and dictionary files, a new log segment, then the manifest that makes them
  current, and the removal of what it makes obsolete. The counters wrap as words do.
\<close>

definition disk_commit_compaction ::
  "('l, 'v, 'c, 'r) disk_env \<Rightarrow> ('l, 'v, 'c, 'r) disk_store \<Rightarrow> (graph_id \<rightharpoonup> ('r, 'v) graph_ring) \<Rightarrow> bool \<Rightarrow>
   (('l, 'v, 'c, 'r) disk_store, unit) outcome" where
  "disk_commit_compaction DE p new_graphs clear_delta =
     (let new_gen = pd_gen p + 1; new_seq = pd_seq p + 1 in
      seq (on_files p (write_and_load_graphs (de_store DE) new_graphs (snapshot_path new_gen) (files (pd_disk p)))) (\<lambda>p gs.
      seq (on_files p (write_and_load_mmap (st_dict (de_store DE)) (de_codec DE) (dict (pd_inner p)) (dict_path new_gen)
             (files (pd_disk p)))) (\<lambda>p d.
        let p = set_inner ((pd_inner p)\<lparr>dict := d\<rparr>) p;
            seg = wal_segment_path new_seq;
            dk = put_wal seg (create_or_open (get_wal seg (pd_disk p))) (pd_disk p);
            dk = dk\<lparr>files := manifest_save (de_crc DE) \<lparr>snapshot_gen = new_gen, wal_seq = new_seq\<rparr> (files dk)\<rparr>;
            dk = dk\<lparr>files := cleanup_orphans (de_removed DE) new_gen new_seq (files dk)\<rparr>;
            s = (pd_inner p)\<lparr>graphs := gs\<rparr>;
            s = (if clear_delta then s\<lparr>delta_tier := delta_clear (delta_tier s)\<rparr> else s)
        in Some ((set_inner s p)\<lparr>pd_disk := dk, pd_gen := new_gen, pd_seq := new_seq\<rparr>, Inr ()))))"

definition disk_compact_locked ::
  "('l, 'v, 'c, 'r) disk_env \<Rightarrow> ('l, 'v, 'c, 'r) disk_store \<Rightarrow> (('l, 'v, 'c, 'r) disk_store, unit) outcome" where
  "disk_compact_locked DE p =
     (let SE = de_store DE; s = pd_inner p in
      do {per_graph \<leftarrow> ring_triples SE s;
          let per_graph = fold merge_entry (delta_iter (delta_tier s)) per_graph;
          new_graphs \<leftarrow> build_graphs_from_triples SE per_graph;
          seq (on_mem p (on_dict s (dict_compact (st_dict SE) (dict s)))) (\<lambda>p _.
            disk_commit_compaction DE p new_graphs True)})"

definition disk_publish ::
  "('l, 'v, 'c, 'r) disk_env \<Rightarrow> ('l, 'v, 'c, 'r) disk_store \<Rightarrow> ('l, 'v, 'c, 'r) disk_store option" where
  "disk_publish DE p = map_option (\<lambda>st. p\<lparr>pd_store := st\<rparr>) (publish (de_store DE) (pd_store p))"

definition disk_compact ::
  "('l, 'v, 'c, 'r) disk_env \<Rightarrow> ('l, 'v, 'c, 'r) disk_store \<Rightarrow> (('l, 'v, 'c, 'r) disk_store, unit) outcome" where
  "disk_compact DE p =
     seq (disk_compact_locked DE p) (\<lambda>p _. map_option (\<lambda>p. (p, Inr ())) (disk_publish DE p))"

text \<open>The automatic compaction after a write; otherwise the published decode table is dropped when stale.\<close>

definition compaction_due :: "('l, 'v, 'c, 'r) disk_store \<Rightarrow> bool" where
  "compaction_due p \<longleftrightarrow> delta_len (delta_tier (pd_inner p)) \<ge> pd_threshold p"

definition after_write ::
  "('l, 'v, 'c, 'r) disk_env \<Rightarrow> ('l, 'v, 'c, 'r) disk_store \<Rightarrow> bool \<Rightarrow> 'a \<Rightarrow> (('l, 'v, 'c, 'r) disk_store, 'a) outcome" where
  "after_write DE p stale result =
     (if compaction_due p then
        seq (disk_compact_locked DE p) (\<lambda>p _. map_option (\<lambda>p. (p, Inr result)) (disk_publish DE p))
      else Some (if stale then set_snap None p else p, Inr result))"

section \<open>Writes\<close>

definition disk_insert ::
  "('l, 'v, 'c, 'r) disk_env \<Rightarrow> ('l, 'v, 'c, 'r) disk_store \<Rightarrow> 'l quad \<Rightarrow> (('l, 'v, 'c, 'r) disk_store, bool) outcome" where
  "disk_insert DE p q =
     seq (disk_wal_append DE p (InsertQuad q)) (\<lambda>p _.
     seq (on_mem p (apply_insert (de_store DE) (pd_inner p) q)) (\<lambda>p result.
       after_write DE p result result))"

definition disk_remove ::
  "('l, 'v, 'c, 'r) disk_env \<Rightarrow> ('l, 'v, 'c, 'r) disk_store \<Rightarrow> 'l quad \<Rightarrow> (('l, 'v, 'c, 'r) disk_store, bool) outcome" where
  "disk_remove DE p q =
     seq (disk_wal_append DE p (RemoveQuad q)) (\<lambda>p _.
     seq (on_mem p (apply_remove (de_store DE) (pd_inner p) q)) (\<lambda>p result.
       after_write DE p result result))"

definition disk_register_named_graph ::
  "('l, 'v, 'c, 'r) disk_env \<Rightarrow> ('l, 'v, 'c, 'r) disk_store \<Rightarrow> graph_name \<Rightarrow> (('l, 'v, 'c, 'r) disk_store, unit) outcome" where
  "disk_register_named_graph DE p g =
     (case g of
        GraphNamed _ \<Rightarrow>
          seq (disk_wal_append DE p (RegisterGraph g)) (\<lambda>p _. on_mem p (apply_register_graph (pd_inner p) g))
      | _ \<Rightarrow> Some (p, Inr ()))"

definition disk_extend_boxed ::
  "('l, 'v, 'c, 'r) disk_env \<Rightarrow> ('l, 'v, 'c, 'r) disk_store \<Rightarrow> 'l quad list \<Rightarrow> (('l, 'v, 'c, 'r) disk_store, nat) outcome" where
  "disk_extend_boxed DE p quads =
     (if quads = [] then Some (p, Inr 0)
      else
        seq (disk_wal_append_batch DE p (map InsertQuad quads)) (\<lambda>p _.
        seq (on_mem p (extend_loop (apply_insert (de_store DE)) (pd_inner p) quads 0)) (\<lambda>p count.
          after_write DE p (\<not> delta_is_empty (delta_tier (pd_inner p))) count)))"

fun op_record :: "'l quad_op \<Rightarrow> 'l wal_record" where
  "op_record (OpInsert q) = InsertQuad q"
| "op_record (OpRemove q) = RemoveQuad q"

definition disk_apply_batch ::
  "('l, 'v, 'c, 'r) disk_env \<Rightarrow> ('l, 'v, 'c, 'r) disk_store \<Rightarrow> 'l quad_op list \<Rightarrow> (('l, 'v, 'c, 'r) disk_store, nat \<times> nat) outcome" where
  "disk_apply_batch DE p ops =
     (if ops = [] then Some (p, Inr (0, 0))
      else
        seq (disk_wal_append_batch DE p (map op_record ops)) (\<lambda>p _.
        seq (on_mem p (batch_loop (apply_insert (de_store DE)) (apply_remove (de_store DE)) (pd_inner p) ops 0 0)) (\<lambda>p counts.
          after_write DE p (\<not> delta_is_empty (delta_tier (pd_inner p))) counts)))"

definition disk_bulk_load ::
  "('l, 'v, 'c, 'r) disk_env \<Rightarrow> ('l, 'v, 'c, 'r) disk_store \<Rightarrow> 'l quad list \<Rightarrow> (('l, 'v, 'c, 'r) disk_store, nat) outcome" where
  "disk_bulk_load DE p quads =
     (let SE = de_store DE in
      do {per_graph \<leftarrow> ring_triples SE (pd_inner p);
          seq (on_mem p (bulk_loop SE (pd_inner p) per_graph 0 quads)) (\<lambda>p (per_graph, count). do {
            new_graphs \<leftarrow> build_graphs_from_triples SE per_graph;
            seq (on_mem p (on_dict (pd_inner p) (dict_compact (st_dict SE) (dict (pd_inner p))))) (\<lambda>p _.
            seq (disk_commit_compaction DE p new_graphs False) (\<lambda>p _.
              map_option (\<lambda>p. (p, Inr count)) (disk_publish DE p)))})})"

section \<open>Opening\<close>

text \<open>Applying a logged record; an error is reported and the record skipped.\<close>

definition replay_record ::
  "('l, 'v, 'c, 'r, 'b) store_env \<Rightarrow> 'l wal_record \<Rightarrow> ('l, 'v, 'c, 'r) louds_inner \<Rightarrow> ('l, 'v, 'c, 'r) louds_inner option" where
  "replay_record SE r s =
     (case r of
        InsertQuad q \<Rightarrow> map_option fst (apply_insert SE s q)
      | RemoveQuad q \<Rightarrow> map_option fst (apply_remove SE s q)
      | RegisterGraph g \<Rightarrow> map_option fst (apply_register_graph s g))"

definition replay_segment ::
  "('l, 'v, 'c, 'r) disk_env \<Rightarrow> u64 \<times> bytes \<Rightarrow> ('l, 'v, 'c, 'r) louds_inner \<times> disk \<Rightarrow>
   (('l, 'v, 'c, 'r) louds_inner \<times> disk) option" where
  "replay_segment DE seg st =
     (case seg of (_, path) \<Rightarrow> case st of (s, dk) \<Rightarrow>
      case replay (de_crc DE) (de_lit DE) (get_wal path dk) of (rs, f) \<Rightarrow>
        do {s \<leftarrow> fold_opt (replay_record (de_store DE)) rs s;
            Some (s, case f of None \<Rightarrow> dk | Some f \<Rightarrow> put_wal path f dk)})"

text \<open>The log segments from the committed one on, in ascending order.\<close>

definition wal_segments :: "('l, 'v, 'c, 'r) disk_env \<Rightarrow> u64 \<Rightarrow> directory \<Rightarrow> (u64 \<times> bytes) list" where
  "wal_segments DE from dir =
     sort_key fst (List.map_filter (\<lambda>name. case parse_wal_seq name of
         Some q \<Rightarrow> if q \<ge> from then Some (q, name) else None | None \<Rightarrow> None) (de_list DE (dom dir)))"

text \<open>The indexes and the dictionary of a generation.\<close>

definition load_generation ::
  "('l, 'v, 'c, 'r) disk_env \<Rightarrow> u64 \<Rightarrow> directory \<Rightarrow> ('l, 'v, 'c, 'r) louds_inner result option" where
  "load_generation DE g dir =
     (let s = inner_new (de_store DE) in
      if g > 0 then do {
        gs \<leftarrow> load_graphs (de_store DE) (snapshot_path g) dir;
        case gs of Inl e \<Rightarrow> Some (Inl e) | Inr gs \<Rightarrow> do {
        d \<leftarrow> load_mmap_from_file (st_dict (de_store DE)) (de_codec DE) (dict_path g) dir;
        Some (case d of Inl e \<Rightarrow> Inl e | Inr d \<Rightarrow> Inr (s\<lparr>graphs := gs, dict := d\<rparr>))}}
      else Some (Inr s))"

definition disk_open :: "('l, 'v, 'c, 'r) disk_env \<Rightarrow> disk \<Rightarrow> ('l, 'v, 'c, 'r) disk_store result option" where
  "disk_open DE dk =
     (case manifest_load (de_crc DE) (files dk) of
        Inl e \<Rightarrow> Some (Inl e)
      | Inr m \<Rightarrow> do {
          s \<leftarrow> load_generation DE (snapshot_gen m) (files dk);
          case s of Inl e \<Rightarrow> Some (Inl e) | Inr s \<Rightarrow> do {
          let segments = wal_segments DE (wal_seq m) (files dk);
          (s, dk) \<leftarrow> fold_opt (replay_segment DE) segments (s, dk);
          let active_seq = (if segments = [] then wal_seq m else fst (last segments));
          let seg = wal_segment_path active_seq;
          let dk = put_wal seg (create_or_open (get_wal seg dk)) dk;
          let dk = dk\<lparr>files := cleanup_orphans (de_removed DE) (snapshot_gen m) active_seq (files dk)\<rparr>;
          let p = \<lparr>pd_store = \<lparr>store_inner = s, decode_snap = None\<rparr>, pd_disk = dk, pd_gen = snapshot_gen m,
                   pd_seq = active_seq, pd_threshold = DEFAULT_AUTO_COMPACT_THRESHOLD, pd_policy = default_sync_policy\<rparr>;
          map_option Inr (if delta_is_empty (delta_tier s) then disk_publish DE p else Some p)}})"

section \<open>Backup\<close>

text \<open>Copying a file that exists.\<close>

definition copy_file :: "bytes \<Rightarrow> directory \<Rightarrow> directory \<Rightarrow> directory" where
  "copy_file name src dest = (case src name of None \<Rightarrow> dest | Some c \<Rightarrow> dest(name \<mapsto> c))"

definition disk_backup :: "('l, 'v, 'c, 'r) disk_store \<Rightarrow> directory \<Rightarrow> ('l, 'v, 'c, 'r) disk_store \<times> directory" where
  "disk_backup p destination =
     (let p = disk_flush_wal p; dir = files (pd_disk p);
          dest = copy_file MANIFEST_FILE_NAME dir destination;
          dest = (if pd_gen p > 0 then copy_file (dict_path (pd_gen p)) dir (copy_file (snapshot_path (pd_gen p)) dir dest) else dest)
      in (p, copy_file (wal_segment_path (pd_seq p)) dir dest))"

end
