(* ===== verification/StoreDurable.thy ===== *)
theory StoreDurable
  imports StoreDisk
begin

text \<open>
  Durability of the persistent store: what a store on disk means (\<open>durable_log\<close>: the quads of the committed
  generation and the records logged since), the invariant that ties files, log and memory to it (\<open>disk_rep\<close>),
  and what opening makes of the files a crash leaves.
\<close>

section \<open>Names of files\<close>

lemma paths_inj [simp]:
  "snapshot_path g = snapshot_path h \<longleftrightarrow> g = h" "dict_path g = dict_path h \<longleftrightarrow> g = h"
  "wal_segment_path q = wal_segment_path q' \<longleftrightarrow> q = q'"
  by (metis parse_paths option.inject)+

lemma not_segments [simp]:
  "parse_wal_seq (snapshot_path g) = None" "parse_wal_seq (dict_path g) = None" "parse_wal_seq MANIFEST_FILE_NAME = None"
  "parse_wal_seq (tmp_sibling (snapshot_path g)) = None" "parse_wal_seq (tmp_sibling (dict_path g)) = None"
  "parse_wal_seq (tmp_sibling MANIFEST_FILE_NAME) = None"
  by (simp_all add: parse_wal_seq_def snapshot_path_def dict_path_def MANIFEST_FILE_NAME_def tmp_sibling_def strip_prefix_def ascii_def)

lemma paths_distinct [simp]:
  "snapshot_path g \<noteq> dict_path h" "dict_path h \<noteq> snapshot_path g"
  "snapshot_path g \<noteq> MANIFEST_FILE_NAME" "MANIFEST_FILE_NAME \<noteq> snapshot_path g"
  "dict_path g \<noteq> MANIFEST_FILE_NAME" "MANIFEST_FILE_NAME \<noteq> dict_path g"
  "tmp_sibling x \<noteq> x" "x \<noteq> tmp_sibling x" "tmp_sibling x = tmp_sibling y \<longleftrightarrow> x = y"
  by (simp_all add: snapshot_path_def dict_path_def MANIFEST_FILE_NAME_def tmp_sibling_def ascii_def)

lemma segment_distinct [simp]:
  "parse_wal_seq name = None \<Longrightarrow> wal_segment_path q \<noteq> name" "parse_wal_seq name = None \<Longrightarrow> name \<noteq> wal_segment_path q"
  by auto

lemma tmp_numbers: "\<forall>b \<in> set xs. alnum b \<Longrightarrow> 46 \<notin> set xs"
  using alnum_no_breaks by blast

lemma tmp_distinct [simp]:
  "tmp_sibling (snapshot_path g) \<noteq> snapshot_path h" "snapshot_path h \<noteq> tmp_sibling (snapshot_path g)"
  "tmp_sibling (dict_path g) \<noteq> dict_path h" "dict_path h \<noteq> tmp_sibling (dict_path g)"
proof -
  have "show_nat (unat g) @ 46 # xs \<noteq> show_nat (unat h)" for xs
    using show_nat_alnum [of "unat h"] tmp_numbers [of "show_nat (unat h)"] by (metis in_set_conv_decomp)
  then show "tmp_sibling (snapshot_path g) \<noteq> snapshot_path h" "tmp_sibling (dict_path g) \<noteq> dict_path h"
    by (auto simp: tmp_sibling_def snapshot_path_def dict_path_def ascii_def)
  then show "snapshot_path h \<noteq> tmp_sibling (snapshot_path g)" "dict_path h \<noteq> tmp_sibling (dict_path g)" by auto
qed

lemma tmp_kinds [simp]:
  "tmp_sibling (snapshot_path g) \<noteq> dict_path h" "dict_path h \<noteq> tmp_sibling (snapshot_path g)"
  "tmp_sibling (dict_path g) \<noteq> snapshot_path h" "snapshot_path h \<noteq> tmp_sibling (dict_path g)"
  "tmp_sibling MANIFEST_FILE_NAME \<noteq> snapshot_path h" "snapshot_path h \<noteq> tmp_sibling MANIFEST_FILE_NAME"
  "tmp_sibling MANIFEST_FILE_NAME \<noteq> dict_path h" "dict_path h \<noteq> tmp_sibling MANIFEST_FILE_NAME"
  "tmp_sibling (snapshot_path g) \<noteq> MANIFEST_FILE_NAME" "MANIFEST_FILE_NAME \<noteq> tmp_sibling (snapshot_path g)"
  "tmp_sibling (dict_path g) \<noteq> MANIFEST_FILE_NAME" "MANIFEST_FILE_NAME \<noteq> tmp_sibling (dict_path g)"
  by (simp_all add: snapshot_path_def dict_path_def MANIFEST_FILE_NAME_def tmp_sibling_def ascii_def)

lemma write_renamed: "rename_file (tmp_sibling path) path (write_file (tmp_sibling path) c dir) = dir(path \<mapsto> c, tmp_sibling path := None)"
  by (auto simp: rename_file_def write_file_def fun_eq_iff)

lemma manifest_save_files: "manifest_save crc m dir = dir(MANIFEST_FILE_NAME \<mapsto> manifest_encode crc m, tmp_sibling MANIFEST_FILE_NAME := None)"
  by (simp add: manifest_save_def write_renamed)

section \<open>The effect of a log\<close>

fun rec_set :: "'l wal_record \<Rightarrow> 'l quad set \<Rightarrow> 'l quad set" where
  "rec_set (InsertQuad q) Q = insert q Q"
| "rec_set (RemoveQuad q) Q = Q - {q}"
| "rec_set (RegisterGraph g) Q = Q"

fun rec_terms :: "'l rdf_term list \<Rightarrow> 'l wal_record \<Rightarrow> 'l rdf_term list" where
  "rec_terms ts (InsertQuad q) = quad_spec ts q"
| "rec_terms ts _ = ts"

fun rec_graphs :: "graph_name set \<Rightarrow> 'l wal_record \<Rightarrow> graph_name set" where
  "rec_graphs gs (InsertQuad q) = insert (quad_graph q) gs"
| "rec_graphs gs (RegisterGraph (GraphNamed n)) = insert (GraphNamed n) gs"
| "rec_graphs gs _ = gs"

text \<open>
  What a record needs: it can be logged, its terms are representable, there are free identifiers, and it does
  not remove an unknown quoted triple.
\<close>

definition rec_fits :: "'l literal_api \<Rightarrow> 'l rdf_term list \<Rightarrow> graph_name set \<Rightarrow> 'l wal_record \<Rightarrow> bool" where
  "rec_fits api ts gs r \<longleftrightarrow> record_ok api r \<and> card (rec_graphs gs r) \<le> 256 \<and> length (rec_terms ts r) \<le> 2 ^ 40 \<and>
     (case r of
        InsertQuad q \<Rightarrow> quad_terms_ok api q
      | RemoveQuad q \<Rightarrow> quad_terms_ok api q \<and> (is_triple (quad_object q) \<longrightarrow> quad_object q \<in> set ts)
      | RegisterGraph g \<Rightarrow> True)"

fun log_fits :: "'l literal_api \<Rightarrow> 'l rdf_term list \<Rightarrow> graph_name set \<Rightarrow> 'l wal_record list \<Rightarrow> bool" where
  "log_fits api ts gs [] \<longleftrightarrow> True"
| "log_fits api ts gs (r # rs) \<longleftrightarrow> rec_fits api ts gs r \<and> log_fits api (rec_terms ts r) (rec_graphs gs r) rs"

lemma log_fits_append:
  "log_fits api ts gs (rs @ rs') \<longleftrightarrow> log_fits api ts gs rs \<and> log_fits api (foldl rec_terms ts rs) (foldl rec_graphs gs rs) rs'"
  by (induction rs arbitrary: ts gs) auto

lemma log_fits_take: "log_fits api ts gs rs \<Longrightarrow> log_fits api ts gs (take k rs)"
  using log_fits_append [of api ts gs "take k rs" "drop k rs"] by simp

lemma log_fits_ok: "log_fits api ts gs rs \<Longrightarrow> list_all (record_ok api) rs"
  by (induction rs arbitrary: ts gs) (auto simp: rec_fits_def)

text \<open>The same store: equal up to the published table and the caches.\<close>

definition follows ::
  "('l, 'v, 'c, 'r, 'b) store_env \<Rightarrow> ('c \<Rightarrow> term_id \<rightharpoonup> 'l rdf_term) \<Rightarrow> (graph_id \<Rightarrow> row set) \<Rightarrow> 'l rdf_term list \<Rightarrow>
   graph_name set \<Rightarrow> 'l quad set \<Rightarrow> ('l, 'v, 'c, 'r) louds_inner \<Rightarrow> bool" where
  "follows SE held G ts gs Q s \<longleftrightarrow>
     store_rep SE held ts G s \<and> store_set ts G s = Q \<and> dom (graph_to_id (dict s)) = gs"

context louds_env
begin

text \<open>Another dictionary for the same terms, and any set of registered graphs.\<close>

lemma follows_dict:
  assumes f: "follows SE contents G ts gs Q s" and d: "dict_rep (st_dict SE) contents ts d" "graph_tables d = graph_tables (dict s)"
    and s': "dict s' = d" "graphs s' = graphs s" "delta_tier s' = delta_tier s"
  shows "follows SE contents G ts gs Q s'"
proof -
  have rep: "store_rep SE contents ts G s" using f by (simp add: follows_def)
  have "store_rep SE contents ts G (s\<lparr>dict := d\<rparr>)" "store_set ts G (s\<lparr>dict := d\<rparr>) = store_set ts G s"
    using store_rep_extend [OF rep, of "[]" d] d(1) store_repD(2) [OF rep] graph_tables_graphs [OF d(2)] by simp_all
  moreover have "graph_to_id d = graph_to_id (dict s)" using d(2) by (simp add: graph_tables_def)
  ultimately show ?thesis using f s' by (simp add: follows_def store_rep_def store_set_def)
qed

lemma apply_insert_follows:
  assumes "follows SE contents G ts gs Q s" "rec_fits (env_lit (st_dict SE)) ts gs (InsertQuad q)"
  shows "\<exists>s'. apply_insert SE s q = Some (s', Inr (q \<notin> Q)) \<and> follows SE contents G (quad_spec ts q) (insert (quad_graph q) gs) (insert q Q) s'"
  using assms apply_insert_ok [of ts G s q] by (auto simp: follows_def rec_fits_def)

lemma apply_remove_follows:
  assumes "follows SE contents G ts gs Q s" "rec_fits (env_lit (st_dict SE)) ts gs (RemoveQuad q)"
  shows "\<exists>s'. apply_remove SE s q = Some (s', Inr (q \<in> Q)) \<and> follows SE contents G ts gs (Q - {q}) s'"
  using assms apply_remove_ok [of ts G s q] by (fastforce simp: follows_def rec_fits_def)

lemma apply_register_follows:
  assumes f: "follows SE contents G ts gs Q s" and "rec_fits (env_lit (st_dict SE)) ts gs (RegisterGraph g)"
  shows "\<exists>s'. apply_register_graph s g = Some (s', Inr ()) \<and> follows SE contents G ts (rec_graphs gs (RegisterGraph g)) Q s'"
proof (cases g)
  case (GraphNamed n)
  have rep: "store_rep SE contents ts G s" and gs: "dom (graph_to_id (dict s)) = gs" using f by (simp_all add: follows_def)
  have room: "card (insert g (dom (graph_to_id (dict s)))) \<le> 256" using assms(2) by (simp add: rec_fits_def GraphNamed gs)
  obtain d i where d: "intern_graph (dict s) g = (d, Inr i)" "dom (graph_to_id d) = insert g (dom (graph_to_id (dict s)))"
    using intern_graph_room [OF store_repD(2) [OF rep] room] .
  note ok = intern_graph_ok [OF store_repD(2) [OF rep] d(1)] intern_graph_rep [OF d(1) store_repD(1) [OF rep]]
  have "store_rep SE contents ts G (s\<lparr>dict := d\<rparr>)" "store_set ts G (s\<lparr>dict := d\<rparr>) = store_set ts G s"
    using store_rep_extend [OF rep, of "[]" d] ok by auto
  then have "follows SE contents G ts (rec_graphs gs (RegisterGraph g)) Q
      (s\<lparr>dict := d, named_graph_ids := insert i (named_graph_ids s)\<rparr>)"
    using f d(2) by (simp add: follows_def GraphNamed store_rep_def store_set_def)
  then show ?thesis using d(1) by (simp add: apply_register_graph_def GraphNamed on_dict_def)
qed (use f in \<open>simp_all add: apply_register_graph_def\<close>)

lemma replay_record_follows:
  assumes "follows SE contents G ts gs Q s" "rec_fits (env_lit (st_dict SE)) ts gs r"
  shows "\<exists>s'. replay_record SE r s = Some s' \<and> follows SE contents G (rec_terms ts r) (rec_graphs gs r) (rec_set r Q) s'"
proof (cases r)
  case (InsertQuad q)
  then show ?thesis using apply_insert_follows [OF assms(1)] assms(2) by (fastforce simp: replay_record_def)
next
  case (RemoveQuad q)
  then show ?thesis using apply_remove_follows [OF assms(1)] assms(2) by (fastforce simp: replay_record_def)
next
  case (RegisterGraph g)
  then show ?thesis using apply_register_follows [OF assms(1)] assms(2) by (fastforce simp: replay_record_def)
qed

text \<open>Replaying a log applies its records one after the other.\<close>

lemma replay_records_follows:
  assumes "follows SE contents G ts gs Q s" "log_fits (env_lit (st_dict SE)) ts gs rs"
  shows "\<exists>s'. fold_opt (replay_record SE) rs s = Some s' \<and>
    follows SE contents G (foldl rec_terms ts rs) (foldl rec_graphs gs rs) (fold rec_set rs Q) s'"
  using assms
proof (induction rs arbitrary: s ts gs Q)
  case (Cons r rs)
  then obtain s1 where "replay_record SE r s = Some s1" "follows SE contents G (rec_terms ts r) (rec_graphs gs r) (rec_set r Q) s1"
    using replay_record_follows by fastforce
  then show ?case using Cons.IH [of "rec_terms ts r" "rec_graphs gs r" "rec_set r Q" s1] Cons.prems(2) by auto
qed simp

end

section \<open>What a store on disk means\<close>

text \<open>
  The committed generation (its terms, graph names and quads), the records logged since, and how many of
  these have been acknowledged as durable.
\<close>

record 'l durable_log =
  dl_terms :: "'l rdf_term list"
  dl_graphs :: "graph_name set"
  dl_base :: "'l quad set"
  dl_log :: "'l wal_record list"
  dl_synced :: nat

definition dl_quads :: "'l durable_log \<Rightarrow> 'l quad set" where
  "dl_quads a = fold rec_set (dl_log a) (dl_base a)"

definition dl_all_terms :: "'l durable_log \<Rightarrow> 'l rdf_term list" where
  "dl_all_terms a = foldl rec_terms (dl_terms a) (dl_log a)"

definition dl_all_graphs :: "'l durable_log \<Rightarrow> graph_name set" where
  "dl_all_graphs a = foldl rec_graphs (dl_graphs a) (dl_log a)"

definition dl_new :: "'l durable_log" where
  "dl_new = \<lparr>dl_terms = [], dl_graphs = {DefaultGraph}, dl_base = {}, dl_log = [], dl_synced = 0\<rparr>"

text \<open>A crash keeps the first \<open>k\<close> records, a commit makes the current quads the base.\<close>

definition dl_recover :: "nat \<Rightarrow> 'l durable_log \<Rightarrow> 'l durable_log" where
  "dl_recover k a = a\<lparr>dl_log := take k (dl_log a)\<rparr>"

definition dl_commit :: "'l durable_log \<Rightarrow> 'l durable_log" where
  "dl_commit a = \<lparr>dl_terms = dl_all_terms a, dl_graphs = dl_all_graphs a, dl_base = dl_quads a, dl_log = [], dl_synced = 0\<rparr>"

definition dl_write :: "sync_policy \<Rightarrow> 'l wal_record list \<Rightarrow> 'l durable_log \<Rightarrow> 'l durable_log" where
  "dl_write policy rs a = a\<lparr>dl_log := dl_log a @ rs,
     dl_synced := (case policy of Always \<Rightarrow> length (dl_log a @ rs) | Interval _ \<Rightarrow> dl_synced a)\<rparr>"

definition dl_flush :: "'l durable_log \<Rightarrow> 'l durable_log" where
  "dl_flush a = a\<lparr>dl_synced := length (dl_log a)\<rparr>"

lemma dl_commit_simps [simp]:
  "dl_quads (dl_commit a) = dl_quads a" "dl_all_terms (dl_commit a) = dl_all_terms a" "dl_all_graphs (dl_commit a) = dl_all_graphs a"
  by (simp_all add: dl_quads_def dl_all_terms_def dl_all_graphs_def dl_commit_def)

text \<open>The current manifest, and the only segment that is not obsolete.\<close>

definition manifest_is :: "(bytes \<Rightarrow> u32) \<Rightarrow> directory \<Rightarrow> manifest \<Rightarrow> bool" where
  "manifest_is crc dir m \<longleftrightarrow>
     (case dir MANIFEST_FILE_NAME of None \<Rightarrow> m = manifest_fresh | Some text \<Rightarrow> text = manifest_encode crc m)"

lemma manifest_load_is: "manifest_is crc dir m \<Longrightarrow> manifest_load crc dir = Inr m"
  by (auto simp: manifest_is_def manifest_load_def manifest_encode_utf8 manifest_decode_encode split: option.splits)

definition only_segment :: "u64 \<Rightarrow> directory \<Rightarrow> bool" where
  "only_segment q dir \<longleftrightarrow> (\<forall>name \<in> dom dir. \<forall>q'. parse_wal_seq name = Some q' \<longrightarrow> q \<le> q' \<longrightarrow> name = wal_segment_path q)"

text \<open>The files of the committed generation hold its quads.\<close>

definition generation_rep ::
  "('l, 'v, 'c, 'r) disk_env \<Rightarrow> ('c \<Rightarrow> term_id \<rightharpoonup> 'l rdf_term) \<Rightarrow> (graph_id \<Rightarrow> row set) \<Rightarrow> 'l durable_log \<Rightarrow> u64 \<Rightarrow> directory \<Rightarrow> bool" where
  "generation_rep DE held G a g dir \<longleftrightarrow>
     (\<exists>s. load_generation DE g dir = Some (Inr s) \<and> delta_tier s = delta_new \<and>
       follows (de_store DE) held G (dl_terms a) (dl_graphs a) (dl_base a) s)"

definition disk_rep ::
  "('l, 'v, 'c, 'r) disk_env \<Rightarrow> ('c \<Rightarrow> term_id \<rightharpoonup> 'l rdf_term) \<Rightarrow> 'l durable_log \<Rightarrow> ('l, 'v, 'c, 'r) disk_store \<Rightarrow> bool" where
  "disk_rep DE held a p \<longleftrightarrow>
     finite (dom (files (pd_disk p))) \<and>
     manifest_is (de_crc DE) (files (pd_disk p)) \<lparr>snapshot_gen = pd_gen p, wal_seq = pd_seq p\<rparr> \<and>
     only_segment (pd_seq p) (files (pd_disk p)) \<and>
     (\<exists>f. get_wal (wal_segment_path (pd_seq p)) (pd_disk p) = Some f \<and> wal_inv (de_crc DE) (de_lit DE) f (dl_log a) (dl_synced a)) \<and>
     log_fits (de_lit DE) (dl_terms a) (dl_graphs a) (dl_log a) \<and>
     (\<exists>G. generation_rep DE held G a (pd_gen p) (files (pd_disk p)) \<and>
       follows (de_store DE) held G (dl_all_terms a) (dl_all_graphs a) (dl_quads a) (pd_inner p))"

lemma load_generation_cong:
  "dir (snapshot_path g) = dir' (snapshot_path g) \<Longrightarrow> dir (dict_path g) = dir' (dict_path g) \<Longrightarrow>
   load_generation DE g dir = load_generation DE g dir'"
  by (simp add: load_generation_def load_graphs_def load_mmap_from_file_def Let_def)

text \<open>
  A crash keeps every file but the tails of log segments, of which it keeps at least the durable bytes.
\<close>

definition disk_crash :: "disk \<Rightarrow> disk \<Rightarrow> bool" where
  "disk_crash dk dk' \<longleftrightarrow> durable dk' = durable dk \<and>
     (\<forall>name. if parse_wal_seq name = None then files dk' name = files dk name
       else \<exists>n \<ge> durable dk name. files dk' name = map_option (take n) (files dk name))"

section \<open>Segments\<close>

lemma map_filter_names:
  assumes "distinct xs"
  shows "distinct (List.map_filter (\<lambda>name. case g name of Some q \<Rightarrow> if P q then Some (q, name) else None | None \<Rightarrow> None) xs) \<and>
    set (List.map_filter (\<lambda>name. case g name of Some q \<Rightarrow> if P q then Some (q, name) else None | None \<Rightarrow> None) xs) =
      {(q, name). name \<in> set xs \<and> g name = Some q \<and> P q}"
  using assms by (induction xs) (auto simp: List.map_filter_simps split: option.splits)

locale disk_laws = louds_env "de_store DE" held
  for DE :: "('l, 'v, 'c, 'r) disk_env" and held :: "'c \<Rightarrow> term_id \<rightharpoonup> 'l rdf_term" +
  assumes codec: "dict_codec_laws (de_codec DE)"
    and lz4: "lz4_laws (env_lz4 (st_dict (de_store DE)))"
    and listing: "finite A \<Longrightarrow> set (de_list DE A) = A \<and> distinct (de_list DE A)"
begin

lemma wal_segments_are:
  assumes "finite (dom dir)" "{(q, name). name \<in> dom dir \<and> parse_wal_seq name = Some q \<and> q \<ge> from} = set ys"
    and "sorted (map fst ys)" "distinct (map fst ys)"
  shows "wal_segments DE from dir = ys"
  unfolding wal_segments_def
proof (rule sort_key_inj_key_eq)
  let ?xs = "List.map_filter (\<lambda>name. case parse_wal_seq name of
    Some q \<Rightarrow> if q \<ge> from then Some (q, name) else None | None \<Rightarrow> None) (de_list DE (dom dir))"
  have xs: "distinct ?xs" "set ?xs = set ys"
    using map_filter_names [where xs = "de_list DE (dom dir)" and g = parse_wal_seq and P = "\<lambda>q. q \<ge> from"] listing [OF assms(1)] assms(2) by simp_all
  have "distinct ys" using assms(4) by (simp add: distinct_map)
  then show "mset ?xs = mset ys" using xs by (simp add: set_eq_iff_mset_eq_distinct)
  show "inj_on fst (set ?xs)" using assms(4) xs(2) by (simp add: distinct_map)
qed (rule assms(3))

lemma one_segment:
  assumes "finite (dom dir)" "only_segment q dir" "wal_segment_path q \<in> dom dir"
  shows "wal_segments DE q dir = [(q, wal_segment_path q)]"
proof (rule wal_segments_are [OF assms(1)])
  have only: "name = wal_segment_path q" if "name \<in> dom dir" "parse_wal_seq name = Some q'" "q \<le> q'" for name q'
    using assms(2) that unfolding only_segment_def by blast
  show "{(q', name). name \<in> dom dir \<and> parse_wal_seq name = Some q' \<and> q' \<ge> q} = set [(q, wal_segment_path q)]"
  proof (intro set_eqI iffI)
    fix x assume "x \<in> {(q', name). name \<in> dom dir \<and> parse_wal_seq name = Some q' \<and> q' \<ge> q}"
    then obtain q' name where x: "x = (q', name)" "name \<in> dom dir" "parse_wal_seq name = Some q'" "q \<le> q'" by blast
    then have "name = wal_segment_path q" using only by blast
    with x show "x \<in> set [(q, wal_segment_path q)]" by simp
  qed (use assms(3) in simp)
qed simp_all

lemma publish_follows:
  assumes "follows (de_store DE) held G ts gs Q (pd_inner p)"
  shows "\<exists>p'. disk_publish DE p = Some p' \<and> follows (de_store DE) held G ts gs Q (pd_inner p') \<and>
    delta_tier (pd_inner p') = delta_tier (pd_inner p) \<and>
    pd_disk p' = pd_disk p \<and> pd_gen p' = pd_gen p \<and> pd_seq p' = pd_seq p \<and> pd_threshold p' = pd_threshold p"
proof -
  have rep: "store_rep (de_store DE) held ts G (pd_inner p)" using assms by (simp add: follows_def)
  obtain d where d: "build_decode_snapshot_from_dict (st_dict (de_store DE)) (dict (pd_inner p)) = Some (map Some ts, d)"
    "dict_rep (st_dict (de_store DE)) held ts d" "graph_tables d = graph_tables (dict (pd_inner p))"
    using build_snapshot_ok [OF store_repD(1) [OF rep]] by blast
  have "follows (de_store DE) held G ts gs Q ((pd_inner p)\<lparr>dict := d\<rparr>)" by (rule follows_dict [OF assms d(2,3)]) simp_all
  then show ?thesis using d(1) by (simp add: disk_publish_def publish_def)
qed

end

section \<open>Opening\<close>

lemma get_put_wal [simp]: "get_wal path (put_wal path f dk) = Some f" "path' \<noteq> path \<Longrightarrow> get_wal path (put_wal path' f dk) = get_wal path dk"
  by (cases f) (simp_all add: get_wal_def put_wal_def)

lemma put_get_wal: "get_wal path dk = Some f \<Longrightarrow> put_wal path f dk = dk"
  by (cases dk) (auto simp: get_wal_def put_wal_def fun_eq_iff)

lemma put_wal_twice [simp]: "put_wal path f (put_wal path f' dk) = put_wal path f dk"
  by (simp add: put_wal_def)

lemma files_put_wal [simp]: "files (put_wal path f dk) = (files dk)(path \<mapsto> wal_file.contents f)"
  by (simp add: put_wal_def)

lemma create_or_open_simps [simp]: "create_or_open (Some f) = f" "create_or_open None = \<lparr>wal_file.contents = [], synced = 0\<rparr>"
  by (simp_all add: create_or_open_def)

text \<open>Removing obsolete files keeps the committed ones.\<close>

lemma cleanup_keeps [simp]:
  "cleanup_orphans rm g q dir (snapshot_path g) = dir (snapshot_path g)" "cleanup_orphans rm g q dir (dict_path g) = dir (dict_path g)"
  "cleanup_orphans rm g q dir (wal_segment_path q) = dir (wal_segment_path q)"
  "cleanup_orphans rm g q dir MANIFEST_FILE_NAME = dir MANIFEST_FILE_NAME"
  by (simp_all add: cleanup_orphans_def)

lemma cleanup_dom: "dom (cleanup_orphans rm g q dir) \<subseteq> dom dir"
  by (auto simp: cleanup_orphans_def split: if_splits)

lemma manifest_is_cong: "dir MANIFEST_FILE_NAME = dir' MANIFEST_FILE_NAME \<Longrightarrow> manifest_is crc dir m = manifest_is crc dir' m"
  by (simp add: manifest_is_def)

lemma generation_rep_cong:
  assumes "dir (snapshot_path g) = dir' (snapshot_path g)" "dir (dict_path g) = dir' (dict_path g)"
    "dl_terms a = dl_terms b" "dl_graphs a = dl_graphs b" "dl_base a = dl_base b"
  shows "generation_rep DE held G a g dir = generation_rep DE held G b g dir'"
  by (simp only: generation_rep_def load_generation_cong [of dir g dir', OF assms(1,2)] assms(3-5))

lemma only_segment_subset: "only_segment q dir \<Longrightarrow> dom dir' \<subseteq> insert (wal_segment_path q) (dom dir) \<Longrightarrow> only_segment q dir'"
  unfolding only_segment_def by blast

text \<open>The files that decide what a store is, for generation \<open>g\<close> and segment \<open>q\<close>.\<close>

definition disk_files ::
  "('l, 'v, 'c, 'r) disk_env \<Rightarrow> ('c \<Rightarrow> term_id \<rightharpoonup> 'l rdf_term) \<Rightarrow> (graph_id \<Rightarrow> row set) \<Rightarrow> 'l durable_log \<Rightarrow> u64 \<Rightarrow> u64 \<Rightarrow> directory \<Rightarrow> bool" where
  "disk_files DE held G a g q dir \<longleftrightarrow> finite (dom dir) \<and> manifest_is (de_crc DE) dir \<lparr>snapshot_gen = g, wal_seq = q\<rparr> \<and>
     only_segment q dir \<and> generation_rep DE held G a g dir"

lemma disk_files_cong:
  assumes "disk_files DE held G a g q dir" "dom dir' \<subseteq> insert (wal_segment_path q) (dom dir)"
    "dir' MANIFEST_FILE_NAME = dir MANIFEST_FILE_NAME" "dir' (snapshot_path g) = dir (snapshot_path g)" "dir' (dict_path g) = dir (dict_path g)"
    "dl_terms b = dl_terms a" "dl_graphs b = dl_graphs a" "dl_base b = dl_base a"
  shows "disk_files DE held G b g q dir'"
proof -
  have "finite (dom dir')" using assms(1,2) by (auto simp: disk_files_def intro: finite_subset)
  moreover have "manifest_is (de_crc DE) dir' \<lparr>snapshot_gen = g, wal_seq = q\<rparr>"
    using assms(1) manifest_is_cong [of dir' dir, OF assms(3)] by (simp add: disk_files_def)
  moreover have "only_segment q dir'" using assms(1) only_segment_subset [OF _ assms(2)] by (simp add: disk_files_def)
  moreover have "generation_rep DE held G b g dir'"
    using assms(1) by (simp add: disk_files_def generation_rep_cong [of dir' g dir, OF assms(4-8)])
  ultimately show ?thesis by (simp add: disk_files_def)
qed

lemma disk_rep_alt:
  "disk_rep DE held a p \<longleftrightarrow>
     (\<exists>G f. disk_files DE held G a (pd_gen p) (pd_seq p) (files (pd_disk p)) \<and>
       get_wal (wal_segment_path (pd_seq p)) (pd_disk p) = Some f \<and> wal_inv (de_crc DE) (de_lit DE) f (dl_log a) (dl_synced a) \<and>
       log_fits (de_lit DE) (dl_terms a) (dl_graphs a) (dl_log a) \<and>
       follows (de_store DE) held G (dl_all_terms a) (dl_all_graphs a) (dl_quads a) (pd_inner p))"
  unfolding disk_rep_def disk_files_def by blast

context disk_laws
begin

text \<open>What opening computes once the files of the generation are loaded and the segments replayed.\<close>

lemma open_compute:
  assumes load: "manifest_load (de_crc DE) (files dk) = Inr \<lparr>snapshot_gen = g, wal_seq = q0\<rparr>" "load_generation DE g (files dk) = Some (Inr s0)"
    and segs: "wal_segments DE q0 (files dk) = ys" "ys \<noteq> []" "fst (last ys) = q"
    and replayed: "fold_opt (replay_segment DE) ys (s0, dk) = Some (s, dk1)" "get_wal (wal_segment_path q) dk1 = Some f"
    and s: "follows (de_store DE) held G ts gs Q s"
  shows "\<exists>p. disk_open DE dk = Some (Inr p) \<and> follows (de_store DE) held G ts gs Q (pd_inner p) \<and> pd_gen p = g \<and> pd_seq p = q \<and>
    pd_disk p = dk1\<lparr>files := cleanup_orphans (de_removed DE) g q (files dk1)\<rparr>"
proof -
  let ?dk = "dk1\<lparr>files := cleanup_orphans (de_removed DE) g q (files dk1)\<rparr>"
  define p0 where "p0 = \<lparr>pd_store = \<lparr>store_inner = s, decode_snap = None\<rparr>, pd_disk = ?dk, pd_gen = g,
    pd_seq = q, pd_threshold = DEFAULT_AUTO_COMPACT_THRESHOLD, pd_policy = default_sync_policy\<rparr>"
  have f0: "follows (de_store DE) held G ts gs Q (pd_inner p0)" using s by (simp add: p0_def)
  obtain p1 where p1: "disk_publish DE p0 = Some p1" "follows (de_store DE) held G ts gs Q (pd_inner p1)"
    "pd_disk p1 = ?dk" "pd_gen p1 = g" "pd_seq p1 = q" using publish_follows [OF f0] by (auto simp: p0_def)
  have "disk_open DE dk = Some (Inr (if delta_is_empty (delta_tier s) then p1 else p0))"
    using load segs replayed p1(1) put_get_wal [OF replayed(2)] by (simp add: disk_open_def Let_def p0_def)
  then show ?thesis using p1 f0 by (auto simp: p0_def)
qed

lemma open_ok:
  assumes files: "disk_files DE held G a g q (files dk)" and wal: "get_wal (wal_segment_path q) dk = Some f"
    and rs: "replay (de_crc DE) (de_lit DE) (Some f) = (dl_log a, Some f')" "wal_inv (de_crc DE) (de_lit DE) f' (dl_log a) (dl_synced a)"
    and fits: "log_fits (de_lit DE) (dl_terms a) (dl_graphs a) (dl_log a)"
  shows "\<exists>p. disk_open DE dk = Some (Inr p) \<and> disk_rep DE held a p \<and> pd_gen p = g \<and> pd_seq p = q"
proof -
  let ?seg = "wal_segment_path q" and ?dk = "put_wal (wal_segment_path q) f' dk"
  obtain s0 where s0: "load_generation DE g (files dk) = Some (Inr s0)"
    "follows (de_store DE) held G (dl_terms a) (dl_graphs a) (dl_base a) s0"
    using files by (auto simp: disk_files_def generation_rep_def)
  obtain s where s: "fold_opt (replay_record (de_store DE)) (dl_log a) s0 = Some s"
    "follows (de_store DE) held G (dl_all_terms a) (dl_all_graphs a) (dl_quads a) s"
    using replay_records_follows [OF s0(2) fits] by (auto simp: dl_all_terms_def dl_all_graphs_def dl_quads_def)
  have "?seg \<in> dom (files dk)" using wal by (auto simp: get_wal_def)
  then have segs: "wal_segments DE q (files dk) = [(q, ?seg)]" using files one_segment by (simp add: disk_files_def)
  have load: "manifest_load (de_crc DE) (files dk) = Inr \<lparr>snapshot_gen = g, wal_seq = q\<rparr>"
    using files manifest_load_is by (simp add: disk_files_def)
  have replayed: "fold_opt (replay_segment DE) [(q, ?seg)] (s0, dk) = Some (s, ?dk)"
    using wal rs(1) s(1) by (simp add: replay_segment_def)
  obtain p where p: "disk_open DE dk = Some (Inr p)" "follows (de_store DE) held G (dl_all_terms a) (dl_all_graphs a) (dl_quads a) (pd_inner p)"
    "pd_gen p = g" "pd_seq p = q" "pd_disk p = ?dk\<lparr>files := cleanup_orphans (de_removed DE) g q (files ?dk)\<rparr>"
    using open_compute [OF load s0(1) segs _ _ replayed _ s(2), of q f'] by auto
  have "disk_files DE held G a g q (files (pd_disk p))"
    by (rule disk_files_cong [OF files]) (use cleanup_dom [of "de_removed DE" g q "files ?dk"] p(5) in auto)
  moreover have "get_wal ?seg (pd_disk p) = Some f'" by (cases f') (simp add: get_wal_def put_wal_def p(5))
  ultimately have "disk_rep DE held a p"
    unfolding disk_rep_alt using rs(2) fits p by (intro exI [of _ G] exI [of _ f']) simp
  then show ?thesis using p by blast
qed

end

section \<open>Crashes\<close>

text \<open>How many of the logged records a segment still holds completely.\<close>

definition kept_records :: "('l, 'v, 'c, 'r) disk_env \<Rightarrow> 'l wal_record list \<Rightarrow> bytes option \<Rightarrow> nat" where
  "kept_records DE rs seg = whole_records (de_crc DE) (de_lit DE) (case seg of None \<Rightarrow> 0 | Some c \<Rightarrow> length c) rs"

lemma crash_dom: "disk_crash dk dk' \<Longrightarrow> dom (files dk') = dom (files dk)"
proof (intro set_eqI)
  fix name assume "disk_crash dk dk'"
  then have "files dk' name = files dk name \<or> (\<exists>n. files dk' name = map_option (take n) (files dk name))"
    unfolding disk_crash_def by (meson)
  then show "name \<in> dom (files dk') \<longleftrightarrow> name \<in> dom (files dk)" by (cases "files dk name") (auto simp: domIff)
qed

lemma crash_other: "disk_crash dk dk' \<Longrightarrow> parse_wal_seq name = None \<Longrightarrow> files dk' name = files dk name"
  by (auto simp: disk_crash_def split: if_splits)

lemma crash_wal:
  assumes "disk_crash dk dk'" "get_wal (wal_segment_path q) dk = Some f" "wal_file.synced f \<le> length (wal_file.contents f)"
  shows "\<exists>n. wal_file.synced f \<le> n \<and> n \<le> length (wal_file.contents f) \<and>
    get_wal (wal_segment_path q) dk' = Some \<lparr>wal_file.contents = take n (wal_file.contents f), synced = wal_file.synced f\<rparr> \<and>
    (files dk' = files dk \<longrightarrow> n = length (wal_file.contents f))"
proof -
  let ?seg = "wal_segment_path q"
  obtain c where c: "files dk ?seg = Some c" "f = \<lparr>wal_file.contents = c, synced = durable dk ?seg\<rparr>"
    using assms(2) by (auto simp: get_wal_def)
  have "\<exists>n \<ge> durable dk ?seg. files dk' ?seg = map_option (take n) (files dk ?seg)"
    using assms(1) unfolding disk_crash_def by (auto dest!: spec [of _ ?seg])
  then obtain n where n: "n \<ge> durable dk ?seg" "files dk' ?seg = Some (take n c)" using c(1) by auto
  have "durable dk' = durable dk" using assms(1) by (simp add: disk_crash_def)
  then have "get_wal ?seg dk' = Some \<lparr>wal_file.contents = take (min n (length c)) c, synced = durable dk ?seg\<rparr>"
    using n(2) by (cases "n \<le> length c") (simp_all add: get_wal_def min_def)
  moreover have "min n (length c) = length c" if "files dk' = files dk"
  proof -
    have "take n c = c" using that n(2) c(1) by simp
    then show ?thesis by (metis length_take min.commute)
  qed
  ultimately show ?thesis using n(1) c(2) assms(3) by (intro exI [of _ "min n (length c)"]) simp
qed

lemma crash_files:
  assumes "disk_crash dk dk'" "disk_files DE held G a g q (files dk)"
    "dl_terms b = dl_terms a" "dl_graphs b = dl_graphs a" "dl_base b = dl_base a"
  shows "disk_files DE held G b g q (files dk')"
  by (rule disk_files_cong [OF assms(2)]) (use crash_dom [OF assms(1)] crash_other [OF assms(1)] assms(3-5) in auto)

context disk_laws
begin

text \<open>Opening what a crash left restores the store up to records at the end of the log that were not durable.\<close>

lemma crash_open:
  assumes rep: "disk_rep DE held a p" and crash: "disk_crash (pd_disk p) dk"
  shows "\<exists>k p'. k = kept_records DE (dl_log a) (files dk (wal_segment_path (pd_seq p))) \<and>
    dl_synced a \<le> k \<and> k \<le> length (dl_log a) \<and> (files dk = files (pd_disk p) \<longrightarrow> k = length (dl_log a)) \<and>
    disk_open DE dk = Some (Inr p') \<and> disk_rep DE held (dl_recover k a) p' \<and> pd_gen p' = pd_gen p \<and> pd_seq p' = pd_seq p"
proof -
  let ?seg = "wal_segment_path (pd_seq p)" and ?crc = "de_crc DE" and ?api = "de_lit DE"
  obtain G f where f: "disk_files DE held G a (pd_gen p) (pd_seq p) (files (pd_disk p))" "get_wal ?seg (pd_disk p) = Some f"
    "wal_inv ?crc ?api f (dl_log a) (dl_synced a)" "log_fits ?api (dl_terms a) (dl_graphs a) (dl_log a)"
    using rep unfolding disk_rep_alt by blast
  obtain n where n: "wal_file.synced f \<le> n" "n \<le> length (wal_file.contents f)"
    "get_wal ?seg dk = Some \<lparr>wal_file.contents = take n (wal_file.contents f), synced = wal_file.synced f\<rparr>"
    "files dk = files (pd_disk p) \<longrightarrow> n = length (wal_file.contents f)"
    using crash_wal [OF crash f(2)] f(3) unfolding wal_inv_def by blast
  let ?k = "whole_records ?crc ?api n (dl_log a)"
  obtain f' where f': "replay ?crc ?api (Some \<lparr>wal_file.contents = take n (wal_file.contents f), synced = wal_file.synced f\<rparr>) =
      (take ?k (dl_log a), Some f')" "dl_synced a \<le> ?k" "wal_inv ?crc ?api f' (take ?k (dl_log a)) (dl_synced a)"
    using wal_crash_replay [OF laws f(3) n(1,2)] by blast
  have full: "?k = length (dl_log a)" if "files dk = files (pd_disk p)"
    using whole_records_ge [of ?crc ?api "length (dl_log a)" "dl_log a" n] whole_records_le [of ?crc ?api n "dl_log a"] n(4) that f(3)
    by (simp add: wal_inv_def)
  have a': "dl_log (dl_recover ?k a) = take ?k (dl_log a)" "dl_synced (dl_recover ?k a) = dl_synced a"
    "dl_terms (dl_recover ?k a) = dl_terms a" "dl_graphs (dl_recover ?k a) = dl_graphs a" "dl_base (dl_recover ?k a) = dl_base a"
    by (simp_all add: dl_recover_def)
  have "\<exists>p'. disk_open DE dk = Some (Inr p') \<and> disk_rep DE held (dl_recover ?k a) p' \<and> pd_gen p' = pd_gen p \<and> pd_seq p' = pd_seq p"
    using open_ok [OF crash_files [OF crash f(1) a'(3-5)] n(3), of f'] f'(1,3) log_fits_take [OF f(4)] unfolding a' by blast
  moreover have "?k = kept_records DE (dl_log a) (files dk ?seg)" using n(2,3) by (auto simp: kept_records_def get_wal_def)
  ultimately show ?thesis using f'(2) whole_records_le [of ?crc ?api n "dl_log a"] full by blast
qed

lemma disk_rep_quads:
  assumes "disk_rep DE held a p"
  shows "quads_of (de_store DE) (pd_inner p) = dl_quads a"
  using assms quads_of_store_set unfolding disk_rep_def follows_def by blast

text \<open>A new store.\<close>

lemma open_new:
  assumes "files dk = Map.empty"
  shows "\<exists>p. disk_open DE dk = Some (Inr p) \<and> disk_rep DE held dl_new p \<and> pd_gen p = 0 \<and> pd_seq p = 1 \<and>
    delta_tier (pd_inner p) = delta_new \<and> pd_threshold p = DEFAULT_AUTO_COMPACT_THRESHOLD"
proof -
  let ?seg = "wal_segment_path 1" and ?f = "\<lparr>wal_file.contents = [], synced = 0\<rparr>" and ?s = "inner_new (de_store DE)"
  let ?dk = "put_wal ?seg ?f dk"
  let ?dk' = "?dk\<lparr>files := cleanup_orphans (de_removed DE) 0 1 (files ?dk)\<rparr>"
  define p0 where "p0 = \<lparr>pd_store = \<lparr>store_inner = ?s, decode_snap = None\<rparr>, pd_disk = ?dk', pd_gen = 0, pd_seq = 1,
    pd_threshold = DEFAULT_AUTO_COMPACT_THRESHOLD, pd_policy = default_sync_policy\<rparr>"
  have f: "follows (de_store DE) held (\<lambda>_. {}) [] {DefaultGraph} {} ?s"
    using store_rep_new quads_of_new quads_of_store_set [OF store_rep_new]
    by (auto simp: follows_def inner_new_def dict_new_def)
  then obtain p where p: "disk_publish DE p0 = Some p" "follows (de_store DE) held (\<lambda>_. {}) [] {DefaultGraph} {} (pd_inner p)"
    "pd_disk p = ?dk'" "pd_gen p = 0" "pd_seq p = 1" "delta_tier (pd_inner p) = delta_new" "pd_threshold p = DEFAULT_AUTO_COMPACT_THRESHOLD"
    using publish_follows [of "\<lambda>_. {}" "[]" "{DefaultGraph}" "{}" p0] by (auto simp: p0_def inner_new_def)
  have fresh: "manifest_load (de_crc DE) (files dk) = Inr manifest_fresh" by (simp add: assms manifest_load_def)
  have segs: "wal_segments DE 1 (files dk) = []" using listing [of "{}"] by (simp add: assms wal_segments_def List.map_filter_simps)
  have "delta_is_empty (delta_tier ?s)" by (simp add: inner_new_def delta_defs)
  then have op: "disk_open DE dk = Some (Inr p)"
    using fresh segs p(1) assms by (simp add: disk_open_def Let_def manifest_fresh_def load_generation_def p0_def get_wal_def)
  have gen: "generation_rep DE held (\<lambda>_. {}) dl_new 0 dir" for dir
    using f by (simp add: generation_rep_def load_generation_def dl_new_def inner_new_def)
  have dom: "dom (files ?dk') \<subseteq> {?seg}" using cleanup_dom [of "de_removed DE" 0 1 "files ?dk"] by (auto simp: assms)
  have "disk_files DE held (\<lambda>_. {}) dl_new 0 1 (files ?dk')"
    using dom gen finite_subset [OF dom]
    by (auto simp: disk_files_def only_segment_def manifest_is_def cleanup_orphans_def assms manifest_fresh_def)
  moreover have "get_wal ?seg ?dk' = Some ?f" by (simp add: get_wal_def put_wal_def)
  ultimately have "disk_rep DE held dl_new p"
    unfolding disk_rep_alt using p
    by (intro exI [of _ "\<lambda>_. {}"] exI [of _ ?f])
      (simp add: wal_inv_def dl_new_def dl_all_terms_def dl_all_graphs_def dl_quads_def)
  then show ?thesis using op p(4-7) by blast
qed

end

section \<open>Logged writes\<close>

lemma wal_inv_write:
  assumes "wal_inv crc api f rs d" "list_all (record_ok api) rs'"
  shows "wal_inv crc api (write_all f (log_bytes crc api rs')) (rs @ rs') d"
  using assms by (auto simp: wal_inv_def write_all_def)

lemma wal_inv_sync: "wal_inv crc api f rs d \<Longrightarrow> wal_inv crc api (wal_sync f) rs (length rs)"
  by (simp add: wal_inv_def wal_sync_def)

lemma append_no_sync_log:
  assumes "literal_laws api" "record_ok api r"
  shows "append_no_sync crc api f r = Some (write_all f (log_bytes crc api [r]))"
  using frame_record_the [OF assms, of crc] by (auto simp: append_no_sync_def split: bind_splits)

lemma append_no_sync_all:
  assumes "literal_laws api" "list_all (record_ok api) rs"
  shows "fold_opt (\<lambda>r f. append_no_sync crc api f r) rs f = Some (write_all f (log_bytes crc api rs))"
  using assms(2) by (induction rs arbitrary: f) (simp_all add: append_no_sync_log [OF assms(1)] write_all_def)

lemma wal_append_log:
  assumes "literal_laws api" "record_ok api r"
  shows "wal_append crc api f r = Some (wal_sync (write_all f (log_bytes crc api [r])))"
  using frame_record_the [OF assms, of crc] by (auto simp: wal_append_def split: bind_splits)

lemma append_batch_log:
  assumes "literal_laws api" "list_all (record_ok api) rs" "rs \<noteq> []"
  shows "append_batch crc api f rs = Some (wal_sync (write_all f (log_bytes crc api rs)))"
proof -
  have "log_bytes crc api rs \<noteq> []" using assms frame_record_pos [of api "hd rs" crc] by (cases rs) auto
  then show ?thesis by (simp add: append_batch_def frame_all_log [OF assms(1,2)])
qed

text \<open>The file after logging some records under a policy.\<close>

definition logged :: "('l, 'v, 'c, 'r) disk_env \<Rightarrow> sync_policy \<Rightarrow> 'l wal_record list \<Rightarrow> wal_file \<Rightarrow> wal_file" where
  "logged DE policy rs f =
     (let f = write_all f (log_bytes (de_crc DE) (de_lit DE) rs) in case policy of Always \<Rightarrow> wal_sync f | Interval _ \<Rightarrow> f)"

lemma logged_inv:
  assumes "wal_inv (de_crc DE) (de_lit DE) f (dl_log a) (dl_synced a)" "list_all (record_ok (de_lit DE)) rs"
  shows "wal_inv (de_crc DE) (de_lit DE) (logged DE policy rs f) (dl_log (dl_write policy rs a)) (dl_synced (dl_write policy rs a))"
  using wal_inv_write [OF assms] wal_inv_sync [OF wal_inv_write [OF assms]]
  by (auto simp: logged_def dl_write_def Let_def split: sync_policy.splits)

text \<open>The invariant, for known rows of the indexes.\<close>

definition disk_at ::
  "('l, 'v, 'c, 'r) disk_env \<Rightarrow> ('c \<Rightarrow> term_id \<rightharpoonup> 'l rdf_term) \<Rightarrow> (graph_id \<Rightarrow> row set) \<Rightarrow> 'l durable_log \<Rightarrow>
   ('l, 'v, 'c, 'r) disk_store \<Rightarrow> bool" where
  "disk_at DE held G a p \<longleftrightarrow>
     disk_files DE held G a (pd_gen p) (pd_seq p) (files (pd_disk p)) \<and>
     (\<exists>f. get_wal (wal_segment_path (pd_seq p)) (pd_disk p) = Some f \<and> wal_inv (de_crc DE) (de_lit DE) f (dl_log a) (dl_synced a)) \<and>
     log_fits (de_lit DE) (dl_terms a) (dl_graphs a) (dl_log a) \<and>
     follows (de_store DE) held G (dl_all_terms a) (dl_all_graphs a) (dl_quads a) (pd_inner p)"

lemma disk_rep_at: "disk_rep DE held a p \<longleftrightarrow> (\<exists>G. disk_at DE held G a p)"
  unfolding disk_rep_alt disk_at_def by blast

lemma disk_store_updates [simp]:
  "pd_inner (set_inner s p) = s" "pd_disk (set_inner s p) = pd_disk p" "pd_gen (set_inner s p) = pd_gen p"
  "pd_seq (set_inner s p) = pd_seq p" "pd_policy (set_inner s p) = pd_policy p" "pd_threshold (set_inner s p) = pd_threshold p"
  "pd_inner (set_active p f) = pd_inner p" "pd_disk (set_active p f) = put_wal (wal_segment_path (pd_seq p)) f (pd_disk p)"
  "pd_gen (set_active p f) = pd_gen p" "pd_seq (set_active p f) = pd_seq p" "pd_policy (set_active p f) = pd_policy p"
  "pd_threshold (set_active p f) = pd_threshold p" "pd_inner (set_snap snap p) = pd_inner p" "pd_disk (set_snap snap p) = pd_disk p"
  "pd_gen (set_snap snap p) = pd_gen p" "pd_seq (set_snap snap p) = pd_seq p"
  "pd_inner (set_files fs p) = pd_inner p" "pd_disk (set_files fs p) = (pd_disk p)\<lparr>files := fs\<rparr>" "pd_gen (set_files fs p) = pd_gen p"
  "pd_seq (set_files fs p) = pd_seq p"
  by (simp_all add: set_inner_def set_active_def set_snap_def set_files_def)

lemma disk_at_cong:
  "disk_at DE held G a p \<Longrightarrow> pd_disk p' = pd_disk p \<Longrightarrow> pd_gen p' = pd_gen p \<Longrightarrow> pd_seq p' = pd_seq p \<Longrightarrow>
   follows (de_store DE) held G (dl_all_terms a) (dl_all_graphs a) (dl_quads a) (pd_inner p') \<Longrightarrow> disk_at DE held G a p'"
  by (simp add: disk_at_def)

lemma active_wal_get: "get_wal (wal_segment_path (pd_seq p)) (pd_disk p) = Some f \<Longrightarrow> active_wal p = f"
  by (simp add: active_wal_def)

text \<open>A new tail of the active segment, and the memory that goes with it.\<close>

lemma disk_at_active:
  assumes at: "disk_at DE held G a p" and b: "dl_terms b = dl_terms a" "dl_graphs b = dl_graphs a" "dl_base b = dl_base a"
    and f: "wal_inv (de_crc DE) (de_lit DE) f (dl_log b) (dl_synced b)" "log_fits (de_lit DE) (dl_terms a) (dl_graphs a) (dl_log b)"
    and s: "follows (de_store DE) held G (dl_all_terms b) (dl_all_graphs b) (dl_quads b) s"
  shows "disk_at DE held G b (set_inner s (set_active p f))"
proof -
  have "disk_files DE held G a (pd_gen p) (pd_seq p) (files (pd_disk p))" using at by (simp add: disk_at_def)
  then have "disk_files DE held G b (pd_gen p) (pd_seq p) (files (pd_disk (set_active p f)))"
    by (rule disk_files_cong) (use b in auto)
  then show ?thesis using b f s by (simp add: disk_at_def)
qed

context disk_laws
begin

lemma append_logged:
  assumes at: "disk_at DE held G a p" and ok: "list_all (record_ok (de_lit DE)) rs" "rs \<noteq> []"
  shows "disk_wal_append_batch DE p rs = Some (set_active p (logged DE (pd_policy p) rs (active_wal p)), Inr ())"
    "rs = [r] \<Longrightarrow> disk_wal_append DE p r = Some (set_active p (logged DE (pd_policy p) rs (active_wal p)), Inr ())"
  using ok append_batch_log [OF laws ok(1) ok(2)] append_no_sync_all [OF laws ok(1)] append_no_sync_log [OF laws] wal_append_log [OF laws]
  by (auto simp: disk_wal_append_batch_def disk_wal_append_def logged_def Let_def split: sync_policy.splits)

text \<open>Logging records and then applying them.\<close>

lemma write_at:
  assumes at: "disk_at DE held G a p" and fits: "log_fits (de_lit DE) (dl_all_terms a) (dl_all_graphs a) rs"
    and s: "follows (de_store DE) held G (foldl rec_terms (dl_all_terms a) rs) (foldl rec_graphs (dl_all_graphs a) rs)
      (fold rec_set rs (dl_quads a)) s"
  shows "disk_at DE held G (dl_write (pd_policy p) rs a) (set_inner s (set_active p (logged DE (pd_policy p) rs (active_wal p))))"
proof (rule disk_at_active [OF at])
  obtain f where f: "get_wal (wal_segment_path (pd_seq p)) (pd_disk p) = Some f" "wal_inv (de_crc DE) (de_lit DE) f (dl_log a) (dl_synced a)"
    using at by (auto simp: disk_at_def)
  show "wal_inv (de_crc DE) (de_lit DE) (logged DE (pd_policy p) rs (active_wal p)) (dl_log (dl_write (pd_policy p) rs a))
      (dl_synced (dl_write (pd_policy p) rs a))"
    using logged_inv [OF f(2) log_fits_ok [OF fits]] active_wal_get [OF f(1)] by simp
  show "log_fits (de_lit DE) (dl_terms a) (dl_graphs a) (dl_log (dl_write (pd_policy p) rs a))"
    using at fits by (simp add: disk_at_def dl_write_def log_fits_append dl_all_terms_def dl_all_graphs_def)
  show "follows (de_store DE) held G (dl_all_terms (dl_write (pd_policy p) rs a)) (dl_all_graphs (dl_write (pd_policy p) rs a))
      (dl_quads (dl_write (pd_policy p) rs a)) s"
    using s by (simp add: dl_write_def dl_all_terms_def dl_all_graphs_def dl_quads_def)
qed (simp_all add: dl_write_def)

text \<open>A batch on the locked state.\<close>

lemma batch_follows:
  assumes "follows (de_store DE) held G ts gs Q s" "log_fits (de_lit DE) ts gs (map op_record ops)"
  shows "\<exists>s'. batch_loop (apply_insert (de_store DE)) (apply_remove (de_store DE)) s ops i r =
      Some (s', Inr (i + fst (op_counts ops Q), r + snd (op_counts ops Q))) \<and>
    follows (de_store DE) held G (foldl rec_terms ts (map op_record ops)) (foldl rec_graphs gs (map op_record ops))
      (fold rec_set (map op_record ops) Q) s'"
  using assms
proof (induction ops arbitrary: s ts gs Q i r)
  case (Cons op ops)
  show ?case
  proof (cases op)
    case (OpInsert q)
    have fits: "rec_fits (de_lit DE) ts gs (InsertQuad q)"
      "log_fits (de_lit DE) (quad_spec ts q) (insert (quad_graph q) gs) (map op_record ops)"
      using Cons.prems(2) by (simp_all add: OpInsert)
    obtain s1 where s1: "apply_insert (de_store DE) s q = Some (s1, Inr (q \<notin> Q))"
      "follows (de_store DE) held G (quad_spec ts q) (insert (quad_graph q) gs) (insert q Q) s1"
      using apply_insert_follows [OF Cons.prems(1) fits(1)] by blast
    show ?thesis using Cons.IH [OF s1(2) fits(2), of "if q \<notin> Q then i + 1 else i" r] s1(1)
      by (auto simp: OpInsert split_beta)
  next
    case (OpRemove q)
    have fits: "rec_fits (de_lit DE) ts gs (RemoveQuad q)" "log_fits (de_lit DE) ts gs (map op_record ops)"
      using Cons.prems(2) by (simp_all add: OpRemove)
    obtain s1 where s1: "apply_remove (de_store DE) s q = Some (s1, Inr (q \<in> Q))" "follows (de_store DE) held G ts gs (Q - {q}) s1"
      using apply_remove_follows [OF Cons.prems(1) fits(1)] by blast
    show ?thesis using Cons.IH [OF s1(2) fits(2), of i "if q \<in> Q then r + 1 else r"] s1(1)
      by (auto simp: OpRemove split_beta)
  qed
qed simp

end

section \<open>Commits\<close>

text \<open>What a compaction to disk needs, beyond what it needs in memory.\<close>

definition dict_writable :: "('l, 'v, 'c, 'r) disk_env \<Rightarrow> ('l, 'v, 'c) dictionary \<Rightarrow> bool" where
  "dict_writable DE d0 \<longleftrightarrow> graphs_fit (de_codec DE) d0 \<and>
     (case dict_compact (st_dict (de_store DE)) d0 of
        Some (d, Inr _) \<Rightarrow>
          (case to_snapshot (de_codec DE) d of
             Some snap \<Rightarrow> \<not> isl (dc_serialize (de_codec DE) (fst (from_full_snapshot snap)))
           | None \<Rightarrow> False)
      | _ \<Rightarrow> False)"

definition can_compact :: "('l, 'v, 'c, 'r) disk_env \<Rightarrow> 'l rdf_term list \<Rightarrow> ('l, 'v, 'c, 'r) disk_store \<Rightarrow> bool" where
  "can_compact DE ts p \<longleftrightarrow> store_small (pd_inner p) (delta_len (delta_tier (pd_inner p))) \<and> terms_compactable (de_lit DE) ts \<and>
     dict_writable DE (dict (pd_inner p)) \<and> pd_gen p \<noteq> - 1 \<and> pd_seq p \<noteq> - 1"

lemma word_less_Suc:
  assumes "(w :: u64) \<noteq> - 1"
  shows "w < w + 1" "0 < w + 1"
proof -
  show "w < w + 1" using assms by (meson inc_less_eq_self_iff_eq linorder_not_le)
  then show "0 < w + 1" using word_zero_le [of w] by order
qed

lemma not_isl: "\<not> isl x \<Longrightarrow> \<exists>y. x = Inr y"
  by (cases x) auto

lemma round_trip_files:
  assumes "round_trip SE gs = Some (Inr gs)"
  shows "\<exists>buf. write_and_load_graphs SE gs path dir = Some (dir(path \<mapsto> buf, tmp_sibling path := None), Inr gs) \<and>
    (\<forall>dir'. dir' path = Some buf \<longrightarrow> load_graphs SE path dir' = Some (Inr gs))"
proof -
  obtain snap buf snap2 where s: "snapshot_from_graphs SE gs = Some snap" "st_serialize SE snap = Inr buf"
    "st_deserialize SE buf = Inr snap2" "snapshot_into_graphs snap2 = Some gs"
    using assms by (auto simp: round_trip_def split: bind_splits sum.splits option.splits)
  have load: "load_graphs SE path dir' = Some (Inr gs)" if "dir' path = Some buf" for dir' using that s by (simp add: load_graphs_def)
  have "write_and_load_graphs SE gs path dir = Some (dir(path \<mapsto> buf, tmp_sibling path := None), Inr gs)"
    using s load by (simp add: write_and_load_graphs_def write_renamed Let_def)
  then show ?thesis using load by blast
qed

text \<open>The directory after a commit.\<close>

definition committed_files ::
  "('l, 'v, 'c, 'r) disk_env \<Rightarrow> u64 \<Rightarrow> u64 \<Rightarrow> bytes \<Rightarrow> bytes \<Rightarrow> bytes \<Rightarrow> directory \<Rightarrow> directory" where
  "committed_files DE g q buf c w dir =
     cleanup_orphans (de_removed DE) g q (manifest_save (de_crc DE) \<lparr>snapshot_gen = g, wal_seq = q\<rparr>
       (dir(snapshot_path g \<mapsto> buf, tmp_sibling (snapshot_path g) := None, dict_path g \<mapsto> c, tmp_sibling (dict_path g) := None,
            wal_segment_path q \<mapsto> w)))"

lemma committed_files_at:
  "committed_files DE g q buf c w dir (snapshot_path g) = Some buf" "committed_files DE g q buf c w dir (dict_path g) = Some c"
  "committed_files DE g q buf c w dir (wal_segment_path q) = Some w"
  "committed_files DE g q buf c w dir MANIFEST_FILE_NAME = Some (manifest_encode (de_crc DE) \<lparr>snapshot_gen = g, wal_seq = q\<rparr>)"
  by (simp_all add: committed_files_def manifest_save_files)

lemma committed_files_dom:
  "dom (committed_files DE g q buf c w dir) \<subseteq>
    {snapshot_path g, dict_path g, wal_segment_path q, MANIFEST_FILE_NAME} \<union> dom dir"
proof -
  have "dom (manifest_save (de_crc DE) \<lparr>snapshot_gen = g, wal_seq = q\<rparr>
       (dir(snapshot_path g \<mapsto> buf, tmp_sibling (snapshot_path g) := None, dict_path g \<mapsto> c, tmp_sibling (dict_path g) := None,
            wal_segment_path q \<mapsto> w))) \<subseteq> {snapshot_path g, dict_path g, wal_segment_path q, MANIFEST_FILE_NAME} \<union> dom dir"
    by (auto simp: manifest_save_files split: if_splits)
  then show ?thesis unfolding committed_files_def by (rule order.trans [OF cleanup_dom])
qed

lemma next_segment:
  assumes "only_segment q dir" "q \<noteq> - 1"
  shows "dir (wal_segment_path (q + 1)) = None"
proof (rule ccontr)
  assume "dir (wal_segment_path (q + 1)) \<noteq> None"
  then have "wal_segment_path (q + 1) \<in> dom dir" by (simp add: domIff)
  then have "wal_segment_path (q + 1) = wal_segment_path q"
    using assms word_less_Suc(1) [of q] unfolding only_segment_def by (metis less_imp_le parse_paths(3))
  then show False by simp
qed

lemma only_next_segment:
  assumes "only_segment q dir" "q \<noteq> - 1"
  shows "only_segment (q + 1) (committed_files DE g (q + 1) buf c w dir)"
  unfolding only_segment_def
proof (intro ballI allI impI)
  fix name q' assume name: "name \<in> dom (committed_files DE g (q + 1) buf c w dir)" "parse_wal_seq name = Some q'" "q + 1 \<le> q'"
  have "q < q'" using word_less_Suc(1) [OF assms(2)] name(3) by order
  have "name \<notin> dom dir"
  proof
    assume "name \<in> dom dir"
    then have "name = wal_segment_path q" using assms(1) name(2) \<open>q < q'\<close> unfolding only_segment_def by (meson less_imp_le)
    then show False using name(2) \<open>q < q'\<close> by simp
  qed
  then have "name \<in> {snapshot_path g, dict_path g, wal_segment_path (q + 1), MANIFEST_FILE_NAME}"
    using name(1) committed_files_dom [of DE g "q + 1" buf c w dir] by blast
  then show "name = wal_segment_path (q + 1)" using name(2) by auto
qed

context disk_laws
begin

text \<open>
  Committing indexes and a dictionary that hold a set of quads makes that set the base of the store; the
  buffer is kept or dropped.
\<close>

lemma commit_at:
  assumes old: "only_segment (pd_seq p) (files (pd_disk p))" "finite (dom (files (pd_disk p)))" and room: "pd_gen p \<noteq> - 1" "pd_seq p \<noteq> - 1"
    and gs: "round_trip (de_store DE) gs = Some (Inr gs)"
    and d: "dict_rep (st_dict (de_store DE)) held ts (dict (pd_inner p))" "just_compacted (st_dict (de_store DE)) ts (dict (pd_inner p))"
    "graphs_ok (dict (pd_inner p))" "graphs_fit (de_codec DE) (dict (pd_inner p))"
    and snap: "to_snapshot (de_codec DE) (dict (pd_inner p)) = Some snap" "dc_serialize (de_codec DE) (fst (from_full_snapshot snap)) = Inr ib"
    and s: "follows (de_store DE) held G ts names Q ((pd_inner p)\<lparr>graphs := gs, delta_tier := delta_new\<rparr>)"
  shows "\<exists>p' d'. disk_commit_compaction DE p gs clear = Some (p', Inr ()) \<and> pd_gen p' = pd_gen p + 1 \<and> pd_seq p' = pd_seq p + 1 \<and>
    pd_inner p' = (pd_inner p)\<lparr>dict := d', graphs := gs, delta_tier := (if clear then delta_new else delta_tier (pd_inner p))\<rparr> \<and>
    dict_rep (st_dict (de_store DE)) held ts d' \<and> graph_tables d' = graph_tables (dict (pd_inner p)) \<and>
    disk_files DE held G \<lparr>dl_terms = ts, dl_graphs = names, dl_base = Q, dl_log = [], dl_synced = 0\<rparr> (pd_gen p') (pd_seq p') (files (pd_disk p')) \<and>
    get_wal (wal_segment_path (pd_seq p')) (pd_disk p') = Some \<lparr>wal_file.contents = [], synced = 0\<rparr>"
proof -
  let ?g = "pd_gen p + 1" and ?q = "pd_seq p + 1" and ?dir = "files (pd_disk p)" and ?SE = "de_store DE"
  let ?a = "\<lparr>dl_terms = ts, dl_graphs = names, dl_base = Q, dl_log = [], dl_synced = 0\<rparr>"
  obtain buf where buf: "write_and_load_graphs ?SE gs (snapshot_path ?g) ?dir =
      Some (?dir(snapshot_path ?g \<mapsto> buf, tmp_sibling (snapshot_path ?g) := None), Inr gs)"
    "\<And>dir'. dir' (snapshot_path ?g) = Some buf \<Longrightarrow> load_graphs ?SE (snapshot_path ?g) dir' = Some (Inr gs)"
    using round_trip_files [OF gs, of "snapshot_path ?g" ?dir] by blast
  let ?dir1 = "?dir(snapshot_path ?g \<mapsto> buf, tmp_sibling (snapshot_path ?g) := None)"
  obtain c d' where c: "write_and_load_mmap (st_dict ?SE) (de_codec DE) (dict (pd_inner p)) (dict_path ?g) ?dir1 =
      Some (?dir1(dict_path ?g \<mapsto> c, tmp_sibling (dict_path ?g) := None), Inr d')"
    "\<And>dir'. dir' (dict_path ?g) = Some c \<Longrightarrow> load_mmap_from_file (st_dict ?SE) (de_codec DE) (dict_path ?g) dir' = Some (Inr d')"
    "dict_rep (st_dict ?SE) held ts d'" "graph_tables d' = graph_tables (dict (pd_inner p))"
    using write_and_load_ok [OF d(1,2) codec lz4 d(3,4) snap, of "dict_path ?g" ?dir1] by blast
  let ?fs = "committed_files DE ?g ?q buf c [] ?dir"
  have new: "?dir (wal_segment_path ?q) = None" by (rule next_segment [OF old(1) room(2)])
  define s' where "s' = (pd_inner p)\<lparr>dict := d', graphs := gs, delta_tier := (if clear then delta_new else delta_tier (pd_inner p))\<rparr>"
  define dk where "dk = (pd_disk p)\<lparr>files := ?fs, durable := (durable (pd_disk p))(wal_segment_path ?q := 0)\<rparr>"
  define p' where "p' = (set_inner s' p)\<lparr>pd_disk := dk, pd_gen := ?g, pd_seq := ?q\<rparr>"
  have "disk_commit_compaction DE p gs clear = Some (p', Inr ())"
    using buf(1) c(1) new
    by (simp add: disk_commit_compaction_def Let_def on_files_def get_wal_def put_wal_def committed_files_def p'_def dk_def s'_def
        set_inner_def set_files_def delta_defs)
  moreover have "generation_rep DE held G ?a ?g ?fs"
  proof -
    let ?s0 = "(inner_new ?SE)\<lparr>graphs := gs, dict := d'\<rparr>"
    have "follows ?SE held G ts names Q ?s0" by (rule follows_dict [OF s c(3)]) (simp_all add: c(4) inner_new_def)
    moreover have "load_generation DE ?g ?fs = Some (Inr ?s0)"
      using buf(2) [of ?fs] c(2) [of ?fs] word_less_Suc(2) [OF room(1)] by (simp add: load_generation_def committed_files_at Let_def)
    ultimately show ?thesis by (auto simp: generation_rep_def inner_new_def)
  qed
  moreover have "finite (dom ?fs)" using old(2) committed_files_dom [of DE ?g ?q buf c "[]" ?dir] by (auto intro: finite_subset)
  moreover have "only_segment ?q ?fs" by (rule only_next_segment [OF old(1) room(2)])
  moreover have "manifest_is (de_crc DE) ?fs \<lparr>snapshot_gen = ?g, wal_seq = ?q\<rparr>" by (simp add: manifest_is_def committed_files_at)
  moreover have "get_wal (wal_segment_path ?q) dk = Some \<lparr>wal_file.contents = [], synced = 0\<rparr>"
    by (simp add: get_wal_def dk_def committed_files_at)
  ultimately show ?thesis using c(3,4) by (intro exI [of _ p'] exI [of _ d']) (simp add: p'_def s'_def dk_def disk_files_def set_inner_def)
qed

lemma dict_writableE:
  assumes "dict_writable DE d0" "dict_compact (st_dict (de_store DE)) d0 = Some (d, Inr ())"
  obtains snap ib where "to_snapshot (de_codec DE) d = Some snap" "dc_serialize (de_codec DE) (fst (from_full_snapshot snap)) = Inr ib"
    "graphs_fit (de_codec DE) d"
proof -
  obtain snap ib where "to_snapshot (de_codec DE) d = Some snap" "dc_serialize (de_codec DE) (fst (from_full_snapshot snap)) = Inr ib"
    using assms not_isl by (fastforce simp: dict_writable_def split: option.splits)
  moreover have "graphs_fit (de_codec DE) d"
    using assms(1) dict_compact_tables [OF assms(2)] by (simp add: dict_writable_def graphs_fit_def all_graphs_def graph_tables_def)
  ultimately show ?thesis using that by blast
qed

lemma compact_at:
  assumes at: "disk_at DE held G a p" and can: "can_compact DE (dl_all_terms a) p"
  shows "\<exists>p' G'. disk_compact_locked DE p = Some (p', Inr ()) \<and> disk_at DE held G' (dl_commit a) p' \<and>
    pd_gen p' = pd_gen p + 1 \<and> pd_seq p' = pd_seq p + 1 \<and> delta_is_empty (delta_tier (pd_inner p'))"
proof -
  let ?SE = "de_store DE" and ?s = "pd_inner p" and ?ts = "dl_all_terms a"
  have rep: "store_rep ?SE held ?ts G ?s" "store_set ?ts G ?s = dl_quads a" "dom (graph_to_id (dict ?s)) = dl_all_graphs a"
    using at by (simp_all add: disk_at_def follows_def)
  have fits: "store_small ?s (delta_len (delta_tier ?s))" "terms_compactable (de_lit DE) ?ts" "dict_writable DE (dict ?s)"
    "pd_gen p \<noteq> - 1" "pd_seq p \<noteq> - 1" using can by (simp_all add: can_compact_def)
  obtain m gs d G' where c: "ring_triples ?SE ?s = Some m"
    "build_graphs_from_triples ?SE (fold merge_entry (delta_iter (delta_tier ?s)) m) = Some gs" "round_trip ?SE gs = Some (Inr gs)"
    "dict_compact (st_dict ?SE) (dict ?s) = Some (d, Inr ())"
    "store_rep ?SE held ?ts G' (?s\<lparr>dict := d, graphs := gs, delta_tier := delta_clear (delta_tier ?s)\<rparr>)"
    "store_set ?ts G' (?s\<lparr>dict := d, graphs := gs, delta_tier := delta_clear (delta_tier ?s)\<rparr>) = store_set ?ts G ?s"
    by (rule compact_parts [OF rep(1) fits(1,2)])
  have clear: "delta_clear (delta_tier ?s) = delta_new" by (simp add: delta_defs)
  note tables = dict_compact_tables [OF c(4)]
  obtain snap ib where snap: "to_snapshot (de_codec DE) d = Some snap" "dc_serialize (de_codec DE) (fst (from_full_snapshot snap)) = Inr ib"
    "graphs_fit (de_codec DE) d" by (rule dict_writableE [OF fits(3) c(4)])
  have just: "dict_rep (st_dict ?SE) held ?ts d" "just_compacted (st_dict ?SE) ?ts d"
    using compact_just [OF store_repD(1) [OF rep(1)] _ _ c(4)] fits(2) by (auto simp: terms_compactable_def)
  have d: "graphs_ok d" using store_repD(2) [OF rep(1)] graph_tables_graphs(1) [OF tables] by simp
  let ?p1 = "set_inner (?s\<lparr>dict := d\<rparr>) p"
  have gid: "graph_to_id d = graph_to_id (dict ?s)" using tables by (simp add: graph_tables_def)
  have s1: "follows ?SE held G' ?ts (dl_all_graphs a) (dl_quads a) ((pd_inner ?p1)\<lparr>graphs := gs, delta_tier := delta_new\<rparr>)"
    using c(5,6) rep gid by (simp add: follows_def clear)
  have old: "only_segment (pd_seq ?p1) (files (pd_disk ?p1))" "finite (dom (files (pd_disk ?p1)))"
    using at by (simp_all add: disk_at_def disk_files_def)
  obtain p' d' where p': "disk_commit_compaction DE ?p1 gs True = Some (p', Inr ())" "pd_gen p' = pd_gen ?p1 + 1" "pd_seq p' = pd_seq ?p1 + 1"
    "pd_inner p' = (pd_inner ?p1)\<lparr>dict := d', graphs := gs, delta_tier := delta_new\<rparr>"
    "dict_rep (st_dict ?SE) held ?ts d'" "graph_tables d' = graph_tables (dict (pd_inner ?p1))"
    "disk_files DE held G' (dl_commit a) (pd_gen p') (pd_seq p') (files (pd_disk p'))"
    "get_wal (wal_segment_path (pd_seq p')) (pd_disk p') = Some \<lparr>wal_file.contents = [], synced = 0\<rparr>"
    using commit_at [of ?p1 gs ?ts snap ib G' "dl_all_graphs a" "dl_quads a" True] old fits(4,5) c(3) just d snap s1
    by (auto simp: dl_commit_def)
  have "follows ?SE held G' ?ts (dl_all_graphs a) (dl_quads a) (pd_inner p')"
    by (rule follows_dict [OF s1 p'(5)]) (simp_all add: p'(4) p'(6) [simplified])
  then have "disk_at DE held G' (dl_commit a) p'"
    using p'(7,8) by (simp add: disk_at_def) (simp add: dl_commit_def wal_inv_def)
  moreover have "disk_compact_locked DE p = Some (p', Inr ())"
    using c(1,2,4) p'(1) by (simp add: disk_compact_locked_def Let_def on_mem_def on_dict_def)
  ultimately show ?thesis using p'(2-4) by (auto simp: delta_defs)
qed

end

end
