(* ===== verification/StoreRecovery.thy ===== *)
theory StoreRecovery
  imports StoreDurable
begin

text \<open>
  The life of a persistent store: every operation keeps the invariant of durability, so whatever the history
  of writes, compactions, crashes and reopenings, opening recovers what was acknowledged as durable. Two
  sequences of operations are shown to lose acknowledged writes.
\<close>

section \<open>Operations\<close>

text \<open>What a write needs: records that fit and, when it triggers a compaction, one that can be committed.\<close>

definition write_fits ::
  "('l, 'v, 'c, 'r) disk_env \<Rightarrow> 'l durable_log \<Rightarrow> ('l, 'v, 'c, 'r) disk_store \<Rightarrow> 'l wal_record list \<Rightarrow>
   (('l, 'v, 'c, 'r) louds_inner, 'a) outcome \<Rightarrow> bool" where
  "write_fits DE a p rs out \<longleftrightarrow> log_fits (de_lit DE) (dl_all_terms a) (dl_all_graphs a) rs \<and>
     (case out of
        Some (s, Inr _) \<Rightarrow>
          delta_len (delta_tier s) \<ge> pd_threshold p \<longrightarrow> can_compact DE (foldl rec_terms (dl_all_terms a) rs) (set_inner s p)
      | _ \<Rightarrow> True)"

text \<open>What a write does to the log, with the compaction it may have triggered.\<close>

definition dl_after ::
  "('l, 'v, 'c, 'r) disk_store \<Rightarrow> ('l, 'v, 'c, 'r) disk_store \<Rightarrow> 'l wal_record list \<Rightarrow> 'l durable_log \<Rightarrow> 'l durable_log" where
  "dl_after p p' rs a =
     (let b = dl_write (pd_policy p) rs a in if pd_gen p' = pd_gen p then b else dl_commit b)"

lemma dl_after_quads: "dl_quads (dl_after p p' rs a) = fold rec_set rs (dl_quads a)"
  by (simp add: dl_after_def Let_def dl_write_def) (simp add: dl_quads_def)

lemma dl_after_synced: "pd_policy p = Always \<Longrightarrow> dl_synced (dl_after p p' rs a) = length (dl_log (dl_after p p' rs a))"
  by (simp add: dl_after_def Let_def dl_write_def dl_commit_def)

lemma fold_op_record: "fold rec_set (map op_record ops) Q = fold op_set ops Q"
proof (induction ops arbitrary: Q)
  case (Cons op ops)
  then show ?case by (cases op) auto
qed simp

context disk_laws
begin

lemma compact_publish_at:
  assumes "disk_at DE held G a p" "can_compact DE (dl_all_terms a) p"
  shows "\<exists>p' G'. seq (disk_compact_locked DE p) (\<lambda>p _. map_option (\<lambda>p. (p, Inr result)) (disk_publish DE p)) = Some (p', Inr result) \<and>
    disk_at DE held G' (dl_commit a) p' \<and> pd_gen p' = pd_gen p + 1 \<and> pd_seq p' = pd_seq p + 1 \<and>
    delta_is_empty (delta_tier (pd_inner p'))"
proof -
  obtain p1 G' where p1: "disk_compact_locked DE p = Some (p1, Inr ())" "disk_at DE held G' (dl_commit a) p1" "pd_gen p1 = pd_gen p + 1"
    "pd_seq p1 = pd_seq p + 1" "delta_is_empty (delta_tier (pd_inner p1))" using compact_at [OF assms] by blast
  have "follows (de_store DE) held G' (dl_all_terms (dl_commit a)) (dl_all_graphs (dl_commit a)) (dl_quads (dl_commit a)) (pd_inner p1)"
    using p1(2) by (simp only: disk_at_def)
  then obtain p2 where p2: "disk_publish DE p1 = Some p2"
    "follows (de_store DE) held G' (dl_all_terms (dl_commit a)) (dl_all_graphs (dl_commit a)) (dl_quads (dl_commit a)) (pd_inner p2)"
    "delta_tier (pd_inner p2) = delta_tier (pd_inner p1)"
    "pd_disk p2 = pd_disk p1" "pd_gen p2 = pd_gen p1" "pd_seq p2 = pd_seq p1" using publish_follows by blast
  then have "disk_at DE held G' (dl_commit a) p2" using disk_at_cong [OF p1(2)] by blast
  then show ?thesis using p1 p2 by auto
qed

lemma write_step:
  assumes at: "disk_at DE held G a p" and fits: "write_fits DE a p rs (Some (s, Inr result))"
    and s: "follows (de_store DE) held G (foldl rec_terms (dl_all_terms a) rs) (foldl rec_graphs (dl_all_graphs a) rs)
      (fold rec_set rs (dl_quads a)) s"
  shows "\<exists>p'. after_write DE (set_inner s (set_active p (logged DE (pd_policy p) rs (active_wal p)))) stale result = Some (p', Inr result) \<and>
    disk_rep DE held (dl_after p p' rs a) p'"
proof -
  let ?p = "set_inner s (set_active p (logged DE (pd_policy p) rs (active_wal p)))" and ?b = "dl_write (pd_policy p) rs a"
  have log: "log_fits (de_lit DE) (dl_all_terms a) (dl_all_graphs a) rs" using fits by (simp add: write_fits_def)
  have at': "disk_at DE held G ?b ?p" by (rule write_at [OF at log s])
  have terms: "dl_all_terms ?b = foldl rec_terms (dl_all_terms a) rs" by (simp add: dl_write_def dl_all_terms_def)
  show ?thesis
  proof (cases "compaction_due ?p")
    case True
    then have can: "can_compact DE (dl_all_terms ?b) ?p"
      using fits unfolding terms by (simp add: write_fits_def compaction_due_def can_compact_def)
    then have "pd_gen p + 1 \<noteq> pd_gen p" by simp
    then show ?thesis
      using compact_publish_at [OF at' can, of result] True by (auto simp: after_write_def dl_after_def Let_def disk_rep_at)
  next
    case False
    have "disk_at DE held G ?b (set_snap None ?p)" using at' by (auto intro!: disk_at_cong [OF at'] simp: disk_at_def)
    then show ?thesis using at' False by (auto simp: after_write_def dl_after_def Let_def disk_rep_at)
  qed
qed

lemma apply_batch_step:
  assumes rep: "disk_rep DE held a p"
    and fits: "write_fits DE a p (map op_record ops) (batch_loop (apply_insert (de_store DE)) (apply_remove (de_store DE)) (pd_inner p) ops 0 0)"
  shows "\<exists>p'. disk_apply_batch DE p ops = Some (p', Inr (op_counts ops (dl_quads a))) \<and>
    disk_rep DE held (if ops = [] then a else dl_after p p' (map op_record ops) a) p'"
proof (cases "ops = []")
  case False
  let ?rs = "map op_record ops" and ?n = "op_counts ops (dl_quads a)"
  obtain G where at: "disk_at DE held G a p" using rep by (auto simp: disk_rep_at)
  have log: "log_fits (de_lit DE) (dl_all_terms a) (dl_all_graphs a) ?rs" using fits by (simp add: write_fits_def)
  obtain s where s: "batch_loop (apply_insert (de_store DE)) (apply_remove (de_store DE)) (pd_inner p) ops 0 0 = Some (s, Inr ?n)"
    "follows (de_store DE) held G (foldl rec_terms (dl_all_terms a) ?rs) (foldl rec_graphs (dl_all_graphs a) ?rs) (fold rec_set ?rs (dl_quads a)) s"
    using batch_follows [OF _ log, of G "dl_quads a" "pd_inner p" 0 0] at by (auto simp: disk_at_def)
  note append = append_logged(1) [OF at log_fits_ok [OF log]]
  show ?thesis
    using write_step [OF at fits [unfolded s(1)] s(2), of "\<not> delta_is_empty (delta_tier s)"] append s(1) False
    by (auto simp: disk_apply_batch_def on_mem_def)
qed (use rep in \<open>simp add: disk_apply_batch_def\<close>)

lemma extend_step:
  assumes rep: "disk_rep DE held a p"
    and fits: "write_fits DE a p (map InsertQuad qs) (extend_loop (apply_insert (de_store DE)) (pd_inner p) qs 0)"
  shows "\<exists>p'. disk_extend_boxed DE p qs = Some (p', Inr (fst (op_counts (map OpInsert qs) (dl_quads a)))) \<and>
    disk_rep DE held (if qs = [] then a else dl_after p p' (map InsertQuad qs) a) p'"
proof (cases "qs = []")
  case False
  let ?rs = "map InsertQuad qs" and ?n = "fst (op_counts (map OpInsert qs) (dl_quads a))"
  have rs: "map op_record (map OpInsert qs) = ?rs" by simp
  obtain G where at: "disk_at DE held G a p" using rep by (auto simp: disk_rep_at)
  have log: "log_fits (de_lit DE) (dl_all_terms a) (dl_all_graphs a) ?rs" using fits by (simp add: write_fits_def)
  obtain s where s: "extend_loop (apply_insert (de_store DE)) (pd_inner p) qs 0 = Some (s, Inr ?n)"
    "follows (de_store DE) held G (foldl rec_terms (dl_all_terms a) ?rs) (foldl rec_graphs (dl_all_graphs a) ?rs) (fold rec_set ?rs (dl_quads a)) s"
    using batch_follows [of G "dl_all_terms a" "dl_all_graphs a" "dl_quads a" "pd_inner p" "map OpInsert qs" 0 0] log at
      batch.extend_loop_batch [of "pd_inner p" qs 0 0] unfolding rs by (auto simp: disk_at_def split_beta)
  note append = append_logged(1) [OF at log_fits_ok [OF log]]
  show ?thesis
    using write_step [OF at fits [unfolded s(1)] s(2), of "\<not> delta_is_empty (delta_tier s)"] append s(1) False
    by (auto simp: disk_extend_boxed_def on_mem_def)
qed (use rep in \<open>simp add: disk_extend_boxed_def\<close>)

lemma insert_step:
  assumes rep: "disk_rep DE held a p" and fits: "write_fits DE a p [InsertQuad q] (apply_insert (de_store DE) (pd_inner p) q)"
  shows "\<exists>p'. disk_insert DE p q = Some (p', Inr (q \<notin> dl_quads a)) \<and> disk_rep DE held (dl_after p p' [InsertQuad q] a) p'"
proof -
  obtain G where at: "disk_at DE held G a p" using rep by (auto simp: disk_rep_at)
  have log: "log_fits (de_lit DE) (dl_all_terms a) (dl_all_graphs a) [InsertQuad q]" using fits by (simp add: write_fits_def)
  obtain s where s: "apply_insert (de_store DE) (pd_inner p) q = Some (s, Inr (q \<notin> dl_quads a))"
    "follows (de_store DE) held G (foldl rec_terms (dl_all_terms a) [InsertQuad q]) (foldl rec_graphs (dl_all_graphs a) [InsertQuad q])
      (fold rec_set [InsertQuad q] (dl_quads a)) s"
    using apply_insert_follows [of G "dl_all_terms a" "dl_all_graphs a" "dl_quads a" "pd_inner p" q] log at by (auto simp: disk_at_def)
  show ?thesis
    using write_step [OF at fits [unfolded s(1)] s(2)] append_logged(2) [OF at log_fits_ok [OF log]] s(1)
    by (auto simp: disk_insert_def on_mem_def)
qed

lemma remove_step:
  assumes rep: "disk_rep DE held a p" and fits: "write_fits DE a p [RemoveQuad q] (apply_remove (de_store DE) (pd_inner p) q)"
  shows "\<exists>p'. disk_remove DE p q = Some (p', Inr (q \<in> dl_quads a)) \<and> disk_rep DE held (dl_after p p' [RemoveQuad q] a) p'"
proof -
  obtain G where at: "disk_at DE held G a p" using rep by (auto simp: disk_rep_at)
  have log: "log_fits (de_lit DE) (dl_all_terms a) (dl_all_graphs a) [RemoveQuad q]" using fits by (simp add: write_fits_def)
  obtain s where s: "apply_remove (de_store DE) (pd_inner p) q = Some (s, Inr (q \<in> dl_quads a))"
    "follows (de_store DE) held G (foldl rec_terms (dl_all_terms a) [RemoveQuad q]) (foldl rec_graphs (dl_all_graphs a) [RemoveQuad q])
      (fold rec_set [RemoveQuad q] (dl_quads a)) s"
    using apply_remove_follows [of G "dl_all_terms a" "dl_all_graphs a" "dl_quads a" "pd_inner p" q] log at by (auto simp: disk_at_def)
  show ?thesis
    using write_step [OF at fits [unfolded s(1)] s(2)] append_logged(2) [OF at log_fits_ok [OF log]] s(1)
    by (auto simp: disk_remove_def on_mem_def)
qed

lemma register_step:
  assumes rep: "disk_rep DE held a p" and log: "log_fits (de_lit DE) (dl_all_terms a) (dl_all_graphs a) [RegisterGraph (GraphNamed n)]"
  shows "\<exists>p'. disk_register_named_graph DE p (GraphNamed n) = Some (p', Inr ()) \<and>
    disk_rep DE held (dl_write (pd_policy p) [RegisterGraph (GraphNamed n)] a) p'"
proof -
  obtain G where at: "disk_at DE held G a p" using rep by (auto simp: disk_rep_at)
  obtain s where s: "apply_register_graph (pd_inner p) (GraphNamed n) = Some (s, Inr ())"
    "follows (de_store DE) held G (foldl rec_terms (dl_all_terms a) [RegisterGraph (GraphNamed n)])
      (foldl rec_graphs (dl_all_graphs a) [RegisterGraph (GraphNamed n) :: 'l wal_record]) (fold rec_set [RegisterGraph (GraphNamed n)] (dl_quads a)) s"
    using apply_register_follows [of G "dl_all_terms a" "dl_all_graphs a" "dl_quads a" "pd_inner p" "GraphNamed n"] log at
    by (auto simp: disk_at_def)
  show ?thesis
    using write_at [OF at log s(2)] append_logged(2) [OF at log_fits_ok [OF log]] s(1)
    by (auto simp: disk_register_named_graph_def on_mem_def disk_rep_at)
qed

lemma compact_step:
  assumes "disk_rep DE held a p" "can_compact DE (dl_all_terms a) p"
  shows "\<exists>p'. disk_compact DE p = Some (p', Inr ()) \<and> disk_rep DE held (dl_commit a) p'"
  using assms compact_publish_at [of _ a p "()"] unfolding disk_compact_def disk_rep_at by blast

lemma flush_step:
  assumes "disk_rep DE held a p"
  shows "disk_rep DE held (dl_flush a) (disk_flush_wal p)"
proof -
  obtain G where at: "disk_at DE held G a p" using assms by (auto simp: disk_rep_at)
  then obtain f where f: "active_wal p = f" "wal_inv (de_crc DE) (de_lit DE) f (dl_log a) (dl_synced a)"
    using active_wal_get by (auto simp: disk_at_def)
  have "disk_at DE held G (dl_flush a) (set_inner (pd_inner p) (set_active p (wal_sync f)))"
    by (rule disk_at_active [OF at])
      (use at wal_inv_sync [OF f(2)] in \<open>simp_all add: dl_flush_def disk_at_def dl_all_terms_def dl_all_graphs_def dl_quads_def\<close>)
  moreover have "set_inner (pd_inner p) (set_active p (wal_sync f)) = set_active p (wal_sync f)" by (simp add: set_inner_def set_active_def)
  ultimately show ?thesis by (auto simp: disk_flush_wal_def f(1) disk_rep_at)
qed

lemma query_step:
  assumes rep: "disk_rep DE held a p"
    and pats: "pattern_ok (de_lit DE) (dict (pd_inner p)) (dl_all_terms a) sub"
      "pattern_ok (de_lit DE) (dict (pd_inner p)) (dl_all_terms a) (map_option NamedNode pred)"
      "pattern_ok (de_lit DE) (dict (pd_inner p)) (dl_all_terms a) ob"
    and q: "quads_for_pattern (de_store DE) (pd_inner p) sub pred ob gname = Some (s, Inr out)"
  shows "disk_rep DE held a (set_inner s p)"
proof -
  obtain G where at: "disk_at DE held G a p" using rep by (auto simp: disk_rep_at)
  then have f: "follows (de_store DE) held G (dl_all_terms a) (dl_all_graphs a) (dl_quads a) (pd_inner p)" by (simp add: disk_at_def)
  have "store_rep (de_store DE) held (dl_all_terms a) G s \<and> store_set (dl_all_terms a) G s = dl_quads a \<and>
      graph_tables (dict s) = graph_tables (dict (pd_inner p))"
    using quads_for_pattern_ok [of "dl_all_terms a" G "pd_inner p" sub pred ob gname] pats q f by (auto simp: follows_def)
  then have "follows (de_store DE) held G (dl_all_terms a) (dl_all_graphs a) (dl_quads a) s"
    using f by (auto simp: follows_def graph_tables_def)
  then have "disk_at DE held G a (set_inner s p)" by (intro disk_at_cong [OF at]) simp_all
  then show ?thesis by (auto simp: disk_rep_at)
qed

end

section \<open>Histories\<close>

text \<open>
  Files that do not matter: those of the generation a commit was preparing, temporary files, and obsolete files
  not yet removed. A commit that is interrupted before it opens the new log segment, and one that is interrupted
  while it removes obsolete files, leave a disk that differs in such files only.
\<close>

definition spare_name :: "u64 \<Rightarrow> u64 \<Rightarrow> bytes \<Rightarrow> bool" where
  "spare_name g q name \<longleftrightarrow> is_orphan g q name \<or>
     name \<in> {snapshot_path (g + 1), tmp_sibling (snapshot_path (g + 1)), dict_path (g + 1), tmp_sibling (dict_path (g + 1)),
             tmp_sibling MANIFEST_FILE_NAME}"

definition disk_like :: "('l, 'v, 'c, 'r) disk_store \<Rightarrow> disk \<Rightarrow> bool" where
  "disk_like p dk \<longleftrightarrow> durable dk = durable (pd_disk p) \<and> finite (dom (files dk)) \<and>
     (\<forall>name. \<not> spare_name (pd_gen p) (pd_seq p) name \<longrightarrow> files dk name = files (pd_disk p) name)"

text \<open>The stores that operations, crashes and reopening produce, with the meaning of their files.\<close>

inductive disk_reach :: "('l, 'v, 'c, 'r) disk_env \<Rightarrow> ('l, 'v, 'c, 'r) disk_store \<Rightarrow> 'l durable_log \<Rightarrow> bool" for DE where
  created: "files dk = Map.empty \<Longrightarrow> disk_open DE dk = Some (Inr p) \<Longrightarrow> disk_reach DE p dl_new"
| inserted: "disk_reach DE p a \<Longrightarrow> write_fits DE a p [InsertQuad q] (apply_insert (de_store DE) (pd_inner p) q) \<Longrightarrow>
    disk_insert DE p q = Some (p', Inr b) \<Longrightarrow> disk_reach DE p' (dl_after p p' [InsertQuad q] a)"
| removed: "disk_reach DE p a \<Longrightarrow> write_fits DE a p [RemoveQuad q] (apply_remove (de_store DE) (pd_inner p) q) \<Longrightarrow>
    disk_remove DE p q = Some (p', Inr b) \<Longrightarrow> disk_reach DE p' (dl_after p p' [RemoveQuad q] a)"
| registered: "disk_reach DE p a \<Longrightarrow> log_fits (de_lit DE) (dl_all_terms a) (dl_all_graphs a) [RegisterGraph (GraphNamed n)] \<Longrightarrow>
    disk_register_named_graph DE p (GraphNamed n) = Some (p', Inr ()) \<Longrightarrow>
    disk_reach DE p' (dl_write (pd_policy p) [RegisterGraph (GraphNamed n)] a)"
| extended: "disk_reach DE p a \<Longrightarrow> write_fits DE a p (map InsertQuad qs) (extend_loop (apply_insert (de_store DE)) (pd_inner p) qs 0) \<Longrightarrow>
    qs \<noteq> [] \<Longrightarrow> disk_extend_boxed DE p qs = Some (p', Inr n) \<Longrightarrow> disk_reach DE p' (dl_after p p' (map InsertQuad qs) a)"
| batched: "disk_reach DE p a \<Longrightarrow>
    write_fits DE a p (map op_record ops) (batch_loop (apply_insert (de_store DE)) (apply_remove (de_store DE)) (pd_inner p) ops 0 0) \<Longrightarrow>
    ops \<noteq> [] \<Longrightarrow> disk_apply_batch DE p ops = Some (p', Inr c) \<Longrightarrow> disk_reach DE p' (dl_after p p' (map op_record ops) a)"
| compacted: "disk_reach DE p a \<Longrightarrow> can_compact DE (dl_all_terms a) p \<Longrightarrow> disk_compact DE p = Some (p', Inr ()) \<Longrightarrow>
    disk_reach DE p' (dl_commit a)"
| flushed: "disk_reach DE p a \<Longrightarrow> disk_reach DE (disk_flush_wal p) (dl_flush a)"
| policy: "disk_reach DE p a \<Longrightarrow> disk_reach DE (disk_set_sync_policy p pol) a"
| threshold: "disk_reach DE p a \<Longrightarrow> disk_reach DE (disk_set_auto_compact_threshold p n) a"
| queried: "disk_reach DE p a \<Longrightarrow> pattern_ok (de_lit DE) (dict (pd_inner p)) (dl_all_terms a) sub \<Longrightarrow>
    pattern_ok (de_lit DE) (dict (pd_inner p)) (dl_all_terms a) (map_option NamedNode pred) \<Longrightarrow>
    pattern_ok (de_lit DE) (dict (pd_inner p)) (dl_all_terms a) ob \<Longrightarrow>
    quads_for_pattern (de_store DE) (pd_inner p) sub pred ob gname = Some (s, Inr out) \<Longrightarrow> disk_reach DE (set_inner s p) a"
| crashed: "disk_reach DE p a \<Longrightarrow> disk_like p dk0 \<Longrightarrow> disk_crash dk0 dk \<Longrightarrow> disk_open DE dk = Some (Inr p') \<Longrightarrow>
    disk_reach DE p' (dl_recover (kept_records DE (dl_log a) (files dk (wal_segment_path (pd_seq p)))) a)"

lemma wal_name_orphan:
  assumes "parse_wal_seq name = Some q'"
  shows "is_orphan g q name \<longleftrightarrow> q' < q"
proof -
  obtain r where name: "name = ascii ''nova.wal.'' @ r"
    using assms by (auto simp: parse_wal_seq_def strip_prefix_def split: bind_splits if_splits) (metis append_take_drop_id)
  have "parse_snapshot_gen name = None" "parse_dict_gen name = None" "parse_ring_image name = None" "parse_ring_remap name = None"
    unfolding name by (simp_all add: parse_snapshot_gen_def parse_dict_gen_def parse_ring_image_def parse_ring_remap_def strip_prefix_def ascii_def)
  then show ?thesis using assms by (simp add: is_orphan_def)
qed

lemma spare_segments: "parse_wal_seq name = Some q' \<Longrightarrow> q \<le> q' \<Longrightarrow> \<not> spare_name g q name"
  by (auto simp: spare_name_def wal_name_orphan)

lemma kept_names [simp]:
  "\<not> spare_name g q MANIFEST_FILE_NAME" "\<not> spare_name g q (snapshot_path g)" "\<not> spare_name g q (dict_path g)"
  "\<not> spare_name g q (wal_segment_path q)"
  by (simp_all add: spare_name_def)

context disk_laws
begin

lemma disk_like_at:
  assumes at: "disk_at DE held G a p" and like: "disk_like p dk"
  shows "disk_at DE held G a (p\<lparr>pd_disk := dk\<rparr>)"
proof -
  let ?g = "pd_gen p" and ?q = "pd_seq p"
  have same: "files dk name = files (pd_disk p) name" if "\<not> spare_name ?g ?q name" for name using like that by (simp add: disk_like_def)
  have fs: "disk_files DE held G a ?g ?q (files (pd_disk p))" using at by (simp add: disk_at_def)
  have "only_segment ?q (files dk)"
    unfolding only_segment_def
  proof (intro ballI allI impI)
    fix name q' assume name: "name \<in> dom (files dk)" "parse_wal_seq name = Some q'" "?q \<le> q'"
    then have "name \<in> dom (files (pd_disk p))" using same spare_segments [OF name(2,3)] by (simp add: domIff)
    then show "name = wal_segment_path ?q" using fs name(2,3) unfolding disk_files_def only_segment_def by blast
  qed
  moreover have "manifest_is (de_crc DE) (files dk) \<lparr>snapshot_gen = ?g, wal_seq = ?q\<rparr>"
    using fs manifest_is_cong [of "files dk" "files (pd_disk p)"] same by (simp add: disk_files_def)
  moreover have "generation_rep DE held G a ?g (files dk)"
    using fs by (simp add: disk_files_def generation_rep_cong [of "files dk" ?g "files (pd_disk p)" a a] same)
  ultimately have "disk_files DE held G a ?g ?q (files dk)" using like by (simp add: disk_files_def disk_like_def)
  moreover have "get_wal (wal_segment_path ?q) dk = get_wal (wal_segment_path ?q) (pd_disk p)"
    using like same by (simp add: get_wal_def disk_like_def)
  ultimately show ?thesis using at by (simp add: disk_at_def)
qed

lemma crash_step:
  assumes "disk_rep DE held a p" "disk_like p dk0" "disk_crash dk0 dk"
  shows "\<exists>k p'. k = kept_records DE (dl_log a) (files dk (wal_segment_path (pd_seq p))) \<and> dl_synced a \<le> k \<and> k \<le> length (dl_log a) \<and>
    (files dk = files dk0 \<longrightarrow> k = length (dl_log a)) \<and> disk_open DE dk = Some (Inr p') \<and> disk_rep DE held (dl_recover k a) p'"
proof -
  have "disk_rep DE held a (p\<lparr>pd_disk := dk0\<rparr>)" using assms(1,2) disk_like_at unfolding disk_rep_at by blast
  from crash_open [OF this] assms(3) show ?thesis by auto
qed

text \<open>Every operation keeps the invariant.\<close>

lemma reach_rep: "disk_reach DE p a \<Longrightarrow> disk_rep DE held a p"
proof (induction rule: disk_reach.induct)
  case (created dk p)
  then show ?case using open_new by fastforce
next
  case (inserted p a q p' b)
  then show ?case using insert_step by fastforce
next
  case (removed p a q p' b)
  then show ?case using remove_step by fastforce
next
  case (registered p a n p')
  then show ?case using register_step by fastforce
next
  case (extended p a qs p' n)
  then show ?case using extend_step [of a p qs] by auto
next
  case (batched p a ops p' c)
  then show ?case using apply_batch_step [of a p ops] by auto
next
  case (compacted p a p')
  then show ?case using compact_step by fastforce
next
  case (flushed p a)
  then show ?case using flush_step by blast
next
  case (policy p a pol)
  then show ?case by (simp add: disk_set_sync_policy_def disk_rep_def)
next
  case (threshold p a n)
  then show ?case by (simp add: disk_set_auto_compact_threshold_def disk_rep_def)
next
  case (queried p a sub pred ob gname s out)
  then show ?case using query_step by blast
next
  case (crashed p a dk0 dk p')
  then show ?case using crash_step [OF crashed.IH crashed.hyps(2,3)] by auto
qed

end

section \<open>A commit interrupted after it opened the new segment\<close>

lemma replay_empty:
  "replay crc api (Some \<lparr>wal_file.contents = [], synced = n\<rparr>) = ([], Some \<lparr>wal_file.contents = [], synced = n\<rparr>)"
  by (simp add: replay_def) (subst replay_loop.simps, simp add: fill_or_eof_def)

text \<open>The disk a commit leaves when it stops between opening the new segment and saving the manifest.\<close>

definition rotated :: "('l, 'v, 'c, 'r) disk_store \<Rightarrow> disk \<Rightarrow> disk" where
  "rotated p dk = (let seg = wal_segment_path (pd_seq p + 1) in put_wal seg (create_or_open (get_wal seg dk)) dk)"

lemma cleanup_segment:
  "cleanup_orphans rm g q dir (wal_segment_path q') = (if q' < q \<and> rm (wal_segment_path q') then None else dir (wal_segment_path q'))"
  by (simp add: cleanup_orphans_def)

context disk_laws
begin

lemma replay_whole:
  assumes "wal_inv (de_crc DE) (de_lit DE) f rs d"
  shows "\<exists>f'. replay (de_crc DE) (de_lit DE) (Some f) = (rs, Some f') \<and> wal_inv (de_crc DE) (de_lit DE) f' rs d"
proof -
  let ?k = "whole_records (de_crc DE) (de_lit DE) (length (wal_file.contents f)) rs"
  have n: "wal_file.synced f \<le> length (wal_file.contents f)" using assms unfolding wal_inv_def by blast
  have "?k = length rs"
    using whole_records_ge [of "de_crc DE" "de_lit DE" "length rs" rs "length (wal_file.contents f)"] whole_records_le [of "de_crc DE" "de_lit DE" "length (wal_file.contents f)" rs]
      assms by (simp add: wal_inv_def)
  then show ?thesis using wal_crash_replay [OF laws assms n] by (cases f) auto
qed

lemma rotated_reopened:
  assumes rep: "disk_rep DE held a p" and like: "disk_like p dk0" and seq: "pd_seq p \<noteq> - 1"
    and removed: "de_removed DE (wal_segment_path (pd_seq p))"
  shows "\<exists>p' p''. disk_open DE (rotated p dk0) = Some (Inr p') \<and> quads_of (de_store DE) (pd_inner p') = dl_quads a \<and>
    disk_open DE (pd_disk p') = Some (Inr p'') \<and> quads_of (de_store DE) (pd_inner p'') = dl_base a"
proof -
  let ?g = "pd_gen p" and ?q = "pd_seq p" and ?SE = "de_store DE" and ?m = "\<lparr>snapshot_gen = pd_gen p, wal_seq = pd_seq p\<rparr>"
  let ?s = "wal_segment_path (pd_seq p)" and ?n = "wal_segment_path (pd_seq p + 1)" and ?e = "\<lparr>wal_file.contents = [], synced = 0\<rparr>"
  obtain G where at: "disk_at DE held G a (p\<lparr>pd_disk := dk0\<rparr>)" using rep disk_like_at [OF _ like] by (auto simp: disk_rep_at)
  then obtain f where f: "disk_files DE held G a ?g ?q (files dk0)" "get_wal ?s dk0 = Some f"
    "wal_inv (de_crc DE) (de_lit DE) f (dl_log a) (dl_synced a)" "log_fits (de_lit DE) (dl_terms a) (dl_graphs a) (dl_log a)"
    by (auto simp: disk_at_def)
  obtain s0 where s0: "load_generation DE ?g (files dk0) = Some (Inr s0)" "follows ?SE held G (dl_terms a) (dl_graphs a) (dl_base a) s0"
    using f(1) by (auto simp: disk_files_def generation_rep_def)
  obtain s where s: "fold_opt (replay_record ?SE) (dl_log a) s0 = Some s" "follows ?SE held G (dl_all_terms a) (dl_all_graphs a) (dl_quads a) s"
    using replay_records_follows [OF s0(2) f(4)] by (auto simp: dl_all_terms_def dl_all_graphs_def dl_quads_def)
  obtain f' where f': "replay (de_crc DE) (de_lit DE) (Some f) = (dl_log a, Some f')" using replay_whole [OF f(3)] by blast
  have lt: "?q < ?q + 1" by (rule word_less_Suc [OF seq])
  have only: "only_segment ?q (files dk0)" "finite (dom (files dk0))" "manifest_is (de_crc DE) (files dk0) ?m"
    using f(1) by (simp_all add: disk_files_def)
  have dk: "rotated p dk0 = put_wal ?n ?e dk0"
    using next_segment [OF only(1) seq] by (simp add: rotated_def get_wal_def Let_def)
  have in0: "?s \<in> dom (files dk0)" using f(2) by (auto simp: get_wal_def)
  have segs: "{(q', name). name \<in> dom fs \<and> parse_wal_seq name = Some q' \<and> q' \<ge> ?q} = {(q', name) \<in> {(?q, ?s), (?q + 1, ?n)}. name \<in> dom fs}"
    if "dom fs \<subseteq> insert ?n (dom (files dk0))" for fs
  proof -
    have "name = ?s \<or> name = ?n" if "name \<in> dom fs" "parse_wal_seq name = Some q'" "?q \<le> q'" for name q'
      using that \<open>dom fs \<subseteq> insert ?n (dom (files dk0))\<close> only(1) unfolding only_segment_def by blast
    then show ?thesis using lt by fastforce
  qed
  have kept: "manifest_load (de_crc DE) fs = Inr ?m" "load_generation DE ?g fs = Some (Inr s0)"
    if "\<And>name. name \<in> {MANIFEST_FILE_NAME, snapshot_path ?g, dict_path ?g} \<Longrightarrow> fs name = files dk0 name" for fs
    using that manifest_load_is [of "de_crc DE" fs ?m] manifest_is_cong [of fs "files dk0"] only(3) s0(1)
      load_generation_cong [of fs ?g "files dk0" DE] by simp_all
  let ?dk1 = "put_wal ?n ?e (put_wal ?s f' (rotated p dk0))"
  have open1: "\<exists>p'. disk_open DE (rotated p dk0) = Some (Inr p') \<and>
      follows ?SE held G (dl_all_terms a) (dl_all_graphs a) (dl_quads a) (pd_inner p') \<and> pd_gen p' = ?g \<and> pd_seq p' = ?q + 1 \<and>
      pd_disk p' = ?dk1\<lparr>files := cleanup_orphans (de_removed DE) ?g (?q + 1) (files ?dk1)\<rparr>"
  proof (rule open_compute [OF kept])
    show "wal_segments DE ?q (files (rotated p dk0)) = [(?q, ?s), (?q + 1, ?n)]"
    proof (rule wal_segments_are)
      show "{(q', name). name \<in> dom (files (rotated p dk0)) \<and> parse_wal_seq name = Some q' \<and> q' \<ge> ?q} = set [(?q, ?s), (?q + 1, ?n)]"
        using segs [of "files (rotated p dk0)"] in0 by (auto simp: dk)
    qed (use only(2) lt in \<open>auto simp: dk\<close>)
    show "fold_opt (replay_segment DE) [(?q, ?s), (?q + 1, ?n)] (s0, rotated p dk0) = Some (s, ?dk1)"
      using f(2) f' s(1) by (simp add: replay_segment_def dk replay_empty)
  qed (use s(2) in \<open>auto simp: dk\<close>)
  then obtain p' where p': "disk_open DE (rotated p dk0) = Some (Inr p')"
    "follows ?SE held G (dl_all_terms a) (dl_all_graphs a) (dl_quads a) (pd_inner p')"
    "pd_disk p' = ?dk1\<lparr>files := cleanup_orphans (de_removed DE) ?g (?q + 1) (files ?dk1)\<rparr>" by blast
  have dom2: "dom (files (pd_disk p')) \<subseteq> insert ?n (dom (files dk0))" "?s \<notin> dom (files (pd_disk p'))" "?n \<in> dom (files (pd_disk p'))"
    using cleanup_dom [of "de_removed DE" ?g "?q + 1" "files ?dk1"] in0 removed lt p'(3) by (auto simp: dk cleanup_segment domIff)
  have wal2: "get_wal ?n (pd_disk p') = Some ?e" by (simp add: p'(3) get_wal_def put_wal_def)
  have "\<exists>p''. disk_open DE (pd_disk p') = Some (Inr p'') \<and>
      follows ?SE held G (dl_terms a) (dl_graphs a) (dl_base a) (pd_inner p'') \<and> pd_gen p'' = ?g \<and> pd_seq p'' = ?q + 1 \<and>
      pd_disk p'' = (pd_disk p')\<lparr>files := cleanup_orphans (de_removed DE) ?g (?q + 1) (files (pd_disk p'))\<rparr>"
  proof (rule open_compute [OF kept])
    show "wal_segments DE ?q (files (pd_disk p')) = [(?q + 1, ?n)]"
      by (rule wal_segments_are) (use segs [OF dom2(1)] dom2 only(2) in \<open>auto intro: finite_subset\<close>)
    show "fold_opt (replay_segment DE) [(?q + 1, ?n)] (s0, pd_disk p') = Some (s0, pd_disk p')"
      using wal2 by (simp add: replay_segment_def replay_empty put_get_wal)
  qed (use s0(2) wal2 p'(3) in \<open>auto simp: dk\<close>)
  then show ?thesis using p'(1,2) quads_of_store_set unfolding follows_def by blast
qed

end

section \<open>Bulk loads and backups\<close>

definition load_writable :: "('l, 'v, 'c, 'r) disk_env \<Rightarrow> ('l, 'v, 'c, 'r) disk_store \<Rightarrow> 'l quad list \<Rightarrow> bool" where
  "load_writable DE p qs \<longleftrightarrow> pd_gen p \<noteq> - 1 \<and> pd_seq p \<noteq> - 1 \<and>
     (case ring_triples (de_store DE) (pd_inner p) of
        None \<Rightarrow> False
      | Some m \<Rightarrow>
          (case bulk_loop (de_store DE) (pd_inner p) m 0 qs of
             Some (s, Inr _) \<Rightarrow> dict_writable DE (dict s)
           | _ \<Rightarrow> False))"

context disk_laws
begin

text \<open>A bulk load starts a new segment without the records of the buffer, which it does not merge.\<close>

lemma bulk_load_at:
  assumes rep: "disk_rep DE held a p" and fits: "load_fits (de_store DE) held (dl_all_terms a) (pd_inner p) qs" "load_writable DE p qs"
  shows "\<exists>p'. disk_bulk_load DE p qs = Some (p', Inr (length qs)) \<and>
    quads_of (de_store DE) (pd_inner p') = dl_quads a \<union> {q \<in> set qs. \<not> tombstoned (de_store DE) (pd_inner p) q} \<and>
    (\<forall>dk. disk_crash (pd_disk p') dk \<longrightarrow> (\<exists>p''. disk_open DE dk = Some (Inr p'') \<and>
      quads_of (de_store DE) (pd_inner p'') = quads_of (de_store DE) ((pd_inner p)\<lparr>delta_tier := delta_new\<rparr>) \<union> set qs))"
proof -
  let ?SE = "de_store DE" and ?s = "pd_inner p" and ?ts = "foldl quad_spec (dl_all_terms a) qs"
  obtain G where at: "disk_at DE held G a p" using rep by (auto simp: disk_rep_at)
  then have s: "store_rep ?SE held (dl_all_terms a) G ?s" "store_set (dl_all_terms a) G ?s = dl_quads a"
    and old: "only_segment (pd_seq p) (files (pd_disk p))" "finite (dom (files (pd_disk p)))"
    by (simp_all add: disk_at_def follows_def disk_files_def)
  obtain m s1 m1 gs d where l: "ring_triples ?SE ?s = Some m" "bulk_loop ?SE ?s m 0 qs = Some (s1, Inr (m1, length qs))"
    "build_graphs_from_triples ?SE m1 = Some gs" "round_trip ?SE gs = Some (Inr gs)"
    "dict_compact (st_dict ?SE) (dict s1) = Some (d, Inr ())" "delta_tier s1 = delta_tier ?s"
    "store_rep ?SE held ?ts (\<lambda>g. set (or_default m1 g)) (s1\<lparr>dict := d, graphs := gs\<rparr>)"
    "store_set ?ts (\<lambda>g. set (or_default m1 g)) (s1\<lparr>dict := d, graphs := gs\<rparr>) = store_set (dl_all_terms a) G ?s \<union> {q \<in> set qs. \<not> tombstoned ?SE ?s q}"
    "store_set ?ts (\<lambda>g. set (or_default m1 g)) (s1\<lparr>dict := d, graphs := gs, delta_tier := delta_new\<rparr>) =
      store_set (dl_all_terms a) G (?s\<lparr>delta_tier := delta_new\<rparr>) \<union> set qs"
    by (rule load_parts [OF fits(1) s(1)])
  let ?G = "\<lambda>g. set (or_default m1 g)" and ?p1 = "set_inner (s1\<lparr>dict := d\<rparr>) p" and ?names = "dom (graph_to_id d)"
  let ?Q = "store_set (dl_all_terms a) G (?s\<lparr>delta_tier := delta_new\<rparr>) \<union> set qs"
  let ?Q' = "dl_quads a \<union> {q \<in> set qs. \<not> tombstoned ?SE ?s q}"
  let ?b = "\<lparr>dl_terms = ?ts, dl_graphs = ?names, dl_base = ?Q, dl_log = [], dl_synced = 0\<rparr>"
  have w: "dict_writable DE (dict s1)" "pd_gen p \<noteq> - 1" "pd_seq p \<noteq> - 1" using fits(2) l(1,2) by (simp_all add: load_writable_def)
  obtain snap ib where snap: "to_snapshot (de_codec DE) d = Some snap" "dc_serialize (de_codec DE) (fst (from_full_snapshot snap)) = Inr ib"
    "graphs_fit (de_codec DE) d" by (rule dict_writableE [OF w(1) l(5)])
  note tables = dict_compact_tables [OF l(5)]
  have d: "dict_rep (st_dict ?SE) held ?ts d" "graphs_ok d" using store_repD(1,2) [OF l(7)] by simp_all
  have just: "just_compacted (st_dict ?SE) ?ts d"
  proof -
    have "store_rep ?SE held ?ts G s1"
      using bulk_loop_ok [OF s(1), of qs m 0] fits(1) l(2) by (auto simp: load_fits_def)
    then show ?thesis using compact_just(2) [OF store_repD(1) _ _ l(5)] fits(1) by (simp add: load_fits_def terms_compactable_def)
  qed
  have empty: "follows ?SE held ?G ?ts ?names ?Q ((pd_inner ?p1)\<lparr>graphs := gs, delta_tier := delta_new\<rparr>)"
    using store_rep_clear [OF l(7)] l(9) by (simp add: follows_def)
  have full: "follows ?SE held ?G ?ts ?names ?Q' (s1\<lparr>dict := d, graphs := gs\<rparr>)" using l(7,8) s(2) by (simp add: follows_def)
  obtain p2 d' where p2: "disk_commit_compaction DE ?p1 gs False = Some (p2, Inr ())"
    "pd_inner p2 = (pd_inner ?p1)\<lparr>dict := d', graphs := gs, delta_tier := delta_tier (pd_inner ?p1)\<rparr>"
    "dict_rep (st_dict ?SE) held ?ts d'" "graph_tables d' = graph_tables d"
    "disk_files DE held ?G ?b (pd_gen p2) (pd_seq p2) (files (pd_disk p2))"
    "get_wal (wal_segment_path (pd_seq p2)) (pd_disk p2) = Some \<lparr>wal_file.contents = [], synced = 0\<rparr>"
    using commit_at [of ?p1 gs ?ts snap ib ?G ?names ?Q False] old w(2,3) l(4) d just snap empty by auto
  have "follows ?SE held ?G ?ts ?names ?Q' (pd_inner p2)"
    by (rule follows_dict [OF full p2(3)]) (simp_all add: p2(2) p2(4))
  then obtain p' where p': "disk_publish DE p2 = Some p'" "follows ?SE held ?G ?ts ?names ?Q' (pd_inner p')"
    "pd_disk p' = pd_disk p2" "pd_gen p' = pd_gen p2" "pd_seq p' = pd_seq p2" using publish_follows by blast
  have "follows ?SE held ?G ?ts ?names ?Q ((pd_inner p2)\<lparr>delta_tier := delta_new\<rparr>)"
    by (rule follows_dict [OF empty p2(3)]) (simp_all add: p2(2) p2(4))
  then have "disk_at DE held ?G ?b (set_inner ((pd_inner p2)\<lparr>delta_tier := delta_new\<rparr>) p2)"
    using p2(5,6) by (simp add: disk_at_def wal_inv_def dl_all_terms_def dl_all_graphs_def dl_quads_def)
  then have rep2: "disk_rep DE held ?b (set_inner ((pd_inner p2)\<lparr>delta_tier := delta_new\<rparr>) p2)" by (auto simp: disk_rep_at)
  have Q: "?Q = quads_of ?SE (?s\<lparr>delta_tier := delta_new\<rparr>) \<union> set qs" using quads_of_store_set [OF store_rep_clear [OF s(1)]] by simp
  have "\<exists>p''. disk_open DE dk = Some (Inr p'') \<and> quads_of ?SE (pd_inner p'') = ?Q" if crash: "disk_crash (pd_disk p') dk" for dk
  proof -
    obtain k p'' where p'': "k \<le> length (dl_log ?b)" "disk_open DE dk = Some (Inr p'')" "disk_rep DE held (dl_recover k ?b) p''"
      using crash_open [OF rep2, of dk] crash p'(3) by auto
    have "dl_quads (dl_recover k ?b) = ?Q" by (simp add: dl_recover_def dl_quads_def)
    then show ?thesis using p''(2) disk_rep_quads [OF p''(3)] by auto
  qed
  moreover have "quads_of ?SE (pd_inner p') = ?Q'" using quads_of_store_set p'(2) unfolding follows_def by blast
  moreover have "disk_bulk_load DE p qs = Some (p', Inr (length qs))"
    using l(1-3,5) p2(1) p'(1) by (simp add: disk_bulk_load_def Let_def on_mem_def on_dict_def set_inner_def)
  ultimately show ?thesis unfolding Q by blast
qed

lemma generation_new: "generation_rep DE held G a 0 dir = generation_rep DE held G a 0 dir'"
  by (simp add: generation_rep_def load_generation_def)

lemma backup_open:
  assumes "disk_rep DE held a p"
  shows "\<exists>p'. disk_open DE \<lparr>files = snd (disk_backup p Map.empty), durable = (\<lambda>_. 0)\<rparr> = Some (Inr p') \<and>
    disk_rep DE held (a\<lparr>dl_synced := 0\<rparr>) p'"
proof -
  let ?g = "pd_gen p" and ?q = "pd_seq p" and ?seg = "wal_segment_path (pd_seq p)" and ?a = "a\<lparr>dl_synced := 0\<rparr>"
  define dir dest where "dir = files (pd_disk (disk_flush_wal p))" and "dest = snd (disk_backup p Map.empty)"
  obtain G f where f: "disk_files DE held G (dl_flush a) ?g ?q dir" "get_wal ?seg (pd_disk (disk_flush_wal p)) = Some f"
    "wal_inv (de_crc DE) (de_lit DE) f (dl_log a) (length (dl_log a))" "log_fits (de_lit DE) (dl_terms a) (dl_graphs a) (dl_log a)"
    using flush_step [OF assms] by (auto simp: disk_rep_at disk_at_def dir_def disk_flush_wal_def dl_flush_def)
  have dest: "dest name = (if name \<in> {MANIFEST_FILE_NAME, ?seg} \<union> (if ?g > 0 then {snapshot_path ?g, dict_path ?g} else {}) then dir name else None)" for name
    by (simp add: dest_def dir_def disk_backup_def Let_def copy_file_def disk_flush_wal_def split: option.split)
  have "dom dest \<subseteq> dom dir" by (auto simp: dest dom_def split: if_splits)
  moreover have "manifest_is (de_crc DE) dest m = manifest_is (de_crc DE) dir m" for m by (rule manifest_is_cong) (simp add: dest)
  moreover have "generation_rep DE held G ?a ?g dest = generation_rep DE held G (dl_flush a) ?g dir"
  proof (cases "?g = 0")
    case True
    have "generation_rep DE held G ?a 0 dest = generation_rep DE held G (dl_flush a) 0 dest"
      by (rule generation_rep_cong) (simp_all add: dl_flush_def)
    then show ?thesis using True generation_new [of G "dl_flush a" dest dir] by simp
  next
    case False
    then have "?g > 0" by (simp add: word_neq_0_conv)
    then show ?thesis by (intro generation_rep_cong) (simp_all add: dest dl_flush_def)
  qed
  ultimately have fs: "disk_files DE held G ?a ?g ?q dest"
    using f(1) only_segment_subset [of ?q dir dest] by (auto simp: disk_files_def intro: finite_subset)
  have c: "dest ?seg = Some (wal_file.contents f)" using f(2) by (auto simp: dest dir_def get_wal_def)
  have "wal_inv (de_crc DE) (de_lit DE) \<lparr>wal_file.contents = wal_file.contents f, synced = 0\<rparr> (dl_log ?a) (dl_synced ?a)"
    using f(3) by (simp add: wal_inv_def)
  from replay_whole [OF this] show ?thesis
    using open_ok [of G ?a ?g ?q "\<lparr>files = dest, durable = \<lambda>_. 0\<rparr>" "\<lparr>wal_file.contents = wal_file.contents f, synced = 0\<rparr>"] fs c f(4)
    by (auto simp: get_wal_def dest_def)
qed

end

end
