(* ===== verification/StoreHistory.thy ===== *)
theory StoreHistory
  imports StoreRecovery "HOL-Library.List_Lexorder"
begin

text \<open>
  What the histories of a persistent store guarantee, with an environment in which every parameter is a
  concrete function: snapshots are serialised as lists of numbers, the checksum is constant, directories list
  their entries in lexicographic order, and every removal succeeds.
\<close>

section \<open>An environment\<close>

definition trie_lists :: "(bool list, nat \<times> nat list) louds_trie \<Rightarrow> nat list list" where
  "trie_lists t =
     [[tb_num_ones (lt_t t), lt_d1_start t, lt_d2_start t, lt_l_len t, fst (lt_l0 t), fst (lt_l1 t), fst (lt_l2 t)],
      map of_bool (tb_rs (lt_t t)), snd (lt_l0 t), snd (lt_l1 t), snd (lt_l2 t)]"

fun tries_of_lists :: "nat \<Rightarrow> nat list list \<Rightarrow> ((bool list, nat \<times> nat list) louds_trie list \<times> nat list list) option" where
  "tries_of_lists 0 ls = Some ([], ls)"
| "tries_of_lists (Suc n) ([ones, d1, d2, len, w0, w1, w2] # bits # l0 # l1 # l2 # ls) =
     do {(ts, ls) \<leftarrow> tries_of_lists n ls;
         Some (\<lparr>lt_t = \<lparr>tb_rs = map (\<lambda>b. b \<noteq> 0) bits, tb_num_ones = ones\<rparr>, lt_l0 = (w0, l0), lt_l1 = (w1, l1), lt_l2 = (w2, l2),
                 lt_d1_start = d1, lt_d2_start = d2, lt_l_len = len\<rparr> # ts, ls)}"
| "tries_of_lists _ _ = None"

definition ring_lists :: "(bool list, nat \<times> nat list) ring_snapshot \<Rightarrow> nat list list" where
  "ring_lists r =
     (let c = rs_cltj r in
      [rs_n r, length (snap_tries c)] # map unat (vocab_s c) # map unat (vocab_p c) # map unat (vocab_o c) #
      concat (map trie_lists (snap_tries c)))"

fun rings_of_lists :: "nat \<Rightarrow> nat list list \<Rightarrow> ((bool list, nat \<times> nat list) ring_snapshot list \<times> nat list list) option" where
  "rings_of_lists 0 ls = Some ([], ls)"
| "rings_of_lists (Suc n) ([k, m] # vs # vp # vo # ls) =
     do {(ts, ls) \<leftarrow> tries_of_lists m ls;
         (rs, ls) \<leftarrow> rings_of_lists n ls;
         Some (\<lparr>rs_n = k, rs_cltj = \<lparr>vocab_s = map of_nat vs, vocab_p = map of_nat vp, vocab_o = map of_nat vo, snap_tries = ts\<rparr>\<rparr> # rs, ls)}"
| "rings_of_lists _ _ = None"

definition snap_lists :: "(bool list, nat \<times> nat list) store_snapshot \<Rightarrow> nat list list" where
  "snap_lists s = map unat (snap_graph_ids s) # [length (snap_rings s)] # concat (map ring_lists (snap_rings s))"

fun snap_of_lists :: "nat list list \<Rightarrow> (bool list, nat \<times> nat list) store_snapshot option" where
  "snap_of_lists (ids # [n] # ls) =
     do {(rs, _) \<leftarrow> rings_of_lists n ls; Some \<lparr>snap_graph_ids = map of_nat ids, snap_rings = rs\<rparr>}"
| "snap_of_lists _ = None"

lemma tries_of_lists: "tries_of_lists (length ts) (concat (map trie_lists ts) @ ls) = Some (ts, ls)"
  by (induction ts) (simp_all add: trie_lists_def comp_def)

lemma rings_of_lists: "rings_of_lists (length rs) (concat (map ring_lists rs) @ ls) = Some (rs, ls)"
  by (induction rs) (simp_all add: ring_lists_def Let_def tries_of_lists comp_def)

lemma snap_of_lists: "snap_of_lists (snap_lists s) = Some s"
  using rings_of_lists [of "snap_rings s" "[]"] by (simp add: snap_lists_def comp_def)

definition example_files_env where
  "example_files_env = \<lparr>st_dict = example_env, st_rank = list_rank_select,
     st_serialize = (\<lambda>s. Inr (enc_lists (snap_lists s))),
     st_deserialize = (\<lambda>bs. case snap_of_lists (dec_lists 0 [] bs) of
        Some s \<Rightarrow> Inr s | None \<Rightarrow> Inl (Storage ''snapshot load failed'')),
     st_order = sorted_list_of_set\<rparr>"

interpretation example_files: louds_env example_files_env list_contents
  by (intro louds_env.intro louds_env_axioms.intro)
    (use list_sux.sux_axioms example_dict.dict_context_axioms in
      \<open>simp_all add: example_files_env_def example_env_def dec_lists_enc snap_of_lists\<close>)

definition example_disk_env where
  "example_disk_env = \<lparr>de_store = example_files_env, de_codec = list_codec, de_crc = (\<lambda>_. 7), de_list = sorted_list_of_set,
     de_removed = (\<lambda>_. True)\<rparr>"

lemma example_disk_simps [simp]:
  "de_store example_disk_env = example_files_env" "de_codec example_disk_env = list_codec" "de_removed example_disk_env name"
  "st_dict example_files_env = example_env" "env_lit example_env = example_literals" "env_bits example_env = list_bits"
  by (simp_all add: example_disk_env_def example_files_env_def example_env_def)

interpretation example_disk: disk_laws example_disk_env list_contents
proof (intro disk_laws.intro disk_laws_axioms.intro)
  show "louds_env (de_store example_disk_env) list_contents" by (simp add: example_files.louds_env_axioms)
  show "dict_codec_laws (de_codec example_disk_env)" by (simp add: list_codec.dict_codec_laws_axioms)
  show "lz4_laws (env_lz4 (st_dict (de_store example_disk_env)))" by (simp add: example_env_def plain_lz4.lz4_laws_axioms)
  show "set (de_list example_disk_env A) = A \<and> distinct (de_list example_disk_env A)" if "finite A" for A
    using that by (simp add: example_disk_env_def)
qed

section \<open>A first store\<close>

text \<open>A write adds at most one entry to the buffer.\<close>

lemma bt_insert_length: "length (bt_insert k v m) \<le> Suc (length m)"
  by (induction m) auto

lemma delta_len_write: "delta_len (insert_key dl k) \<le> Suc (delta_len dl)" "delta_len (tombstone_key dl k) \<le> Suc (delta_len dl)"
  by (simp_all add: delta_defs bt_insert_length)

lemma intern_quad_delta: "intern_quad_ids SE s q = Some (s', Inr x) \<Longrightarrow> delta_tier s' = delta_tier s"
  by (auto simp: intern_quad_ids_def on_dict_def split_beta elim!: seq_Some_cases)

lemma apply_insert_len:
  assumes "apply_insert SE s q = Some (s', Inr b)"
  shows "delta_len (delta_tier s') \<le> Suc (delta_len (delta_tier s))"
proof -
  obtain s1 x where s1: "intern_quad_ids SE s q = Some (s1, Inr x)"
    using assms by (auto simp: apply_insert_def elim!: seq_Some_cases)
  obtain g i j k where x: "x = (g, i, j, k)" by (cases x) auto
  have "delta_tier s' = delta_tier s1 \<or> delta_tier s' = insert_key (delta_tier s1) (pack_quad g i j k)"
    using assms s1
    by (auto simp: apply_insert_def x Let_def note_graph_def split: option.splits bool.splits bind_splits if_splits graph_name.splits)
  then show ?thesis using intern_quad_delta [OF s1] delta_len_write(1) [of "delta_tier s1" "pack_quad g i j k"] by auto
qed

lemma apply_remove_len:
  assumes "apply_remove SE s q = Some (s', Inr b)"
  shows "delta_len (delta_tier s') \<le> Suc (delta_len (delta_tier s))"
  using assms
  by (auto simp: apply_remove_def Let_def delta_len_write split: option.splits bool.splits bind_splits if_splits)

lemma batch_len:
  "batch_loop (apply_insert SE) (apply_remove SE) s ops i r = Some (s', Inr c) \<Longrightarrow>
   delta_len (delta_tier s') \<le> delta_len (delta_tier s) + length ops"
proof (induction ops arbitrary: s i r)
  case (Cons op ops)
  show ?case
  proof (cases op)
    case (OpInsert q)
    then show ?thesis using Cons by (fastforce elim!: seq_Some_cases dest: apply_insert_len)
  next
    case (OpRemove q)
    then show ?thesis using Cons by (fastforce elim!: seq_Some_cases dest: apply_remove_len)
  qed
qed simp

text \<open>An insertion that does not fill the buffer changes no counter.\<close>

lemma insert_quiet:
  assumes "disk_insert DE p q = Some (p', Inr b)" "apply_insert (de_store DE) (pd_inner p) q = Some (s, Inr b')"
    "delta_len (delta_tier s) < pd_threshold p"
  shows "pd_gen p' = pd_gen p \<and> pd_seq p' = pd_seq p \<and> pd_policy p' = pd_policy p \<and> pd_threshold p' = pd_threshold p \<and> pd_inner p' = s"
  using assms
  by (auto simp: disk_insert_def disk_wal_append_def on_mem_def after_write_def compaction_due_def set_snap_def elim!: seq_Some_cases
      split: bind_splits if_splits)

context disk_laws
begin

text \<open>A log that is durable as a whole survives.\<close>

lemma synced_survives:
  assumes rep: "disk_rep DE held a p" and "dl_synced a = length (dl_log a)" and "disk_crash (pd_disk p) dk"
  shows "\<exists>p'. disk_open DE dk = Some (Inr p') \<and> quads_of (de_store DE) (pd_inner p') = quads_of (de_store DE) (pd_inner p)"
proof -
  obtain k p' where k: "dl_synced a \<le> k" "disk_open DE dk = Some (Inr p')" "disk_rep DE held (dl_recover k a) p'"
    using crash_open [OF rep assms(3)] by blast
  have "dl_recover k a = a" using k(1) assms(2) by (simp add: dl_recover_def)
  then show ?thesis using k(2,3) disk_rep_quads [OF rep] disk_rep_quads [OF k(3)] by auto
qed

text \<open>A store whose first generation is not yet committed has empty indexes.\<close>

lemma fresh_rep:
  assumes "disk_rep DE held a p" "pd_gen p = 0"
  shows "store_rep (de_store DE) held (dl_all_terms a) (\<lambda>_. {}) (pd_inner p)"
proof -
  obtain G where G: "generation_rep DE held G a 0 (files (pd_disk p))"
    "follows (de_store DE) held G (dl_all_terms a) (dl_all_graphs a) (dl_quads a) (pd_inner p)"
    using assms by (auto simp: disk_rep_def)
  have "store_rep (de_store DE) held (dl_terms a) G (inner_new (de_store DE))"
    using G(1) by (simp add: generation_rep_def load_generation_def follows_def)
  then have "G = (\<lambda>_. {})" by (simp add: store_rep_def inner_new_def fun_eq_iff)
  then show ?thesis using G(2) by (simp add: follows_def)
qed

lemma fresh_small:
  assumes rep: "disk_rep DE held a p" "pd_gen p = 0" and "length (dl_all_terms a) \<le> 2 ^ 32" "3 * n \<le> usize_max"
  shows "store_small (pd_inner p) n"
proof -
  note s = fresh_rep [OF rep]
  have "(case graphs (pd_inner p) g of None \<Rightarrow> 0 | Some ring \<Rightarrow> gr_n ring) = 0" for g
    using store_repD(5) [OF s, of g] by (auto simp: ring_ok_def split: option.splits)
  moreover have "dict_len (dict (pd_inner p)) = length (dl_all_terms a)"
    using store_repD(1) [OF s] by (simp add: dict_len_def dict_rep_def)
  ultimately show ?thesis using assms(3,4) by (simp add: store_small_def)
qed

lemma fresh_empty:
  assumes "disk_rep DE held a p" "pd_gen p = 0"
  shows "quads_of (de_store DE) ((pd_inner p)\<lparr>delta_tier := delta_new\<rparr>) = {}"
  using quads_of_store_set [OF store_rep_clear [OF fresh_rep [OF assms]]]
  by (simp add: store_set_def live_def delta_defs split: option.splits)

end

section \<open>The steps of a commit\<close>

text \<open>Writing the files of a generation changes these files only.\<close>

lemma write_graphs_files:
  "write_and_load_graphs SE gs path dir = Some (dir', Inr gs') \<Longrightarrow> name \<noteq> path \<Longrightarrow> name \<noteq> tmp_sibling path \<Longrightarrow> dir' name = dir name"
  by (auto simp: write_and_load_graphs_def Let_def write_renamed split: bind_splits sum.splits)

lemma write_dict_files:
  "write_and_load_mmap E K d path dir = Some (dir', Inr d') \<Longrightarrow> name \<noteq> path \<Longrightarrow> name \<noteq> tmp_sibling path \<Longrightarrow> dir' name = dir name"
  by (auto simp: write_and_load_mmap_def Let_def write_renamed split: bind_splits sum.splits option.splits)

text \<open>
  Before a commit saves the manifest, its disk is the disk before the commit, apart from files that do not
  matter, with the new segment.
\<close>

lemma commit_rotates:
  assumes "disk_commit_compaction DE p gs clear = Some (p', Inr ())"
  shows "\<exists>dk. durable dk = durable (pd_disk p) \<and>
    (\<forall>name. \<not> spare_name (pd_gen p) (pd_seq p) name \<longrightarrow> files dk name = files (pd_disk p) name) \<and>
    files (pd_disk p') = cleanup_orphans (de_removed DE) (pd_gen p + 1) (pd_seq p + 1)
      (manifest_save (de_crc DE) \<lparr>snapshot_gen = pd_gen p + 1, wal_seq = pd_seq p + 1\<rparr> (files (rotated p dk)))"
proof -
  let ?g = "pd_gen p + 1"
  obtain fs1 gs' fs2 d where f: "write_and_load_graphs (de_store DE) gs (snapshot_path ?g) (files (pd_disk p)) = Some (fs1, Inr gs')"
    "write_and_load_mmap (st_dict (de_store DE)) (de_codec DE) (dict (pd_inner p)) (dict_path ?g) fs1 = Some (fs2, Inr d)"
    "files (pd_disk p') = cleanup_orphans (de_removed DE) ?g (pd_seq p + 1)
      (manifest_save (de_crc DE) \<lparr>snapshot_gen = ?g, wal_seq = pd_seq p + 1\<rparr> (files (rotated p ((pd_disk p)\<lparr>files := fs2\<rparr>))))"
    using assms by (auto simp: disk_commit_compaction_def Let_def on_files_def rotated_def elim!: seq_Some_cases)
  have "fs2 name = files (pd_disk p) name" if "\<not> spare_name (pd_gen p) (pd_seq p) name" for name
    using that write_graphs_files [OF f(1)] write_dict_files [OF f(2)] by (simp add: spare_name_def)
  then show ?thesis using f(3) by (intro exI [of _ "(pd_disk p)\<lparr>files := fs2\<rparr>"]) simp
qed

section \<open>Letters\<close>

lemma letter_record_ok:
  "n < 128 \<Longrightarrow> record_ok example_literals (InsertQuad (letter_quad n))"
  "n < 128 \<Longrightarrow> record_ok example_literals (RemoveQuad (letter_quad n))"
  by (simp_all add: record_ok_def quad_ok_def letter_quad_def encode_record_def write_quad_def write_string_def u32_to_le_bytes_def
      str_ok_def Let_def)

lemma letter_log_fits:
  "log_fits example_literals [] {DefaultGraph} [InsertQuad (letter_quad 99)]"
  "log_fits example_literals [NamedNode [97], NamedNode [98], NamedNode [99]] {DefaultGraph}
     [InsertQuad (letter_quad 100), RemoveQuad (letter_quad 99)]"
  using letter_record_ok [of 99] letter_record_ok [of 100] letter_quad_ok [of 99] letter_quad_ok [of 100]
  by (simp_all add: rec_fits_def letter_quad_spec example_store_new insert_absorb)

text \<open>A dictionary of three or four letters can be written.\<close>

lemma only_default_graph:
  assumes "graphs_ok d" "dom (graph_to_id d) = {DefaultGraph}"
  shows "id_to_graph d = [0 \<mapsto> DefaultGraph]"
proof
  fix raw
  have iff: "graph_to_id d g = Some i \<longleftrightarrow> id_to_graph d (as_u8 i) = Some g" for g i using assms(1) by (simp add: graphs_ok_def)
  have zero: "id_to_graph d 0 = Some DefaultGraph" using assms(1) iff [of DefaultGraph "GRAPH_DEFAULT"] by (simp add: graphs_ok_def GRAPH_DEFAULT_def)
  show "id_to_graph d raw = [0 \<mapsto> DefaultGraph] raw"
  proof (cases "id_to_graph d raw")
    case (Some g)
    then have "graph_to_id d g = Some (GraphId raw)" using iff [of g "GraphId raw"] by simp
    moreover from this have "g = DefaultGraph" using assms(2) by (auto simp: dom_def)
    ultimately have "raw = 0" using assms(1) by (simp add: graphs_ok_def GRAPH_DEFAULT_def)
    then show ?thesis using zero by simp
  qed (use zero in auto)
qed

definition plain_snapshot :: "u8 \<Rightarrow> 'v compacted_tier \<Rightarrow> 'v dict_snapshot" where
  "plain_snapshot n t = \<lparr>ds_next_graph_id = n, ds_compacted = t, ds_triple_ids = [], ds_triple_s = [], ds_triple_p = [], ds_triple_o = [],
     ds_graph_ids = [0], ds_graph_kinds = [2], ds_graph_str_flat = [], ds_graph_str_offsets = [0]\<rparr>"

lemma plain_writable:
  assumes rep: "dict_rep example_env list_contents ts d0" and fit: "terms_compactable example_literals ts" "\<forall>x \<in> set ts. \<not> is_triple x"
    and graphs: "graphs_ok d0" "dom (graph_to_id d0) = {DefaultGraph}"
    and t: "tier_build list_bits (compact_entries example_literals ts) (length ts) = Some t"
      "length (enc_lists (index_lists (fst (from_full_snapshot (plain_snapshot (next_graph_id d0) t))))) < 2 ^ 64"
  shows "dict_writable example_disk_env d0"
proof -
  have fits: "entries_fit (compact_entries (env_lit example_env) ts)" "no_straddling (compact_entries (env_lit example_env) ts)"
    using fit(1) by (simp_all add: terms_compactable_def)
  obtain d where d: "dict_compact example_env d0 = Some (d, Inr ())" "compacted d = Owned t" "dict_rep example_env list_contents ts d"
    using example_dict.compact_steps [OF rep fits(1)] example_dict.compact_correct [OF rep fits] t(1) by auto
  have ids: "id_to_graph d0 = [0 \<mapsto> DefaultGraph]" by (rule only_default_graph [OF graphs])
  then have all: "all_graphs list_codec d' = [(GraphId 0, DefaultGraph)]" if "graph_tables d' = graph_tables d0" for d' :: "(rdf_literal, nat \<times> nat list, 'b) dictionary"
    using that by (simp add: graph_tables_def all_graphs_def list_codec_def List.map_filter_simps)
  have "triple_ids ts (length ts) = []" using fit(2) by (simp add: triple_ids_def filter_empty_conv)
  then have rows: "triple_rows list_codec d = []"
    using example_dict.triple_rows_eq [OF d(3) list_codec.dict_codec_laws_axioms] by simp
  have "next_graph_id d = next_graph_id d0" using dict_compact_tables [OF d(1)] by (simp add: graph_tables_def)
  then have "to_snapshot list_codec d = Some (plain_snapshot (next_graph_id d0) t)"
    using d(2) rows all [OF dict_compact_tables [OF d(1)]]
    by (simp add: to_snapshot_def Let_def push_graph_def plain_snapshot_def graph_kind_def graph_str_def)
  moreover have "graphs_fit list_codec d0" using all [of d0] ids by (simp add: graphs_fit_def graph_str_def)
  ultimately show ?thesis using d(1) t(2) by (simp add: dict_writable_def list_codec_def Let_def)
qed

definition three_letters :: "(nat \<times> nat list) compacted_tier" where
  "three_letters =
     \<lparr>block_size = 8, high_water = 3, encoded_count = 3, fc_buf = [0, 1, 97, 0, 0, 0, 1, 98, 0, 0, 0, 1, 99, 0, 0],
      block_starts = [0], block_tags = [0], key_flat = [97], key_offsets = [0], rank2id = (2, [0, 1, 2]), id2rank = (2, [0, 1, 2]),
      rank2id_bit_width = 2, id2rank_bit_width = 2\<rparr>"

definition four_letters :: "(nat \<times> nat list) compacted_tier" where
  "four_letters =
     \<lparr>block_size = 8, high_water = 4, encoded_count = 4, fc_buf = [0, 1, 97, 0, 0, 0, 1, 98, 0, 0, 0, 1, 99, 0, 0, 0, 1, 100, 0, 0],
      block_starts = [0], block_tags = [0], key_flat = [97], key_offsets = [0], rank2id = (2, [0, 1, 2, 3]), id2rank = (2, [0, 1, 2, 3]),
      rank2id_bit_width = 2, id2rank_bit_width = 2\<rparr>"

lemma letter_tiers:
  "tier_build list_bits [(0, [97], [], 0), (0, [98], [], 1), (0, [99], [], 2)] 3 = Some three_letters"
  "tier_build list_bits [(0, [97], [], 0), (0, [98], [], 1), (0, [99], [], 2), (0, [100], [], 3)] 4 = Some four_letters"
  by code_simp+

lemma letter_lengths:
  "length (enc_lists (index_lists (fst (from_full_snapshot (plain_snapshot n three_letters))))) < 2 ^ 64"
  "length (enc_lists (index_lists (fst (from_full_snapshot (plain_snapshot n four_letters))))) < 2 ^ 64"
proof -
  have "unat n < 256" using unsigned_less [of n] by simp
  then show "length (enc_lists (index_lists (fst (from_full_snapshot (plain_snapshot n three_letters))))) < 2 ^ 64"
    "length (enc_lists (index_lists (fst (from_full_snapshot (plain_snapshot n four_letters))))) < 2 ^ 64"
    by (simp_all add: three_letters_def four_letters_def plain_snapshot_def from_full_snapshot_def index_lists_def enc_lists_def Let_def)
qed

lemma letter_entries:
  "compact_entries example_literals [NamedNode [97], NamedNode [98], NamedNode [99]] = [(0, [97], [], 0), (0, [98], [], 1), (0, [99], [], 2)]"
  "compact_entries example_literals [NamedNode [97], NamedNode [98], NamedNode [99], NamedNode [100]] =
     [(0, [97], [], 0), (0, [98], [], 1), (0, [99], [], 2), (0, [100], [], 3)]"
  by (simp_all add: compact_entries_def compact_terms_def entry_of_def flat_ids_def)

lemma letters_writable:
  assumes "graphs_ok d0" "dom (graph_to_id d0) = {DefaultGraph}"
    and "dict_rep example_env list_contents [NamedNode [97], NamedNode [98], NamedNode [99]] d0 \<or>
      dict_rep example_env list_contents [NamedNode [97], NamedNode [98], NamedNode [99], NamedNode [100]] d0"
  shows "dict_writable example_disk_env d0"
proof -
  have three: "length [NamedNode [97], NamedNode [98], NamedNode [99]] = 3"
    and four: "length [NamedNode [97], NamedNode [98], NamedNode [99], NamedNode [100]] = 4" by simp_all
  from assms(3) show ?thesis
  proof
    assume rep: "dict_rep example_env list_contents [NamedNode [97], NamedNode [98], NamedNode [99]] d0"
    show ?thesis
      by (rule plain_writable [OF rep letters_compactable(1) _ assms(1,2) _ letter_lengths(1)])
        (simp, simp only: letter_entries letter_tiers three)
  next
    assume rep: "dict_rep example_env list_contents [NamedNode [97], NamedNode [98], NamedNode [99], NamedNode [100]] d0"
    show ?thesis
      by (rule plain_writable [OF rep letters_compactable(2) _ assms(1,2) _ letter_lengths(2)])
        (simp, simp only: letter_entries letter_tiers four)
  qed
qed

section \<open>A history\<close>

text \<open>A new store, with every write synced, and one insertion.\<close>

definition example_log :: "rdf_literal durable_log" where
  "example_log = \<lparr>dl_terms = [], dl_graphs = {DefaultGraph}, dl_base = {}, dl_log = [InsertQuad (letter_quad 99)], dl_synced = 1\<rparr>"

lemma example_log_simps [simp]:
  "dl_quads example_log = {letter_quad 99}" "dl_base example_log = {}" "dl_log example_log = [InsertQuad (letter_quad 99)]"
  "dl_synced example_log = 1" "dl_all_terms example_log = [NamedNode [97], NamedNode [98], NamedNode [99]]"
  "dl_all_graphs example_log = {DefaultGraph}"
  by (simp_all add: example_log_def dl_quads_def dl_all_terms_def dl_all_graphs_def letter_quad_spec example_store_new)

definition example_reached where
  "example_reached p \<longleftrightarrow> disk_reach example_disk_env p example_log \<and> pd_policy p = Always \<and> pd_gen p = 0 \<and> pd_seq p = 1 \<and>
     pd_threshold p = DEFAULT_AUTO_COMPACT_THRESHOLD \<and> delta_len (delta_tier (pd_inner p)) \<le> 1"

lemma example_reached: "\<exists>p. example_reached p"
proof -
  let ?DE = example_disk_env and ?q = "letter_quad 99"
  define dk where "dk = \<lparr>files = Map.empty, durable = (\<lambda>_. 0)\<rparr>"
  obtain p0 where p0: "disk_open ?DE dk = Some (Inr p0)" "pd_gen p0 = 0" "pd_seq p0 = 1" "delta_tier (pd_inner p0) = delta_new"
    "pd_threshold p0 = DEFAULT_AUTO_COMPACT_THRESHOLD" using example_disk.open_new [of dk] by (auto simp: dk_def)
  define p1 where "p1 = disk_set_sync_policy p0 Always"
  have r1: "disk_reach ?DE p1 dl_new" unfolding p1_def using p0(1) by (intro disk_reach.policy disk_reach.created [of dk]) (simp_all add: dk_def)
  have p1: "pd_gen p1 = 0" "pd_seq p1 = 1" "delta_tier (pd_inner p1) = delta_new" "pd_threshold p1 = 1000000" "pd_policy p1 = Always"
    using p0 by (simp_all add: p1_def disk_set_sync_policy_def DEFAULT_AUTO_COMPACT_THRESHOLD_def)
  have new: "dl_all_terms dl_new = []" "dl_all_graphs dl_new = {DefaultGraph}" "dl_quads dl_new = {}"
    by (simp_all add: dl_new_def dl_all_terms_def dl_all_graphs_def dl_quads_def)
  note rep = example_disk.reach_rep [OF r1]
  obtain G where "follows example_files_env list_contents G [] {DefaultGraph} {} (pd_inner p1)"
    using rep by (auto simp: disk_rep_def new)
  then obtain s where s: "apply_insert example_files_env (pd_inner p1) ?q = Some (s, Inr True)"
    using example_files.apply_insert_follows [of G "[]" "{DefaultGraph}" "{}" "pd_inner p1" ?q] letter_log_fits(1) by auto
  have len: "delta_len (delta_tier s) \<le> 1" using apply_insert_len [OF s] p1(3) by (simp add: delta_defs)
  have fits: "write_fits ?DE dl_new p1 [InsertQuad ?q] (apply_insert (de_store ?DE) (pd_inner p1) ?q)"
    using letter_log_fits(1) len p1(4) by (simp add: write_fits_def s new)
  obtain p where p: "disk_insert ?DE p1 ?q = Some (p, Inr True)" using example_disk.insert_step [OF rep fits] by (auto simp: new)
  have q: "pd_gen p = pd_gen p1 \<and> pd_seq p = pd_seq p1 \<and> pd_policy p = pd_policy p1 \<and> pd_threshold p = pd_threshold p1 \<and> pd_inner p = s"
    by (rule insert_quiet [OF p]) (use s len p1(4) in simp_all)
  have "dl_after p1 p [InsertQuad ?q] dl_new = example_log"
    using q p1(5) by (simp add: dl_after_def Let_def dl_write_def dl_new_def example_log_def)
  then have "disk_reach ?DE p example_log" using disk_reach.inserted [OF r1 fits p] by simp
  then have "example_reached p" using q p1 len by (simp add: example_reached_def DEFAULT_AUTO_COMPACT_THRESHOLD_def)
  then show ?thesis by blast
qed

lemma example_reachedD:
  assumes "example_reached p"
  shows "disk_reach example_disk_env p example_log" "disk_rep example_disk_env list_contents example_log p"
    "quads_of example_files_env (pd_inner p) = {letter_quad 99}" "graphs_ok (dict (pd_inner p))" "dom (graph_to_id (dict (pd_inner p))) = {DefaultGraph}"
    "dict_rep example_env list_contents [NamedNode [97], NamedNode [98], NamedNode [99]] (dict (pd_inner p))"
proof -
  show r: "disk_reach example_disk_env p example_log" using assms by (simp add: example_reached_def)
  show rep: "disk_rep example_disk_env list_contents example_log p" by (rule example_disk.reach_rep [OF r])
  show "quads_of example_files_env (pd_inner p) = {letter_quad 99}" using example_disk.disk_rep_quads [OF rep] by simp
  obtain G where "follows example_files_env list_contents G [NamedNode [97], NamedNode [98], NamedNode [99]] {DefaultGraph} {letter_quad 99} (pd_inner p)"
    using rep by (auto simp: disk_rep_def)
  then have "store_rep example_files_env list_contents [NamedNode [97], NamedNode [98], NamedNode [99]] G (pd_inner p)"
    "dom (graph_to_id (dict (pd_inner p))) = {DefaultGraph}" by (simp_all add: follows_def)
  then show "graphs_ok (dict (pd_inner p))" "dom (graph_to_id (dict (pd_inner p))) = {DefaultGraph}"
    "dict_rep example_env list_contents [NamedNode [97], NamedNode [98], NamedNode [99]] (dict (pd_inner p))"
    using store_repD(1,2) by fastforce+
qed

lemma example_compacts:
  assumes "example_reached p"
  shows "can_compact example_disk_env (dl_all_terms example_log) p"
  unfolding can_compact_def
proof (intro conjI)
  note D = example_reachedD [OF assms]
  show "store_small (pd_inner p) (delta_len (delta_tier (pd_inner p)))"
    by (rule example_disk.fresh_small [OF D(2)]) (use assms in \<open>simp_all add: example_reached_def usize_max_def\<close>)
  show "terms_compactable (de_lit example_disk_env) (dl_all_terms example_log)" using letters_compactable(1) by simp
  show "dict_writable example_disk_env (dict (pd_inner p))" using letters_writable [OF D(4,5)] D(6) by blast
qed (use assms in \<open>simp_all add: example_reached_def\<close>)

lemma crash_nothing: "disk_crash dk dk"
proof -
  have "\<exists>n \<ge> durable dk name. files dk name = map_option (take n) (files dk name)" for name
  proof (cases "files dk name")
    case (Some c)
    then show ?thesis by (intro exI [of _ "max (durable dk name) (length c)"]) simp
  qed auto
  then show ?thesis by (simp add: disk_crash_def)
qed

lemma disk_like_self: "disk_rep DE held a p \<Longrightarrow> disk_like p (pd_disk p)"
  by (simp add: disk_like_def disk_rep_def)

section \<open>Properties\<close>



text \<open>
  (C2) A batch on a persistent store returns the counts and has the effect of its operations on a set of
  quads; under the policy \<open>Always\<close> a crash at any later time before the next operation loses none of it.
\<close>

theorem disk_batch_durable:
  assumes "disk_laws DE held" and "disk_reach DE p a" and "ops \<noteq> []"
    and "write_fits DE a p (map op_record ops) (batch_loop (apply_insert (de_store DE)) (apply_remove (de_store DE)) (pd_inner p) ops 0 0)"
  shows "\<exists>p'. disk_apply_batch DE p ops = Some (p', Inr (op_counts ops (quads_of (de_store DE) (pd_inner p)))) \<and>
    quads_of (de_store DE) (pd_inner p') = fold op_set ops (quads_of (de_store DE) (pd_inner p)) \<and>
    (pd_policy p = Always \<longrightarrow> (\<forall>dk. disk_crash (pd_disk p') dk \<longrightarrow> (\<exists>p''. disk_open DE dk = Some (Inr p'') \<and>
      quads_of (de_store DE) (pd_inner p'') = quads_of (de_store DE) (pd_inner p'))))"
proof -
  note rep = disk_laws.reach_rep [OF assms(1,2)] and quads = disk_laws.disk_rep_quads [OF assms(1)]
  obtain p' where p': "disk_apply_batch DE p ops = Some (p', Inr (op_counts ops (dl_quads a)))"
    "disk_rep DE held (dl_after p p' (map op_record ops) a) p'"
    using disk_laws.apply_batch_step [OF assms(1) rep assms(4)] assms(3) by auto
  moreover have "\<exists>p''. disk_open DE dk = Some (Inr p'') \<and> quads_of (de_store DE) (pd_inner p'') = quads_of (de_store DE) (pd_inner p')"
    if "pd_policy p = Always" "disk_crash (pd_disk p') dk" for dk
    by (rule disk_laws.synced_survives [OF assms(1) p'(2) dl_after_synced [OF that(1)] that(2)])
  ultimately show ?thesis using quads [OF rep] quads [OF p'(2)] by (auto simp: dl_after_quads fold_op_record)
qed

theorem disk_batch_durable_witness:
  "\<exists>p p'. example_reached p \<and>
     disk_apply_batch example_disk_env p [OpInsert (letter_quad 100), OpRemove (letter_quad 99)] = Some (p', Inr (1, 1)) \<and>
     (\<exists>p''. disk_open example_disk_env (pd_disk p') = Some (Inr p'') \<and> quads_of example_files_env (pd_inner p'') = {letter_quad 100})"
proof -
  let ?ops = "[OpInsert (letter_quad 100), OpRemove (letter_quad 99)]"
  obtain p where p: "example_reached p" using example_reached by blast
  note D = example_reachedD [OF p]
  have "write_fits example_disk_env example_log p (map op_record ?ops)
    (batch_loop (apply_insert (de_store example_disk_env)) (apply_remove (de_store example_disk_env)) (pd_inner p) ?ops 0 0)"
    using batch_len [of example_files_env "pd_inner p" ?ops 0 0] letter_log_fits(2) p
    by (auto simp: write_fits_def example_reached_def DEFAULT_AUTO_COMPACT_THRESHOLD_def split: option.split sum.split)
  then obtain p' where p': "disk_apply_batch example_disk_env p ?ops = Some (p', Inr (op_counts ?ops (quads_of example_files_env (pd_inner p))))"
    "quads_of example_files_env (pd_inner p') = fold op_set ?ops (quads_of example_files_env (pd_inner p))"
    "pd_policy p = Always \<longrightarrow> (\<forall>dk. disk_crash (pd_disk p') dk \<longrightarrow> (\<exists>p''. disk_open example_disk_env dk = Some (Inr p'') \<and>
      quads_of example_files_env (pd_inner p'') = quads_of example_files_env (pd_inner p')))"
    using disk_batch_durable [OF example_disk.disk_laws_axioms D(1), of ?ops] by auto
  moreover have "pd_policy p = Always" using p by (simp add: example_reached_def)
  moreover have "op_counts ?ops {letter_quad 99} = (1, 1)" "fold op_set ?ops {letter_quad 99} = {letter_quad 100}" by (auto simp: letter_quad_inj)
  ultimately show ?thesis using p crash_nothing [of "pd_disk p'"] D(3) by metis
qed



text \<open>
  (C11) A commit that stops between opening the new log segment and saving the manifest loses data later: the
  next opening still finds every quad, but it continues the log in the new segment and deletes the old one,
  which the manifest still needs, so that the opening after that has only the quads of the last compaction.
\<close>

theorem interrupted_commit_loses:
  assumes "disk_laws DE held" and "disk_reach DE p a" and "disk_like p dk0" and "pd_seq p \<noteq> - 1"
    and "de_removed DE (wal_segment_path (pd_seq p))"
  shows "\<exists>p' p''. disk_open DE (rotated p dk0) = Some (Inr p') \<and>
    quads_of (de_store DE) (pd_inner p') = quads_of (de_store DE) (pd_inner p) \<and>
    disk_open DE (pd_disk p') = Some (Inr p'') \<and> quads_of (de_store DE) (pd_inner p'') = dl_base a"
  using disk_laws.rotated_reopened [OF assms(1) disk_laws.reach_rep [OF assms(1,2)] assms(3-5)]
    disk_laws.disk_rep_quads [OF assms(1) disk_laws.reach_rep [OF assms(1,2)]] by simp

theorem interrupted_commit_loses_witness:
  "\<exists>p p' p''. example_reached p \<and> disk_open example_disk_env (rotated p (pd_disk p)) = Some (Inr p') \<and>
     quads_of example_files_env (pd_inner p') = {letter_quad 99} \<and>
     disk_open example_disk_env (pd_disk p') = Some (Inr p'') \<and> quads_of example_files_env (pd_inner p'') = {}"
proof -
  obtain p where p: "example_reached p" using example_reached by blast
  note D = example_reachedD [OF p]
  have "pd_seq p \<noteq> - 1" using p by (simp add: example_reached_def)
  then show ?thesis
    using interrupted_commit_loses [OF example_disk.disk_laws_axioms D(1) disk_like_self [OF D(2)]] p D(3) by auto
qed

text \<open>
  (C12) A bulk load into a persistent store loses the writes that are still in its buffer: the running store
  has them, but the load starts a new log without them, so that opening the store again gives the loaded
  quads and those of the last compaction only.
\<close>

theorem bulk_load_loses_buffer:
  assumes "disk_laws DE held" and "disk_reach DE p a"
    and "load_fits (de_store DE) held (dl_all_terms a) (pd_inner p) qs" and "load_writable DE p qs"
  shows "\<exists>p'. disk_bulk_load DE p qs = Some (p', Inr (length qs)) \<and>
    quads_of (de_store DE) (pd_inner p') = quads_of (de_store DE) (pd_inner p) \<union> {q \<in> set qs. \<not> tombstoned (de_store DE) (pd_inner p) q} \<and>
    (\<forall>dk. disk_crash (pd_disk p') dk \<longrightarrow> (\<exists>p''. disk_open DE dk = Some (Inr p'') \<and>
      quads_of (de_store DE) (pd_inner p'') = quads_of (de_store DE) ((pd_inner p)\<lparr>delta_tier := delta_new\<rparr>) \<union> set qs))"
  using disk_laws.bulk_load_at [OF assms(1) disk_laws.reach_rep [OF assms(1,2)] assms(3,4)]
    disk_laws.disk_rep_quads [OF assms(1) disk_laws.reach_rep [OF assms(1,2)]] by simp

lemma example_loads:
  assumes "example_reached p"
  shows "load_fits example_files_env list_contents (dl_all_terms example_log) (pd_inner p) [letter_quad 100]"
    "load_writable example_disk_env p [letter_quad 100]"
proof -
  let ?ts = "[NamedNode [97], NamedNode [98], NamedNode [99]] :: rdf_literal rdf_term list" and ?q = "letter_quad 100"
  note D = example_reachedD [OF assms]
  obtain G where f: "follows example_files_env list_contents G ?ts {DefaultGraph} {letter_quad 99} (pd_inner p)"
    using D(2) by (auto simp: disk_rep_def)
  then have s: "store_rep example_files_env list_contents ?ts G (pd_inner p)" by (simp add: follows_def)
  have small: "store_small (pd_inner p) 1"
    by (rule example_disk.fresh_small [OF D(2)]) (use assms in \<open>simp_all add: example_reached_def usize_max_def\<close>)
  show "load_fits example_files_env list_contents (dl_all_terms example_log) (pd_inner p) [?q]"
    unfolding load_fits_def using s small letters_compactable(2) letter_quad_ok [of 100]
    by (auto simp: D(5) letter_quad_spec example_store_new)
  obtain m where m: "ring_triples example_files_env (pd_inner p) = Some m" using example_files.ring_triples_ok [OF s] by blast
  obtain d x where d: "intern_quad_ids example_files_env (pd_inner p) ?q = Some ((pd_inner p)\<lparr>dict := d\<rparr>, Inr x)"
    "store_rep example_files_env list_contents (quad_spec ?ts ?q) G ((pd_inner p)\<lparr>dict := d\<rparr>)"
    "dom (graph_to_id d) = insert (quad_graph ?q) (dom (graph_to_id (dict (pd_inner p))))"
    by (rule example_files.intern_quad_ok [OF s, of ?q]) (use letter_quad_ok [of 100] in \<open>simp_all add: letter_quad_spec example_store_new D(5)\<close>)
  have "dict_writable example_disk_env d"
    using letters_writable [of d] store_repD(1,2) [OF d(2)] d(3) by (simp add: letter_quad_spec example_store_new D(5))
  moreover have "\<exists>s y. bulk_loop example_files_env (pd_inner p) m 0 [?q] = Some (s, Inr y) \<and> dict s = d"
    using d(1) by (cases x) (simp add: note_graph_def letter_quad_def)
  ultimately show "load_writable example_disk_env p [?q]" using assms m by (auto simp: load_writable_def example_reached_def)
qed

theorem bulk_load_loses_buffer_witness:
  "\<exists>p p' p''. example_reached p \<and> disk_bulk_load example_disk_env p [letter_quad 100] = Some (p', Inr 1) \<and>
     letter_quad 99 \<in> quads_of example_files_env (pd_inner p') \<and>
     disk_open example_disk_env (pd_disk p') = Some (Inr p'') \<and> quads_of example_files_env (pd_inner p'') = {letter_quad 100}"
proof -
  obtain p where p: "example_reached p" using example_reached by blast
  note D = example_reachedD [OF p]
  have "quads_of example_files_env ((pd_inner p)\<lparr>delta_tier := delta_new\<rparr>) = {}" using example_disk.fresh_empty [OF D(2)] p by (simp add: example_reached_def)
  then obtain p' where p': "disk_bulk_load example_disk_env p [letter_quad 100] = Some (p', Inr 1)" "letter_quad 99 \<in> quads_of example_files_env (pd_inner p')"
    "\<forall>dk. disk_crash (pd_disk p') dk \<longrightarrow> (\<exists>p''. disk_open example_disk_env dk = Some (Inr p'') \<and> quads_of example_files_env (pd_inner p'') = {letter_quad 100})"
    using bulk_load_loses_buffer [OF example_disk.disk_laws_axioms D(1), of "[letter_quad 100]"] example_loads [OF p] D(3) by auto
  then show ?thesis using p crash_nothing [of "pd_disk p'"] by metis
qed



end
