(* ===== verification/CypherLexer.thy ===== *)
theory CypherLexer
  imports Prelude
begin

text \<open>
  The lexer of the openCypher front end, \<^verbatim>\<open>crates/core/nova-cypher/src/lexer.rs\<close>. A source text is a list of
  Unicode scalar values; the scan keeps the characters not yet read with the index of the next one. The
  character classes of Unicode and the conversion of decimals to \<^verbatim>\<open>f64\<close> are parameters (\<open>cy_api\<close>); the
  locale \<open>char_classes\<close> has what the standard library documents of the classes. The lexer reads back every
  sequence of tokens that is written with a space after each token.
\<close>

section \<open>Tokens\<close>

type_synonym rchar = nat
type_synonym rtext = "rchar list"
type_synonym i64 = "64 word"

abbreviation ch :: "char \<Rightarrow> rchar" where
  "ch c \<equiv> of_char c"

abbreviation str :: "string \<Rightarrow> rtext" where
  "str s \<equiv> map of_char s"

record 'f cy_api =
  cc_whitespace :: "rchar \<Rightarrow> bool"
  cc_alphabetic :: "rchar \<Rightarrow> bool"
  cc_numeric :: "rchar \<Rightarrow> bool"
  fl_parse :: "rtext \<Rightarrow> 'f option"
  fl_neg :: "'f \<Rightarrow> 'f"

datatype 'f tok =
    TIdent rtext | TStr rtext | TInt i64 | TFloat 'f
  | TLParen | TRParen | TLBracket | TRBracket | TLBrace | TRBrace
  | TColon | TComma | TDot | TDotDot | TDash | TStar | TPlus | TSlash
  | TLt | TGt | TEq | TNe | TLe | TGe | TEof

record 'f spanned =
  sp_tok :: "'f tok"
  sp_pos :: nat

datatype lex_error = Unterminated nat | BadFloat rtext nat | BadInt rtext nat | BadChar rchar nat

section \<open>Scanning\<close>

definition is_ascii_digit :: "rchar \<Rightarrow> bool" where
  "is_ascii_digit c \<longleftrightarrow> ch CHR ''0'' \<le> c \<and> c \<le> ch CHR ''9''"

text \<open>Rust's \<^verbatim>\<open>str::parse::<i64>\<close> on a string of digits: an error when the value does not fit.\<close>

definition digits_value :: "rtext \<Rightarrow> nat" where
  "digits_value s = foldl (\<lambda>v c. 10 * v + (c - 48)) 0 s"

definition parse_i64 :: "rtext \<Rightarrow> i64 option" where
  "parse_i64 s = (let v = digits_value s in if v < 2 ^ 63 then Some (of_nat v) else None)"

definition unescape :: "rchar \<Rightarrow> rchar" where
  "unescape esc =
     (if esc = ch CHR ''n'' then 10 else if esc = ch CHR ''t'' then 9 else if esc = ch CHR ''r'' then 13 else esc)"

text \<open>The body of a string literal: \<open>None\<close> when it is not terminated.\<close>

fun lex_string :: "rchar \<Rightarrow> nat \<Rightarrow> rtext \<Rightarrow> rtext \<Rightarrow> (rtext \<times> nat \<times> rtext) option" where
  "lex_string quote i s [] = None"
| "lex_string quote i s [c] = (if c = quote then Some (s, i + 1, []) else None)"
| "lex_string quote i s (c # esc # cs) =
     (if c = 92 then lex_string quote (i + 2) (s @ [unescape esc]) cs
      else if c = quote then Some (s, i + 1, esc # cs)
      else lex_string quote (i + 1) (s @ [c]) (esc # cs))"

text \<open>The condition for a fraction: a dot with a digit after it.\<close>

definition fraction_ahead :: "rtext \<Rightarrow> bool" where
  "fraction_ahead rest \<longleftrightarrow> (case rest of dot # d # _ \<Rightarrow> dot = ch CHR ''.'' \<and> is_ascii_digit d | _ \<Rightarrow> False)"

definition lex_number :: "'f cy_api \<Rightarrow> nat \<Rightarrow> rtext \<Rightarrow> lex_error + 'f tok \<times> nat \<times> rtext" where
  "lex_number A i cs =
     (let s = takeWhile is_ascii_digit cs; rest = dropWhile is_ascii_digit cs;
          is_float = fraction_ahead rest;
          s = (if is_float then s @ ch CHR ''.'' # takeWhile is_ascii_digit (tl rest) else s);
          rest = (if is_float then dropWhile is_ascii_digit (tl rest) else rest);
          j = i + length s
      in if is_float then (case fl_parse A s of None \<Rightarrow> Inl (BadFloat s i) | Some v \<Rightarrow> Inr (TFloat v, j, rest))
         else (case parse_i64 s of None \<Rightarrow> Inl (BadInt s i) | Some v \<Rightarrow> Inr (TInt v, j, rest)))"

definition ident_char :: "'f cy_api \<Rightarrow> rchar \<Rightarrow> bool" where
  "ident_char A c \<longleftrightarrow> cc_alphabetic A c \<or> cc_numeric A c \<or> c = ch CHR ''_''"

definition next_is :: "char \<Rightarrow> rtext \<Rightarrow> bool" where
  "next_is c cs \<longleftrightarrow> (case cs of [] \<Rightarrow> False | d # _ \<Rightarrow> d = ch c)"

text \<open>The tokens of one or two punctuation characters, with the number of characters.\<close>

definition lex_symbol :: "rchar \<Rightarrow> rtext \<Rightarrow> ('f tok \<times> nat) option" where
  "lex_symbol c cs =
     (if c = ch CHR ''('' then Some (TLParen, 1)
      else if c = ch CHR '')'' then Some (TRParen, 1)
      else if c = ch CHR ''['' then Some (TLBracket, 1)
      else if c = ch CHR '']'' then Some (TRBracket, 1)
      else if c = ch CHR ''{'' then Some (TLBrace, 1)
      else if c = ch CHR ''}'' then Some (TRBrace, 1)
      else if c = ch CHR '':'' then Some (TColon, 1)
      else if c = ch CHR '','' then Some (TComma, 1)
      else if c = ch CHR ''.'' then Some (if next_is CHR ''.'' cs then (TDotDot, 2) else (TDot, 1))
      else if c = ch CHR ''-'' then Some (TDash, 1)
      else if c = ch CHR ''*'' then Some (TStar, 1)
      else if c = ch CHR ''+'' then Some (TPlus, 1)
      else if c = ch CHR ''/'' then Some (TSlash, 1)
      else if c = ch CHR ''='' then Some (TEq, 1)
      else if c = ch CHR ''<'' then
        Some (if next_is CHR ''>'' cs then (TNe, 2) else if next_is CHR ''='' cs then (TLe, 2) else (TLt, 1))
      else if c = ch CHR ''>'' then Some (if next_is CHR ''='' cs then (TGe, 2) else (TGt, 1))
      else None)"

text \<open>One token: the character at index \<open>i\<close> is \<open>c\<close>, and \<open>cs\<close> are the characters after it.\<close>

definition lex_token :: "'f cy_api \<Rightarrow> nat \<Rightarrow> rchar \<Rightarrow> rtext \<Rightarrow> lex_error + 'f tok \<times> nat \<times> rtext" where
  "lex_token A i c cs =
     (case lex_symbol c cs of
        Some (t, n) \<Rightarrow> Inr (t, i + n, drop (n - 1) cs)
      | None \<Rightarrow>
          if c = 39 \<or> c = 34 then
            (case lex_string c (i + 1) [] cs of
               None \<Rightarrow> Inl (Unterminated i)
             | Some (s, j, rest) \<Rightarrow> Inr (TStr s, j, rest))
          else if is_ascii_digit c then lex_number A i (c # cs)
          else if cc_alphabetic A c \<or> c = ch CHR ''_'' then
            (let s = takeWhile (ident_char A) (c # cs)
             in Inr (TIdent s, i + length s, dropWhile (ident_char A) (c # cs)))
          else Inl (BadChar c i))"

lemma lex_string_index: "lex_string quote i s cs = Some (s', j, rest) \<Longrightarrow> j + length rest = i + length cs \<and> length rest < length cs"
  by (induction quote i s cs rule: lex_string.induct) (auto split: if_splits)

lemma while_lengths: "length (takeWhile P xs) + length (dropWhile P xs) = length xs"
  by (metis length_append takeWhile_dropWhile_id)

lemma lex_number_index:
  assumes "lex_number A i (c # cs) = Inr (t, j, rest)" "is_ascii_digit c"
  shows "j + length rest = i + Suc (length cs) \<and> length rest < Suc (length cs)"
proof -
  let ?rest = "dropWhile is_ascii_digit cs"
  have len: "length (takeWhile is_ascii_digit cs) + length ?rest = length cs" by (rule while_lengths)
  have frac: "length (takeWhile is_ascii_digit (tl ?rest)) + length (dropWhile is_ascii_digit (tl ?rest)) = length ?rest - 1"
    using while_lengths [of is_ascii_digit "tl ?rest"] by simp
  show ?thesis
  proof (cases "fraction_ahead ?rest")
    case True
    then obtain d ds where "?rest = d # ds" by (cases ?rest) (simp_all add: fraction_ahead_def)
    moreover have "j = i + Suc (length (takeWhile is_ascii_digit cs) + Suc (length (takeWhile is_ascii_digit (tl ?rest))))"
      "rest = dropWhile is_ascii_digit (tl ?rest)"
      using assms True by (simp_all add: lex_number_def Let_def split: option.splits)
    ultimately show ?thesis using len frac by simp
  next
    case False
    then have "j = i + Suc (length (takeWhile is_ascii_digit cs))" "rest = ?rest"
      using assms by (simp_all add: lex_number_def Let_def split: option.splits)
    then show ?thesis using len by auto
  qed
qed

lemma lex_symbol_length: "lex_symbol c cs = Some (t, n) \<Longrightarrow> n = 1 \<or> n = 2 \<and> cs \<noteq> []"
  unfolding lex_symbol_def by (auto simp: next_is_def split: if_splits list.splits)

text \<open>A token has at least one character, and the index follows the characters.\<close>

lemma lex_token_index:
  assumes "lex_token A i c cs = Inr (t, j, rest)"
  shows "j + length rest = i + Suc (length cs) \<and> length rest < Suc (length cs)"
proof (cases "lex_symbol c cs :: ('a tok \<times> nat) option")
  case (Some tn)
  obtain u n where tn: "tn = (u, n)" by (cases tn)
  then have "j = i + n" "rest = drop (n - 1) cs" using assms Some by (simp_all add: lex_token_def)
  then show ?thesis using lex_symbol_length [OF Some [unfolded tn]] by (cases cs) auto
next
  case None
  consider s where "lex_string c (i + 1) [] cs = Some (s, j, rest)" | "is_ascii_digit c" "lex_number A i (c # cs) = Inr (t, j, rest)"
    | "ident_char A c" "j = i + length (takeWhile (ident_char A) (c # cs))" "rest = dropWhile (ident_char A) (c # cs)"
    using assms None unfolding lex_token_def Let_def by (auto simp: ident_char_def split: if_splits option.splits)
  then show ?thesis
  proof cases
    case 3
    then show ?thesis using while_lengths [of "ident_char A" cs] by simp
  qed (auto dest: lex_string_index lex_number_index)
qed

function lex_loop :: "'f cy_api \<Rightarrow> nat \<Rightarrow> rtext \<Rightarrow> 'f spanned list \<Rightarrow> lex_error + 'f spanned list" where
  "lex_loop A i [] out = Inr (out @ [\<lparr>sp_tok = TEof, sp_pos = i\<rparr>])"
| "lex_loop A i (c # cs) out =
     (if cc_whitespace A c then lex_loop A (i + 1) cs out
      else if c = ch CHR ''/'' \<and> next_is CHR ''/'' cs then
        lex_loop A (i + 1 + length (takeWhile (\<lambda>c. c \<noteq> 10) cs)) (dropWhile (\<lambda>c. c \<noteq> 10) cs) out
      else
        case lex_token A i c cs of
          Inl e \<Rightarrow> Inl e
        | Inr (t, j, rest) \<Rightarrow> lex_loop A j rest (out @ [\<lparr>sp_tok = t, sp_pos = i\<rparr>]))"
  by pat_completeness auto
termination
  by (relation "measure (\<lambda>(A, i, cs, out). length cs)") (auto dest!: lex_token_index sym [of "Inr _"] simp: le_imp_less_Suc length_dropWhile_le)

definition lex :: "'f cy_api \<Rightarrow> rtext \<Rightarrow> lex_error + 'f spanned list" where
  "lex A src = lex_loop A 0 src []"

text \<open>
  What the lexer returns: tokens with ascending indices below the length of the text, integers that are not
  negative, and a last token at the end of the text.
\<close>

fun tok_nonneg :: "'f tok \<Rightarrow> bool" where
  "tok_nonneg (TInt n) \<longleftrightarrow> unat n < 2 ^ 63"
| "tok_nonneg _ \<longleftrightarrow> True"

definition lexed :: "nat \<Rightarrow> 'f spanned list \<Rightarrow> bool" where
  "lexed n ss \<longleftrightarrow> (\<forall>s \<in> set ss. tok_nonneg (sp_tok s) \<and> sp_pos s < n) \<and> sorted_wrt (<) (map sp_pos ss)"

lemma lex_token_nonneg: "lex_token A i c cs = Inr (t, j, rest) \<Longrightarrow> tok_nonneg t"
proof (cases "lex_symbol c cs :: ('a tok \<times> nat) option")
  case None
  assume "lex_token A i c cs = Inr (t, j, rest)"
  then have "(\<exists>s. t = TStr s) \<or> (\<exists>s. t = TIdent s) \<or> (\<exists>v. t = TFloat v) \<or> (\<exists>s n. t = TInt n \<and> parse_i64 s = Some n)"
    using None unfolding lex_token_def lex_number_def Let_def by (auto split: if_splits option.splits)
  then show ?thesis by (auto simp: parse_i64_def Let_def unsigned_of_nat take_bit_nat_eq_self split: if_splits)
next
  case (Some tn)
  assume "lex_token A i c cs = Inr (t, j, rest)"
  then show ?thesis using Some unfolding lex_token_def lex_symbol_def by (auto split: if_splits)
qed

lemma lexed_snoc: "lexed i out \<Longrightarrow> tok_nonneg t \<Longrightarrow> i < j \<Longrightarrow> lexed j (out @ [\<lparr>sp_tok = t, sp_pos = i\<rparr>])"
  by (auto simp: lexed_def sorted_wrt_append)

lemma lexed_mono: "lexed i out \<Longrightarrow> i \<le> j \<Longrightarrow> lexed j out"
  by (auto simp: lexed_def)

lemma lex_loop_lexed:
  assumes "lex_loop A i cs out = Inr ss" "lexed i out"
  shows "\<exists>ss'. ss = ss' @ [\<lparr>sp_tok = TEof, sp_pos = i + length cs\<rparr>] \<and> lexed (i + length cs) ss'"
  using assms
proof (induction A i cs out rule: lex_loop.induct)
  case (2 A i c cs out)
  consider "cc_whitespace A c" | "\<not> cc_whitespace A c" "c = ch CHR ''/'' \<and> next_is CHR ''/'' cs"
    | "\<not> cc_whitespace A c" "\<not> (c = ch CHR ''/'' \<and> next_is CHR ''/'' cs)" by blast
  then show ?case
  proof cases
    case 1
    then show ?thesis using "2.IH"(1) [OF 1] "2.prems" lexed_mono [of i out "i + 1"] by simp
  next
    case 2
    have "length (takeWhile (\<lambda>c. c \<noteq> 10) cs) + length (dropWhile (\<lambda>c. c \<noteq> 10) cs) = length cs" by (rule while_lengths)
    then show ?thesis using "2.IH"(2) [OF 2] "2.prems" 2 lexed_mono [OF "2.prems"(2)] by (simp add: add.assoc)
  next
    case 3
    then obtain t j rest where t: "lex_token A i c cs = Inr (t, j, rest)" "lex_loop A j rest (out @ [\<lparr>sp_tok = t, sp_pos = i\<rparr>]) = Inr ss"
      using "2.prems"(1) by (auto split: sum.splits)
    have "i < j" "j + length rest = i + Suc (length cs)" using lex_token_index [OF t(1)] by auto
    then show ?thesis
      using "2.IH"(3) [OF 3 t(1)] t(2) lexed_snoc [OF "2.prems"(2) lex_token_nonneg [OF t(1)]] by simp
  qed
qed auto

lemma lex_lexed: "lex A src = Inr ss \<Longrightarrow> \<exists>ss'. ss = ss' @ [\<lparr>sp_tok = TEof, sp_pos = length src\<rparr>] \<and> lexed (length src) ss'"
  using lex_loop_lexed [of A 0 src "[]"] by (simp add: lex_def lexed_def)

section \<open>Character classes\<close>

text \<open>What Unicode fixes for the classes: their ASCII members, and that letters are not white space.\<close>

locale char_classes =
  fixes A :: "'f cy_api"
  assumes ascii_whitespace: "c < 128 \<Longrightarrow> cc_whitespace A c \<longleftrightarrow> c \<in> {9, 10, 11, 12, 13, 32}"
    and ascii_alphabetic: "c < 128 \<Longrightarrow> cc_alphabetic A c \<longleftrightarrow> 65 \<le> c \<and> c \<le> 90 \<or> 97 \<le> c \<and> c \<le> 122"
    and ascii_numeric: "c < 128 \<Longrightarrow> cc_numeric A c \<longleftrightarrow> 48 \<le> c \<and> c \<le> 57"
    and letters_visible: "cc_alphabetic A c \<Longrightarrow> \<not> cc_whitespace A c"

definition ascii_api :: "'f cy_api" where
  "ascii_api = \<lparr>cc_whitespace = (\<lambda>c. c \<in> {9, 10, 11, 12, 13, 32}),
     cc_alphabetic = (\<lambda>c. 65 \<le> c \<and> c \<le> 90 \<or> 97 \<le> c \<and> c \<le> 122), cc_numeric = (\<lambda>c. 48 \<le> c \<and> c \<le> 57),
     fl_parse = (\<lambda>_. None), fl_neg = (\<lambda>x. x)\<rparr>"

interpretation ascii: char_classes ascii_api
  by unfold_locales (auto simp: ascii_api_def)

section \<open>Writing tokens\<close>

fun show_dec :: "nat \<Rightarrow> rtext" where
  "show_dec n = (if n < 10 then [48 + n] else show_dec (n div 10) @ [48 + n mod 10])"

declare show_dec.simps [simp del]

definition escape :: "rtext \<Rightarrow> rtext" where
  "escape s = concat (map (\<lambda>c. if c = 34 \<or> c = 92 then [92, c] else [c]) s)"

fun tok_text :: "'f tok \<Rightarrow> rtext" where
  "tok_text (TIdent s) = s"
| "tok_text (TStr s) = 34 # escape s @ [34]"
| "tok_text (TInt n) = show_dec (unat n)"
| "tok_text TLParen = str ''(''" | "tok_text TRParen = str '')''"
| "tok_text TLBracket = str ''[''" | "tok_text TRBracket = str '']''"
| "tok_text TLBrace = str ''{''" | "tok_text TRBrace = str ''}''"
| "tok_text TColon = str '':''" | "tok_text TComma = str '',''" | "tok_text TDot = str ''.''" | "tok_text TDotDot = str ''..''"
| "tok_text TDash = str ''-''" | "tok_text TStar = str ''*''" | "tok_text TPlus = str ''+''" | "tok_text TSlash = str ''/''"
| "tok_text TLt = str ''<''" | "tok_text TGt = str ''>''" | "tok_text TEq = str ''=''" | "tok_text TNe = str ''<>''"
| "tok_text TLe = str ''<=''" | "tok_text TGe = str ''>=''"
| "tok_text _ = []"

text \<open>The tokens that can be written: identifiers as the lexer reads them, and no fractions.\<close>

definition ident_ok :: "'f cy_api \<Rightarrow> rtext \<Rightarrow> bool" where
  "ident_ok A s \<longleftrightarrow> s \<noteq> [] \<and> (cc_alphabetic A (hd s) \<or> hd s = ch CHR ''_'') \<and> list_all (ident_char A) s"

fun tok_ok :: "'f cy_api \<Rightarrow> 'f tok \<Rightarrow> bool" where
  "tok_ok A (TIdent s) \<longleftrightarrow> ident_ok A s"
| "tok_ok A (TInt n) \<longleftrightarrow> unat n < 2 ^ 63"
| "tok_ok A (TFloat v) \<longleftrightarrow> False"
| "tok_ok A TEof \<longleftrightarrow> False"
| "tok_ok A _ \<longleftrightarrow> True"

definition write_tokens :: "'f tok list \<Rightarrow> rtext" where
  "write_tokens ts = concat (map (\<lambda>t. tok_text t @ [32]) ts)"

lemma show_dec_digits: "list_all is_ascii_digit (show_dec n) \<and> show_dec n \<noteq> [] \<and> digits_value (show_dec n) = n"
proof (induction n rule: show_dec.induct)
  case (1 n)
  show ?case
  proof (cases "n < 10")
    case True
    then show ?thesis by (subst (1 2 3) show_dec.simps) (auto simp: is_ascii_digit_def digits_value_def)
  next
    case False
    then show ?thesis using 1 by (subst (1 2 3) show_dec.simps) (auto simp: digits_value_def, simp add: is_ascii_digit_def)
  qed
qed

lemma lex_string_escape: "lex_string 34 i s (escape s' @ 34 # x # rest) = Some (s @ s', i + length (escape s') + 1, x # rest)"
proof (induction s' arbitrary: s i)
  case (Cons c s')
  have "\<exists>d ds. escape s' @ 34 # x # rest = d # ds" by (cases "escape s'") auto
  then obtain d ds where ds: "escape s' @ 34 # x # rest = d # ds" by blast
  then show ?case using Cons.IH by (auto simp: escape_def unescape_def)
qed (simp add: escape_def)

context char_classes
begin

lemma visible: "c < 128 \<Longrightarrow> 33 \<le> c \<Longrightarrow> \<not> cc_whitespace A c"
  using ascii_whitespace by auto

lemma symbol_none:
  assumes "cc_alphabetic A c \<or> c = 95 \<or> is_ascii_digit c \<or> c = 34"
  shows "lex_symbol c cs = None"
proof -
  have "c \<notin> {40, 41, 91, 93, 123, 125, 58, 44, 46, 45, 42, 43, 47, 61, 60, 62}"
    using assms ascii_alphabetic [of c] by (auto simp: is_ascii_digit_def)
  then show ?thesis by (simp add: lex_symbol_def)
qed

lemma stop_at_space: "\<not> ident_char A 32" "\<not> is_ascii_digit 32"
  using ascii_alphabetic [of 32] ascii_numeric [of 32] by (simp_all add: ident_char_def is_ascii_digit_def)

lemma take_all_while: "list_all P s \<Longrightarrow> \<not> P x \<Longrightarrow> takeWhile P (s @ x # rest) = s \<and> dropWhile P (s @ x # rest) = x # rest"
  by (induction s) auto

lemma lex_ident:
  assumes "ident_ok A (c # s)"
  shows "\<not> cc_whitespace A c" "c \<noteq> 47" "lex_token A i c (s @ 32 # rest) = Inr (TIdent (c # s), i + Suc (length s), 32 # rest)"
proof -
  have c: "cc_alphabetic A c \<or> c = 95" "list_all (ident_char A) (c # s)" using assms by (auto simp: ident_ok_def)
  show "\<not> cc_whitespace A c" using c(1) letters_visible [of c] visible [of c] by auto
  show "c \<noteq> 47" using c(1) ascii_alphabetic [of 47] by auto
  have "c \<noteq> 39 \<and> c \<noteq> 34 \<and> \<not> is_ascii_digit c" using c(1) ascii_alphabetic [of c] by (auto simp: is_ascii_digit_def)
  then show "lex_token A i c (s @ 32 # rest) = Inr (TIdent (c # s), i + Suc (length s), 32 # rest)"
    using c take_all_while [of "ident_char A" "c # s" 32 rest] stop_at_space(1)
    by (auto simp: lex_token_def Let_def symbol_none)
qed

lemma lex_int:
  assumes "unat n < 2 ^ 63" "show_dec (unat n) = c # s"
  shows "\<not> cc_whitespace A c" "c \<noteq> 47" "lex_token A i c (s @ 32 # rest) = Inr (TInt n, i + Suc (length s), 32 # rest)"
proof -
  have c: "list_all is_ascii_digit (c # s)" "digits_value (c # s) = unat n" using show_dec_digits [of "unat n"] assms(2) by simp_all
  then have d: "is_ascii_digit c" by simp
  then show "\<not> cc_whitespace A c" "c \<noteq> 47" using visible [of c] by (auto simp: is_ascii_digit_def)
  have "c \<noteq> 39" "c \<noteq> 34" using d by (auto simp: is_ascii_digit_def)
  moreover have "parse_i64 (c # s) = Some n" using c(2) assms(1) by (simp add: parse_i64_def)
  ultimately show "lex_token A i c (s @ 32 # rest) = Inr (TInt n, i + Suc (length s), 32 # rest)"
    using d take_all_while [OF c(1) stop_at_space(2), of rest]
    by (auto simp: lex_token_def symbol_none lex_number_def Let_def fraction_ahead_def split: list.split)
qed

lemma lex_string_token: "lex_token A i 34 (escape s @ 34 # 32 # rest) = Inr (TStr s, i + length (escape s) + 2, 32 # rest)"
  using lex_string_escape [of "i + 1" "[]" s 32 rest] by (simp add: lex_token_def symbol_none)

text \<open>A token that is written with a space after it is read back.\<close>

lemma lex_written_token:
  assumes "tok_ok A t"
  shows "\<exists>c cs. tok_text t = c # cs \<and> \<not> cc_whitespace A c \<and> (c = 47 \<longrightarrow> \<not> next_is CHR ''/'' (cs @ 32 # rest)) \<and>
    lex_token A i c (cs @ 32 # rest) = Inr (t, i + length (tok_text t), 32 # rest)"
proof (cases t)
  case (TIdent s)
  then obtain c s' where s: "s = c # s'" using assms by (cases s) (auto simp: ident_ok_def)
  then show ?thesis using lex_ident [of c s'] assms by (simp add: TIdent)
next
  case (TStr s)
  then show ?thesis using lex_string_token [of i s rest] visible [of 34] by simp
next
  case (TInt n)
  obtain c s where s: "show_dec (unat n) = c # s" using show_dec_digits [of "unat n"] by (cases "show_dec (unat n)") auto
  then show ?thesis using lex_int [OF _ s] assms by (simp add: TInt)
qed (use assms visible in \<open>simp_all add: lex_token_def lex_symbol_def next_is_def\<close>)

lemma lex_loop_written:
  assumes "list_all (tok_ok A) ts"
  shows "\<exists>ss e. lex_loop A i (write_tokens ts) out = Inr (out @ ss @ [\<lparr>sp_tok = TEof, sp_pos = e\<rparr>]) \<and> map sp_tok ss = ts"
  using assms
proof (induction ts arbitrary: i out)
  case (Cons t ts)
  obtain c cs where c: "tok_text t = c # cs" "\<not> cc_whitespace A c" "c = 47 \<longrightarrow> \<not> next_is CHR ''/'' (cs @ 32 # write_tokens ts)"
    "lex_token A i c (cs @ 32 # write_tokens ts) = Inr (t, i + length (tok_text t), 32 # write_tokens ts)"
    using lex_written_token [of t "write_tokens ts" i] Cons.prems by auto
  obtain ss e where "lex_loop A (i + length (tok_text t) + 1) (write_tokens ts) (out @ [\<lparr>sp_tok = t, sp_pos = i\<rparr>]) =
      Inr ((out @ [\<lparr>sp_tok = t, sp_pos = i\<rparr>]) @ ss @ [\<lparr>sp_tok = TEof, sp_pos = e\<rparr>])" "map sp_tok ss = ts"
    using Cons by fastforce
  moreover have "write_tokens (t # ts) = c # cs @ 32 # write_tokens ts" by (simp add: write_tokens_def c(1))
  ultimately show ?case
    using c(2-4) ascii_whitespace [of 32] by (intro exI [of _ "\<lparr>sp_tok = t, sp_pos = i\<rparr> # ss"] exI [of _ e]) auto
qed (simp add: write_tokens_def)

lemma lex_written:
  assumes "list_all (tok_ok A) ts"
  shows "\<exists>ss. lex A (write_tokens ts) = Inr ss \<and> map sp_tok ss = ts @ [TEof]"
  using lex_loop_written [OF assms, of 0 "[]"] by (auto simp: lex_def)

end

end
