(* ===== verification/CypherParser.thy ===== *)
theory CypherParser
  imports CypherLexer
begin

text \<open>
  The parser of the openCypher front end, \<^verbatim>\<open>crates/core/nova-cypher/src/ast.rs\<close> and \<^verbatim>\<open>parser.rs\<close>: recursive
  descent over the tokens, with an index of the next one. A parse returns \<open>None\<close> for a panic (an index out of
  range, \<^verbatim>\<open>unreachable!()\<close>) or when it does not end, \<open>Inl\<close> for a syntax error with its position, and \<open>Inr\<close> for a
  result with the parser after it. The mutually recursive expression functions are one function over their
  nonterminals.
\<close>

section \<open>Syntax trees\<close>

datatype 'f lit = LStr rtext | LInt i64 | LFloat 'f | LBool bool | LNull

datatype 'f expr =
    EVariable rtext
  | EProperty "'f expr" rtext
  | ELiteral "'f lit"
  | EAnd "'f expr" "'f expr" | EOr "'f expr" "'f expr" | ENot "'f expr"
  | EEq "'f expr" "'f expr" | ENe "'f expr" "'f expr" | ELt "'f expr" "'f expr"
  | ELe "'f expr" "'f expr" | EGt "'f expr" "'f expr" | EGe "'f expr" "'f expr"
  | EAdd "'f expr" "'f expr" | ESub "'f expr" "'f expr" | EMul "'f expr" "'f expr" | EDiv "'f expr" "'f expr"
  | ENeg "'f expr"

datatype rel_direction = DirRight | DirLeft | DirEither

record var_length =
  vl_min :: "u64 option"
  vl_max :: "u64 option"

record 'f node_pattern =
  np_variable :: "rtext option"
  np_labels :: "rtext list"
  np_properties :: "(rtext \<times> 'f lit) list"

record 'f rel_pattern =
  rp_variable :: "rtext option"
  rp_type :: "rtext option"
  rp_direction :: rel_direction
  rp_length :: "var_length option"
  rp_properties :: "(rtext \<times> 'f lit) list"

record 'f pattern =
  pt_start :: "'f node_pattern"
  pt_hops :: "('f rel_pattern \<times> 'f node_pattern) list"

record 'f return_item =
  ri_expr :: "'f expr"
  ri_alias :: "rtext option"

record 'f return_clause =
  rc_distinct :: bool
  rc_items :: "'f return_item list"

record 'f order_item =
  oi_expr :: "'f expr"
  oi_descending :: bool

record 'f cypher_query =
  cq_pattern :: "'f pattern"
  cq_where :: "'f expr option"
  cq_return :: "'f return_clause"
  cq_order_by :: "'f order_item list"
  cq_skip :: "u64 option"
  cq_limit :: "u64 option"

datatype 'f write_clause =
    WCreate "'f pattern"
  | WSetProperty rtext rtext "'f expr"
  | WSetLabel rtext rtext
  | WDelete "rtext list" bool
  | WRemoveProperty rtext rtext
  | WRemoveLabel rtext rtext

record 'f cypher_statement =
  cs_pattern :: "'f pattern option"
  cs_where :: "'f expr option"
  cs_writes :: "'f write_clause list"

datatype 'f program = Query "'f cypher_query" | Statement "'f cypher_statement"

text \<open>The messages of the parser.\<close>

datatype 'f cy_message =
    TrailingInput "'f tok" | ExpectedKeyword string "'f tok" | ExpectedTok "'f tok" "'f tok" | ExpectedIdent "'f tok"
  | SecondMatch | NotSupported string | ReturnAfterWrite | ExpectedMatch | ExpectedWrite "'f tok"
  | ExpectedInSet rtext "'f tok" | ExpectedInRemove rtext "'f tok" | ExpectedUint "'f tok" | BothArrows
  | ExpectedNumber "'f tok" | ExpectedLiteral "'f tok" | ExpectedExpr "'f tok"

datatype 'f cy_error = LexError lex_error | ParseError "'f cy_message" nat | IsWrite | IsRead

section \<open>The parser state\<close>

record 'f parser =
  ps_toks :: "'f spanned list"
  ps_pos :: nat

type_synonym ('f, 'a) parse = "('f cy_error + 'a \<times> 'f parser) option"

text \<open>The \<open>?\<close> operator.\<close>

definition pbind :: "('f, 'a) parse \<Rightarrow> ('a \<Rightarrow> 'f parser \<Rightarrow> ('f, 'b) parse) \<Rightarrow> ('f, 'b) parse" where
  "pbind m k = Option.bind m (\<lambda>r. case r of Inl e \<Rightarrow> Some (Inl e) | Inr xp \<Rightarrow> k (fst xp) (snd xp))"

lemma pbind_simps [simp]:
  "pbind None k = None" "pbind (Some (Inl e)) k = Some (Inl e)" "pbind (Some (Inr (x, p))) k = k x p"
  by (simp_all add: pbind_def)

lemma pbind_mono [partial_function_mono]:
  assumes "mono_option B" "\<And>x p. mono_option (\<lambda>f. C x p f)"
  shows "mono_option (\<lambda>f. pbind (B f) (\<lambda>x p. C x p f))"
  unfolding pbind_def
proof (rule Partial_Function.bind_mono [OF assms(1)])
  fix r :: "'c cy_error + 'd \<times> 'c parser"
  show "mono_option (\<lambda>f. case r of Inl e \<Rightarrow> Some (Inl e) | Inr xp \<Rightarrow> C (fst xp) (snd xp) f)"
    by (cases r) (simp_all add: assms(2) option.const_mono)
qed

definition peek :: "'f parser \<Rightarrow> 'f tok option" where
  "peek p = (if ps_pos p < length (ps_toks p) then Some (sp_tok (ps_toks p ! ps_pos p)) else None)"

definition peek_pos :: "'f parser \<Rightarrow> nat option" where
  "peek_pos p = (if ps_pos p < length (ps_toks p) then Some (sp_pos (ps_toks p ! ps_pos p)) else None)"

definition advance_tok :: "'f parser \<Rightarrow> ('f tok \<times> 'f parser) option" where
  "advance_tok p = map_option (\<lambda>t. (t, if ps_pos p + 1 < length (ps_toks p) then p\<lparr>ps_pos := ps_pos p + 1\<rparr> else p)) (peek p)"

definition perr :: "'f cy_message \<Rightarrow> 'f parser \<Rightarrow> ('f, 'a) parse" where
  "perr msg p = map_option (\<lambda>i. Inl (ParseError msg i)) (peek_pos p)"

definition expect_eof :: "'f parser \<Rightarrow> ('f, unit) parse" where
  "expect_eof p = do {t \<leftarrow> peek p; if t = TEof then Some (Inr ((), p)) else perr (TrailingInput t) p}"

text \<open>Rust's \<^verbatim>\<open>eq_ignore_ascii_case\<close>.\<close>

definition ascii_lower :: "rchar \<Rightarrow> rchar" where
  "ascii_lower c = (if 65 \<le> c \<and> c \<le> 90 then c + 32 else c)"

definition eq_ignore_case :: "rtext \<Rightarrow> rtext \<Rightarrow> bool" where
  "eq_ignore_case s t \<longleftrightarrow> map ascii_lower s = map ascii_lower t"

definition is_keyword :: "string \<Rightarrow> 'f tok \<Rightarrow> bool" where
  "is_keyword kw t \<longleftrightarrow> (case t of TIdent s \<Rightarrow> eq_ignore_case s (str kw) | _ \<Rightarrow> False)"

definition at_keyword :: "'f parser \<Rightarrow> string \<Rightarrow> bool option" where
  "at_keyword p kw = map_option (is_keyword kw) (peek p)"

definition eat_keyword :: "string \<Rightarrow> 'f parser \<Rightarrow> ('f, unit) parse" where
  "eat_keyword kw p =
     do {t \<leftarrow> peek p;
         if is_keyword kw t then do {(_, p) \<leftarrow> advance_tok p; Some (Inr ((), p))} else perr (ExpectedKeyword kw t) p}"

definition eat_tok :: "'f tok \<Rightarrow> 'f parser \<Rightarrow> ('f, unit) parse" where
  "eat_tok expected p =
     do {t \<leftarrow> peek p;
         if t = expected then do {(_, p) \<leftarrow> advance_tok p; Some (Inr ((), p))} else perr (ExpectedTok expected t) p}"

definition eat_ident :: "'f parser \<Rightarrow> ('f, rtext) parse" where
  "eat_ident p =
     do {t \<leftarrow> peek p;
         case t of
           TIdent s \<Rightarrow> do {(_, p) \<leftarrow> advance_tok p; Some (Inr (s, p))}
         | other \<Rightarrow> perr (ExpectedIdent other) p}"

section \<open>Expressions\<close>

datatype 'f nonterm =
    NtOr | NtOrLoop "'f expr" | NtAnd | NtAndLoop "'f expr" | NtNot | NtComparison
  | NtAdditive | NtAdditiveLoop "'f expr" | NtMultiplicative | NtMultiplicativeLoop "'f expr"
  | NtUnary | NtAtom

fun comparison :: "'f tok \<Rightarrow> ('f expr \<Rightarrow> 'f expr \<Rightarrow> 'f expr) option" where
  "comparison TEq = Some EEq"
| "comparison TNe = Some ENe"
| "comparison TLt = Some ELt"
| "comparison TLe = Some ELe"
| "comparison TGt = Some EGt"
| "comparison TGe = Some EGe"
| "comparison _ = None"

definition literal_word :: "rtext \<Rightarrow> 'f lit option" where
  "literal_word s =
     (if eq_ignore_case s (str ''true'') then Some (LBool True)
      else if eq_ignore_case s (str ''false'') then Some (LBool False)
      else if eq_ignore_case s (str ''null'') then Some LNull else None)"

text \<open>The property accesses after a variable.\<close>

partial_function (option) path_loop :: "'f expr \<Rightarrow> 'f parser \<Rightarrow> ('f, 'f expr) parse" where
  "path_loop e p =
     do {t \<leftarrow> peek p;
         if t = TDot then do {
           (_, p) \<leftarrow> advance_tok p;
           pbind (eat_ident p) (\<lambda>prop p. path_loop (EProperty e prop) p)}
         else Some (Inr (e, p))}"

partial_function (option) parse_nt :: "'f nonterm \<Rightarrow> 'f parser \<Rightarrow> ('f, 'f expr) parse" where
  "parse_nt nt p =
     (case nt of
        NtOr \<Rightarrow> pbind (parse_nt NtAnd p) (\<lambda>lhs p. parse_nt (NtOrLoop lhs) p)
      | NtOrLoop lhs \<Rightarrow>
          do {b \<leftarrow> at_keyword p ''OR'';
              if b then do {
                (_, p) \<leftarrow> advance_tok p;
                pbind (parse_nt NtAnd p) (\<lambda>rhs p. parse_nt (NtOrLoop (EOr lhs rhs)) p)}
              else Some (Inr (lhs, p))}
      | NtAnd \<Rightarrow> pbind (parse_nt NtNot p) (\<lambda>lhs p. parse_nt (NtAndLoop lhs) p)
      | NtAndLoop lhs \<Rightarrow>
          do {b \<leftarrow> at_keyword p ''AND'';
              if b then do {
                (_, p) \<leftarrow> advance_tok p;
                pbind (parse_nt NtNot p) (\<lambda>rhs p. parse_nt (NtAndLoop (EAnd lhs rhs)) p)}
              else Some (Inr (lhs, p))}
      | NtNot \<Rightarrow>
          do {b \<leftarrow> at_keyword p ''NOT'';
              if b then do {
                (_, p) \<leftarrow> advance_tok p;
                pbind (parse_nt NtNot p) (\<lambda>e p. Some (Inr (ENot e, p)))}
              else parse_nt NtComparison p}
      | NtComparison \<Rightarrow>
          pbind (parse_nt NtAdditive p) (\<lambda>lhs p. do {
            t \<leftarrow> peek p;
            case comparison t of
              Some ctor \<Rightarrow> do {
                (_, p) \<leftarrow> advance_tok p;
                pbind (parse_nt NtAdditive p) (\<lambda>rhs p. Some (Inr (ctor lhs rhs, p)))}
            | None \<Rightarrow> Some (Inr (lhs, p))})
      | NtAdditive \<Rightarrow> pbind (parse_nt NtMultiplicative p) (\<lambda>lhs p. parse_nt (NtAdditiveLoop lhs) p)
      | NtAdditiveLoop lhs \<Rightarrow>
          do {t \<leftarrow> peek p;
              if t = TPlus then do {
                (_, p) \<leftarrow> advance_tok p;
                pbind (parse_nt NtMultiplicative p) (\<lambda>rhs p. parse_nt (NtAdditiveLoop (EAdd lhs rhs)) p)}
              else if t = TDash then do {
                (_, p) \<leftarrow> advance_tok p;
                pbind (parse_nt NtMultiplicative p) (\<lambda>rhs p. parse_nt (NtAdditiveLoop (ESub lhs rhs)) p)}
              else Some (Inr (lhs, p))}
      | NtMultiplicative \<Rightarrow> pbind (parse_nt NtUnary p) (\<lambda>lhs p. parse_nt (NtMultiplicativeLoop lhs) p)
      | NtMultiplicativeLoop lhs \<Rightarrow>
          do {t \<leftarrow> peek p;
              if t = TStar then do {
                (_, p) \<leftarrow> advance_tok p;
                pbind (parse_nt NtUnary p) (\<lambda>rhs p. parse_nt (NtMultiplicativeLoop (EMul lhs rhs)) p)}
              else if t = TSlash then do {
                (_, p) \<leftarrow> advance_tok p;
                pbind (parse_nt NtUnary p) (\<lambda>rhs p. parse_nt (NtMultiplicativeLoop (EDiv lhs rhs)) p)}
              else Some (Inr (lhs, p))}
      | NtUnary \<Rightarrow>
          do {t \<leftarrow> peek p;
              if t = TDash then do {
                (_, p) \<leftarrow> advance_tok p;
                pbind (parse_nt NtUnary p) (\<lambda>e p. Some (Inr (ENeg e, p)))}
              else parse_nt NtAtom p}
      | NtAtom \<Rightarrow>
          do {t \<leftarrow> peek p;
              case t of
                TLParen \<Rightarrow> do {
                  (_, p) \<leftarrow> advance_tok p;
                  pbind (parse_nt NtOr p) (\<lambda>e p. pbind (eat_tok TRParen p) (\<lambda>_ p. Some (Inr (e, p))))}
              | TStr s \<Rightarrow> do {(_, p) \<leftarrow> advance_tok p; Some (Inr (ELiteral (LStr s), p))}
              | TInt n \<Rightarrow> do {(_, p) \<leftarrow> advance_tok p; Some (Inr (ELiteral (LInt n), p))}
              | TFloat n \<Rightarrow> do {(_, p) \<leftarrow> advance_tok p; Some (Inr (ELiteral (LFloat n), p))}
              | TIdent s \<Rightarrow> do {
                  (_, p) \<leftarrow> advance_tok p;
                  case literal_word s of
                    Some l \<Rightarrow> Some (Inr (ELiteral l, p))
                  | None \<Rightarrow> path_loop (EVariable s) p}
              | other \<Rightarrow> perr (ExpectedExpr other) p})"

definition parse_expr :: "'f parser \<Rightarrow> ('f, 'f expr) parse" where
  "parse_expr p = parse_nt NtOr p"

section \<open>Lists and literals\<close>

text \<open>The loop over items that are separated by commas.\<close>

partial_function (option) comma_loop ::
  "('f parser \<Rightarrow> ('f, 'a) parse) \<Rightarrow> 'a list \<Rightarrow> 'f parser \<Rightarrow> ('f, 'a list) parse" where
  "comma_loop item items p =
     do {t \<leftarrow> peek p;
         if t = TComma then do {
           (_, p) \<leftarrow> advance_tok p;
           pbind (item p) (\<lambda>x p. comma_loop item (items @ [x]) p)}
         else Some (Inr (items, p))}"

definition comma_list :: "('f parser \<Rightarrow> ('f, 'a) parse) \<Rightarrow> 'f parser \<Rightarrow> ('f, 'a list) parse" where
  "comma_list item p = pbind (item p) (\<lambda>x p. comma_loop item [x] p)"

definition parse_uint :: "'f parser \<Rightarrow> ('f, u64) parse" where
  "parse_uint p =
     do {(t, p) \<leftarrow> advance_tok p;
         case t of
           TInt n \<Rightarrow> if 0 \<le> sint n then Some (Inr (n, p)) else perr (ExpectedUint t) p
         | _ \<Rightarrow> perr (ExpectedUint t) p}"

definition parse_literal :: "'f cy_api \<Rightarrow> 'f parser \<Rightarrow> ('f, 'f lit) parse" where
  "parse_literal A p =
     do {(t, p) \<leftarrow> advance_tok p;
         case t of
           TStr s \<Rightarrow> Some (Inr (LStr s, p))
         | TInt n \<Rightarrow> Some (Inr (LInt n, p))
         | TFloat n \<Rightarrow> Some (Inr (LFloat n, p))
         | TDash \<Rightarrow> do {
             (u, p) \<leftarrow> advance_tok p;
             case u of
               TInt n \<Rightarrow> Some (Inr (LInt (- n), p))
             | TFloat n \<Rightarrow> Some (Inr (LFloat (fl_neg A n), p))
             | other \<Rightarrow> perr (ExpectedNumber other) p}
         | TIdent s \<Rightarrow>
             (case literal_word s of Some l \<Rightarrow> Some (Inr (l, p)) | None \<Rightarrow> perr (ExpectedLiteral t) p)
         | other \<Rightarrow> perr (ExpectedLiteral other) p}"

definition property_item :: "'f cy_api \<Rightarrow> 'f parser \<Rightarrow> ('f, rtext \<times> 'f lit) parse" where
  "property_item A p =
     pbind (eat_ident p) (\<lambda>key p. pbind (eat_tok TColon p) (\<lambda>_ p. pbind (parse_literal A p) (\<lambda>v p. Some (Inr ((key, v), p)))))"

definition parse_properties :: "'f cy_api \<Rightarrow> 'f parser \<Rightarrow> ('f, (rtext \<times> 'f lit) list) parse" where
  "parse_properties A p =
     pbind (eat_tok TLBrace p) (\<lambda>_ p. do {
       t \<leftarrow> peek p;
       pbind (if t \<noteq> TRBrace then comma_list (property_item A) p else Some (Inr ([], p))) (\<lambda>props p.
       pbind (eat_tok TRBrace p) (\<lambda>_ p. Some (Inr (props, p))))})"

section \<open>Patterns\<close>

partial_function (option) label_loop :: "rtext list \<Rightarrow> 'f parser \<Rightarrow> ('f, rtext list) parse" where
  "label_loop labels p =
     do {t \<leftarrow> peek p;
         if t = TColon then do {
           (_, p) \<leftarrow> advance_tok p;
           pbind (eat_ident p) (\<lambda>l p. label_loop (labels @ [l]) p)}
         else Some (Inr (labels, p))}"

text \<open>An identifier, if there is one.\<close>

definition opt_ident :: "'f parser \<Rightarrow> ('f, rtext option) parse" where
  "opt_ident p =
     do {t \<leftarrow> peek p;
         case t of TIdent _ \<Rightarrow> pbind (eat_ident p) (\<lambda>v p. Some (Inr (Some v, p))) | _ \<Rightarrow> Some (Inr (None, p))}"

definition opt_properties :: "'f cy_api \<Rightarrow> 'f parser \<Rightarrow> ('f, (rtext \<times> 'f lit) list) parse" where
  "opt_properties A p = do {t \<leftarrow> peek p; if t = TLBrace then parse_properties A p else Some (Inr ([], p))}"

definition parse_node_pattern :: "'f cy_api \<Rightarrow> 'f parser \<Rightarrow> ('f, 'f node_pattern) parse" where
  "parse_node_pattern A p =
     pbind (eat_tok TLParen p) (\<lambda>_ p.
     pbind (opt_ident p) (\<lambda>v p.
     pbind (label_loop [] p) (\<lambda>labels p.
     pbind (opt_properties A p) (\<lambda>props p.
     pbind (eat_tok TRParen p) (\<lambda>_ p.
       Some (Inr (\<lparr>np_variable = v, np_labels = labels, np_properties = props\<rparr>, p)))))))"

text \<open>A bound of a variable length: a negative integer would be a panic.\<close>

definition length_bound :: "'f parser \<Rightarrow> ('f, u64 option) parse" where
  "length_bound p =
     do {t \<leftarrow> peek p;
         case t of
           TInt _ \<Rightarrow> do {
             (u, p) \<leftarrow> advance_tok p;
             case u of TInt n \<Rightarrow> if 0 \<le> sint n then Some (Inr (Some n, p)) else None | _ \<Rightarrow> None}
         | _ \<Rightarrow> Some (Inr (None, p))}"

definition parse_var_length :: "'f parser \<Rightarrow> ('f, var_length) parse" where
  "parse_var_length p =
     pbind (length_bound p) (\<lambda>lo p. do {
       t \<leftarrow> peek p;
       if t = TDotDot then do {
         (_, p) \<leftarrow> advance_tok p;
         pbind (length_bound p) (\<lambda>hi p. Some (Inr (\<lparr>vl_min = lo, vl_max = hi\<rparr>, p)))}
       else Some (Inr (\<lparr>vl_min = lo, vl_max = lo\<rparr>, p))})"

text \<open>Consuming a token if it is the next one.\<close>

definition eat_if :: "'f tok \<Rightarrow> 'f parser \<Rightarrow> ('f, bool) parse" where
  "eat_if expected p =
     do {t \<leftarrow> peek p;
         if t = expected then do {(_, p) \<leftarrow> advance_tok p; Some (Inr (True, p))} else Some (Inr (False, p))}"

definition parse_rel_detail :: "'f cy_api \<Rightarrow> 'f parser \<Rightarrow> ('f, 'f rel_pattern) parse" where
  "parse_rel_detail A p =
     (let rel = \<lparr>rp_variable = None, rp_type = None, rp_direction = DirEither, rp_length = None, rp_properties = []\<rparr> in
      pbind (eat_if TLBracket p) (\<lambda>detail p.
        if detail then
          pbind (opt_ident p) (\<lambda>v p.
          pbind (eat_if TColon p) (\<lambda>colon p.
          pbind (if colon then pbind (eat_ident p) (\<lambda>t p. Some (Inr (Some t, p))) else Some (Inr (None, p))) (\<lambda>t p.
          pbind (eat_if TStar p) (\<lambda>star p.
          pbind (if star then pbind (parse_var_length p) (\<lambda>l p. Some (Inr (Some l, p))) else Some (Inr (None, p))) (\<lambda>len p.
          pbind (opt_properties A p) (\<lambda>props p.
          pbind (eat_tok TRBracket p) (\<lambda>_ p.
            Some (Inr (rel\<lparr>rp_variable := v, rp_type := t, rp_length := len, rp_properties := props\<rparr>, p)))))))))
        else Some (Inr (rel, p))))"

definition parse_rel_pattern :: "'f cy_api \<Rightarrow> 'f parser \<Rightarrow> ('f, 'f rel_pattern) parse" where
  "parse_rel_pattern A p =
     pbind (eat_if TLt p) (\<lambda>left_arrow p.
     pbind (eat_tok TDash p) (\<lambda>_ p.
     pbind (parse_rel_detail A p) (\<lambda>rel p.
     pbind (eat_tok TDash p) (\<lambda>_ p.
     pbind (eat_if TGt p) (\<lambda>right_arrow p.
       if left_arrow \<and> right_arrow then perr BothArrows p
       else Some (Inr (rel\<lparr>rp_direction := (if left_arrow then DirLeft else if right_arrow then DirRight else DirEither)\<rparr>, p)))))))"

partial_function (option) hop_loop ::
  "'f cy_api \<Rightarrow> ('f rel_pattern \<times> 'f node_pattern) list \<Rightarrow> 'f parser \<Rightarrow>
   ('f, ('f rel_pattern \<times> 'f node_pattern) list) parse" where
  "hop_loop A hops p =
     do {t \<leftarrow> peek p;
         if t = TDash \<or> t = TLt then
           pbind (parse_rel_pattern A p) (\<lambda>rel p.
           pbind (parse_node_pattern A p) (\<lambda>node p. hop_loop A (hops @ [(rel, node)]) p))
         else Some (Inr (hops, p))}"

definition parse_pattern :: "'f cy_api \<Rightarrow> 'f parser \<Rightarrow> ('f, 'f pattern) parse" where
  "parse_pattern A p =
     pbind (parse_node_pattern A p) (\<lambda>start p.
     pbind (hop_loop A [] p) (\<lambda>hops p. Some (Inr (\<lparr>pt_start = start, pt_hops = hops\<rparr>, p))))"

section \<open>Clauses\<close>

text \<open>Consuming a keyword if it is the next token.\<close>

definition eat_if_keyword :: "string \<Rightarrow> 'f parser \<Rightarrow> ('f, bool) parse" where
  "eat_if_keyword kw p =
     do {b \<leftarrow> at_keyword p kw;
         if b then do {(_, p) \<leftarrow> advance_tok p; Some (Inr (True, p))} else Some (Inr (False, p))}"

definition parse_return_item :: "'f parser \<Rightarrow> ('f, 'f return_item) parse" where
  "parse_return_item p =
     pbind (parse_expr p) (\<lambda>e p.
     pbind (eat_if_keyword ''AS'' p) (\<lambda>b p.
     pbind (if b then pbind (eat_ident p) (\<lambda>a p. Some (Inr (Some a, p))) else Some (Inr (None, p))) (\<lambda>a p.
       Some (Inr (\<lparr>ri_expr = e, ri_alias = a\<rparr>, p)))))"

definition parse_return_clause :: "'f parser \<Rightarrow> ('f, 'f return_clause) parse" where
  "parse_return_clause p =
     pbind (eat_if_keyword ''DISTINCT'' p) (\<lambda>distinct p.
     pbind (comma_list parse_return_item p) (\<lambda>items p. Some (Inr (\<lparr>rc_distinct = distinct, rc_items = items\<rparr>, p))))"

definition parse_order_item :: "'f parser \<Rightarrow> ('f, 'f order_item) parse" where
  "parse_order_item p =
     pbind (parse_expr p) (\<lambda>e p.
     pbind (eat_if_keyword ''DESC'' p) (\<lambda>desc p.
       if desc then Some (Inr (\<lparr>oi_expr = e, oi_descending = True\<rparr>, p))
       else pbind (eat_if_keyword ''ASC'' p) (\<lambda>_ p. Some (Inr (\<lparr>oi_expr = e, oi_descending = False\<rparr>, p)))))"

definition parse_one_set_item :: "'f parser \<Rightarrow> ('f, 'f write_clause) parse" where
  "parse_one_set_item p =
     pbind (eat_ident p) (\<lambda>v p. do {
       t \<leftarrow> peek p;
       if t = TDot then do {
         (_, p) \<leftarrow> advance_tok p;
         pbind (eat_ident p) (\<lambda>prop p. pbind (eat_tok TEq p) (\<lambda>_ p. pbind (parse_expr p) (\<lambda>e p.
           Some (Inr (WSetProperty v prop e, p)))))}
       else if t = TColon then do {
         (_, p) \<leftarrow> advance_tok p;
         pbind (eat_ident p) (\<lambda>l p. Some (Inr (WSetLabel v l, p)))}
       else perr (ExpectedInSet v t) p})"

definition parse_one_remove_item :: "'f parser \<Rightarrow> ('f, 'f write_clause) parse" where
  "parse_one_remove_item p =
     pbind (eat_ident p) (\<lambda>v p. do {
       t \<leftarrow> peek p;
       if t = TDot then do {
         (_, p) \<leftarrow> advance_tok p;
         pbind (eat_ident p) (\<lambda>prop p. Some (Inr (WRemoveProperty v prop, p)))}
       else if t = TColon then do {
         (_, p) \<leftarrow> advance_tok p;
         pbind (eat_ident p) (\<lambda>l p. Some (Inr (WRemoveLabel v l, p)))}
       else perr (ExpectedInRemove v t) p})"

definition parse_delete_clause :: "'f parser \<Rightarrow> ('f, 'f write_clause) parse" where
  "parse_delete_clause p =
     pbind (eat_if_keyword ''DETACH'' p) (\<lambda>detach p.
     pbind (eat_keyword ''DELETE'' p) (\<lambda>_ p.
     pbind (comma_list eat_ident p) (\<lambda>vs p. Some (Inr (WDelete vs detach, p)))))"

definition at_write_clause_start :: "'f tok \<Rightarrow> bool" where
  "at_write_clause_start t \<longleftrightarrow> is_keyword ''CREATE'' t \<or> is_keyword ''SET'' t \<or> is_keyword ''DELETE'' t \<or> is_keyword ''DETACH'' t \<or>
     is_keyword ''REMOVE'' t"

definition parse_write_clause :: "'f cy_api \<Rightarrow> 'f parser \<Rightarrow> ('f, 'f write_clause list) parse" where
  "parse_write_clause A p =
     do {t \<leftarrow> peek p;
         if is_keyword ''CREATE'' t then do {
           (_, p) \<leftarrow> advance_tok p;
           pbind (parse_pattern A p) (\<lambda>pat p. Some (Inr ([WCreate pat], p)))}
         else if is_keyword ''SET'' t then do {(_, p) \<leftarrow> advance_tok p; comma_list parse_one_set_item p}
         else if is_keyword ''DETACH'' t \<or> is_keyword ''DELETE'' t then
           pbind (parse_delete_clause p) (\<lambda>w p. Some (Inr ([w], p)))
         else if is_keyword ''REMOVE'' t then do {(_, p) \<leftarrow> advance_tok p; comma_list parse_one_remove_item p}
         else perr (ExpectedWrite t) p}"

partial_function (option) write_loop ::
  "'f cy_api \<Rightarrow> 'f write_clause list \<Rightarrow> 'f parser \<Rightarrow> ('f, 'f write_clause list) parse" where
  "write_loop A writes p =
     do {t \<leftarrow> peek p;
         if at_write_clause_start t then pbind (parse_write_clause A p) (\<lambda>ws p. write_loop A (writes @ ws) p)
         else Some (Inr (writes, p))}"

definition parse_write_clauses :: "'f cy_api \<Rightarrow> 'f parser \<Rightarrow> ('f, 'f write_clause list) parse" where
  "parse_write_clauses A p = pbind (parse_write_clause A p) (write_loop A)"

section \<open>Programs\<close>

text \<open>The clauses that are rejected after a pattern.\<close>

fun reject_keywords :: "string list \<Rightarrow> 'f parser \<Rightarrow> ('f, unit) parse" where
  "reject_keywords [] p = Some (Inr ((), p))"
| "reject_keywords (kw # kws) p =
     do {b \<leftarrow> at_keyword p kw; if b then perr (NotSupported kw) p else reject_keywords kws p}"

definition parse_match :: "'f cy_api \<Rightarrow> 'f parser \<Rightarrow> ('f, 'f pattern option \<times> 'f expr option) parse" where
  "parse_match A p =
     pbind (eat_if_keyword ''MATCH'' p) (\<lambda>m p.
       if m then
         pbind (parse_pattern A p) (\<lambda>pat p. do {
           again \<leftarrow> at_keyword p ''MATCH'';
           if again then perr SecondMatch p
           else
             pbind (reject_keywords [''OPTIONAL'', ''MERGE'', ''WITH'', ''UNION'', ''UNWIND''] p) (\<lambda>_ p.
             pbind (eat_if_keyword ''WHERE'' p) (\<lambda>w p.
             pbind (if w then pbind (parse_expr p) (\<lambda>e p. Some (Inr (Some e, p))) else Some (Inr (None, p))) (\<lambda>e p.
               Some (Inr ((Some pat, e), p)))))})
       else Some (Inr ((None, None), p)))"

definition opt_uint :: "string \<Rightarrow> 'f parser \<Rightarrow> ('f, u64 option) parse" where
  "opt_uint kw p =
     pbind (eat_if_keyword kw p) (\<lambda>b p.
       if b then pbind (parse_uint p) (\<lambda>n p. Some (Inr (Some n, p))) else Some (Inr (None, p)))"

definition parse_read_tail :: "'f pattern \<Rightarrow> 'f expr option \<Rightarrow> 'f parser \<Rightarrow> ('f, 'f cypher_query) parse" where
  "parse_read_tail pat wh p =
     pbind (eat_keyword ''RETURN'' p) (\<lambda>_ p.
     pbind (parse_return_clause p) (\<lambda>ret p.
     pbind (eat_if_keyword ''ORDER'' p) (\<lambda>ord p.
     pbind (if ord then pbind (eat_keyword ''BY'' p) (\<lambda>_ p. comma_list parse_order_item p) else Some (Inr ([], p))) (\<lambda>order_by p.
     pbind (opt_uint ''SKIP'' p) (\<lambda>sk p.
     pbind (opt_uint ''LIMIT'' p) (\<lambda>lim p.
       Some (Inr (\<lparr>cq_pattern = pat, cq_where = wh, cq_return = ret, cq_order_by = order_by,
                   cq_skip = sk, cq_limit = lim\<rparr>, p))))))))"

definition parse_program_body :: "'f cy_api \<Rightarrow> 'f parser \<Rightarrow> ('f, 'f program) parse" where
  "parse_program_body A p =
     pbind (parse_match A p) (\<lambda>(pattern, wh) p. do {
       t \<leftarrow> peek p;
       if at_write_clause_start t then
         pbind (parse_write_clauses A p) (\<lambda>writes p. do {
           b \<leftarrow> at_keyword p ''RETURN'';
           if b then perr ReturnAfterWrite p
           else Some (Inr (Statement \<lparr>cs_pattern = pattern, cs_where = wh, cs_writes = writes\<rparr>, p))})
       else
         case pattern of
           None \<Rightarrow> perr ExpectedMatch p
         | Some pat \<Rightarrow>
             if is_keyword ''MERGE'' t then perr (NotSupported ''MERGE'') p
             else pbind (parse_read_tail pat wh p) (\<lambda>q p. Some (Inr (Query q, p)))})"

definition parse_program :: "'f cy_api \<Rightarrow> rtext \<Rightarrow> ('f cy_error + 'f program) option" where
  "parse_program A src =
     (case lex A src of
        Inl e \<Rightarrow> Some (Inl (LexError e))
      | Inr toks \<Rightarrow>
          map_option (map_sum id fst)
            (pbind (parse_program_body A \<lparr>ps_toks = toks, ps_pos = 0\<rparr>) (\<lambda>prog p.
             pbind (expect_eof p) (\<lambda>_ p. Some (Inr (prog, p))))))"

definition cypher_parse :: "'f cy_api \<Rightarrow> rtext \<Rightarrow> ('f cy_error + 'f cypher_query) option" where
  "cypher_parse A src =
     map_option (\<lambda>r. case r of Inl e \<Rightarrow> Inl e | Inr (Query q) \<Rightarrow> Inr q | Inr (Statement _) \<Rightarrow> Inl IsWrite) (parse_program A src)"

definition cypher_parse_statement :: "'f cy_api \<Rightarrow> rtext \<Rightarrow> ('f cy_error + 'f cypher_statement) option" where
  "cypher_parse_statement A src =
     map_option (\<lambda>r. case r of Inl e \<Rightarrow> Inl e | Inr (Statement s) \<Rightarrow> Inr s | Inr (Query _) \<Rightarrow> Inl IsRead) (parse_program A src)"

end
