(* ===== verification/CypherTotal.thy ===== *)
theory CypherTotal
  imports CypherParser
begin

text \<open>
  The parser of the openCypher front end ends without a panic on every source text. \<open>yields n p out\<close> says that
  a call returns and, unless it reports an error, leaves the parser in the token list, at least \<open>n\<close> tokens
  after \<open>p\<close>; each nonterminal consumes a token, which bounds the recursion.
\<close>

section \<open>Progress\<close>

definition good :: "'f parser \<Rightarrow> bool" where
  "good p \<longleftrightarrow> ps_pos p < length (ps_toks p) \<and> sp_tok (last (ps_toks p)) = TEof \<and> (\<forall>s \<in> set (ps_toks p). tok_nonneg (sp_tok s))"

definition yields :: "nat \<Rightarrow> 'f parser \<Rightarrow> ('f, 'a) parse \<Rightarrow> bool" where
  "yields n p out \<longleftrightarrow>
     (\<exists>r. out = Some r \<and> (\<forall>x p'. r = Inr (x, p') \<longrightarrow> good p' \<and> ps_toks p' = ps_toks p \<and> ps_pos p + n \<le> ps_pos p'))"

lemma yields_return: "good p' \<Longrightarrow> ps_toks p' = ps_toks p \<Longrightarrow> ps_pos p + n \<le> ps_pos p' \<Longrightarrow> yields n p (Some (Inr (x, p')))"
  by (simp add: yields_def)

lemma yields_err: "good p' \<Longrightarrow> yields n p (perr msg p')"
  by (simp add: yields_def perr_def peek_pos_def good_def)

lemma yields_call:
  assumes "yields m p' out" "ps_toks p' = ps_toks p" "ps_pos p + n \<le> ps_pos p' + m"
  shows "yields n p out"
proof -
  obtain r where r: "out = Some r" "\<forall>x q. r = Inr (x, q) \<longrightarrow> good q \<and> ps_toks q = ps_toks p' \<and> ps_pos p' + m \<le> ps_pos q"
    using assms(1) unfolding yields_def by blast
  have "good q \<and> ps_toks q = ps_toks p \<and> ps_pos p + n \<le> ps_pos q" if "r = Inr (x, q)" for x q
    using r(2) [rule_format, OF that] assms(2,3) by auto
  then show ?thesis unfolding yields_def r(1) by (intro exI [of _ r] conjI allI impI refl) blast+
qed

lemma yields_bind:
  assumes "yields m p' out" "ps_toks p' = ps_toks p"
    and "\<And>x q. good q \<Longrightarrow> ps_toks q = ps_toks p \<Longrightarrow> ps_pos p' + m \<le> ps_pos q \<Longrightarrow> yields n p (k x q)"
  shows "yields n p (pbind out k)"
proof -
  obtain r where r: "out = Some r" "\<forall>x q. r = Inr (x, q) \<longrightarrow> good q \<and> ps_toks q = ps_toks p' \<and> ps_pos p' + m \<le> ps_pos q"
    using assms(1) by (auto simp: yields_def)
  show ?thesis
  proof (cases r)
    case (Inl e)
    then show ?thesis using r(1) by (simp add: yields_def)
  next
    case (Inr xq)
    then show ?thesis using r assms(2,3) by (cases xq) simp
  qed
qed

lemma pbind_assoc [simp]: "pbind (pbind out f) g = pbind out (\<lambda>x p. pbind (f x p) g)"
  by (cases out) (auto simp: pbind_def split: sum.split)

lemma yields_if: "(b \<Longrightarrow> yields n p x) \<Longrightarrow> (\<not> b \<Longrightarrow> yields n p y) \<Longrightarrow> yields n p (if b then x else y)"
  by simp

lemma good_peek: "good p \<Longrightarrow> \<exists>t. peek p = Some t \<and> tok_nonneg t"
  by (auto simp: good_def peek_def)

lemma yields_peek:
  assumes "good p" "\<And>t. peek p = Some t \<Longrightarrow> tok_nonneg t \<Longrightarrow> yields n q (k t)"
  shows "yields n q (Option.bind (peek p) k)"
  using good_peek [OF assms(1)] assms(2) by auto

lemma yields_at_keyword:
  assumes "good p" "\<And>t. peek p = Some t \<Longrightarrow> yields n q (k (is_keyword kw t))"
  shows "yields n q (Option.bind (at_keyword p kw) k)"
  using good_peek [OF assms(1)] assms(2) by (auto simp: at_keyword_def)

lemma keyword_not_eof: "is_keyword kw t \<Longrightarrow> t \<noteq> TEof"
  by (auto simp: is_keyword_def)

lemma advance_good:
  assumes "good p"
  shows "\<exists>t p'. advance_tok p = Some (t, p') \<and> peek p = Some t \<and> good p' \<and> ps_toks p' = ps_toks p \<and> ps_pos p \<le> ps_pos p' \<and>
    (t \<noteq> TEof \<longrightarrow> ps_pos p' = ps_pos p + 1)"
proof -
  have "ps_pos p + 1 < length (ps_toks p)" if "sp_tok (ps_toks p ! ps_pos p) \<noteq> TEof"
  proof (rule ccontr)
    assume "\<not> ?thesis"
    then have "ps_pos p = length (ps_toks p) - 1" "ps_toks p \<noteq> []" using assms by (auto simp: good_def)
    then show False using that assms by (simp add: good_def last_conv_nth)
  qed
  then show ?thesis using assms by (auto simp: advance_tok_def peek_def good_def)
qed

lemma yields_advance:
  assumes "good p" "peek p = Some t" "t \<noteq> TEof"
    and "\<And>p'. good p' \<Longrightarrow> ps_toks p' = ps_toks p \<Longrightarrow> ps_pos p' = ps_pos p + 1 \<Longrightarrow> yields n q (k (t, p'))"
  shows "yields n q (Option.bind (advance_tok p) k)"
  using advance_good [OF assms(1)] assms(2-4) by auto

lemma yields_any_advance:
  assumes "good p"
    and "\<And>t p'. tok_nonneg t \<Longrightarrow> good p' \<Longrightarrow> ps_toks p' = ps_toks p \<Longrightarrow> ps_pos p \<le> ps_pos p' \<Longrightarrow>
      (t \<noteq> TEof \<longrightarrow> ps_pos p' = ps_pos p + 1) \<Longrightarrow> yields n q (k (t, p'))"
  shows "yields n q (Option.bind (advance_tok p) k)"
proof -
  obtain t p' where "advance_tok p = Some (t, p')" "tok_nonneg t" "good p'" "ps_toks p' = ps_toks p" "ps_pos p \<le> ps_pos p'"
    "t \<noteq> TEof \<longrightarrow> ps_pos p' = ps_pos p + 1" using advance_good [OF assms(1)] good_peek [OF assms(1)] by auto
  then show ?thesis using assms(2) by simp
qed

lemmas yields_intros = yields_peek yields_at_keyword yields_advance yields_if yields_err yields_return

lemma yields_eat_tok: "good p \<Longrightarrow> expected \<noteq> TEof \<Longrightarrow> yields 1 p (eat_tok expected p)"
  unfolding eat_tok_def by (auto intro!: yields_intros)

lemma yields_eat_keyword: "good p \<Longrightarrow> yields 1 p (eat_keyword kw p)"
  unfolding eat_keyword_def by (auto intro!: yields_intros dest: keyword_not_eof)

lemma yields_eat_ident: "good p \<Longrightarrow> yields 1 p (eat_ident p)"
  unfolding eat_ident_def by (auto intro!: yields_intros split: tok.split)

lemma yields_eat_if: "good p \<Longrightarrow> expected \<noteq> TEof \<Longrightarrow> yields 0 p (eat_if expected p)"
  unfolding eat_if_def by (auto intro!: yields_intros)

lemma yields_eat_if_keyword: "good p \<Longrightarrow> yields 0 p (eat_if_keyword kw p)"
  unfolding eat_if_keyword_def by (auto intro!: yields_intros dest: keyword_not_eof)

lemma yields_expect_eof: "good p \<Longrightarrow> yields 0 p (expect_eof p)"
  unfolding expect_eof_def by (auto intro!: yields_intros)

lemmas bind_basic =
  yields_bind [OF yields_eat_tok] yields_bind [OF yields_eat_keyword] yields_bind [OF yields_eat_ident]
  yields_bind [OF yields_eat_if] yields_bind [OF yields_eat_if_keyword]

section \<open>Expressions\<close>

definition left :: "'f parser \<Rightarrow> nat" where
  "left p = length (ps_toks p) - ps_pos p"

lemma left_less: "good q \<Longrightarrow> ps_toks q = ps_toks p \<Longrightarrow> ps_pos p < ps_pos q \<Longrightarrow> left q < left p"
  by (auto simp: left_def good_def)

lemma yields_path_loop: "good p \<Longrightarrow> yields 0 p (path_loop e p)"
proof (induction "left p" arbitrary: p e rule: less_induct)
  case less
  show ?case
  proof (subst path_loop.simps, intro yields_peek yields_if)
    fix t assume "peek p = Some t" "t = TDot"
    then show "yields 0 p (Option.bind (advance_tok p) (\<lambda>(_, p). pbind (eat_ident p) (\<lambda>prop p. path_loop (EProperty e prop) p)))"
      using less by (auto intro!: yields_advance bind_basic yields_call [OF less.hyps] intro: left_less)
  qed (use less.prems in \<open>auto intro: yields_return\<close>)
qed

text \<open>The order in which the nonterminals call each other without consuming a token.\<close>

fun nt_rank :: "'f nonterm \<Rightarrow> nat" where
  "nt_rank NtOr = 8" | "nt_rank NtAnd = 7" | "nt_rank NtNot = 6" | "nt_rank NtComparison = 5" | "nt_rank NtAdditive = 4"
| "nt_rank NtMultiplicative = 3" | "nt_rank NtUnary = 2" | "nt_rank NtAtom = 1" | "nt_rank _ = 0"

definition nt_measure :: "'f nonterm \<Rightarrow> 'f parser \<Rightarrow> nat" where
  "nt_measure nt p = 9 * left p + nt_rank nt"

definition nt_progress :: "'f nonterm \<Rightarrow> nat" where
  "nt_progress nt = (if nt_rank nt = 0 then 0 else 1)"

lemma nt_progress_simps [simp]:
  "nt_progress NtOr = 1" "nt_progress NtAnd = 1" "nt_progress NtNot = 1" "nt_progress NtComparison = 1" "nt_progress NtAdditive = 1"
  "nt_progress NtMultiplicative = 1" "nt_progress NtUnary = 1" "nt_progress NtAtom = 1" "nt_progress (NtOrLoop e) = 0"
  "nt_progress (NtAndLoop e) = 0" "nt_progress (NtAdditiveLoop e) = 0" "nt_progress (NtMultiplicativeLoop e) = 0"
  by (simp_all add: nt_progress_def)

lemma nt_rank_le: "nt_rank nt \<le> 8"
  by (cases nt) simp_all

lemma nt_smaller: "left q < left p \<Longrightarrow> nt_measure nt q < nt_measure nt' p"
  using nt_rank_le [of nt] by (simp add: nt_measure_def)

lemma nt_lower: "nt_rank nt < nt_rank nt' \<Longrightarrow> nt_measure nt p < nt_measure nt' p"
  by (simp add: nt_measure_def)

lemma yields_parse_nt: "good p \<Longrightarrow> yields (nt_progress nt) p (parse_nt nt p)"
proof (induction "nt_measure nt p" arbitrary: nt p rule: less_induct)
  case less
  have lower: "yields 1 p (parse_nt nt' p)" if "nt_rank nt' < nt_rank nt" "nt_progress nt' = 1" for nt'
    using less.hyps [OF nt_lower less.prems] that by force
  have later: "yields (nt_progress nt') q (parse_nt nt' q)" if "good q" "ps_toks q = ps_toks p" "ps_pos p < ps_pos q" for nt' q
    by (rule less.hyps [OF nt_smaller [OF left_less [OF that]] that(1)])
  have later1: "yields 1 q (parse_nt nt' q)" if "good q" "ps_toks q = ps_toks p" "ps_pos p < ps_pos q" "nt_progress nt' = 1" for nt' q
    using later [OF that(1-3), of nt'] that(4) by simp
  note rules = yields_intros bind_basic yields_bind [OF lower] yields_bind [OF later1] yields_call [OF later] yields_call [OF lower]
    yields_call [OF yields_path_loop]
  note eof = keyword_not_eof
  show ?case
  proof (cases nt)
    case NtOr
    then show ?thesis using less.prems by (subst parse_nt.simps) (auto intro!: rules)
  next
    case (NtOrLoop e)
    then show ?thesis using less.prems by (subst parse_nt.simps) (auto intro!: rules dest: eof)
  next
    case NtAnd
    then show ?thesis using less.prems by (subst parse_nt.simps) (auto intro!: rules)
  next
    case (NtAndLoop e)
    then show ?thesis using less.prems by (subst parse_nt.simps) (auto intro!: rules dest: eof)
  next
    case NtNot
    then show ?thesis using less.prems by (subst parse_nt.simps) (auto intro!: rules dest: eof)
  next
    case NtComparison
    then show ?thesis using less.prems by (subst parse_nt.simps) (auto intro!: rules split: option.split)
  next
    case NtAdditive
    then show ?thesis using less.prems by (subst parse_nt.simps) (auto intro!: rules)
  next
    case (NtAdditiveLoop e)
    then show ?thesis using less.prems by (subst parse_nt.simps) (auto intro!: rules)
  next
    case NtMultiplicative
    then show ?thesis using less.prems by (subst parse_nt.simps) (auto intro!: rules)
  next
    case (NtMultiplicativeLoop e)
    then show ?thesis using less.prems by (subst parse_nt.simps) (auto intro!: rules)
  next
    case NtUnary
    then show ?thesis using less.prems by (subst parse_nt.simps) (auto intro!: rules)
  next
    case NtAtom
    obtain t where t: "peek p = Some t" using good_peek [OF less.prems] by blast
    note adv = yields_advance [OF less.prems t]
    show ?thesis using less.prems by (subst parse_nt.simps) (cases t; auto simp: NtAtom t intro!: adv rules split: option.split)
  qed
qed

lemma yields_parse_expr: "good p \<Longrightarrow> yields 1 p (parse_expr p)"
  using yields_parse_nt [of p NtOr] by (simp add: parse_expr_def)

section \<open>Clauses\<close>

lemma yields_comma_loop:
  assumes "\<And>p. good p \<Longrightarrow> yields 1 p (item p)"
  shows "good p \<Longrightarrow> yields 0 p (comma_loop item xs p)"
proof (induction "left p" arbitrary: p xs rule: less_induct)
  case less
  show ?case
    using less.prems
    by (subst comma_loop.simps) (auto intro!: yields_intros yields_bind [OF assms] yields_call [OF less.hyps] intro: left_less)
qed

lemma yields_comma_list:
  assumes "\<And>p. good p \<Longrightarrow> yields 1 p (item p)" "good p"
  shows "yields 1 p (comma_list item p)"
  unfolding comma_list_def using assms by (auto intro!: yields_bind [OF assms(1)] yields_call [OF yields_comma_loop])

lemma yields_label_loop: "good p \<Longrightarrow> yields 0 p (label_loop ls p)"
proof (induction "left p" arbitrary: p ls rule: less_induct)
  case less
  show ?case
    using less.prems
    by (subst label_loop.simps) (auto intro!: yields_intros bind_basic yields_call [OF less.hyps] intro: left_less)
qed

lemma yields_uint: "good p \<Longrightarrow> yields 1 p (parse_uint p)"
  unfolding parse_uint_def by (auto intro!: yields_any_advance yields_if yields_err yields_return split: tok.split)

lemma yields_literal: "good p \<Longrightarrow> yields 1 p (parse_literal A p)"
  unfolding parse_literal_def
  by (auto intro!: yields_any_advance yields_if yields_err yields_return split: tok.split option.split)

lemma yields_property_item: "good p \<Longrightarrow> yields 1 p (property_item A p)"
  unfolding property_item_def by (auto intro!: bind_basic yields_bind [OF yields_literal] yields_return)

lemma yields_properties: "good p \<Longrightarrow> yields 1 p (parse_properties A p)"
  unfolding parse_properties_def
  by (auto intro!: bind_basic yields_peek yields_return yields_bind [OF yields_comma_list [OF yields_property_item]])

lemma yields_opt_ident: "good p \<Longrightarrow> yields 0 p (opt_ident p)"
  unfolding opt_ident_def by (auto intro!: yields_intros bind_basic split: tok.split)

lemma yields_opt_properties: "good p \<Longrightarrow> yields 0 p (opt_properties A p)"
  unfolding opt_properties_def by (auto intro!: yields_peek yields_if yields_return yields_call [OF yields_properties])

lemma sint_nonneg:
  assumes "unat (n :: i64) < 2 ^ 63"
  shows "0 \<le> sint n"
proof -
  have "\<not> bit n 63" using bit_less_power [OF assms, of 63] by blast
  then show ?thesis using bit_last_iff [of n] by (simp add: not_less)
qed

lemma yields_length_bound:
  assumes "good p"
  shows "yields 0 p (length_bound p)"
proof -
  obtain t where t: "peek p = Some t" "tok_nonneg t" using good_peek [OF assms] by blast
  note adv = yields_advance [OF assms t(1)]
  show ?thesis
    using assms t(2) by (cases t; auto simp: length_bound_def t(1) sint_nonneg intro!: adv yields_return)
qed

lemma yields_var_length: "good p \<Longrightarrow> yields 0 p (parse_var_length p)"
  unfolding parse_var_length_def by (auto intro!: yields_bind [OF yields_length_bound] yields_intros)

lemma yields_node_pattern: "good p \<Longrightarrow> yields 2 p (parse_node_pattern A p)"
  unfolding parse_node_pattern_def
  by (auto intro!: bind_basic yields_return yields_bind [OF yields_opt_ident] yields_bind [OF yields_label_loop]
      yields_bind [OF yields_opt_properties])

lemma yields_rel_detail: "good p \<Longrightarrow> yields 0 p (parse_rel_detail A p)"
  unfolding parse_rel_detail_def Let_def
  by (auto intro!: bind_basic yields_if yields_return yields_bind [OF yields_opt_ident] yields_bind [OF yields_var_length]
      yields_bind [OF yields_opt_properties])

lemma yields_rel_pattern: "good p \<Longrightarrow> yields 2 p (parse_rel_pattern A p)"
  unfolding parse_rel_pattern_def by (auto intro!: bind_basic yields_if yields_return yields_err yields_bind [OF yields_rel_detail])

lemma yields_hop_loop: "good p \<Longrightarrow> yields 0 p (hop_loop A hops p)"
proof (induction "left p" arbitrary: p hops rule: less_induct)
  case less
  show ?case
    using less.prems
    by (subst hop_loop.simps)
      (auto intro!: yields_peek yields_if yields_return yields_bind [OF yields_rel_pattern] yields_bind [OF yields_node_pattern]
        yields_call [OF less.hyps] intro: left_less)
qed

lemma yields_pattern: "good p \<Longrightarrow> yields 2 p (parse_pattern A p)"
  unfolding parse_pattern_def by (auto intro!: yields_bind [OF yields_node_pattern] yields_bind [OF yields_hop_loop] yields_return)

lemmas bind_expr = yields_bind [OF yields_parse_expr]

lemma yields_return_item: "good p \<Longrightarrow> yields 1 p (parse_return_item p)"
  unfolding parse_return_item_def by (auto intro!: bind_expr bind_basic yields_return)

lemma yields_return_clause: "good p \<Longrightarrow> yields 1 p (parse_return_clause p)"
  unfolding parse_return_clause_def by (auto intro!: bind_basic yields_return yields_bind [OF yields_comma_list [OF yields_return_item]])

lemma yields_order_item: "good p \<Longrightarrow> yields 1 p (parse_order_item p)"
  unfolding parse_order_item_def by (auto intro!: bind_expr bind_basic yields_if yields_return)

lemma yields_set_item: "good p \<Longrightarrow> yields 1 p (parse_one_set_item p)"
  unfolding parse_one_set_item_def by (auto intro!: bind_expr bind_basic yields_intros)

lemma yields_remove_item: "good p \<Longrightarrow> yields 1 p (parse_one_remove_item p)"
  unfolding parse_one_remove_item_def by (auto intro!: bind_basic yields_intros)

lemma yields_delete_clause: "good p \<Longrightarrow> yields 1 p (parse_delete_clause p)"
  unfolding parse_delete_clause_def by (auto intro!: bind_basic yields_return yields_bind [OF yields_comma_list [OF yields_eat_ident]])

lemma yields_write_clause: "good p \<Longrightarrow> yields 1 p (parse_write_clause A p)"
  unfolding parse_write_clause_def
  by (auto intro!: yields_intros yields_bind [OF yields_pattern] yields_bind [OF yields_delete_clause]
      yields_call [OF yields_comma_list [OF yields_set_item]] yields_call [OF yields_comma_list [OF yields_remove_item]] dest: keyword_not_eof)

lemma yields_write_loop: "good p \<Longrightarrow> yields 0 p (write_loop A ws p)"
proof (induction "left p" arbitrary: p ws rule: less_induct)
  case less
  show ?case
    using less.prems
    by (subst write_loop.simps)
      (auto intro!: yields_peek yields_if yields_return yields_bind [OF yields_write_clause] yields_call [OF less.hyps] intro: left_less)
qed

lemma yields_write_clauses: "good p \<Longrightarrow> yields 1 p (parse_write_clauses A p)"
  unfolding parse_write_clauses_def by (auto intro!: yields_bind [OF yields_write_clause] yields_call [OF yields_write_loop])

lemma yields_reject: "good p \<Longrightarrow> yields 0 p (reject_keywords kws p)"
  by (induction kws) (auto intro!: yields_intros)

lemma yields_match: "good p \<Longrightarrow> yields 0 p (parse_match A p)"
  unfolding parse_match_def
  by (auto intro!: bind_basic yields_if yields_err yields_return yields_at_keyword yields_bind [OF yields_pattern] yields_bind [OF yields_reject]
      bind_expr)

lemma yields_opt_uint: "good p \<Longrightarrow> yields 0 p (opt_uint kw p)"
  unfolding opt_uint_def by (auto intro!: bind_basic yields_if yields_return yields_bind [OF yields_uint])

lemma yields_read_tail: "good p \<Longrightarrow> yields 1 p (parse_read_tail pat wh p)"
  unfolding parse_read_tail_def
  by (auto intro!: bind_basic yields_return yields_bind [OF yields_return_clause] yields_bind [OF yields_comma_list [OF yields_order_item]]
      yields_bind [OF yields_opt_uint])

lemma yields_program_body: "good p \<Longrightarrow> yields 0 p (parse_program_body A p)"
  unfolding parse_program_body_def
  by (auto intro!: yields_peek yields_if yields_err yields_return yields_at_keyword yields_bind [OF yields_match]
      yields_bind [OF yields_write_clauses] yields_bind [OF yields_read_tail] split: option.split)

lemma parse_program_total: "\<exists>r. parse_program A src = Some r"
proof (cases "lex A src")
  case (Inl e)
  then show ?thesis by (simp add: parse_program_def)
next
  case (Inr toks)
  let ?p = "\<lparr>ps_toks = toks, ps_pos = 0\<rparr>"
  obtain ss where ss: "toks = ss @ [\<lparr>sp_tok = TEof, sp_pos = length src\<rparr>]" "lexed (length src) ss" using lex_lexed [OF Inr] by blast
  then have "good ?p" by (auto simp: good_def lexed_def)
  then have "yields 0 ?p (pbind (parse_program_body A ?p) (\<lambda>prog p. pbind (expect_eof p) (\<lambda>_ p. Some (Inr (prog, p)))))"
    by (auto intro!: yields_bind [OF yields_program_body] yields_bind [OF yields_expect_eof] yields_return)
  then show ?thesis using Inr by (auto simp: parse_program_def yields_def)
qed

text \<open>
  (C15) Parsing ends on every source text without a panic: both entry points return a syntax tree or an error,
  whatever the characters. The expression parser's recursion and every loop consume a token each time round, no
  token is read past the end, and no negative number reaches the conversions of the bounds.
\<close>

theorem cypher_parse_total: "(\<exists>r. cypher_parse A src = Some r) \<and> (\<exists>r. cypher_parse_statement A src = Some r)"
  using parse_program_total [of A src] by (auto simp: cypher_parse_def cypher_parse_statement_def)

end
