(* ===== verification/CypherExpr.thy ===== *)
theory CypherExpr
  imports CypherTotal
begin

text \<open>
  Expressions written as tokens, with parentheses only where the precedence of the operators needs them, are
  parsed back. \<open>gives out x ts\<close> says that a call returns \<open>x\<close> and leaves the tokens \<open>ts\<close>. \<open>reads l e\<close> says that the
  nonterminal of precedence \<open>l\<close> reads the tokens of \<open>e\<close> and goes on as its own loop does after \<open>e\<close>, which is what
  the operators that associate to the left need.
\<close>

section \<open>Reading tokens\<close>

definition rem :: "'f parser \<Rightarrow> 'f tok list" where
  "rem p = map sp_tok (drop (ps_pos p) (ps_toks p))"

definition gives :: "('f, 'a) parse \<Rightarrow> 'a \<Rightarrow> 'f tok list \<Rightarrow> bool" where
  "gives out x ts \<longleftrightarrow> (\<exists>p'. out = Some (Inr (x, p')) \<and> rem p' = ts)"

lemma gives_return: "rem p = ts \<Longrightarrow> x = y \<Longrightarrow> gives (Some (Inr (x, p))) y ts"
  by (simp add: gives_def)

lemma gives_bind: "gives out x ts \<Longrightarrow> (\<And>p. rem p = ts \<Longrightarrow> gives (k x p) y us) \<Longrightarrow> gives (pbind out k) y us"
  by (auto simp: gives_def)

lemma peek_rem: "rem p = t # ts \<Longrightarrow> peek p = Some t"
  by (auto simp: rem_def peek_def drop_eq_Nil2 map_eq_Cons_conv not_le nth_via_drop intro: ccontr dest!: sym [of "_ # _"])

lemma advance_rem:
  assumes "rem p = t # ts" "ts \<noteq> []"
  shows "\<exists>p'. advance_tok p = Some (t, p') \<and> rem p' = ts"
proof -
  have pos: "ps_pos p + 1 < length (ps_toks p)"
  proof (rule ccontr)
    assume "\<not> ?thesis"
    then have "length (rem p) \<le> 1" by (simp add: rem_def)
    then show False using assms by (cases ts) auto
  qed
  have "ts = tl (rem p)" using assms(1) by simp
  then have "ts = map sp_tok (drop (ps_pos p + 1) (ps_toks p))" by (simp add: rem_def map_tl [symmetric] drop_Suc tl_drop)
  then show ?thesis using pos peek_rem [OF assms(1)] by (simp add: advance_tok_def rem_def)
qed

lemma gives_peek: "rem p \<noteq> [] \<Longrightarrow> gives (k (hd (rem p))) y us \<Longrightarrow> gives (Option.bind (peek p) k) y us"
  by (cases "rem p") (auto simp: peek_rem)

lemma gives_at_keyword: "rem p \<noteq> [] \<Longrightarrow> gives (k (is_keyword kw (hd (rem p)))) y us \<Longrightarrow> gives (Option.bind (at_keyword p kw) k) y us"
  by (cases "rem p") (auto simp: at_keyword_def peek_rem)

lemma gives_advance:
  assumes "tl (rem p) \<noteq> []" "\<And>q. rem q = tl (rem p) \<Longrightarrow> gives (k (hd (rem p), q)) y us"
  shows "gives (Option.bind (advance_tok p) k) y us"
  using assms advance_rem [of p "hd (rem p)" "tl (rem p)"] by (cases "rem p") auto

lemmas gives_intros = gives_peek gives_at_keyword gives_advance gives_return

lemma bind_eat_tok:
  assumes "tl (rem p) \<noteq> []" "hd (rem p) = t" "\<And>q. rem q = tl (rem p) \<Longrightarrow> gives (k () q) y us"
  shows "gives (pbind (eat_tok t p) k) y us"
proof -
  have "gives (eat_tok t p) () (tl (rem p))" unfolding eat_tok_def using assms(1,2) by (auto intro!: gives_intros)
  then show ?thesis using assms(3) by (rule gives_bind)
qed

lemma bind_eat_keyword:
  assumes "tl (rem p) \<noteq> []" "is_keyword kw (hd (rem p))" "\<And>q. rem q = tl (rem p) \<Longrightarrow> gives (k () q) y us"
  shows "gives (pbind (eat_keyword kw p) k) y us"
proof -
  have "gives (eat_keyword kw p) () (tl (rem p))" unfolding eat_keyword_def using assms(1,2) by (auto intro!: gives_intros)
  then show ?thesis using assms(3) by (rule gives_bind)
qed

lemma gives_eat_ident: "tl (rem p) \<noteq> [] \<Longrightarrow> hd (rem p) = TIdent s \<Longrightarrow> gives (eat_ident p) s (tl (rem p))"
  unfolding eat_ident_def by (auto intro!: gives_intros)

lemma bind_eat_ident:
  assumes "tl (rem p) \<noteq> []" "hd (rem p) = TIdent s" "\<And>q. rem q = tl (rem p) \<Longrightarrow> gives (k s q) y us"
  shows "gives (pbind (eat_ident p) k) y us"
  by (rule gives_bind [OF gives_eat_ident [OF assms(1,2)]]) (rule assms(3))

lemma bind_eat_if:
  assumes "tl (rem p) \<noteq> []" "\<And>q. rem q = (if hd (rem p) = t then tl (rem p) else rem p) \<Longrightarrow> gives (k (hd (rem p) = t) q) y us"
  shows "gives (pbind (eat_if t p) k) y us"
proof -
  have "gives (eat_if t p) (hd (rem p) = t) (if hd (rem p) = t then tl (rem p) else rem p)"
    unfolding eat_if_def using assms(1) by (auto intro!: gives_intros)
  then show ?thesis using assms(2) by (rule gives_bind)
qed

lemma bind_eat_if_keyword:
  assumes "rem p \<noteq> []" "is_keyword kw (hd (rem p)) \<Longrightarrow> tl (rem p) \<noteq> []"
    "\<And>q. rem q = (if is_keyword kw (hd (rem p)) then tl (rem p) else rem p) \<Longrightarrow> gives (k (is_keyword kw (hd (rem p))) q) y us"
  shows "gives (pbind (eat_if_keyword kw p) k) y us"
proof -
  have "gives (eat_if_keyword kw p) (is_keyword kw (hd (rem p))) (if is_keyword kw (hd (rem p)) then tl (rem p) else rem p)"
    unfolding eat_if_keyword_def using assms(1,2) by (auto intro!: gives_intros)
  then show ?thesis using assms(3) by (rule gives_bind)
qed

lemmas bind_intros = bind_eat_tok bind_eat_keyword bind_eat_ident bind_eat_if bind_eat_if_keyword

section \<open>Keywords\<close>

abbreviation kw :: "string \<Rightarrow> 'f tok" where
  "kw s \<equiv> TIdent (str s)"

lemma is_keyword_other [simp]:
  "\<not> is_keyword s (TStr x)" "\<not> is_keyword s (TInt n)" "\<not> is_keyword s TLParen" "\<not> is_keyword s TRParen" "\<not> is_keyword s TComma"
  "\<not> is_keyword s TEof" "\<not> is_keyword s TDash" "\<not> is_keyword s TDot" "\<not> is_keyword s TColon"
  by (simp_all add: is_keyword_def)

lemmas word_simps = is_keyword_def eq_ignore_case_def ascii_lower_def

section \<open>Writing expressions\<close>

fun lit_toks :: "'f lit \<Rightarrow> 'f tok list" where
  "lit_toks (LStr s) = [TStr s]"
| "lit_toks (LInt n) = (if 0 \<le> sint n then [TInt n] else [TDash, TInt (- n)])"
| "lit_toks (LFloat v) = [TFloat v]"
| "lit_toks (LBool b) = [if b then kw ''true'' else kw ''false'']"
| "lit_toks LNull = [kw ''null'']"

definition paren :: "bool \<Rightarrow> 'f tok list \<Rightarrow> 'f tok list" where
  "paren b ts = (if b then TLParen # ts @ [TRParen] else ts)"

text \<open>An expression in a context of precedence \<open>l\<close>: 0 for \<open>OR\<close>, 7 for an operand.\<close>

fun expr_toks :: "nat \<Rightarrow> 'f expr \<Rightarrow> 'f tok list" where
  "expr_toks l (EVariable s) = [TIdent s]"
| "expr_toks l (EProperty e s) = expr_toks 7 e @ [TDot, TIdent s]"
| "expr_toks l (ELiteral x) = lit_toks x"
| "expr_toks l (EOr a b) = paren (0 < l) (expr_toks 0 a @ kw ''OR'' # expr_toks 1 b)"
| "expr_toks l (EAnd a b) = paren (1 < l) (expr_toks 1 a @ kw ''AND'' # expr_toks 2 b)"
| "expr_toks l (ENot a) = paren (2 < l) (kw ''NOT'' # expr_toks 2 a)"
| "expr_toks l (EEq a b) = paren (3 < l) (expr_toks 4 a @ TEq # expr_toks 4 b)"
| "expr_toks l (ENe a b) = paren (3 < l) (expr_toks 4 a @ TNe # expr_toks 4 b)"
| "expr_toks l (ELt a b) = paren (3 < l) (expr_toks 4 a @ TLt # expr_toks 4 b)"
| "expr_toks l (ELe a b) = paren (3 < l) (expr_toks 4 a @ TLe # expr_toks 4 b)"
| "expr_toks l (EGt a b) = paren (3 < l) (expr_toks 4 a @ TGt # expr_toks 4 b)"
| "expr_toks l (EGe a b) = paren (3 < l) (expr_toks 4 a @ TGe # expr_toks 4 b)"
| "expr_toks l (EAdd a b) = paren (4 < l) (expr_toks 4 a @ TPlus # expr_toks 5 b)"
| "expr_toks l (ESub a b) = paren (4 < l) (expr_toks 4 a @ TDash # expr_toks 5 b)"
| "expr_toks l (EMul a b) = paren (5 < l) (expr_toks 5 a @ TStar # expr_toks 6 b)"
| "expr_toks l (EDiv a b) = paren (5 < l) (expr_toks 5 a @ TSlash # expr_toks 6 b)"
| "expr_toks l (ENeg a) = paren (6 < l) (TDash # expr_toks 6 a)"

text \<open>
  The expressions that can be written: variables that are not reserved words, property accesses on variables,
  and literals other than fractions; a negative number is a negation.
\<close>

definition name_free :: "rtext \<Rightarrow> bool" where
  "name_free s \<longleftrightarrow> list_all (\<lambda>w. \<not> eq_ignore_case s (str w)) [''true'', ''false'', ''null'', ''not'', ''distinct'']"

definition name_ok :: "'f cy_api \<Rightarrow> rtext \<Rightarrow> bool" where
  "name_ok A s \<longleftrightarrow> ident_ok A s \<and> name_free s"

fun is_path :: "'f expr \<Rightarrow> bool" where
  "is_path (EVariable s) \<longleftrightarrow> True"
| "is_path (EProperty e s) \<longleftrightarrow> is_path e"
| "is_path _ \<longleftrightarrow> False"

fun expr_ok :: "'f cy_api \<Rightarrow> 'f expr \<Rightarrow> bool" where
  "expr_ok A (EVariable s) \<longleftrightarrow> name_ok A s"
| "expr_ok A (EProperty e s) \<longleftrightarrow> is_path e \<and> expr_ok A e \<and> ident_ok A s"
| "expr_ok A (ELiteral x) \<longleftrightarrow> (case x of LInt n \<Rightarrow> 0 \<le> sint n | LFloat v \<Rightarrow> False | _ \<Rightarrow> True)"
| "expr_ok A (ENot a) \<longleftrightarrow> expr_ok A a" | "expr_ok A (ENeg a) \<longleftrightarrow> expr_ok A a"
| "expr_ok A (EOr a b) \<longleftrightarrow> expr_ok A a \<and> expr_ok A b" | "expr_ok A (EAnd a b) \<longleftrightarrow> expr_ok A a \<and> expr_ok A b"
| "expr_ok A (EEq a b) \<longleftrightarrow> expr_ok A a \<and> expr_ok A b" | "expr_ok A (ENe a b) \<longleftrightarrow> expr_ok A a \<and> expr_ok A b"
| "expr_ok A (ELt a b) \<longleftrightarrow> expr_ok A a \<and> expr_ok A b" | "expr_ok A (ELe a b) \<longleftrightarrow> expr_ok A a \<and> expr_ok A b"
| "expr_ok A (EGt a b) \<longleftrightarrow> expr_ok A a \<and> expr_ok A b" | "expr_ok A (EGe a b) \<longleftrightarrow> expr_ok A a \<and> expr_ok A b"
| "expr_ok A (EAdd a b) \<longleftrightarrow> expr_ok A a \<and> expr_ok A b" | "expr_ok A (ESub a b) \<longleftrightarrow> expr_ok A a \<and> expr_ok A b"
| "expr_ok A (EMul a b) \<longleftrightarrow> expr_ok A a \<and> expr_ok A b" | "expr_ok A (EDiv a b) \<longleftrightarrow> expr_ok A a \<and> expr_ok A b"

section \<open>Reading expressions\<close>

text \<open>The nonterminal of a precedence, what it does after an expression, and the tokens it can stop at.\<close>

definition entry :: "nat \<Rightarrow> 'f nonterm" where
  "entry l = [NtOr, NtAnd, NtNot, NtComparison, NtAdditive, NtMultiplicative, NtUnary, NtAtom] ! l"

definition continue :: "nat \<Rightarrow> 'f expr \<Rightarrow> 'f parser \<Rightarrow> ('f, 'f expr) parse" where
  "continue l e p =
     (if l = 0 then parse_nt (NtOrLoop e) p else if l = 1 then parse_nt (NtAndLoop e) p
      else if l = 4 then parse_nt (NtAdditiveLoop e) p else if l = 5 then parse_nt (NtMultiplicativeLoop e) p
      else Some (Inr (e, p)))"

definition stops :: "nat \<Rightarrow> 'f tok \<Rightarrow> bool" where
  "stops l t \<longleftrightarrow> t \<noteq> TDot \<and> (l < 5 \<longrightarrow> t \<noteq> TStar \<and> t \<noteq> TSlash) \<and> (l < 4 \<longrightarrow> t \<noteq> TPlus \<and> t \<noteq> TDash \<and> comparison t = None) \<and>
     (l = 0 \<longrightarrow> \<not> is_keyword ''AND'' t)"

definition reads :: "nat \<Rightarrow> 'f expr \<Rightarrow> bool" where
  "reads l e \<longleftrightarrow> (\<forall>p t rest y us. rem p = expr_toks l e @ t # rest \<longrightarrow> stops l t \<longrightarrow>
     (\<forall>p'. rem p' = t # rest \<longrightarrow> gives (continue l e p') y us) \<longrightarrow> gives (parse_nt (entry l) p) y us)"

lemma readsI:
  assumes "\<And>p t rest y us. rem p = expr_toks l e @ t # rest \<Longrightarrow> stops l t \<Longrightarrow>
    (\<And>p'. rem p' = t # rest \<Longrightarrow> gives (continue l e p') y us) \<Longrightarrow> gives (parse_nt (entry l) p) y us"
  shows "reads l e"
  using assms unfolding reads_def by blast

lemma readsD:
  assumes "reads l e" "rem p = expr_toks l e @ t # rest" "stops l t"
    "\<And>p'. rem p' = t # rest \<Longrightarrow> gives (continue l e p') y us"
  shows "gives (parse_nt (entry l) p) y us"
  using assms unfolding reads_def by blast

lemma reads_gives:
  assumes "reads l e" "rem p = expr_toks l e @ t # rest" "stops l t"
    "l = 0 \<Longrightarrow> \<not> is_keyword ''OR'' t" "l = 1 \<Longrightarrow> \<not> is_keyword ''AND'' t" "l = 4 \<Longrightarrow> t \<noteq> TPlus \<and> t \<noteq> TDash" "l = 5 \<Longrightarrow> t \<noteq> TStar \<and> t \<noteq> TSlash"
  shows "gives (parse_nt (entry l) p) e (t # rest)"
proof (rule readsD [OF assms(1-3)])
  fix p' assume "rem p' = t # rest"
  then show "gives (continue l e p') e (t # rest)"
    using assms(4-7) unfolding continue_def by (auto simp: parse_nt.simps intro!: gives_intros)
qed

lemma entry_simps [simp]:
  "entry 0 = NtOr" "entry 1 = NtAnd" "entry (Suc 0) = NtAnd" "entry 2 = NtNot" "entry 3 = NtComparison" "entry 4 = NtAdditive"
  "entry 5 = NtMultiplicative" "entry 6 = NtUnary" "entry 7 = NtAtom"
  by (simp_all add: entry_def)

lemma stops_mono: "stops l t \<Longrightarrow> l \<le> m \<Longrightarrow> stops m t"
  by (auto simp: stops_def)

text \<open>An expression that needs no parentheses in a context is read there as in the next tighter one.\<close>

lemma descend:
  assumes r: "reads (Suc l) e" and l: "l < 7" and same: "expr_toks l e = expr_toks (Suc l) e" and hd: "expr_toks (Suc l) e = u # ws"
    "l = 6 \<Longrightarrow> u \<noteq> TDash" "l = 2 \<Longrightarrow> \<not> is_keyword ''NOT'' u"
  shows "reads l e"
proof (rule readsI)
  fix p t rest y us
  assume p: "rem p = expr_toks l e @ t # rest" and t: "stops l t" and k: "\<And>p'. rem p' = t # rest \<Longrightarrow> gives (continue l e p') y us"
  have next_p: "rem p = u # ws @ t # rest" using p same hd(1) by simp
  have g: "gives (parse_nt (entry (Suc l)) p) e (t # rest)"
    by (rule reads_gives [OF r]) (use p same t in \<open>auto simp: stops_def stops_mono [OF t]\<close>)
  consider "l = 0" | "l = 1" | "l = 2" | "l = 3" | "l = 4" | "l = 5" | "l = 6" using l by linarith
  then show "gives (parse_nt (entry l) p) y us"
  proof cases
    case 1
    then show ?thesis using g k by (subst parse_nt.simps) (auto simp: continue_def intro!: gives_bind)
  next
    case 2
    then show ?thesis using g k by (subst parse_nt.simps) (auto simp: continue_def numeral_2_eq_2 [symmetric] intro!: gives_bind)
  next
    case 3
    have "gives (Some (Inr (e, p'))) y us" if "rem p' = t # rest" for p' using k [OF that] 3 by (simp add: continue_def)
    then have "y = e \<and> us = t # rest" using g by (auto simp: gives_def)
    then show ?thesis using g next_p hd(3) 3 by (subst parse_nt.simps) (auto simp: numeral_3_eq_3 [symmetric] intro!: gives_at_keyword)
  next
    case 4
    have "gives (Some (Inr (e, p'))) y us" if "rem p' = t # rest" for p' using k [OF that] 4 by (simp add: continue_def)
    then show ?thesis using g t 4 by (subst parse_nt.simps) (auto simp: stops_def intro!: gives_bind gives_peek)
  next
    case 5
    then show ?thesis using g k by (subst parse_nt.simps) (auto simp: continue_def intro!: gives_bind)
  next
    case 6
    then show ?thesis using g k by (subst parse_nt.simps) (auto simp: continue_def intro!: gives_bind)
  next
    case 7
    have "gives (Some (Inr (e, p'))) y us" if "rem p' = t # rest" for p' using k [OF that] 7 by (simp add: continue_def)
    then have "y = e \<and> us = t # rest" using g by (auto simp: gives_def)
    then show ?thesis using g next_p hd(2) 7 by (subst parse_nt.simps) (auto intro!: gives_peek)
  qed
qed

lemma expr_toks_nonempty: "expr_toks l e \<noteq> []"
  by (induction l e rule: expr_toks.induct) (auto simp: paren_def split: if_splits lit.splits elim: lit_toks.elims)

lemma reads_paren:
  assumes r: "reads 0 e" and w: "expr_toks 7 e = TLParen # expr_toks 0 e @ [TRParen]"
  shows "reads 7 e"
proof (rule readsI)
  fix p t rest y us
  assume p: "rem p = expr_toks 7 e @ t # rest" and k: "\<And>p'. rem p' = t # rest \<Longrightarrow> gives (continue 7 e p') y us"
  have inner: "gives (parse_nt NtOr q) e (TRParen # t # rest)" if "rem q = expr_toks 0 e @ TRParen # t # rest" for q
    using reads_gives [OF r that] by (simp add: stops_def)
  show "gives (parse_nt (entry 7) p) y us"
    using p k w expr_toks_nonempty [of 0 e]
    by (subst parse_nt.simps) (auto simp: continue_def intro!: gives_peek gives_advance gives_bind [OF inner] bind_eat_tok)
qed

lemma reads_path:
  assumes "is_path e" "expr_ok A e" "rem p = expr_toks 7 e @ t # rest"
  shows "\<exists>p'. parse_nt NtAtom p = path_loop e p' \<and> rem p' = t # rest"
  using assms
proof (induction e arbitrary: t rest rule: is_path.induct)
  case (1 s)
  obtain p' where p': "advance_tok p = Some (TIdent s, p')" "rem p' = t # rest" using advance_rem [of p "TIdent s" "t # rest"] 1 by auto
  have "literal_word s = (None :: 'a lit option)" using 1 by (simp add: literal_word_def name_ok_def name_free_def)
  then have "parse_nt NtAtom p = path_loop (EVariable s) p'"
    using p'(1) peek_rem [of p "TIdent s"] 1 by (subst parse_nt.simps) simp
  then show ?case using p'(2) by blast
next
  case (2 e s)
  obtain p1 where p1: "parse_nt NtAtom p = path_loop e p1" "rem p1 = TDot # TIdent s # t # rest" using 2 by auto
  obtain p2 where p2: "advance_tok p1 = Some (TDot, p2)" "rem p2 = TIdent s # t # rest" using advance_rem [OF p1(2)] by auto
  obtain p3 where p3: "eat_ident p2 = Some (Inr (s, p3))" "rem p3 = t # rest" using gives_eat_ident [of p2 s] p2(2) by (auto simp: gives_def)
  have "path_loop e p1 = path_loop (EProperty e s) p3"
    using p2(1) p3(1) peek_rem [OF p1(2)] by (subst path_loop.simps) simp
  then show ?case using p1(1) p3(2) by auto
qed simp_all

lemma reads_atom:
  assumes "is_path e \<or> (\<exists>x. e = ELiteral x)" "expr_ok A e"
  shows "reads 7 e"
proof (rule readsI)
  fix p t rest y us
  assume p: "rem p = expr_toks 7 e @ t # rest" and t: "stops 7 t" and k: "\<And>p'. rem p' = t # rest \<Longrightarrow> gives (continue 7 e p') y us"
  have ret: "gives (Some (Inr (e, p'))) y us" if "rem p' = t # rest" for p' using k [OF that] by (simp add: continue_def)
  show "gives (parse_nt (entry 7) p) y us"
  proof (cases "is_path e")
    case True
    obtain p' where p': "parse_nt NtAtom p = path_loop e p'" "rem p' = t # rest" using reads_path [OF True assms(2) p] by blast
    then show ?thesis using t ret by (simp, subst path_loop.simps) (auto simp: stops_def peek_rem)
  next
    case False
    then obtain x where x: "e = ELiteral x" using assms(1) by blast
    then show ?thesis using p ret assms(2)
      by (subst parse_nt.simps)
        (cases x; auto simp: literal_word_def word_simps intro!: gives_peek gives_advance split: if_splits)
  qed
qed

lemma reads_neg: "reads 6 a \<Longrightarrow> reads 6 (ENeg a)"
proof (rule readsI)
  fix p t rest y us
  assume r: "reads 6 a" and p: "rem p = expr_toks 6 (ENeg a) @ t # rest" and t: "stops 6 t"
    and k: "\<And>p'. rem p' = t # rest \<Longrightarrow> gives (continue 6 (ENeg a) p') y us"
  have inner: "gives (parse_nt NtUnary q) a (t # rest)" if "rem q = expr_toks 6 a @ t # rest" for q using reads_gives [OF r that t] by simp
  show "gives (parse_nt (entry 6) p) y us"
    using p k by (subst parse_nt.simps) (auto simp: paren_def continue_def intro!: gives_peek gives_advance gives_bind [OF inner])
qed

lemma reads_not: "reads 2 a \<Longrightarrow> reads 2 (ENot a)"
proof (rule readsI)
  fix p t rest y us
  assume r: "reads 2 a" and p: "rem p = expr_toks 2 (ENot a) @ t # rest" and t: "stops 2 t"
    and k: "\<And>p'. rem p' = t # rest \<Longrightarrow> gives (continue 2 (ENot a) p') y us"
  have inner: "gives (parse_nt NtNot q) a (t # rest)" if "rem q = expr_toks 2 a @ t # rest" for q using reads_gives [OF r that t] by simp
  show "gives (parse_nt (entry 2) p) y us"
    using p k by (subst parse_nt.simps)
      (auto simp: paren_def continue_def word_simps intro!: gives_at_keyword gives_advance gives_bind [OF inner])
qed

text \<open>The operators that associate to the left.\<close>

lemma reads_left:
  fixes a b :: "'f expr" and op :: "'f tok" and C :: "'f expr \<Rightarrow> 'f expr"
  assumes a: "reads l a" and b: "reads m b" and w: "expr_toks l (C b) = expr_toks l a @ op # expr_toks m b"
    and op: "stops l op" "\<And>t :: 'f tok. stops l t \<Longrightarrow> stops m t \<and> (m = 1 \<longrightarrow> \<not> is_keyword ''AND'' t) \<and> (m = 5 \<longrightarrow> t \<noteq> TStar \<and> t \<noteq> TSlash)"
      "m \<noteq> 0" "m \<noteq> 4"
    and loop: "\<And>p q. peek p = Some op \<Longrightarrow> advance_tok p = Some (op, q) \<Longrightarrow>
      continue l a p = pbind (parse_nt (entry m) q) (\<lambda>b. continue l (C b))"
  shows "reads l (C b)"
proof (rule readsI)
  fix p t rest y us
  assume p: "rem p = expr_toks l (C b) @ t # rest" and t: "stops l t" and k: "\<And>p'. rem p' = t # rest \<Longrightarrow> gives (continue l (C b) p') y us"
  show "gives (parse_nt (entry l) p) y us"
  proof (rule readsD [OF a])
    show "rem p = expr_toks l a @ op # expr_toks m b @ t # rest" using p w by simp
    fix q assume q: "rem q = op # expr_toks m b @ t # rest"
    obtain q' where q': "rem q' = expr_toks m b @ t # rest" "advance_tok q = Some (op, q')" using advance_rem [OF q] by auto
    have "gives (parse_nt (entry m) q') b (t # rest)" by (rule reads_gives [OF b q'(1)]) (use op(2) [OF t] op(3,4) in auto)
    then have "gives (pbind (parse_nt (entry m) q') (\<lambda>b. continue l (C b))) y us" by (rule gives_bind) (rule k)
    then show "gives (continue l a q) y us" unfolding loop [OF peek_rem [OF q] q'(2)] .
  qed (rule op(1))
qed

lemma loop_steps:
  "peek p = Some TStar \<Longrightarrow> advance_tok p = Some (TStar, q) \<Longrightarrow> continue 5 a p = pbind (parse_nt NtUnary q) (\<lambda>b. continue 5 (EMul a b))"
  "peek p = Some TSlash \<Longrightarrow> advance_tok p = Some (TSlash, q) \<Longrightarrow> continue 5 a p = pbind (parse_nt NtUnary q) (\<lambda>b. continue 5 (EDiv a b))"
  "peek p = Some TPlus \<Longrightarrow> advance_tok p = Some (TPlus, q) \<Longrightarrow> continue 4 a p = pbind (parse_nt NtMultiplicative q) (\<lambda>b. continue 4 (EAdd a b))"
  "peek p = Some TDash \<Longrightarrow> advance_tok p = Some (TDash, q) \<Longrightarrow> continue 4 a p = pbind (parse_nt NtMultiplicative q) (\<lambda>b. continue 4 (ESub a b))"
  "peek p = Some (kw ''AND'') \<Longrightarrow> advance_tok p = Some (kw ''AND'', q) \<Longrightarrow> continue 1 a p = pbind (parse_nt NtNot q) (\<lambda>b. continue 1 (EAnd a b))"
  "peek p = Some (kw ''OR'') \<Longrightarrow> advance_tok p = Some (kw ''OR'', q) \<Longrightarrow> continue 0 a p = pbind (parse_nt NtAnd q) (\<lambda>b. continue 0 (EOr a b))"
  unfolding continue_def by (simp_all, (subst parse_nt.simps, simp add: at_keyword_def word_simps)+)

lemmas left_simps = paren_def stops_def word_simps

lemma reads_mul: "reads 5 a \<Longrightarrow> reads 6 b \<Longrightarrow> reads 5 (EMul a b)"
  by (rule reads_left [where C = "EMul a" and op = TStar and m = 6]) (simp_all add: loop_steps left_simps)

lemma reads_div: "reads 5 a \<Longrightarrow> reads 6 b \<Longrightarrow> reads 5 (EDiv a b)"
  by (rule reads_left [where C = "EDiv a" and op = TSlash and m = 6]) (simp_all add: loop_steps left_simps)

lemma reads_add: "reads 4 a \<Longrightarrow> reads 5 b \<Longrightarrow> reads 4 (EAdd a b)"
  by (rule reads_left [where C = "EAdd a" and op = TPlus and m = 5]) (simp_all add: loop_steps left_simps)

lemma reads_sub: "reads 4 a \<Longrightarrow> reads 5 b \<Longrightarrow> reads 4 (ESub a b)"
  by (rule reads_left [where C = "ESub a" and op = TDash and m = 5]) (simp_all add: loop_steps left_simps)

lemma reads_and: "reads 1 a \<Longrightarrow> reads 2 b \<Longrightarrow> reads 1 (EAnd a b)"
  by (rule reads_left [where C = "EAnd a" and op = "kw ''AND''" and m = 2]) (simp_all del: One_nat_def add: loop_steps left_simps)

lemma reads_or: "reads 0 a \<Longrightarrow> reads 1 b \<Longrightarrow> reads 0 (EOr a b)"
  by (rule reads_left [where C = "EOr a" and op = "kw ''OR''" and m = 1]) (simp_all del: One_nat_def add: loop_steps left_simps)

lemma reads_comparison:
  assumes a: "reads 4 a" and b: "reads 4 b" and c: "comparison op = Some C" and w: "expr_toks 3 (C a b) = expr_toks 4 a @ op # expr_toks 4 b"
  shows "reads 3 (C a b)"
proof (rule readsI)
  fix p t rest y us
  assume p: "rem p = expr_toks 3 (C a b) @ t # rest" and t: "stops 3 t" and k: "\<And>p'. rem p' = t # rest \<Longrightarrow> gives (continue 3 (C a b) p') y us"
  have op: "stops 4 op \<and> op \<noteq> TPlus \<and> op \<noteq> TDash" using c by (cases op) (simp_all add: stops_def)
  have first: "gives (parse_nt NtAdditive p) a (op # expr_toks 4 b @ t # rest)"
    using reads_gives [OF a, of p op "expr_toks 4 b @ t # rest"] p w op by simp
  have second: "gives (parse_nt NtAdditive q) b (t # rest)" if "rem q = expr_toks 4 b @ t # rest" for q
    using reads_gives [OF b that] t by (simp add: stops_def)
  show "gives (parse_nt (entry 3) p) y us"
    using c k by (subst parse_nt.simps) (auto simp: continue_def intro!: gives_bind [OF first] gives_peek gives_advance gives_bind [OF second])
qed

lemma expr_toks_hd:
  assumes "expr_ok A e"
  shows "(3 \<le> l \<longrightarrow> \<not> is_keyword ''NOT'' (hd (expr_toks l e))) \<and> (l = 7 \<longrightarrow> hd (expr_toks l e) \<noteq> TDash)"
  using assms
proof (induction l e rule: expr_toks.induct)
  case (1 l s)
  then show ?case by (simp add: name_ok_def name_free_def word_simps)
next
  case (3 l x)
  then show ?case by (cases x) (simp_all add: word_simps)
qed (auto simp: paren_def expr_toks_nonempty)

text \<open>An expression that is bracketed above precedence \<open>n\<close> only is read in every context once it is read there.\<close>

lemma reads_everywhere:
  assumes r: "reads n e" and n: "n \<le> 7" and w: "\<And>l. l \<le> 7 \<Longrightarrow> expr_toks l e = paren (n < l) ts" and ok: "expr_ok A e" and l: "l \<le> 7"
  shows "reads l e"
proof -
  have step: "reads k e" if "reads (Suc k) e" "k < 7" "k \<noteq> n" for k
  proof (rule descend [OF that(1,2), where u = "hd (expr_toks (Suc k) e)" and ws = "tl (expr_toks (Suc k) e)"])
    show "expr_toks k e = expr_toks (Suc k) e" using that(2,3) w by (simp add: paren_def)
    show "expr_toks (Suc k) e = hd (expr_toks (Suc k) e) # tl (expr_toks (Suc k) e)" by (simp add: expr_toks_nonempty)
  qed (use expr_toks_hd [OF ok, of "Suc k"] in auto)
  have down: "reads (m - j) e" if "reads m e" "m \<le> 7" "m \<le> n \<or> n < m - j" for m j
    using that
  proof (induction j)
    case (Suc j)
    show ?case
    proof (cases "j < m")
      case True
      then have "Suc (m - Suc j) = m - j" by simp
      then show ?thesis using Suc step [of "m - Suc j"] True by auto
    qed (use Suc in auto)
  qed simp
  show ?thesis
  proof (cases "l \<le> n")
    case True
    then show ?thesis using down [OF r n, of "n - l"] by simp
  next
    case False
    have "reads 0 e" using down [OF r n, of n] by simp
    then have "reads 7 e" by (rule reads_paren) (use w False l n in \<open>simp add: paren_def\<close>)
    then show ?thesis using down [of 7 "7 - l"] False l by simp
  qed
qed

lemma reads_expr: "expr_ok A e \<Longrightarrow> l \<le> 7 \<Longrightarrow> reads l e"
proof (induction e arbitrary: l)
  case (EVariable s)
  show ?case by (rule reads_everywhere [OF reads_atom]) (use EVariable in \<open>auto simp: paren_def\<close>)
next
  case (EProperty e s)
  show ?case by (rule reads_everywhere [OF reads_atom]) (use EProperty in \<open>auto simp: paren_def\<close>)
next
  case (ELiteral x)
  show ?case by (rule reads_everywhere [OF reads_atom]) (use ELiteral in \<open>auto simp: paren_def\<close>)
next
  case (EAnd a b)
  show ?case by (rule reads_everywhere [OF reads_and]) (use EAnd in \<open>auto simp: paren_def\<close>)
next
  case (EOr a b)
  show ?case by (rule reads_everywhere [OF reads_or]) (use EOr in \<open>auto simp: paren_def\<close>)
next
  case (ENot a)
  show ?case by (rule reads_everywhere [OF reads_not]) (use ENot in \<open>auto simp: paren_def\<close>)
next
  case (EEq a b)
  show ?case by (rule reads_everywhere [OF reads_comparison [of _ _ TEq EEq]]) (use EEq in \<open>auto simp: paren_def\<close>)
next
  case (ENe a b)
  show ?case by (rule reads_everywhere [OF reads_comparison [of _ _ TNe ENe]]) (use ENe in \<open>auto simp: paren_def\<close>)
next
  case (ELt a b)
  show ?case by (rule reads_everywhere [OF reads_comparison [of _ _ TLt ELt]]) (use ELt in \<open>auto simp: paren_def\<close>)
next
  case (ELe a b)
  show ?case by (rule reads_everywhere [OF reads_comparison [of _ _ TLe ELe]]) (use ELe in \<open>auto simp: paren_def\<close>)
next
  case (EGt a b)
  show ?case by (rule reads_everywhere [OF reads_comparison [of _ _ TGt EGt]]) (use EGt in \<open>auto simp: paren_def\<close>)
next
  case (EGe a b)
  show ?case by (rule reads_everywhere [OF reads_comparison [of _ _ TGe EGe]]) (use EGe in \<open>auto simp: paren_def\<close>)
next
  case (EAdd a b)
  show ?case by (rule reads_everywhere [OF reads_add]) (use EAdd in \<open>auto simp: paren_def\<close>)
next
  case (ESub a b)
  show ?case by (rule reads_everywhere [OF reads_sub]) (use ESub in \<open>auto simp: paren_def\<close>)
next
  case (EMul a b)
  show ?case by (rule reads_everywhere [OF reads_mul]) (use EMul in \<open>auto simp: paren_def\<close>)
next
  case (EDiv a b)
  show ?case by (rule reads_everywhere [OF reads_div]) (use EDiv in \<open>auto simp: paren_def\<close>)
next
  case (ENeg a)
  show ?case by (rule reads_everywhere [OF reads_neg]) (use ENeg in \<open>auto simp: paren_def\<close>)
qed

end
