(* ===== verification/CypherRoundtrip.thy ===== *)
theory CypherRoundtrip
  imports CypherExpr
begin

text \<open>
  Whole programs of the openCypher subset written as text and parsed back: patterns, \<open>RETURN\<close> and \<open>ORDER BY\<close> items,
  bounds, and the writing clauses, on top of the expressions of \<open>CypherExpr\<close> and the tokens of \<open>CypherLexer\<close>.
\<close>

section \<open>Writing programs\<close>

definition ident_opt_toks :: "rtext option \<Rightarrow> 'f tok list" where
  "ident_opt_toks v = (case v of None \<Rightarrow> [] | Some s \<Rightarrow> [TIdent s])"

definition labels_toks :: "rtext list \<Rightarrow> 'f tok list" where
  "labels_toks ls = concat (map (\<lambda>l. [TColon, TIdent l]) ls)"

definition comma_toks :: "('a \<Rightarrow> 'f tok list) \<Rightarrow> 'a list \<Rightarrow> 'f tok list" where
  "comma_toks f xs = (case xs of [] \<Rightarrow> [] | x # xs \<Rightarrow> f x @ concat (map (\<lambda>y. TComma # f y) xs))"

definition prop_toks :: "rtext \<times> 'f lit \<Rightarrow> 'f tok list" where
  "prop_toks kv = TIdent (fst kv) # TColon # lit_toks (snd kv)"

definition props_toks :: "(rtext \<times> 'f lit) list \<Rightarrow> 'f tok list" where
  "props_toks ps = (if ps = [] then [] else TLBrace # comma_toks prop_toks ps @ [TRBrace])"

definition node_toks :: "'f node_pattern \<Rightarrow> 'f tok list" where
  "node_toks n = TLParen # ident_opt_toks (np_variable n) @ labels_toks (np_labels n) @ props_toks (np_properties n) @ [TRParen]"

definition uint_opt_toks :: "u64 option \<Rightarrow> 'f tok list" where
  "uint_opt_toks v = (case v of None \<Rightarrow> [] | Some n \<Rightarrow> [TInt n])"

definition length_toks :: "var_length option \<Rightarrow> 'f tok list" where
  "length_toks v = (case v of None \<Rightarrow> [] | Some l \<Rightarrow> TStar # uint_opt_toks (vl_min l) @ TDotDot # uint_opt_toks (vl_max l))"

definition type_toks :: "rtext option \<Rightarrow> 'f tok list" where
  "type_toks v = (case v of None \<Rightarrow> [] | Some s \<Rightarrow> [TColon, TIdent s])"

definition rel_toks :: "'f rel_pattern \<Rightarrow> 'f tok list" where
  "rel_toks r =
     (if rp_direction r = DirLeft then [TLt] else []) @ TDash # TLBracket # ident_opt_toks (rp_variable r) @ type_toks (rp_type r) @
     length_toks (rp_length r) @ props_toks (rp_properties r) @ TRBracket # TDash # (if rp_direction r = DirRight then [TGt] else [])"

definition hops_toks :: "('f rel_pattern \<times> 'f node_pattern) list \<Rightarrow> 'f tok list" where
  "hops_toks hs = concat (map (\<lambda>(r, n). rel_toks r @ node_toks n) hs)"

definition pattern_toks :: "'f pattern \<Rightarrow> 'f tok list" where
  "pattern_toks pat = node_toks (pt_start pat) @ hops_toks (pt_hops pat)"

definition alias_toks :: "rtext option \<Rightarrow> 'f tok list" where
  "alias_toks v = (case v of None \<Rightarrow> [] | Some s \<Rightarrow> [kw ''AS'', TIdent s])"

definition return_item_toks :: "'f return_item \<Rightarrow> 'f tok list" where
  "return_item_toks i = expr_toks 0 (ri_expr i) @ alias_toks (ri_alias i)"

definition return_toks :: "'f return_clause \<Rightarrow> 'f tok list" where
  "return_toks r = (if rc_distinct r then [kw ''DISTINCT''] else []) @ comma_toks return_item_toks (rc_items r)"

definition order_item_toks :: "'f order_item \<Rightarrow> 'f tok list" where
  "order_item_toks i = expr_toks 0 (oi_expr i) @ (if oi_descending i then [kw ''DESC''] else [])"

definition order_toks :: "'f order_item list \<Rightarrow> 'f tok list" where
  "order_toks os = (if os = [] then [] else kw ''ORDER'' # kw ''BY'' # comma_toks order_item_toks os)"

definition bound_toks :: "string \<Rightarrow> u64 option \<Rightarrow> 'f tok list" where
  "bound_toks w v = (case v of None \<Rightarrow> [] | Some n \<Rightarrow> [kw w, TInt n])"

fun write_clause_toks :: "'f write_clause \<Rightarrow> 'f tok list" where
  "write_clause_toks (WCreate pat) = kw ''CREATE'' # pattern_toks pat"
| "write_clause_toks (WSetProperty v pr e) = kw ''SET'' # TIdent v # TDot # TIdent pr # TEq # expr_toks 0 e"
| "write_clause_toks (WSetLabel v l) = [kw ''SET'', TIdent v, TColon, TIdent l]"
| "write_clause_toks (WDelete vs detach) = (if detach then [kw ''DETACH''] else []) @ kw ''DELETE'' # comma_toks (\<lambda>v. [TIdent v]) vs"
| "write_clause_toks (WRemoveProperty v pr) = [kw ''REMOVE'', TIdent v, TDot, TIdent pr]"
| "write_clause_toks (WRemoveLabel v l) = [kw ''REMOVE'', TIdent v, TColon, TIdent l]"

definition where_toks :: "'f expr option \<Rightarrow> 'f tok list" where
  "where_toks wh = (case wh of None \<Rightarrow> [] | Some e \<Rightarrow> kw ''WHERE'' # expr_toks 0 e)"

definition match_toks :: "'f pattern option \<Rightarrow> 'f expr option \<Rightarrow> 'f tok list" where
  "match_toks pat wh =
     (case pat of None \<Rightarrow> [] | Some pt \<Rightarrow> kw ''MATCH'' # pattern_toks pt @ where_toks wh)"

fun program_toks :: "'f program \<Rightarrow> 'f tok list" where
  "program_toks (Query q) =
     match_toks (Some (cq_pattern q)) (cq_where q) @ kw ''RETURN'' # return_toks (cq_return q) @ order_toks (cq_order_by q) @
     bound_toks ''SKIP'' (cq_skip q) @ bound_toks ''LIMIT'' (cq_limit q)"
| "program_toks (Statement s) = match_toks (cs_pattern s) (cs_where s) @ concat (map write_clause_toks (cs_writes s))"

definition program_text :: "'f program \<Rightarrow> rtext" where
  "program_text prog = write_tokens (program_toks prog)"

text \<open>
  The programs that can be written: names that the lexer reads as identifiers, bounds and integers that fit, no
  fractions, lists that are not empty, and no \<open>WHERE\<close> without a pattern.
\<close>

fun lit_ok :: "'f lit \<Rightarrow> bool" where
  "lit_ok (LInt n) \<longleftrightarrow> - (2 ^ 63) < sint n"
| "lit_ok (LFloat v) \<longleftrightarrow> False"
| "lit_ok _ \<longleftrightarrow> True"

definition cy_bound_ok :: "u64 option \<Rightarrow> bool" where
  "cy_bound_ok v \<longleftrightarrow> pred_option (\<lambda>n. 0 \<le> sint n) v"

definition props_ok :: "'f cy_api \<Rightarrow> (rtext \<times> 'f lit) list \<Rightarrow> bool" where
  "props_ok A ps \<longleftrightarrow> list_all (\<lambda>(k, v). ident_ok A k \<and> lit_ok v) ps"

definition node_ok :: "'f cy_api \<Rightarrow> 'f node_pattern \<Rightarrow> bool" where
  "node_ok A n \<longleftrightarrow> pred_option (ident_ok A) (np_variable n) \<and> list_all (ident_ok A) (np_labels n) \<and> props_ok A (np_properties n)"

definition rel_ok :: "'f cy_api \<Rightarrow> 'f rel_pattern \<Rightarrow> bool" where
  "rel_ok A r \<longleftrightarrow> pred_option (ident_ok A) (rp_variable r) \<and> pred_option (ident_ok A) (rp_type r) \<and>
     pred_option (\<lambda>l. cy_bound_ok (vl_min l) \<and> cy_bound_ok (vl_max l)) (rp_length r) \<and> props_ok A (rp_properties r)"

definition cy_pattern_ok :: "'f cy_api \<Rightarrow> 'f pattern \<Rightarrow> bool" where
  "cy_pattern_ok A pat \<longleftrightarrow> node_ok A (pt_start pat) \<and> list_all (\<lambda>(r, n). rel_ok A r \<and> node_ok A n) (pt_hops pat)"

fun write_ok :: "'f cy_api \<Rightarrow> 'f write_clause \<Rightarrow> bool" where
  "write_ok A (WCreate pat) \<longleftrightarrow> cy_pattern_ok A pat"
| "write_ok A (WSetProperty v pr e) \<longleftrightarrow> ident_ok A v \<and> ident_ok A pr \<and> expr_ok A e"
| "write_ok A (WSetLabel v l) \<longleftrightarrow> ident_ok A v \<and> ident_ok A l"
| "write_ok A (WDelete vs detach) \<longleftrightarrow> vs \<noteq> [] \<and> list_all (ident_ok A) vs"
| "write_ok A (WRemoveProperty v pr) \<longleftrightarrow> ident_ok A v \<and> ident_ok A pr"
| "write_ok A (WRemoveLabel v l) \<longleftrightarrow> ident_ok A v \<and> ident_ok A l"

definition query_ok :: "'f cy_api \<Rightarrow> 'f cypher_query \<Rightarrow> bool" where
  "query_ok A q \<longleftrightarrow> cy_pattern_ok A (cq_pattern q) \<and> pred_option (expr_ok A) (cq_where q) \<and> rc_items (cq_return q) \<noteq> [] \<and>
     list_all (\<lambda>i. expr_ok A (ri_expr i) \<and> pred_option (ident_ok A) (ri_alias i)) (rc_items (cq_return q)) \<and>
     list_all (\<lambda>i. expr_ok A (oi_expr i)) (cq_order_by q) \<and> cy_bound_ok (cq_skip q) \<and> cy_bound_ok (cq_limit q)"

fun program_ok :: "'f cy_api \<Rightarrow> 'f program \<Rightarrow> bool" where
  "program_ok A (Query q) \<longleftrightarrow> query_ok A q"
| "program_ok A (Statement s) \<longleftrightarrow> pred_option (cy_pattern_ok A) (cs_pattern s) \<and> pred_option (expr_ok A) (cs_where s) \<and>
     (cs_pattern s = None \<longrightarrow> cs_where s = None) \<and> cs_writes s \<noteq> [] \<and> list_all (write_ok A) (cs_writes s)"

section \<open>Reading patterns\<close>

lemma gives_tok: "rem p = t # ts \<Longrightarrow> ts \<noteq> [] \<Longrightarrow> gives (eat_tok t p) () ts"
  unfolding eat_tok_def by (auto intro!: gives_intros)

lemma gives_word: "rem p = t # ts \<Longrightarrow> ts \<noteq> [] \<Longrightarrow> is_keyword w t \<Longrightarrow> gives (eat_keyword w p) () ts"
  unfolding eat_keyword_def by (auto intro!: gives_intros)

lemma gives_ident: "rem p = TIdent s # ts \<Longrightarrow> ts \<noteq> [] \<Longrightarrow> gives (eat_ident p) s ts"
  using gives_eat_ident [of p s] by simp

lemma gives_if_tok:
  "rem p = t # ts \<Longrightarrow> ts \<noteq> [] \<Longrightarrow> gives (eat_if t p) True ts" "rem p = us \<Longrightarrow> us \<noteq> [] \<Longrightarrow> hd us \<noteq> t \<Longrightarrow> gives (eat_if t p) False us"
  unfolding eat_if_def by (auto intro!: gives_intros)

lemma gives_if_word:
  "rem p = t # ts \<Longrightarrow> ts \<noteq> [] \<Longrightarrow> is_keyword w t \<Longrightarrow> gives (eat_if_keyword w p) True ts"
  "rem p = us \<Longrightarrow> us \<noteq> [] \<Longrightarrow> \<not> is_keyword w (hd us) \<Longrightarrow> gives (eat_if_keyword w p) False us"
  unfolding eat_if_keyword_def by (auto intro!: gives_intros)

lemma gives_comma_loop:
  assumes item: "\<And>x p ts. x \<in> set xs \<Longrightarrow> rem p = f x @ ts \<Longrightarrow> ts \<noteq> [] \<Longrightarrow> P (hd ts) \<Longrightarrow> gives (item p) x ts"
    and p: "rem p = concat (map (\<lambda>y. TComma # f y) xs) @ ts" "ts \<noteq> []" "hd ts \<noteq> TComma" "P (hd ts)" "P TComma"
  shows "gives (comma_loop item acc p) (acc @ xs) ts"
  using item p(1)
proof (induction xs arbitrary: acc p)
  case Nil
  then show ?case using p(2,3) by (subst comma_loop.simps) (auto intro!: gives_intros)
next
  case (Cons x xs)
  let ?us = "concat (map (\<lambda>y. TComma # f y) xs) @ ts"
  have us: "?us \<noteq> []" "P (hd ?us)" using p(2,4,5) by (cases xs; simp)+
  have x: "gives (item q) x ?us" if "rem q = f x @ ?us" for q using Cons.prems(1) [OF _ that us] by simp
  have "gives (comma_loop item (acc @ [x]) q) ((acc @ [x]) @ xs) ts" if "rem q = ?us" for q
    by (rule Cons.IH [OF _ that]) (rule Cons.prems(1), simp_all)
  then show ?case using Cons.prems(2) p(2)
    by (subst comma_loop.simps) (auto intro!: gives_peek gives_advance gives_bind [OF x])
qed

lemma gives_comma_list:
  assumes item: "\<And>x p ts. x \<in> set xs \<Longrightarrow> rem p = f x @ ts \<Longrightarrow> ts \<noteq> [] \<Longrightarrow> P (hd ts) \<Longrightarrow> gives (item p) x ts"
    and p: "rem p = comma_toks f xs @ ts" "xs \<noteq> []" "ts \<noteq> []" "hd ts \<noteq> TComma" "P (hd ts)" "P TComma"
  shows "gives (comma_list item p) xs ts"
proof -
  obtain x ys where xs: "xs = x # ys" using p(2) by (cases xs) auto
  let ?us = "concat (map (\<lambda>y. TComma # f y) ys) @ ts"
  have us: "?us \<noteq> []" "P (hd ?us)" using p(3,5,6) by (cases ys; simp)+
  have "rem p = f x @ ?us" using p(1) by (simp add: xs comma_toks_def)
  then have "gives (item p) x ?us" using item us by (simp add: xs)
  moreover have "gives (comma_loop item [x] q) xs ts" if "rem q = ?us" for q
    using gives_comma_loop [of ys f P item q ts "[x]", OF item that p(3-6)] by (simp add: xs)
  ultimately show ?thesis unfolding comma_list_def by (rule gives_bind)
qed

lemma gives_literal: "rem p = lit_toks v @ ts \<Longrightarrow> ts \<noteq> [] \<Longrightarrow> lit_ok v \<Longrightarrow> gives (parse_literal A p) v ts"
  unfolding parse_literal_def
  by (cases v; auto simp: literal_word_def word_simps intro!: gives_intros split: if_splits)

lemma gives_property_item: "rem p = prop_toks kv @ ts \<Longrightarrow> ts \<noteq> [] \<Longrightarrow> lit_ok (snd kv) \<Longrightarrow> gives (property_item A p) kv ts"
  unfolding property_item_def prop_toks_def
  by (auto intro!: bind_eat_ident bind_eat_tok gives_bind [OF gives_literal] gives_return)

lemma toks_hd [simp]:
  "labels_toks ls @ us \<noteq> [] \<longleftrightarrow> ls \<noteq> [] \<or> us \<noteq> []" "hd (labels_toks ls @ us) = (if ls = [] then hd us else TColon)"
  "props_toks ps @ us \<noteq> [] \<longleftrightarrow> ps \<noteq> [] \<or> us \<noteq> []" "hd (props_toks ps @ us) = (if ps = [] then hd us else TLBrace)"
  "type_toks t @ us \<noteq> [] \<longleftrightarrow> t \<noteq> None \<or> us \<noteq> []" "hd (type_toks t @ us) = (if t = None then hd us else TColon)"
  "length_toks l @ us \<noteq> [] \<longleftrightarrow> l \<noteq> None \<or> us \<noteq> []" "hd (length_toks l @ us) = (if l = None then hd us else TStar)"
  "hops_toks hs @ us \<noteq> [] \<longleftrightarrow> hs \<noteq> [] \<or> us \<noteq> []"
  by (cases ls; cases hs; auto simp: labels_toks_def props_toks_def type_toks_def length_toks_def hops_toks_def node_toks_def split: option.splits)+

lemma comma_toks_hd: "xs \<noteq> [] \<Longrightarrow> (\<And>x. x \<in> set xs \<Longrightarrow> f x \<noteq> []) \<Longrightarrow> \<exists>x \<in> set xs. hd (comma_toks f xs @ us) = hd (f x) \<and> comma_toks f xs \<noteq> []"
  by (cases xs) (auto simp: comma_toks_def)

lemma gives_opt_ident:
  "rem p = ident_opt_toks v @ ts \<Longrightarrow> ts \<noteq> [] \<Longrightarrow> (\<forall>s. hd ts \<noteq> TIdent s) \<Longrightarrow> gives (opt_ident p) v ts"
  unfolding opt_ident_def ident_opt_toks_def
  by (cases v; auto intro!: gives_peek gives_return bind_eat_ident split: tok.splits)

lemma gives_label_loop:
  "rem p = labels_toks ls @ ts \<Longrightarrow> ts \<noteq> [] \<Longrightarrow> hd ts \<noteq> TColon \<Longrightarrow> gives (label_loop acc p) (acc @ ls) ts"
proof (induction ls arbitrary: acc p)
  case Nil
  then show ?case by (subst label_loop.simps) (auto simp: labels_toks_def intro!: gives_intros)
next
  case (Cons l ls)
  have p: "rem p = TColon # TIdent l # labels_toks ls @ ts" using Cons.prems(1) by (simp add: labels_toks_def)
  have "gives (label_loop (acc @ [l]) q) ((acc @ [l]) @ ls) ts" if "rem q = labels_toks ls @ ts" for q
    by (rule Cons.IH [OF that Cons.prems(2,3)])
  then show ?case using p Cons.prems(2)
    by (subst label_loop.simps) (auto intro!: gives_peek gives_advance bind_eat_ident)
qed

lemma gives_opt_properties:
  assumes "rem p = props_toks ps @ ts" "ts \<noteq> []" "hd ts \<noteq> TLBrace" "props_ok A ps"
  shows "gives (opt_properties A p) ps ts"
proof (cases "ps = []")
  case True
  then show ?thesis using assms unfolding opt_properties_def by (auto simp: props_toks_def intro!: gives_intros)
next
  case False
  have items: "gives (comma_list (property_item A) q) ps (TRBrace # ts)" if "rem q = comma_toks prop_toks ps @ TRBrace # ts" for q
    by (rule gives_comma_list [where P = "\<lambda>_. True" and f = prop_toks])
      (use that False assms(4) in \<open>auto simp: props_ok_def list_all_iff intro!: gives_property_item\<close>)
  obtain kv where kv: "hd (comma_toks prop_toks ps @ TRBrace # ts) = TIdent (fst kv)" "comma_toks prop_toks ps \<noteq> []"
    using comma_toks_hd [OF False, of prop_toks "TRBrace # ts"] by (auto simp: prop_toks_def)
  have "gives (parse_properties A p) ps ts"
    unfolding parse_properties_def using assms(1,2) False kv
    by (auto simp: props_toks_def intro!: bind_eat_tok gives_peek gives_bind [OF items] gives_return)
  then show ?thesis using assms(1) False unfolding opt_properties_def by (auto simp: props_toks_def intro!: gives_peek)
qed

lemma gives_node:
  assumes "rem p = node_toks n @ ts" "ts \<noteq> []" "node_ok A n"
  shows "gives (parse_node_pattern A p) n ts"
proof -
  have ok: "props_ok A (np_properties n)" using assms(3) by (simp add: node_ok_def)
  have p: "rem p = TLParen # ident_opt_toks (np_variable n) @ labels_toks (np_labels n) @ props_toks (np_properties n) @ TRParen # ts"
    using assms(1) by (simp add: node_toks_def)
  show ?thesis unfolding parse_node_pattern_def
    by (rule gives_bind, rule gives_tok [OF p], simp, rule gives_bind, rule gives_opt_ident, assumption, simp, simp,
        rule gives_bind, rule gives_label_loop, assumption, simp, simp, rule gives_bind, rule gives_opt_properties, assumption, simp, simp, rule ok,
        rule gives_bind, rule gives_tok, assumption, rule assms(2), rule gives_return, assumption, simp)
qed

lemma gives_length_bound:
  "rem p = uint_opt_toks v @ ts \<Longrightarrow> ts \<noteq> [] \<Longrightarrow> (\<forall>n. hd ts \<noteq> TInt n) \<Longrightarrow> cy_bound_ok v \<Longrightarrow> gives (length_bound p) v ts"
  unfolding length_bound_def uint_opt_toks_def cy_bound_ok_def
  by (cases v; auto intro!: gives_intros split: tok.splits)

lemma gives_var_length:
  assumes "rem p = uint_opt_toks (vl_min l) @ TDotDot # uint_opt_toks (vl_max l) @ ts" "ts \<noteq> []" "\<forall>n. hd ts \<noteq> TInt n"
    "cy_bound_ok (vl_min l)" "cy_bound_ok (vl_max l)"
  shows "gives (parse_var_length p) l ts"
  unfolding parse_var_length_def
proof (rule gives_bind [OF gives_length_bound [OF assms(1)]])
  fix q assume q: "rem q = TDotDot # uint_opt_toks (vl_max l) @ ts"
  have hi: "gives (length_bound r) (vl_max l) ts" if "rem r = uint_opt_toks (vl_max l) @ ts" for r
    by (rule gives_length_bound [OF that assms(2,3,5)])
  show "gives (do {t \<leftarrow> peek q; if t = TDotDot then do {(_, p) \<leftarrow> advance_tok q; pbind (length_bound p) (\<lambda>hi p. Some (Inr (\<lparr>vl_min = vl_min l, vl_max = hi\<rparr>, p)))}
       else Some (Inr (\<lparr>vl_min = vl_min l, vl_max = vl_min l\<rparr>, q))}) l ts"
    using q assms(2) by (auto intro!: gives_peek gives_advance gives_bind [OF hi] gives_return)
qed (use assms in simp_all)

lemma gives_type:
  assumes "rem p = type_toks t @ ts" "ts \<noteq> []" "hd ts \<noteq> TColon" "\<And>q. rem q = ts \<Longrightarrow> gives (k t q) y us"
  shows "gives (pbind (eat_if TColon p) (\<lambda>colon p.
    pbind (if colon then pbind (eat_ident p) (\<lambda>t p. Some (Inr (Some t, p))) else Some (Inr (None, p))) k)) y us"
proof (cases t)
  case None
  then have "gives (eat_if TColon p) False ts" using assms(1-3) by (auto simp: type_toks_def intro!: gives_if_tok(2))
  then show ?thesis by (rule gives_bind) (use assms(4) None in simp)
next
  case (Some s)
  then have "gives (eat_if TColon p) True (TIdent s # ts)" using assms(1) by (auto simp: type_toks_def intro!: gives_if_tok(1))
  then show ?thesis by (rule gives_bind) (use assms(2,4) Some in \<open>auto intro!: gives_bind [OF gives_ident]\<close>)
qed

lemma gives_length:
  assumes "rem p = length_toks v @ ts" "ts \<noteq> []" "hd ts \<noteq> TStar" "\<forall>n. hd ts \<noteq> TInt n"
    "pred_option (\<lambda>l. cy_bound_ok (vl_min l) \<and> cy_bound_ok (vl_max l)) v" "\<And>q. rem q = ts \<Longrightarrow> gives (k v q) y us"
  shows "gives (pbind (eat_if TStar p) (\<lambda>star p.
    pbind (if star then pbind (parse_var_length p) (\<lambda>l p. Some (Inr (Some l, p))) else Some (Inr (None, p))) k)) y us"
proof (cases v)
  case None
  then have "gives (eat_if TStar p) False ts" using assms(1-3) by (auto simp: length_toks_def intro!: gives_if_tok(2))
  then show ?thesis by (rule gives_bind) (use assms(6) None in simp)
next
  case (Some l)
  let ?us = "uint_opt_toks (vl_min l) @ TDotDot # uint_opt_toks (vl_max l) @ ts"
  have star: "gives (eat_if TStar p) True ?us" using assms(1) Some by (auto simp: length_toks_def intro!: gives_if_tok(1))
  have len: "gives (parse_var_length q) l ts" if "rem q = ?us" for q by (rule gives_var_length [OF that]) (use assms(2,4,5) Some in auto)
  show ?thesis by (rule gives_bind [OF star]) (use assms(6) Some in \<open>auto intro!: gives_bind [OF len]\<close>)
qed

lemma gives_rel:
  assumes "rem p = rel_toks r @ ts" "ts \<noteq> []" "hd ts \<noteq> TGt" "rel_ok A r"
  shows "gives (parse_rel_pattern A p) r ts"
proof -
  let ?dir = "rp_direction r"
  let ?body = "ident_opt_toks (rp_variable r) @ type_toks (rp_type r) @ length_toks (rp_length r) @ props_toks (rp_properties r) @
    TRBracket # TDash # (if ?dir = DirRight then [TGt] else []) @ ts"
  have p: "rem p = (if ?dir = DirLeft then [TLt] else []) @ TDash # TLBracket # ?body" using assms(1) by (simp add: rel_toks_def)
  have left: "gives (eat_if TLt p) (?dir = DirLeft) (TDash # TLBracket # ?body)"
    using p by (auto intro!: gives_if_tok split: if_splits)
  have right: "gives (eat_if TGt q) (?dir = DirRight) ts" if "rem q = (if ?dir = DirRight then [TGt] else []) @ ts" for q
    using that assms(2,3) by (auto intro!: gives_if_tok split: if_splits)
  have detail: "gives (parse_rel_detail A q) (r\<lparr>rp_direction := DirEither\<rparr>) (TDash # (if ?dir = DirRight then [TGt] else []) @ ts)"
    if "rem q = TLBracket # ?body" for q
    unfolding parse_rel_detail_def Let_def
    by (rule gives_bind [OF gives_if_tok(1) [OF that]], simp, simp only: if_True, rule gives_bind, rule gives_opt_ident, assumption, simp, simp,
        rule gives_type, assumption, simp, simp, rule gives_length, assumption, simp, simp, simp, use assms(4) in \<open>simp add: rel_ok_def\<close>,
        rule gives_bind, rule gives_opt_properties, assumption, simp, simp, use assms(4) in \<open>simp add: rel_ok_def\<close>,
        rule gives_bind, rule gives_tok, assumption, simp, rule gives_return, assumption, simp)
  show ?thesis unfolding parse_rel_pattern_def
    by (rule gives_bind [OF left], rule gives_bind, rule gives_tok, assumption, simp, rule gives_bind [OF detail], assumption,
        rule gives_bind, rule gives_tok, assumption, use assms(2) in simp, rule gives_bind [OF right], assumption,
        cases ?dir; auto simp: gives_def)
qed

lemma hops_hd:
  "hs \<noteq> [] \<Longrightarrow> hd (hops_toks hs @ us) = TDash \<or> hd (hops_toks hs @ us) = TLt"
  by (cases hs) (auto simp: hops_toks_def rel_toks_def)

lemma gives_hop_loop:
  assumes "rem p = hops_toks hs @ ts" "ts \<noteq> []" "hd ts \<noteq> TDash \<and> hd ts \<noteq> TLt" "list_all (\<lambda>(r, n). rel_ok A r \<and> node_ok A n) hs"
  shows "gives (hop_loop A acc p) (acc @ hs) ts"
  using assms(1,4)
proof (induction hs arbitrary: acc p)
  case Nil
  then show ?case using assms(2,3) by (subst hop_loop.simps) (auto simp: hops_toks_def intro!: gives_intros)
next
  case (Cons h hs)
  obtain r n where h: "h = (r, n)" by (cases h)
  have p: "rem p = rel_toks r @ node_toks n @ hops_toks hs @ ts" using Cons.prems(1) by (simp add: hops_toks_def h)
  have rel: "gives (parse_rel_pattern A p) r (node_toks n @ hops_toks hs @ ts)"
    by (rule gives_rel [OF p]) (use Cons.prems(2) h in \<open>simp_all add: node_toks_def\<close>)
  have node: "gives (parse_node_pattern A q) n (hops_toks hs @ ts)" if "rem q = node_toks n @ hops_toks hs @ ts" for q
    by (rule gives_node [OF that]) (use Cons.prems(2) h assms(2) in simp_all)
  have loop: "gives (hop_loop A (acc @ [h]) q) ((acc @ [h]) @ hs) ts" if "rem q = hops_toks hs @ ts" for q
    by (rule Cons.IH [OF that]) (use Cons.prems(2) in simp)
  have next_p: "rem p \<noteq> []" "hd (rem p) = TDash \<or> hd (rem p) = TLt"
    using hops_hd [of "h # hs" ts] Cons.prems(1) by (auto simp: p rel_toks_def)
  have "gives (pbind (parse_rel_pattern A p) (\<lambda>rel p. pbind (parse_node_pattern A p) (\<lambda>node p. hop_loop A (acc @ [(rel, node)]) p))) (acc @ h # hs) ts"
    by (rule gives_bind [OF rel], rule gives_bind [OF node], assumption) (use loop h in simp)
  then show ?case using next_p by (subst hop_loop.simps) (auto intro!: gives_peek)
qed

lemma gives_pattern:
  assumes "rem p = pattern_toks pat @ ts" "ts \<noteq> []" "hd ts \<noteq> TDash \<and> hd ts \<noteq> TLt" "cy_pattern_ok A pat"
  shows "gives (parse_pattern A p) pat ts"
proof -
  have p: "rem p = node_toks (pt_start pat) @ hops_toks (pt_hops pat) @ ts" using assms(1) by (simp add: pattern_toks_def)
  have ok: "node_ok A (pt_start pat)" "list_all (\<lambda>(r, n). rel_ok A r \<and> node_ok A n) (pt_hops pat)"
    using assms(4) by (simp_all add: cy_pattern_ok_def)
  show ?thesis unfolding parse_pattern_def
    by (rule gives_bind, rule gives_node [OF p _ ok(1)], use assms(2) in simp, rule gives_bind,
        rule gives_hop_loop [OF _ assms(2,3) ok(2)], assumption, rule gives_return, assumption, simp)
qed

section \<open>Reading clauses\<close>

definition ends :: "'f tok \<Rightarrow> bool" where
  "ends t \<longleftrightarrow> stops 0 t \<and> \<not> is_keyword ''OR'' t"

lemma gives_expr: "rem p = expr_toks 0 e @ ts \<Longrightarrow> ts \<noteq> [] \<Longrightarrow> ends (hd ts) \<Longrightarrow> expr_ok A e \<Longrightarrow> gives (parse_expr p) e ts"
  using reads_gives [OF reads_expr [of A e 0], of p "hd ts" "tl ts"] by (simp add: parse_expr_def ends_def)

lemma expr_toks_distinct: "expr_ok A e \<Longrightarrow> \<not> is_keyword ''DISTINCT'' (hd (expr_toks l e))"
proof (induction l e rule: expr_toks.induct)
  case (1 l s)
  then show ?case by (simp add: name_ok_def name_free_def word_simps)
next
  case (3 l x)
  then show ?case by (cases x) (simp_all add: word_simps)
qed (auto simp: paren_def expr_toks_nonempty word_simps)

lemma gives_alias:
  assumes "rem p = alias_toks v @ ts" "ts \<noteq> []" "\<not> is_keyword ''AS'' (hd ts)" "\<And>q. rem q = ts \<Longrightarrow> gives (k v q) y us"
  shows "gives (pbind (eat_if_keyword ''AS'' p) (\<lambda>b p.
    pbind (if b then pbind (eat_ident p) (\<lambda>t p. Some (Inr (Some t, p))) else Some (Inr (None, p))) k)) y us"
proof (cases v)
  case None
  then have "gives (eat_if_keyword ''AS'' p) False ts" using assms(1-3) by (auto simp: alias_toks_def intro!: gives_if_word(2))
  then show ?thesis by (rule gives_bind) (use assms(4) None in simp)
next
  case (Some s)
  then have "gives (eat_if_keyword ''AS'' p) True (TIdent s # ts)"
    using assms(1) by (auto simp: alias_toks_def word_simps intro!: gives_if_word(1))
  then show ?thesis by (rule gives_bind) (use assms(2,4) Some in \<open>auto intro!: gives_bind [OF gives_ident]\<close>)
qed

lemma gives_return_item:
  assumes "rem p = return_item_toks i @ ts" "ts \<noteq> []" "ends (hd ts) \<and> \<not> is_keyword ''AS'' (hd ts)" "expr_ok A (ri_expr i)"
  shows "gives (parse_return_item p) i ts"
proof -
  have p: "rem p = expr_toks 0 (ri_expr i) @ alias_toks (ri_alias i) @ ts" using assms(1) by (simp add: return_item_toks_def)
  have "alias_toks (ri_alias i) @ ts \<noteq> []" "ends (hd (alias_toks (ri_alias i) @ ts))"
    using assms(2,3) by (auto simp: alias_toks_def ends_def stops_def word_simps split: option.split)
  then show ?thesis unfolding parse_return_item_def
    by (intro gives_bind [OF gives_expr [OF p _ _ assms(4)]] gives_alias [OF _ assms(2)] gives_return) (use assms(3) in auto)
qed

lemma gives_order_item:
  assumes "rem p = order_item_toks i @ ts" "ts \<noteq> []" "ends (hd ts) \<and> \<not> is_keyword ''DESC'' (hd ts) \<and> \<not> is_keyword ''ASC'' (hd ts)"
    "expr_ok A (oi_expr i)"
  shows "gives (parse_order_item p) i ts"
proof -
  let ?us = "(if oi_descending i then [kw ''DESC''] else []) @ ts"
  have p: "rem p = expr_toks 0 (oi_expr i) @ ?us" using assms(1) by (simp add: order_item_toks_def)
  have us: "?us \<noteq> []" "ends (hd ?us)" using assms(2,3) by (auto simp: ends_def stops_def word_simps)
  have desc: "gives (eat_if_keyword ''DESC'' q) (oi_descending i) ts" if "rem q = ?us" for q
    using that assms(2,3) by (cases "oi_descending i") (auto simp: word_simps intro!: gives_if_word)
  show ?thesis unfolding parse_order_item_def
    by (rule gives_bind [OF gives_expr [OF p us assms(4)]], rule gives_bind [OF desc], assumption)
      (use assms(2,3) in \<open>cases i; auto intro!: gives_return gives_bind [OF gives_if_word(2)]\<close>)
qed

text \<open>The tokens that can follow a query's items: a clause keyword or the end.\<close>

definition clause_end :: "'f tok \<Rightarrow> bool" where
  "clause_end t \<longleftrightarrow> t = TEof \<or> t \<in> kw ` {''ORDER'', ''SKIP'', ''LIMIT'', ''RETURN'', ''CREATE'', ''SET'', ''DETACH'', ''DELETE'', ''REMOVE''}"

lemma clause_end:
  assumes "clause_end t"
  shows "ends t" "t \<noteq> TComma" "t \<noteq> TDash" "t \<noteq> TLt" "\<not> is_keyword ''AS'' t" "\<not> is_keyword ''DESC'' t" "\<not> is_keyword ''ASC'' t"
    "\<not> is_keyword ''WHERE'' t"
  using assms by (auto simp: clause_end_def ends_def stops_def word_simps)

lemma clause_hd:
  "order_toks os @ us \<noteq> [] \<longleftrightarrow> os \<noteq> [] \<or> us \<noteq> []" "hd (order_toks os @ us) = (if os = [] then hd us else kw ''ORDER'')"
  "bound_toks w v @ us \<noteq> [] \<longleftrightarrow> v \<noteq> None \<or> us \<noteq> []" "hd (bound_toks w v @ us) = (if v = None then hd us else kw w)"
  by (auto simp: order_toks_def bound_toks_def split: option.splits)

lemma gives_return_clause:
  assumes "rem p = return_toks r @ ts" "ts \<noteq> []" "clause_end (hd ts)" "rc_items r \<noteq> []" "list_all (\<lambda>i. expr_ok A (ri_expr i)) (rc_items r)"
  shows "gives (parse_return_clause p) r ts"
proof -
  let ?us = "comma_toks return_item_toks (rc_items r) @ ts"
  have items: "gives (comma_list parse_return_item q) (rc_items r) ts" if "rem q = ?us" for q
    by (rule gives_comma_list [where P = "\<lambda>t. ends t \<and> \<not> is_keyword ''AS'' t" and f = return_item_toks])
      (use that assms clause_end [OF assms(3)] in \<open>auto simp: list_all_iff ends_def stops_def intro!: gives_return_item\<close>)
  obtain i where "i \<in> set (rc_items r)" "hd ?us = hd (expr_toks 0 (ri_expr i))" "?us \<noteq> []"
    using comma_toks_hd [OF assms(4), of return_item_toks ts] by (auto simp: return_item_toks_def expr_toks_nonempty)
  then have us: "\<not> is_keyword ''DISTINCT'' (hd ?us)" "?us \<noteq> []" using assms(5) expr_toks_distinct by (auto simp: list_all_iff)
  have "gives (eat_if_keyword ''DISTINCT'' p) (rc_distinct r) ?us"
    using assms(1) us by (cases "rc_distinct r") (auto simp: return_toks_def word_simps intro!: gives_if_word)
  then show ?thesis unfolding parse_return_clause_def
    by (rule gives_bind) (rule gives_bind [OF items], assumption, rule gives_return, assumption, simp)
qed

lemma gives_order_by:
  assumes "rem p = order_toks os @ ts" "ts \<noteq> []" "clause_end (hd ts)" "\<not> is_keyword ''ORDER'' (hd ts)" "list_all (\<lambda>i. expr_ok A (oi_expr i)) os"
    "\<And>q. rem q = ts \<Longrightarrow> gives (k os q) y us"
  shows "gives (pbind (eat_if_keyword ''ORDER'' p) (\<lambda>ord p.
    pbind (if ord then pbind (eat_keyword ''BY'' p) (\<lambda>_ p. comma_list parse_order_item p) else Some (Inr ([], p))) k)) y us"
proof (cases "os = []")
  case True
  then have "gives (eat_if_keyword ''ORDER'' p) False ts" using assms(1,2,4) by (auto simp: order_toks_def intro!: gives_if_word(2))
  then show ?thesis by (rule gives_bind) (use assms(6) True in simp)
next
  case False
  let ?us = "comma_toks order_item_toks os @ ts"
  have ord: "gives (eat_if_keyword ''ORDER'' p) True (kw ''BY'' # ?us)"
    using assms(1) False by (auto simp: order_toks_def word_simps intro!: gives_if_word(1))
  have items: "gives (comma_list parse_order_item q) os ts" if "rem q = ?us" for q
    by (rule gives_comma_list [where P = "\<lambda>t. ends t \<and> \<not> is_keyword ''DESC'' t \<and> \<not> is_keyword ''ASC'' t" and f = order_item_toks])
      (use that assms(2,5) False clause_end [OF assms(3)] in \<open>auto simp: list_all_iff ends_def stops_def intro!: gives_order_item\<close>)
  have by_items: "gives (pbind (eat_keyword ''BY'' q) (\<lambda>_ p. comma_list parse_order_item p)) os ts" if "rem q = kw ''BY'' # ?us" for q
    by (rule gives_bind [OF gives_word [OF that]]) (use assms(2) items in \<open>simp_all add: word_simps\<close>)
  show ?thesis by (rule gives_bind [OF ord], simp only: if_True, rule gives_bind [OF by_items], assumption, rule assms(6))
qed

lemma gives_bound:
  assumes "rem p = bound_toks w v @ ts" "ts \<noteq> []" "\<not> is_keyword w (hd ts)" "cy_bound_ok v"
  shows "gives (opt_uint w p) v ts"
proof (cases v)
  case None
  then have "gives (eat_if_keyword w p) False ts" using assms(1-3) by (auto simp: bound_toks_def intro!: gives_if_word(2))
  then show ?thesis unfolding opt_uint_def by (rule gives_bind) (use None in \<open>auto intro: gives_return\<close>)
next
  case (Some n)
  then have "gives (eat_if_keyword w p) True (TInt n # ts)" using assms(1) by (auto simp: bound_toks_def word_simps intro!: gives_if_word(1))
  then show ?thesis unfolding opt_uint_def parse_uint_def
    by (rule gives_bind) (use assms(2,4) Some in \<open>auto simp: cy_bound_ok_def intro!: gives_bind [where x = n and ts = ts] gives_advance gives_return\<close>)
qed

lemma gives_read_tail:
  assumes "rem p = kw ''RETURN'' # return_toks (cq_return q) @ order_toks (cq_order_by q) @ bound_toks ''SKIP'' (cq_skip q) @
      bound_toks ''LIMIT'' (cq_limit q) @ [TEof]" "query_ok A q"
  shows "gives (parse_read_tail (cq_pattern q) (cq_where q) p) q [TEof]"
proof -
  have ok: "rc_items (cq_return q) \<noteq> []" "list_all (\<lambda>i. expr_ok A (ri_expr i)) (rc_items (cq_return q))"
    "list_all (\<lambda>i. expr_ok A (oi_expr i)) (cq_order_by q)" "cy_bound_ok (cq_skip q)" "cy_bound_ok (cq_limit q)"
    using assms(2) by (auto simp: query_ok_def list_all_iff)
  show ?thesis unfolding parse_read_tail_def
    by (rule gives_bind, rule gives_word [OF assms(1)], simp add: clause_hd, simp add: word_simps,
        rule gives_bind, rule gives_return_clause [OF _ _ _ ok(1,2)], assumption, simp add: clause_hd, simp add: clause_hd clause_end_def,
        rule gives_order_by [OF _ _ _ _ ok(3)], assumption, simp add: clause_hd, simp add: clause_hd clause_end_def, simp add: clause_hd word_simps,
        rule gives_bind, rule gives_bound [OF _ _ _ ok(4)], assumption, simp add: clause_hd, simp add: clause_hd word_simps,
        rule gives_bind, rule gives_bound [OF _ _ _ ok(5)], assumption, simp, simp, rule gives_return, assumption, simp)
qed

lemma gives_single:
  assumes "gives (item p) x ts" "ts \<noteq> []" "hd ts \<noteq> TComma"
  shows "gives (comma_list item p) [x] ts"
  unfolding comma_list_def
  by (rule gives_bind [OF assms(1)], subst comma_loop.simps) (use assms(2,3) in \<open>auto intro!: gives_intros\<close>)

lemma gives_set_item:
  assumes "rem p = tl (write_clause_toks w) @ ts" "ts \<noteq> []" "ends (hd ts)" "write_ok A w" "(\<exists>v pr e. w = WSetProperty v pr e) \<or> (\<exists>v l. w = WSetLabel v l)"
  shows "gives (parse_one_set_item p) w ts"
  unfolding parse_one_set_item_def using assms
  by (auto simp: expr_toks_nonempty intro!: bind_eat_ident gives_peek gives_advance bind_eat_tok gives_bind [OF gives_expr] gives_return)

lemma gives_remove_item:
  assumes "rem p = tl (write_clause_toks w) @ ts" "ts \<noteq> []" "(\<exists>v pr. w = WRemoveProperty v pr) \<or> (\<exists>v l. w = WRemoveLabel v l)"
  shows "gives (parse_one_remove_item p) w ts"
  unfolding parse_one_remove_item_def using assms
  by (auto intro!: bind_eat_ident gives_peek gives_advance gives_return)

lemma gives_delete:
  assumes "rem p = write_clause_toks (WDelete vs d) @ ts" "ts \<noteq> []" "hd ts \<noteq> TComma" "vs \<noteq> []"
  shows "gives (parse_delete_clause p) (WDelete vs d) ts"
proof -
  let ?us = "comma_toks (\<lambda>v. [TIdent v]) vs @ ts"
  have items: "gives (comma_list eat_ident q) vs ts" if "rem q = ?us" for q
    by (rule gives_comma_list [where P = "\<lambda>_. True" and f = "\<lambda>v. [TIdent v]"]) (use that assms in \<open>auto intro!: gives_ident\<close>)
  have detach: "gives (eat_if_keyword ''DETACH'' p) d (kw ''DELETE'' # ?us)"
    using assms(1) by (cases d) (auto simp: word_simps intro!: gives_if_word)
  show ?thesis unfolding parse_delete_clause_def
    by (rule gives_bind [OF detach], rule gives_bind, rule gives_word, assumption)
      (use assms(2) in \<open>auto simp: word_simps intro!: gives_bind [OF items] gives_return\<close>)
qed

lemma gives_set_clause:
  assumes p: "rem p = write_clause_toks w @ ts" and ts: "ts \<noteq> []" "clause_end (hd ts)" and ok: "write_ok A w"
    and w: "(\<exists>v pr e. w = WSetProperty v pr e) \<or> (\<exists>v l. w = WSetLabel v l)"
  shows "gives (parse_write_clause A p) [w] ts"
proof -
  have "gives (comma_list parse_one_set_item q) [w] ts" if "rem q = tl (write_clause_toks w) @ ts" for q
    by (rule gives_single, rule gives_set_item [OF that ts(1) _ ok w]) (use ts clause_end [OF ts(2)] in auto)
  then show ?thesis unfolding parse_write_clause_def using p ts(1) w
    by (auto simp: word_simps expr_toks_nonempty intro!: gives_peek gives_advance)
qed

lemma gives_remove_clause:
  assumes p: "rem p = write_clause_toks w @ ts" and ts: "ts \<noteq> []" "clause_end (hd ts)"
    and w: "(\<exists>v pr. w = WRemoveProperty v pr) \<or> (\<exists>v l. w = WRemoveLabel v l)"
  shows "gives (parse_write_clause A p) [w] ts"
proof -
  have "gives (comma_list parse_one_remove_item q) [w] ts" if "rem q = tl (write_clause_toks w) @ ts" for q
    by (rule gives_single, rule gives_remove_item [OF that ts(1) w]) (use ts clause_end [OF ts(2)] in auto)
  then show ?thesis unfolding parse_write_clause_def using p ts(1) w
    by (auto simp: word_simps intro!: gives_peek gives_advance)
qed

lemma gives_write_clause:
  assumes p: "rem p = write_clause_toks w @ ts" and ts: "ts \<noteq> []" "clause_end (hd ts)" and ok: "write_ok A w"
  shows "gives (parse_write_clause A p) [w] ts"
proof (cases w)
  case (WCreate pat)
  have "gives (parse_pattern A q) pat ts" if "rem q = pattern_toks pat @ ts" for q
    by (rule gives_pattern [OF that ts(1)]) (use clause_end [OF ts(2)] ok WCreate in auto)
  then show ?thesis unfolding parse_write_clause_def using p ts(1) WCreate
    by (auto simp: word_simps intro!: gives_peek gives_advance gives_bind [of _ pat ts] gives_return)
next
  case (WDelete vs d)
  have "gives (parse_delete_clause p) w ts" using gives_delete [of p vs d ts] p ts(1) clause_end [OF ts(2)] ok WDelete by simp
  then have "gives (pbind (parse_delete_clause p) (\<lambda>w p. Some (Inr ([w], p)))) [w] ts" by (auto simp: gives_def)
  then show ?thesis unfolding parse_write_clause_def using p WDelete
    by (cases d) (auto simp: word_simps intro!: gives_peek)
qed (use gives_set_clause [OF p ts ok] gives_remove_clause [OF p ts] in auto)

section \<open>Reading programs\<close>

lemma write_clause_hd: "hd (write_clause_toks w @ us) \<in> kw ` {''CREATE'', ''SET'', ''DETACH'', ''DELETE'', ''REMOVE''}" "write_clause_toks w \<noteq> []"
  by (cases w; simp)+

lemma at_write_start: "t \<in> kw ` {''CREATE'', ''SET'', ''DETACH'', ''DELETE'', ''REMOVE''} \<Longrightarrow> at_write_clause_start t"
  unfolding at_write_clause_start_def by (elim imageE) (auto simp: word_simps)

lemma writes_hd: "clause_end (hd (concat (map write_clause_toks ws) @ [TEof]))"
  using write_clause_hd(1) by (cases ws) (fastforce simp: clause_end_def)+

lemma gives_write_loop:
  "rem p = concat (map write_clause_toks ws) @ [TEof] \<Longrightarrow> list_all (write_ok A) ws \<Longrightarrow> gives (write_loop A acc p) (acc @ ws) [TEof]"
proof (induction ws arbitrary: acc p)
  case Nil
  then show ?case by (subst write_loop.simps) (auto simp: at_write_clause_start_def intro!: gives_intros)
next
  case (Cons w ws)
  let ?us = "concat (map write_clause_toks ws) @ [TEof]"
  have p: "rem p = write_clause_toks w @ ?us" using Cons.prems(1) by simp
  have first: "gives (parse_write_clause A p) [w] ?us"
    by (rule gives_write_clause [OF p _ writes_hd]) (use Cons.prems(2) in auto)
  have start: "at_write_clause_start (hd (rem p))" "rem p \<noteq> []" unfolding p by (rule at_write_start, rule write_clause_hd(1), simp)
  have loop: "gives (write_loop A (acc @ [w]) q) ((acc @ [w]) @ ws) [TEof]" if "rem q = ?us" for q
    by (rule Cons.IH [OF that]) (use Cons.prems(2) in simp)
  have "gives (pbind (parse_write_clause A p) (\<lambda>ws p. write_loop A (acc @ ws) p)) (acc @ w # ws) [TEof]"
    by (rule gives_bind [OF first]) (use loop in simp)
  then show ?case using start by (subst write_loop.simps) (auto intro!: gives_peek)
qed

lemma gives_write_clauses:
  assumes "rem p = concat (map write_clause_toks ws) @ [TEof]" "list_all (write_ok A) ws" "ws \<noteq> []"
  shows "gives (parse_write_clauses A p) ws [TEof]"
proof -
  obtain w vs where ws: "ws = w # vs" using assms(3) by (cases ws) auto
  have "gives (parse_write_clause A p) [w] (concat (map write_clause_toks vs) @ [TEof])"
    by (rule gives_write_clause [OF _ _ writes_hd]) (use assms(1,2) ws in auto)
  then show ?thesis unfolding parse_write_clauses_def
    by (rule gives_bind) (use gives_write_loop [of _ vs A "[w]"] assms(2) ws in simp)
qed

lemma gives_reject:
  "rem p = ts \<Longrightarrow> ts \<noteq> [] \<Longrightarrow> list_all (\<lambda>w. \<not> is_keyword w (hd ts)) ws \<Longrightarrow> gives (reject_keywords ws p) () ts"
  by (induction ws) (auto intro!: gives_return gives_at_keyword)

lemma gives_where:
  assumes p: "rem p = where_toks wh @ ts" and ts: "ts \<noteq> []" "clause_end (hd ts)" and ok: "pred_option (expr_ok A) wh"
    and k: "\<And>q. rem q = ts \<Longrightarrow> gives (k wh q) y us"
  shows "gives (pbind (eat_if_keyword ''WHERE'' p) (\<lambda>w p.
    pbind (if w then pbind (parse_expr p) (\<lambda>e p. Some (Inr (Some e, p))) else Some (Inr (None, p))) k)) y us"
proof (cases wh)
  case None
  have "gives (eat_if_keyword ''WHERE'' p) False ts"
    by (rule gives_if_word(2)) (use p None ts clause_end(8) [OF ts(2)] in \<open>auto simp: where_toks_def\<close>)
  then show ?thesis by (rule gives_bind) (use k None in simp)
next
  case (Some e)
  have w: "gives (eat_if_keyword ''WHERE'' p) True (expr_toks 0 e @ ts)"
    by (rule gives_if_word(1)) (use p Some ts in \<open>auto simp: where_toks_def word_simps\<close>)
  have expr: "gives (parse_expr r) e ts" if "rem r = expr_toks 0 e @ ts" for r
    by (rule gives_expr [OF that ts(1) clause_end(1) [OF ts(2)]]) (use ok Some in simp)
  show ?thesis using k Some by (auto intro!: gives_bind [OF w] gives_bind [OF expr])
qed

lemma gives_match:
  assumes p: "rem p = match_toks pat wh @ ts" and ts: "ts \<noteq> []" "clause_end (hd ts)"
    and ok: "pred_option (cy_pattern_ok A) pat" "pred_option (expr_ok A) wh" "pat = None \<Longrightarrow> wh = None"
  shows "gives (parse_match A p) (pat, wh) ts"
proof (cases pat)
  case None
  have "\<not> is_keyword ''MATCH'' (hd ts)" using ts(2) by (auto simp: clause_end_def word_simps)
  then have "gives (eat_if_keyword ''MATCH'' p) False ts" using p ts(1) None by (auto simp: match_toks_def intro!: gives_if_word(2))
  then show ?thesis unfolding parse_match_def by (rule gives_bind) (use None ok(3) in \<open>auto intro: gives_return\<close>)
next
  case (Some pt)
  let ?us = "where_toks wh @ ts"
  have us: "?us \<noteq> []" "hd ?us \<noteq> TDash \<and> hd ?us \<noteq> TLt" "\<not> is_keyword ''MATCH'' (hd ?us)"
    "list_all (\<lambda>w. \<not> is_keyword w (hd ?us)) [''OPTIONAL'', ''MERGE'', ''WITH'', ''UNION'', ''UNWIND'']"
    using ts by (cases wh; auto simp: where_toks_def clause_end_def word_simps)+
  have m: "gives (eat_if_keyword ''MATCH'' p) True (pattern_toks pt @ ?us)"
    using p us(1) Some by (auto simp: match_toks_def where_toks_def word_simps intro!: gives_if_word(1))
  have pt: "gives (parse_pattern A q) pt ?us" if "rem q = pattern_toks pt @ ?us" for q
    by (rule gives_pattern [OF that us(1,2)]) (use ok(1) Some in simp)
  show ?thesis unfolding parse_match_def
    by (rule gives_bind [OF m], simp only: if_True, rule gives_bind [OF pt], assumption, rule gives_at_keyword, simp only: us(1) not_False_eq_True,
        subst if_not_P, use us(3) in simp, rule gives_bind, rule gives_reject [OF _ us(1,4)], assumption,
        rule gives_where [OF _ ts ok(2)], assumption, rule gives_return, assumption, simp add: Some)
qed

lemma gives_program_body:
  assumes "rem p = program_toks prog @ [TEof]" "program_ok A prog"
  shows "gives (parse_program_body A p) prog [TEof]"
proof (cases prog)
  case (Query q)
  let ?us = "kw ''RETURN'' # return_toks (cq_return q) @ order_toks (cq_order_by q) @ bound_toks ''SKIP'' (cq_skip q) @
    bound_toks ''LIMIT'' (cq_limit q) @ [TEof]"
  have ok: "query_ok A q" using assms(2) Query by simp
  have m: "gives (parse_match A p) (Some (cq_pattern q), cq_where q) ?us"
    by (rule gives_match) (use assms(1) ok Query in \<open>auto simp: query_ok_def clause_end_def\<close>)
  have tail: "gives (parse_read_tail (cq_pattern q) (cq_where q) r) q [TEof]" if "rem r = ?us" for r by (rule gives_read_tail [OF that ok])
  show ?thesis unfolding parse_program_body_def
    by (rule gives_bind [OF m])
      (auto simp: Query at_write_clause_start_def word_simps intro!: gives_peek gives_bind [OF tail] gives_return)
next
  case (Statement s)
  let ?us = "concat (map write_clause_toks (cs_writes s)) @ [TEof]"
  have ok: "cs_writes s \<noteq> []" "list_all (write_ok A) (cs_writes s)" using assms(2) Statement by auto
  have m: "gives (parse_match A p) (cs_pattern s, cs_where s) ?us"
    by (rule gives_match [OF _ _ writes_hd]) (use assms Statement in auto)
  have start: "at_write_clause_start (hd ?us)"
    using ok(1) write_clause_hd(1) at_write_start by (cases "cs_writes s") auto
  have writes: "gives (parse_write_clauses A r) (cs_writes s) [TEof]" if "rem r = ?us" for r by (rule gives_write_clauses [OF that ok(2,1)])
  show ?thesis unfolding parse_program_body_def
    by (rule gives_bind [OF m], simp only: prod.case, rule gives_peek, simp)
      (use start in \<open>auto simp: Statement intro!: gives_bind [OF writes] gives_at_keyword gives_return\<close>)
qed

section \<open>Written tokens\<close>

lemma unat_bound: "uint (n :: i64) < 2 ^ 63 \<longleftrightarrow> unat n < 2 ^ 63"
  unfolding uint_nat by (simp only: of_nat_less_iff [symmetric, where 'a = int], simp)

lemma sint_split: "sint (n :: i64) = (if uint n < 2 ^ 63 then uint n else uint n - 2 ^ 64)"
proof -
  have s: "sint n = (uint n + 2 ^ 63) mod 2 ^ 64 - 2 ^ 63" using int_word_sint [of "uint n", where 'a = 64] by simp
  have range: "0 \<le> uint n" "uint n < 2 ^ 64" using uint_lt2p [of n] by simp_all
  show ?thesis
  proof (cases "uint n < 2 ^ 63")
    case True
    then have "(uint n + 2 ^ 63) mod 2 ^ 64 = uint n + 2 ^ 63" using range(1) by (intro mod_pos_pos_trivial) simp_all
    then show ?thesis using s True by simp
  next
    case False
    have "(uint n + 2 ^ 63) mod 2 ^ 64 = (uint n + 2 ^ 63 - 2 ^ 64) mod 2 ^ 64" by (rule minus_mod_self2 [symmetric])
    also have "\<dots> = uint n + 2 ^ 63 - 2 ^ 64" using range(2) False by (intro mod_pos_pos_trivial) simp_all
    finally show ?thesis using s False by simp
  qed
qed

lemma written_int: "0 \<le> sint (n :: i64) \<Longrightarrow> unat n < 2 ^ 63"
  using uint_lt2p [of n] unfolding unat_bound [symmetric] sint_split by (simp split: if_splits)

lemma written_negative:
  assumes "\<not> 0 \<le> sint (n :: i64)" "- (2 ^ 63) < sint n"
  shows "unat (- n) < 2 ^ 63"
proof -
  have n: "2 ^ 63 < uint n" using assms unfolding sint_split by (simp split: if_splits)
  have "uint (- n) = (- uint n) mod 2 ^ 64" by (simp add: uint_word_ariths)
  also have "\<dots> = (2 ^ 64 - uint n) mod 2 ^ 64" using mod_add_self1 [of "2 ^ 64" "- uint n"] by simp
  also have "\<dots> = 2 ^ 64 - uint n" using n uint_lt2p [of n] by (intro mod_pos_pos_trivial) simp_all
  finally show ?thesis unfolding unat_bound [symmetric] using n by simp
qed

context char_classes
begin

lemma word_ok:
  assumes "w \<noteq> []" "list_all (\<lambda>c. 65 \<le> (of_char c :: nat) \<and> (of_char c :: nat) \<le> 90 \<or> 97 \<le> (of_char c :: nat) \<and> (of_char c :: nat) \<le> 122) w"
  shows "tok_ok A (kw w)"
proof -
  have "list_all (\<lambda>c. cc_alphabetic A c) (str w)" using assms(2) by (auto simp: list_all_iff ascii_alphabetic)
  then show ?thesis using assms(1) by (cases w) (auto simp: ident_ok_def ident_char_def list_all_iff)
qed

lemmas words_ok =
  word_ok [of "''MATCH''"] word_ok [of "''WHERE''"] word_ok [of "''RETURN''"] word_ok [of "''DISTINCT''"] word_ok [of "''AS''"]
  word_ok [of "''ORDER''"] word_ok [of "''BY''"] word_ok [of "''DESC''"] word_ok [of "''SKIP''"] word_ok [of "''LIMIT''"]
  word_ok [of "''CREATE''"] word_ok [of "''SET''"] word_ok [of "''DETACH''"] word_ok [of "''DELETE''"] word_ok [of "''REMOVE''"]
  word_ok [of "''AND''"] word_ok [of "''OR''"] word_ok [of "''NOT''"] word_ok [of "''true''"] word_ok [of "''false''"] word_ok [of "''null''"]

lemmas words = words_ok [simplified]

lemmas written = written_int [simplified] written_negative [simplified]

lemma lit_toks_ok: "lit_ok v \<Longrightarrow> list_all (tok_ok A) (lit_toks v)"
  by (cases v) (auto simp: words written)

lemma expr_lit_ok: "expr_ok A (ELiteral x) \<Longrightarrow> lit_ok x"
  by (cases x) auto

lemma expr_toks_ok: "expr_ok A e \<Longrightarrow> list_all (tok_ok A) (expr_toks l e)"
proof (induction l e rule: expr_toks.induct)
  case (3 l x)
  then show ?case using lit_toks_ok [OF expr_lit_ok] by simp
qed (auto simp: paren_def name_ok_def words)

lemma comma_toks_ok: "list_all (\<lambda>x. list_all (tok_ok A) (f x)) xs \<Longrightarrow> list_all (tok_ok A) (comma_toks f xs)"
  by (cases xs) (auto simp: comma_toks_def list_all_iff)

lemma props_toks_ok: "props_ok A ps \<Longrightarrow> list_all (tok_ok A) (props_toks ps)"
  unfolding props_toks_def props_ok_def
  by (auto intro!: comma_toks_ok elim!: list.pred_mono_strong simp: prop_toks_def lit_toks_ok)

lemma ident_opt_ok: "pred_option (ident_ok A) v \<Longrightarrow> list_all (tok_ok A) (ident_opt_toks v) \<and> list_all (tok_ok A) (type_toks v) \<and> list_all (tok_ok A) (alias_toks v)"
  by (cases v) (simp_all add: ident_opt_toks_def type_toks_def alias_toks_def words)

lemma node_toks_ok: "node_ok A n \<Longrightarrow> list_all (tok_ok A) (node_toks n)"
  using props_toks_ok [of "np_properties n"] ident_opt_ok [of "np_variable n"]
  by (auto simp: node_ok_def node_toks_def labels_toks_def list_all_iff)

lemma uint_toks_ok: "cy_bound_ok v \<Longrightarrow> list_all (tok_ok A) (uint_opt_toks v)"
  by (cases v) (auto simp: cy_bound_ok_def uint_opt_toks_def written)

lemma rel_toks_ok: "rel_ok A r \<Longrightarrow> list_all (tok_ok A) (rel_toks r)"
  using props_toks_ok [of "rp_properties r"] ident_opt_ok [of "rp_variable r"] ident_opt_ok [of "rp_type r"]
  by (cases "rp_length r") (auto simp: rel_ok_def rel_toks_def length_toks_def uint_toks_ok)

lemma pattern_toks_ok: "cy_pattern_ok A pat \<Longrightarrow> list_all (tok_ok A) (pattern_toks pat)"
  unfolding cy_pattern_ok_def pattern_toks_def hops_toks_def using node_toks_ok rel_toks_ok by (fastforce simp: list_all_iff)

lemma write_toks_ok: "write_ok A w \<Longrightarrow> list_all (tok_ok A) (write_clause_toks w)"
  by (cases w) (auto simp: pattern_toks_ok expr_toks_ok words intro!: comma_toks_ok)

lemma match_toks_ok:
  "pred_option (cy_pattern_ok A) pat \<Longrightarrow> pred_option (expr_ok A) wh \<Longrightarrow> list_all (tok_ok A) (match_toks pat wh)"
  by (cases pat; cases wh) (auto simp: match_toks_def where_toks_def pattern_toks_ok expr_toks_ok words)

lemma bound_toks_ok: "cy_bound_ok v \<Longrightarrow> list_all (tok_ok A) (bound_toks ''SKIP'' v) \<and> list_all (tok_ok A) (bound_toks ''LIMIT'' v)"
  by (cases v) (auto simp: cy_bound_ok_def bound_toks_def written words)

lemma return_toks_ok:
  "list_all (\<lambda>i. expr_ok A (ri_expr i) \<and> pred_option (ident_ok A) (ri_alias i)) (rc_items r) \<Longrightarrow> list_all (tok_ok A) (return_toks r)"
  unfolding return_toks_def
  by (auto intro!: comma_toks_ok elim!: list.pred_mono_strong simp: return_item_toks_def expr_toks_ok ident_opt_ok words)

lemma order_toks_ok: "list_all (\<lambda>i. expr_ok A (oi_expr i)) os \<Longrightarrow> list_all (tok_ok A) (order_toks os)"
  unfolding order_toks_def
  by (auto intro!: comma_toks_ok elim!: list.pred_mono_strong simp: order_item_toks_def expr_toks_ok words)

lemma program_toks_ok: "program_ok A prog \<Longrightarrow> list_all (tok_ok A) (program_toks prog)"
proof (cases prog)
  case (Query q)
  assume "program_ok A prog"
  then show ?thesis using Query by (simp add: query_ok_def match_toks_ok return_toks_ok order_toks_ok bound_toks_ok words)
next
  case (Statement s)
  assume "program_ok A prog"
  then show ?thesis using match_toks_ok [of "cs_pattern s" "cs_where s"] write_toks_ok Statement by (auto simp: list_all_iff)
qed

end

section \<open>The round trip\<close>

definition sample_query :: "unit cypher_query" where
  "sample_query =
     \<lparr>cq_pattern = \<lparr>pt_start = \<lparr>np_variable = Some (str ''a''), np_labels = [str ''Person''], np_properties = [(str ''name'', LStr (str ''Ann'')), (str ''age'', LInt (- 3))]\<rparr>,
        pt_hops = [(\<lparr>rp_variable = Some (str ''r''), rp_type = Some (str ''KNOWS''), rp_direction = DirLeft, rp_length = Some \<lparr>vl_min = Some 1, vl_max = None\<rparr>, rp_properties = []\<rparr>,
          \<lparr>np_variable = None, np_labels = [], np_properties = []\<rparr>)]\<rparr>,
      cq_where = Some (EOr (ENot (ELt (ESub (ESub (EVariable (str ''a'')) (ELiteral (LInt 1))) (ELiteral (LInt 2))) (ENeg (EProperty (EVariable (str ''r'')) (str ''w'')))))
        (EAnd (EOr (ELiteral (LBool True)) (ELiteral LNull)) (EEq (EMul (ESub (EVariable (str ''a'')) (ESub (EVariable (str ''a'')) (EVariable (str ''b'')))) (EVariable (str ''c''))) (ELiteral (LStr (str ''x'')))))),
      cq_return = \<lparr>rc_distinct = True, rc_items = [\<lparr>ri_expr = EVariable (str ''a''), ri_alias = Some (str ''who'')\<rparr>, \<lparr>ri_expr = EVariable (str ''order''), ri_alias = None\<rparr>]\<rparr>,
      cq_order_by = [\<lparr>oi_expr = EProperty (EVariable (str ''a'')) (str ''age''), oi_descending = True\<rparr>], cq_skip = None, cq_limit = Some 5\<rparr>"

text \<open>
  (C14) Every program that can be written is parsed back: the lexer and the parser, on the text of a query or of
  a statement with writing clauses, return exactly that program. The text has parentheses only where a context
  binds tighter than the operator, so precedence, association to the left, arrows, variable lengths, bounds and
  the order of the clauses are all read as they were written.
\<close>

theorem cypher_roundtrip:
  assumes classes: "char_classes A" and ok: "program_ok A prog"
  shows "parse_program A (program_text prog) = Some (Inr prog)"
proof -
  obtain ss where ss: "lex A (program_text prog) = Inr ss" "map sp_tok ss = program_toks prog @ [TEof]"
    using char_classes.lex_written [OF classes char_classes.program_toks_ok [OF classes ok]] by (auto simp: program_text_def)
  let ?p = "\<lparr>ps_toks = ss, ps_pos = 0\<rparr>"
  have "rem ?p = program_toks prog @ [TEof]" using ss(2) by (simp add: rem_def)
  then have "gives (parse_program_body A ?p) prog [TEof]" using ok by (rule gives_program_body)
  then obtain q where q: "parse_program_body A ?p = Some (Inr (prog, q))" "rem q = [TEof]" by (auto simp: gives_def)
  then show ?thesis using ss(1) peek_rem [OF q(2)] by (simp add: parse_program_def expect_eof_def)
qed

theorem cypher_roundtrip_witness:
  "program_ok ascii_api (Query sample_query) \<and> parse_program ascii_api (program_text (Query sample_query)) = Some (Inr (Query sample_query))"
proof -
  have ok: "program_ok ascii_api (Query sample_query)"
    by (simp add: sample_query_def query_ok_def cy_pattern_ok_def node_ok_def rel_ok_def props_ok_def cy_bound_ok_def name_ok_def name_free_def
        ident_ok_def ident_char_def ascii_api_def word_simps)
  show ?thesis using cypher_roundtrip [OF ascii.char_classes_axioms ok] ok by simp
qed

end
