(* ===== verification/Spec2Isabelle.thy ===== *)
theory Spec2Isabelle
  imports SameAs StoreHistory CypherRoundtrip
begin

text \<open>
  A verification library for oxigraph-nova, a SPARQL database: RDF quads kept by pluggable storage
  engines behind one trait, a term dictionary that maps RDF terms to 40-bit identifiers, a write-ahead
  log and a manifest that make writes durable, an OWL 2 RL reasoner that materialises consequences
  with a semi-naive fixpoint over a leapfrog trie join, and a front end for a subset of openCypher.

  \<^bold>\<open>How the parts interact.\<close> A write reaches an engine through the trait
  \<^verbatim>\<open>QuadStore\<close>. The persistent engine interns the terms of the quad (\<^verbatim>\<open>Dictionary::intern\<close>), appends the
  operation to the log (\<^verbatim>\<open>WalWriter\<close>), and records the packed 128-bit key in the write buffer
  (\<^verbatim>\<open>Delta\<close>). A merge writes a new generation of files, commits it by replacing the manifest
  (\<^verbatim>\<open>Manifest::save\<close>), rotates the log and compacts the dictionary. On opening, the manifest selects the
  generation and the log is replayed. The reasoner reads the store through \<^verbatim>\<open>AtomSource\<close>, joins rule
  bodies with \<^verbatim>\<open>leapfrog_join\<close>, and merges equal individuals with a union-find. A Cypher text is lexed and
  parsed to a query or a write statement before it is translated to SPARQL algebra.

  \<^bold>\<open>Theories and the sources they model\<close> (paths below \<^verbatim>\<open>src/crates\<close>).
  \<^item> \<open>Prelude\<close>: machine types, \<^verbatim>\<open>core/nova-core/src/error.rs\<close>, slice operations of the standard library,
    sequencing of fallible state changes, shared lemmas.
  \<^item> \<open>Ids\<close>: \<^verbatim>\<open>TermId\<close>, \<^verbatim>\<open>GraphId\<close>, \<^verbatim>\<open>pack_quad\<close>, \<^verbatim>\<open>unpack_quad\<close> of \<^verbatim>\<open>core/nova-core/src/dict.rs\<close>, with
    words of 64, 8 and 128 bits. The key layout is a bijection and orders quads graph-major.
  \<^item> \<open>Delta\<close>: the write buffer, \<^verbatim>\<open>engines/nova-engine-louds/src/delta.rs\<close>. The last write to a key wins;
    a range scan lists exactly the matching writes in key order.
  \<^item> \<open>Rdf\<close>: UTF-8, terms, quads; literals of the \<^verbatim>\<open>oxrdf\<close> crate are opaque (\<open>literal_api\<close>,
    \<open>literal_laws\<close>).
  \<^item> \<open>Wal\<close>: \<^verbatim>\<open>core/nova-storage/src/wal.rs\<close>: record codec, framing, writer, replay. Records round trip;
    after a crash that keeps at least the synced bytes, replay applies a prefix of the appended records
    that contains every synced one. A file is its byte contents with the length known to be durable.
  \<^item> \<open>Manifest\<close>: \<^verbatim>\<open>core/nova-storage/src/manifest.rs\<close>: text format, atomic save, load, file names, removal
    of obsolete files, over a directory as a map from names to bytes. Saving is atomic under a crash
    (\<open>save_crash\<close>, an inductive relation of the states a crash can leave).
  \<^item> \<open>DictCompact\<close>: \<^verbatim>\<open>core/nova-core/src/dict_compact.rs\<close>: varints, front-coded blocks, lookup in both
    directions. Decoding inverts building; lookup is exact unless a key straddles a block boundary.
  \<^item> \<open>DictCache\<close>: \<^verbatim>\<open>core/nova-core/src/dict_block_cache.rs\<close>: the tier whose blocks are compressed and read
    through a cache; the locale \<open>block_reader\<close> is what its lookups need of the blocks.
  \<^item> \<open>Dict\<close>: the dictionary of \<^verbatim>\<open>dict.rs\<close>: interning, lookup, decoding through the cache, compaction,
    reconstruction, graph table. \<open>dict_rep\<close> relates a dictionary to the list of its terms; interning
    refines appending to the list, compaction and reconstruction keep it. Two failures are shown: a term
    whose key straddles a block boundary gets a second identifier, and looking up an unknown quoted triple
    panics after a compaction.
  \<^item> \<open>DictSnapshot\<close>: the dictionary on disk, \<^verbatim>\<open>core/nova-storage/src/dict_lz4.rs\<close>, \<^verbatim>\<open>dict_snapshot.rs\<close> and the
    snapshots of \<^verbatim>\<open>dict.rs\<close> and \<^verbatim>\<open>dict_block_cache.rs\<close>. Writing a compacted dictionary and loading it keeps
    terms, identifiers and graphs; reads through the block cache return what the tier in memory returns.
  \<^item> \<open>QuadStore\<close>: the trait of \<^verbatim>\<open>core/nova-core/src/store.rs\<close> as the locale \<open>quad_store\<close>, with its default
    methods. \<open>MemoryStore\<close>: \<^verbatim>\<open>engines/nova-engine-memory/src/lib.rs\<close>, which interprets it.
  \<^item> \<open>Louds\<close>, \<open>Cltj\<close>, \<open>Ring\<close>: the index of one graph, \<^verbatim>\<open>engines/nova-engine-louds/src/louds.rs\<close>,
    \<^verbatim>\<open>cltj.rs\<close>, \<^verbatim>\<open>ring.rs\<close>: a succinct trie over bits and label regions, its cursors in the six sort
    orders, and the index that answers patterns and join scans. A trie enumerates exactly the triples it
    was built from; the cursors satisfy the contract \<open>trie_iterator\<close>, so the joins and the fixpoint run
    over an index; serialising and reading back restores it.
  \<^item> \<open>Store\<close>, \<open>StoreQuery\<close>, \<open>StoreCompact\<close>, \<open>StoreLoad\<close>: the engine that composes dictionary, indexes and
    write buffer, \<^verbatim>\<open>store.rs\<close> and \<^verbatim>\<open>snapshot.rs\<close> of the same crate, as \<^verbatim>\<open>LoudsStore::new\<close> makes it.
    \<open>store_rep\<close> relates a store to its terms and indexed rows; writes refine operations on a set of quads
    (the locale \<open>quad_store\<close> again), pattern scans return that set's matching quads, compaction and bulk
    load keep or extend it. The count the store reports is shown exact after compaction and wrong after
    a write that was undone.
  \<^item> \<open>StoreDisk\<close>: the same engine with a data directory (\<^verbatim>\<open>LoudsStore::open\<close>): logging under a sync policy,
    the commit of a generation, automatic compaction, bulk load, replay on opening, flush and backup.
    \<open>StoreDurable\<close>: a store on disk means a \<open>durable_log\<close> (the quads of the committed generation and the
    records logged since, with how many are durable); \<open>disk_rep\<close> ties files and memory to it, and opening
    what a crash left restores a prefix of the log. \<open>StoreRecovery\<close>: every operation keeps \<open>disk_rep\<close>, by
    rule induction over histories (\<open>disk_reach\<close>) that contain crashes. \<open>StoreHistory\<close>: the guarantees, with
    a concrete environment; two sequences of operations are shown to lose acknowledged writes.
  \<^item> \<open>TrieIter\<close>: \<^verbatim>\<open>core/nova-core/src/trie.rs\<close>, \<^verbatim>\<open>core/nova-reasoning/src/sorted_vec_trie.rs\<close> and the union
    iterator of \<^verbatim>\<open>join.rs\<close>; the contract is the locale \<open>trie_iterator\<close> over the set of key paths left.
  \<^item> \<open>Join\<close>, \<open>Rule\<close>, \<open>Fixpoint\<close>: \<^verbatim>\<open>core/nova-reasoning/src/join.rs\<close>, \<^verbatim>\<open>rule.rs\<close>, \<^verbatim>\<open>fixpoint.rs\<close>. The join
    returns each solution of its atoms once; dispatch selects exactly the rules a delta can fire; the
    fixpoint ends with the least closure of the seed under the rules.
  \<^item> \<open>SameAs\<close>: \<^verbatim>\<open>core/nova-reasoning/src/same_as.rs\<close>: representatives agree exactly on connected terms.
  \<^item> \<open>CypherLexer\<close>, \<open>CypherParser\<close>: \<^verbatim>\<open>core/nova-cypher/src/lexer.rs\<close>, \<^verbatim>\<open>ast.rs\<close> and \<^verbatim>\<open>parser.rs\<close>: every token,
    clause and error. \<open>CypherTotal\<close>: parsing ends without a panic on every text (\<open>yields\<close> bounds the tokens a
    call leaves). \<open>CypherExpr\<close>, \<open>CypherRoundtrip\<close>: a writer that brackets by precedence, and that the parser
    reads back every program it writes.

  \<^bold>\<open>Conventions.\<close> A panic is \<open>None\<close> in the option monad; a Rust \<^verbatim>\<open>Err\<close> is \<open>Inl\<close> of a sum.
  Loops without a syntactic bound (the leapfrog alignment, the fixpoint, replay, \<^verbatim>\<open>find\<close>) are partial
  functions in the option monad, whose value is \<open>None\<close> when the loop does not end; each is proved to
  return. There is no fuel. A \<^verbatim>\<open>usize\<close> is a natural number; where a sum or product could exceed it, the
  bound \<open>usize_max\<close> is a hypothesis. Labels of a trie keep their 32 bits. Operations that the code runs under one lock are one step;
  the flusher thread is the operation \<open>disk_flush_wal\<close>, possible at any time. File-system calls succeed, apart
  from the removal of obsolete files. A crash keeps every file but the tails of log segments, of which at least
  the durable bytes stay; a commit that a crash interrupts has completed a prefix of its file operations
  (\<open>disk_like\<close> before the new segment exists and during the final removals, \<open>rotated\<close> before the manifest).

  \<^bold>\<open>Parameters\<close>, standing for code outside the repository: the checksum of \<^verbatim>\<open>crc32fast\<close> (nothing
  assumed), literal accessors of \<^verbatim>\<open>oxrdf\<close>, bit-packed vectors and rank/select
  bit vectors of \<^verbatim>\<open>sux\<close> (\<open>bit_fields\<close>, \<open>rank_select\<close>), the cache of the \<^verbatim>\<open>lru\<close> crate (\<open>lru_cache\<close>), the
  serialisation of \<^verbatim>\<open>epserde\<close> (\<open>st_serialize\<close>, \<open>st_deserialize\<close>, \<open>dict_codec\<close>), the compression of
  \<^verbatim>\<open>lz4_flex\<close> (\<open>lz4_api\<close>, \<open>lz4_laws\<close>), the iteration order of hash maps (\<open>st_order\<close>), and the order in which a
  directory is listed and whether a file can be removed (\<open>disk_env\<close>). The classes of Unicode characters and the reading of \<^verbatim>\<open>f64\<close> decimals are parameters of the lexer
  (\<open>cy_api\<close>); \<open>char_classes\<close> has the ASCII members of the classes. Each parameter is instantiated by a concrete
  function in the witnesses.

  \<^bold>\<open>Not modelled.\<close> The SPARQL evaluator and planner, the translation of Cypher syntax trees to SPARQL
  algebra (types of the \<^verbatim>\<open>spargebra\<close> crate), the depth of the parser's stack, the SHACL front end, the wavelet-matrix
  Ring engine and the RocksDB engine, the prepared shapes, full-text feature and diagnostics of the LOUDS
  engine, the server, the command line and the language bindings: they are listed with reasons in
  the manifest.
\<close>

end
